(* ===== verification/Sponge_Prelude.thy ===== *)
theory Sponge_Prelude
  imports Main "HOL-Library.Word"
begin

unbundle bit_operations_syntax

text \<open>
  The vocabulary shared by every component of the library.

  \<^item> Bytes and machine integers. A \<^verbatim>\<open>std::string\<close> is a list of \<open>8 word\<close>. Protocol
    fields of 8, 16 and 32 bits are words of that width. A \<^verbatim>\<open>size_t\<close> or \<^verbatim>\<open>uint64_t\<close> is a
    \<open>nat\<close> below \<open>2 ^ 64\<close>, and every addition or subtraction of the code that could leave
    that range goes through \<open>u64\<close> or \<open>sub64\<close>, which write the wrap-around out.
  \<^item> Exceptions. A function of the code that may throw returns \<open>exn + 'a\<close>, with \<open>Inl\<close>
    for the exception; \<open>bindE\<close> runs the rest of the function on a normal result.
  \<^item> Generic list facts that the byte stream, the reassembler and the parsers use.
\<close>

section \<open>Types and exceptions\<close>

type_synonym byte = "8 word"
type_synonym bytes = "8 word list"
type_synonym size_t = nat
type_synonym uint64_t = nat
type_synonym uint32_t = "32 word"
type_synonym uint16_t = "16 word"
type_synonym uint8_t = "8 word"

datatype exn =
    Out_of_range string | Runtime_error string | Invalid_argument string | Length_error string
  | Tagged_error string string int

definition bindE :: "'e + 'a \<Rightarrow> ('a \<Rightarrow> 'e + 'b) \<Rightarrow> 'e + 'b" where
  "bindE m f = (case m of Inl e \<Rightarrow> Inl e | Inr x \<Rightarrow> f x)"

lemma bindE_Inl [simp]: "bindE (Inl e) f = Inl e"
  by (simp add: bindE_def)

lemma bindE_Inr [simp]: "bindE (Inr x) f = f x"
  by (simp add: bindE_def)

lemma bindE_eq_Inr: "bindE m f = Inr y \<longleftrightarrow> (\<exists>x. m = Inr x \<and> f x = Inr y)"
  by (cases m) auto

lemma bindE_eq_Inl: "bindE m f = Inl e \<longleftrightarrow> m = Inl e \<or> (\<exists>x. m = Inr x \<and> f x = Inl e)"
  by (cases m) auto

text \<open>A result that throws nothing but exceptions of \<open>E\<close>, and if it returns, a value that satisfies \<open>Q\<close>.\<close>

definition throws_only :: "exn set \<Rightarrow> exn + 'a \<Rightarrow> ('a \<Rightarrow> bool) \<Rightarrow> bool" where
  "throws_only E r Q \<longleftrightarrow> (case r of Inl e \<Rightarrow> e \<in> E | Inr x \<Rightarrow> Q x)"

lemma throws_only_simps [simp]:
  "throws_only E (Inl e) Q \<longleftrightarrow> e \<in> E" "throws_only E (Inr x) Q \<longleftrightarrow> Q x"
  "throws_only E (bindE r f) Q \<longleftrightarrow> throws_only E r (\<lambda>x. throws_only E (f x) Q)"
  by (simp_all add: throws_only_def bindE_def split: sum.split)

lemma throws_only_iff: "throws_only E r Q \<longleftrightarrow> (\<exists>e \<in> E. r = Inl e) \<or> (\<exists>x. r = Inr x \<and> Q x)"
  by (cases r) auto

lemma throws_only_mono: "throws_only E r Q \<Longrightarrow> (\<And>x. r = Inr x \<Longrightarrow> Q x \<Longrightarrow> Q' x) \<Longrightarrow> throws_only E r Q'"
  by (cases r) auto

named_theorems wrap_simps
  "rewrite rules that remove 64-bit wrap-around where the values are in range"

named_theorems inv_defs
  "the definitions of the components' invariants"

section \<open>64-bit unsigned arithmetic on naturals\<close>

definition u64 :: "nat \<Rightarrow> nat" where
  "u64 n = n mod 2 ^ 64"

definition sub64 :: "nat \<Rightarrow> nat \<Rightarrow> nat" where
  "sub64 a b = (a + 2 ^ 64 - u64 b) mod 2 ^ 64"

lemma u64_less: "u64 n < 2 ^ 64"
  unfolding u64_def by (rule mod_less_divisor) simp

lemma sub64_less: "sub64 a b < 2 ^ 64"
  unfolding sub64_def by (rule mod_less_divisor) simp

lemmas u64_less_num [simp] = u64_less [simplified] sub64_less [simplified]

lemma u64_id [wrap_simps]: "n < 2 ^ 64 \<Longrightarrow> u64 n = n"
  by (simp add: u64_def)

lemma u64_idem [simp]: "u64 (u64 n) = u64 n"
  by (simp add: u64_def)

lemma u64_add_u64 [simp]: "u64 (u64 a + b) = u64 (a + b)" "u64 (a + u64 b) = u64 (a + b)"
  by (simp_all add: u64_def mod_simps)

lemma u64_add_u64_diff [simp]: "c \<le> b \<Longrightarrow> u64 (u64 a + b - c) = u64 (a + b - c)"
  using u64_add_u64(1) [of a "b - c"] by simp

lemma u64_le: "u64 n \<le> n"
  by (simp add: u64_def)

lemma sub64_id [wrap_simps]: "b \<le> a \<Longrightarrow> a < 2 ^ 64 \<Longrightarrow> sub64 a b = a - b"
proof -
  assume h: "b \<le> a" "a < 2 ^ 64"
  then have "a + 2 ^ 64 - u64 b = (a - b) + 2 ^ 64" by (simp add: u64_id)
  then show ?thesis using h unfolding sub64_def by (simp only: mod_add_self2) simp
qed

lemma sub64_self [simp]: "a < 2 ^ 64 \<Longrightarrow> sub64 a a = 0"
  by (simp add: sub64_id)

text \<open>Adding to the minuend adds to the difference as long as the difference does not wrap.\<close>

lemma sub64_u64_add:
  assumes "sub64 a b + n < 2 ^ 64"
  shows "sub64 (u64 (a + n)) b = sub64 a b + n"
proof -
  have b: "u64 b < 2 ^ 64" by (rule u64_less)
  then have "(a + n) mod 2 ^ 64 + 2 ^ 64 - u64 b = (a + n) mod 2 ^ 64 + (2 ^ 64 - u64 b)"
    by linarith
  then have "sub64 (u64 (a + n)) b = ((a + n) + (2 ^ 64 - u64 b)) mod 2 ^ 64"
    unfolding sub64_def u64_def [of "a + n"] by (simp only: mod_add_left_eq)
  also have "(a + n) + (2 ^ 64 - u64 b) = (a + 2 ^ 64 - u64 b) + n"
    using b by linarith
  also have "((a + 2 ^ 64 - u64 b) + n) mod 2 ^ 64 = (sub64 a b + n) mod 2 ^ 64"
    unfolding sub64_def by (simp only: mod_add_left_eq)
  also have "\<dots> = sub64 a b + n"
    using assms by simp
  finally show ?thesis .
qed

section \<open>Lists of bytes\<close>

lemma take_min_length: "take (min n (length xs)) xs = take n xs"
  by (cases "n \<le> length xs") (simp_all add: min_def)

lemma drop_min_length: "drop (min n (length xs)) xs = drop n xs"
  by (cases "n \<le> length xs") (simp_all add: min_def)

text \<open>
  Agreement of a substring placed at an index with a stream: \<open>agrees S i d\<close> says that the
  bytes of \<open>d\<close> are those of \<open>S\<close> from index \<open>i\<close> on.
\<close>

definition agrees :: "bytes \<Rightarrow> nat \<Rightarrow> bytes \<Rightarrow> bool" where
  "agrees S i d \<longleftrightarrow> i + length d \<le> length S \<and> d = take (length d) (drop i S)"

lemma agrees_length: "agrees S i d \<Longrightarrow> i + length d \<le> length S"
  by (simp add: agrees_def)

lemma agrees_eq: "agrees S i d \<Longrightarrow> d = take (length d) (drop i S)"
  by (simp add: agrees_def)

lemma agrees_nth:
  "agrees S i d \<longleftrightarrow> i + length d \<le> length S \<and> (\<forall>k < length d. d ! k = S ! (i + k))"
  by (auto simp: agrees_def list_eq_iff_nth_eq)

lemma agrees_substr:
  "agrees S i d \<Longrightarrow> k \<le> length d \<Longrightarrow> agrees S (i + k) (take n (drop k d))"
  by (auto simp: agrees_nth algebra_simps)

lemma agrees_append:
  "agrees S i c \<Longrightarrow> agrees S (i + length c) d \<Longrightarrow> agrees S i (c @ d)"
  by (auto simp: agrees_nth nth_append)

lemma agrees_drop: "agrees S i d \<Longrightarrow> n \<le> length d \<Longrightarrow> agrees S (i + n) (drop n d)"
  using agrees_substr [of S i d n "length d - n"] by simp

lemma agrees_take: "agrees S i d \<Longrightarrow> agrees S i (take n d)"
  using agrees_substr [of S i d 0 n] by simp

end
