(* ===== verification/Buffers.thy ===== *)
theory Buffers
  imports Sponge_Prelude
begin

text \<open>
  \<^verbatim>\<open>util/buffer.hh\<close> and \<^verbatim>\<open>util/buffer.cc\<close>: the reference-counted strings that discard bytes from
  the front (\<^verbatim>\<open>Buffer\<close>), their concatenations (\<^verbatim>\<open>BufferList\<close>) and the non-owning views
  (\<^verbatim>\<open>BufferViewList\<close>). The three share one contract, the locale \<open>discardable\<close>: a byte
  string whose front can be dropped, with an exception when more is dropped than is there.

  The storage behind a \<^verbatim>\<open>shared_ptr\<close> is never written after construction, so sharing it between
  buffers is not observable and the model copies it. Lengths of strings held in memory do not
  wrap.
\<close>

section \<open>Buffer\<close>

record Buffer =
  buf_storage :: "bytes option"
  buf_starting_offset :: size_t

definition buf_empty :: Buffer where
  "buf_empty = \<lparr>buf_storage = None, buf_starting_offset = 0\<rparr>"

definition buf_of_string :: "bytes \<Rightarrow> Buffer" where
  "buf_of_string s = \<lparr>buf_storage = Some s, buf_starting_offset = 0\<rparr>"

definition buf_str :: "Buffer \<Rightarrow> bytes" where
  "buf_str b = (case buf_storage b of None \<Rightarrow> [] | Some s \<Rightarrow> drop (buf_starting_offset b) s)"

definition buf_at :: "size_t \<Rightarrow> Buffer \<Rightarrow> exn + uint8_t" where
  "buf_at n b =
     (if n < length (buf_str b) then Inr (buf_str b ! n) else Inl (Out_of_range ''string_view::at''))"

definition buf_size :: "Buffer \<Rightarrow> size_t" where
  "buf_size b = length (buf_str b)"

definition buf_copy :: "Buffer \<Rightarrow> bytes" where
  "buf_copy b = buf_str b"

text \<open>The part of \<^verbatim>\<open>Buffer::remove_prefix\<close> after its range check.\<close>

definition buf_advance :: "size_t \<Rightarrow> Buffer \<Rightarrow> Buffer" where
  "buf_advance n b =
     (let off = u64 (buf_starting_offset b + n)
      in case buf_storage b of
           None \<Rightarrow> b\<lparr>buf_starting_offset := off\<rparr>
         | Some s \<Rightarrow>
             if off = length s then b\<lparr>buf_starting_offset := off, buf_storage := None\<rparr>
             else b\<lparr>buf_starting_offset := off\<rparr>)"

definition buf_remove_prefix :: "size_t \<Rightarrow> Buffer \<Rightarrow> exn + Buffer" where
  "buf_remove_prefix n b =
     (if length (buf_str b) < n then Inl (Out_of_range ''Buffer::remove_prefix'')
      else Inr (buf_advance n b))"

section \<open>BufferList\<close>

type_synonym BufferList = "Buffer list"

definition bl_append :: "BufferList \<Rightarrow> BufferList \<Rightarrow> BufferList" where
  "bl_append self other = self @ other"

definition bl_of_buffer :: "Buffer \<Rightarrow> BufferList" where
  "bl_of_buffer b = [b]"

definition bl_of_string :: "bytes \<Rightarrow> BufferList" where
  "bl_of_string s = bl_append [] [buf_of_string s]"

fun bl_to_buffer :: "BufferList \<Rightarrow> exn + Buffer" where
  "bl_to_buffer [] = Inr buf_empty"
| "bl_to_buffer [b] = Inr b"
| "bl_to_buffer (b # c # bs) = Inl (Runtime_error ''BufferList: please use concatenate()'')"

fun bl_concatenate_loop :: "bytes \<Rightarrow> BufferList \<Rightarrow> bytes" where
  "bl_concatenate_loop ret [] = ret"
| "bl_concatenate_loop ret (b # bs) = bl_concatenate_loop (ret @ buf_str b) bs"

definition bl_concatenate :: "BufferList \<Rightarrow> bytes" where
  "bl_concatenate bl = bl_concatenate_loop [] bl"

fun bl_concatenate_n_loop :: "size_t \<Rightarrow> bytes \<Rightarrow> BufferList \<Rightarrow> bytes" where
  "bl_concatenate_n_loop n ret [] = ret"
| "bl_concatenate_n_loop n ret (b # bs) =
     (if length ret + buf_size b \<le> n then bl_concatenate_n_loop n (ret @ buf_str b) bs
      else bl_concatenate_n_loop n (ret @ take (n - length ret) (buf_str b)) bs)"

definition bl_concatenate_n :: "size_t \<Rightarrow> BufferList \<Rightarrow> bytes" where
  "bl_concatenate_n n bl = bl_concatenate_n_loop n [] bl"

fun bl_size_loop :: "size_t \<Rightarrow> BufferList \<Rightarrow> size_t" where
  "bl_size_loop ret [] = ret"
| "bl_size_loop ret (b # bs) = bl_size_loop (ret + buf_size b) bs"

definition bl_size :: "BufferList \<Rightarrow> size_t" where
  "bl_size bl = bl_size_loop 0 bl"

fun bl_remove_prefix :: "size_t \<Rightarrow> BufferList \<Rightarrow> exn + BufferList" where
  "bl_remove_prefix n [] =
     (if 0 < n then Inl (Out_of_range ''BufferList::remove_prefix'') else Inr [])"
| "bl_remove_prefix n (b # bs) =
     (if 0 < n then
        if n < length (buf_str b) then bindE (buf_remove_prefix n b) (\<lambda>b'. Inr (b' # bs))
        else bl_remove_prefix (n - length (buf_str b)) bs
      else Inr (b # bs))"

section \<open>BufferViewList\<close>

text \<open>A \<^verbatim>\<open>std::string_view\<close> is the bytes it views.\<close>

type_synonym BufferViewList = "bytes list"

definition bvl_of_string :: "bytes \<Rightarrow> BufferViewList" where
  "bvl_of_string s = [s]"

definition bvl_of_bufferlist :: "BufferList \<Rightarrow> BufferViewList" where
  "bvl_of_bufferlist bl = map buf_str bl"

fun bvl_remove_prefix :: "size_t \<Rightarrow> BufferViewList \<Rightarrow> exn + BufferViewList" where
  "bvl_remove_prefix n [] =
     (if 0 < n then Inl (Out_of_range ''BufferListView::remove_prefix'') else Inr [])"
| "bvl_remove_prefix n (v # vs) =
     (if 0 < n then
        if n < length v then Inr (drop n v # vs) else bvl_remove_prefix (n - length v) vs
      else Inr (v # vs))"

fun bvl_size_loop :: "size_t \<Rightarrow> BufferViewList \<Rightarrow> size_t" where
  "bvl_size_loop ret [] = ret"
| "bvl_size_loop ret (v # vs) = bvl_size_loop (ret + length v) vs"

definition bvl_size :: "BufferViewList \<Rightarrow> size_t" where
  "bvl_size vl = bvl_size_loop 0 vl"

section \<open>Well-formedness and the bytes a buffer stands for\<close>

definition buf_wf :: "Buffer \<Rightarrow> bool" where
  "buf_wf b \<longleftrightarrow> (case buf_storage b of None \<Rightarrow> True
                 | Some s \<Rightarrow> buf_starting_offset b \<le> length s \<and> length s < 2 ^ 64)"

definition bl_bytes :: "BufferList \<Rightarrow> bytes" where
  "bl_bytes bl = concat (map buf_str bl)"

definition bl_wf :: "BufferList \<Rightarrow> bool" where
  "bl_wf bl \<longleftrightarrow> list_all buf_wf bl"

lemma buf_str_empty [simp]: "buf_str buf_empty = []"
  by (simp add: buf_str_def buf_empty_def)

lemma buf_str_of_string [simp]: "buf_str (buf_of_string s) = s"
  by (simp add: buf_str_def buf_of_string_def)

lemma buf_wf_empty [simp]: "buf_wf buf_empty"
  by (simp add: buf_wf_def buf_empty_def)

lemma buf_wf_of_string [simp]: "length s < 2 ^ 64 \<Longrightarrow> buf_wf (buf_of_string s)"
  by (simp add: buf_wf_def buf_of_string_def)

lemma buf_advance_wf: "buf_wf b \<Longrightarrow> n \<le> length (buf_str b) \<Longrightarrow> buf_wf (buf_advance n b)"
  by (auto simp: buf_wf_def buf_str_def buf_advance_def Let_def u64_id split: option.splits)

lemma buf_str_advance:
  "buf_wf b \<Longrightarrow> n \<le> length (buf_str b) \<Longrightarrow> buf_str (buf_advance n b) = drop n (buf_str b)"
  by (auto simp: buf_wf_def buf_str_def buf_advance_def Let_def u64_id add.commute
           split: option.splits)

lemma bl_bytes_simps [simp]:
  "bl_bytes [] = []" "bl_bytes (b # bs) = buf_str b @ bl_bytes bs"
  "bl_bytes (bs @ cs) = bl_bytes bs @ bl_bytes cs"
  by (simp_all add: bl_bytes_def)

lemma bl_wf_simps [simp]:
  "bl_wf []" "bl_wf (b # bs) \<longleftrightarrow> buf_wf b \<and> bl_wf bs"
  "bl_wf (bs @ cs) \<longleftrightarrow> bl_wf bs \<and> bl_wf cs"
  by (simp_all add: bl_wf_def)

lemma bl_of_string_simps [simp]:
  "bl_bytes (bl_of_string s) = s" "bl_wf (bl_of_string s) \<longleftrightarrow> buf_wf (buf_of_string s)"
  by (simp_all add: bl_of_string_def bl_append_def)

lemma bl_concatenate_loop_eq: "bl_concatenate_loop ret bl = ret @ bl_bytes bl"
  by (induction ret bl rule: bl_concatenate_loop.induct) simp_all

lemma bl_concatenate_eq [simp]: "bl_concatenate bl = bl_bytes bl"
  by (simp add: bl_concatenate_def bl_concatenate_loop_eq)

lemma bl_concatenate_n_loop_eq:
  "length ret \<le> n \<Longrightarrow>
   bl_concatenate_n_loop n ret bl = ret @ take (n - length ret) (bl_bytes bl)"
proof (induction n ret bl rule: bl_concatenate_n_loop.induct)
  case (1 n ret)
  then show ?case by simp
next
  case (2 n ret b bs)
  show ?case
  proof (cases "length ret + buf_size b \<le> n")
    case True
    with 2 show ?thesis by (simp add: buf_size_def diff_add_eq_diff_diff_swap)
  next
    case False
    with 2 show ?thesis by (simp add: buf_size_def)
  qed
qed

lemma bl_concatenate_n_eq: "bl_concatenate_n n bl = take n (bl_bytes bl)"
  by (simp add: bl_concatenate_n_def bl_concatenate_n_loop_eq)

lemma bl_size_loop_eq: "bl_size_loop ret bl = ret + length (bl_bytes bl)"
  by (induction ret bl rule: bl_size_loop.induct) (simp_all add: buf_size_def)

lemma bl_size_eq [simp]: "bl_size bl = length (bl_bytes bl)"
  by (simp add: bl_size_def bl_size_loop_eq)

lemma bvl_size_loop_eq: "bvl_size_loop ret vl = ret + length (concat vl)"
  by (induction ret vl rule: bvl_size_loop.induct) simp_all

lemma bvl_size_eq [simp]: "bvl_size vl = length (concat vl)"
  by (simp add: bvl_size_def bvl_size_loop_eq)

section \<open>The contract of a string that discards bytes from the front\<close>

locale discardable =
  fixes bytes_of :: "'r \<Rightarrow> bytes"
    and wf :: "'r \<Rightarrow> bool"
    and remove_prefix :: "nat \<Rightarrow> 'r \<Rightarrow> exn + 'r"
  assumes remove_ok:
      "wf r \<Longrightarrow> n \<le> length (bytes_of r) \<Longrightarrow>
       \<exists>r'. remove_prefix n r = Inr r' \<and> wf r' \<and> bytes_of r' = drop n (bytes_of r)"
    and remove_throws:
      "wf r \<Longrightarrow> length (bytes_of r) < n \<Longrightarrow> \<exists>m. remove_prefix n r = Inl (Out_of_range m)"
begin

lemma remove_okE:
  assumes "wf r" and "n \<le> length (bytes_of r)"
  obtains r' where "remove_prefix n r = Inr r'" "wf r'" "bytes_of r' = drop n (bytes_of r)"
  using remove_ok [OF assms] by blast

lemma remove_Inr_iff:
  "wf r \<Longrightarrow> (\<exists>r'. remove_prefix n r = Inr r') \<longleftrightarrow> n \<le> length (bytes_of r)"
  using remove_ok remove_throws by (metis Inl_Inr_False not_le)

lemma remove_Inr:
  assumes "wf r" and "remove_prefix n r = Inr r'"
  shows "wf r' \<and> n \<le> length (bytes_of r) \<and> bytes_of r' = drop n (bytes_of r)"
  using assms remove_ok [OF assms(1), of n] remove_throws [OF assms(1), of n]
  by (cases "n \<le> length (bytes_of r)") auto

text \<open>Discarding in two steps discards the sum, and throws exactly when the sum is too much.\<close>

lemma remove_twice:
  assumes "wf r" and "remove_prefix m r = Inr r1"
  shows "map_sum (\<lambda>_. ()) bytes_of (remove_prefix n r1) =
         map_sum (\<lambda>_. ()) bytes_of (remove_prefix (m + n) r)"
proof -
  note 1 = remove_Inr [OF assms]
  show ?thesis
  proof (cases "m + n \<le> length (bytes_of r)")
    case True
    then have "n \<le> length (bytes_of r1)" using 1 by simp
    then obtain r2 where "remove_prefix n r1 = Inr r2" "bytes_of r2 = drop n (bytes_of r1)"
      using 1 remove_okE by metis
    moreover obtain r3 where "remove_prefix (m + n) r = Inr r3"
      "bytes_of r3 = drop (m + n) (bytes_of r)"
      using True assms(1) remove_okE by metis
    ultimately show ?thesis using 1 by (simp add: add.commute)
  next
    case False
    then have "length (bytes_of r1) < n" using 1 by auto
    then show ?thesis using 1 remove_throws [of r1 n] remove_throws [of r "m + n"] assms(1) False
      by (auto simp: not_le)
  qed
qed

end

lemma bl_remove_prefix_ok:
  "bl_wf bl \<Longrightarrow> n \<le> length (bl_bytes bl) \<Longrightarrow>
   \<exists>bl'. bl_remove_prefix n bl = Inr bl' \<and> bl_wf bl' \<and> bl_bytes bl' = drop n (bl_bytes bl)"
proof (induction n bl rule: bl_remove_prefix.induct)
  case (1 n)
  then show ?case by simp
next
  case (2 n b bs)
  then show ?case
    by (auto simp: buf_remove_prefix_def buf_advance_wf buf_str_advance)
qed

lemma bl_remove_prefix_throws:
  "bl_wf bl \<Longrightarrow> length (bl_bytes bl) < n \<Longrightarrow> \<exists>m. bl_remove_prefix n bl = Inl (Out_of_range m)"
  by (induction n bl rule: bl_remove_prefix.induct) auto

interpretation buf: discardable buf_str buf_wf buf_remove_prefix
  by unfold_locales (auto simp: buf_remove_prefix_def buf_advance_wf buf_str_advance)

interpretation bl: discardable bl_bytes bl_wf bl_remove_prefix
  by unfold_locales (blast intro: bl_remove_prefix_ok bl_remove_prefix_throws)+

lemma bvl_remove_prefix_ok:
  "n \<le> length (concat vl) \<Longrightarrow>
   \<exists>vl'. bvl_remove_prefix n vl = Inr vl' \<and> concat vl' = drop n (concat vl)"
  by (induction n vl rule: bvl_remove_prefix.induct) auto

lemma bvl_remove_prefix_throws:
  "length (concat vl) < n \<Longrightarrow> \<exists>m. bvl_remove_prefix n vl = Inl (Out_of_range m)"
  by (induction n vl rule: bvl_remove_prefix.induct) auto

interpretation bvl: discardable concat "\<lambda>_. True" bvl_remove_prefix
  by unfold_locales (auto simp: bvl_remove_prefix_ok bvl_remove_prefix_throws)

section \<open>Correctness\<close>

text \<open>On a well-formed buffer list, \<^verbatim>\<open>BufferList::remove_prefix(n)\<close> returns a well-formed list
  of exactly the bytes after the first \<open>n\<close> when there are that many, and throws
  \<^verbatim>\<open>out_of_range\<close> otherwise; \<^verbatim>\<open>concatenate(n)\<close> returns the first \<open>n\<close> bytes (all of them
  when there are fewer).\<close>

theorem buffer_list_prefix:
  assumes "bl_wf bl"
  shows "(n \<le> length (bl_concatenate bl) \<longrightarrow>
            (\<exists>bl'. bl_remove_prefix n bl = Inr bl' \<and> bl_wf bl' \<and>
                   bl_concatenate bl = bl_concatenate_n n bl @ bl_concatenate bl'))
       \<and> (length (bl_concatenate bl) < n \<longrightarrow>
            (\<exists>m. bl_remove_prefix n bl = Inl (Out_of_range m)) \<and>
            bl_concatenate_n n bl = bl_concatenate bl)"
  using bl.remove_ok [OF assms] bl.remove_throws [OF assms]
  by (fastforce simp: bl_concatenate_n_eq)

theorem buffer_list_prefix_witness:
  "\<exists>bl'. bl_remove_prefix 3 [buf_of_string [1, 2], buf_of_string [3, 4]] = Inr bl' \<and> bl_wf bl'"
  using buffer_list_prefix [of "[buf_of_string [1, 2], buf_of_string [3, 4]]" 3] by auto

end
