(* ===== verification/Net_Parser.thy ===== *)
theory Net_Parser
  imports Buffers
begin

unbundle bit_operations_syntax

text \<open>
  \<^verbatim>\<open>util/parser.hh\<close>, \<^verbatim>\<open>util/parser.cc\<close> and the Internet checksum of \<^verbatim>\<open>util/util.cc\<close>: reading and
  writing integers in network byte order, and the ones' complement checksum. The templates
  \<^verbatim>\<open>_parse_int<T>\<close> and \<^verbatim>\<open>_unparse_int<T>\<close> are functions that are polymorphic in the word length;
  the length of the word type is \<^verbatim>\<open>8 * sizeof(T)\<close>.
\<close>

section \<open>Parsing and unparsing integers\<close>

datatype ParseResult =
    NoError | BadChecksum | PacketTooShort | WrongIPVersion | HeaderTooShort | TruncatedPacket
  | Unsupported

text \<open>
  \<^verbatim>\<open>as_string\<close> indexes a table of names with the number of the result; an index past the table is
  undefined behaviour, \<open>None\<close> here.
\<close>

fun parse_result_number :: "ParseResult \<Rightarrow> nat" where
  "parse_result_number NoError = 0"
| "parse_result_number BadChecksum = 1"
| "parse_result_number PacketTooShort = 2"
| "parse_result_number WrongIPVersion = 3"
| "parse_result_number HeaderTooShort = 4"
| "parse_result_number TruncatedPacket = 5"
| "parse_result_number Unsupported = 6"

definition parse_result_names :: "string list" where
  "parse_result_names =
     [''NoError'', ''BadChecksum'', ''PacketTooShort'', ''WrongIPVersion'', ''HeaderTooShort'',
      ''TruncatedPacket'']"

definition as_string :: "ParseResult \<Rightarrow> string option" where
  "as_string r =
     (if parse_result_number r < length parse_result_names
      then Some (parse_result_names ! parse_result_number r) else None)"

record NetParser =
  np_buffer :: Buffer
  np_error :: ParseResult

definition NetParser_new :: "Buffer \<Rightarrow> NetParser" where
  "NetParser_new b = \<lparr>np_buffer = b, np_error = NoError\<rparr>"

definition np_check_size :: "size_t \<Rightarrow> NetParser \<Rightarrow> NetParser" where
  "np_check_size n p = (if buf_size (np_buffer p) < n then p\<lparr>np_error := PacketTooShort\<rparr> else p)"

text \<open>
  After the size check the reads \<^verbatim>\<open>_buffer.at(i)\<close> are in range and \<^verbatim>\<open>remove_prefix\<close> does not
  throw: without an error the buffer has at least that many bytes.
\<close>

definition np_parse_int :: "NetParser \<Rightarrow> 'w::len word \<times> NetParser" where
  "np_parse_int p =
     (let len = LENGTH('w) div 8; p1 = np_check_size len p
      in if np_error p1 \<noteq> NoError then (0, p1)
         else (foldl (\<lambda>ret i. push_bit 8 ret + ucast (buf_str (np_buffer p1) ! i)) 0 [0..<len],
               p1\<lparr>np_buffer := buf_advance len (np_buffer p1)\<rparr>))"

definition np_u32 :: "NetParser \<Rightarrow> uint32_t \<times> NetParser" where
  "np_u32 p = np_parse_int p"

definition np_u16 :: "NetParser \<Rightarrow> uint16_t \<times> NetParser" where
  "np_u16 p = np_parse_int p"

definition np_u8 :: "NetParser \<Rightarrow> uint8_t \<times> NetParser" where
  "np_u8 p = np_parse_int p"

definition np_remove_prefix :: "size_t \<Rightarrow> NetParser \<Rightarrow> NetParser" where
  "np_remove_prefix n p =
     (let p1 = np_check_size n p
      in if np_error p1 \<noteq> NoError then p1
         else p1\<lparr>np_buffer := buf_advance n (np_buffer p1)\<rparr>)"

definition unparse_int :: "bytes \<Rightarrow> 'w::len word \<Rightarrow> bytes" where
  "unparse_int s val =
     (let len = LENGTH('w) div 8
      in foldl (\<lambda>s i. s @ [ucast (drop_bit ((len - i - 1) * 8) val AND 0xff)]) s [0..<len])"

definition un_u32 :: "bytes \<Rightarrow> uint32_t \<Rightarrow> bytes" where
  "un_u32 s val = unparse_int s val"

definition un_u16 :: "bytes \<Rightarrow> uint16_t \<Rightarrow> bytes" where
  "un_u16 s val = unparse_int s val"

definition un_u8 :: "bytes \<Rightarrow> uint8_t \<Rightarrow> bytes" where
  "un_u8 s val = unparse_int s val"

section \<open>The Internet checksum\<close>

record InternetChecksum =
  ck_sum :: uint32_t
  ck_parity :: bool

definition InternetChecksum_new :: "uint32_t \<Rightarrow> InternetChecksum" where
  "InternetChecksum_new initial_sum = \<lparr>ck_sum = initial_sum, ck_parity = False\<rparr>"

fun ck_add :: "bytes \<Rightarrow> InternetChecksum \<Rightarrow> InternetChecksum" where
  "ck_add [] c = c"
| "ck_add (b # bs) c =
     (let val0 = (ucast b :: uint16_t);
          val = (if \<not> ck_parity c then push_bit 8 val0 else val0)
      in ck_add bs (c\<lparr>ck_sum := ck_sum c + ucast val, ck_parity := \<not> ck_parity c\<rparr>))"

text \<open>Bit masks and shifts as division and remainder: each round of the loop in \<^verbatim>\<open>value\<close> makes
  the sum smaller.\<close>

lemma unat_and_ff: "unat ((w :: 'w::len word) AND 0xff) = unat w mod 256"
proof -
  have "w AND 0xff = take_bit 8 w" by (simp add: take_bit_eq_mask mask_eq_exp_minus_1)
  then have "unat (w AND 0xff) = take_bit 8 (unat w)" by (simp only: unsigned_take_bit_eq)
  then show ?thesis by (simp add: take_bit_eq_mod)
qed

lemma unat_and_ffff: "unat ((w :: 'w::len word) AND 0xffff) = unat w mod 65536"
proof -
  have "w AND 0xffff = take_bit 16 w" by (simp add: take_bit_eq_mask mask_eq_exp_minus_1)
  then have "unat (w AND 0xffff) = take_bit 16 (unat w)" by (simp only: unsigned_take_bit_eq)
  then show ?thesis by (simp add: take_bit_eq_mod)
qed

lemma unat_fold_step:
  fixes w :: "32 word"
  shows "unat (drop_bit 16 w + (w AND 0xffff)) = unat w div 65536 + unat w mod 65536"
proof -
  have w: "unat w < 2 ^ 32" using unsigned_less [of w] by simp
  then have "unat w div 65536 < 65536" by simp
  then have "unat w div 65536 + unat w mod 65536 < 2 ^ 32"
    using mod_less_divisor [of 65536 "unat w"] by simp
  then show ?thesis
    by (simp add: unat_word_ariths(1) unat_and_ffff unat_div drop_bit_eq_div)
qed

function ck_fold :: "uint32_t \<Rightarrow> uint32_t" where
  "ck_fold ret = (if 0xffff < ret then ck_fold (drop_bit 16 ret + (ret AND 0xffff)) else ret)"
  by pat_completeness auto
termination
proof (relation "measure unat")
  fix ret :: uint32_t
  assume "0xffff < ret"
  then have "0xffff < unat ret" by (simp add: word_less_nat_alt)
  then have "0 < unat ret div 65536" by (simp add: div_greater_zero_iff)
  then have "unat ret div 65536 + unat ret mod 65536 < unat ret"
    using div_mult_mod_eq [of "unat ret" 65536] by linarith
  then show "(drop_bit 16 ret + (ret AND 0xffff), ret) \<in> measure unat"
    by (simp only: in_measure unat_fold_step)
qed simp

declare ck_fold.simps [simp del]

definition ck_value :: "InternetChecksum \<Rightarrow> uint16_t" where
  "ck_value c = ucast (NOT (ck_fold (ck_sum c)))"

section \<open>Integers and their bytes\<close>

definition dig :: "nat \<Rightarrow> nat \<Rightarrow> nat list" where
  "dig n v = map (\<lambda>i. v div 256 ^ (n - i - 1) mod 256) [0..<n]"

lemma dig_Suc: "dig (Suc n) v = dig n (v div 256) @ [v mod 256]"
proof -
  have "v div 256 ^ (Suc n - i - 1) mod 256 = v div 256 div 256 ^ (n - i - 1) mod 256"
    if "i < n" for i
  proof -
    have "Suc n - i - 1 = Suc (n - i - 1)" using that by simp
    then show ?thesis by (simp add: div_mult2_eq)
  qed
  then show ?thesis by (simp add: dig_def)
qed

definition horner :: "nat list \<Rightarrow> nat" where
  "horner ds = foldl (\<lambda>r d. r * 256 + d) 0 ds"

lemma horner_dig: "horner (dig n v) = v mod 256 ^ n"
proof (induction n arbitrary: v)
  case 0
  then show ?case by (simp add: horner_def dig_def)
next
  case (Suc n)
  have "horner (dig (Suc n) v) = horner (dig n (v div 256)) * 256 + v mod 256"
    by (simp add: dig_Suc horner_def)
  also have "\<dots> = v mod 256 ^ Suc n"
    using Suc.IH [of "v div 256"] mod_mult2_eq [of v 256 "256 ^ n"] by simp
  finally show ?case .
qed

text \<open>The bytes of a word, most significant first, and the word they make.\<close>

definition byte_of :: "nat \<Rightarrow> 'w::len word \<Rightarrow> byte" where
  "byte_of k val = ucast (drop_bit (k * 8) val AND 0xff)"

definition join_bytes :: "bytes \<Rightarrow> 'w::len word" where
  "join_bytes bs = foldl (\<lambda>ret b. push_bit 8 ret + ucast b) 0 bs"

lemma unat_byte_of: "unat (byte_of k val) = unat val div 256 ^ k mod 256"
proof -
  have "unat (byte_of k val) = take_bit 8 (unat (drop_bit (k * 8) val AND 0xff))"
    by (simp add: byte_of_def unsigned_ucast_eq)
  also have "\<dots> = unat (drop_bit (k * 8) val) mod 256"
    by (simp add: unat_and_ff take_bit_eq_mod)
  also have "\<dots> = unat val div 2 ^ (k * 8) mod 256"
    by (simp only: unat_drop_bit_eq) (simp only: drop_bit_eq_div)
  also have "(2 :: nat) ^ (k * 8) = 256 ^ k"
    using power_mult [of "2 :: nat" 8 k] by (simp add: mult.commute)
  finally show ?thesis .
qed

lemma ucast_of_unat: "of_nat (unat (b :: byte)) = (ucast b :: 'w::len word)"
  by (rule of_nat_unat)

lemma join_bytes_horner: "(join_bytes bs :: 'w::len word) = of_nat (horner (map unat bs))"
proof (induction bs rule: rev_induct)
  case Nil
  then show ?case by (simp add: join_bytes_def horner_def)
next
  case (snoc b bs)
  have "(join_bytes (bs @ [b]) :: 'w word) = push_bit 8 (join_bytes bs) + ucast b"
    by (simp add: join_bytes_def)
  also have "\<dots> = of_nat (horner (map unat bs) * 256 + unat b)"
    by (simp only: snoc push_bit_eq_mult of_nat_add of_nat_mult ucast_of_unat) simp
  finally show ?case by (simp add: horner_def)
qed

lemma join_byte_of:
  assumes "LENGTH('w) = 8 * n"
  shows "join_bytes (map (\<lambda>i. byte_of (n - i - 1) val) [0..<n]) = (val :: 'w::len word)"
proof -
  have "map unat (map (\<lambda>i. byte_of (n - i - 1) val) [0..<n]) = dig n (unat val)"
    by (simp add: dig_def unat_byte_of)
  then have "(join_bytes (map (\<lambda>i. byte_of (n - i - 1) val) [0..<n]) :: 'w word) =
      of_nat (unat val mod 256 ^ n)"
    by (simp only: join_bytes_horner horner_dig)
  moreover have "(256 :: nat) ^ n = 2 ^ LENGTH('w)"
    by (simp add: assms power_mult)
  moreover have "unat val < 2 ^ LENGTH('w)" by (rule unsigned_less)
  ultimately show ?thesis by simp
qed

lemma unparse_int_eq:
  "unparse_int s (val :: 'w::len word) =
   s @ map (\<lambda>i. byte_of (LENGTH('w) div 8 - i - 1) val) [0..<LENGTH('w) div 8]"
proof -
  have "foldl (\<lambda>s i. s @ [f i]) s xs = s @ map f xs" for f :: "nat \<Rightarrow> byte" and xs
    by (induction xs arbitrary: s) simp_all
  then show ?thesis by (simp add: unparse_int_def byte_of_def Let_def)
qed

lemma upt_nat: "[0..<2] = [0, 1 :: nat]" "[0..<4] = [0, 1, 2, 3 :: nat]"
  by (simp_all add: upt_rec)

lemma byte_of_0 [simp]: "byte_of 0 (a :: byte) = a"
proof -
  have "unat a < 2 ^ 8" using unsigned_less [of a] by simp
  then show ?thesis using unat_byte_of [of 0 a] by (simp add: word_unat_eq_iff)
qed

lemma un_simps:
  "un_u8 s a = s @ [a]"
  "un_u16 s b = s @ [byte_of (Suc 0) b, byte_of 0 b]"
  "un_u32 s c = s @ [byte_of 3 c, byte_of 2 c, byte_of (Suc 0) c, byte_of 0 c]"
  by (simp_all add: un_u8_def un_u16_def un_u32_def unparse_int_eq upt_nat)

lemma join_simps [simp]:
  "join_bytes [a] = (a :: uint8_t)"
  "join_bytes [byte_of (Suc 0) b, byte_of 0 b] = (b :: uint16_t)"
  "join_bytes [byte_of 3 c, byte_of 2 c, byte_of (Suc 0) c, byte_of 0 c] = (c :: uint32_t)"
proof -
  show "join_bytes [a] = a" by (simp add: join_bytes_def)
  show "join_bytes [byte_of (Suc 0) b, byte_of 0 b] = b"
    using join_byte_of [of 2 b] by (simp add: upt_nat)
  show "join_bytes [byte_of 3 c, byte_of 2 c, byte_of (Suc 0) c, byte_of 0 c] = c"
    using join_byte_of [of 4 c] by (simp add: upt_nat)
qed

lemma dig_horner: "(\<And>d. d \<in> set ds \<Longrightarrow> d < 256) \<Longrightarrow> dig (length ds) (horner ds) = ds"
proof (induction ds rule: rev_induct)
  case Nil
  then show ?case by (simp add: dig_def)
next
  case (snoc d ds)
  have d: "d < 256" using snoc.prems by simp
  have "horner (ds @ [d]) div 256 = horner ds" "horner (ds @ [d]) mod 256 = d"
    using d by (simp_all add: horner_def)
  with snoc show ?case by (simp add: dig_Suc)
qed

lemma horner_less: "(\<And>d. d \<in> set ds \<Longrightarrow> d < 256) \<Longrightarrow> horner ds < 256 ^ length ds"
proof (induction ds rule: rev_induct)
  case Nil
  then show ?case by (simp add: horner_def)
next
  case (snoc d ds)
  then have "horner ds < 256 ^ length ds" "d < 256" by simp_all
  then show ?case by (simp add: horner_def)
qed

lemma unat_byte_less: "unat (b :: byte) < 256"
  using unsigned_less [of b] by simp

lemma byte_of_join:
  assumes "LENGTH('w) = 8 * length bs"
  shows "map (\<lambda>i. byte_of (length bs - i - 1) (join_bytes bs :: 'w::len word)) [0..<length bs] = bs"
proof -
  let ?ds = "map unat bs" and ?w = "join_bytes bs :: 'w word"
  have "horner ?ds < 2 ^ LENGTH('w)"
    using horner_less [of ?ds] unat_byte_less by (auto simp: assms power_mult)
  then have "unat ?w = horner ?ds"
    by (simp add: join_bytes_horner unat_of_nat)
  then have "map unat (map (\<lambda>i. byte_of (length bs - i - 1) ?w) [0..<length bs]) = ?ds"
    using dig_horner [of ?ds] unat_byte_less by (auto simp: dig_def unat_byte_of comp_def)
  then show ?thesis
    by (metis inj_map_eq_map inj_on_def word_unat_eq_iff)
qed

lemma byte_of_join_simps [simp]:
  "byte_of (Suc 0) (join_bytes [a, b] :: uint16_t) = a"
  "byte_of 0 (join_bytes [a, b] :: uint16_t) = b"
  "byte_of 3 (join_bytes [a, b, c, d] :: uint32_t) = a"
  "byte_of 2 (join_bytes [a, b, c, d] :: uint32_t) = b"
  "byte_of (Suc 0) (join_bytes [a, b, c, d] :: uint32_t) = c"
  "byte_of 0 (join_bytes [a, b, c, d] :: uint32_t) = d"
  using byte_of_join [where 'w = 16 and bs = "[a, b]"]
    byte_of_join [where 'w = 32 and bs = "[a, b, c, d]"]
  by (simp_all add: upt_nat numeral_2_eq_2 numeral_3_eq_3)

section \<open>Rules for running a parser\<close>

definition np_bytes :: "NetParser \<Rightarrow> bytes" where
  "np_bytes p = buf_str (np_buffer p)"

definition np_fine :: "NetParser \<Rightarrow> bool" where
  "np_fine p \<longleftrightarrow> np_error p = NoError \<and> buf_wf (np_buffer p)"

definition np_skip :: "nat \<Rightarrow> NetParser \<Rightarrow> NetParser" where
  "np_skip n p = p\<lparr>np_buffer := buf_advance n (np_buffer p)\<rparr>"

definition np_fail :: "NetParser \<Rightarrow> NetParser" where
  "np_fail p = p\<lparr>np_error := PacketTooShort\<rparr>"

lemma np_new_simps [simp]:
  "np_bytes (NetParser_new b) = buf_str b" "np_fine (NetParser_new b) \<longleftrightarrow> buf_wf b"
  "np_error (NetParser_new b) = NoError" "np_buffer (NetParser_new b) = b"
  by (simp_all add: NetParser_new_def np_bytes_def np_fine_def)

lemma np_skip_simps [simp]:
  assumes "np_fine p" "n \<le> length (np_bytes p)"
  shows "np_fine (np_skip n p)" "np_bytes (np_skip n p) = drop n (np_bytes p)"
    "np_error (np_skip n p) = NoError"
  using assms by (simp_all add: np_skip_def np_fine_def np_bytes_def buf_advance_wf buf_str_advance)

lemma np_fail_simps [simp]:
  "np_error (np_fail p) = PacketTooShort" "np_buffer (np_fail p) = np_buffer p"
  "\<not> np_fine (np_fail p)"
  by (simp_all add: np_fail_def np_fine_def)

lemma np_fineD [simp]: "np_fine p \<Longrightarrow> np_error p = NoError"
  by (simp add: np_fine_def)

lemma np_parse_int_run:
  assumes "np_fine p"
  shows "(np_parse_int p :: 'w::len word \<times> NetParser) =
    (if LENGTH('w) div 8 \<le> length (np_bytes p)
     then (join_bytes (take (LENGTH('w) div 8) (np_bytes p)), np_skip (LENGTH('w) div 8) p)
     else (0, np_fail p))"
proof -
  have "foldl (\<lambda>ret i. push_bit 8 ret + ucast (bs ! i)) (0 :: 'w word) [0..<n] =
        join_bytes (take n bs)" if "n \<le> length bs" for n bs
    using that by (induction n) (simp_all add: join_bytes_def take_Suc_conv_app_nth)
  then show ?thesis using assms
    by (auto simp: np_parse_int_def np_check_size_def buf_size_def np_fine_def np_bytes_def
        np_skip_def np_fail_def Let_def)
qed

lemma np_parse_int_stuck:
  "np_error p \<noteq> NoError \<Longrightarrow>
   fst (np_parse_int p) = 0 \<and> np_error (snd (np_parse_int p)) \<noteq> NoError \<and>
   np_buffer (snd (np_parse_int p)) = np_buffer p"
  by (auto simp: np_parse_int_def np_check_size_def Let_def)

lemma len_words: "LENGTH(16) div 8 = 2" "LENGTH(32) div 8 = 4"
  by simp_all

lemma np_u8_run:
  "np_fine p \<Longrightarrow> np_u8 p = (case np_bytes p of [] \<Rightarrow> (0, np_fail p) | b # _ \<Rightarrow> (b, np_skip 1 p))"
  by (auto simp: np_u8_def np_parse_int_run split: list.splits)

lemma np_u16_run:
  "np_fine p \<Longrightarrow> np_u16 p =
    (if 2 \<le> length (np_bytes p) then (join_bytes (take 2 (np_bytes p)), np_skip 2 p)
     else (0, np_fail p))"
  by (simp only: np_u16_def np_parse_int_run len_words)

lemma np_u32_run:
  "np_fine p \<Longrightarrow> np_u32 p =
    (if 4 \<le> length (np_bytes p) then (join_bytes (take 4 (np_bytes p)), np_skip 4 p)
     else (0, np_fail p))"
  by (simp only: np_u32_def np_parse_int_run len_words)

lemma np_remove_prefix_run:
  "np_fine p \<Longrightarrow> np_remove_prefix n p =
    (if n \<le> length (np_bytes p) then np_skip n p else np_fail p)"
  by (cases "n \<le> length (np_bytes p)")
    (simp_all add: np_remove_prefix_def np_check_size_def np_fine_def np_bytes_def np_skip_def
      np_fail_def buf_size_def Let_def)

lemmas np_run = np_u8_run np_u16_run np_u32_run np_remove_prefix_run

lemma buf_advance_advance:
  "buf_wf b \<Longrightarrow> m + n \<le> length (buf_str b) \<Longrightarrow>
   buf_advance n (buf_advance m b) = buf_advance (m + n) b"
  by (auto simp: buf_wf_def buf_str_def buf_advance_def Let_def u64_id add.assoc
      split: option.splits)

lemma np_skip_skip [simp]:
  "np_fine p \<Longrightarrow> m + n \<le> length (np_bytes p) \<Longrightarrow> np_skip n (np_skip m p) = np_skip (m + n) p"
  by (simp add: np_skip_def np_fine_def np_bytes_def buf_advance_advance)

text \<open>Reading at an offset of a parser that has the bytes.\<close>

lemma np_at:
  assumes "np_fine p"
  shows "k + 1 \<le> length (np_bytes p) \<Longrightarrow> np_u8 (np_skip k p) = (np_bytes p ! k, np_skip (k + 1) p)"
    and "k + 2 \<le> length (np_bytes p) \<Longrightarrow>
      np_u16 (np_skip k p) = (join_bytes (take 2 (drop k (np_bytes p))), np_skip (k + 2) p)"
    and "k + 4 \<le> length (np_bytes p) \<Longrightarrow>
      np_u32 (np_skip k p) = (join_bytes (take 4 (drop k (np_bytes p))), np_skip (k + 4) p)"
  using assms by (simp_all add: np_u8_run np_u16_run np_u32_run Cons_nth_drop_Suc [symmetric])

lemma np_first:
  assumes "np_fine p"
  shows "1 \<le> length (np_bytes p) \<Longrightarrow> np_u8 p = (np_bytes p ! 0, np_skip 1 p)"
    and "2 \<le> length (np_bytes p) \<Longrightarrow> np_u16 p = (join_bytes (take 2 (np_bytes p)), np_skip 2 p)"
    and "4 \<le> length (np_bytes p) \<Longrightarrow> np_u32 p = (join_bytes (take 4 (np_bytes p)), np_skip 4 p)"
  using assms by (cases "np_bytes p"; simp add: np_u8_run np_u16_run np_u32_run)+

text \<open>
  A parser that has consumed \<open>k\<close> of \<open>N\<close> bytes, or has failed: a sequence of reads of more bytes
  than there are ends in \<^verbatim>\<open>PacketTooShort\<close>.
\<close>

definition np_consumed :: "nat \<Rightarrow> nat \<Rightarrow> NetParser \<Rightarrow> bool" where
  "np_consumed N k p \<longleftrightarrow> buf_wf (np_buffer p) \<and>
     (np_error p = PacketTooShort \<or> np_error p = NoError \<and> length (np_bytes p) + k = N)"

lemma np_consumed_new: "buf_wf b \<Longrightarrow> np_consumed (length (buf_str b)) 0 (NetParser_new b)"
  by (simp add: np_consumed_def)

lemma np_consumed_parse_int:
  assumes "np_consumed N k p" and "(x :: 'w::len word, p1) = np_parse_int p"
    and "n = LENGTH('w) div 8"
  shows "np_consumed N (k + n) p1"
proof (cases "np_error p = NoError")
  case True
  then have "np_fine p" using assms(1) by (simp add: np_consumed_def np_fine_def)
  moreover from this have "buf_wf (np_buffer (np_skip n p))" if "n \<le> length (np_bytes p)"
    using np_skip_simps(1) [OF _ that] by (simp add: np_fine_def)
  ultimately show ?thesis
    using assms by (auto simp: np_consumed_def np_parse_int_run split: if_splits)
next
  case False
  then have "p1 = np_check_size n p" "np_error p = PacketTooShort"
    using assms by (auto simp: np_consumed_def np_parse_int_def np_check_size_def Let_def
        split: if_splits)
  then show ?thesis using assms(1) by (auto simp: np_consumed_def np_check_size_def)
qed

lemma np_consumed_reads:
  assumes "np_consumed N k p"
  shows "np_u8 p = (x, p1) \<Longrightarrow> np_consumed N (k + 1) p1"
    and "np_u16 p = (y, p1) \<Longrightarrow> np_consumed N (k + 2) p1"
    and "np_u32 p = (z, p1) \<Longrightarrow> np_consumed N (k + 4) p1"
  using np_consumed_parse_int [OF assms, of x p1 1] np_consumed_parse_int [OF assms, of y p1 2]
    np_consumed_parse_int [OF assms, of z p1 4]
  by (simp_all add: np_u8_def np_u16_def np_u32_def)

lemma np_consumed_short: "np_consumed N k p \<Longrightarrow> N < k \<Longrightarrow> np_error p = PacketTooShort"
  by (auto simp: np_consumed_def)

lemma np_remove_prefix_stuck:
  "np_error p = PacketTooShort \<Longrightarrow> np_remove_prefix n p = p"
  by (auto simp: np_remove_prefix_def np_check_size_def Let_def)

lemma np_fail_new: "np_fail (NetParser_new b) = \<lparr>np_buffer = b, np_error = PacketTooShort\<rparr>"
  by (simp add: np_fail_def NetParser_new_def)

section \<open>What the checksum computes\<close>

text \<open>
  The mathematical sum behind the 32-bit accumulator: the bytes as big-endian 16-bit numbers. The
  flag says that the next byte is the low half of one.
\<close>

fun csum :: "bool \<Rightarrow> bytes \<Rightarrow> nat" where
  "csum p [] = 0"
| "csum p (b # bs) = (if p then unat b else 256 * unat b) + csum (\<not> p) bs"

definition fold16 :: "nat \<Rightarrow> nat" where
  "fold16 n = (if n = 0 then 0 else if n mod 65535 = 0 then 65535 else n mod 65535)"

lemma csum_append: "csum p (xs @ ys) = csum p xs + csum (p \<noteq> odd (length xs)) ys"
  by (induction p xs rule: csum.induct) auto

lemma csum_bound: "csum p bs \<le> 65280 * length bs"
proof (induction p bs rule: csum.induct)
  case (2 p b bs)
  have "unat b < 256" by (rule unat_byte_less)
  with 2 show ?case by (cases p) simp_all
qed simp

lemma csum_replicate_0 [simp]: "csum p (replicate n 0) = 0"
  by (induction n arbitrary: p) simp_all

lemma csum_words [simp]:
  "csum False (byte_of (Suc 0) (w :: uint16_t) # byte_of 0 w # bs) = unat w + csum False bs"
proof -
  have "unat w < 65536" using unsigned_less [of w] by simp
  then have "unat w div 256 < 256" by simp
  then show ?thesis using div_mult_mod_eq [of "unat w" 256]
    by (simp add: unat_byte_of)
qed

lemma ck_add_step:
  fixes b :: byte
  shows "unat (ucast (if p then ucast b else push_bit 8 (ucast b) :: uint16_t) :: uint32_t) =
    (if p then unat b else 256 * unat b)"
proof -
  have b: "unat b < 256" by (rule unat_byte_less)
  have 1: "unat (ucast b :: uint16_t) = unat b"
    using b by (simp add: unsigned_ucast_eq take_bit_nat_eq_self)
  then have 2: "unat (push_bit 8 (ucast b) :: uint16_t) = 256 * unat b"
    using b by (simp add: push_bit_eq_mult unat_word_ariths(2))
  show ?thesis using b by (simp add: unsigned_ucast_eq 1 2 take_bit_nat_eq_self)
qed

lemma ck_add_sum:
  "unat (ck_sum (ck_add bs c)) = (unat (ck_sum c) + csum (ck_parity c) bs) mod 2 ^ 32 \<and>
   ck_parity (ck_add bs c) = (ck_parity c \<noteq> odd (length bs))"
proof (induction bs arbitrary: c)
  case Nil
  have "unat (ck_sum c) < 2 ^ 32" using unsigned_less [of "ck_sum c"] by simp
  then show ?case by simp
next
  case (Cons b bs)
  define v where "v = (if ck_parity c then ucast b else push_bit 8 (ucast b) :: uint16_t)"
  define c1 where "c1 = c\<lparr>ck_sum := ck_sum c + ucast v, ck_parity := \<not> ck_parity c\<rparr>"
  have step: "ck_add (b # bs) c = ck_add bs c1" by (simp add: Let_def v_def c1_def)
  have "unat (ucast v :: uint32_t) = (if ck_parity c then unat b else 256 * unat b)"
    unfolding v_def by (rule ck_add_step)
  then have "unat (ck_sum c1) =
      (unat (ck_sum c) + (if ck_parity c then unat b else 256 * unat b)) mod 2 ^ 32"
    by (simp add: c1_def unat_word_ariths(1))
  moreover have "ck_parity c1 = (\<not> ck_parity c)" by (simp add: c1_def)
  ultimately show ?case using Cons.IH [of c1] unfolding step by (simp add: mod_simps add.assoc)
qed

lemma ck_add_append: "ck_add (xs @ ys) c = ck_add ys (ck_add xs c)"
  by (induction xs c rule: ck_add.induct) (simp_all add: Let_def)

lemma fold16_step: "fold16 (n div 65536 + n mod 65536) = fold16 n"
proof -
  have "n = 65535 * (n div 65536) + (n div 65536 + n mod 65536)"
    using div_mult_mod_eq [of n 65536] by linarith
  then have "n mod 65535 = (n div 65536 + n mod 65536) mod 65535"
    by (metis mod_mult_self4 mult.commute)
  moreover have "n div 65536 + n mod 65536 = 0 \<longleftrightarrow> n = 0"
    using div_mult_mod_eq [of n 65536] by auto
  ultimately show ?thesis by (simp add: fold16_def)
qed

lemma unat_ck_fold: "unat (ck_fold w) = fold16 (unat w)"
proof (induction w rule: ck_fold.induct)
  case (1 w)
  show ?case
  proof (cases "0xffff < w")
    case True
    then show ?thesis using 1 by (simp add: ck_fold.simps [of w] unat_fold_step fold16_step)
  next
    case False
    then have "unat w \<le> 65535" by (simp add: word_less_nat_alt)
    then have "unat w < 65535 \<or> unat w = 65535" by linarith
    then have "fold16 (unat w) = unat w" by (auto simp: fold16_def)
    with False show ?thesis by (simp add: ck_fold.simps [of w])
  qed
qed

lemma fold16_le: "fold16 n \<le> 65535"
  by (simp add: fold16_def)

lemma unat_not_word: "unat (NOT w) = 2 ^ LENGTH('w) - 1 - unat (w :: 'w::len word)"
proof -
  have "NOT w = - 1 - w" by (simp add: not_eq_complement)
  then show ?thesis
    using unat_sub [of w "- 1"] by (simp add: unsigned_minus_1_eq_mask mask_eq_exp_minus_1)
qed

lemma complement_mod: "n \<le> 65535 \<Longrightarrow> (4294967295 - n) mod 65536 = 65535 - (n :: nat)"
proof -
  assume "n \<le> 65535"
  then have "4294967295 - n = (65535 - n) + 65535 * 65536" by linarith
  then have "(4294967295 - n) mod 65536 = (65535 - n) mod 65536"
    by (simp only: mod_mult_self1)
  then show ?thesis by simp
qed

lemma unat_ck_value: "unat (ck_value c) = 65535 - fold16 (unat (ck_sum c))"
proof -
  let ?f = "ck_fold (ck_sum c)"
  have "unat (ck_value c) = take_bit 16 (unat (NOT ?f))"
    unfolding ck_value_def by (simp only: unsigned_ucast_eq) simp
  also have "\<dots> = (4294967295 - unat ?f) mod 65536"
    by (simp only: take_bit_eq_mod unat_not_word) simp
  also have "\<dots> = 65535 - unat ?f"
    by (rule complement_mod) (simp only: unat_ck_fold fold16_le)
  finally show ?thesis by (simp only: unat_ck_fold)
qed

lemma fold16_complement: "fold16 (n + (65535 - fold16 n)) = 65535"
proof (cases "n mod 65535 = 0")
  case True
  then show ?thesis by (cases "n = 0") (simp_all add: fold16_def)
next
  case False
  then have f: "fold16 n = n mod 65535" by (auto simp: fold16_def)
  have "n mod 65535 < 65535" by simp
  then have "n + (65535 - fold16 n) = 65535 * Suc (n div 65535)"
    using div_mult_mod_eq [of n 65535] unfolding f mult_Suc_right by linarith
  then show ?thesis by (simp only: fold16_def) simp
qed

definition cksum_of :: "uint32_t \<Rightarrow> bytes \<Rightarrow> uint16_t" where
  "cksum_of init bs = ck_value (ck_add bs (InternetChecksum_new init))"

lemma unat_cksum_of:
  assumes "unat init + 65280 * length bs < 2 ^ 32"
  shows "unat (cksum_of init bs) = 65535 - fold16 (unat init + csum False bs)"
proof -
  have "unat init + csum False bs < 2 ^ 32" using csum_bound [of False bs] assms by linarith
  then show ?thesis
    using ck_add_sum [of bs "InternetChecksum_new init"]
    by (simp add: cksum_of_def unat_ck_value InternetChecksum_new_def)
qed

text \<open>A checksum computed with its own field zero makes the whole sum verify.\<close>

lemma cksum_of_fill:
  fixes w :: uint16_t
  assumes "even (length xs)" and "unat init + 65280 * (length xs + length ys + 2) < 2 ^ 32"
    and "w = cksum_of init (xs @ 0 # 0 # ys)"
  shows "cksum_of init (xs @ byte_of (Suc 0) w # byte_of 0 w # ys) = 0"
proof -
  let ?n = "unat init + csum False (xs @ 0 # 0 # ys)"
  have 0: "unat w = 65535 - fold16 ?n"
    using assms by (simp add: unat_cksum_of)
  have "unat init + csum False (xs @ byte_of (Suc 0) w # byte_of 0 w # ys) = ?n + unat w"
    using assms(1) csum_words [of w ys] by (simp add: csum_append del: csum.simps) simp
  then have "unat (cksum_of init (xs @ byte_of (Suc 0) w # byte_of 0 w # ys)) =
      65535 - fold16 (?n + unat w)"
    using assms(2) by (simp add: unat_cksum_of add.assoc del: csum.simps)
  then show ?thesis by (simp only: 0 fold16_complement) (simp add: unsigned_eq_0_iff)
qed

section \<open>Correctness\<close>

text \<open>Integers survive the network byte order. Parsing the bytes that \<^verbatim>\<open>NetUnparser\<close> appends
  gives the integers back in order and leaves exactly what followed them, without an error; and
  an integer that needs more bytes than there are is reported as \<^verbatim>\<open>PacketTooShort\<close> and read
  as zero, with nothing consumed.\<close>

theorem parse_unparse_int:
  assumes "buf_wf b"
  shows "(buf_str b = un_u32 (un_u16 (un_u8 [] x) y) z @ rest \<longrightarrow>
      (let (x1, p1) = np_u8 (NetParser_new b); (y1, p2) = np_u16 p1; (z1, p3) = np_u32 p2
       in x1 = x \<and> y1 = y \<and> z1 = z \<and> np_error p3 = NoError \<and> buf_str (np_buffer p3) = rest)) \<and>
    (length (buf_str b) < 4 \<longrightarrow>
      np_u32 (NetParser_new b) = (0, \<lparr>np_buffer = b, np_error = PacketTooShort\<rparr>))"
  using assms
  by (auto simp: un_simps np_run np_fail_new simp flip: np_bytes_def)

theorem parse_unparse_int_witness:
  "let (x1, p1) = np_u8 (NetParser_new (buf_of_string [7, 1, 2, 0, 0, 1, 5, 9]));
       (y1, p2) = np_u16 p1; (z1, p3) = np_u32 p2
   in x1 = 7 \<and> y1 = 258 \<and> z1 = 261 \<and> np_error p3 = NoError \<and> buf_str (np_buffer p3) = [9]"
proof -
  have "un_u32 (un_u16 (un_u8 [] 7) 258) 261 @ [9] = [7, 1, 2, 0, 0, 1, 5, 9 :: byte]"
    by (simp add: un_simps byte_of_def)
  then show ?thesis
    using parse_unparse_int [of "buf_of_string [7, 1, 2, 0, 0, 1, 5, 9]" 7 258 261 "[9]"] by simp
qed

text \<open>C24: the Internet checksum detects what it should and accepts what it should. The value is the
  ones' complement of the ones' complement sum of the big-endian 16-bit words of the data (an odd
  last byte is a high byte), however the data is split over calls of \<^verbatim>\<open>add\<close>; and once the value
  computed over a message whose checksum field is zero is stored in that field, at an even
  offset, the checksum of the whole message is zero. The bound keeps the 32-bit accumulator from
  overflowing; every IP datagram satisfies it.\<close>

theorem internet_checksum:
  assumes "unat init + 65280 * (length xs + length ys + 2) < 2 ^ 32"
  shows "unat (ck_value (ck_add ys (ck_add xs (InternetChecksum_new init)))) =
           65535 - fold16 (unat init + csum False (xs @ ys)) \<and>
         (even (length xs) \<longrightarrow>
          (let w = ck_value (ck_add (xs @ [0, 0] @ ys) (InternetChecksum_new init))
           in ck_value (ck_add (un_u16 xs w @ ys) (InternetChecksum_new init)) = 0))"
  using assms unat_cksum_of [of init "xs @ ys"] cksum_of_fill [of xs init ys, OF _ _ refl]
  by (simp add: cksum_of_def Let_def un_simps flip: ck_add_append)

theorem internet_checksum_witness:
  "unat (ck_value (ck_add [3] (ck_add [1, 2] (InternetChecksum_new 7)))) = 65535 - (7 + 258 + 768) \<and>
   (let w = ck_value (ck_add ([1, 2] @ [0, 0] @ [3]) (InternetChecksum_new 7))
    in ck_value (ck_add (un_u16 [1, 2] w @ [3]) (InternetChecksum_new 7)) = 0)"
  using internet_checksum [of 7 "[1, 2]" "[3]"] by (simp add: fold16_def)

end
