(* ===== verification/Wrapping_Integers.thy ===== *)
theory Wrapping_Integers
  imports Sponge_Prelude
begin

text \<open>
  \<^verbatim>\<open>wrapping_integers.hh\<close> and \<^verbatim>\<open>wrapping_integers.cc\<close>: 32-bit sequence numbers relative to an
  initial sequence number, and the translation to and from 64-bit absolute sequence numbers.
\<close>

section \<open>Model\<close>

text \<open>\<^verbatim>\<open>class WrappingInt32\<close> wraps one raw 32-bit value; the model is that value.\<close>

type_synonym WrappingInt32 = "32 word"

text \<open>\<^verbatim>\<open>operator-(WrappingInt32, WrappingInt32)\<close> returns an \<^verbatim>\<open>int32_t\<close>: the signed reading.\<close>

definition wi_diff :: "WrappingInt32 \<Rightarrow> WrappingInt32 \<Rightarrow> int" where
  "wi_diff a b = sint (a - b)"

definition wi_plus :: "WrappingInt32 \<Rightarrow> uint32_t \<Rightarrow> WrappingInt32" where
  "wi_plus a b = a + b"

definition wi_minus :: "WrappingInt32 \<Rightarrow> uint32_t \<Rightarrow> WrappingInt32" where
  "wi_minus a b = wi_plus a (- b)"

definition wrap :: "uint64_t \<Rightarrow> WrappingInt32 \<Rightarrow> WrappingInt32" where
  "wrap n isn = wi_plus isn (of_nat n)"

definition neg_threshold :: "uint32_t" where
  "neg_threshold = push_bit 31 1"

definition uint32_max :: "uint64_t" where
  "uint32_max = 2 ^ 32"

definition unwrap :: "WrappingInt32 \<Rightarrow> WrappingInt32 \<Rightarrow> uint64_t \<Rightarrow> uint64_t" where
  "unwrap n isn checkpoint =
     (let offset = (word_of_int (wi_diff n (wrap checkpoint isn)) :: uint32_t);
          ret = u64 (checkpoint + unat offset)
      in if offset AND neg_threshold \<noteq> 0 \<and> uint32_max \<le> ret
         then sub64 ret uint32_max else ret)"

section \<open>Arithmetic of the translation\<close>

lemma neg_threshold_mask:
  "(offset :: uint32_t) AND neg_threshold \<noteq> 0 \<longleftrightarrow> 2 ^ 31 \<le> unat offset"
proof -
  have "(offset AND neg_threshold \<noteq> 0) \<longleftrightarrow> bit offset 31"
    unfolding neg_threshold_def push_bit_of_1 by (simp only: and_exp_eq_0_iff_not_bit not_not)
  also have "\<dots> \<longleftrightarrow> bit (unat offset) 31"
    by (simp add: bit_unsigned_iff)
  also have "\<dots> \<longleftrightarrow> odd (unat offset div 2 ^ 31)"
    by (rule bit_iff_odd)
  also have "\<dots> \<longleftrightarrow> 2 ^ 31 \<le> unat offset"
  proof -
    have "unat offset < 2 ^ 32" using unsigned_less [of offset] by simp
    then have "unat offset div 2 ^ 31 < 2" by simp
    then have "odd (unat offset div 2 ^ 31) \<longleftrightarrow> 0 < unat offset div 2 ^ 31"
      by (auto simp: less_2_cases_iff)
    then show ?thesis by (simp add: div_greater_zero_iff)
  qed
  finally show ?thesis .
qed

lemma unwrap_alt:
  "unwrap n isn c =
     (let o1 = unat (n - isn - of_nat c); r = u64 (c + o1)
      in if 2 ^ 31 \<le> o1 \<and> 2 ^ 32 \<le> r then r - 2 ^ 32 else r)"
proof -
  have off: "word_of_int (wi_diff n (wrap c isn)) = n - isn - of_nat c"
    by (simp add: wi_diff_def wrap_def wi_plus_def)
  have "sub64 r (2 ^ 32) = r - 2 ^ 32" if "2 ^ 32 \<le> r" "r < 2 ^ 64" for r
    using that by (rule sub64_id)
  then show ?thesis
    unfolding unwrap_def off Let_def neg_threshold_mask uint32_max_def by simp
qed

lemma of_nat_u64: "(of_nat (u64 n) :: 32 word) = of_nat n"
proof -
  have "n mod 2 ^ 64 mod 2 ^ 32 = n mod 2 ^ 32"
    by (rule mod_mod_cancel) (simp add: le_imp_power_dvd)
  then show ?thesis
    unfolding u64_def by (simp add: word_of_nat_eq_iff take_bit_eq_mod)
qed

lemma unat_diff_of_nat:
  assumes "d < 2 ^ 32"
  shows "unat (of_nat (c + d) - of_nat c :: 32 word) = d"
  using assms by (simp add: unat_of_nat)

lemma of_nat_unwrap: "(of_nat (unwrap x isn c) :: 32 word) = x - isn"
proof -
  let ?r = "u64 (c + unat (x - isn - of_nat c))"
  have r: "(of_nat ?r :: 32 word) = x - isn"
    by (simp add: of_nat_u64)
  have "(of_nat (?r - 2 ^ 32) :: 32 word) = of_nat ?r" if "2 ^ 32 \<le> ?r"
    using that by (simp add: of_nat_diff)
  with r show ?thesis by (simp add: unwrap_alt Let_def)
qed

lemma wrap_eq_iff: "wrap n isn = x \<longleftrightarrow> (of_nat n :: 32 word) = x - isn"
  by (auto simp: wrap_def wi_plus_def)

text \<open>The translation is exact within \<open>2 ^ 31\<close> of the checkpoint.\<close>

lemma unwrap_near:
  assumes "n + 2 ^ 32 < 2 ^ 64" and "n < c + 2 ^ 31" and "c \<le> n + 2 ^ 31"
    and "wrap n isn = x"
  shows "unwrap x isn c = n"
proof (cases "c \<le> n")
  case True
  then obtain d where d: "n = c + d" "d < 2 ^ 31"
    using assms(2) by (metis add_less_cancel_left le_iff_add)
  moreover have "x - isn = of_nat n"
    using assms(4) by (simp add: wrap_eq_iff)
  ultimately have "unat (x - isn - of_nat c) = d"
    using unat_diff_of_nat [of d c] by simp
  with d assms(1) show ?thesis by (simp add: unwrap_alt Let_def u64_id)
next
  case False
  then obtain d where d: "n + 2 ^ 32 = c + d" "d < 2 ^ 32" "2 ^ 31 \<le> d"
    using assms(3) by (intro that [of "n + 2 ^ 32 - c"]) auto
  have "(of_nat n :: 32 word) = of_nat (n + 2 ^ 32)" by simp
  then have "x - isn = of_nat (c + d)"
    using assms(4) unfolding d(1) by (simp only: wrap_eq_iff)
  then have "unat (x - isn - of_nat c) = d"
    using unat_diff_of_nat [OF d(2), of c] by simp
  moreover have "u64 (c + d) = n + 2 ^ 32"
    using d(1) assms(1) by (simp add: u64_id)
  ultimately show ?thesis using d by (simp add: unwrap_alt Let_def)
qed

section \<open>Correctness\<close>

text \<open>C11: the absolute number that \<^verbatim>\<open>unwrap\<close> returns always wraps to the sequence number it was
  given, whatever the checkpoint; and it is the absolute number that was wrapped when that one
  lies within \<open>2 ^ 31\<close> of the checkpoint (below the last \<open>2 ^ 32\<close> values of the
  64-bit range).\<close>

theorem unwrap_wrap:
  "wrap (unwrap x isn c) isn = x \<and>
   (n + 2 ^ 32 < 2 ^ 64 \<and> n < c + 2 ^ 31 \<and> c \<le> n + 2 ^ 31 \<longrightarrow> unwrap (wrap n isn) isn c = n)"
  by (simp add: wrap_eq_iff of_nat_unwrap unwrap_near)

theorem unwrap_wrap_witness:
  "unwrap (wrap (2 ^ 33 + 5) 4294967290) 4294967290 (2 ^ 33 - 7) = 2 ^ 33 + 5"
  using unwrap_wrap [of 0 4294967290 "2 ^ 33 - 7" "2 ^ 33 + 5"] by simp

text \<open>\<^verbatim>\<open>unwrap\<close> returns an absolute number closest to the checkpoint: no other absolute
  number that wraps to the same sequence number is closer.\<close>

theorem unwrap_closest:
  assumes "c + 2 ^ 32 < 2 ^ 64" and "wrap m isn = x"
  shows "\<bar>int (unwrap x isn c) - int c\<bar> \<le> \<bar>int m - int c\<bar>"
proof -
  let ?u = "unwrap x isn c"
  define d where "d = unat (x - isn - of_nat c)"
  have d: "d < 2 ^ 32" using unsigned_less [of "x - isn - of_nat c"] by (simp add: d_def)
  then have r: "u64 (c + d) = c + d" using assms(1) by (simp add: u64_id)
  have u: "?u = (if 2 ^ 31 \<le> d \<and> 2 ^ 32 \<le> c + d then c + d - 2 ^ 32 else c + d)"
    by (simp add: unwrap_alt Let_def r flip: d_def)
  have "(of_nat ?u :: 32 word) = of_nat m"
    using of_nat_unwrap [of x isn c] assms(2) by (simp add: wrap_eq_iff)
  then have "int (?u mod 2 ^ 32) = int (m mod 2 ^ 32)"
    by (simp add: word_of_nat_eq_iff take_bit_eq_mod)
  then have "int m mod 2 ^ 32 = int ?u mod 2 ^ 32"
    by (simp add: zmod_int)
  then obtain k where k: "int m = int ?u + 2 ^ 32 * k"
    by (auto simp: mod_eq_dvd_iff dvd_def algebra_simps)
  show ?thesis
  proof (cases "k = 0")
    case True
    with k show ?thesis by simp
  next
    case False
    then have "k \<ge> 1 \<or> k \<le> -1" by linarith
    with k u d show ?thesis by (auto split: if_splits)
  qed
qed

theorem unwrap_closest_witness:
  "\<bar>int (unwrap 3 0 (2 ^ 32 - 2)) - int (2 ^ 32 - 2)\<bar> \<le> \<bar>int 3 - int (2 ^ 32 - 2)\<bar>"
  by (rule unwrap_closest) (simp_all add: wrap_def wi_plus_def)

end
