(* ===== verification/TCP_Segment.thy ===== *)
theory TCP_Segment
  imports Net_Parser Wrapping_Integers
begin

unbundle bit_operations_syntax

text \<open>
  \<^verbatim>\<open>tcp_helpers/tcp_header.cc\<close> and \<^verbatim>\<open>tcp_helpers/tcp_segment.cc\<close>: the TCP header and segment, their
  parser and their serializer. A parser works on an existing object and returns its result, the
  object afterwards and the state of the \<^verbatim>\<open>NetParser\<close>.
\<close>

section \<open>Model\<close>

record TCPHeader =
  th_sport :: uint16_t
  th_dport :: uint16_t
  th_seqno :: WrappingInt32
  th_ackno :: WrappingInt32
  th_doff :: uint8_t
  th_urg :: bool
  th_ack :: bool
  th_psh :: bool
  th_rst :: bool
  th_syn :: bool
  th_fin :: bool
  th_win :: uint16_t
  th_cksum :: uint16_t
  th_uptr :: uint16_t

definition TCPHeader_LENGTH :: size_t where
  "TCPHeader_LENGTH = 20"

definition TCPHeader_new :: TCPHeader where
  "TCPHeader_new =
     \<lparr>th_sport = 0, th_dport = 0, th_seqno = 0, th_ackno = 0,
      th_doff = of_nat (TCPHeader_LENGTH div 4),
      th_urg = False, th_ack = False, th_psh = False, th_rst = False, th_syn = False,
      th_fin = False, th_win = 0, th_cksum = 0, th_uptr = 0\<rparr>"

text \<open>The parser assigns every field of the header, in the order of the wire format.\<close>

definition th_parse :: "NetParser \<Rightarrow> ParseResult \<times> TCPHeader \<times> NetParser" where
  "th_parse p0 =
     (let (sport, p1) = np_u16 p0;
          (dport, p2) = np_u16 p1;
          (seqno, p3) = np_u32 p2;
          (ackno, p4) = np_u32 p3;
          (doff_b, p5) = np_u8 p4;
          doff = drop_bit 4 doff_b;
          (fl_b, p6) = np_u8 p5;
          (win, p7) = np_u16 p6;
          (cksum, p8) = np_u16 p7;
          (uptr, p9) = np_u16 p8;
          h = \<lparr>th_sport = sport, th_dport = dport, th_seqno = seqno, th_ackno = ackno,
               th_doff = doff,
               th_urg = (fl_b AND 0x20 \<noteq> 0), th_ack = (fl_b AND 0x10 \<noteq> 0),
               th_psh = (fl_b AND 0x08 \<noteq> 0), th_rst = (fl_b AND 0x04 \<noteq> 0),
               th_syn = (fl_b AND 0x02 \<noteq> 0), th_fin = (fl_b AND 0x01 \<noteq> 0),
               th_win = win, th_cksum = cksum, th_uptr = uptr\<rparr>
      in if doff < 5 then (HeaderTooShort, h, p9)
         else let p10 = np_remove_prefix (unat doff * 4 - TCPHeader_LENGTH) p9
              in if np_error p10 \<noteq> NoError then (np_error p10, h, p10)
                 else (NoError, h, p10))"

definition th_flags :: "TCPHeader \<Rightarrow> uint8_t" where
  "th_flags h =
     (if th_urg h then 0x20 else 0) OR (if th_ack h then 0x10 else 0) OR
     (if th_psh h then 0x08 else 0) OR (if th_rst h then 0x04 else 0) OR
     (if th_syn h then 0x02 else 0) OR (if th_fin h then 0x01 else 0)"

text \<open>\<^verbatim>\<open>std::string::resize\<close> cuts the string or pads it with zero bytes.\<close>

definition str_resize :: "size_t \<Rightarrow> bytes \<Rightarrow> bytes" where
  "str_resize n s = take n s @ replicate (n - length s) 0"

definition th_serialize :: "TCPHeader \<Rightarrow> exn + bytes" where
  "th_serialize h =
     (if th_doff h < 5 then Inl (Runtime_error ''TCP header too short'')
      else let r1 = un_u16 [] (th_sport h);
               r2 = un_u16 r1 (th_dport h);
               r3 = un_u32 r2 (th_seqno h);
               r4 = un_u32 r3 (th_ackno h);
               r5 = un_u8 r4 (push_bit 4 (th_doff h));
               r6 = un_u8 r5 (th_flags h);
               r7 = un_u16 r6 (th_win h);
               r8 = un_u16 r7 (th_cksum h);
               r9 = un_u16 r8 (th_uptr h)
           in Inr (str_resize (4 * unat (th_doff h)) r9))"

text \<open>\<^verbatim>\<open>operator==\<close> leaves out the ports and the checksum.\<close>

definition th_equal :: "TCPHeader \<Rightarrow> TCPHeader \<Rightarrow> bool" where
  "th_equal h k \<longleftrightarrow>
     th_seqno h = th_seqno k \<and> th_ackno h = th_ackno k \<and> th_doff h = th_doff k \<and>
     th_urg h = th_urg k \<and> th_ack h = th_ack k \<and> th_psh h = th_psh k \<and> th_rst h = th_rst k \<and>
     th_syn h = th_syn k \<and> th_fin h = th_fin k \<and> th_win h = th_win k \<and> th_uptr h = th_uptr k"

record TCPSegment =
  ts_header :: TCPHeader
  ts_payload :: Buffer

definition TCPSegment_new :: TCPSegment where
  "TCPSegment_new = \<lparr>ts_header = TCPHeader_new, ts_payload = buf_empty\<rparr>"

definition ts_parse :: "Buffer \<Rightarrow> uint32_t \<Rightarrow> TCPSegment \<Rightarrow> ParseResult \<times> TCPSegment" where
  "ts_parse buffer datagram_layer_checksum seg =
     (let check = ck_add (buf_str buffer) (InternetChecksum_new datagram_layer_checksum)
      in if ck_value check \<noteq> 0 then (BadChecksum, seg)
         else let (_, h, p) = th_parse (NetParser_new buffer)
              in (np_error p, seg\<lparr>ts_header := h, ts_payload := np_buffer p\<rparr>))"

definition ts_length_in_sequence_space :: "TCPSegment \<Rightarrow> size_t" where
  "ts_length_in_sequence_space seg =
     length (buf_str (ts_payload seg)) + (if th_syn (ts_header seg) then 1 else 0) +
     (if th_fin (ts_header seg) then 1 else 0)"

definition ts_serialize :: "uint32_t \<Rightarrow> TCPSegment \<Rightarrow> exn + BufferList" where
  "ts_serialize datagram_layer_checksum seg =
     (let header_out = (ts_header seg)\<lparr>th_cksum := 0\<rparr>
      in bindE (th_serialize header_out) (\<lambda>h0.
         let check = ck_add (buf_str (ts_payload seg))
                       (ck_add h0 (InternetChecksum_new datagram_layer_checksum));
             header_out = header_out\<lparr>th_cksum := ck_value check\<rparr>
         in bindE (th_serialize header_out) (\<lambda>h1.
            Inr (bl_append (bl_append [] (bl_of_string h1)) (bl_of_buffer (ts_payload seg))))))"

section \<open>Wire format\<close>

definition th_wire :: "TCPHeader \<Rightarrow> bytes" where
  "th_wire h =
     [byte_of (Suc 0) (th_sport h), byte_of 0 (th_sport h),
      byte_of (Suc 0) (th_dport h), byte_of 0 (th_dport h),
      byte_of 3 (th_seqno h), byte_of 2 (th_seqno h),
      byte_of (Suc 0) (th_seqno h), byte_of 0 (th_seqno h),
      byte_of 3 (th_ackno h), byte_of 2 (th_ackno h),
      byte_of (Suc 0) (th_ackno h), byte_of 0 (th_ackno h),
      push_bit 4 (th_doff h), th_flags h,
      byte_of (Suc 0) (th_win h), byte_of 0 (th_win h),
      byte_of (Suc 0) (th_cksum h), byte_of 0 (th_cksum h),
      byte_of (Suc 0) (th_uptr h), byte_of 0 (th_uptr h)]"

definition th_wf :: "TCPHeader \<Rightarrow> bool" where
  "th_wf h \<longleftrightarrow> 5 \<le> unat (th_doff h) \<and> unat (th_doff h) < 16"

lemma length_th_wire [simp]: "length (th_wire h) = 20"
  by (simp add: th_wire_def)

lemma th_serialize_throws:
  "unat (th_doff h) < 5 \<longleftrightarrow> th_serialize h = Inl (Runtime_error ''TCP header too short'')"
  by (simp add: th_serialize_def word_less_nat_alt Let_def)

lemma th_serialize_eq:
  assumes "5 \<le> unat (th_doff h)"
  shows "th_serialize h = Inr (th_wire h @ replicate (4 * unat (th_doff h) - 20) 0)"
proof -
  have "\<not> th_doff h < 5" using assms by (simp add: word_less_nat_alt)
  moreover have "un_u16 (un_u16 (un_u16 (un_u8 (un_u8 (un_u32 (un_u32 (un_u16 (un_u16 []
      (th_sport h)) (th_dport h)) (th_seqno h)) (th_ackno h)) (push_bit 4 (th_doff h)))
      (th_flags h)) (th_win h)) (th_cksum h)) (th_uptr h) = th_wire h"
    by (simp add: un_simps th_wire_def)
  ultimately show ?thesis
    using assms by (simp add: th_serialize_def Let_def str_resize_def)
qed

lemma th_flags_bits [simp]:
  "(th_flags h AND 0x20 \<noteq> 0) = th_urg h" "(th_flags h AND 0x10 \<noteq> 0) = th_ack h"
  "(th_flags h AND 0x08 \<noteq> 0) = th_psh h" "(th_flags h AND 0x04 \<noteq> 0) = th_rst h"
  "(th_flags h AND 0x02 \<noteq> 0) = th_syn h" "(th_flags h AND 0x01 \<noteq> 0) = th_fin h"
  unfolding th_flags_def
  by (cases "th_urg h"; cases "th_ack h"; cases "th_psh h"; cases "th_rst h"; cases "th_syn h";
      cases "th_fin h"; simp)+

lemma nibble_high:
  assumes "unat (d :: uint8_t) < 16"
  shows "drop_bit 4 (push_bit 4 d) = d"
proof -
  have "unat (push_bit 4 d) = unat d * 16"
    using assms by (simp add: push_bit_eq_mult unat_word_ariths(2))
  then show ?thesis by (simp add: word_unat_eq_iff drop_bit_eq_div unat_div)
qed

text \<open>Parsing the 20 fixed bytes; what follows depends on the data offset.\<close>

definition th_read :: "bytes \<Rightarrow> TCPHeader" where
  "th_read bs =
     \<lparr>th_sport = join_bytes (take 2 bs), th_dport = join_bytes (take 2 (drop 2 bs)),
      th_seqno = join_bytes (take 4 (drop 4 bs)), th_ackno = join_bytes (take 4 (drop 8 bs)),
      th_doff = drop_bit 4 (bs ! 12),
      th_urg = (bs ! 13 AND 0x20 \<noteq> 0), th_ack = (bs ! 13 AND 0x10 \<noteq> 0),
      th_psh = (bs ! 13 AND 0x08 \<noteq> 0), th_rst = (bs ! 13 AND 0x04 \<noteq> 0),
      th_syn = (bs ! 13 AND 0x02 \<noteq> 0), th_fin = (bs ! 13 AND 0x01 \<noteq> 0),
      th_win = join_bytes (take 2 (drop 14 bs)), th_cksum = join_bytes (take 2 (drop 16 bs)),
      th_uptr = join_bytes (take 2 (drop 18 bs))\<rparr>"

lemma th_read_wire:
  "unat (th_doff h) < 16 \<Longrightarrow> th_read (th_wire h @ rest) = h"
  by (simp add: th_read_def th_wire_def nibble_high del: th_flags_bits) (simp only: th_flags_bits, simp)

lemma th_parse_fixed:
  assumes "np_fine p" and "20 \<le> length (np_bytes p)"
  shows "th_parse p =
      (let h = th_read (np_bytes p); p1 = np_skip 20 p
       in if th_doff h < 5 then (HeaderTooShort, h, p1)
          else let p2 = np_remove_prefix (unat (th_doff h) * 4 - TCPHeader_LENGTH) p1
               in if np_error p2 \<noteq> NoError then (np_error p2, h, p2) else (NoError, h, p2))"
proof -
  have "np_u16 p = (join_bytes (take 2 (np_bytes p)), np_skip 2 p)"
    "np_u16 (np_skip 2 p) = (join_bytes (take 2 (drop 2 (np_bytes p))), np_skip 4 p)"
    "np_u32 (np_skip 4 p) = (join_bytes (take 4 (drop 4 (np_bytes p))), np_skip 8 p)"
    "np_u32 (np_skip 8 p) = (join_bytes (take 4 (drop 8 (np_bytes p))), np_skip 12 p)"
    "np_u8 (np_skip 12 p) = (np_bytes p ! 12, np_skip 13 p)"
    "np_u8 (np_skip 13 p) = (np_bytes p ! 13, np_skip 14 p)"
    "np_u16 (np_skip 14 p) = (join_bytes (take 2 (drop 14 (np_bytes p))), np_skip 16 p)"
    "np_u16 (np_skip 16 p) = (join_bytes (take 2 (drop 16 (np_bytes p))), np_skip 18 p)"
    "np_u16 (np_skip 18 p) = (join_bytes (take 2 (drop 18 (np_bytes p))), np_skip 20 p)"
    using assms by (simp_all add: np_at np_first)
  then show ?thesis by (simp only: th_parse_def th_read_def Let_def prod.case TCPHeader.simps)
qed

lemma th_parse_run:
  assumes "np_fine p" and "20 \<le> length (np_bytes p)"
  shows "th_parse p =
      (let h = th_read (np_bytes p)
       in if unat (th_doff h) < 5 then (HeaderTooShort, h, np_skip 20 p)
          else if 4 * unat (th_doff h) \<le> length (np_bytes p)
          then (NoError, h, np_skip (4 * unat (th_doff h)) p)
          else (PacketTooShort, h, np_fail (np_skip 20 p)))"
proof -
  define d where "d = unat (th_doff (th_read (np_bytes p)))"
  have "np_remove_prefix (d * 4 - 20) (np_skip 20 p) =
      (if 4 * d \<le> length (np_bytes p) then np_skip (4 * d) p else np_fail (np_skip 20 p))"
    if "5 \<le> d"
  proof -
    have "(d * 4 - 20 \<le> length (np_bytes p) - 20) = (4 * d \<le> length (np_bytes p))"
      using that assms(2) by linarith
    moreover have "20 + (d * 4 - 20) = 4 * d" using that by simp
    ultimately show ?thesis using assms by (simp add: np_remove_prefix_run)
  qed
  then show ?thesis
    unfolding th_parse_fixed [OF assms] Let_def TCPHeader_LENGTH_def word_less_nat_alt d_def
    using assms by auto
qed

lemma th_parse_short:
  assumes "buf_wf b" and "length (buf_str b) < 20"
  shows "np_error (snd (snd (th_parse (NetParser_new b)))) = PacketTooShort"
proof -
  obtain x1 p1 x2 p2 x3 p3 x4 p4 x5 p5 x6 p6 x7 p7 x8 p8 x9 p9 where
    reads: "np_u16 (NetParser_new b) = (x1, p1)" "np_u16 p1 = (x2, p2)" "np_u32 p2 = (x3, p3)"
      "np_u32 p3 = (x4, p4)" "np_u8 p4 = (x5, p5)" "np_u8 p5 = (x6, p6)" "np_u16 p6 = (x7, p7)"
      "np_u16 p7 = (x8, p8)" "np_u16 p8 = (x9, p9)"
    by (meson surj_pair)
  have "np_consumed (length (buf_str b)) 20 p9"
    using np_consumed_reads(2) [OF np_consumed_reads(2) [OF np_consumed_reads(2)
      [OF np_consumed_reads(1) [OF np_consumed_reads(1) [OF np_consumed_reads(3)
      [OF np_consumed_reads(3) [OF np_consumed_reads(2) [OF np_consumed_reads(2)
      [OF np_consumed_new [OF assms(1)] reads(1)] reads(2)] reads(3)] reads(4)] reads(5)]
      reads(6)] reads(7)] reads(8)] reads(9)]
    by simp
  then have "np_error p9 = PacketTooShort" using assms(2) by (rule np_consumed_short)
  then show ?thesis
    by (simp add: th_parse_def reads np_remove_prefix_stuck split del: if_split)
      (simp add: Let_def np_remove_prefix_stuck)
qed

text \<open>The checksum field sits at offset 16 of the fixed bytes.\<close>

lemma th_wire_cksum:
  "th_wire (h\<lparr>th_cksum := c\<rparr>) =
   take 16 (th_wire h) @ byte_of (Suc 0) c # byte_of 0 c # drop 18 (th_wire h)"
  by (simp add: th_wire_def th_flags_def)

lemma byte_of_zero [simp]: "byte_of k 0 = 0"
  by (simp add: byte_of_def)

lemma ts_serialize_eq:
  assumes "5 \<le> unat (th_doff (ts_header seg))"
    and "unat init + 65280 * (4 * unat (th_doff (ts_header seg)) + length (buf_str (ts_payload seg)))
         < 2 ^ 32"
  obtains c bl where "ts_serialize init seg = Inr bl"
    and "bl_bytes bl = th_wire ((ts_header seg)\<lparr>th_cksum := c\<rparr>) @
           replicate (4 * unat (th_doff (ts_header seg)) - 20) 0 @ buf_str (ts_payload seg)"
    and "cksum_of init (bl_bytes bl) = 0"
proof -
  let ?h = "ts_header seg" and ?d = "unat (th_doff (ts_header seg))"
  define ys where "ys = drop 18 (th_wire ?h) @ replicate (4 * ?d - 20) 0 @ buf_str (ts_payload seg)"
  define c where "c = cksum_of init (take 16 (th_wire ?h) @ 0 # 0 # ys)"
  define bl where "bl = [buf_of_string (th_wire (?h\<lparr>th_cksum := c\<rparr>) @ replicate (4 * ?d - 20) 0),
    ts_payload seg]"
  have "th_wire (?h\<lparr>th_cksum := 0\<rparr>) @ replicate (4 * ?d - 20) 0 @ buf_str (ts_payload seg) =
      take 16 (th_wire ?h) @ 0 # 0 # ys"
    by (simp add: th_wire_cksum ys_def)
  then have "ts_serialize init seg = Inr bl"
    using assms(1)
    by (simp add: ts_serialize_def th_serialize_eq Let_def bl_def c_def cksum_of_def bl_append_def
        bl_of_string_def bl_of_buffer_def flip: ck_add_append)
  moreover have "cksum_of init (bl_bytes bl) = 0"
  proof -
    have "bl_bytes bl = take 16 (th_wire ?h) @ byte_of (Suc 0) c # byte_of 0 c # ys"
      by (simp add: bl_def th_wire_cksum ys_def)
    moreover have "unat init + 65280 * (length (take 16 (th_wire ?h)) + length ys + 2) < 2 ^ 32"
      using assms by (simp add: ys_def algebra_simps)
    ultimately show ?thesis
      using cksum_of_fill [of "take 16 (th_wire ?h)" init ys c] by (simp add: c_def)
  qed
  ultimately show thesis using that [of bl c] by (simp add: bl_def)
qed

section \<open>Segments of a stream\<close>

text \<open>
  The segment \<open>seg\<close> carries, from absolute sequence number \<open>n\<close> on, bytes of the stream \<open>S\<close> whose SYN
  has sequence number \<open>isn\<close>: the SYN occupies number 0, byte \<open>i\<close> of the stream number
  \<open>i + 1\<close>, and the FIN the number after the last byte. An empty segment, which only
  acknowledges, may have the number after the FIN.
\<close>

definition carries :: "bytes \<Rightarrow> WrappingInt32 \<Rightarrow> nat \<Rightarrow> TCPSegment \<Rightarrow> bool" where
  "carries S isn n seg \<longleftrightarrow>
     th_seqno (ts_header seg) = wrap n isn \<and>
     (if th_syn (ts_header seg) then n = 0 else 1 \<le> n) \<and>
     (agrees S (n - 1) (buf_str (ts_payload seg)) \<or>
      ts_length_in_sequence_space seg = 0 \<and> n \<le> length S + 2) \<and>
     (th_fin (ts_header seg) \<longrightarrow> n - 1 + length (buf_str (ts_payload seg)) = length S)"

section \<open>Correctness\<close>

text \<open>C20: what \<^verbatim>\<open>TCPSegment::parse\<close> returns, on every input. A wrong checksum is \<^verbatim>\<open>BadChecksum\<close>
  and leaves the segment as it was. Otherwise fewer than 20 bytes, or fewer bytes than the data
  offset announces, is \<^verbatim>\<open>PacketTooShort\<close>; and with enough bytes the fields are those of the wire
  format and the payload is what follows the header. A data offset below five words, which
  \<^verbatim>\<open>TCPHeader::parse\<close> reports as \<^verbatim>\<open>HeaderTooShort\<close>, is not an error of the segment: it is accepted
  with everything after the 20 fixed bytes as its payload.\<close>

theorem tcp_segment_parse:
  fixes b init seg
  defines "h \<equiv> th_read (buf_str b)" and "r \<equiv> fst (ts_parse b init seg)"
    and "seg1 \<equiv> snd (ts_parse b init seg)"
  assumes "buf_wf b"
  shows "(cksum_of init (buf_str b) \<noteq> 0 \<longrightarrow> r = BadChecksum \<and> seg1 = seg) \<and>
    (cksum_of init (buf_str b) = 0 \<longrightarrow>
      (length (buf_str b) < 20 \<longrightarrow> r = PacketTooShort) \<and>
      (20 \<le> length (buf_str b) \<longrightarrow>
         ts_header seg1 = h \<and>
         (if unat (th_doff h) < 5
          then r = NoError \<and> buf_str (ts_payload seg1) = drop 20 (buf_str b) \<and>
               fst (th_parse (NetParser_new b)) = HeaderTooShort
          else if length (buf_str b) < 4 * unat (th_doff h) then r = PacketTooShort
          else r = NoError \<and> buf_str (ts_payload seg1) = drop (4 * unat (th_doff h)) (buf_str b))))"
proof -
  have short: "r = PacketTooShort" if "cksum_of init (buf_str b) = 0" "length (buf_str b) < 20"
    using that th_parse_short [OF assms(4)]
    by (auto simp: r_def ts_parse_def cksum_of_def Let_def split: prod.splits)
  show ?thesis
  proof (cases "cksum_of init (buf_str b) = 0 \<and> 20 \<le> length (buf_str b)")
    case True
    then have "ck_value (ck_add (buf_str b) (InternetChecksum_new init)) = 0"
      by (simp add: cksum_of_def)
    then show ?thesis
      using True assms(4) th_parse_run [of "NetParser_new b"]
      unfolding r_def seg1_def h_def
      by (auto simp: ts_parse_def Let_def simp flip: np_bytes_def)
  next
    case False
    then show ?thesis
      using short by (auto simp: r_def seg1_def ts_parse_def cksum_of_def Let_def)
  qed
qed

theorem tcp_segment_parse_witness:
  "fst (ts_parse (buf_of_string (replicate 20 0)) 0xffff TCPSegment_new) = NoError \<and>
   fst (th_parse (NetParser_new (buf_of_string (replicate 20 0)))) = HeaderTooShort"
proof -
  have "unat (cksum_of 0xffff (replicate 20 0)) = 0"
    by (simp add: unat_cksum_of fold16_def)
  then have "cksum_of 0xffff (replicate 20 0) = 0" by (simp add: unsigned_eq_0_iff)
  moreover have "th_doff (th_read (replicate 20 0)) = 0"
    by (simp add: th_read_def)
  ultimately show ?thesis
    using tcp_segment_parse [where b = "buf_of_string (replicate 20 0)" and init = "0xffff"
      and seg = TCPSegment_new] by simp
qed

text \<open>Parsing the bytes of a serialized segment, in any buffer that holds them.\<close>

lemma ts_parse_serialized:
  assumes "5 \<le> unat (th_doff (ts_header seg))" and "unat (th_doff (ts_header seg)) < 16"
    and "unat init + 65280 * (4 * unat (th_doff (ts_header seg)) + length (buf_str (ts_payload seg))) < 2 ^ 32"
  obtains bl c where "ts_serialize init seg = Inr bl"
    and "length (bl_bytes bl) = 4 * unat (th_doff (ts_header seg)) + length (buf_str (ts_payload seg))"
    and "\<forall>b seg0. buf_wf b \<longrightarrow> buf_str b = bl_bytes bl \<longrightarrow>
           (\<exists>pay. ts_parse b init seg0 =
                (NoError, seg0\<lparr>ts_header := (ts_header seg)\<lparr>th_cksum := c\<rparr>, ts_payload := pay\<rparr>) \<and>
              buf_str pay = buf_str (ts_payload seg))"
proof -
  let ?d = "unat (th_doff (ts_header seg))"
  obtain c bl where bl: "ts_serialize init seg = Inr bl"
    "bl_bytes bl = th_wire ((ts_header seg)\<lparr>th_cksum := c\<rparr>) @
      replicate (4 * ?d - 20) 0 @ buf_str (ts_payload seg)" "cksum_of init (bl_bytes bl) = 0"
    using ts_serialize_eq [OF assms(1,3)] by metis
  have len: "length (bl_bytes bl) = 4 * ?d + length (buf_str (ts_payload seg))"
    using assms(1) by (simp add: bl(2))
  have h: "th_read (bl_bytes bl) = (ts_header seg)\<lparr>th_cksum := c\<rparr>"
    unfolding bl(2) by (rule th_read_wire) (simp add: assms(2))
  have parse: "\<exists>pay. ts_parse b init seg0 =
      (NoError, seg0\<lparr>ts_header := (ts_header seg)\<lparr>th_cksum := c\<rparr>, ts_payload := pay\<rparr>) \<and>
      buf_str pay = buf_str (ts_payload seg)"
    if b: "buf_wf b" "buf_str b = bl_bytes bl" for b seg0
  proof -
    let ?p = "NetParser_new b"
    have "th_parse ?p = (NoError, (ts_header seg)\<lparr>th_cksum := c\<rparr>, np_skip (4 * ?d) ?p)"
      using th_parse_run [of ?p] b assms(1) len h by (simp add: Let_def)
    moreover have "buf_str (np_buffer (np_skip (4 * ?d) ?p)) = buf_str (ts_payload seg)"
      using b len assms(1) by (simp flip: np_bytes_def) (simp add: bl(2))
    ultimately show ?thesis
      using bl(3) b len by (simp add: ts_parse_def cksum_of_def Let_def) blast
  qed
  show thesis by (rule that [OF bl(1) len]) (use parse in blast)
qed

text \<open>C19: a segment survives the wire. Serializing a segment whose data offset is legal does not
  throw, and parsing the serialized bytes with the same pseudo-header checksum accepts them and
  gives back the same payload and the same header, apart from the checksum field, which the
  serializer fills. The bound keeps the checksum's accumulator in 32 bits.\<close>

theorem tcp_segment_round_trip:
  assumes "5 \<le> unat (th_doff (ts_header seg))" and "unat (th_doff (ts_header seg)) < 16"
    and "buf_wf (ts_payload seg)"
    and "unat init + 65280 * (60 + length (buf_str (ts_payload seg))) < 2 ^ 32"
  shows "\<exists>bl seg1. ts_serialize init seg = Inr bl \<and>
    ts_parse (buf_of_string (bl_concatenate bl)) init seg0 = (NoError, seg1) \<and>
    (\<exists>c. ts_header seg1 = (ts_header seg)\<lparr>th_cksum := c\<rparr>) \<and>
    buf_str (ts_payload seg1) = buf_str (ts_payload seg)"
proof -
  let ?n = "length (buf_str (ts_payload seg))"
  have "65280 * (4 * unat (th_doff (ts_header seg)) + ?n) \<le> 65280 * (60 + ?n)" using assms(2) by simp
  then have bound: "unat init + 65280 * (4 * unat (th_doff (ts_header seg)) + ?n) < 2 ^ 32"
    using assms(4) by linarith
  obtain bl c where bl: "ts_serialize init seg = Inr bl"
    "length (bl_bytes bl) = 4 * unat (th_doff (ts_header seg)) + ?n"
    "\<forall>b seg0. buf_wf b \<longrightarrow> buf_str b = bl_bytes bl \<longrightarrow>
       (\<exists>pay. ts_parse b init seg0 =
          (NoError, seg0\<lparr>ts_header := (ts_header seg)\<lparr>th_cksum := c\<rparr>, ts_payload := pay\<rparr>) \<and>
        buf_str pay = buf_str (ts_payload seg))"
    by (rule ts_parse_serialized [OF assms(1,2) bound])
  have "buf_wf (buf_of_string (bl_bytes bl))"
    using assms(2,4) by (intro buf_wf_of_string) (simp add: bl(2))
  then show ?thesis using bl(1,3) by fastforce
qed

theorem tcp_segment_round_trip_witness:
  "\<exists>bl seg1. ts_serialize 1234 \<lparr>ts_header = TCPHeader_new\<lparr>th_seqno := 17, th_syn := True\<rparr>,
      ts_payload = buf_of_string [1, 2, 3]\<rparr> = Inr bl \<and>
    ts_parse (buf_of_string (bl_concatenate bl)) 1234 TCPSegment_new = (NoError, seg1) \<and>
    (\<exists>c. ts_header seg1 = TCPHeader_new\<lparr>th_seqno := 17, th_syn := True, th_cksum := c\<rparr>) \<and>
    buf_str (ts_payload seg1) = [1, 2, 3]"
  using tcp_segment_round_trip [of "\<lparr>ts_header = TCPHeader_new\<lparr>th_seqno := 17, th_syn := True\<rparr>,
      ts_payload = buf_of_string [1, 2, 3]\<rparr>" 1234 TCPSegment_new]
  by (simp add: TCPHeader_new_def TCPHeader_LENGTH_def)

end
