(* ===== verification/Byte_Stream.thy ===== *)
theory Byte_Stream
  imports Buffers
begin

text \<open>
  \<^verbatim>\<open>byte_stream.hh\<close> and \<^verbatim>\<open>byte_stream.cc\<close>: the flow-controlled in-memory byte stream that the
  reassembler writes and the sender reads. The contract its two clients rely on is the locale
  \<open>bounded_stream\<close>: a first-in first-out string of at most \<open>capacity\<close> bytes whose
  writer learns how much was accepted.
\<close>

section \<open>Model\<close>

record ByteStream =
  bs_capacity :: size_t
  bs_bytes_written :: size_t
  bs_bytes_read :: size_t
  bs_buffer :: BufferList
  bs_buffer_size :: size_t
  bs_end_input :: bool
  bs_error :: bool

definition ByteStream_new :: "size_t \<Rightarrow> ByteStream" where
  "ByteStream_new capacity =
     \<lparr>bs_capacity = capacity, bs_bytes_written = 0, bs_bytes_read = 0, bs_buffer = [],
      bs_buffer_size = 0, bs_end_input = False, bs_error = False\<rparr>"

definition bs_write :: "bytes \<Rightarrow> ByteStream \<Rightarrow> size_t \<times> ByteStream" where
  "bs_write data bs =
     (let count = min (sub64 (bs_capacity bs) (bs_buffer_size bs)) (length data)
      in (count,
          bs\<lparr>bs_buffer := bl_append (bs_buffer bs) (bl_of_string (take count data)),
             bs_buffer_size := u64 (bs_buffer_size bs + count),
             bs_bytes_written := u64 (bs_bytes_written bs + count)\<rparr>))"

definition bs_peek_output :: "size_t \<Rightarrow> ByteStream \<Rightarrow> bytes" where
  "bs_peek_output len bs =
     (let count = min len (bs_buffer_size bs) in bl_concatenate_n count (bs_buffer bs))"

definition bs_pop_output :: "size_t \<Rightarrow> ByteStream \<Rightarrow> exn + ByteStream" where
  "bs_pop_output len bs =
     (let count = min len (bs_buffer_size bs)
      in bindE (bl_remove_prefix count (bs_buffer bs)) (\<lambda>buf.
           Inr (bs\<lparr>bs_buffer := buf,
                   bs_bytes_read := u64 (bs_bytes_read bs + count),
                   bs_buffer_size := sub64 (bs_buffer_size bs) count\<rparr>)))"

definition bs_read :: "size_t \<Rightarrow> ByteStream \<Rightarrow> exn + bytes \<times> ByteStream" where
  "bs_read len bs =
     (let ret = bs_peek_output len bs
      in bindE (bs_pop_output len bs) (\<lambda>bs'. Inr (ret, bs')))"

definition bs_do_end_input :: "ByteStream \<Rightarrow> ByteStream" where
  "bs_do_end_input bs = bs\<lparr>bs_end_input := True\<rparr>"

definition bs_set_error :: "ByteStream \<Rightarrow> ByteStream" where
  "bs_set_error bs = bs\<lparr>bs_error := True\<rparr>"

definition bs_input_ended :: "ByteStream \<Rightarrow> bool" where
  "bs_input_ended bs = bs_end_input bs"

definition bs_buffer_empty :: "ByteStream \<Rightarrow> bool" where
  "bs_buffer_empty bs \<longleftrightarrow> bs_buffer_size bs = 0"

definition bs_eof :: "ByteStream \<Rightarrow> bool" where
  "bs_eof bs \<longleftrightarrow> bs_end_input bs \<and> bs_buffer_size bs = 0"

definition bs_remaining_capacity :: "ByteStream \<Rightarrow> size_t" where
  "bs_remaining_capacity bs = sub64 (bs_capacity bs) (bs_buffer_size bs)"

section \<open>Invariant\<close>

text \<open>
  \<open>_buffer_size\<close> counts the bytes in the buffer, which never exceed the capacity; the
  accounting counters are 64-bit values whose difference is the buffer size, modulo wrap-around.
\<close>

definition bs_contents :: "ByteStream \<Rightarrow> bytes" where
  "bs_contents bs = bl_bytes (bs_buffer bs)"

definition bs_inv :: "ByteStream \<Rightarrow> bool" where
  "bs_inv bs \<longleftrightarrow>
     bl_wf (bs_buffer bs) \<and>
     bs_buffer_size bs = length (bs_contents bs) \<and>
     bs_buffer_size bs \<le> bs_capacity bs \<and>
     bs_capacity bs < 2 ^ 64 \<and>
     bs_bytes_read bs < 2 ^ 64 \<and>
     bs_bytes_written bs = u64 (bs_bytes_read bs + bs_buffer_size bs)"

declare bs_inv_def [inv_defs]

lemma bs_inv_new: "capacity < 2 ^ 64 \<Longrightarrow> bs_inv (ByteStream_new capacity)"
  by (simp add: bs_inv_def ByteStream_new_def bs_contents_def u64_id)

lemma ByteStream_new_simps [simp]:
  "bs_contents (ByteStream_new c) = []" "bs_capacity (ByteStream_new c) = c"
  "bs_bytes_written (ByteStream_new c) = 0" "bs_bytes_read (ByteStream_new c) = 0"
  "bs_buffer_size (ByteStream_new c) = 0" "\<not> bs_end_input (ByteStream_new c)"
  "\<not> bs_error (ByteStream_new c)"
  by (simp_all add: ByteStream_new_def bs_contents_def)

lemma bs_inv_remaining:
  "bs_inv bs \<Longrightarrow> bs_remaining_capacity bs = bs_capacity bs - length (bs_contents bs)"
  by (simp add: bs_inv_def bs_remaining_capacity_def sub64_id)

lemma bs_write_spec:
  assumes "bs_inv bs" and "bs_write data bs = (count, bs')"
  shows "count = min (bs_capacity bs - length (bs_contents bs)) (length data)"
    and "bs_contents bs' = bs_contents bs @ take count data"
    and "bs_inv bs'"
    and "bs_bytes_written bs' = u64 (bs_bytes_written bs + count)"
    and "bs_capacity bs' = bs_capacity bs"
    and "bs_bytes_read bs' = bs_bytes_read bs"
    and "bs_end_input bs' = bs_end_input bs"
    and "bs_error bs' = bs_error bs"
proof -
  show count: "count = min (bs_capacity bs - length (bs_contents bs)) (length data)"
    using assms by (auto simp: bs_write_def Let_def bs_inv_def sub64_id)
  show contents: "bs_contents bs' = bs_contents bs @ take count data"
    using assms(2) by (auto simp: bs_write_def Let_def bs_contents_def bl_append_def)
  have fields: "bs_buffer bs' = bs_buffer bs @ bl_of_string (take count data)"
    "bs_buffer_size bs' = u64 (bs_buffer_size bs + count)"
    "bs_bytes_written bs' = u64 (bs_bytes_written bs + count)"
    "bs_capacity bs' = bs_capacity bs" "bs_bytes_read bs' = bs_bytes_read bs"
    using assms(2) by (auto simp: bs_write_def Let_def bl_append_def)
  have le: "count \<le> length data" "bs_buffer_size bs + count \<le> bs_capacity bs"
    using assms(1) count by (auto simp: bs_inv_def)
  moreover have "bs_capacity bs < 2 ^ 64"
    using assms(1) by (simp add: bs_inv_def)
  ultimately have "bs_buffer_size bs' = bs_buffer_size bs + count"
    by (simp add: fields u64_id)
  with le show "bs_inv bs'"
    using assms(1) contents fields by (auto simp: bs_inv_def add.assoc)
qed (use assms(2) in \<open>auto simp: bs_write_def Let_def\<close>)

lemma bs_peek_output_eq: "bs_inv bs \<Longrightarrow> bs_peek_output len bs = take len (bs_contents bs)"
  by (simp add: bs_peek_output_def Let_def bl_concatenate_n_eq bs_inv_def bs_contents_def
      take_min_length)

lemma bs_peek_output_length: "length (bs_peek_output len bs) \<le> len"
  by (simp add: bs_peek_output_def Let_def bl_concatenate_n_eq)

lemma bs_pop_output_spec:
  assumes "bs_inv bs"
  obtains bs' where "bs_pop_output len bs = Inr bs'"
    and "bs_inv bs'" and "bs_contents bs' = drop len (bs_contents bs)"
    and "bs_bytes_read bs' = u64 (bs_bytes_read bs + min len (length (bs_contents bs)))"
    and "bs_capacity bs' = bs_capacity bs" "bs_bytes_written bs' = bs_bytes_written bs"
    and "bs_end_input bs' = bs_end_input bs" "bs_error bs' = bs_error bs"
proof -
  let ?c = "min len (bs_buffer_size bs)"
  have wf: "bl_wf (bs_buffer bs)" and sz: "bs_buffer_size bs = length (bl_bytes (bs_buffer bs))"
    using assms by (simp_all add: bs_inv_def bs_contents_def)
  obtain buf where buf: "bl_remove_prefix ?c (bs_buffer bs) = Inr buf" "bl_wf buf"
    "bl_bytes buf = drop ?c (bl_bytes (bs_buffer bs))"
    using bl.remove_okE [OF wf, of ?c] sz by auto
  let ?bs' = "bs\<lparr>bs_buffer := buf, bs_bytes_read := u64 (bs_bytes_read bs + ?c),
                 bs_buffer_size := sub64 (bs_buffer_size bs) ?c\<rparr>"
  have pop: "bs_pop_output len bs = Inr ?bs'"
    by (simp add: bs_pop_output_def Let_def buf)
  have lim: "bs_buffer_size bs < 2 ^ 64"
    using assms by (simp add: bs_inv_def)
  have "bs_inv ?bs'"
    using assms buf sz lim by (auto simp: bs_inv_def bs_contents_def sub64_id)
  with pop show thesis
    using buf sz by (intro that [of ?bs']) (simp_all add: bs_contents_def drop_min_length)
qed

lemma bs_read_spec:
  assumes "bs_inv bs"
  obtains bs' where "bs_read len bs = Inr (take len (bs_contents bs), bs')"
    and "bs_inv bs'" and "bs_contents bs' = drop len (bs_contents bs)"
    and "bs_bytes_read bs' = u64 (bs_bytes_read bs + min len (length (bs_contents bs)))"
    and "bs_capacity bs' = bs_capacity bs" "bs_bytes_written bs' = bs_bytes_written bs"
    and "bs_end_input bs' = bs_end_input bs" "bs_error bs' = bs_error bs"
proof -
  obtain bs' where "bs_pop_output len bs = Inr bs'" and *: "bs_inv bs'"
    "bs_contents bs' = drop len (bs_contents bs)"
    "bs_bytes_read bs' = u64 (bs_bytes_read bs + min len (length (bs_contents bs)))"
    "bs_capacity bs' = bs_capacity bs" "bs_bytes_written bs' = bs_bytes_written bs"
    "bs_end_input bs' = bs_end_input bs" "bs_error bs' = bs_error bs"
    using bs_pop_output_spec [OF assms, of len] .
  then have "bs_read len bs = Inr (take len (bs_contents bs), bs')"
    using assms by (simp add: bs_read_def bs_peek_output_eq)
  then show thesis using * by (rule that)
qed

lemma bs_read_length: "bs_read len bs = Inr (data, bs') \<Longrightarrow> length data \<le> len"
  using bs_peek_output_length [of len bs]
  by (auto simp: bs_read_def Let_def bindE_eq_Inr)

lemma bs_eof_iff: "bs_inv bs \<Longrightarrow> bs_eof bs \<longleftrightarrow> bs_end_input bs \<and> bs_contents bs = []"
  by (auto simp: bs_eof_def bs_inv_def)

lemma bs_end_input_inv [simp]: "bs_inv (bs_do_end_input bs) = bs_inv bs"
  by (simp add: bs_do_end_input_def bs_inv_def bs_contents_def)

lemma bs_set_error_inv [simp]: "bs_inv (bs_set_error bs) = bs_inv bs"
  by (simp add: bs_set_error_def bs_inv_def bs_contents_def)

lemma bs_flag_simps [simp]:
  "bs_contents (bs_do_end_input bs) = bs_contents bs"
  "bs_contents (bs_set_error bs) = bs_contents bs"
  "bs_bytes_written (bs_do_end_input bs) = bs_bytes_written bs"
  "bs_bytes_written (bs_set_error bs) = bs_bytes_written bs"
  "bs_bytes_read (bs_do_end_input bs) = bs_bytes_read bs"
  "bs_bytes_read (bs_set_error bs) = bs_bytes_read bs"
  "bs_capacity (bs_do_end_input bs) = bs_capacity bs"
  "bs_capacity (bs_set_error bs) = bs_capacity bs"
  "bs_buffer_size (bs_do_end_input bs) = bs_buffer_size bs"
  "bs_buffer_size (bs_set_error bs) = bs_buffer_size bs"
  "bs_end_input (bs_do_end_input bs)" "bs_end_input (bs_set_error bs) = bs_end_input bs"
  "bs_error (bs_do_end_input bs) = bs_error bs" "bs_error (bs_set_error bs)"
  by (simp_all add: bs_do_end_input_def bs_set_error_def bs_contents_def)

section \<open>The contract of a bounded stream\<close>

text \<open>
  A session of the two ends of a stream: the writer's \<^verbatim>\<open>write\<close> calls (\<open>Inl\<close>) and the reader's
  \<^verbatim>\<open>read\<close> calls (\<open>Inr\<close>) in any order. It returns the accepted bytes, the bytes read and the
  final stream.
\<close>

fun stream_session ::
  "(bytes \<Rightarrow> 's \<Rightarrow> nat \<times> 's) \<Rightarrow> (nat \<Rightarrow> 's \<Rightarrow> exn + bytes \<times> 's) \<Rightarrow> (bytes + nat) list \<Rightarrow> 's
   \<Rightarrow> exn + bytes \<times> bytes \<times> 's" where
  "stream_session put get [] s = Inr ([], [], s)"
| "stream_session put get (Inl d # ops) s =
     (let (n, s1) = put d s
      in bindE (stream_session put get ops s1) (\<lambda>(acc, out, s2). Inr (take n d @ acc, out, s2)))"
| "stream_session put get (Inr k # ops) s =
     bindE (get k s) (\<lambda>(d, s1).
       bindE (stream_session put get ops s1) (\<lambda>(acc, out, s2). Inr (acc, d @ out, s2)))"

locale bounded_stream =
  fixes inv :: "'s \<Rightarrow> bool"
    and contents :: "'s \<Rightarrow> bytes"
    and capacity :: "'s \<Rightarrow> nat"
    and put :: "bytes \<Rightarrow> 's \<Rightarrow> nat \<times> 's"
    and get :: "nat \<Rightarrow> 's \<Rightarrow> exn + bytes \<times> 's"
  assumes bounded: "inv s \<Longrightarrow> length (contents s) \<le> capacity s"
    and put_law: "inv s \<Longrightarrow> put d s = (n, s') \<Longrightarrow>
          inv s' \<and> capacity s' = capacity s \<and>
          n = min (capacity s - length (contents s)) (length d) \<and>
          contents s' = contents s @ take n d"
    and get_law: "inv s \<Longrightarrow> \<exists>s'. get k s = Inr (take k (contents s), s') \<and>
          inv s' \<and> capacity s' = capacity s \<and> contents s' = drop k (contents s)"
begin

lemma put_fits:
  assumes "inv s" and "length d \<le> capacity s - length (contents s)"
  shows "\<exists>s'. put d s = (length d, s') \<and> inv s' \<and> contents s' = contents s @ d"
  using assms put_law [of s d "fst (put d s)" "snd (put d s)"]
  by (cases "put d s") auto

text \<open>Reading drains the stream: a read of \<open>capacity\<close> bytes returns everything.\<close>

lemma get_all:
  assumes "inv s"
  shows "\<exists>s'. get (capacity s) s = Inr (contents s, s') \<and> inv s' \<and> contents s' = []"
  using get_law [OF assms, of "capacity s"] bounded [OF assms] by auto

text \<open>
  What was read, followed by what is still buffered, is what was buffered at first followed by
  the accepted part of every write, in order.
\<close>

lemma session_fifo:
  "inv s \<Longrightarrow> \<exists>acc out s'. stream_session put get ops s = Inr (acc, out, s') \<and> inv s' \<and>
     contents s @ acc = out @ contents s'"
proof (induction ops arbitrary: s)
  case Nil
  then show ?case by simp
next
  case (Cons op ops)
  show ?case
  proof (cases op)
    case (Inl d)
    obtain n s1 where w: "put d s = (n, s1)" by (cases "put d s")
    note l = put_law [OF Cons.prems w]
    obtain acc out s2 where "stream_session put get ops s1 = Inr (acc, out, s2)" "inv s2"
      "contents s1 @ acc = out @ contents s2"
      using Cons.IH l by blast
    then show ?thesis using Inl w l by simp
  next
    case (Inr k)
    obtain s1 where r: "get k s = Inr (take k (contents s), s1)" "inv s1"
      "contents s1 = drop k (contents s)"
      using get_law [OF Cons.prems, of k] by blast
    obtain acc out s2 where "stream_session put get ops s1 = Inr (acc, out, s2)" "inv s2"
      "contents s1 @ acc = out @ contents s2"
      using Cons.IH r by blast
    then show ?thesis using Inr r
      by simp (metis append.assoc append_take_drop_id)
  qed
qed

end

interpretation bs: bounded_stream bs_inv bs_contents bs_capacity bs_write bs_read
proof (unfold_locales, goal_cases)
  case (1 s)
  then show ?case by (simp add: bs_inv_def)
next
  case (2 s d n s')
  then show ?case using bs_write_spec [OF 2] by blast
next
  case (3 s k)
  then show ?case using bs_read_spec [OF 3, of k] by metis
qed

section \<open>Correctness\<close>

text \<open>On a stream that satisfies the invariant no operation throws and every operation keeps
  it; a write accepts exactly what fits and appends it, and a read returns and removes the oldest
  bytes, as many as asked for or as there are.\<close>

theorem byte_stream_operations:
  assumes "bs_inv bs"
  shows "(\<exists>n bs1. bs_write data bs = (n, bs1) \<and> bs_inv bs1 \<and>
            n = min (bs_remaining_capacity bs) (length data) \<and>
            bs_contents bs1 = bs_contents bs @ take n data) \<and>
         (\<exists>bs2. bs_read len bs = Inr (bs_peek_output len bs, bs2) \<and> bs_inv bs2 \<and>
            bs_peek_output len bs @ bs_contents bs2 = bs_contents bs \<and>
            length (bs_peek_output len bs) = min len (bs_buffer_size bs)) \<and>
         bs_inv (bs_do_end_input bs) \<and> bs_inv (bs_set_error bs)"
proof (intro conjI)
  obtain n bs1 where w: "bs_write data bs = (n, bs1)" by (cases "bs_write data bs")
  show "\<exists>n bs1. bs_write data bs = (n, bs1) \<and> bs_inv bs1 \<and>
          n = min (bs_remaining_capacity bs) (length data) \<and>
          bs_contents bs1 = bs_contents bs @ take n data"
    using bs_write_spec(1-3) [OF assms w] by (simp add: w bs_inv_remaining [OF assms])
  obtain bs2 where "bs_read len bs = Inr (take len (bs_contents bs), bs2)" "bs_inv bs2"
    "bs_contents bs2 = drop len (bs_contents bs)"
    using bs_read_spec [OF assms, of len] .
  moreover have "bs_buffer_size bs = length (bs_contents bs)"
    using assms by (simp add: bs_inv_def)
  ultimately show "\<exists>bs2. bs_read len bs = Inr (bs_peek_output len bs, bs2) \<and> bs_inv bs2 \<and>
          bs_peek_output len bs @ bs_contents bs2 = bs_contents bs \<and>
          length (bs_peek_output len bs) = min len (bs_buffer_size bs)"
    by (simp add: bs_peek_output_eq [OF assms] min.commute)
qed (use assms in simp_all)

theorem byte_stream_operations_witness:
  "\<exists>n bs1. bs_write [1, 2, 3] (ByteStream_new 2) = (n, bs1) \<and> bs_inv bs1 \<and>
     bs_contents bs1 = take n [1, 2, 3]"
  using byte_stream_operations [OF bs_inv_new [of 2], of "[1, 2, 3]" 0] by auto

text \<open>C12: a stream of capacity \<open>c\<close> delivers its bytes first in, first out: in any interleaving
  of writes and reads on a new stream none throws, and the bytes read so far, followed by the
  at most \<open>c\<close> bytes still buffered, are exactly the accepted bytes in the order written.\<close>

theorem byte_stream_fifo:
  assumes "c < 2 ^ 64"
  shows "\<exists>acc out bs'. stream_session bs_write bs_read ops (ByteStream_new c) = Inr (acc, out, bs') \<and>
     bs_inv bs' \<and> acc = out @ bs_contents bs' \<and> length (bs_contents bs') \<le> bs_capacity bs'"
  using bs.session_fifo [OF bs_inv_new [OF assms], of ops] bs.bounded by fastforce

theorem byte_stream_fifo_witness:
  "\<exists>acc out bs'. stream_session bs_write bs_read [Inl [1, 2, 3], Inr 1, Inl [4, 5]] (ByteStream_new 3)
       = Inr (acc, out, bs') \<and> bs_inv bs' \<and> acc = out @ bs_contents bs' \<and>
     length (bs_contents bs') \<le> bs_capacity bs'"
  by (rule byte_stream_fifo) simp

end
