(* ===== verification/TCP_Sender.thy ===== *)
theory TCP_Sender
  imports TCP_Segment Byte_Stream
begin

unbundle bit_operations_syntax

text \<open>
  \<^verbatim>\<open>tcp_sender.hh\<close> and \<^verbatim>\<open>tcp_sender.cc\<close>: the sending half of a TCP endpoint. It cuts the outgoing
  byte stream into segments that fit the peer's window, keeps the segments that are not yet
  acknowledged, and retransmits the oldest one when its timer expires.
\<close>

section \<open>Retransmission timer\<close>

record RetransmissionTimer =
  rt_running :: bool
  rt_init_rto :: uint32_t
  rt_ms_since_running :: uint32_t
  rt_rto :: uint32_t
  rt_consecutive_retransmissions :: uint32_t

definition RetransmissionTimer_new :: "uint32_t \<Rightarrow> RetransmissionTimer" where
  "RetransmissionTimer_new retx_timeout =
     \<lparr>rt_running = False, rt_init_rto = retx_timeout, rt_ms_since_running = 0,
      rt_rto = retx_timeout, rt_consecutive_retransmissions = 0\<rparr>"

text \<open>The comparison is done in 64 bits; the accumulated time is stored in 32.\<close>

definition rt_timeout :: "size_t \<Rightarrow> RetransmissionTimer \<Rightarrow> bool \<times> RetransmissionTimer" where
  "rt_timeout ms_since_last_tick t =
     (if unat (rt_rto t) \<le> u64 (unat (rt_ms_since_running t) + ms_since_last_tick) then (True, t)
      else (False, t\<lparr>rt_ms_since_running :=
                       rt_ms_since_running t + of_nat ms_since_last_tick\<rparr>))"

definition rt_reset_timer :: "size_t \<Rightarrow> RetransmissionTimer \<Rightarrow> RetransmissionTimer" where
  "rt_reset_timer window_size t =
     (if \<not> rt_running t then t
      else
        let t1 = t\<lparr>rt_ms_since_running := 0,
                   rt_consecutive_retransmissions := rt_consecutive_retransmissions t + 1\<rparr>
        in if 0 < window_size then t1\<lparr>rt_rto := push_bit 1 (rt_rto t1)\<rparr> else t1)"

definition rt_start :: "RetransmissionTimer \<Rightarrow> RetransmissionTimer" where
  "rt_start t =
     t\<lparr>rt_running := True, rt_ms_since_running := 0, rt_rto := rt_init_rto t,
       rt_consecutive_retransmissions := 0\<rparr>"

definition rt_close :: "RetransmissionTimer \<Rightarrow> RetransmissionTimer" where
  "rt_close t = t\<lparr>rt_running := False, rt_consecutive_retransmissions := 0\<rparr>"

section \<open>Sender\<close>

text \<open>Constants of \<^verbatim>\<open>TCPConfig\<close>.\<close>

definition DEFAULT_CAPACITY :: size_t where
  "DEFAULT_CAPACITY = 64000"

definition MAX_PAYLOAD_SIZE :: size_t where
  "MAX_PAYLOAD_SIZE = 1000"

definition TIMEOUT_DFLT :: uint16_t where
  "TIMEOUT_DFLT = 1000"

definition MAX_RETX_ATTEMPTS :: uint32_t where
  "MAX_RETX_ATTEMPTS = 8"

record TCPSender =
  tx_isn :: WrappingInt32
  tx_segments_out :: "TCPSegment list"
  tx_segments_track :: "TCPSegment list"
  tx_initial_retransmission_timeout :: uint32_t
  tx_timer :: RetransmissionTimer
  tx_stream :: ByteStream
  tx_next_seqno :: uint64_t
  tx_abs_ackno :: uint64_t
  tx_window_size :: uint16_t
  tx_bytes_in_flight :: uint64_t

text \<open>\<open>random\<close> is what \<^verbatim>\<open>std::random_device\<close> returned; it is used when no number is fixed.\<close>

definition TCPSender_new ::
  "size_t \<Rightarrow> uint16_t \<Rightarrow> WrappingInt32 option \<Rightarrow> WrappingInt32 \<Rightarrow> TCPSender" where
  "TCPSender_new capacity retx_timeout fixed_isn random =
     \<lparr>tx_isn = (case fixed_isn of Some i \<Rightarrow> i | None \<Rightarrow> random),
      tx_segments_out = [], tx_segments_track = [],
      tx_initial_retransmission_timeout = ucast retx_timeout,
      tx_timer = RetransmissionTimer_new (ucast retx_timeout),
      tx_stream = ByteStream_new capacity,
      tx_next_seqno = 0, tx_abs_ackno = 0, tx_window_size = 1, tx_bytes_in_flight = 0\<rparr>"

definition tx_wrapped_next_seqno :: "TCPSender \<Rightarrow> WrappingInt32" where
  "tx_wrapped_next_seqno tx = wrap (tx_next_seqno tx) (tx_isn tx)"

definition tx_send_empty_segment :: "TCPSender \<Rightarrow> TCPSender" where
  "tx_send_empty_segment tx =
     (let empty_segment = TCPSegment_new\<lparr>ts_header :=
            (ts_header TCPSegment_new)\<lparr>th_seqno := tx_wrapped_next_seqno tx\<rparr>\<rparr>
      in tx\<lparr>tx_segments_out := tx_segments_out tx @ [empty_segment]\<rparr>)"

definition tx_send_no_empty_segment :: "TCPSegment \<Rightarrow> TCPSender \<Rightarrow> TCPSender" where
  "tx_send_no_empty_segment segment tx =
     (let seg = segment\<lparr>ts_header := (ts_header segment)\<lparr>th_seqno := tx_wrapped_next_seqno tx\<rparr>\<rparr>
      in tx\<lparr>tx_next_seqno := u64 (tx_next_seqno tx + ts_length_in_sequence_space seg),
            tx_bytes_in_flight := u64 (tx_bytes_in_flight tx + ts_length_in_sequence_space seg),
            tx_segments_out := tx_segments_out tx @ [seg],
            tx_segments_track := tx_segments_track tx @ [seg],
            tx_timer := (if \<not> rt_running (tx_timer tx) then rt_start (tx_timer tx)
                         else tx_timer tx)\<rparr>)"

text \<open>
  \<^verbatim>\<open>fill_window\<close>. The local \<^verbatim>\<open>window_size\<close> is computed from the member of the same name, which the
  loop does not change. \<open>tx_window_segment\<close> is the body of the loop up to the segment it makes from
  the data \<open>data\<close> read from the stream, when \<open>remain\<close> sequence numbers are left in the window.
\<close>

definition tx_window :: "TCPSender \<Rightarrow> size_t" where
  "tx_window tx = (if tx_window_size tx = 0 then 1 else unat (tx_window_size tx))"

definition tx_window_segment :: "bytes \<Rightarrow> ByteStream \<Rightarrow> size_t \<Rightarrow> TCPSegment" where
  "tx_window_segment data stream remain =
     (let segment = TCPSegment_new\<lparr>ts_payload := buf_of_string data\<rparr>
      in if bs_eof stream \<and> 0 < sub64 remain (ts_length_in_sequence_space segment)
         then segment\<lparr>ts_header := (ts_header segment)\<lparr>th_fin := True\<rparr>\<rparr> else segment)"

definition fin_segment :: TCPSegment where
  "fin_segment = TCPSegment_new\<lparr>ts_header := (ts_header TCPSegment_new)\<lparr>th_fin := True\<rparr>\<rparr>"

definition syn_segment :: TCPSegment where
  "syn_segment = TCPSegment_new\<lparr>ts_header := (ts_header TCPSegment_new)\<lparr>th_syn := True\<rparr>\<rparr>"

text \<open>Every round that goes on sends at least one sequence number and stays in the window.\<close>

lemma ts_length_seqno [simp]:
  "ts_length_in_sequence_space (seg\<lparr>ts_header := (ts_header seg)\<lparr>th_seqno := s\<rparr>\<rparr>) =
   ts_length_in_sequence_space seg"
  by (simp add: ts_length_in_sequence_space_def)

lemma tx_window_bound: "0 < tx_window tx" "tx_window tx < 65536"
proof -
  have "unat (tx_window_size tx) < 65536" using unsigned_less [of "tx_window_size tx"] by simp
  then show "tx_window tx < 65536" by (simp add: tx_window_def)
  show "0 < tx_window tx" by (simp add: tx_window_def unat_gt_0)
qed

lemma tx_window_segment_length:
  assumes "length data \<le> remain" and "remain < 2 ^ 64"
  shows "ts_length_in_sequence_space (tx_window_segment data stream remain) \<le> remain"
  using assms
  by (auto simp: tx_window_segment_def ts_length_in_sequence_space_def TCPSegment_new_def
      TCPHeader_new_def sub64_id Let_def)

lemma tx_fill_decreases:
  assumes "sub64 (tx_next_seqno tx) (tx_abs_ackno tx) < tx_window tx"
    and "remain = sub64 (tx_window tx) (sub64 (tx_next_seqno tx) (tx_abs_ackno tx))"
    and "ts_length_in_sequence_space seg \<noteq> 0" and "ts_length_in_sequence_space seg \<le> remain"
  shows "sub64 (tx_next_seqno tx) (tx_abs_ackno tx) <
      sub64 (tx_next_seqno (tx_send_no_empty_segment seg (tx\<lparr>tx_stream := s\<rparr>))) (tx_abs_ackno tx)"
    and "sub64 (tx_next_seqno (tx_send_no_empty_segment seg (tx\<lparr>tx_stream := s\<rparr>))) (tx_abs_ackno tx)
      \<le> tx_window tx"
proof -
  let ?f = "sub64 (tx_next_seqno tx) (tx_abs_ackno tx)" and ?l = "ts_length_in_sequence_space seg"
  have "remain = tx_window tx - ?f"
    using assms(1,2) tx_window_bound(2) [of tx] by (simp add: sub64_id)
  then have "?f + ?l \<le> tx_window tx" using assms(1,4) by simp
  moreover from this have "sub64 (u64 (tx_next_seqno tx + ?l)) (tx_abs_ackno tx) = ?f + ?l"
    using tx_window_bound(2) [of tx] by (intro sub64_u64_add) simp
  ultimately show "?f < sub64 (tx_next_seqno (tx_send_no_empty_segment seg (tx\<lparr>tx_stream := s\<rparr>)))
      (tx_abs_ackno tx)"
    "sub64 (tx_next_seqno (tx_send_no_empty_segment seg (tx\<lparr>tx_stream := s\<rparr>))) (tx_abs_ackno tx)
      \<le> tx_window tx"
    using assms(3) by (simp_all add: tx_send_no_empty_segment_def Let_def)
qed

lemma tx_send_simps [simp]:
  "tx_abs_ackno (tx_send_no_empty_segment seg tx) = tx_abs_ackno tx"
  "tx_window (tx_send_no_empty_segment seg tx) = tx_window tx"
  "tx_window_size (tx_send_no_empty_segment seg tx) = tx_window_size tx"
  "tx_stream (tx_send_no_empty_segment seg tx) = tx_stream tx"
  "tx_isn (tx_send_no_empty_segment seg tx) = tx_isn tx"
  "tx_window (tx\<lparr>tx_stream := s\<rparr>) = tx_window tx"
  by (simp_all add: tx_send_no_empty_segment_def tx_window_def Let_def)

function tx_fill_loop :: "TCPSender \<Rightarrow> exn + TCPSender" where
  "tx_fill_loop tx =
     (if sub64 (tx_next_seqno tx) (tx_abs_ackno tx) < tx_window tx then
        let remain = sub64 (tx_window tx) (sub64 (tx_next_seqno tx) (tx_abs_ackno tx))
        in if \<not> bs_eof (tx_stream tx) then
             case bs_read (min remain MAX_PAYLOAD_SIZE) (tx_stream tx) of
               Inl e \<Rightarrow> Inl e
             | Inr (data, stream) \<Rightarrow>
                 let segment = tx_window_segment data stream remain;
                     tx1 = tx\<lparr>tx_stream := stream\<rparr>
                 in if ts_length_in_sequence_space segment = 0 then Inr tx1
                    else tx_fill_loop (tx_send_no_empty_segment segment tx1)
           else if tx_next_seqno tx < u64 (bs_bytes_written (tx_stream tx) + 2)
             then Inr (tx_send_no_empty_segment fin_segment tx)
           else Inr tx
      else Inr tx)"
  by pat_completeness auto
termination
proof (relation "measure (\<lambda>tx. tx_window tx - sub64 (tx_next_seqno tx) (tx_abs_ackno tx))", goal_cases)
  case (2 tx remain p data stream segment tx1)
  have "length data \<le> remain"
    using bs_read_length [of "min remain MAX_PAYLOAD_SIZE" "tx_stream tx" data stream] 2 by simp
  moreover have "remain < 2 ^ 64" using 2(2) by simp
  ultimately have "ts_length_in_sequence_space segment \<le> remain"
    using tx_window_segment_length 2 by simp
  from tx_fill_decreases [OF 2(1,2) 2(8) this, of stream] show ?case
    using 2 by auto
qed simp

declare tx_fill_loop.simps [simp del]

definition tx_fill_window :: "TCPSender \<Rightarrow> exn + TCPSender" where
  "tx_fill_window tx =
     (if tx_next_seqno tx = 0 then tx_fill_loop (tx_send_no_empty_segment syn_segment tx)
      else if tx_next_seqno tx = tx_bytes_in_flight tx then Inr tx
      else tx_fill_loop tx)"

text \<open>The loop of \<^verbatim>\<open>ack_received\<close> over the tracked segments.\<close>

fun tx_ack_loop ::
  "WrappingInt32 \<Rightarrow> uint64_t \<Rightarrow> TCPSegment list \<Rightarrow> uint64_t \<Rightarrow> TCPSegment list \<times> uint64_t" where
  "tx_ack_loop isn abs_ackno [] bytes_in_flight = ([], bytes_in_flight)"
| "tx_ack_loop isn abs_ackno (segment # segs) bytes_in_flight =
     (let max_seg_ackno = u64 (unwrap (th_seqno (ts_header segment)) isn abs_ackno +
                               ts_length_in_sequence_space segment)
      in if abs_ackno < max_seg_ackno then (segment # segs, bytes_in_flight)
         else tx_ack_loop isn abs_ackno segs
                (sub64 bytes_in_flight (ts_length_in_sequence_space segment)))"

definition tx_ack_received :: "WrappingInt32 \<Rightarrow> uint16_t \<Rightarrow> TCPSender \<Rightarrow> exn + TCPSender" where
  "tx_ack_received ackno window_size tx =
     (let abs_ackno = unwrap ackno (tx_isn tx) (tx_abs_ackno tx)
      in if tx_next_seqno tx < abs_ackno then Inr tx
         else
           let tx1 = tx\<lparr>tx_window_size := window_size\<rparr>
           in if abs_ackno \<le> tx_abs_ackno tx1 then Inr tx1
              else
                let (track, in_flight) =
                      tx_ack_loop (tx_isn tx1) abs_ackno (tx_segments_track tx1) (tx_bytes_in_flight tx1);
                    tx2 = tx1\<lparr>tx_abs_ackno := abs_ackno, tx_segments_track := track,
                              tx_bytes_in_flight := in_flight,
                              tx_timer := (if track \<noteq> [] then rt_start (tx_timer tx1)
                                           else rt_close (tx_timer tx1))\<rparr>
                in tx_fill_window tx2)"

definition tx_tick :: "size_t \<Rightarrow> TCPSender \<Rightarrow> TCPSender" where
  "tx_tick ms_since_last_tick tx =
     (if \<not> rt_running (tx_timer tx) then tx
      else
        let (expired, timer) = rt_timeout ms_since_last_tick (tx_timer tx);
            tx1 = tx\<lparr>tx_timer := timer\<rparr>
        in if \<not> expired then tx1
           else case tx_segments_track tx1 of
                  [] \<Rightarrow> tx1\<lparr>tx_timer := rt_close (tx_timer tx1)\<rparr>
                | segment # _ \<Rightarrow>
                    tx1\<lparr>tx_segments_out := tx_segments_out tx1 @ [segment],
                        tx_timer := rt_reset_timer (unat (tx_window_size tx1)) (tx_timer tx1)\<rparr>)"

section \<open>States of a sender of a stream\<close>

text \<open>
  \<open>S\<close> is everything the application has written so far. The stream has handed out a prefix of it and
  holds the rest.
\<close>

definition bs_source :: "bytes \<Rightarrow> ByteStream \<Rightarrow> bool" where
  "bs_source S bs \<longleftrightarrow> bs_inv bs \<and> length S + 2 ^ 33 < 2 ^ 64 \<and>
     bs_bytes_read bs + length (bs_contents bs) = length S \<and>
     bs_contents bs = drop (bs_bytes_read bs) S"

text \<open>
  The tracked segments carry, without gap or overlap, the sequence numbers from \<open>lo\<close> to
  \<open>hi\<close>.
\<close>

fun tracked :: "bytes \<Rightarrow> WrappingInt32 \<Rightarrow> nat \<Rightarrow> TCPSegment list \<Rightarrow> nat \<Rightarrow> bool" where
  "tracked S isn lo [] hi \<longleftrightarrow> lo = hi"
| "tracked S isn lo (seg # segs) hi \<longleftrightarrow>
     carries S isn lo seg \<and> 0 < ts_length_in_sequence_space seg \<and>
     length (buf_str (ts_payload seg)) \<le> MAX_PAYLOAD_SIZE \<and>
     tracked S isn (lo + ts_length_in_sequence_space seg) segs hi"

definition tx_phase :: "bytes \<Rightarrow> TCPSender \<Rightarrow> bool" where
  "tx_phase S tx \<longleftrightarrow>
     (let r = bs_bytes_read (tx_stream tx)
      in tx_next_seqno tx = 0 \<and> r = 0 \<or> tx_next_seqno tx = r + 1 \<or>
         tx_next_seqno tx = r + 2 \<and> bs_end_input (tx_stream tx) \<and> r = length S)"

text \<open>The first sequence number that is tracked.\<close>

definition tx_base :: "TCPSender \<Rightarrow> nat" where
  "tx_base tx = tx_next_seqno tx - tx_bytes_in_flight tx"

lemma tx_base_simps [simp]:
  "tx_base (tx\<lparr>tx_stream := s\<rparr>) = tx_base tx" "tx_base (tx\<lparr>tx_timer := t\<rparr>) = tx_base tx"
  "tx_base (tx\<lparr>tx_segments_out := out\<rparr>) = tx_base tx"
  "tx_base (tx\<lparr>tx_window_size := w\<rparr>) = tx_base tx"
  by (simp_all add: tx_base_def)

text \<open>A segment that the sender has put out, now or before.\<close>

definition emitted :: "bytes \<Rightarrow> TCPSender \<Rightarrow> TCPSegment \<Rightarrow> bool" where
  "emitted S tx seg \<longleftrightarrow>
     (\<exists>n. carries S (tx_isn tx) n seg \<and> n + ts_length_in_sequence_space seg \<le> tx_next_seqno tx) \<and>
     length (buf_str (ts_payload seg)) \<le> MAX_PAYLOAD_SIZE"

lemma emitted_mono:
  "emitted S tx seg \<Longrightarrow> tx_isn tx' = tx_isn tx \<Longrightarrow> tx_next_seqno tx \<le> tx_next_seqno tx' \<Longrightarrow>
   emitted S tx' seg"
  unfolding emitted_def by (metis order.trans)

lemma emitted_simps [simp]:
  "emitted S (tx\<lparr>tx_stream := s\<rparr>) = emitted S tx" "emitted S (tx\<lparr>tx_timer := t\<rparr>) = emitted S tx"
  "emitted S (tx\<lparr>tx_segments_out := out\<rparr>) = emitted S tx"
  "emitted S (tx\<lparr>tx_window_size := w\<rparr>) = emitted S tx"
  by (simp_all add: emitted_def fun_eq_iff)

definition tx_inv :: "bytes \<Rightarrow> TCPSender \<Rightarrow> bool" where
  "tx_inv S tx \<longleftrightarrow>
     bs_source S (tx_stream tx) \<and> tx_phase S tx \<and>
     tx_bytes_in_flight tx \<le> tx_next_seqno tx \<and>
     tracked S (tx_isn tx) (tx_base tx) (tx_segments_track tx) (tx_next_seqno tx) \<and>
     tx_base tx \<le> tx_abs_ackno tx \<and> tx_abs_ackno tx \<le> tx_next_seqno tx \<and>
     (tx_segments_track tx \<noteq> [] \<longrightarrow>
        tx_abs_ackno tx < tx_base tx + ts_length_in_sequence_space (hd (tx_segments_track tx))) \<and>
     tx_next_seqno tx \<le> tx_abs_ackno tx + 65535 \<and>
     (rt_running (tx_timer tx) \<longleftrightarrow> tx_segments_track tx \<noteq> []) \<and>
     (\<forall>seg \<in> set (tx_segments_out tx). emitted S tx seg)"

declare tx_inv_def [inv_defs]

lemma tracked_le: "tracked S isn lo segs hi \<Longrightarrow> lo \<le> hi"
  by (induction S isn lo segs hi rule: tracked.induct) auto

lemma tracked_append:
  "tracked S isn lo (segs @ segs') hi \<longleftrightarrow> (\<exists>m. tracked S isn lo segs m \<and> tracked S isn m segs' hi)"
  by (induction segs arbitrary: lo) auto

lemma tracked_empty_iff: "tracked S isn lo segs hi \<Longrightarrow> segs = [] \<longleftrightarrow> lo = hi"
  by (cases segs) (auto dest: tracked_le)

lemma tracked_mem:
  "tracked S isn lo segs hi \<Longrightarrow> seg \<in> set segs \<Longrightarrow>
   \<exists>n. carries S isn n seg \<and> lo \<le> n \<and> n + ts_length_in_sequence_space seg \<le> hi \<and>
       length (buf_str (ts_payload seg)) \<le> MAX_PAYLOAD_SIZE"
proof (induction S isn lo segs hi rule: tracked.induct)
  case (2 S isn lo s segs hi)
  then have "lo + ts_length_in_sequence_space s \<le> hi" by (auto dest: tracked_le)
  with 2 show ?case by fastforce
qed simp

lemma ts_length_le:
  "ts_length_in_sequence_space seg \<le> length (buf_str (ts_payload seg)) + 2"
  by (simp add: ts_length_in_sequence_space_def)

lemma tx_inv_bounds:
  assumes "tx_inv S tx"
  shows "tx_next_seqno tx \<le> length S + 2" "length S + 2 ^ 33 < 2 ^ 64"
    "bs_bytes_written (tx_stream tx) = length S" "tx_bytes_in_flight tx \<le> 65535 + 1002"
    "tx_segments_track tx = [] \<longleftrightarrow> tx_bytes_in_flight tx = 0"
    "bs_inv (tx_stream tx)" "tx_next_seqno tx < 2 ^ 64" "tx_abs_ackno tx < 2 ^ 64"
proof -
  have src: "bs_source S (tx_stream tx)" and ph: "tx_phase S tx"
    and tr: "tracked S (tx_isn tx) (tx_base tx) (tx_segments_track tx) (tx_next_seqno tx)"
    using assms by (simp_all add: tx_inv_def)
  have r: "bs_bytes_read (tx_stream tx) \<le> length S" using src by (simp add: bs_source_def)
  then show nx: "tx_next_seqno tx \<le> length S + 2" using ph by (auto simp: tx_phase_def Let_def)
  show len: "length S + 2 ^ 33 < 2 ^ 64" using src by (simp add: bs_source_def)
  show "bs_bytes_written (tx_stream tx) = length S" "bs_inv (tx_stream tx)"
    using src by (auto simp: bs_source_def bs_inv_def u64_id)
  show "tx_segments_track tx = [] \<longleftrightarrow> tx_bytes_in_flight tx = 0"
    using tracked_empty_iff [OF tr] assms by (auto simp: tx_inv_def tx_base_def)
  show nlt: "tx_next_seqno tx < 2 ^ 64" using nx len by simp
  then show "tx_abs_ackno tx < 2 ^ 64" using assms by (simp add: tx_inv_def)
  show "tx_bytes_in_flight tx \<le> 65535 + 1002"
  proof (cases "tx_segments_track tx")
    case Nil
    then show ?thesis using tracked_empty_iff [OF tr] assms by (auto simp: tx_inv_def tx_base_def)
  next
    case (Cons seg segs)
    then have "ts_length_in_sequence_space seg \<le> 1002"
      using tr ts_length_le [of seg] by (simp add: MAX_PAYLOAD_SIZE_def)
    with Cons assms show ?thesis by (auto simp: tx_inv_def tx_base_def)
  qed
qed

lemma bs_read_source:
  assumes "bs_source S bs"
  obtains bs' where "bs_read n bs = Inr (take n (bs_contents bs), bs')" and "bs_source S bs'"
    and "bs_bytes_read bs' = bs_bytes_read bs + length (take n (bs_contents bs))"
    and "bs_end_input bs' = bs_end_input bs" and "bs_contents bs' = drop n (bs_contents bs)"
    and "agrees S (bs_bytes_read bs) (take n (bs_contents bs))"
proof -
  have inv: "bs_inv bs" and len: "bs_bytes_read bs + length (bs_contents bs) = length S"
    "length S + 2 ^ 33 < 2 ^ 64" "bs_contents bs = drop (bs_bytes_read bs) S"
    using assms by (simp_all add: bs_source_def)
  obtain bs' where r: "bs_read n bs = Inr (take n (bs_contents bs), bs')" "bs_inv bs'"
    "bs_contents bs' = drop n (bs_contents bs)"
    "bs_bytes_read bs' = u64 (bs_bytes_read bs + min n (length (bs_contents bs)))"
    "bs_end_input bs' = bs_end_input bs"
    using bs_read_spec [OF inv, of n] by metis
  have rd: "bs_bytes_read bs' = bs_bytes_read bs + length (take n (bs_contents bs))"
    using r(4) len by (simp add: u64_id min.commute)
  moreover have "bs_source S bs'"
    using r(2,3) rd len
    by (cases "n \<le> length (bs_contents bs)") (auto simp: bs_source_def add.commute)
  moreover have "agrees S (bs_bytes_read bs) (take n (bs_contents bs))"
    using len by (intro agrees_take) (auto simp: agrees_def)
  ultimately show thesis using r by (intro that)
qed

section \<open>Sending\<close>

text \<open>
  Sending a segment that continues the stream: the SYN as the very first one, or the next bytes
  that were read from the stream, or the FIN after the last byte.
\<close>

definition tx_next_segment :: "bytes \<Rightarrow> TCPSender \<Rightarrow> ByteStream \<Rightarrow> TCPSegment \<Rightarrow> bool" where
  "tx_next_segment S tx stream seg \<longleftrightarrow>
     bs_source S stream \<and> bs_end_input stream = bs_end_input (tx_stream tx) \<and>
     bs_bytes_read stream = bs_bytes_read (tx_stream tx) + length (buf_str (ts_payload seg)) \<and>
     length (buf_str (ts_payload seg)) \<le> MAX_PAYLOAD_SIZE \<and>
     agrees S (bs_bytes_read (tx_stream tx)) (buf_str (ts_payload seg)) \<and>
     (th_syn (ts_header seg) \<longrightarrow> tx_next_seqno tx = 0 \<and> buf_str (ts_payload seg) = [] \<and>
        \<not> th_fin (ts_header seg)) \<and>
     (\<not> th_syn (ts_header seg) \<longrightarrow> tx_next_seqno tx = bs_bytes_read (tx_stream tx) + 1) \<and>
     (th_fin (ts_header seg) \<longrightarrow> bs_end_input stream \<and> bs_bytes_read stream = length S) \<and>
     0 < ts_length_in_sequence_space seg \<and>
     tx_next_seqno tx + ts_length_in_sequence_space seg \<le> tx_abs_ackno tx + 65535"

definition stamp :: "WrappingInt32 \<Rightarrow> TCPSegment \<Rightarrow> TCPSegment" where
  "stamp n seg = seg\<lparr>ts_header := (ts_header seg)\<lparr>th_seqno := n\<rparr>\<rparr>"

lemma stamp_simps [simp]:
  "ts_payload (stamp n seg) = ts_payload seg"
  "ts_length_in_sequence_space (stamp n seg) = ts_length_in_sequence_space seg"
  "th_fin (ts_header (stamp n seg)) = th_fin (ts_header seg)"
  "th_syn (ts_header (stamp n seg)) = th_syn (ts_header seg)"
  "th_seqno (ts_header (stamp n seg)) = n"
  by (simp_all add: stamp_def ts_length_in_sequence_space_def)

lemma tx_send_eq:
  "tx_send_no_empty_segment seg tx =
     tx\<lparr>tx_next_seqno := u64 (tx_next_seqno tx + ts_length_in_sequence_space seg),
        tx_bytes_in_flight := u64 (tx_bytes_in_flight tx + ts_length_in_sequence_space seg),
        tx_segments_out := tx_segments_out tx @ [stamp (tx_wrapped_next_seqno tx) seg],
        tx_segments_track := tx_segments_track tx @ [stamp (tx_wrapped_next_seqno tx) seg],
        tx_timer := (if \<not> rt_running (tx_timer tx) then rt_start (tx_timer tx) else tx_timer tx)\<rparr>"
  by (simp add: tx_send_no_empty_segment_def stamp_def Let_def)

lemma tx_next_segment_carries:
  assumes "tx_phase S tx" and "tx_next_segment S tx stream seg"
  shows "carries S (tx_isn tx) (tx_next_seqno tx) (stamp (tx_wrapped_next_seqno tx) seg)"
  using assms
  by (auto simp: carries_def tx_next_segment_def tx_wrapped_next_seqno_def tx_phase_def Let_def)

lemma tx_send_inv:
  assumes inv: "tx_inv S tx" and nxt: "tx_next_segment S tx stream seg"
  defines "tx' \<equiv> tx_send_no_empty_segment seg (tx\<lparr>tx_stream := stream\<rparr>)"
  shows "tx_inv S tx'" and "tx_next_seqno tx' = tx_next_seqno tx + ts_length_in_sequence_space seg"
    and "tx_bytes_in_flight tx' = tx_bytes_in_flight tx + ts_length_in_sequence_space seg"
proof -
  note b = tx_inv_bounds [OF inv]
  let ?l = "ts_length_in_sequence_space seg" and ?g = "stamp (tx_wrapped_next_seqno tx) seg"
  have l: "?l \<le> 1002" "0 < ?l"
    using nxt ts_length_le [of seg] by (auto simp: tx_next_segment_def MAX_PAYLOAD_SIZE_def)
  show nx: "tx_next_seqno tx' = tx_next_seqno tx + ?l"
    using b(1,2) l by (simp add: tx'_def tx_send_eq u64_id)
  show fl: "tx_bytes_in_flight tx' = tx_bytes_in_flight tx + ?l"
    using b(4) l by (simp add: tx'_def tx_send_eq u64_id)
  have c: "carries S (tx_isn tx) (tx_next_seqno tx) ?g"
    using inv nxt by (intro tx_next_segment_carries) (simp_all add: tx_inv_def)
  have base: "tx_base tx' = tx_base tx" using nx fl inv by (simp add: tx_inv_def tx_base_def)
  have fields: "tx_stream tx' = stream" "tx_isn tx' = tx_isn tx" "tx_abs_ackno tx' = tx_abs_ackno tx"
    "tx_segments_track tx' = tx_segments_track tx @ [?g]"
    "tx_segments_out tx' = tx_segments_out tx @ [?g]" "rt_running (tx_timer tx')"
    by (simp_all add: tx'_def tx_send_eq tx_wrapped_next_seqno_def rt_start_def)
  have "tracked S (tx_isn tx) (tx_base tx) (tx_segments_track tx @ [?g]) (tx_next_seqno tx + ?l)"
    using inv c l nxt by (auto simp: tracked_append tx_inv_def tx_next_segment_def)
  moreover have "tx_phase S tx'"
  proof (cases "th_syn (ts_header seg)")
    case True
    then show ?thesis
      using nxt nx inv unfolding tx_phase_def fields
      by (auto simp: tx_next_segment_def ts_length_in_sequence_space_def tx_inv_def tx_phase_def)
  next
    case False
    then show ?thesis
      using nxt nx unfolding tx_phase_def fields
      by (cases "th_fin (ts_header seg)") (auto simp: tx_next_segment_def ts_length_in_sequence_space_def)
  qed
  moreover have "tx_abs_ackno tx < tx_base tx + ts_length_in_sequence_space (hd (tx_segments_track tx @ [?g]))"
    using inv l b(5) by (cases "tx_segments_track tx") (auto simp: tx_inv_def tx_base_def)
  moreover have "\<forall>s \<in> set (tx_segments_out tx @ [?g]). emitted S tx' s"
  proof -
    have "emitted S tx' ?g"
      using c nxt nx unfolding emitted_def fields by (auto simp: tx_next_segment_def)
    moreover have "emitted S tx' s" if "s \<in> set (tx_segments_out tx)" for s
      using that inv by (intro emitted_mono [OF _ fields(2)]) (simp_all add: tx_inv_def nx)
    ultimately show ?thesis by simp
  qed
  moreover have "bs_source S stream" "tx_next_seqno tx + ?l \<le> tx_abs_ackno tx + 65535"
    using nxt by (simp_all add: tx_next_segment_def)
  moreover have "tx_base tx \<le> tx_abs_ackno tx" "tx_abs_ackno tx \<le> tx_next_seqno tx"
    "tx_bytes_in_flight tx \<le> tx_next_seqno tx"
    using inv by (simp_all add: tx_inv_def)
  ultimately show "tx_inv S tx'"
    using fields(6) unfolding tx_inv_def fields(1-5) base nx fl by simp
qed

section \<open>Filling the window\<close>

definition seg_bytes :: "TCPSegment list \<Rightarrow> bytes" where
  "seg_bytes segs = concat (map (\<lambda>seg. buf_str (ts_payload seg)) segs)"

text \<open>
  \<open>tx'\<close> is \<open>tx\<close> after the segments \<open>news\<close> were sent, which carry the next bytes of the stream and
  stay inside the window.
\<close>

definition tx_sent :: "bytes \<Rightarrow> TCPSender \<Rightarrow> TCPSender \<Rightarrow> TCPSegment list \<Rightarrow> bool" where
  "tx_sent S tx tx' news \<longleftrightarrow>
     tx_inv S tx' \<and> tx_isn tx' = tx_isn tx \<and> tx_abs_ackno tx' = tx_abs_ackno tx \<and>
     tx_window_size tx' = tx_window_size tx \<and>
     bs_end_input (tx_stream tx') = bs_end_input (tx_stream tx) \<and>
     tx_segments_out tx' = tx_segments_out tx @ news \<and>
     tx_segments_track tx' = tx_segments_track tx @ news \<and>
     tx_next_seqno tx' = tx_next_seqno tx + sum_list (map ts_length_in_sequence_space news) \<and>
     bs_contents (tx_stream tx) = seg_bytes news @ bs_contents (tx_stream tx') \<and>
     (news \<noteq> [] \<longrightarrow> tx_next_seqno tx' \<le> tx_abs_ackno tx + tx_window tx)"

lemma tx_sent_refl: "tx_inv S tx \<Longrightarrow> tx_sent S tx tx []"
  by (simp add: tx_sent_def seg_bytes_def)

lemma tx_sent_trans:
  "tx_sent S tx tx1 news1 \<Longrightarrow> tx_sent S tx1 tx2 news2 \<Longrightarrow> tx_sent S tx tx2 (news1 @ news2)"
  by (auto simp: tx_sent_def seg_bytes_def tx_window_def)

lemma tx_sent_inv: "tx_sent S tx tx' news \<Longrightarrow> tx_inv S tx'"
  by (simp add: tx_sent_def)

lemma tx_send_sent:
  assumes "tx_inv S tx" and "tx_next_segment S tx stream seg"
    and "bs_contents (tx_stream tx) = buf_str (ts_payload seg) @ bs_contents stream"
    and "tx_next_seqno tx + ts_length_in_sequence_space seg \<le> tx_abs_ackno tx + tx_window tx"
  shows "tx_sent S tx (tx_send_no_empty_segment seg (tx\<lparr>tx_stream := stream\<rparr>))
    [stamp (tx_wrapped_next_seqno tx) seg]"
proof -
  have "bs_end_input stream = bs_end_input (tx_stream tx)"
    using assms(2) by (simp add: tx_next_segment_def)
  with tx_send_inv [OF assms(1,2)] assms(3,4) show ?thesis
    by (simp add: tx_sent_def seg_bytes_def) (simp add: tx_send_eq tx_wrapped_next_seqno_def)
qed

lemma sub64_in_flight: "tx_inv S tx \<Longrightarrow>
  sub64 (tx_next_seqno tx) (tx_abs_ackno tx) = tx_next_seqno tx - tx_abs_ackno tx"
  using tx_inv_bounds(7) [of S tx] by (auto simp: tx_inv_def sub64_id)

text \<open>What the loop has done when it stops: the window is full, or there is nothing left to send.\<close>

definition tx_filled :: "bytes \<Rightarrow> TCPSender \<Rightarrow> bool" where
  "tx_filled S tx \<longleftrightarrow>
     tx_abs_ackno tx + tx_window tx \<le> tx_next_seqno tx \<or>
     bs_contents (tx_stream tx) = [] \<and>
     (bs_end_input (tx_stream tx) \<longrightarrow> tx_next_seqno tx = length S + 2)"

lemma tx_window_segment_simps:
  assumes "length d \<le> remain" and "remain < 2 ^ 64"
  shows "buf_str (ts_payload (tx_window_segment d stream remain)) = d"
    "\<not> th_syn (ts_header (tx_window_segment d stream remain))"
    "th_fin (ts_header (tx_window_segment d stream remain)) \<longleftrightarrow> bs_eof stream \<and> length d < remain"
proof -
  have "ts_length_in_sequence_space (TCPSegment_new\<lparr>ts_payload := buf_of_string d\<rparr>) = length d"
    by (simp add: ts_length_in_sequence_space_def TCPSegment_new_def TCPHeader_new_def)
  then have "tx_window_segment d stream remain =
      (if bs_eof stream \<and> length d < remain
       then TCPSegment_new\<lparr>ts_payload := buf_of_string d, ts_header := TCPHeader_new\<lparr>th_fin := True\<rparr>\<rparr>
       else TCPSegment_new\<lparr>ts_payload := buf_of_string d\<rparr>)"
    using assms by (simp add: tx_window_segment_def Let_def sub64_id) (simp add: TCPSegment_new_def)
  then show "buf_str (ts_payload (tx_window_segment d stream remain)) = d"
    "\<not> th_syn (ts_header (tx_window_segment d stream remain))"
    "th_fin (ts_header (tx_window_segment d stream remain)) \<longleftrightarrow> bs_eof stream \<and> length d < remain"
    by (simp_all add: TCPSegment_new_def TCPHeader_new_def)
qed

lemma tx_inv_stream:
  assumes "tx_inv S tx" and "bs_source S s" and "bs_bytes_read s = bs_bytes_read (tx_stream tx)"
    and "bs_end_input s = bs_end_input (tx_stream tx)"
  shows "tx_inv S (tx\<lparr>tx_stream := s\<rparr>)"
proof -
  have "tx_phase S (tx\<lparr>tx_stream := s\<rparr>) = tx_phase S tx" using assms(3,4) by (simp add: tx_phase_def)
  then show ?thesis using assms(1,2) by (simp add: tx_inv_def)
qed

lemma tx_fill_loop_data:
  assumes inv: "tx_inv S tx" and syn: "0 < tx_next_seqno tx"
    and room: "tx_next_seqno tx - tx_abs_ackno tx < tx_window tx" and data: "\<not> bs_eof (tx_stream tx)"
  defines "remain \<equiv> tx_window tx - (tx_next_seqno tx - tx_abs_ackno tx)"
  obtains d stream where
    "bs_read (min remain MAX_PAYLOAD_SIZE) (tx_stream tx) = Inr (d, stream)"
    and "ts_length_in_sequence_space (tx_window_segment d stream remain) = 0 \<longrightarrow>
           tx_sent S tx (tx\<lparr>tx_stream := stream\<rparr>) [] \<and> tx_filled S (tx\<lparr>tx_stream := stream\<rparr>)"
    and "ts_length_in_sequence_space (tx_window_segment d stream remain) \<noteq> 0 \<longrightarrow>
           tx_sent S tx (tx_send_no_empty_segment (tx_window_segment d stream remain) (tx\<lparr>tx_stream := stream\<rparr>))
             [stamp (tx_wrapped_next_seqno tx) (tx_window_segment d stream remain)]"
proof -
  note b = tx_inv_bounds [OF inv]
  have src: "bs_source S (tx_stream tx)" and ph: "tx_phase S tx" using inv by (simp_all add: tx_inv_def)
  let ?c = "bs_contents (tx_stream tx)" and ?k = "min remain MAX_PAYLOAD_SIZE"
  obtain stream where r: "bs_read ?k (tx_stream tx) = Inr (take ?k ?c, stream)" "bs_source S stream"
    "bs_bytes_read stream = bs_bytes_read (tx_stream tx) + length (take ?k ?c)"
    "bs_end_input stream = bs_end_input (tx_stream tx)" "bs_contents stream = drop ?k ?c"
    "agrees S (bs_bytes_read (tx_stream tx)) (take ?k ?c)"
    using bs_read_source [OF src] by metis
  let ?d = "take ?k ?c" and ?seg = "tx_window_segment (take ?k ?c) stream remain"
  have inv': "bs_inv stream" using r(2) by (simp add: bs_source_def)
  have rm: "0 < remain" "remain < 65536"
    using room tx_window_bound(2) [of tx] unfolding remain_def by linarith+
  then have lim: "length ?d \<le> remain" "remain < 2 ^ 64" by simp_all
  have seg: "buf_str (ts_payload ?seg) = ?d" "\<not> th_syn (ts_header ?seg)"
    "th_fin (ts_header ?seg) \<longleftrightarrow> bs_eof stream \<and> length ?d < remain"
    "ts_length_in_sequence_space ?seg \<le> remain"
    using tx_window_segment_simps [OF lim] tx_window_segment_length [OF lim] by blast+
  have nx: "tx_next_seqno tx = bs_bytes_read (tx_stream tx) + 1"
  proof -
    have "\<not> (bs_end_input (tx_stream tx) \<and> bs_bytes_read (tx_stream tx) = length S)"
      using data bs_eof_iff [OF b(6)] src by (auto simp: bs_source_def)
    then show ?thesis using ph syn unfolding tx_phase_def Let_def by linarith
  qed
  have ack: "tx_abs_ackno tx \<le> tx_next_seqno tx" using inv by (simp add: tx_inv_def)
  show thesis
  proof (rule that [OF r(1)]; intro impI)
    assume "ts_length_in_sequence_space ?seg = 0"
    then have d: "?d = []"
      unfolding ts_length_in_sequence_space_def seg(1) by (simp only: add_is_0 length_0_conv)
    then have c: "?c = []" using rm(1) by (auto simp: MAX_PAYLOAD_SIZE_def min_def split: if_splits)
    then have ne: "\<not> bs_end_input (tx_stream tx)" using data bs_eof_iff [OF b(6)] by simp
    have "tx_inv S (tx\<lparr>tx_stream := stream\<rparr>)"
      using r(3) d by (intro tx_inv_stream [OF inv r(2) _ r(4)]) simp
    then show "tx_sent S tx (tx\<lparr>tx_stream := stream\<rparr>) [] \<and> tx_filled S (tx\<lparr>tx_stream := stream\<rparr>)"
      using r(4,5) c ne by (simp add: tx_sent_def tx_filled_def seg_bytes_def)
  next
    assume ne: "ts_length_in_sequence_space ?seg \<noteq> 0"
    have fin: "bs_end_input stream \<and> bs_bytes_read stream = length S" if "th_fin (ts_header ?seg)"
      using that seg(3) bs_eof_iff [OF inv'] r(2) by (auto simp: bs_source_def)
    have "tx_next_seqno tx + l \<le> tx_abs_ackno tx + tx_window tx \<and> tx_next_seqno tx + l \<le> tx_abs_ackno tx + 65535"
      if "l \<le> remain" for l
      using that room ack tx_window_bound(2) [of tx] unfolding remain_def by linarith
    from this [OF seg(4)]
    have win: "tx_next_seqno tx + ts_length_in_sequence_space ?seg \<le> tx_abs_ackno tx + tx_window tx"
      and "tx_next_seqno tx + ts_length_in_sequence_space ?seg \<le> tx_abs_ackno tx + 65535"
      by blast+
    from this(2) have "tx_next_segment S tx stream ?seg"
      unfolding tx_next_segment_def seg(1)
      using r(2,3,4,6) seg(2) nx ne fin by simp
    with win show "tx_sent S tx (tx_send_no_empty_segment ?seg (tx\<lparr>tx_stream := stream\<rparr>))
        [stamp (tx_wrapped_next_seqno tx) ?seg]"
      using tx_send_sent [OF inv] seg(1) r(5) by simp
  qed
qed

lemma bytes_written_2:
  "tx_inv S tx \<Longrightarrow> u64 (bs_bytes_written (tx_stream tx) + 2) = length S + 2"
  using tx_inv_bounds(2,3) [of S tx] by (simp add: u64_id)

lemma fin_segment_simps [simp]:
  "buf_str (ts_payload fin_segment) = []" "ts_length_in_sequence_space fin_segment = 1"
  "th_fin (ts_header fin_segment)" "\<not> th_syn (ts_header fin_segment)"
  by (simp_all add: fin_segment_def TCPSegment_new_def TCPHeader_new_def ts_length_in_sequence_space_def)

lemma syn_segment_simps [simp]:
  "buf_str (ts_payload syn_segment) = []" "ts_length_in_sequence_space syn_segment = 1"
  "\<not> th_fin (ts_header syn_segment)" "th_syn (ts_header syn_segment)"
  by (simp_all add: syn_segment_def TCPSegment_new_def TCPHeader_new_def ts_length_in_sequence_space_def)

lemma tx_fill_loop_fin:
  assumes inv: "tx_inv S tx" and syn: "0 < tx_next_seqno tx"
    and room: "tx_next_seqno tx - tx_abs_ackno tx < tx_window tx" and eof: "bs_eof (tx_stream tx)"
  shows "if tx_next_seqno tx < length S + 2
    then tx_sent S tx (tx_send_no_empty_segment fin_segment tx) [stamp (tx_wrapped_next_seqno tx) fin_segment] \<and>
      tx_filled S (tx_send_no_empty_segment fin_segment tx)
    else tx_filled S tx"
proof -
  note b = tx_inv_bounds [OF inv]
  have src: "bs_source S (tx_stream tx)" and ph: "tx_phase S tx" and ack: "tx_abs_ackno tx \<le> tx_next_seqno tx"
    using inv by (simp_all add: tx_inv_def)
  have e: "bs_end_input (tx_stream tx)" "bs_contents (tx_stream tx) = []"
    using eof bs_eof_iff [OF b(6)] by simp_all
  show ?thesis
  proof (cases "tx_next_seqno tx < length S + 2")
    case True
    then have "tx_next_segment S tx (tx_stream tx) fin_segment"
      using src ph syn e room ack tx_window_bound(2) [of tx]
      by (auto simp: tx_next_segment_def bs_source_def tx_phase_def Let_def agrees_def)
    from tx_send_sent [OF inv this] tx_send_inv(2) [OF inv this] show ?thesis
      using True e room ack ph syn src
      by (auto simp: tx_filled_def tx_phase_def bs_source_def Let_def)
  next
    case False
    then show ?thesis using e b(1) by (simp add: tx_filled_def)
  qed
qed

lemma tx_fill_loop_spec:
  "tx_inv S tx \<Longrightarrow> 0 < tx_next_seqno tx \<Longrightarrow>
   \<exists>tx' news. tx_fill_loop tx = Inr tx' \<and> tx_sent S tx tx' news \<and> tx_filled S tx'"
proof (induction tx rule: tx_fill_loop.induct)
  case (1 tx)
  let ?remain = "tx_window tx - (tx_next_seqno tx - tx_abs_ackno tx)"
  note inv = "1.prems"(1) and syn = "1.prems"(2)
  note fl = sub64_in_flight [OF inv] and b2 = bytes_written_2 [OF inv]
  show ?case
  proof (cases "tx_next_seqno tx - tx_abs_ackno tx < tx_window tx")
    case False
    then have "tx_abs_ackno tx + tx_window tx \<le> tx_next_seqno tx"
      using tx_window_bound(1) [of tx] by linarith
    then show ?thesis
      using False tx_sent_refl [OF inv] by (auto simp: tx_fill_loop.simps [of tx] fl tx_filled_def)
  next
    case room: True
    then have rm: "sub64 (tx_window tx) (tx_next_seqno tx - tx_abs_ackno tx) = ?remain"
      using tx_window_bound(2) [of tx] by (simp add: sub64_id)
    show ?thesis
    proof (cases "bs_eof (tx_stream tx)")
      case True
      then have "tx_fill_loop tx = (if tx_next_seqno tx < length S + 2
          then Inr (tx_send_no_empty_segment fin_segment tx) else Inr tx)"
        using room by (simp only: tx_fill_loop.simps [of tx] fl b2 Let_def if_True not_True_eq_False if_False)
      then show ?thesis
        using tx_fill_loop_fin [OF inv syn room True] tx_sent_refl [OF inv] by (auto split: if_splits)
    next
      case data: False
      obtain d stream where d: "bs_read (min ?remain MAX_PAYLOAD_SIZE) (tx_stream tx) = Inr (d, stream)"
        and stop: "ts_length_in_sequence_space (tx_window_segment d stream ?remain) = 0 \<longrightarrow>
           tx_sent S tx (tx\<lparr>tx_stream := stream\<rparr>) [] \<and> tx_filled S (tx\<lparr>tx_stream := stream\<rparr>)"
        and send: "ts_length_in_sequence_space (tx_window_segment d stream ?remain) \<noteq> 0 \<longrightarrow>
           tx_sent S tx (tx_send_no_empty_segment (tx_window_segment d stream ?remain) (tx\<lparr>tx_stream := stream\<rparr>))
             [stamp (tx_wrapped_next_seqno tx) (tx_window_segment d stream ?remain)]"
        by (rule tx_fill_loop_data [OF inv syn room data])
      let ?seg = "tx_window_segment d stream ?remain"
      let ?tx1 = "tx_send_no_empty_segment ?seg (tx\<lparr>tx_stream := stream\<rparr>)"
      show ?thesis
      proof (cases "ts_length_in_sequence_space ?seg = 0")
        case True
        then have "tx_fill_loop tx = Inr (tx\<lparr>tx_stream := stream\<rparr>)"
          using room data d by (simp add: tx_fill_loop.simps [of tx] fl rm Let_def)
        then show ?thesis using stop True by blast
      next
        case False
        then have eq: "tx_fill_loop tx = tx_fill_loop ?tx1"
          using room data d by (simp add: tx_fill_loop.simps [of tx] fl rm Let_def)
        have "tx_inv S ?tx1" "0 < tx_next_seqno ?tx1"
          using send False syn by (simp_all add: tx_sent_def)
        moreover have "\<exists>tx' news. tx_fill_loop ?tx1 = Inr tx' \<and> tx_sent S ?tx1 tx' news \<and> tx_filled S tx'"
          if "tx_inv S ?tx1" "0 < tx_next_seqno ?tx1"
          using "1.IH" [of ?remain "(d, stream)" d stream ?seg "tx\<lparr>tx_stream := stream\<rparr>"] room data d False that
          by (simp add: fl rm)
        ultimately show ?thesis using tx_sent_trans [OF send [rule_format, OF False]] eq by metis
      qed
    qed
  qed
qed

lemma tx_fill_window_spec:
  assumes inv: "tx_inv S tx"
  shows "\<exists>tx' news. tx_fill_window tx = Inr tx' \<and> tx_sent S tx tx' news \<and> 0 < tx_next_seqno tx' \<and>
    (tx_next_seqno tx = tx_bytes_in_flight tx \<and> 0 < tx_next_seqno tx \<and> tx' = tx \<or> tx_filled S tx')"
proof (cases "tx_next_seqno tx = 0")
  case True
  let ?tx1 = "tx_send_no_empty_segment syn_segment tx"
  have ack: "tx_abs_ackno tx = 0" "bs_bytes_read (tx_stream tx) = 0"
    using inv True by (auto simp: tx_inv_def tx_phase_def Let_def)
  have "tx_next_segment S tx (tx_stream tx) syn_segment"
    using True ack inv by (auto simp: tx_next_segment_def tx_inv_def agrees_def)
  then have s1: "tx_sent S tx ?tx1 [stamp (tx_wrapped_next_seqno tx) syn_segment]"
    using tx_send_sent [OF inv, of "tx_stream tx" syn_segment] True ack tx_window_bound(1) [of tx]
    by simp
  then obtain tx' news where "tx_fill_loop ?tx1 = Inr tx'" "tx_sent S ?tx1 tx' news" "tx_filled S tx'"
    using tx_fill_loop_spec [of S ?tx1] by (auto simp: tx_sent_def)
  moreover from this s1 have "0 < tx_next_seqno tx'" by (simp add: tx_sent_def)
  ultimately show ?thesis
    using tx_sent_trans [OF s1] True unfolding tx_fill_window_def by auto
next
  case False
  then have "\<exists>tx' news. tx_fill_loop tx = Inr tx' \<and> tx_sent S tx tx' news \<and> 0 < tx_next_seqno tx' \<and>
      tx_filled S tx'"
    using tx_fill_loop_spec [OF inv] by (auto simp: tx_sent_def)
  with False show ?thesis
    using tx_sent_refl [OF inv] by (cases "tx_next_seqno tx = tx_bytes_in_flight tx") (auto simp: tx_fill_window_def)
qed

section \<open>Acknowledgments, time and empty segments\<close>

lemma tx_ack_loop_spec:
  assumes "tracked S isn lo segs hi" and "lo \<le> a" and "a \<le> hi" and "hi \<le> lo + 2 ^ 30"
    and "hi + 2 ^ 32 < 2 ^ 64"
  obtains lo' segs' where "tx_ack_loop isn a segs (hi - lo) = (segs', hi - lo')"
    and "tracked S isn lo' segs' hi" and "lo \<le> lo'" and "lo' \<le> a"
    and "segs' \<noteq> [] \<longrightarrow> a < lo' + ts_length_in_sequence_space (hd segs')"
    and "\<exists>acked. segs = acked @ segs' \<and> tracked S isn lo acked lo'"
  using assms
proof (induction segs arbitrary: lo thesis)
  case Nil
  then show ?case by (intro Nil(1) [of "[]" lo]) auto
next
  case (Cons seg segs)
  let ?l = "ts_length_in_sequence_space seg"
  have t: "carries S isn lo seg" "0 < ?l" "tracked S isn (lo + ?l) segs hi"
    using Cons.prems(2) by auto
  have le: "lo + ?l \<le> hi" using tracked_le [OF t(3)] .
  have sq: "th_seqno (ts_header seg) = wrap lo isn" using t(1) by (simp add: carries_def)
  have "unwrap (wrap lo isn) isn a = lo"
    using Cons.prems(3-6) by (intro unwrap_near) auto
  then have mx: "u64 (unwrap (th_seqno (ts_header seg)) isn a + ?l) = lo + ?l"
    using le Cons.prems(6) sq by (simp add: u64_id)
  show ?case
  proof (cases "a < lo + ?l")
    case True
    show ?thesis
    proof (rule Cons.prems(1) [of "seg # segs" lo])
      show "tx_ack_loop isn a (seg # segs) (hi - lo) = (seg # segs, hi - lo)"
        using True by (simp add: mx)
      show "\<exists>acked. seg # segs = acked @ seg # segs \<and> tracked S isn lo acked lo"
        by (intro exI [of _ "[]"]) simp
    qed (use Cons.prems True in auto)
  next
    case False
    have sub: "sub64 (hi - lo) ?l = hi - (lo + ?l)"
      using le Cons.prems(6) by (simp add: sub64_id)
    obtain lo' segs' where r: "tx_ack_loop isn a segs (hi - (lo + ?l)) = (segs', hi - lo')"
      "tracked S isn lo' segs' hi" "lo + ?l \<le> lo'" "lo' \<le> a"
      "segs' \<noteq> [] \<longrightarrow> a < lo' + ts_length_in_sequence_space (hd segs')"
      "\<exists>acked. segs = acked @ segs' \<and> tracked S isn (lo + ?l) acked lo'"
      using Cons.IH [of "lo + ?l"] t(3) False Cons.prems(4-6) by auto
    from r(6) obtain acked where "segs = acked @ segs'" "tracked S isn (lo + ?l) acked lo'" by blast
    then have "\<exists>acked. seg # segs = acked @ segs' \<and> tracked S isn lo acked lo'"
      using Cons.prems(2) by (intro exI [of _ "seg # acked"]) simp
    then show ?thesis
      using r False by (intro Cons.prems(1) [of segs' lo']) (auto simp: mx sub)
  qed
qed

text \<open>What an acknowledgment does before the window is filled again.\<close>

definition tx_acked :: "bytes \<Rightarrow> nat \<Rightarrow> uint16_t \<Rightarrow> TCPSender \<Rightarrow> TCPSender \<Rightarrow> bool" where
  "tx_acked S a w tx tx2 \<longleftrightarrow>
     tx_inv S tx2 \<and> tx_abs_ackno tx2 = a \<and> tx_window_size tx2 = w \<and> tx_isn tx2 = tx_isn tx \<and>
     tx_stream tx2 = tx_stream tx \<and> tx_next_seqno tx2 = tx_next_seqno tx \<and>
     tx_segments_out tx2 = tx_segments_out tx \<and>
     (\<exists>acked. tx_segments_track tx = acked @ tx_segments_track tx2 \<and>
        tracked S (tx_isn tx) (tx_base tx) acked (tx_base tx2)) \<and>
     rt_consecutive_retransmissions (tx_timer tx2) = 0 \<and>
     (tx_segments_track tx2 \<noteq> [] \<longrightarrow>
        rt_rto (tx_timer tx2) = rt_init_rto (tx_timer tx) \<and> rt_ms_since_running (tx_timer tx2) = 0)"

lemma tx_ack_received_spec:
  fixes ackno :: WrappingInt32
  assumes inv: "tx_inv S tx"
  defines "a \<equiv> unwrap ackno (tx_isn tx) (tx_abs_ackno tx)"
  shows "tx_next_seqno tx < a \<Longrightarrow> tx_ack_received ackno w tx = Inr tx"
    and "a \<le> tx_abs_ackno tx \<Longrightarrow> tx_ack_received ackno w tx = Inr (tx\<lparr>tx_window_size := w\<rparr>) \<and>
           tx_inv S (tx\<lparr>tx_window_size := w\<rparr>)"
    and "tx_abs_ackno tx < a \<Longrightarrow> a \<le> tx_next_seqno tx \<Longrightarrow>
           \<exists>tx2. tx_acked S a w tx tx2 \<and> tx_ack_received ackno w tx = tx_fill_window tx2"
proof -
  note b = tx_inv_bounds [OF inv]
  have tr: "tracked S (tx_isn tx) (tx_base tx) (tx_segments_track tx) (tx_next_seqno tx)"
    and ord: "tx_base tx \<le> tx_abs_ackno tx" "tx_abs_ackno tx \<le> tx_next_seqno tx"
      "tx_bytes_in_flight tx \<le> tx_next_seqno tx"
    using inv by (simp_all add: tx_inv_def)
  show "tx_ack_received ackno w tx = Inr tx" if "tx_next_seqno tx < a"
    using that by (simp add: tx_ack_received_def a_def)
  show "tx_ack_received ackno w tx = Inr (tx\<lparr>tx_window_size := w\<rparr>) \<and> tx_inv S (tx\<lparr>tx_window_size := w\<rparr>)"
    if "a \<le> tx_abs_ackno tx"
  proof -
    have "tx_phase S (tx\<lparr>tx_window_size := w\<rparr>) = tx_phase S tx" by (simp add: tx_phase_def)
    then have "tx_inv S (tx\<lparr>tx_window_size := w\<rparr>)" using inv by (simp add: tx_inv_def)
    then show ?thesis using that ord by (simp add: tx_ack_received_def a_def Let_def)
  qed
  show "\<exists>tx2. tx_acked S a w tx tx2 \<and> tx_ack_received ackno w tx = tx_fill_window tx2"
    if lt: "tx_abs_ackno tx < a" and le: "a \<le> tx_next_seqno tx"
  proof -
    have fl: "tx_bytes_in_flight tx = tx_next_seqno tx - tx_base tx"
      using ord(3) by (simp add: tx_base_def)
    have bnd: "tx_next_seqno tx \<le> tx_base tx + 2 ^ 30" "tx_next_seqno tx + 2 ^ 32 < 2 ^ 64"
      using b(1,2,4) fl ord by simp_all
    have "tx_base tx \<le> a" using ord(1) lt by simp
    then obtain lo' track where r: "tx_ack_loop (tx_isn tx) a (tx_segments_track tx) (tx_next_seqno tx - tx_base tx) =
        (track, tx_next_seqno tx - lo')" "tracked S (tx_isn tx) lo' track (tx_next_seqno tx)"
      "tx_base tx \<le> lo'" "lo' \<le> a" "track \<noteq> [] \<longrightarrow> a < lo' + ts_length_in_sequence_space (hd track)"
      "\<exists>acked. tx_segments_track tx = acked @ track \<and> tracked S (tx_isn tx) (tx_base tx) acked lo'"
      by (rule tx_ack_loop_spec [OF tr _ le bnd])
    define tx2 where "tx2 = tx\<lparr>tx_window_size := w, tx_abs_ackno := a, tx_segments_track := track,
      tx_bytes_in_flight := tx_next_seqno tx - lo',
      tx_timer := (if track \<noteq> [] then rt_start (tx_timer tx) else rt_close (tx_timer tx))\<rparr>"
    have base: "tx_base tx2 = lo'" using r(4) le by (simp add: tx2_def tx_base_def)
    have ph: "tx_phase S tx2 = tx_phase S tx" "emitted S tx2 = emitted S tx"
      by (simp_all add: tx_phase_def tx2_def emitted_def fun_eq_iff)
    have fields: "tx_stream tx2 = tx_stream tx" "tx_next_seqno tx2 = tx_next_seqno tx"
      "tx_isn tx2 = tx_isn tx" "tx_abs_ackno tx2 = a" "tx_segments_track tx2 = track"
      "tx_segments_out tx2 = tx_segments_out tx" "tx_bytes_in_flight tx2 = tx_next_seqno tx - lo'"
      "tx_window_size tx2 = w"
      by (simp_all add: tx2_def)
    have timer: "rt_running (tx_timer tx2) \<longleftrightarrow> track \<noteq> []"
      "rt_consecutive_retransmissions (tx_timer tx2) = 0"
      "track \<noteq> [] \<longrightarrow> rt_rto (tx_timer tx2) = rt_init_rto (tx_timer tx) \<and> rt_ms_since_running (tx_timer tx2) = 0"
      by (simp_all add: tx2_def rt_start_def rt_close_def)
    have "tx_inv S tx2"
      unfolding tx_inv_def ph base fields using inv r(2-5) le lt timer(1) unfolding tx_inv_def by simp
    then have "tx_acked S a w tx tx2"
      unfolding tx_acked_def base fields using r(6) timer by simp
    moreover have "tx_ack_received ackno w tx = tx_fill_window tx2"
      using lt le r(1) by (simp add: tx_ack_received_def tx2_def fl Let_def flip: a_def)
    ultimately show ?thesis by blast
  qed
qed

lemma tx_tick_inv:
  assumes inv: "tx_inv S tx"
  shows "tx_inv S (tx_tick ms tx)"
proof -
  define timer where "timer = snd (rt_timeout ms (tx_timer tx))"
  have run: "rt_running timer = rt_running (tx_timer tx)" by (simp add: timer_def rt_timeout_def)
  have t: "rt_running (tx_timer tx) \<longleftrightarrow> tx_segments_track tx \<noteq> []"
    using inv by (simp add: tx_inv_def)
  have keep: "tx_inv S (tx\<lparr>tx_timer := u\<rparr>)" if "rt_running u = rt_running (tx_timer tx)" for u
  proof -
    have "tx_phase S (tx\<lparr>tx_timer := u\<rparr>) = tx_phase S tx" by (simp add: tx_phase_def)
    then show ?thesis using inv that by (simp add: tx_inv_def)
  qed
  have send: "tx_inv S (tx\<lparr>tx_segments_out := tx_segments_out tx @ [seg], tx_timer := u\<rparr>)"
    if "rt_running u" "tx_segments_track tx = seg # segs" for seg segs u
  proof -
    let ?tx' = "tx\<lparr>tx_segments_out := tx_segments_out tx @ [seg], tx_timer := u\<rparr>"
    have "tx_phase S ?tx' = tx_phase S tx" "tx_base ?tx' = tx_base tx"
      by (simp_all add: tx_phase_def tx_base_def)
    moreover have "emitted S tx seg"
      using tracked_mem [of S "tx_isn tx" "tx_base tx" "tx_segments_track tx" "tx_next_seqno tx" seg] inv that(2)
      by (auto simp: tx_inv_def emitted_def)
    ultimately show ?thesis using inv that by (auto simp: tx_inv_def emitted_def)
  qed
  have reset: "rt_running (rt_reset_timer w u) = rt_running u" for w u
    by (simp add: rt_reset_timer_def Let_def)
  show ?thesis
  proof (cases "rt_running (tx_timer tx)")
    case True
    then obtain seg segs where seg: "tx_segments_track tx = seg # segs"
      using t by (cases "tx_segments_track tx") auto
    show ?thesis
      using True keep [OF run] send [OF _ seg] seg run reset
      by (cases "rt_timeout ms (tx_timer tx)") (simp add: tx_tick_def timer_def Let_def)
  qed (simp add: tx_tick_def inv)
qed

lemma tx_send_empty_inv:
  assumes inv: "tx_inv S tx" and "0 < tx_next_seqno tx"
  shows "tx_inv S (tx_send_empty_segment tx)"
proof -
  define seg where "seg = stamp (tx_wrapped_next_seqno tx) TCPSegment_new"
  have eq: "tx_send_empty_segment tx = tx\<lparr>tx_segments_out := tx_segments_out tx @ [seg]\<rparr>"
    by (simp add: tx_send_empty_segment_def seg_def stamp_def)
  have c: "carries S (tx_isn tx) (tx_next_seqno tx) seg"
    using assms tx_inv_bounds(1) [OF inv]
    by (auto simp: carries_def seg_def tx_wrapped_next_seqno_def TCPSegment_new_def TCPHeader_new_def
        ts_length_in_sequence_space_def)
  moreover have "buf_str (ts_payload seg) = []" by (simp add: seg_def TCPSegment_new_def)
  have ph: "tx_phase S (tx\<lparr>tx_segments_out := tx_segments_out tx @ [seg]\<rparr>) = tx_phase S tx"
    by (simp add: tx_phase_def)
  note c
  ultimately have "emitted S tx seg" by (auto simp: emitted_def seg_def TCPSegment_new_def
      TCPHeader_new_def ts_length_in_sequence_space_def)
  with ph show ?thesis unfolding eq using inv by (auto simp: tx_inv_def emitted_def)
qed

lemma tx_new_inv:
  "capacity < 2 ^ 64 \<Longrightarrow> tx_inv [] (TCPSender_new capacity timeout isn random)"
  by (simp add: tx_inv_def TCPSender_new_def bs_source_def bs_inv_new tx_phase_def tx_base_def
      RetransmissionTimer_new_def)

section \<open>The application's side\<close>

text \<open>What was sent stays right when the application writes more, as long as it has not ended its input.\<close>

lemma carries_append:
  "carries S isn n seg \<Longrightarrow> \<not> th_fin (ts_header seg) \<Longrightarrow> carries (S @ T) isn n seg"
  by (auto simp: carries_def agrees_def)

lemma emitted_fin:
  assumes "tx_inv S tx" and "carries S (tx_isn tx) n seg" and "n + ts_length_in_sequence_space seg \<le> tx_next_seqno tx"
    and "th_fin (ts_header seg)"
  shows "bs_end_input (tx_stream tx)"
proof -
  have "n + ts_length_in_sequence_space seg = length S + 2"
    using assms(2,4) by (auto simp: carries_def ts_length_in_sequence_space_def split: if_splits)
  moreover have "bs_bytes_read (tx_stream tx) \<le> length S" "tx_phase S tx"
    using assms(1) by (auto simp: tx_inv_def bs_source_def)
  ultimately show ?thesis using assms(3) unfolding tx_phase_def Let_def by linarith
qed

lemma tracked_append_stream:
  assumes "tx_inv S tx" and "\<not> bs_end_input (tx_stream tx)"
  shows "tracked S (tx_isn tx) lo segs (tx_next_seqno tx) \<Longrightarrow>
    tracked (S @ T) (tx_isn tx) lo segs (tx_next_seqno tx)"
proof (induction segs arbitrary: lo)
  case (Cons seg segs)
  then have "carries S (tx_isn tx) lo seg" "lo + ts_length_in_sequence_space seg \<le> tx_next_seqno tx"
    by (auto dest: tracked_le)
  then have "\<not> th_fin (ts_header seg)" using emitted_fin [OF assms(1)] assms(2) by blast
  with Cons show ?case by (auto intro: carries_append)
qed simp

definition tx_write :: "bytes \<Rightarrow> TCPSender \<Rightarrow> size_t \<times> TCPSender" where
  "tx_write data tx = (let (n, s) = bs_write data (tx_stream tx) in (n, tx\<lparr>tx_stream := s\<rparr>))"

definition tx_end_input :: "TCPSender \<Rightarrow> TCPSender" where
  "tx_end_input tx = tx\<lparr>tx_stream := bs_do_end_input (tx_stream tx)\<rparr>"

lemma tx_write_inv:
  assumes inv: "tx_inv S tx" and open_in: "\<not> bs_end_input (tx_stream tx)"
    and w: "tx_write data tx = (n, tx')" and lim: "length S + length data + 2 ^ 33 < 2 ^ 64"
  shows "tx_inv (S @ take n data) tx' \<and> tx_next_seqno tx' = tx_next_seqno tx \<and>
    n = min (bs_remaining_capacity (tx_stream tx)) (length data)"
proof -
  obtain s where s: "bs_write data (tx_stream tx) = (n, s)" "tx' = tx\<lparr>tx_stream := s\<rparr>"
    using w by (auto simp: tx_write_def split: prod.splits)
  let ?S = "S @ take n data"
  have src: "bs_source S (tx_stream tx)" and inv_bs: "bs_inv (tx_stream tx)"
    using inv tx_inv_bounds(6) [OF inv] by (simp_all add: tx_inv_def)
  note wr = bs_write_spec [OF inv_bs s(1)]
  have n: "n \<le> length data" using wr(1) by simp
  have "bs_source ?S s"
    using src wr(2,3,6) n lim by (auto simp: bs_source_def)
  moreover have "tx_phase ?S tx'"
    using inv wr(6) open_in unfolding s(2) by (auto simp: tx_inv_def tx_phase_def Let_def)
  moreover have "emitted ?S tx' seg" if "emitted S tx seg" for seg
    using that emitted_fin [OF inv] open_in carries_append unfolding s(2) emitted_def by fastforce
  moreover have "tracked ?S (tx_isn tx) (tx_base tx) (tx_segments_track tx) (tx_next_seqno tx)"
    using tracked_append_stream [OF inv open_in] inv by (simp add: tx_inv_def)
  moreover have "n = min (bs_remaining_capacity (tx_stream tx)) (length data)"
    using wr(1) bs_inv_remaining [OF inv_bs] by simp
  ultimately show ?thesis using inv unfolding tx_inv_def s(2) by (simp del: emitted_simps)
qed

lemma tx_end_input_inv: "tx_inv S tx \<Longrightarrow> tx_inv S (tx_end_input tx)"
  by (auto simp: tx_inv_def tx_end_input_def bs_source_def tx_phase_def Let_def)

text \<open>The tracked list determines where the new segments begin.\<close>

lemma tracked_unique:
  "tracked S isn lo segs hi \<Longrightarrow> tracked S isn lo segs hi' \<Longrightarrow> hi = hi'"
  by (induction S isn lo segs hi rule: tracked.induct) auto

lemma tracked_sum:
  "tracked S isn lo segs hi \<Longrightarrow> hi = lo + sum_list (map ts_length_in_sequence_space segs)"
  by (induction S isn lo segs hi rule: tracked.induct) auto

lemma tx_sent_tracked:
  assumes "tx_inv S tx" and "tx_sent S tx tx' news"
  shows "tracked S (tx_isn tx) (tx_next_seqno tx) news (tx_next_seqno tx')"
proof -
  have t: "tracked S (tx_isn tx) (tx_base tx) (tx_segments_track tx) (tx_next_seqno tx)"
    using assms(1) by (simp add: tx_inv_def)
  have "tx_inv S tx'" and f: "tx_isn tx' = tx_isn tx" "tx_segments_track tx' = tx_segments_track tx @ news"
    using assms(2) by (simp_all add: tx_sent_def)
  then have t': "tracked S (tx_isn tx) (tx_base tx') (tx_segments_track tx @ news) (tx_next_seqno tx')"
    unfolding tx_inv_def f by blast
  from tracked_sum [OF t'] tracked_sum [OF t] have "tx_base tx' = tx_base tx"
    using assms(2) by (simp add: tx_sent_def)
  with t' obtain m where "tracked S (tx_isn tx) (tx_base tx) (tx_segments_track tx) m"
    "tracked S (tx_isn tx) m news (tx_next_seqno tx')"
    by (auto simp: tracked_append)
  with tracked_unique [OF t] show ?thesis by metis
qed

text \<open>A sender whose SYN is in flight.\<close>

definition syn_sent :: TCPSender where
  "syn_sent = tx_send_no_empty_segment syn_segment (TCPSender_new 100 1000 (Some 5) 0)"

lemma syn_sent_simps:
  "tx_isn syn_sent = 5" "tx_abs_ackno syn_sent = 0" "tx_next_seqno syn_sent = 1"
  "tx_segments_track syn_sent = [stamp 5 syn_segment]" "tx_window_size syn_sent = 1"
  "rt_ms_since_running (tx_timer syn_sent) = 0" "rt_consecutive_retransmissions (tx_timer syn_sent) = 0"
  "rt_rto (tx_timer syn_sent) = 1000" "tx_segments_out syn_sent = [stamp 5 syn_segment]"
  by (simp_all add: syn_sent_def tx_send_eq TCPSender_new_def RetransmissionTimer_new_def rt_start_def
      tx_wrapped_next_seqno_def wrap_def wi_plus_def u64_def)

lemma syn_sent_inv: "tx_inv [] syn_sent"
proof -
  let ?tx = "TCPSender_new 100 1000 (Some 5) 0"
  have inv: "tx_inv [] ?tx" by (rule tx_new_inv) simp
  have "tx_next_segment [] ?tx (tx_stream ?tx) syn_segment"
    using inv by (auto simp: tx_next_segment_def tx_inv_def agrees_def TCPSender_new_def)
  from tx_send_inv(1) [OF inv this] show ?thesis by (simp add: syn_sent_def)
qed

section \<open>Correctness\<close>

text \<open>C14: filling the window. In every state of the invariant \<^verbatim>\<open>fill_window\<close> returns (its loop ends)
  without an exception. The new segments are queued for sending and for tracking, they carry,
  in order, the bytes taken from the stream, at most \<^verbatim>\<open>MAX_PAYLOAD_SIZE\<close> each, numbered from the
  old next sequence number on, and none of them reaches past the peer's window (one byte, when
  the window is zero). It stops only when the SYN is not acknowledged yet, or the window is full,
  or the stream is drained and, if the input has ended, the FIN was sent.\<close>

theorem sender_fill_window:
  assumes "tx_inv S tx"
  shows "\<exists>tx' news. tx_fill_window tx = Inr tx' \<and> tx_inv S tx' \<and>
    tx_segments_out tx' = tx_segments_out tx @ news \<and>
    tx_segments_track tx' = tx_segments_track tx @ news \<and>
    bs_contents (tx_stream tx) = seg_bytes news @ bs_contents (tx_stream tx') \<and>
    tracked S (tx_isn tx) (tx_next_seqno tx) news (tx_next_seqno tx') \<and>
    (news \<noteq> [] \<longrightarrow> tx_next_seqno tx' \<le> tx_abs_ackno tx + tx_window tx) \<and>
    (tx_next_seqno tx = tx_bytes_in_flight tx \<and> 0 < tx_next_seqno tx \<and> tx' = tx \<or>
     tx_abs_ackno tx' + tx_window tx' \<le> tx_next_seqno tx' \<or>
     bs_contents (tx_stream tx') = [] \<and>
       (bs_end_input (tx_stream tx') \<longrightarrow> tx_next_seqno tx' = length S + 2))"
proof -
  obtain tx' news where r: "tx_fill_window tx = Inr tx'" "tx_sent S tx tx' news"
    "tx_next_seqno tx = tx_bytes_in_flight tx \<and> 0 < tx_next_seqno tx \<and> tx' = tx \<or> tx_filled S tx'"
    using tx_fill_window_spec [OF assms] by blast
  moreover have "tracked S (tx_isn tx) (tx_next_seqno tx) news (tx_next_seqno tx')"
    by (rule tx_sent_tracked [OF assms r(2)])
  ultimately show ?thesis unfolding tx_sent_def tx_filled_def by blast
qed

theorem sender_fill_window_witness:
  "\<exists>tx' news. tx_fill_window (TCPSender_new 100 1000 (Some 5) 0) = Inr tx' \<and>
     tx_segments_out tx' = news \<and> tracked [] 5 0 news (tx_next_seqno tx')"
proof -
  have "tx_inv [] (TCPSender_new 100 1000 (Some 5) 0)" by (rule tx_new_inv) simp
  from sender_fill_window [OF this] show ?thesis by (auto simp: TCPSender_new_def)
qed





text \<open>Repeated timeouts: \<open>k\<close> ticks of \<open>ms\<close> milliseconds, each at least as long as the timeout.\<close>

lemma tx_tick_expired:
  assumes "rt_running (tx_timer tx)" and "tx_segments_track tx = seg # segs" and "tx_window_size tx \<noteq> 0"
    and "rt_ms_since_running (tx_timer tx) = 0" and "unat (rt_rto (tx_timer tx)) \<le> ms" and "ms < 2 ^ 64"
  shows "tx_tick ms tx = tx\<lparr>tx_segments_out := tx_segments_out tx @ [seg],
    tx_timer := (tx_timer tx)\<lparr>rt_consecutive_retransmissions := rt_consecutive_retransmissions (tx_timer tx) + 1,
      rt_rto := 2 * rt_rto (tx_timer tx)\<rparr>\<rparr>"
proof -
  have "0 < unat (tx_window_size tx)" using assms(3) by (simp add: unat_gt_0)
  then show ?thesis
    using assms by (simp add: tx_tick_def rt_timeout_def u64_id rt_reset_timer_def Let_def
        push_bit_eq_mult mult.commute)
qed

lemma tx_tick_funpow:
  assumes "rt_running (tx_timer tx)" and "tx_segments_track tx = seg # segs" and "tx_window_size tx \<noteq> 0"
    and "rt_ms_since_running (tx_timer tx) = 0" and "ms < 2 ^ 64"
  shows "unat (rt_rto (tx_timer tx)) * 2 ^ k \<le> ms \<Longrightarrow> unat (rt_rto (tx_timer tx)) * 2 ^ k < 2 ^ 32 \<Longrightarrow>
    (tx_tick ms ^^ k) tx = tx\<lparr>tx_segments_out := tx_segments_out tx @ replicate k seg,
      tx_timer := (tx_timer tx)\<lparr>rt_consecutive_retransmissions := rt_consecutive_retransmissions (tx_timer tx) + of_nat k,
        rt_rto := rt_rto (tx_timer tx) * 2 ^ k\<rparr>\<rparr>"
proof (induction k)
  case (Suc k)
  let ?r = "rt_rto (tx_timer tx)"
  let ?tx = "tx\<lparr>tx_segments_out := tx_segments_out tx @ replicate k seg,
      tx_timer := (tx_timer tx)\<lparr>rt_consecutive_retransmissions := rt_consecutive_retransmissions (tx_timer tx) + of_nat k,
        rt_rto := ?r * 2 ^ k\<rparr>\<rparr>"
  have le: "unat ?r * 2 ^ k \<le> unat ?r * 2 ^ Suc k" by simp
  then have b: "unat ?r * 2 ^ k \<le> ms" "unat ?r * 2 ^ k < 2 ^ 32" using Suc.prems by linarith+
  have "unat (?r * 2 ^ k) \<le> unat ?r * 2 ^ k"
  proof -
    have "?r * 2 ^ k = of_nat (unat ?r * 2 ^ k)" by simp
    then show ?thesis by (simp only: unat_of_nat) simp
  qed
  then have "tx_tick ms ?tx = ?tx\<lparr>tx_segments_out := tx_segments_out ?tx @ [seg],
    tx_timer := (tx_timer ?tx)\<lparr>rt_consecutive_retransmissions := rt_consecutive_retransmissions (tx_timer ?tx) + 1,
      rt_rto := 2 * rt_rto (tx_timer ?tx)\<rparr>\<rparr>"
    using assms b by (intro tx_tick_expired [of ?tx seg segs]) simp_all
  then show ?case
    using Suc.IH [OF b] by (simp add: replicate_append_same mult.left_commute mult.commute add.commute)
qed simp

text \<open>Exponential backoff. When the peer's window is open and the oldest segment stays
  unacknowledged for \<open>k\<close> timeouts in a row, it is sent \<open>k\<close> more times, \<open>k\<close> consecutive
  retransmissions are counted, and the timeout is the initial one times \<open>2 ^ k\<close> (while this
  fits in 32 bits).\<close>

theorem sender_backoff:
  assumes "tx_inv S tx" and "tx_segments_track tx = seg # segs" and "tx_window_size tx \<noteq> 0"
    and "rt_ms_since_running (tx_timer tx) = 0" and "rt_consecutive_retransmissions (tx_timer tx) = 0"
    and "k < 2 ^ 32" and "unat (rt_rto (tx_timer tx)) * 2 ^ k < 2 ^ 32"
    and "unat (rt_rto (tx_timer tx)) * 2 ^ k \<le> ms" and "ms < 2 ^ 64"
  shows "let tx' = (tx_tick ms ^^ k) tx
    in tx_segments_out tx' = tx_segments_out tx @ replicate k seg \<and>
       unat (rt_consecutive_retransmissions (tx_timer tx')) = k \<and>
       unat (rt_rto (tx_timer tx')) = unat (rt_rto (tx_timer tx)) * 2 ^ k \<and>
       tx_segments_track tx' = tx_segments_track tx"
proof -
  have "rt_running (tx_timer tx)" using assms(1,2) by (simp add: tx_inv_def)
  from tx_tick_funpow [OF this assms(2-4,9,8,7)] show ?thesis
  proof -
    have "rt_rto (tx_timer tx) * 2 ^ k = of_nat (unat (rt_rto (tx_timer tx)) * 2 ^ k)" by simp
    then have "unat (rt_rto (tx_timer tx) * 2 ^ k) = unat (rt_rto (tx_timer tx)) * 2 ^ k"
      using assms(7) by (simp only: unat_of_nat) simp
    moreover have "unat (of_nat k :: uint32_t) = k" using assms(6) by (simp add: unat_of_nat)
    ultimately show ?thesis
      using \<open>(tx_tick ms ^^ k) tx = _\<close> assms(5) by (simp add: Let_def)
  qed
qed

theorem sender_backoff_witness:
  "unat (rt_rto (tx_timer ((tx_tick 10000 ^^ 3) syn_sent))) = 8000"
  using sender_backoff [OF syn_sent_inv, of "stamp 5 syn_segment" "[]" 3 10000]
  by (simp add: syn_sent_simps Let_def)

text \<open>Everything that can happen to a sender: \<open>S\<close> is what the application has written so far.\<close>

inductive tx_reachable :: "bytes \<Rightarrow> TCPSender \<Rightarrow> bool" where
  start: "capacity < 2 ^ 64 \<Longrightarrow> tx_reachable [] (TCPSender_new capacity timeout isn random)"
| put: "tx_reachable S tx \<Longrightarrow> \<not> bs_end_input (tx_stream tx) \<Longrightarrow>
    length S + length data + 2 ^ 33 < 2 ^ 64 \<Longrightarrow> tx_write data tx = (n, tx') \<Longrightarrow>
    tx_reachable (S @ take n data) tx'"
| finish: "tx_reachable S tx \<Longrightarrow> tx_reachable S (tx_end_input tx)"
| fill: "tx_reachable S tx \<Longrightarrow> tx_fill_window tx = Inr tx' \<Longrightarrow> tx_reachable S tx'"
| ack: "tx_reachable S tx \<Longrightarrow> tx_ack_received ackno w tx = Inr tx' \<Longrightarrow> tx_reachable S tx'"
| tick: "tx_reachable S tx \<Longrightarrow> tx_reachable S (tx_tick ms tx)"
| empty: "tx_reachable S tx \<Longrightarrow> 0 < tx_next_seqno tx \<Longrightarrow> tx_reachable S (tx_send_empty_segment tx)"
| pop: "tx_reachable S tx \<Longrightarrow> tx_segments_out tx = seg # segs \<Longrightarrow>
    tx_reachable S (tx\<lparr>tx_segments_out := segs\<rparr>)"

lemma tx_fill_window_inv: "tx_inv S tx \<Longrightarrow> \<exists>tx'. tx_fill_window tx = Inr tx' \<and> tx_inv S tx'"
  using tx_fill_window_spec tx_sent_inv by metis

lemma tx_ack_received_inv: "tx_inv S tx \<Longrightarrow> \<exists>tx'. tx_ack_received ackno w tx = Inr tx' \<and> tx_inv S tx'"
proof -
  assume inv: "tx_inv S tx"
  let ?a = "unwrap ackno (tx_isn tx) (tx_abs_ackno tx)"
  consider "tx_next_seqno tx < ?a" | "?a \<le> tx_abs_ackno tx" | "tx_abs_ackno tx < ?a" "?a \<le> tx_next_seqno tx"
    by linarith
  then show ?thesis
  proof cases
    case 3
    then obtain tx2 where "tx_acked S ?a w tx tx2" "tx_ack_received ackno w tx = tx_fill_window tx2"
      using tx_ack_received_spec(3) [OF inv] by blast
    then show ?thesis using tx_fill_window_inv [of S tx2] by (auto simp: tx_acked_def)
  qed (use inv tx_ack_received_spec(1,2) [OF inv] in blast)+
qed

lemma tx_pop_inv:
  assumes "tx_inv S tx" and "set segs \<subseteq> set (tx_segments_out tx)"
  shows "tx_inv S (tx\<lparr>tx_segments_out := segs\<rparr>)"
proof -
  have "tx_phase S (tx\<lparr>tx_segments_out := segs\<rparr>) = tx_phase S tx" by (simp add: tx_phase_def)
  then show ?thesis using assms by (auto simp: tx_inv_def)
qed

lemma tx_reachable_inv: "tx_reachable S tx \<Longrightarrow> tx_inv S tx"
proof (induction rule: tx_reachable.induct)
  case (fill S tx tx')
  then show ?case using tx_fill_window_inv [of S tx] by auto
next
  case (ack S tx ackno w tx')
  then show ?case using tx_ack_received_inv [of S tx ackno w] by auto
next
  case (pop S tx seg segs)
  then show ?case by (intro tx_pop_inv) auto
qed (use tx_new_inv tx_write_inv tx_end_input_inv tx_tick_inv tx_send_empty_inv in blast)+

text \<open>C13: the sender's invariant, in every state that any sequence of calls can lead to. No call
  throws. The tracked segments carry the sequence numbers from the first unacknowledged segment
  up to the next sequence number, without gap or overlap, and their lengths add up to the
  bytes in flight; at most 65535 numbers lie past the acknowledgment number; every segment
  queued for sending carries bytes the application wrote, at most \<^verbatim>\<open>MAX_PAYLOAD_SIZE\<close> of them; and the
  retransmission timer runs exactly while segments are outstanding.\<close>

theorem sender_invariant:
  assumes "tx_reachable S tx"
  shows "(\<exists>tx'. tx_fill_window tx = Inr tx') \<and> (\<forall>ackno w. \<exists>tx'. tx_ack_received ackno w tx = Inr tx') \<and>
    tx_bytes_in_flight tx = sum_list (map ts_length_in_sequence_space (tx_segments_track tx)) \<and>
    tracked S (tx_isn tx) (tx_next_seqno tx - tx_bytes_in_flight tx) (tx_segments_track tx) (tx_next_seqno tx) \<and>
    tx_next_seqno tx - tx_bytes_in_flight tx \<le> tx_abs_ackno tx \<and> tx_abs_ackno tx \<le> tx_next_seqno tx \<and>
    tx_next_seqno tx \<le> tx_abs_ackno tx + 65535 \<and> tx_next_seqno tx \<le> length S + 2 \<and>
    (\<forall>seg \<in> set (tx_segments_out tx). \<exists>n. carries S (tx_isn tx) n seg \<and>
       n + ts_length_in_sequence_space seg \<le> tx_next_seqno tx \<and>
       length (buf_str (ts_payload seg)) \<le> MAX_PAYLOAD_SIZE) \<and>
    (rt_running (tx_timer tx) \<longleftrightarrow> tx_segments_track tx \<noteq> [])"
proof -
  have inv: "tx_inv S tx" by (rule tx_reachable_inv [OF assms])
  have tr: "tracked S (tx_isn tx) (tx_base tx) (tx_segments_track tx) (tx_next_seqno tx)"
    "tx_bytes_in_flight tx \<le> tx_next_seqno tx"
    using inv by (simp_all add: tx_inv_def)
  have "tx_bytes_in_flight tx = sum_list (map ts_length_in_sequence_space (tx_segments_track tx))"
    using tracked_sum [OF tr(1)] tr(2) by (simp add: tx_base_def)
  moreover have "\<exists>tx'. tx_fill_window tx = Inr tx'" "\<forall>ackno w. \<exists>tx'. tx_ack_received ackno w tx = Inr tx'"
    using tx_fill_window_inv [OF inv] tx_ack_received_inv [OF inv] by blast+
  moreover have "tx_next_seqno tx \<le> length S + 2" by (rule tx_inv_bounds(1) [OF inv])
  ultimately show ?thesis
    using inv unfolding tx_inv_def tx_base_def emitted_def by blast
qed

theorem sender_invariant_witness:
  "tx_bytes_in_flight syn_sent = sum_list (map ts_length_in_sequence_space (tx_segments_track syn_sent))"
proof -
  have "tx_fill_window (TCPSender_new 100 1000 (Some 5) 0) = tx_fill_loop syn_sent"
    by (simp add: tx_fill_window_def syn_sent_def) (simp add: TCPSender_new_def)
  also have "\<dots> = Inr syn_sent"
    by (simp add: tx_fill_loop.simps [of syn_sent] syn_sent_simps tx_window_def sub64_id)
  finally have "tx_reachable [] syn_sent"
    using tx_reachable.fill [OF tx_reachable.start, of 100 1000 "Some 5" 0 syn_sent] by simp
  from sender_invariant [OF this] show ?thesis by blast
qed

end
