(* ===== verification/Stream_Reassembler.thy ===== *)
theory Stream_Reassembler
  imports Byte_Stream "HOL-Library.Sublist"
begin

text \<open>
  \<^verbatim>\<open>stream_reassembler.hh\<close> and \<^verbatim>\<open>stream_reassembler.cc\<close>: substrings of a byte stream arrive out of
  order and overlapping, and are put together into the in-order output stream.

  The \<^verbatim>\<open>std::map<size_t, std::string>\<close> of waiting substrings is an association list in ascending
  key order, since the code walks it with iterators: \<^verbatim>\<open>upper_bound\<close> splits it, \<^verbatim>\<open>emplace\<close>
  inserts a key that is absent, \<^verbatim>\<open>erase\<close> removes one.
\<close>

section \<open>The ordered map\<close>

type_synonym segs = "(size_t \<times> bytes) list"

text \<open>The entries before and from \<^verbatim>\<open>upper_bound(k)\<close> (the first key greater than \<open>k\<close>).\<close>

definition map_before :: "size_t \<Rightarrow> segs \<Rightarrow> segs" where
  "map_before k m = takeWhile (\<lambda>e. fst e \<le> k) m"

definition map_upper_bound :: "size_t \<Rightarrow> segs \<Rightarrow> segs" where
  "map_upper_bound k m = dropWhile (\<lambda>e. fst e \<le> k) m"

fun map_emplace :: "size_t \<Rightarrow> bytes \<Rightarrow> segs \<Rightarrow> segs" where
  "map_emplace k v [] = [(k, v)]"
| "map_emplace k v ((a, b) # m) =
     (if k < a then (k, v) # (a, b) # m
      else if k = a then (a, b) # m
      else (a, b) # map_emplace k v m)"

fun map_erase :: "size_t \<Rightarrow> segs \<Rightarrow> segs" where
  "map_erase k [] = []"
| "map_erase k ((a, b) # m) = (if k = a then m else (a, b) # map_erase k m)"

text \<open>\<^verbatim>\<open>std::string::substr(pos, n)\<close> throws when \<open>pos\<close> is past the end.\<close>

definition str_substr :: "size_t \<Rightarrow> size_t \<Rightarrow> bytes \<Rightarrow> exn + bytes" where
  "str_substr pos n s =
     (if length s < pos then Inl (Out_of_range ''basic_string::substr'')
      else Inr (take n (drop pos s)))"

section \<open>Model\<close>

record StreamReassembler =
  sr_output :: ByteStream
  sr_capacity :: size_t
  sr_unassemble_buffer :: segs
  sr_next_pos :: size_t
  sr_unassembled_bytes :: size_t
  sr_eof_index :: size_t
  sr_eof_appear_sign :: bool

definition StreamReassembler_new :: "size_t \<Rightarrow> StreamReassembler" where
  "StreamReassembler_new capacity =
     \<lparr>sr_output = ByteStream_new capacity, sr_capacity = capacity, sr_unassemble_buffer = [],
      sr_next_pos = 0, sr_unassembled_bytes = 0, sr_eof_index = 0, sr_eof_appear_sign = False\<rparr>"

text \<open>
  \<^verbatim>\<open>insert_pair\<close>, first part: the index from which the new bytes are not covered by the string
  before them. \<open>pre_iter\<close> is the last entry with a key at most \<open>index\<close>, or the first entry
  when there is none.
\<close>

definition sr_pre_iter :: "size_t \<Rightarrow> segs \<Rightarrow> (size_t \<times> bytes) option" where
  "sr_pre_iter index m =
     (if map_before index m \<noteq> [] then Some (last (map_before index m))
      else case m of [] \<Rightarrow> None | e # _ \<Rightarrow> Some e)"

definition sr_new_index :: "size_t \<Rightarrow> StreamReassembler \<Rightarrow> size_t" where
  "sr_new_index index sr =
     (case sr_pre_iter index (sr_unassemble_buffer sr) of
        Some (pre_idx, pre_data) \<Rightarrow>
          if pre_idx \<le> index then
            if index < u64 (pre_idx + length pre_data) then u64 (pre_idx + length pre_data)
            else index
          else if index < sr_next_pos sr then sr_next_pos sr else index
      | None \<Rightarrow> if index < sr_next_pos sr then sr_next_pos sr else index)"

text \<open>
  \<^verbatim>\<open>insert_pair\<close>, the loop over the strings after the new one: it returns the new length, the
  count of unassembled bytes and the entries that remain from the iterator on.
\<close>

fun sr_post_loop :: "size_t \<Rightarrow> size_t \<Rightarrow> size_t \<Rightarrow> segs \<Rightarrow> size_t \<times> size_t \<times> segs" where
  "sr_post_loop new_index new_length unassembled [] = (new_length, unassembled, [])"
| "sr_post_loop new_index new_length unassembled ((k, d) # es) =
     (if new_index \<le> k then
        let data_end_pos = u64 (new_index + new_length)
        in if data_end_pos \<le> k then (new_length, unassembled, (k, d) # es)
           else if data_end_pos < u64 (k + length d)
             then (sub64 k new_index, unassembled, (k, d) # es)
           else sr_post_loop new_index new_length (sub64 unassembled (length d)) es
      else (new_length, unassembled, (k, d) # es))"

definition sr_insert_pair ::
  "bytes \<Rightarrow> size_t \<Rightarrow> StreamReassembler \<Rightarrow> exn + StreamReassembler" where
  "sr_insert_pair data index sr =
     (let new_index = sr_new_index index sr;
          first_unacceptable_idx =
            sub64 (u64 (sr_next_pos sr + sr_capacity sr)) (bs_buffer_size (sr_output sr))
      in if u64 (index + length data) \<le> new_index then Inr sr
         else if first_unacceptable_idx \<le> new_index then Inr sr
         else
           let new_length0 = sub64 (length data) (sub64 new_index index);
               (new_length1, unassembled, rest) =
                 sr_post_loop new_index new_length0 (sr_unassembled_bytes sr)
                   (map_upper_bound index (sr_unassemble_buffer sr));
               sr1 = sr\<lparr>sr_unassembled_bytes := unassembled,
                        sr_unassemble_buffer :=
                          map_before index (sr_unassemble_buffer sr) @ rest\<rparr>
           in if new_length1 = 0 then Inr sr1
              else
                let new_length = min (sub64 first_unacceptable_idx new_index) new_length1
                in bindE (str_substr (sub64 new_index index) new_length data) (\<lambda>new_data.
                     if new_index = sr_next_pos sr1 then
                       let (write_bytes, out) = bs_write new_data (sr_output sr1);
                           sr2 = sr1\<lparr>sr_output := out,
                                     sr_next_pos := u64 (sr_next_pos sr1 + write_bytes)\<rparr>
                       in if write_bytes = length new_data then Inr sr2
                          else Inr (sr2\<lparr>sr_unassemble_buffer :=
                                      map_emplace (u64 (new_index + write_bytes))
                                        (drop write_bytes new_data) (sr_unassemble_buffer sr2),
                                    sr_unassembled_bytes :=
                                      u64 (sr_unassembled_bytes sr2 + new_length)\<rparr>)
                     else Inr (sr1\<lparr>sr_unassemble_buffer :=
                                 map_emplace new_index new_data (sr_unassemble_buffer sr1),
                               sr_unassembled_bytes :=
                                 u64 (sr_unassembled_bytes sr1 + new_length)\<rparr>)))"

text \<open>The sizes of the entries, which the loop of \<^verbatim>\<open>write_output\<close> decreases.\<close>

definition segs_measure :: "segs \<Rightarrow> nat" where
  "segs_measure m = sum_list (map (\<lambda>e. Suc (length (snd e))) m)"

lemma segs_measure_simps [simp]:
  "segs_measure [] = 0" "segs_measure (e # m) = Suc (length (snd e)) + segs_measure m"
  by (simp_all add: segs_measure_def)

lemma segs_measure_emplace: "segs_measure (map_emplace k v m) \<le> segs_measure m + Suc (length v)"
  by (induction k v m rule: map_emplace.induct) auto

lemma bs_write_count: "fst (bs_write d bs) \<le> length d"
  by (simp add: bs_write_def Let_def)

function sr_write_output :: "StreamReassembler \<Rightarrow> StreamReassembler" where
  "sr_write_output sr =
     (case sr_unassemble_buffer sr of
        [] \<Rightarrow> sr
      | (k, d) # es \<Rightarrow>
          if k = sr_next_pos sr \<and> 0 < bs_remaining_capacity (sr_output sr) then
            let (write_bytes, out) = bs_write d (sr_output sr);
                sr1 = sr\<lparr>sr_output := out,
                         sr_unassembled_bytes := sub64 (sr_unassembled_bytes sr) write_bytes,
                         sr_next_pos := u64 (sr_next_pos sr + write_bytes)\<rparr>
            in if write_bytes < length d then
                 if write_bytes = 0 then sr1
                 else sr_write_output (sr1\<lparr>sr_unassemble_buffer :=
                        map_erase k (map_emplace (sr_next_pos sr1) (drop write_bytes d)
                                       (sr_unassemble_buffer sr1))\<rparr>)
               else sr_write_output (sr1\<lparr>sr_unassemble_buffer :=
                      map_erase k (sr_unassemble_buffer sr1)\<rparr>)
          else sr)"
  by pat_completeness auto
termination
proof (relation "measure (\<lambda>sr. segs_measure (sr_unassemble_buffer sr))", goal_cases)
  case 1
  then show ?case by simp
next
  case (2 sr x21 x22 k d x xa y xb)
  then show ?case
    using segs_measure_emplace [of "sr_next_pos xb" "drop xa d" x22] by auto
next
  case (3 sr x21 x22 k d x xa y xb)
  then show ?case by auto
qed

declare sr_write_output.simps [simp del]

definition sr_push_substring ::
  "bytes \<Rightarrow> uint64_t \<Rightarrow> bool \<Rightarrow> StreamReassembler \<Rightarrow> exn + StreamReassembler" where
  "sr_push_substring data index eof sr =
     bindE (sr_insert_pair data index sr) (\<lambda>sr0.
       let sr1 = sr_write_output sr0;
           sr2 = (if eof then sr1\<lparr>sr_eof_index := u64 (index + length data),
                                  sr_eof_appear_sign := True\<rparr>
                  else sr1)
       in Inr (if sr_eof_appear_sign sr2 \<and> sr_eof_index sr2 \<le> sr_next_pos sr2
               then sr2\<lparr>sr_output := bs_do_end_input (sr_output sr2)\<rparr> else sr2))"

definition sr_empty :: "StreamReassembler \<Rightarrow> bool" where
  "sr_empty sr \<longleftrightarrow> sr_unassembled_bytes sr = 0"

section \<open>Ordered, disjoint segments\<close>

text \<open>
  \<open>segs_ok lo m hi\<close>: the entries are non-empty, in ascending order, pairwise disjoint and lie
  between \<open>lo\<close> and \<open>hi\<close>. \<open>segs_end lo m\<close> is the end of the last one, \<open>segs_set m\<close> the
  set of stream indices they hold, \<open>segs_len m\<close> their number of bytes.
\<close>

fun segs_ok :: "nat \<Rightarrow> segs \<Rightarrow> nat \<Rightarrow> bool" where
  "segs_ok lo [] hi \<longleftrightarrow> lo \<le> hi"
| "segs_ok lo ((k, d) # m) hi \<longleftrightarrow> lo \<le> k \<and> d \<noteq> [] \<and> segs_ok (k + length d) m hi"

fun segs_end :: "nat \<Rightarrow> segs \<Rightarrow> nat" where
  "segs_end lo [] = lo"
| "segs_end lo ((k, d) # m) = segs_end (k + length d) m"

definition segs_set :: "segs \<Rightarrow> nat set" where
  "segs_set m = (\<Union>(k, d) \<in> set m. {k..<k + length d})"

definition segs_len :: "segs \<Rightarrow> nat" where
  "segs_len m = sum_list (map (length \<circ> snd) m)"

definition segs_agree :: "bytes \<Rightarrow> segs \<Rightarrow> bool" where
  "segs_agree S m \<longleftrightarrow> (\<forall>(k, d) \<in> set m. agrees S k d)"

lemma segs_set_simps [simp]:
  "segs_set [] = {}" "segs_set ((k, d) # m) = {k..<k + length d} \<union> segs_set m"
  "segs_set (m @ m') = segs_set m \<union> segs_set m'"
  by (auto simp: segs_set_def)

lemma segs_len_simps [simp]:
  "segs_len [] = 0" "segs_len ((k, d) # m) = length d + segs_len m"
  "segs_len (m @ m') = segs_len m + segs_len m'"
  by (simp_all add: segs_len_def)

lemma segs_agree_simps [simp]:
  "segs_agree S []" "segs_agree S ((k, d) # m) \<longleftrightarrow> agrees S k d \<and> segs_agree S m"
  "segs_agree S (m @ m') \<longleftrightarrow> segs_agree S m \<and> segs_agree S m'"
  by (auto simp: segs_agree_def)

lemma segs_set_mem: "e \<in> set m \<Longrightarrow> {fst e..<fst e + length (snd e)} \<subseteq> segs_set m"
  by (auto simp: segs_set_def)

lemma segs_ok_le: "segs_ok lo m hi \<Longrightarrow> lo \<le> hi"
  by (induction lo m hi rule: segs_ok.induct) auto

lemma segs_ok_lower: "segs_ok lo m hi \<Longrightarrow> lo' \<le> lo \<Longrightarrow> segs_ok lo' m hi"
  by (cases m) (auto split: prod.splits)

lemma segs_ok_append:
  "segs_ok lo (m @ m') hi \<longleftrightarrow> segs_ok lo m (segs_end lo m) \<and> segs_ok (segs_end lo m) m' hi"
  by (induction lo m rule: segs_end.induct) (auto dest: segs_ok_le)

lemma segs_end_ge: "segs_ok lo m hi \<Longrightarrow> lo \<le> segs_end lo m"
  by (induction lo m hi rule: segs_ok.induct) auto

lemma segs_end_append [simp]: "segs_end lo (m @ m') = segs_end (segs_end lo m) m'"
  by (induction lo m rule: segs_end.induct) auto

lemma segs_set_bounds: "segs_ok lo m hi \<Longrightarrow> segs_set m \<subseteq> {lo..<hi}"
proof (induction lo m hi rule: segs_ok.induct)
  case (2 lo k d m hi)
  then have "k + length d \<le> hi" by (auto dest: segs_ok_le)
  with 2 show ?case by fastforce
qed simp

lemma segs_set_finite [simp]: "finite (segs_set m)"
  by (auto simp: segs_set_def)

lemma segs_len_card: "segs_ok lo m hi \<Longrightarrow> segs_len m = card (segs_set m)"
proof (induction lo m hi rule: segs_ok.induct)
  case (2 lo k d m hi)
  then have "{k..<k + length d} \<inter> segs_set m = {}"
    using segs_set_bounds [of "k + length d" m hi] by fastforce
  with 2 show ?case by (simp add: card_Un_disjoint)
qed simp

lemma segs_len_bound: "segs_ok lo m hi \<Longrightarrow> segs_len m \<le> hi - lo"
  by (induction lo m hi rule: segs_ok.induct) (auto dest: segs_ok_le)

lemma segs_ok_nonempty: "segs_ok lo m hi \<Longrightarrow> e \<in> set m \<Longrightarrow> snd e \<noteq> []"
  by (induction lo m hi rule: segs_ok.induct) auto

lemma segs_end_gt: "segs_ok lo m hi \<Longrightarrow> m \<noteq> [] \<Longrightarrow> lo < segs_end lo m"
proof (induction lo m hi rule: segs_ok.induct)
  case (2 lo k d m hi)
  then show ?case
    using segs_end_ge [of "k + length d" m hi] by (cases d) auto
qed simp

lemma segs_key_less: "segs_ok lo m hi \<Longrightarrow> e \<in> set m \<Longrightarrow> fst e < segs_end lo m"
proof (induction lo m hi rule: segs_ok.induct)
  case (2 lo k d m hi)
  then show ?case
    using segs_end_ge [of "k + length d" m hi] by (cases d) auto
qed simp

text \<open>The entries before \<^verbatim>\<open>upper_bound(index)\<close> end at the end of the last of them.\<close>

lemma segs_end_last: "m \<noteq> [] \<Longrightarrow> segs_end lo m = fst (last m) + length (snd (last m))"
  by (induction lo m rule: segs_end.induct) (auto split: if_splits)

lemma map_before_upper [simp]: "map_before k m @ map_upper_bound k m = m"
  by (simp add: map_before_def map_upper_bound_def)

lemma map_before_le: "e \<in> set (map_before k m) \<Longrightarrow> fst e \<le> k"
  by (auto simp: map_before_def dest: set_takeWhileD)

lemma map_upper_bound_gt: "map_upper_bound k m = e # es \<Longrightarrow> k < fst e"
  using hd_dropWhile [of "\<lambda>e. fst e \<le> k" m] by (auto simp: map_upper_bound_def)

lemma segs_ok_raise:
  "segs_ok lo m hi \<Longrightarrow> (case m of [] \<Rightarrow> lo' \<le> hi | (k, d) # _ \<Rightarrow> lo' \<le> k) \<Longrightarrow> segs_ok lo' m hi"
  by (cases m) (auto split: prod.splits)

lemma map_emplace_middle:
  "\<forall>e \<in> set m. fst e < k \<Longrightarrow> (case m' of [] \<Rightarrow> True | e # _ \<Rightarrow> k < fst e) \<Longrightarrow>
   map_emplace k v (m @ m') = m @ (k, v) # m'"
proof (induction m)
  case Nil
  then show ?case by (cases m') auto
next
  case (Cons e m)
  then show ?case by (cases e) auto
qed

section \<open>The loop over the strings after the new one\<close>

lemma sr_post_loop_spec:
  assumes "sr_post_loop ni nl ub m = (nl', ub', m')"
    and "segs_ok ni m hi" and "ni + nl < 2 ^ 64" and "hi < 2 ^ 64"
    and "segs_len m \<le> ub" and "ub < 2 ^ 64"
  shows "nl' \<le> nl"
    and "segs_ok ni m' hi"
    and "case m' of [] \<Rightarrow> True | (k, d) # _ \<Rightarrow> ni + nl' \<le> k"
    and "segs_set m \<union> {ni..<ni + nl} = segs_set m' \<union> {ni..<ni + nl'}"
    and "ub' + segs_len m = ub + segs_len m'"
    and "segs_agree S m \<Longrightarrow> segs_agree S m'"
proof -
  have "nl' \<le> nl \<and> segs_ok ni m' hi \<and> (case m' of [] \<Rightarrow> True | (k, d) # _ \<Rightarrow> ni + nl' \<le> k) \<and>
        segs_set m \<union> {ni..<ni + nl} = segs_set m' \<union> {ni..<ni + nl'} \<and>
        ub' + segs_len m = ub + segs_len m' \<and> (segs_agree S m \<longrightarrow> segs_agree S m')"
    using assms
  proof (induction ni nl ub m rule: sr_post_loop.induct)
    case (1 ni nl ub)
    then show ?case by simp
  next
    case (2 ni nl ub k d m)
    have kd: "ni \<le> k" "d \<noteq> []" "segs_ok (k + length d) m hi"
      using "2.prems"(2) by simp_all
    then have hi: "k + length d \<le> hi" by (auto dest: segs_ok_le)
    have e: "u64 (ni + nl) = ni + nl" "u64 (k + length d) = k + length d" "sub64 k ni = k - ni"
      using "2.prems"(3,4) hi kd by (simp_all add: u64_id sub64_id)
    show ?case
    proof (cases "ni + nl \<le> k \<or> ni + nl < k + length d")
      case True
      then show ?thesis
        using "2.prems"(1) kd e by (auto simp: Let_def split: if_splits)
    next
      case False
      then have r: "sr_post_loop ni nl (sub64 ub (length d)) m = (nl', ub', m')"
        using "2.prems"(1) kd e by (simp add: Let_def)
      have ub: "sub64 ub (length d) = ub - length d"
        using "2.prems"(5,6) by (simp add: sub64_id)
      have ok: "segs_ok ni m hi" using kd by (auto intro: segs_ok_lower)
      have cover: "{k..<k + length d} \<union> segs_set m \<union> {ni..<ni + nl} = segs_set m \<union> {ni..<ni + nl}"
        using False kd by auto
      have "\<not> u64 (ni + nl) \<le> k" "\<not> u64 (ni + nl) < u64 (k + length d)"
        "segs_len m \<le> sub64 ub (length d)" "sub64 ub (length d) < 2 ^ 64"
        using False e ub "2.prems"(5,6) by simp_all
      note ih = "2.IH" [OF kd(1) refl this(1,2) r ok "2.prems"(3,4) this(3,4)]
      have "ub' + segs_len ((k, d) # m) = ub + segs_len m'"
        using ih ub "2.prems"(5) by (elim conjE) simp
      then show ?thesis
        using ih by (simp add: cover)
    qed
  qed
  then show "nl' \<le> nl" "segs_ok ni m' hi" "case m' of [] \<Rightarrow> True | (k, d) # _ \<Rightarrow> ni + nl' \<le> k"
    "segs_set m \<union> {ni..<ni + nl} = segs_set m' \<union> {ni..<ni + nl'}"
    "ub' + segs_len m = ub + segs_len m'" "segs_agree S m \<Longrightarrow> segs_agree S m'"
    by blast+
qed

section \<open>Invariant\<close>

text \<open>
  The window of the reassembler is the \<open>capacity\<close> indices from the first byte that the reader
  has not read. Everything waiting lies in it, past the assembled bytes; the counters agree with
  the map and with the output stream. \<open>sr_known\<close> are the indices whose bytes have arrived,
  \<open>sr_agree S\<close> says that the bytes held are those of the stream \<open>S\<close>.
\<close>

definition sr_window_end :: "StreamReassembler \<Rightarrow> nat" where
  "sr_window_end sr = bs_bytes_read (sr_output sr) + sr_capacity sr"

definition sr_inv :: "StreamReassembler \<Rightarrow> bool" where
  "sr_inv sr \<longleftrightarrow>
     bs_inv (sr_output sr) \<and>
     sr_capacity sr = bs_capacity (sr_output sr) \<and>
     sr_window_end sr < 2 ^ 64 \<and>
     sr_next_pos sr = bs_bytes_read (sr_output sr) + length (bs_contents (sr_output sr)) \<and>
     segs_ok (sr_next_pos sr) (sr_unassemble_buffer sr) (sr_window_end sr) \<and>
     sr_unassembled_bytes sr = segs_len (sr_unassemble_buffer sr)"

declare sr_inv_def [inv_defs]

definition sr_known :: "StreamReassembler \<Rightarrow> nat set" where
  "sr_known sr = {..<sr_next_pos sr} \<union> segs_set (sr_unassemble_buffer sr)"

definition sr_agree :: "bytes \<Rightarrow> StreamReassembler \<Rightarrow> bool" where
  "sr_agree S sr \<longleftrightarrow>
     agrees S (bs_bytes_read (sr_output sr)) (bs_contents (sr_output sr)) \<and>
     segs_agree S (sr_unassemble_buffer sr)"

definition sr_settled :: "StreamReassembler \<Rightarrow> bool" where
  "sr_settled sr \<longleftrightarrow>
     (case sr_unassemble_buffer sr of [] \<Rightarrow> True | (k, d) # _ \<Rightarrow> k \<noteq> sr_next_pos sr)"

lemma sr_inv_bounds:
  assumes "sr_inv sr"
  shows "bs_inv (sr_output sr)" "sr_capacity sr = bs_capacity (sr_output sr)"
    "sr_window_end sr < 2 ^ 64" "sr_next_pos sr \<le> sr_window_end sr"
    "segs_ok (sr_next_pos sr) (sr_unassemble_buffer sr) (sr_window_end sr)"
    "sr_unassembled_bytes sr = segs_len (sr_unassemble_buffer sr)"
    "sr_next_pos sr = bs_bytes_read (sr_output sr) + length (bs_contents (sr_output sr))"
    "sr_next_pos sr = bs_bytes_written (sr_output sr)"
    "bs_buffer_size (sr_output sr) = length (bs_contents (sr_output sr))"
    "length (bs_contents (sr_output sr)) \<le> sr_capacity sr"
    "sr_unassembled_bytes sr < 2 ^ 64"
  using assms segs_len_bound [of "sr_next_pos sr" "sr_unassemble_buffer sr" "sr_window_end sr"]
  by (auto simp: sr_inv_def bs_inv_def sr_window_end_def u64_id)

lemma sr_first_unacceptable:
  assumes "sr_inv sr"
  shows "sub64 (u64 (sr_next_pos sr + sr_capacity sr)) (bs_buffer_size (sr_output sr)) =
         sr_window_end sr"
proof -
  note b = sr_inv_bounds [OF assms]
  let ?l = "length (bs_contents (sr_output sr))"
  have "sub64 (u64 (sr_window_end sr + ?l)) ?l = sr_window_end sr"
  proof (cases "sr_window_end sr + ?l < 2 ^ 64")
    case True
    then show ?thesis by (simp add: u64_id sub64_id)
  next
    case False
    then have "u64 (sr_window_end sr + ?l) = sr_window_end sr + ?l - 2 ^ 64"
      using b(3,10) by (simp add: u64_def sr_window_end_def mod_if)
    moreover have "u64 ?l = ?l" using b(3,10) by (simp add: u64_id sr_window_end_def)
    ultimately show ?thesis
      using False b(3) by (simp add: sub64_def)
  qed
  then show ?thesis
    using b(7,9) by (simp add: sr_window_end_def add.commute add.left_commute)
qed

lemma sr_new_index_eq:
  assumes "sr_inv sr"
  shows "sr_new_index index sr =
         max index (segs_end (sr_next_pos sr) (map_before index (sr_unassemble_buffer sr)))"
proof (cases "map_before index (sr_unassemble_buffer sr) = []")
  case True
  have "sr_new_index index sr = (if index < sr_next_pos sr then sr_next_pos sr else index)"
  proof (cases "sr_unassemble_buffer sr")
    case Nil
    then show ?thesis using True by (simp add: sr_new_index_def sr_pre_iter_def)
  next
    case (Cons e m)
    then have "\<not> fst e \<le> index" using True by (auto simp: map_before_def split: if_splits)
    then show ?thesis using True Cons
      by (cases e) (simp add: sr_new_index_def sr_pre_iter_def)
  qed
  with True show ?thesis by simp
next
  case False
  let ?pre = "last (map_before index (sr_unassemble_buffer sr))"
  let ?e = "segs_end (sr_next_pos sr) (map_before index (sr_unassemble_buffer sr))"
  have e: "?e = fst ?pre + length (snd ?pre)" using False by (rule segs_end_last)
  have "?e \<le> sr_window_end sr"
    using sr_inv_bounds(5) [OF assms] map_before_upper [of index "sr_unassemble_buffer sr"]
    by (metis segs_ok_append segs_ok_le)
  then have "u64 (fst ?pre + length (snd ?pre)) = ?e"
    using sr_inv_bounds(3) [OF assms] e by (simp add: u64_id)
  moreover have "fst ?pre \<le> index"
    using last_in_set [OF False] by (rule map_before_le)
  ultimately show ?thesis using False
    by (auto simp: sr_new_index_def sr_pre_iter_def split: prod.splits)
qed

section \<open>Inserting a substring\<close>

text \<open>Where \<^verbatim>\<open>upper_bound(index)\<close> splits the map, and what the code's \<open>new_index\<close> skips.\<close>

lemma sr_split:
  fixes index :: nat
  assumes "sr_inv sr"
  defines "B \<equiv> map_before index (sr_unassemble_buffer sr)"
    and "U \<equiv> map_upper_bound index (sr_unassemble_buffer sr)"
    and "ni \<equiv> sr_new_index index sr"
  shows "segs_ok (sr_next_pos sr) B (segs_end (sr_next_pos sr) B)"
    and "segs_end (sr_next_pos sr) B \<le> ni" and "index \<le> ni" and "sr_next_pos sr \<le> ni"
    and "segs_ok (segs_end (sr_next_pos sr) B) U (sr_window_end sr)"
    and "ni \<le> sr_window_end sr \<Longrightarrow> segs_ok ni U (sr_window_end sr)"
    and "{index..<ni} \<subseteq> sr_known sr"
    and "\<forall>e \<in> set B. fst e < ni"
    and "ni = sr_next_pos sr \<Longrightarrow> B = []"
proof -
  let ?np = "sr_next_pos sr"
  let ?E = "segs_end ?np B"
  have m: "sr_unassemble_buffer sr = B @ U" by (simp add: B_def U_def)
  have ok: "segs_ok ?np B ?E" "segs_ok ?E U (sr_window_end sr)"
    using sr_inv_bounds(5) [OF assms(1)] by (simp_all add: m segs_ok_append)
  have ni: "ni = max index ?E" unfolding ni_def B_def by (rule sr_new_index_eq [OF assms(1)])
  show "segs_ok ?np B ?E" "segs_ok ?E U (sr_window_end sr)" "?E \<le> ni" "index \<le> ni" "?np \<le> ni"
    using ok ni segs_end_ge [OF ok(1)] by auto
  show "segs_ok ni U (sr_window_end sr)" if "ni \<le> sr_window_end sr"
  proof (rule segs_ok_raise [OF ok(2)])
    show "case U of [] \<Rightarrow> ni \<le> sr_window_end sr | (k, d) # _ \<Rightarrow> ni \<le> k"
      using that ok(2) ni map_upper_bound_gt [of index "sr_unassemble_buffer sr"]
      by (auto simp: U_def split: list.splits)
  qed
  have last: "?E = fst (last B) + length (snd (last B)) \<and> fst (last B) \<le> index \<and>
        last B \<in> set (sr_unassemble_buffer sr)" if "B \<noteq> []"
  proof -
    have l: "last B \<in> set B" using that by (rule last_in_set)
    then have "fst (last B) \<le> index" unfolding B_def by (rule map_before_le)
    moreover have "last B \<in> set (sr_unassemble_buffer sr)" using l by (simp add: m)
    ultimately show ?thesis using segs_end_last [OF that] by simp
  qed
  show "{index..<ni} \<subseteq> sr_known sr"
  proof (cases "B = []")
    case True
    then show ?thesis using ni by (auto simp: sr_known_def)
  next
    case False
    then have "{index..<?E} \<subseteq> segs_set (sr_unassemble_buffer sr)"
      using last segs_set_mem [of "last B" "sr_unassemble_buffer sr"] by auto
    moreover have "{index..<ni} = {index..<?E}" using ni by (auto simp: max_def)
    ultimately show ?thesis by (auto simp: sr_known_def)
  qed
  show "\<forall>e \<in> set B. fst e < ni"
    using segs_key_less [OF ok(1)] ni by fastforce
  show "B = []" if "ni = ?np"
    using that ni ok(1) segs_end_gt [OF ok(1)] by (cases "B = []") auto
qed

text \<open>Bytes that fit in the window are all written to the output stream.\<close>

lemma sr_deliver:
  assumes "bs_inv out" and "bs_write d out = (n, out')"
    and "length (bs_contents out) + length d \<le> bs_capacity out"
    and "bs_bytes_read out + bs_capacity out < 2 ^ 64"
    and "np = bs_bytes_read out + length (bs_contents out)"
  shows "n = length d" and "bs_inv out'" and "bs_capacity out' = bs_capacity out"
    and "bs_bytes_read out' = bs_bytes_read out" and "bs_contents out' = bs_contents out @ d"
    and "u64 (np + n) = np + length d"
    and "bs_end_input out' = bs_end_input out" and "bs_error out' = bs_error out"
proof -
  note w = bs_write_spec [OF assms(1,2)]
  show n: "n = length d" using w(1) assms(3) by simp
  show "bs_contents out' = bs_contents out @ d" using w(2) n by simp
  show "u64 (np + n) = np + length d" using n assms(3-5) by (simp add: u64_id)
qed (use bs_write_spec [OF assms(1,2)] in blast)+

lemma sr_insert_coverage:
  assumes "sr_inv sr" and "U \<union> {ni..<ni + nl0} = R \<union> {ni..<ni + nl1}"
    and "B \<union> U = segs_set (sr_unassemble_buffer sr)" and "{index..<ni} \<subseteq> sr_known sr"
    and "R \<subseteq> {..<sr_window_end sr}" and "ni < sr_window_end sr"
    and "index \<le> ni" and "ni + nl0 = index + len" and "nl = min (sr_window_end sr - ni) nl1"
  shows "{..<sr_next_pos sr} \<union> B \<union> R \<union> {ni..<ni + nl} =
         sr_known sr \<union> ({index..<index + len} \<inter> {..<sr_window_end sr})"
proof -
  let ?W = "{..<sr_window_end sr}"
  have "segs_set (sr_unassemble_buffer sr) \<subseteq> ?W"
    using segs_set_bounds [OF sr_inv_bounds(5) [OF assms(1)]] by auto
  then have U: "U \<subseteq> ?W" using assms(3) by auto
  have seg: "{index..<index + len} = {index..<ni} \<union> {ni..<ni + nl0}"
    using assms(7,8) by auto
  have "{ni..<ni + nl} = {ni..<ni + nl1} \<inter> ?W"
    using assms(6,9) by auto
  then have "R \<union> {ni..<ni + nl} = (R \<union> {ni..<ni + nl1}) \<inter> ?W"
    using assms(5) by auto
  also have "\<dots> = U \<union> ({ni..<ni + nl0} \<inter> ?W)"
    using assms(2) U by auto
  finally have *: "R \<union> {ni..<ni + nl} = U \<union> ({ni..<ni + nl0} \<inter> ?W)" .
  have "{..<sr_next_pos sr} \<union> B \<union> R \<union> {ni..<ni + nl} =
        {..<sr_next_pos sr} \<union> (B \<union> U) \<union> ({ni..<ni + nl0} \<inter> ?W)"
    using * by blast
  also have "\<dots> = sr_known sr \<union> ({ni..<ni + nl0} \<inter> ?W)"
    by (simp add: assms(3) sr_known_def)
  also have "\<dots> = sr_known sr \<union> ({index..<index + len} \<inter> ?W)"
    using assms(4) by (auto simp: seg)
  finally show ?thesis .
qed

text \<open>
  What one insertion achieves: \<open>sr_inserted data index sr sr'\<close> says that \<open>sr'\<close> satisfies the
  invariant, knows exactly the bytes of \<open>data\<close> that lie in the window besides those known
  before, holds only bytes of any stream that \<open>sr\<close> and \<open>data\<close> agree with, and leaves the
  rest of the state alone.
\<close>

definition sr_frame :: "StreamReassembler \<Rightarrow> StreamReassembler \<Rightarrow> bool" where
  "sr_frame sr sr' \<longleftrightarrow>
     sr_capacity sr' = sr_capacity sr \<and>
     bs_bytes_read (sr_output sr') = bs_bytes_read (sr_output sr) \<and>
     bs_end_input (sr_output sr') = bs_end_input (sr_output sr) \<and>
     bs_error (sr_output sr') = bs_error (sr_output sr) \<and>
     sr_eof_index sr' = sr_eof_index sr \<and> sr_eof_appear_sign sr' = sr_eof_appear_sign sr"

lemma sr_frame_refl [simp]: "sr_frame sr sr"
  by (simp add: sr_frame_def)

lemma sr_frame_trans: "sr_frame a b \<Longrightarrow> sr_frame b c \<Longrightarrow> sr_frame a c"
  by (simp add: sr_frame_def)

lemma sr_frame_window: "sr_frame sr sr' \<Longrightarrow> sr_window_end sr' = sr_window_end sr"
  by (simp add: sr_frame_def sr_window_end_def)

definition sr_inserted ::
  "bytes \<Rightarrow> nat \<Rightarrow> StreamReassembler \<Rightarrow> StreamReassembler \<Rightarrow> bool" where
  "sr_inserted data index sr sr' \<longleftrightarrow>
     sr_inv sr' \<and> sr_frame sr sr' \<and>
     sr_known sr' = sr_known sr \<union> ({index..<index + length data} \<inter> {..<sr_window_end sr}) \<and>
     (\<forall>S. agrees S index data \<longrightarrow> sr_agree S sr \<longrightarrow> sr_agree S sr')"

text \<open>The last step of \<^verbatim>\<open>insert_pair\<close>: the new bytes go to the output stream or into the map.\<close>

lemma sr_insert_write:
  assumes inv: "sr_inv sr" and R: "segs_ok (sr_next_pos sr + length nd) R (sr_window_end sr)"
    and w: "bs_write nd (sr_output sr) = (n, out)"
    and known: "{..<sr_next_pos sr + length nd} \<union> segs_set R =
      sr_known sr \<union> ({index..<index + length data} \<inter> {..<sr_window_end sr})"
    and agree: "\<And>S. agrees S index data \<Longrightarrow> segs_agree S (sr_unassemble_buffer sr) \<Longrightarrow>
      agrees S (sr_next_pos sr) nd \<and> segs_agree S R"
  shows "n = length nd"
    and "sr_inserted data index sr (sr\<lparr>sr_unassembled_bytes := segs_len R,
           sr_unassemble_buffer := R, sr_output := out, sr_next_pos := u64 (sr_next_pos sr + n)\<rparr>)"
proof -
  note b = sr_inv_bounds [OF inv]
  have fit: "sr_next_pos sr + length nd \<le> sr_window_end sr" using R by (rule segs_ok_le)
  have d: "length (bs_contents (sr_output sr)) + length nd \<le> bs_capacity (sr_output sr)"
    "bs_bytes_read (sr_output sr) + bs_capacity (sr_output sr) < 2 ^ 64"
    using fit b by (simp_all add: sr_window_end_def)
  note D = sr_deliver [OF b(1) w d b(7)]
  show "n = length nd" by (rule D(1))
  then show "sr_inserted data index sr (sr\<lparr>sr_unassembled_bytes := segs_len R,
      sr_unassemble_buffer := R, sr_output := out, sr_next_pos := u64 (sr_next_pos sr + n)\<rparr>)"
    using D b R known agree
    by (auto simp: sr_inserted_def sr_inv_def sr_frame_def sr_window_end_def sr_known_def
        sr_agree_def intro: agrees_append)
qed

lemma sr_insert_store:
  assumes inv: "sr_inv sr" and m: "segs_ok (sr_next_pos sr) m (sr_window_end sr)"
    and known: "{..<sr_next_pos sr} \<union> segs_set m =
      sr_known sr \<union> ({index..<index + length data} \<inter> {..<sr_window_end sr})"
    and agree: "\<And>S. agrees S index data \<Longrightarrow> segs_agree S (sr_unassemble_buffer sr) \<Longrightarrow>
      segs_agree S m"
  shows "sr_inserted data index sr
           (sr\<lparr>sr_unassembled_bytes := segs_len m, sr_unassemble_buffer := m\<rparr>)"
  using sr_inv_bounds [OF inv] m known agree
  by (auto simp: sr_inserted_def sr_inv_def sr_frame_def sr_window_end_def sr_known_def sr_agree_def)

lemma sr_update_commute:
  "sr\<lparr>sr_unassemble_buffer := m, sr_unassembled_bytes := u\<rparr> =
   sr\<lparr>sr_unassembled_bytes := u, sr_unassemble_buffer := m\<rparr>"
  by simp

lemma sr_update_reorder:
  "sr\<lparr>sr_output := out, sr_unassembled_bytes := u, sr_next_pos := p, sr_unassemble_buffer := m\<rparr> =
   sr\<lparr>sr_unassembled_bytes := u, sr_unassemble_buffer := m, sr_output := out, sr_next_pos := p\<rparr>"
  by simp

lemma sr_inserted_noop:
  "sr_inv sr \<Longrightarrow> {index..<index + length data} \<inter> {..<sr_window_end sr} \<subseteq> sr_known sr \<Longrightarrow>
   sr_inserted data index sr sr"
  by (auto simp: sr_inserted_def)

lemma sr_insert_pair_go:
  fixes sr index data
  defines "W \<equiv> sr_window_end sr" and "ni \<equiv> sr_new_index index sr"
    and "B \<equiv> map_before index (sr_unassemble_buffer sr)"
    and "U \<equiv> map_upper_bound index (sr_unassemble_buffer sr)"
    and "nl0 \<equiv> length data - (sr_new_index index sr - index)"
  assumes inv: "sr_inv sr" and lim: "index + length data < 2 ^ 64"
    and go: "ni < index + length data" "ni < W"
    and loop: "sr_post_loop ni nl0 (sr_unassembled_bytes sr) U = (nl1, ub, R)"
    and nl: "nl = min (W - ni) nl1" and nd: "nd = take nl (drop (ni - index) data)"
  shows "ub = segs_len (B @ R)" and "length nd = nl"
    and "nl1 = 0 \<Longrightarrow> sr_inserted data index sr
           (sr\<lparr>sr_unassembled_bytes := ub, sr_unassemble_buffer := B @ R\<rparr>)"
    and "nl1 \<noteq> 0 \<Longrightarrow> ni = sr_next_pos sr \<Longrightarrow> bs_write nd (sr_output sr) = (n, out) \<Longrightarrow>
         n = length nd \<and> sr_inserted data index sr (sr\<lparr>sr_unassembled_bytes := ub,
           sr_unassemble_buffer := B @ R, sr_output := out,
           sr_next_pos := u64 (sr_next_pos sr + n)\<rparr>)"
    and "nl1 \<noteq> 0 \<Longrightarrow> ni \<noteq> sr_next_pos sr \<Longrightarrow>
         sr_inserted data index sr (sr\<lparr>sr_unassembled_bytes := u64 (ub + nl),
           sr_unassemble_buffer := map_emplace ni nd (B @ R)\<rparr>)"
proof -
  let ?np = "sr_next_pos sr"
  note b = sr_inv_bounds [OF inv, folded W_def]
    and sp = sr_split [OF inv, of index, folded W_def ni_def B_def U_def]
  have m: "sr_unassemble_buffer sr = B @ U" by (simp add: B_def U_def)
  have e0: "ni + nl0 = index + length data" and nl0': "nl0 = length data - (ni - index)"
    using go sp(3) by (simp_all add: nl0_def ni_def)
  have pre: "segs_ok ni U W" "ni + nl0 < 2 ^ 64" "segs_len U \<le> sr_unassembled_bytes sr"
    using sp(6) go lim e0 b(6) by (simp_all add: m)
  note P = sr_post_loop_spec [OF loop pre(1,2) b(3) pre(3) b(11)]
  show ub: "ub = segs_len (B @ R)" using P(5) b(6) by (simp add: m)
  have "nl \<le> length data - (ni - index)" using nl P(1) nl0' by (simp add: min.coboundedI2)
  then show len: "length nd = nl" unfolding nd by simp
  have R: "segs_ok (ni + nl) R W"
    using segs_ok_raise [OF P(2), of "ni + nl"] P(3) nl go(2) by (auto split: list.splits)
  have BR: "segs_ok ?np (B @ R) W"
    using sp(1,2) segs_ok_lower [OF P(2)] by (simp add: segs_ok_append)
  have RW: "segs_set R \<subseteq> {..<W}" using segs_set_bounds [OF P(2)] by auto
  have BU: "segs_set B \<union> segs_set U = segs_set (sr_unassemble_buffer sr)" by (simp add: m)
  have known: "{..<?np} \<union> segs_set B \<union> segs_set R \<union> {ni..<ni + nl} =
      sr_known sr \<union> ({index..<index + length data} \<inter> {..<W})"
    using RW go(2) nl unfolding W_def
    by (intro sr_insert_coverage [OF inv P(4) BU sp(7) _ _ sp(3) e0])
  have agR: "segs_agree S R" if "segs_agree S (sr_unassemble_buffer sr)" for S
    using that P(6) by (simp add: m)
  have agd: "agrees S ni nd" if "agrees S index data" for S
    using agrees_substr [OF that, of "ni - index" nl] sp(3) go(1) nd by simp
  show "sr_inserted data index sr
      (sr\<lparr>sr_unassembled_bytes := ub, sr_unassemble_buffer := B @ R\<rparr>)" if "nl1 = 0"
    unfolding ub
  proof (rule sr_insert_store [OF inv BR [unfolded W_def]])
    have "nl = 0" using that nl by simp
    then show "{..<?np} \<union> segs_set (B @ R) =
        sr_known sr \<union> ({index..<index + length data} \<inter> {..<sr_window_end sr})"
      using known by (simp add: W_def Un_assoc)
  qed (use agR in \<open>simp add: m\<close>)
  show "n = length nd \<and> sr_inserted data index sr (sr\<lparr>sr_unassembled_bytes := ub,
      sr_unassemble_buffer := B @ R, sr_output := out, sr_next_pos := u64 (?np + n)\<rparr>)"
    if "nl1 \<noteq> 0" "ni = ?np" "bs_write nd (sr_output sr) = (n, out)"
  proof -
    have [simp]: "B = []" using sp(9) that(2) by simp
    have "{..<?np + length nd} \<union> segs_set R =
        sr_known sr \<union> ({index..<index + length data} \<inter> {..<sr_window_end sr})"
      unfolding known [unfolded W_def, symmetric] that(2) len by auto
    note sr_insert_write [OF inv R [unfolded that(2) W_def, folded len] that(3) this]
    then show ?thesis using agR agd that(2) by (simp add: ub)
  qed
  show "sr_inserted data index sr (sr\<lparr>sr_unassembled_bytes := u64 (ub + nl),
      sr_unassemble_buffer := map_emplace ni nd (B @ R)\<rparr>)" if "nl1 \<noteq> 0" "ni \<noteq> ?np"
  proof -
    have pos: "0 < nl" using nl that(1) go(2) by simp
    then have nd0: "nd \<noteq> []" using len by auto
    have emp: "map_emplace ni nd (B @ R) = B @ (ni, nd) # R"
      using sp(8) R pos by (intro map_emplace_middle) (auto split: list.splits)
    have ok: "segs_ok ?np (B @ (ni, nd) # R) W"
      using sp(1,2) R nd0 len by (simp add: segs_ok_append)
    have "segs_len (B @ (ni, nd) # R) < 2 ^ 64"
      using segs_len_bound [OF ok] b(3) by simp
    then have "u64 (ub + nl) = segs_len (B @ (ni, nd) # R)"
      using ub len by (simp add: u64_id)
    moreover have "{..<?np} \<union> segs_set (B @ (ni, nd) # R) =
        sr_known sr \<union> ({index..<index + length data} \<inter> {..<sr_window_end sr})"
      unfolding known [unfolded W_def, symmetric] by (simp add: len Un_ac)
    note sr_insert_store [OF inv ok [unfolded W_def] this]
    ultimately show ?thesis
      unfolding emp using agR agd by (simp add: m)
  qed
qed

lemma sr_insert_pair_spec:
  assumes inv: "sr_inv sr" and lim: "index + length data < 2 ^ 64"
  shows "\<exists>sr'. sr_insert_pair data index sr = Inr sr' \<and> sr_inserted data index sr sr'"
proof -
  let ?W = "sr_window_end sr" and ?ni = "sr_new_index index sr" and ?np = "sr_next_pos sr"
  let ?U = "map_upper_bound index (sr_unassemble_buffer sr)"
  note b = sr_inv_bounds [OF inv] and sp = sr_split [OF inv, of index]
  note defs = sr_insert_pair_def Let_def sr_first_unacceptable [OF inv] u64_id [OF lim]
  consider (stop) "index + length data \<le> ?ni \<or> ?W \<le> ?ni"
    | (go) "?ni < index + length data" "?ni < ?W"
    by linarith
  then show ?thesis
  proof cases
    case stop
    then have "{index..<index + length data} \<inter> {..<?W} \<subseteq> {index..<?ni}" by auto
    then have "sr_inserted data index sr sr" using sp(7) inv by (intro sr_inserted_noop) auto
    then show ?thesis using stop by (auto simp: defs)
  next
    case go
    let ?nl0 = "length data - (?ni - index)"
    obtain nl1 ub R where loop: "sr_post_loop ?ni ?nl0 (sr_unassembled_bytes sr) ?U = (nl1, ub, R)"
      by (metis prod_cases3)
    have sub: "sub64 ?ni index = ?ni - index" "sub64 (length data) (?ni - index) = ?nl0"
      "sub64 ?W ?ni = ?W - ?ni" "?ni - index \<le> length data"
      using go lim b(3) sp(3) by (simp_all add: sub64_id)
    note G = sr_insert_pair_go [OF inv lim go loop refl refl]
    show ?thesis
    proof (cases "nl1 = 0")
      case True
      then show ?thesis using G(3) go loop by (simp add: defs sub)
    next
      case False
      then show ?thesis using G(4,5) go loop
        by (auto simp: defs sub str_substr_def sr_update_commute split: prod.splits)
    qed
  qed
qed

section \<open>Writing the assembled bytes out\<close>

lemma sr_write_output_step:
  assumes inv: "sr_inv sr" and m: "sr_unassemble_buffer sr = (k, d) # es"
    and k: "k = sr_next_pos sr" and w: "bs_write d (sr_output sr) = (n, out)"
  shows "n = length d"
    and "sr_inserted [] 0 sr (sr\<lparr>sr_output := out,
           sr_unassembled_bytes := sub64 (sr_unassembled_bytes sr) n,
           sr_next_pos := u64 (sr_next_pos sr + n), sr_unassemble_buffer := es\<rparr>)"
proof -
  note b = sr_inv_bounds [OF inv]
  have es: "segs_ok (sr_next_pos sr + length d) es (sr_window_end sr)"
    using b(5) by (simp add: m k)
  have known: "{..<sr_next_pos sr + length d} \<union> segs_set es =
      sr_known sr \<union> ({0..<0 + length ([] :: bytes)} \<inter> {..<sr_window_end sr})"
    by (auto simp: sr_known_def m k)
  have ag: "agrees S (sr_next_pos sr) d \<and> segs_agree S es"
    if "segs_agree S (sr_unassemble_buffer sr)" for S
    using that by (simp add: m k)
  note I = sr_insert_write [OF inv es w known ag]
  show n: "n = length d" by (rule I(1))
  have "sub64 (sr_unassembled_bytes sr) n = segs_len es"
    using b(6,11) n by (simp add: m sub64_id)
  then show "sr_inserted [] 0 sr (sr\<lparr>sr_output := out,
      sr_unassembled_bytes := sub64 (sr_unassembled_bytes sr) n,
      sr_next_pos := u64 (sr_next_pos sr + n), sr_unassemble_buffer := es\<rparr>)"
    using I(2) by (simp add: sr_update_reorder)
qed

lemma sr_write_output_spec:
  "sr_inv sr \<Longrightarrow> sr_inserted [] 0 sr (sr_write_output sr) \<and> sr_settled (sr_write_output sr)"
proof (induction sr rule: sr_write_output.induct)
  case (1 sr)
  note b = sr_inv_bounds [OF "1.prems"]
  have here: "sr_inserted [] 0 sr sr" using "1.prems" by (simp add: sr_inserted_def)
  show ?case
  proof (cases "sr_unassemble_buffer sr")
    case Nil
    then show ?thesis using here by (simp add: sr_write_output.simps [of sr] sr_settled_def)
  next
    case (Cons e es)
    obtain k d where e: "e = (k, d)" by (cases e)
    obtain n out where w: "bs_write d (sr_output sr) = (n, out)" by (cases "bs_write d (sr_output sr)")
    show ?thesis
    proof (cases "k = sr_next_pos sr")
      case False
      then show ?thesis using here Cons e
        by (simp add: sr_write_output.simps [of sr] sr_settled_def)
    next
      case True
      have "k + length d \<le> sr_window_end sr" "d \<noteq> []"
        using b(5) Cons e by (auto dest: segs_ok_le)
      then have room: "0 < bs_remaining_capacity (sr_output sr)"
        using b True bs_inv_remaining [OF b(1)] by (cases d) (auto simp: sr_window_end_def)
      note st = sr_write_output_step [OF "1.prems" _ True w, of es]
      let ?sr' = "sr\<lparr>sr_output := out,
        sr_unassembled_bytes := sub64 (sr_unassembled_bytes sr) n,
        sr_next_pos := u64 (sr_next_pos sr + n), sr_unassemble_buffer := es\<rparr>"
      have eq: "sr_write_output sr = sr_write_output ?sr'"
        using True room w st(1) Cons e by (simp add: sr_write_output.simps [of sr])
      have st': "sr_inserted [] 0 sr ?sr'" using st(2) Cons e by simp
      have "sr_inserted [] 0 ?sr' (sr_write_output ?sr') \<and> sr_settled (sr_write_output ?sr')"
        using "1.IH"(2) [OF Cons e [symmetric] _ refl w [symmetric] refl] True room st(1) st' Cons e
        by (simp add: sr_inserted_def)
      then show ?thesis
        unfolding eq using st' by (auto simp: sr_inserted_def intro: sr_frame_trans)
    qed
  qed
qed

section \<open>Pushing a substring, and reading the output\<close>

lemma sr_next_pos_unknown:
  assumes "sr_inv sr" and "sr_settled sr"
  shows "sr_next_pos sr \<notin> sr_known sr"
proof (cases "sr_unassemble_buffer sr")
  case Nil
  then show ?thesis by (simp add: sr_known_def)
next
  case (Cons e m)
  obtain k d where e: "e = (k, d)" by (cases e)
  have "segs_ok k (sr_unassemble_buffer sr) (sr_window_end sr)" "sr_next_pos sr < k"
    using sr_inv_bounds(5) [OF assms(1)] assms(2) Cons e by (auto simp: sr_settled_def)
  then show ?thesis using segs_set_bounds by (fastforce simp: sr_known_def)
qed

lemma sr_next_pos_Least:
  assumes "sr_inv sr" and "sr_settled sr"
  shows "sr_next_pos sr = (LEAST i. i \<notin> sr_known sr)"
proof (rule Least_equality [symmetric])
  show "sr_next_pos sr \<notin> sr_known sr" using assms by (rule sr_next_pos_unknown)
  show "sr_next_pos sr \<le> i" if "i \<notin> sr_known sr" for i
    using that by (simp add: sr_known_def not_less)
qed

lemma sr_unassembled_card:
  assumes "sr_inv sr"
  shows "sr_unassembled_bytes sr = card (sr_known sr - {..<sr_next_pos sr})"
proof -
  note b = sr_inv_bounds [OF assms]
  have "sr_known sr - {..<sr_next_pos sr} = segs_set (sr_unassemble_buffer sr)"
    using segs_set_bounds [OF b(5)] by (auto simp: sr_known_def)
  then show ?thesis using segs_len_card [OF b(5)] b(6) by simp
qed

lemma sr_capacity_bound:
  assumes "sr_inv sr"
  shows "bs_buffer_size (sr_output sr) + sr_unassembled_bytes sr \<le> sr_capacity sr"
  using sr_inv_bounds [OF assms] segs_len_bound [OF sr_inv_bounds(5) [OF assms]]
  by (simp add: sr_window_end_def)

definition sr_fin :: "StreamReassembler \<Rightarrow> nat option" where
  "sr_fin sr = (if sr_eof_appear_sign sr then Some (sr_eof_index sr) else None)"

text \<open>The flags of the output and the end-of-file marks do not take part in the invariant.\<close>

lemma sr_flags_irrelevant:
  assumes "bs_contents out = bs_contents (sr_output sr)" and "bs_inv out = bs_inv (sr_output sr)"
    and "bs_bytes_read out = bs_bytes_read (sr_output sr)"
    and "bs_capacity out = bs_capacity (sr_output sr)"
  shows "sr_inv (sr\<lparr>sr_output := out, sr_eof_index := i, sr_eof_appear_sign := g\<rparr>) = sr_inv sr"
    and "sr_agree S (sr\<lparr>sr_output := out, sr_eof_index := i, sr_eof_appear_sign := g\<rparr>) = sr_agree S sr"
  using assms by (simp_all add: sr_inv_def sr_agree_def sr_window_end_def)

lemma sr_settled_flags [simp]:
  "sr_settled (sr\<lparr>sr_output := out, sr_eof_index := i, sr_eof_appear_sign := g\<rparr>) = sr_settled sr"
  by (cases "sr_unassemble_buffer sr") (auto simp: sr_settled_def)

lemma sr_push_substring_spec:
  assumes inv: "sr_inv sr" and lim: "index + length data < 2 ^ 64"
  obtains sr' where "sr_push_substring data index eof sr = Inr sr'"
    and "sr_inv sr'" and "sr_settled sr'" and "sr_window_end sr' = sr_window_end sr"
    and "sr_known sr' = sr_known sr \<union> ({index..<index + length data} \<inter> {..<sr_window_end sr})"
    and "\<And>S. agrees S index data \<Longrightarrow> sr_agree S sr \<Longrightarrow> sr_agree S sr'"
    and "sr_fin sr' = (if eof then Some (index + length data) else sr_fin sr)"
    and "bs_end_input (sr_output sr') \<longleftrightarrow> bs_end_input (sr_output sr) \<or>
           (\<exists>k. sr_fin sr' = Some k \<and> k \<le> sr_next_pos sr')"
    and "sr_capacity sr' = sr_capacity sr"
    and "bs_bytes_read (sr_output sr') = bs_bytes_read (sr_output sr)"
    and "bs_error (sr_output sr') = bs_error (sr_output sr)"
proof -
  obtain sr0 where ins: "sr_insert_pair data index sr = Inr sr0" "sr_inserted data index sr sr0"
    using sr_insert_pair_spec [OF assms] by blast
  let ?sr1 = "sr_write_output sr0"
  have w: "sr_inserted [] 0 sr0 ?sr1" "sr_settled ?sr1"
    using sr_write_output_spec ins(2) by (simp_all add: sr_inserted_def)
  then have i1: "sr_inserted data index sr ?sr1"
    using ins(2) by (auto simp: sr_inserted_def agrees_def intro: sr_frame_trans)
  let ?i = "if eof then index + length data else sr_eof_index ?sr1"
  let ?g = "eof \<or> sr_eof_appear_sign ?sr1"
  let ?out = "if ?g \<and> ?i \<le> sr_next_pos ?sr1 then bs_do_end_input (sr_output ?sr1)
              else sr_output ?sr1"
  let ?sr' = "?sr1\<lparr>sr_output := ?out, sr_eof_index := ?i, sr_eof_appear_sign := ?g\<rparr>"
  have eq: "sr_push_substring data index eof sr = Inr ?sr'"
    by (cases eof) (simp_all add: sr_push_substring_def ins(1) Let_def u64_id [OF lim])
  have "bs_contents ?out = bs_contents (sr_output ?sr1)" "bs_inv ?out = bs_inv (sr_output ?sr1)"
    "bs_bytes_read ?out = bs_bytes_read (sr_output ?sr1)"
    "bs_capacity ?out = bs_capacity (sr_output ?sr1)" "bs_error ?out = bs_error (sr_output ?sr1)"
    by simp_all
  note fl = this and irr = sr_flags_irrelevant [OF this(1-4)]
  have fr: "sr_frame sr ?sr1" and inv1: "sr_inv ?sr1"
    using i1 by (simp_all add: sr_inserted_def)
  show thesis
  proof (rule that [OF eq])
    show "sr_inv ?sr'" using inv1 irr(1) by simp
    show "sr_agree S ?sr'" if "agrees S index data" "sr_agree S sr" for S
      using i1 irr(2) that by (simp add: sr_inserted_def)
    show "sr_known ?sr' = sr_known sr \<union> ({index..<index + length data} \<inter> {..<sr_window_end sr})"
      using i1 by (simp add: sr_inserted_def sr_known_def)
    show "sr_fin ?sr' = (if eof then Some (index + length data) else sr_fin sr)"
      using fr by (simp add: sr_fin_def sr_frame_def)
    show "bs_end_input (sr_output ?sr') \<longleftrightarrow> bs_end_input (sr_output sr) \<or>
        (\<exists>k. sr_fin ?sr' = Some k \<and> k \<le> sr_next_pos ?sr')"
      using fr by (simp add: sr_fin_def sr_frame_def)
    show "sr_settled ?sr'" using w(2) by (simp only: sr_settled_flags)
    show "sr_window_end ?sr' = sr_window_end sr" "sr_capacity ?sr' = sr_capacity sr"
      "bs_bytes_read (sr_output ?sr') = bs_bytes_read (sr_output sr)"
      "bs_error (sr_output ?sr') = bs_error (sr_output sr)"
      using fr fl by (simp_all add: sr_frame_def sr_window_end_def)
  qed
qed

section \<open>The contract of reassembly\<close>

text \<open>Pushing a list of substrings, each with its index and its end-of-stream mark.\<close>

fun push_all ::
  "(bytes \<Rightarrow> nat \<Rightarrow> bool \<Rightarrow> 's \<Rightarrow> exn + 's) \<Rightarrow> (bytes \<times> nat \<times> bool) list \<Rightarrow> 's \<Rightarrow> exn + 's" where
  "push_all push [] s = Inr s"
| "push_all push ((d, i, e) # ps) s = bindE (push d i e s) (push_all push ps)"

definition pieces_set :: "(bytes \<times> nat \<times> bool) list \<Rightarrow> nat set" where
  "pieces_set ps = (\<Union>(d, i, e) \<in> set ps. {i..<i + length d})"

text \<open>A piece of the stream \<open>S\<close>: its bytes at its index, marked as the end only at the end.\<close>

definition piece_of :: "bytes \<Rightarrow> bytes \<times> nat \<times> bool \<Rightarrow> bool" where
  "piece_of S p \<longleftrightarrow> (case p of (d, i, e) \<Rightarrow> agrees S i d \<and> (e \<longrightarrow> i + length d = length S))"

locale reassembly =
  fixes inv :: "'s \<Rightarrow> bool"
    and known :: "'s \<Rightarrow> nat set"
    and base :: "'s \<Rightarrow> nat"
    and window :: "'s \<Rightarrow> nat"
    and agree :: "bytes \<Rightarrow> 's \<Rightarrow> bool"
    and fin :: "'s \<Rightarrow> nat option"
    and push :: "bytes \<Rightarrow> nat \<Rightarrow> bool \<Rightarrow> 's \<Rightarrow> exn + 's"
  assumes push_law: "inv s \<Longrightarrow> i + length d < 2 ^ 64 \<Longrightarrow>
    \<exists>s'. push d i e s = Inr s' \<and> inv s' \<and> base s' = base s \<and> window s' = window s \<and>
         known s' = known s \<union> ({i..<i + length d} \<inter> {..<window s}) \<and>
         fin s' = (if e then Some (i + length d) else fin s) \<and>
         (\<forall>S. agrees S i d \<longrightarrow> agree S s \<longrightarrow> agree S s')"
begin

text \<open>The order of the pieces and their repetition do not matter: what is known is their union.\<close>

lemma push_all_law:
  assumes "inv s" and "\<forall>(d, i, e) \<in> set ps. i + length d < 2 ^ 64"
  shows "\<exists>s'. push_all push ps s = Inr s' \<and> inv s' \<and> base s' = base s \<and> window s' = window s \<and>
           known s' = known s \<union> (pieces_set ps \<inter> {..<window s}) \<and>
           (\<forall>S. (\<forall>p \<in> set ps. piece_of S p) \<longrightarrow> agree S s \<longrightarrow> agree S s') \<and>
           (\<forall>S. (\<forall>p \<in> set ps. piece_of S p) \<longrightarrow>
              fin s' = (if \<exists>(d, i, e) \<in> set ps. e then Some (length S) else fin s))"
  using assms
proof (induction ps arbitrary: s)
  case Nil
  then show ?case by (simp add: pieces_set_def)
next
  case (Cons p ps)
  obtain d i e where p: "p = (d, i, e)" by (cases p)
  with Cons.prems obtain s1 where s1: "push d i e s = Inr s1" "inv s1" "window s1 = window s"
    "base s1 = base s"
    "known s1 = known s \<union> ({i..<i + length d} \<inter> {..<window s})"
    "fin s1 = (if e then Some (i + length d) else fin s)"
    "\<forall>S. agrees S i d \<longrightarrow> agree S s \<longrightarrow> agree S s1"
    using push_law [of s i d e] by auto
  obtain s2 where s2: "push_all push ps s1 = Inr s2" "inv s2" "window s2 = window s1"
    "base s2 = base s1"
    "known s2 = known s1 \<union> (pieces_set ps \<inter> {..<window s1})"
    "\<forall>S. (\<forall>p \<in> set ps. piece_of S p) \<longrightarrow> agree S s1 \<longrightarrow> agree S s2"
    "\<forall>S. (\<forall>p \<in> set ps. piece_of S p) \<longrightarrow>
       fin s2 = (if \<exists>(d, i, e) \<in> set ps. e then Some (length S) else fin s1)"
    using Cons.IH [OF s1(2)] Cons.prems(2) by auto
  have "push_all push (p # ps) s = Inr s2" by (simp add: p s1 s2)
  moreover have "known s2 = known s \<union> (pieces_set (p # ps) \<inter> {..<window s})"
    using s1(3,5) s2(5) by (auto simp: p pieces_set_def)
  moreover have "agree S s2" if "\<forall>q \<in> set (p # ps). piece_of S q" "agree S s" for S
    using that s1(7) s2(6) by (auto simp: p piece_of_def)
  moreover have "fin s2 = (if \<exists>(d, i, e) \<in> set (p # ps). e then Some (length S) else fin s)"
    if "\<forall>q \<in> set (p # ps). piece_of S q" for S
    using that s2(7) s1(6) by (auto simp: p piece_of_def)
  moreover have "base s2 = base s" "window s2 = window s" using s1(3,4) s2(3,4) by simp_all
  ultimately show ?case using s2(2) by blast
qed

end

text \<open>
  Between calls nothing that could be written out is waiting, and the output's input has ended
  when the marked end is reached.
\<close>

definition sr_ready :: "StreamReassembler \<Rightarrow> bool" where
  "sr_ready sr \<longleftrightarrow> sr_inv sr \<and> sr_settled sr \<and>
     (\<forall>k. sr_fin sr = Some k \<longrightarrow> k \<le> sr_next_pos sr \<longrightarrow> bs_end_input (sr_output sr))"

interpretation sr: reassembly sr_ready sr_known "\<lambda>sr. bs_bytes_read (sr_output sr)"
  sr_window_end sr_agree sr_fin sr_push_substring
proof (unfold_locales, goal_cases)
  case (1 s i d e)
  then have "sr_inv s" by (simp add: sr_ready_def)
  then show ?case
    using sr_push_substring_spec [OF _ 1(2), of s e] unfolding sr_ready_def by metis
qed

lemma sr_new_inv [simp]:
  "capacity < 2 ^ 64 \<Longrightarrow> sr_inv (StreamReassembler_new capacity)"
  "sr_settled (StreamReassembler_new capacity)"
  by (simp_all add: sr_inv_def sr_settled_def StreamReassembler_new_def bs_inv_new
      sr_window_end_def)

lemma sr_new_simps [simp]:
  "sr_known (StreamReassembler_new c) = {}" "sr_window_end (StreamReassembler_new c) = c"
  "sr_fin (StreamReassembler_new c) = None" "sr_agree S (StreamReassembler_new c)"
  "sr_output (StreamReassembler_new c) = ByteStream_new c"
  "sr_capacity (StreamReassembler_new c) = c" "sr_next_pos (StreamReassembler_new c) = 0"
  by (simp_all add: sr_known_def StreamReassembler_new_def sr_window_end_def sr_fin_def
      sr_agree_def agrees_def)

text \<open>The reader's side: \<^verbatim>\<open>stream_out().read(n)\<close> moves the window forward.\<close>

definition sr_read :: "size_t \<Rightarrow> StreamReassembler \<Rightarrow> exn + bytes \<times> StreamReassembler" where
  "sr_read n sr = bindE (bs_read n (sr_output sr)) (\<lambda>(d, out). Inr (d, sr\<lparr>sr_output := out\<rparr>))"

lemma segs_ok_mono: "segs_ok lo m hi \<Longrightarrow> hi \<le> hi' \<Longrightarrow> segs_ok lo m hi'"
  by (induction lo m hi rule: segs_ok.induct) auto

lemma sr_read_spec:
  assumes "sr_inv sr" and "sr_next_pos sr + sr_capacity sr < 2 ^ 64"
  obtains sr' where "sr_read n sr = Inr (take n (bs_contents (sr_output sr)), sr')"
    and "sr_inv sr'" and "sr_known sr' = sr_known sr" and "sr_capacity sr' = sr_capacity sr"
    and "\<And>S. sr_agree S sr \<Longrightarrow> sr_agree S sr'" and "sr_settled sr' = sr_settled sr"
    and "bs_contents (sr_output sr') = drop n (bs_contents (sr_output sr))"
    and "sr_fin sr' = sr_fin sr" "sr_next_pos sr' = sr_next_pos sr"
    and "bs_end_input (sr_output sr') = bs_end_input (sr_output sr)"
proof -
  note b = sr_inv_bounds [OF assms(1)]
  let ?c = "bs_contents (sr_output sr)"
  obtain out where r: "bs_read n (sr_output sr) = Inr (take n ?c, out)" "bs_inv out"
    "bs_contents out = drop n ?c" "bs_capacity out = bs_capacity (sr_output sr)"
    "bs_bytes_read out = u64 (bs_bytes_read (sr_output sr) + min n (length ?c))"
    "bs_end_input out = bs_end_input (sr_output sr)"
    using bs_read_spec [OF b(1), of n] by metis
  have rd: "bs_bytes_read out = bs_bytes_read (sr_output sr) + min n (length ?c)"
    using r(5) b(7) assms(2) by (simp add: u64_id)
  let ?sr' = "sr\<lparr>sr_output := out\<rparr>"
  have "sr_window_end sr \<le> sr_window_end ?sr'" by (simp add: sr_window_end_def rd)
  then have "sr_inv ?sr'"
    using b r rd assms(2) segs_ok_mono [OF b(5)] by (auto simp: sr_inv_def sr_window_end_def min_def)
  moreover have "sr_agree S ?sr'" if "sr_agree S sr" for S
    using that r(3) rd agrees_drop [of S _ ?c n] by (cases "n \<le> length ?c") (auto simp: sr_agree_def agrees_def)
  ultimately show thesis
    using r b(2) by (intro that [of ?sr']) (auto simp: sr_read_def sr_known_def sr_settled_def sr_fin_def
        split: list.splits)
qed

section \<open>Correctness\<close>

text \<open>C9: pushing a substring never throws and keeps the invariant; the known bytes become the
  union of those known before and those of the substring that lie in the window of \<open>capacity\<close>
  bytes past what was read; the assembled prefix then ends at the least unknown index, every
  waiting byte is counted once, and assembled and waiting bytes together fit in the capacity.\<close>

theorem reassembler_push:
  assumes "sr_inv sr" and "index + length data < 2 ^ 64"
  shows "\<exists>sr'. sr_push_substring data index eof sr = Inr sr' \<and> sr_inv sr' \<and>
     sr_known sr' = sr_known sr \<union> ({index..<index + length data} \<inter>
       {..<bs_bytes_read (sr_output sr) + sr_capacity sr}) \<and>
     sr_next_pos sr' = (LEAST i. i \<notin> sr_known sr') \<and>
     bs_bytes_written (sr_output sr') = sr_next_pos sr' \<and>
     sr_unassembled_bytes sr' = card (sr_known sr' - {..<sr_next_pos sr'}) \<and>
     bs_buffer_size (sr_output sr') + sr_unassembled_bytes sr' \<le> sr_capacity sr'"
proof -
  obtain sr' where "sr_push_substring data index eof sr = Inr sr'" "sr_inv sr'" "sr_settled sr'"
    "sr_known sr' = sr_known sr \<union> ({index..<index + length data} \<inter> {..<sr_window_end sr})"
    using sr_push_substring_spec [OF assms] by metis
  then show ?thesis
    using sr_next_pos_Least sr_unassembled_card sr_capacity_bound sr_inv_bounds(8)
    by (metis sr_window_end_def)
qed

theorem reassembler_push_witness:
  "\<exists>sr'. sr_push_substring [7, 8] 3 False (StreamReassembler_new 4) = Inr sr' \<and>
     sr_known sr' = {3..<5} \<inter> {..<4}"
  using reassembler_push [of "StreamReassembler_new 4" 3 "[7, 8]" False] by auto

text \<open>C10: a stream of at most \<open>capacity\<close> bytes is reassembled completely: whatever the order,
  the overlaps and the repetitions of its pieces, once they cover the stream and its end was
  marked, the output stream holds exactly the stream and its input has ended.\<close>

theorem reassembler_complete:
  assumes "length S \<le> capacity" and "capacity < 2 ^ 64"
    and "\<forall>p \<in> set ps. piece_of S p" and "pieces_set ps = {..<length S}"
    and "\<exists>(d, i, eof) \<in> set ps. eof"
  shows "\<exists>sr'. push_all sr_push_substring ps (StreamReassembler_new capacity) = Inr sr' \<and>
     bs_contents (sr_output sr') = S \<and> bs_input_ended (sr_output sr') \<and> sr_empty sr'"
proof -
  let ?new = "StreamReassembler_new capacity"
  have lim: "\<forall>(d, i, e) \<in> set ps. i + length d < 2 ^ 64"
  proof clarify
    fix d i e assume "(d, i, e) \<in> set ps"
    then have "piece_of S (d, i, e)" using assms(3) by blast
    then show "i + length d < 2 ^ 64" using assms(1,2) by (auto simp: piece_of_def agrees_def)
  qed
  have ready: "sr_ready ?new" using assms(2) by (simp add: sr_ready_def)
  obtain sr' where sr': "push_all sr_push_substring ps ?new = Inr sr'" "sr_ready sr'"
    "bs_bytes_read (sr_output sr') = bs_bytes_read (sr_output ?new)"
    "sr_known sr' = sr_known ?new \<union> (pieces_set ps \<inter> {..<sr_window_end ?new})"
    "sr_agree S sr'" "sr_fin sr' = Some (length S)"
    using sr.push_all_law [OF ready lim] assms(3,5) sr_new_simps(4) by metis
  have known: "sr_known sr' = {..<length S}" using sr'(4) assms(1,4) by (simp add: lessThan_subset_iff Int_absorb2)
  from sr'(2) have inv: "sr_inv sr'" "sr_settled sr'" by (simp_all add: sr_ready_def)
  have np: "sr_next_pos sr' = length S"
    unfolding sr_next_pos_Least [OF inv] known by (rule Least_equality) auto
  then have "length (bs_contents (sr_output sr')) = length S"
    using sr_inv_bounds(7) [OF inv(1)] sr'(3) by simp
  then have "bs_contents (sr_output sr') = S"
    using sr'(3,5) by (simp add: sr_agree_def agrees_def)
  moreover have "bs_input_ended (sr_output sr')"
    using sr'(2,6) np by (simp add: sr_ready_def bs_input_ended_def)
  moreover have "sr_empty sr'"
    using sr_unassembled_card [OF inv(1)] np known by (simp add: sr_empty_def)
  ultimately show ?thesis using sr'(1) by blast
qed

theorem reassembler_complete_witness:
  "\<exists>sr'. push_all sr_push_substring [([2, 3], 1, True), ([1, 2], 0, False)] (StreamReassembler_new 8)
      = Inr sr' \<and> bs_contents (sr_output sr') = [1, 2, 3] \<and> bs_input_ended (sr_output sr') \<and>
     sr_empty sr'"
  by (rule reassembler_complete)
    (auto simp: piece_of_def agrees_def pieces_set_def)

text \<open>
  A run of the reassembler: substrings pushed by the network (\<open>Inl\<close>) and reads by the
  application (\<open>Inr\<close>), in any order; the bytes that the application has read are collected.
\<close>

fun sr_run ::
  "(bytes \<times> nat \<times> bool + nat) list \<Rightarrow> StreamReassembler \<Rightarrow> exn + bytes \<times> StreamReassembler" where
  "sr_run [] sr = Inr ([], sr)"
| "sr_run (Inl (d, i, e) # evs) sr = bindE (sr_push_substring d i e sr) (sr_run evs)"
| "sr_run (Inr n # evs) sr =
     bindE (sr_read n sr) (\<lambda>(d, sr1). bindE (sr_run evs sr1) (\<lambda>(ds, sr2). Inr (d @ ds, sr2)))"

text \<open>The state agrees with the stream \<open>S\<close>, of which only the true end has been marked.\<close>

definition sr_sound :: "bytes \<Rightarrow> StreamReassembler \<Rightarrow> bool" where
  "sr_sound S sr \<longleftrightarrow> sr_inv sr \<and> sr_agree S sr \<and>
     (sr_fin sr = None \<or> sr_fin sr = Some (length S)) \<and>
     (bs_end_input (sr_output sr) \<longrightarrow> sr_next_pos sr = length S)"

lemma sr_agree_next_pos: "sr_inv sr \<Longrightarrow> sr_agree S sr \<Longrightarrow> sr_next_pos sr \<le> length S"
  using sr_inv_bounds(7) [of sr] by (simp add: sr_agree_def agrees_def)

lemma sr_known_mono_next:
  assumes "sr_inv sr'" and "sr_settled sr'" and "sr_known sr \<subseteq> sr_known sr'"
  shows "sr_next_pos sr \<le> sr_next_pos sr'"
  using sr_next_pos_unknown [OF assms(1,2)] assms(3) by (auto simp: sr_known_def not_less subset_iff)

lemma sr_sound_push:
  assumes "sr_sound S sr" and "piece_of S (d, i, e)" and "length S < 2 ^ 64"
  obtains sr' where "sr_push_substring d i e sr = Inr sr'" and "sr_sound S sr'"
    and "sr_capacity sr' = sr_capacity sr"
    and "bs_bytes_read (sr_output sr') = bs_bytes_read (sr_output sr)"
    and "sr_next_pos sr \<le> sr_next_pos sr'"
proof -
  have inv: "sr_inv sr" and pc: "agrees S i d" "e \<longrightarrow> i + length d = length S"
    and lim: "i + length d < 2 ^ 64"
    using assms by (auto simp: sr_sound_def piece_of_def agrees_def)
  obtain sr' where p: "sr_push_substring d i e sr = Inr sr'" "sr_inv sr'" "sr_settled sr'"
    "sr_known sr' = sr_known sr \<union> ({i..<i + length d} \<inter> {..<sr_window_end sr})"
    "\<And>S. agrees S i d \<Longrightarrow> sr_agree S sr \<Longrightarrow> sr_agree S sr'"
    "sr_fin sr' = (if e then Some (i + length d) else sr_fin sr)"
    "bs_end_input (sr_output sr') \<longleftrightarrow> bs_end_input (sr_output sr) \<or>
       (\<exists>k. sr_fin sr' = Some k \<and> k \<le> sr_next_pos sr')"
    "sr_capacity sr' = sr_capacity sr"
    "bs_bytes_read (sr_output sr') = bs_bytes_read (sr_output sr)"
    using sr_push_substring_spec [OF inv lim, of e] by metis
  have ag: "sr_agree S sr'" using p(5) pc(1) assms(1) by (simp add: sr_sound_def)
  have le: "sr_next_pos sr' \<le> length S" using p(2) ag by (rule sr_agree_next_pos)
  have mono: "sr_next_pos sr \<le> sr_next_pos sr'"
    using p(4) by (intro sr_known_mono_next [OF p(2,3)]) auto
  have fin: "sr_fin sr' = None \<or> sr_fin sr' = Some (length S)"
    using p(6) pc(2) assms(1) by (auto simp: sr_sound_def)
  moreover have "sr_next_pos sr' = length S" if "bs_end_input (sr_output sr')"
    using that p(7) fin le mono assms(1) by (auto simp: sr_sound_def)
  ultimately have "sr_sound S sr'" using p(2) ag by (simp add: sr_sound_def)
  then show thesis using p(1,8,9) mono by (intro that)
qed

text \<open>Pushing nothing, wherever it is, changes nothing that matters.\<close>

lemma sr_insert_nothing: "i < 2 ^ 64 \<Longrightarrow> sr_insert_pair [] i sr = Inr sr"
proof -
  assume "i < 2 ^ 64"
  then have "u64 i \<le> sr_new_index i sr"
    by (auto simp: u64_id sr_new_index_def split: option.splits)
  then show ?thesis by (simp add: sr_insert_pair_def)
qed

lemma sr_push_nothing:
  "i < 2 ^ 64 \<Longrightarrow> sr_push_substring [] i False sr = sr_push_substring [] 0 False sr"
  by (simp add: sr_push_substring_def sr_insert_nothing)

lemma sr_sound_read:
  assumes "sr_sound S sr" and "length S + sr_capacity sr < 2 ^ 64"
  obtains d sr' where "sr_read n sr = Inr (d, sr')" and "sr_sound S sr'"
    and "sr_capacity sr' = sr_capacity sr" and "agrees S (bs_bytes_read (sr_output sr)) d"
    and "bs_bytes_read (sr_output sr') = bs_bytes_read (sr_output sr) + length d"
proof -
  let ?c = "bs_contents (sr_output sr)"
  have inv: "sr_inv sr" and ag: "sr_agree S sr" using assms(1) by (simp_all add: sr_sound_def)
  have lim: "sr_next_pos sr + sr_capacity sr < 2 ^ 64"
    using sr_agree_next_pos [OF inv ag] assms(2) by simp
  obtain sr' where r: "sr_read n sr = Inr (take n ?c, sr')" "sr_inv sr'"
    "sr_capacity sr' = sr_capacity sr" "\<And>S. sr_agree S sr \<Longrightarrow> sr_agree S sr'"
    "bs_contents (sr_output sr') = drop n ?c" "sr_fin sr' = sr_fin sr"
    "sr_next_pos sr' = sr_next_pos sr" "bs_end_input (sr_output sr') = bs_end_input (sr_output sr)"
    using sr_read_spec [OF inv lim, of n] by metis
  have "bs_bytes_read (sr_output sr') = bs_bytes_read (sr_output sr) + length (take n ?c)"
    using sr_inv_bounds(7) [OF inv] sr_inv_bounds(7) [OF r(2)] r(5,7) by simp
  moreover have "sr_sound S sr'" using assms(1) r by (simp add: sr_sound_def)
  moreover have "agrees S (bs_bytes_read (sr_output sr)) (take n ?c)"
    using ag by (simp add: sr_agree_def agrees_take)
  ultimately show thesis using r(1,3) by (intro that)
qed

lemma sr_run_prefix:
  assumes "sr_sound S sr" and "length S + sr_capacity sr < 2 ^ 64"
    and "\<forall>p. Inl p \<in> set evs \<longrightarrow> piece_of S p"
  shows "\<exists>ds sr'. sr_run evs sr = Inr (ds, sr') \<and> sr_sound S sr' \<and>
     agrees S (bs_bytes_read (sr_output sr)) ds \<and>
     bs_bytes_read (sr_output sr') = bs_bytes_read (sr_output sr) + length ds"
  using assms
proof (induction evs arbitrary: sr)
  case Nil
  then have "bs_bytes_read (sr_output sr) \<le> length S"
    by (auto simp: sr_sound_def sr_agree_def agrees_def)
  with Nil show ?case by (simp add: agrees_def)
next
  case (Cons ev evs)
  show ?case
  proof (cases ev)
    case (Inl p)
    obtain d i e where p: "p = (d, i, e)" by (cases p)
    have "piece_of S (d, i, e)" "length S < 2 ^ 64" using Cons.prems Inl p by auto
    then obtain sr1 where "sr_push_substring d i e sr = Inr sr1" "sr_sound S sr1"
      "sr_capacity sr1 = sr_capacity sr"
      "bs_bytes_read (sr_output sr1) = bs_bytes_read (sr_output sr)"
      using sr_sound_push [OF Cons.prems(1)] by metis
    then show ?thesis using Cons.IH [of sr1] Cons.prems(2,3) Inl p by auto
  next
    case (Inr n)
    obtain d sr1 where r: "sr_read n sr = Inr (d, sr1)" "sr_sound S sr1"
      "sr_capacity sr1 = sr_capacity sr" "agrees S (bs_bytes_read (sr_output sr)) d"
      "bs_bytes_read (sr_output sr1) = bs_bytes_read (sr_output sr) + length d"
      using sr_sound_read [OF Cons.prems(1,2)] by metis
    then obtain ds sr2 where "sr_run evs sr1 = Inr (ds, sr2)" "sr_sound S sr2"
      "agrees S (bs_bytes_read (sr_output sr1)) ds"
      "bs_bytes_read (sr_output sr2) = bs_bytes_read (sr_output sr1) + length ds"
      using Cons.IH [of sr1] Cons.prems(2,3) by auto
    then show ?thesis using r Inr by (auto intro: agrees_append)
  qed
qed

text \<open>C8: the application reads the stream that was sent: for any interleaving of substrings of
  \<open>S\<close> (lost, reordered, repeated, overlapping) with reads of any size no call throws, the bytes
  read so far are a prefix of \<open>S\<close>, the bytes still buffered continue it, and the output reports
  end of file only when every byte of \<open>S\<close> has been read.\<close>

theorem reassembler_delivers_prefix:
  assumes "length S + capacity < 2 ^ 64" and "\<forall>p. Inl p \<in> set evs \<longrightarrow> piece_of S p"
  shows "\<exists>ds sr'. sr_run evs (StreamReassembler_new capacity) = Inr (ds, sr') \<and>
     prefix (ds @ bs_contents (sr_output sr')) S \<and>
     (bs_eof (sr_output sr') \<longrightarrow> ds = S)"
proof -
  have "sr_sound S (StreamReassembler_new capacity)"
    using assms(1) by (simp add: sr_sound_def)
  then obtain ds sr' where r: "sr_run evs (StreamReassembler_new capacity) = Inr (ds, sr')"
    "sr_sound S sr'" "agrees S 0 ds" "bs_bytes_read (sr_output sr') = length ds"
    using sr_run_prefix [of S "StreamReassembler_new capacity" evs] assms by auto
  then have inv: "sr_inv sr'" and "agrees S (0 + length ds) (bs_contents (sr_output sr'))"
    by (simp_all add: sr_sound_def sr_agree_def)
  then have ag: "agrees S 0 (ds @ bs_contents (sr_output sr'))"
    using r(3) by (intro agrees_append)
  moreover have "ds = S" if "bs_eof (sr_output sr')"
    using that r sr_inv_bounds(7) [OF inv] bs_eof_iff [OF sr_inv_bounds(1) [OF inv]]
    by (auto simp: sr_sound_def agrees_def)
  ultimately show ?thesis
    using r(1) by (metis agrees_eq drop0 take_is_prefix)
qed

theorem reassembler_delivers_prefix_witness:
  "\<exists>ds sr'. sr_run [Inl ([2, 3], 1, True), Inr 5, Inl ([1, 2], 0, False), Inr 2]
      (StreamReassembler_new 8) = Inr (ds, sr') \<and>
     prefix (ds @ bs_contents (sr_output sr')) [1, 2, 3] \<and> (bs_eof (sr_output sr') \<longrightarrow> ds = [1, 2, 3])"
  by (rule reassembler_delivers_prefix) (auto simp: piece_of_def agrees_def)

end
