(* ===== verification/TCP_Receiver.thy ===== *)
theory TCP_Receiver
  imports TCP_Segment Stream_Reassembler
begin

unbundle bit_operations_syntax

text \<open>
  \<^verbatim>\<open>tcp_receiver.hh\<close> and \<^verbatim>\<open>tcp_receiver.cc\<close>: the receiving half of a TCP endpoint. It translates the
  sequence numbers of segments to indices of the byte stream, hands the payloads to the
  reassembler, and computes the acknowledgment number and window size for the peer.
\<close>

section \<open>Model\<close>

record TCPReceiver =
  rx_reassembler :: StreamReassembler
  rx_capacity :: size_t
  rx_syn :: bool
  rx_isn :: WrappingInt32

definition TCPReceiver_new :: "size_t \<Rightarrow> TCPReceiver" where
  "TCPReceiver_new capacity =
     \<lparr>rx_reassembler = StreamReassembler_new capacity, rx_capacity = capacity, rx_syn = False,
      rx_isn = 0\<rparr>"

definition rx_stream_out :: "TCPReceiver \<Rightarrow> ByteStream" where
  "rx_stream_out rx = sr_output (rx_reassembler rx)"

definition rx_segment_received :: "TCPSegment \<Rightarrow> TCPReceiver \<Rightarrow> exn + TCPReceiver" where
  "rx_segment_received seg rx =
     (let header = ts_header seg
      in if \<not> rx_syn rx \<and> \<not> th_syn header then Inr rx
         else
           let rx1 = (if \<not> rx_syn rx then rx\<lparr>rx_syn := True, rx_isn := th_seqno header\<rparr> else rx);
               checkpoint = u64 (bs_bytes_written (rx_stream_out rx1) + 1);
               abs_seqno = unwrap (th_seqno header) (rx_isn rx1) checkpoint;
               stream_index = u64 (sub64 abs_seqno 1 + (if th_syn header then 1 else 0))
           in bindE (sr_push_substring (buf_copy (ts_payload seg)) stream_index (th_fin header)
                       (rx_reassembler rx1))
                (\<lambda>sr. Inr (rx1\<lparr>rx_reassembler := sr\<rparr>)))"

definition rx_ackno :: "TCPReceiver \<Rightarrow> WrappingInt32 option" where
  "rx_ackno rx =
     (if \<not> rx_syn rx then None
      else
        let bytes_written = u64 (bs_bytes_written (rx_stream_out rx) + 1)
        in Some (wi_plus (wi_plus (rx_isn rx) (of_nat bytes_written))
                   (if bs_input_ended (rx_stream_out rx) then 1 else 0)))"

definition rx_window_size :: "TCPReceiver \<Rightarrow> size_t" where
  "rx_window_size rx = bs_remaining_capacity (rx_stream_out rx)"

definition rx_unassembled_bytes :: "TCPReceiver \<Rightarrow> size_t" where
  "rx_unassembled_bytes rx = sr_unassembled_bytes (rx_reassembler rx)"

text \<open>The application's read from \<^verbatim>\<open>stream_out()\<close>.\<close>

definition rx_read :: "size_t \<Rightarrow> TCPReceiver \<Rightarrow> exn + bytes \<times> TCPReceiver" where
  "rx_read n rx =
     bindE (sr_read n (rx_reassembler rx)) (\<lambda>(d, sr). Inr (d, rx\<lparr>rx_reassembler := sr\<rparr>))"

section \<open>States of a receiver of a stream\<close>

definition rx_sound :: "bytes \<Rightarrow> WrappingInt32 \<Rightarrow> TCPReceiver \<Rightarrow> bool" where
  "rx_sound S isn rx \<longleftrightarrow>
     sr_sound S (rx_reassembler rx) \<and> sr_capacity (rx_reassembler rx) = rx_capacity rx \<and>
     (if rx_syn rx then rx_isn rx = isn
      else sr_next_pos (rx_reassembler rx) = 0 \<and> \<not> bs_end_input (rx_stream_out rx))"

declare rx_sound_def [inv_defs]

text \<open>The absolute acknowledgment number: SYN, the assembled bytes, and the FIN once reached.\<close>

definition rx_abs_ackno :: "TCPReceiver \<Rightarrow> nat" where
  "rx_abs_ackno rx =
     (if \<not> rx_syn rx then 0
      else sr_next_pos (rx_reassembler rx) + 1 + (if bs_end_input (rx_stream_out rx) then 1 else 0))"

lemma rx_sound_new: "capacity < 2 ^ 64 \<Longrightarrow> rx_sound S isn (TCPReceiver_new capacity)"
  by (simp add: rx_sound_def sr_sound_def TCPReceiver_new_def rx_stream_out_def)

lemma rx_sound_sr: "rx_sound S isn rx \<Longrightarrow> sr_sound S (rx_reassembler rx)"
  by (simp add: rx_sound_def)

lemma rx_next_pos_le: "rx_sound S isn rx \<Longrightarrow> sr_next_pos (rx_reassembler rx) \<le> length S"
  by (auto simp: rx_sound_def sr_sound_def intro: sr_agree_next_pos)

lemma rx_bytes_written:
  "rx_sound S isn rx \<Longrightarrow> bs_bytes_written (rx_stream_out rx) = sr_next_pos (rx_reassembler rx)"
  using sr_inv_bounds(8) [of "rx_reassembler rx"] by (simp add: rx_sound_def sr_sound_def rx_stream_out_def)

lemma rx_ackno_eq:
  assumes "rx_sound S isn rx"
  shows "rx_ackno rx = (if rx_syn rx then Some (wrap (rx_abs_ackno rx) isn) else None)"
  using assms rx_bytes_written [OF assms]
  by (simp add: rx_ackno_def rx_abs_ackno_def rx_sound_def wrap_def wi_plus_def of_nat_u64 Let_def
      bs_input_ended_def)

lemma stream_index_eq:
  assumes "if syn then n = 0 else 1 \<le> n" and "n < 2 ^ 64"
  shows "u64 (sub64 n 1 + (if syn then 1 else 0)) = n - 1"
proof (cases syn)
  case True
  then show ?thesis using assms by (simp add: sub64_def u64_def)
next
  case False
  then show ?thesis using assms by (simp add: sub64_id u64_id)
qed

text \<open>A segment of the stream within \<open>2 ^ 31\<close> of the receiver's position is understood rightly.\<close>

lemma rx_segment_received_spec:
  assumes "rx_sound S isn rx" and "carries S isn n seg" and "length S + 2 ^ 33 < 2 ^ 64"
    and "rx_syn rx \<longrightarrow> n < sr_next_pos (rx_reassembler rx) + 1 + 2 ^ 31"
    and "rx_syn rx \<longrightarrow> sr_next_pos (rx_reassembler rx) + 1 \<le> n + 2 ^ 31"
  obtains rx' where "rx_segment_received seg rx = Inr rx'" and "rx_sound S isn rx'"
    and "rx_capacity rx' = rx_capacity rx"
    and "bs_bytes_read (rx_stream_out rx') = bs_bytes_read (rx_stream_out rx)"
    and "rx_syn rx' \<longleftrightarrow> rx_syn rx \<or> th_syn (ts_header seg)"
    and "rx_abs_ackno rx \<le> rx_abs_ackno rx'"
    and "rx_syn rx' \<Longrightarrow> sr_push_substring (buf_str (ts_payload seg)) (n - 1)
           (th_fin (ts_header seg)) (rx_reassembler rx) = Inr (rx_reassembler rx')"
proof (cases "\<not> rx_syn rx \<and> \<not> th_syn (ts_header seg)")
  case True
  then show thesis using assms(1) by (intro that [of rx]) (simp_all add: rx_segment_received_def)
next
  case go: False
  let ?sr = "rx_reassembler rx"
  define rx1 where
    "rx1 = (if \<not> rx_syn rx then rx\<lparr>rx_syn := True, rx_isn := th_seqno (ts_header seg)\<rparr> else rx)"
  have c: "th_seqno (ts_header seg) = wrap n isn" "if th_syn (ts_header seg) then n = 0 else 1 \<le> n"
    "agrees S (n - 1) (buf_str (ts_payload seg)) \<or>
     ts_length_in_sequence_space seg = 0 \<and> n \<le> length S + 2"
    "th_fin (ts_header seg) \<longrightarrow> n - 1 + length (buf_str (ts_payload seg)) = length S"
    using assms(2) unfolding carries_def by blast+
  have lim: "n - 1 + length (buf_str (ts_payload seg)) \<le> length S + 1"
    using c(3) by (auto simp: agrees_def ts_length_in_sequence_space_def)
  have rx1: "rx_reassembler rx1 = ?sr" "rx_isn rx1 = isn" "rx_syn rx1" "rx_capacity rx1 = rx_capacity rx"
    using assms(1) c(1,2) go by (auto simp: rx1_def rx_sound_def wrap_def wi_plus_def)
  have n: "n \<le> length S + 2" using lim by simp
  have "unwrap (wrap n isn) isn (u64 (sr_next_pos ?sr + 1)) = n"
  proof (rule unwrap_near [OF _ _ _ refl])
    have np: "sr_next_pos ?sr + 1 < 2 ^ 64" using rx_next_pos_le [OF assms(1)] assms(3) by simp
    show "n + 2 ^ 32 < 2 ^ 64" using n assms(3) by simp
    show "n < u64 (sr_next_pos ?sr + 1) + 2 ^ 31" "u64 (sr_next_pos ?sr + 1) \<le> n + 2 ^ 31"
      using assms(1,4,5) c(2) go np by (auto simp: u64_id rx_sound_def split: if_splits)
  qed
  then have idx: "u64 (sub64 (unwrap (th_seqno (ts_header seg)) (rx_isn rx1)
      (u64 (bs_bytes_written (rx_stream_out rx1) + 1))) 1 + (if th_syn (ts_header seg) then 1 else 0)) = n - 1"
    using rx_bytes_written [OF assms(1)] rx1 c(1,2) n assms(3) stream_index_eq [of _ n]
    by (simp add: rx_stream_out_def)
  obtain sr' where p: "sr_push_substring (buf_str (ts_payload seg)) (n - 1)
      (th_fin (ts_header seg)) ?sr = Inr sr'" "sr_sound S sr'" "sr_capacity sr' = sr_capacity ?sr"
    "bs_bytes_read (sr_output sr') = bs_bytes_read (sr_output ?sr)" "sr_next_pos ?sr \<le> sr_next_pos sr'"
  proof -
    define i where "i = (if ts_length_in_sequence_space seg = 0 then 0 else n - 1)"
    have "sr_push_substring (buf_str (ts_payload seg)) (n - 1) (th_fin (ts_header seg)) ?sr =
        sr_push_substring (buf_str (ts_payload seg)) i (th_fin (ts_header seg)) ?sr"
      using sr_push_nothing [of "n - 1" ?sr] n assms(3)
      by (auto simp: i_def ts_length_in_sequence_space_def split: if_splits)
    moreover have "piece_of S (buf_str (ts_payload seg), i, th_fin (ts_header seg))"
      using c(3,4) by (auto simp: i_def piece_of_def ts_length_in_sequence_space_def agrees_def
          split: if_splits)
    moreover have "length S < 2 ^ 64" using assms(3) by simp
    ultimately show thesis
      using sr_sound_push [OF rx_sound_sr [OF assms(1)]] that by metis
  qed
  have end_mono: "bs_end_input (sr_output sr')" if "bs_end_input (sr_output ?sr)"
  proof -
    have "sr_inv ?sr" "n - 1 + length (buf_str (ts_payload seg)) < 2 ^ 64"
      using rx_sound_sr [OF assms(1)] lim assms(3) by (auto simp: sr_sound_def)
    from sr_push_substring_spec [OF this, of "th_fin (ts_header seg)"] p(1) that show ?thesis
      by (metis Inr_inject)
  qed
  let ?rx' = "rx1\<lparr>rx_reassembler := sr'\<rparr>"
  have "rx_segment_received seg rx = Inr ?rx'"
    using go p(1) rx1(1) idx
    by (auto simp: rx_segment_received_def buf_copy_def Let_def simp flip: rx1_def)
  moreover have "rx_sound S isn ?rx'"
    using assms(1) p rx1 by (simp add: rx_sound_def)
  moreover have "rx_abs_ackno rx \<le> rx_abs_ackno ?rx'"
    using p(5) rx1(3) end_mono by (simp add: rx_abs_ackno_def rx_stream_out_def)
  ultimately show thesis
    using rx1 p go by (intro that [of ?rx']) (auto simp: rx_stream_out_def)
qed

lemma rx_read_spec:
  assumes "rx_sound S isn rx" and "length S + rx_capacity rx < 2 ^ 64"
  obtains d rx' where "rx_read n rx = Inr (d, rx')" and "rx_sound S isn rx'"
    and "rx_capacity rx' = rx_capacity rx" and "agrees S (bs_bytes_read (rx_stream_out rx)) d"
    and "bs_bytes_read (rx_stream_out rx') = bs_bytes_read (rx_stream_out rx) + length d"
    and "rx_abs_ackno rx' = rx_abs_ackno rx"
proof -
  let ?sr = "rx_reassembler rx"
  have cap: "length S + sr_capacity ?sr < 2 ^ 64" using assms by (simp add: rx_sound_def)
  obtain d sr' where r: "sr_read n ?sr = Inr (d, sr')" "sr_sound S sr'" "sr_capacity sr' = sr_capacity ?sr"
    "agrees S (bs_bytes_read (sr_output ?sr)) d"
    "bs_bytes_read (sr_output sr') = bs_bytes_read (sr_output ?sr) + length d"
    by (rule sr_sound_read [OF rx_sound_sr [OF assms(1)] cap])
  have "sr_inv ?sr" "sr_next_pos ?sr + sr_capacity ?sr < 2 ^ 64"
    using assms rx_next_pos_le [OF assms(1)] by (auto simp: rx_sound_def sr_sound_def)
  from sr_read_spec [OF this, of n] r(1)
  have same: "sr_next_pos sr' = sr_next_pos ?sr" "bs_end_input (sr_output sr') = bs_end_input (sr_output ?sr)"
    by (metis Inr_inject prod.inject)+
  let ?rx' = "rx\<lparr>rx_reassembler := sr'\<rparr>"
  have "rx_sound S isn ?rx'" using assms(1) r same by (auto simp: rx_sound_def rx_stream_out_def split: if_splits)
  moreover have "rx_abs_ackno ?rx' = rx_abs_ackno rx"
    using same by (simp add: rx_abs_ackno_def rx_stream_out_def)
  ultimately show thesis
    using r by (intro that [of d ?rx']) (simp_all add: rx_read_def rx_stream_out_def)
qed

section \<open>Correctness\<close>

text \<open>One segment. In any state that a receiver of the stream \<open>S\<close> can be in, a segment of \<open>S\<close>
  whose absolute sequence number is within \<open>2 ^ 31\<close> of the receiver's position is taken in without
  an exception: its bytes reach the reassembler at their place in the stream (or the segment is
  dropped, before the SYN), the state stays sound, the acknowledgment number never goes back and
  is the wrapped number of the first byte the receiver still wants, and the window size is the
  room left in the output stream.\<close>

theorem receiver_segment:
  assumes "rx_sound S isn rx" and "carries S isn n seg" and "length S + 2 ^ 33 < 2 ^ 64"
    and "rx_syn rx \<longrightarrow> n < sr_next_pos (rx_reassembler rx) + 1 + 2 ^ 31 \<and>
                     sr_next_pos (rx_reassembler rx) + 1 \<le> n + 2 ^ 31"
  shows "\<exists>rx'. rx_segment_received seg rx = Inr rx' \<and> rx_sound S isn rx' \<and>
    (rx_syn rx' \<longleftrightarrow> rx_syn rx \<or> th_syn (ts_header seg)) \<and>
    (rx_syn rx' \<longrightarrow> sr_push_substring (buf_copy (ts_payload seg)) (n - 1) (th_fin (ts_header seg))
                      (rx_reassembler rx) = Inr (rx_reassembler rx')) \<and>
    rx_abs_ackno rx \<le> rx_abs_ackno rx' \<and>
    rx_ackno rx' = (if rx_syn rx' then Some (wrap (rx_abs_ackno rx') isn) else None) \<and>
    rx_window_size rx' = rx_capacity rx' - length (bs_contents (rx_stream_out rx'))"
proof -
  obtain rx' where rx': "rx_segment_received seg rx = Inr rx'" "rx_sound S isn rx'"
    "rx_syn rx' \<longleftrightarrow> rx_syn rx \<or> th_syn (ts_header seg)" "rx_abs_ackno rx \<le> rx_abs_ackno rx'"
    "rx_syn rx' \<Longrightarrow> sr_push_substring (buf_str (ts_payload seg)) (n - 1)
       (th_fin (ts_header seg)) (rx_reassembler rx) = Inr (rx_reassembler rx')"
    using rx_segment_received_spec [OF assms(1-3)] assms(4) by metis
  moreover have "rx_window_size rx' = rx_capacity rx' - length (bs_contents (rx_stream_out rx'))"
  proof -
    have "sr_inv (rx_reassembler rx')" "sr_capacity (rx_reassembler rx') = rx_capacity rx'"
      using rx'(2) by (simp_all add: rx_sound_def sr_sound_def)
    with sr_inv_bounds(2,9,10) [OF this(1)] show ?thesis
      using bs_inv_remaining [OF sr_inv_bounds(1)]
      by (simp add: rx_window_size_def rx_stream_out_def)
  qed
  ultimately show ?thesis
    using rx_ackno_eq [OF rx'(2)] by (auto simp: buf_copy_def)
qed

theorem receiver_segment_witness:
  "\<exists>rx'. rx_segment_received
      \<lparr>ts_header = TCPHeader_new\<lparr>th_syn := True, th_seqno := 4294967295\<rparr>, ts_payload = buf_of_string [7]\<rparr>
      (TCPReceiver_new 10) = Inr rx' \<and> rx_ackno rx' = Some (wrap (rx_abs_ackno rx') 4294967295)"
proof -
  let ?seg = "\<lparr>ts_header = TCPHeader_new\<lparr>th_syn := True, th_seqno := 4294967295\<rparr>,
    ts_payload = buf_of_string [7]\<rparr>"
  have 1: "rx_sound [7, 8] 4294967295 (TCPReceiver_new 10)" by (rule rx_sound_new) simp
  have 2: "carries [7, 8] 4294967295 0 ?seg"
    by (simp add: carries_def wrap_def wi_plus_def TCPHeader_new_def agrees_def)
  have 3: "\<not> rx_syn (TCPReceiver_new 10)" by (simp add: TCPReceiver_new_def)
  show ?thesis using receiver_segment [OF 1 2] 3 by (auto simp: TCPHeader_new_def)
qed

text \<open>A run of the receiver: segments from the network (\<open>Inl\<close>) and reads (\<open>Inr\<close>), in any order.\<close>

fun rx_run :: "(TCPSegment + nat) list \<Rightarrow> TCPReceiver \<Rightarrow> exn + bytes \<times> TCPReceiver" where
  "rx_run [] rx = Inr ([], rx)"
| "rx_run (Inl seg # evs) rx = bindE (rx_segment_received seg rx) (rx_run evs)"
| "rx_run (Inr n # evs) rx =
     bindE (rx_read n rx) (\<lambda>(d, rx1). bindE (rx_run evs rx1) (\<lambda>(ds, rx2). Inr (d @ ds, rx2)))"

lemma rx_run_prefix:
  assumes "rx_sound S isn rx" and "length S + 2 < 2 ^ 31" and "length S + rx_capacity rx < 2 ^ 64"
    and "\<forall>seg. Inl seg \<in> set evs \<longrightarrow> (\<exists>n. carries S isn n seg)"
  shows "\<exists>ds rx'. rx_run evs rx = Inr (ds, rx') \<and> rx_sound S isn rx' \<and>
     agrees S (bs_bytes_read (rx_stream_out rx)) ds \<and>
     bs_bytes_read (rx_stream_out rx') = bs_bytes_read (rx_stream_out rx) + length ds"
  using assms
proof (induction evs arbitrary: rx)
  case Nil
  then have "bs_bytes_read (rx_stream_out rx) \<le> length S"
    by (auto simp: rx_sound_def sr_sound_def sr_agree_def agrees_def rx_stream_out_def)
  with Nil show ?case by (simp add: agrees_def)
next
  case (Cons ev evs)
  show ?case
  proof (cases ev)
    case (Inl seg)
    then obtain n where n: "carries S isn n seg" using Cons.prems(4) by auto
    have "n \<le> length S + 2" using n by (auto simp: carries_def agrees_def)
    moreover have "sr_next_pos (rx_reassembler rx) \<le> length S" by (rule rx_next_pos_le [OF Cons.prems(1)])
    ultimately have near: "rx_syn rx \<longrightarrow> n < sr_next_pos (rx_reassembler rx) + 1 + 2 ^ 31"
      "rx_syn rx \<longrightarrow> sr_next_pos (rx_reassembler rx) + 1 \<le> n + 2 ^ 31" "length S + 2 ^ 33 < 2 ^ 64"
      using Cons.prems(2) by simp_all
    obtain rx1 where "rx_segment_received seg rx = Inr rx1" "rx_sound S isn rx1"
      "rx_capacity rx1 = rx_capacity rx"
      "bs_bytes_read (rx_stream_out rx1) = bs_bytes_read (rx_stream_out rx)"
      using rx_segment_received_spec [OF Cons.prems(1) n near(3,1,2)] by metis
    then show ?thesis using Cons.IH [of rx1] Cons.prems(2-4) Inl by auto
  next
    case (Inr n)
    obtain d rx1 where r: "rx_read n rx = Inr (d, rx1)" "rx_sound S isn rx1"
      "rx_capacity rx1 = rx_capacity rx" "agrees S (bs_bytes_read (rx_stream_out rx)) d"
      "bs_bytes_read (rx_stream_out rx1) = bs_bytes_read (rx_stream_out rx) + length d"
      using rx_read_spec [OF Cons.prems(1,3)] by metis
    then obtain ds rx2 where "rx_run evs rx1 = Inr (ds, rx2)" "rx_sound S isn rx2"
      "agrees S (bs_bytes_read (rx_stream_out rx1)) ds"
      "bs_bytes_read (rx_stream_out rx2) = bs_bytes_read (rx_stream_out rx1) + length ds"
      using Cons.IH [of rx1] Cons.prems(2-4) by auto
    then show ?thesis using r Inr by (auto intro: agrees_append)
  qed
qed

text \<open>C17: the receiving side delivers the sender's stream. For any interleaving of segments of the
  stream \<open>S\<close> (lost, repeated, reordered, overlapping, before or after the SYN) with reads, on a new
  receiver and for any initial sequence number, nothing throws, the bytes read are a prefix of
  \<open>S\<close>, and end of file is reported only when all of \<open>S\<close> was read.\<close>

theorem receiver_delivers_prefix:
  assumes "length S + 2 < 2 ^ 31" and "length S + capacity < 2 ^ 64"
    and "\<forall>seg. Inl seg \<in> set evs \<longrightarrow> (\<exists>n. carries S isn n seg)"
  shows "\<exists>ds rx'. rx_run evs (TCPReceiver_new capacity) = Inr (ds, rx') \<and>
     prefix (ds @ bs_contents (rx_stream_out rx')) S \<and> (bs_eof (rx_stream_out rx') \<longrightarrow> ds = S)"
proof -
  let ?rx = "TCPReceiver_new capacity"
  have rx: "rx_sound S isn ?rx" "rx_capacity ?rx = capacity" "bs_bytes_read (rx_stream_out ?rx) = 0"
    using assms(2) by (simp_all add: rx_sound_new) (simp_all add: TCPReceiver_new_def rx_stream_out_def)
  obtain ds rx' where r: "rx_run evs ?rx = Inr (ds, rx')" "rx_sound S isn rx'" "agrees S 0 ds"
    "bs_bytes_read (rx_stream_out rx') = length ds"
    using rx_run_prefix [OF rx(1) assms(1) _ assms(3)] rx(2,3) assms(2) by auto
  then have sr: "sr_sound S (rx_reassembler rx')" by (simp add: rx_sound_def)
  then have inv: "sr_inv (rx_reassembler rx')"
    and "agrees S (0 + length ds) (bs_contents (rx_stream_out rx'))"
    using r(4) by (simp_all add: sr_sound_def sr_agree_def rx_stream_out_def)
  then have "agrees S 0 (ds @ bs_contents (rx_stream_out rx'))"
    using r(3) by (intro agrees_append)
  moreover have "ds = S" if "bs_eof (rx_stream_out rx')"
    using that r(3,4) sr sr_inv_bounds(7) [OF inv] bs_eof_iff [OF sr_inv_bounds(1) [OF inv]]
    by (auto simp: sr_sound_def agrees_def rx_stream_out_def)
  ultimately show ?thesis
    using r(1) by (metis agrees_eq drop0 take_is_prefix)
qed

theorem receiver_delivers_prefix_witness:
  "\<exists>ds rx'. rx_run
      [Inl \<lparr>ts_header = TCPHeader_new\<lparr>th_fin := True, th_seqno := 1\<rparr>, ts_payload = buf_of_string [8]\<rparr>,
       Inl \<lparr>ts_header = TCPHeader_new\<lparr>th_syn := True, th_seqno := 4294967295\<rparr>, ts_payload = buf_of_string [7]\<rparr>,
       Inr 5] (TCPReceiver_new 10) = Inr (ds, rx') \<and> prefix (ds @ bs_contents (rx_stream_out rx')) [7, 8]"
proof -
  let ?a = "\<lparr>ts_header = TCPHeader_new\<lparr>th_fin := True, th_seqno := 1\<rparr>, ts_payload = buf_of_string [8]\<rparr>"
  let ?b = "\<lparr>ts_header = TCPHeader_new\<lparr>th_syn := True, th_seqno := 4294967295\<rparr>,
    ts_payload = buf_of_string [7]\<rparr>"
  have "carries [7, 8] 4294967295 2 ?a" "carries [7, 8] 4294967295 0 ?b"
    by (simp_all add: carries_def wrap_def wi_plus_def TCPHeader_new_def agrees_def)
  then show ?thesis
    using receiver_delivers_prefix [of "[7, 8]" 10 "[Inl ?a, Inl ?b, Inr 5]" 4294967295] by auto
qed

text \<open>
  A segment without SYN whose sequence number is the initial one has the absolute number 0, and
  its stream index wraps to \<open>2 ^ 64 - 1\<close>.
\<close>

lemma sr_new_index_top:
  assumes "T + 1 = 2 ^ 64" and "sr_next_pos sr < 2 ^ 64"
  shows "sr_new_index T sr = T"
proof -
  have "\<not> T < u64 n" for n using u64_less [of n] assms(1) by linarith
  moreover have "\<not> T < sr_next_pos sr" using assms by linarith
  ultimately show ?thesis by (auto simp: sr_new_index_def split: option.splits)
qed

lemma sr_push_top:
  assumes "sr_inv sr" and "length d = Suc k" and "k \<le> sr_next_pos sr" and "sr_next_pos sr < 2 ^ 64"
    and T: "T + 1 = 2 ^ 64"
  shows "\<exists>sr'. sr_push_substring d T True sr = Inr sr' \<and> bs_end_input (sr_output sr') \<and>
    sr_known sr' = sr_known sr"
proof -
  have "T + length d = 2 ^ 64 + k" using T assms(2) by simp
  then have len: "u64 (T + length d) = k" using assms(3,4) by (simp add: u64_def)
  have "k \<le> T" using assms(3,4) T by linarith
  then have "sr_insert_pair d T sr = Inr sr"
    using len by (simp add: sr_insert_pair_def sr_new_index_top [OF T assms(4)] Let_def)
  moreover have w: "sr_inserted [] 0 sr (sr_write_output sr)" "sr_settled (sr_write_output sr)"
    using sr_write_output_spec [OF assms(1)] by simp_all
  then have "sr_next_pos sr \<le> sr_next_pos (sr_write_output sr)"
    by (intro sr_known_mono_next) (auto simp: sr_inserted_def)
  ultimately show ?thesis
    using len w(1) assms(3) unfolding sr_push_substring_def
    by (simp add: Let_def sr_known_def sr_inserted_def)
qed

text \<open>C18: a stray FIN ends the stream too early. When a receiver that has received its SYN (and assembles a stream of less
  than \<open>2 ^ 31\<close> bytes) is given a segment that carries the initial sequence
  number but no SYN, with FIN set and between one byte and one more than the number
  of bytes assembled so far, its end of stream wraps around to an index that was already
  reached: the output's input is ended although nothing new was received. (A FIN without a payload does not do this: its
  end is \<open>2 ^ 64 - 1\<close>.)\<close>

theorem receiver_stray_fin:
  assumes "rx_sound S isn rx" and "rx_syn rx" and "length S + 1 < 2 ^ 31"
    and "th_seqno (ts_header seg) = isn" and "\<not> th_syn (ts_header seg)" and "th_fin (ts_header seg)"
    and "0 < length (buf_copy (ts_payload seg))"
    and "length (buf_copy (ts_payload seg)) \<le> sr_next_pos (rx_reassembler rx) + 1"
  shows "\<exists>rx'. rx_segment_received seg rx = Inr rx' \<and> bs_input_ended (rx_stream_out rx') \<and>
    sr_known (rx_reassembler rx') = sr_known (rx_reassembler rx)"
proof -
  let ?sr = "rx_reassembler rx"
  obtain k where k: "length (buf_copy (ts_payload seg)) = Suc k" "k \<le> sr_next_pos ?sr"
    using assms(7,8) by (cases "length (buf_copy (ts_payload seg))") auto
  have np: "sr_next_pos ?sr \<le> length S" "sr_inv ?sr"
    using rx_next_pos_le [OF assms(1)] assms(1) by (simp_all add: rx_sound_def sr_sound_def)
  then have lt: "sr_next_pos ?sr < 2 ^ 64" using assms(3) by simp
  have "unwrap isn isn (u64 (sr_next_pos ?sr + 1)) = 0"
    using np(1) assms(3) by (intro unwrap_near) (simp_all add: u64_id wrap_def wi_plus_def)
  moreover obtain sr' where "sr_push_substring (buf_copy (ts_payload seg)) (2 ^ 64 - 1) True ?sr = Inr sr'"
    "bs_end_input (sr_output sr')" "sr_known sr' = sr_known ?sr"
    using sr_push_top [OF np(2) k lt, of "2 ^ 64 - 1"] by auto
  moreover have "u64 (sub64 0 1) = 2 ^ 64 - 1" by (simp add: u64_def sub64_def)
  moreover have "rx_isn rx = isn" using assms(1,2) by (simp add: rx_sound_def)
  ultimately show ?thesis
    using assms(2,4-6) rx_bytes_written [OF assms(1)]
    by (simp add: rx_segment_received_def Let_def bs_input_ended_def rx_stream_out_def)
qed

theorem receiver_stray_fin_witness:
  "\<exists>rx'. rx_segment_received
      \<lparr>ts_header = TCPHeader_new\<lparr>th_fin := True, th_seqno := 3\<rparr>, ts_payload = buf_of_string [7]\<rparr>
      ((TCPReceiver_new 10)\<lparr>rx_syn := True, rx_isn := 3\<rparr>) = Inr rx' \<and> bs_input_ended (rx_stream_out rx')"
proof -
  let ?rx = "(TCPReceiver_new 10)\<lparr>rx_syn := True, rx_isn := 3\<rparr>"
  have 1: "rx_sound [] 3 ?rx" "sr_next_pos (rx_reassembler ?rx) = 0"
    by (simp_all add: rx_sound_def sr_sound_def TCPReceiver_new_def rx_stream_out_def)
  show ?thesis
    using receiver_stray_fin [OF 1(1), of "\<lparr>ts_header = TCPHeader_new\<lparr>th_fin := True, th_seqno := 3\<rparr>,
      ts_payload = buf_of_string [7]\<rparr>"] 1(2)
    by (auto simp: TCPHeader_new_def buf_copy_def)
qed

end
