(* ===== verification/TCP_State.thy ===== *)
theory TCP_State
  imports TCP_Sender TCP_Receiver
begin

text \<open>
  \<^verbatim>\<open>tcp_helpers/tcp_state.hh\<close> and \<^verbatim>\<open>tcp_state.cc\<close>: the summary of a connection that is compared with
  the official states of the TCP specification. The two halves are summarised as strings.
\<close>

section \<open>Model\<close>

record TCPState =
  st_sender :: string
  st_receiver :: string
  st_active :: bool
  st_linger_after_streams_finish :: bool

datatype State =
    LISTEN | SYN_RCVD | SYN_SENT | ESTABLISHED | CLOSE_WAIT | LAST_ACK | FIN_WAIT_1 | FIN_WAIT_2
  | CLOSING | TIME_WAIT | CLOSED | RESET

text \<open>The constants of \<^verbatim>\<open>namespace TCPReceiverStateSummary\<close> and \<^verbatim>\<open>TCPSenderStateSummary\<close>.\<close>

definition rx_ERROR :: string where
  "rx_ERROR = ''error (connection was reset)''"

definition rx_LISTEN :: string where
  "rx_LISTEN = ''waiting for SYN: ackno is empty''"

definition rx_SYN_RECV :: string where
  "rx_SYN_RECV = ''SYN received (ackno exists), and input to stream hasn't ended''"

definition rx_FIN_RECV :: string where
  "rx_FIN_RECV = ''input to stream has ended''"

definition tx_ERROR :: string where
  "tx_ERROR = ''error (connection was reset)''"

definition tx_CLOSED :: string where
  "tx_CLOSED = ''waiting for stream to begin (no SYN sent)''"

definition tx_SYN_SENT :: string where
  "tx_SYN_SENT = ''stream started but nothing acknowledged''"

definition tx_SYN_ACKED :: string where
  "tx_SYN_ACKED = ''stream ongoing''"

definition tx_FIN_SENT :: string where
  "tx_FIN_SENT = ''stream finished (FIN sent) but not fully acknowledged''"

definition tx_FIN_ACKED :: string where
  "tx_FIN_ACKED = ''stream finished and fully acknowledged''"

definition st_equal :: "TCPState \<Rightarrow> TCPState \<Rightarrow> bool" where
  "st_equal s other \<longleftrightarrow>
     st_active s = st_active other \<and>
     st_linger_after_streams_finish s = st_linger_after_streams_finish other \<and>
     st_sender s = st_sender other \<and> st_receiver s = st_receiver other"

definition st_not_equal :: "TCPState \<Rightarrow> TCPState \<Rightarrow> bool" where
  "st_not_equal s other \<longleftrightarrow> \<not> st_equal s other"

text \<open>\<^verbatim>\<open>std::to_string\<close> of a \<^verbatim>\<open>bool\<close>, promoted to \<^verbatim>\<open>int\<close>.\<close>

definition st_bool :: "bool \<Rightarrow> string" where
  "st_bool b = (if b then ''1'' else ''0'')"

definition st_name :: "TCPState \<Rightarrow> string" where
  "st_name s =
     ''sender=`'' @ st_sender s @ ''`, receiver=`'' @ st_receiver s @ ''`, active='' @
     st_bool (st_active s) @ '', linger_after_streams_finish='' @
     st_bool (st_linger_after_streams_finish s)"

definition TCPState_of_state :: "State \<Rightarrow> TCPState" where
  "TCPState_of_state state =
     (let s = \<lparr>st_sender = [], st_receiver = [], st_active = True,
               st_linger_after_streams_finish = True\<rparr>
      in case state of
           LISTEN \<Rightarrow> s\<lparr>st_receiver := rx_LISTEN, st_sender := tx_CLOSED\<rparr>
         | SYN_RCVD \<Rightarrow> s\<lparr>st_receiver := rx_SYN_RECV, st_sender := tx_SYN_SENT\<rparr>
         | SYN_SENT \<Rightarrow> s\<lparr>st_receiver := rx_LISTEN, st_sender := tx_SYN_SENT\<rparr>
         | ESTABLISHED \<Rightarrow> s\<lparr>st_receiver := rx_SYN_RECV, st_sender := tx_SYN_ACKED\<rparr>
         | CLOSE_WAIT \<Rightarrow> s\<lparr>st_receiver := rx_FIN_RECV, st_sender := tx_SYN_ACKED,
                          st_linger_after_streams_finish := False\<rparr>
         | LAST_ACK \<Rightarrow> s\<lparr>st_receiver := rx_FIN_RECV, st_sender := tx_FIN_SENT,
                        st_linger_after_streams_finish := False\<rparr>
         | CLOSING \<Rightarrow> s\<lparr>st_receiver := rx_FIN_RECV, st_sender := tx_FIN_SENT\<rparr>
         | FIN_WAIT_1 \<Rightarrow> s\<lparr>st_receiver := rx_SYN_RECV, st_sender := tx_FIN_SENT\<rparr>
         | FIN_WAIT_2 \<Rightarrow> s\<lparr>st_receiver := rx_SYN_RECV, st_sender := tx_FIN_ACKED\<rparr>
         | TIME_WAIT \<Rightarrow> s\<lparr>st_receiver := rx_FIN_RECV, st_sender := tx_FIN_ACKED\<rparr>
         | RESET \<Rightarrow> s\<lparr>st_receiver := rx_ERROR, st_sender := tx_ERROR,
                     st_linger_after_streams_finish := False, st_active := False\<rparr>
         | CLOSED \<Rightarrow> s\<lparr>st_receiver := rx_FIN_RECV, st_sender := tx_FIN_ACKED,
                      st_linger_after_streams_finish := False, st_active := False\<rparr>)"

definition rx_state_summary :: "TCPReceiver \<Rightarrow> string" where
  "rx_state_summary rx =
     (if bs_error (rx_stream_out rx) then rx_ERROR
      else if rx_ackno rx = None then rx_LISTEN
      else if bs_input_ended (rx_stream_out rx) then rx_FIN_RECV
      else rx_SYN_RECV)"

definition tx_state_summary :: "TCPSender \<Rightarrow> string" where
  "tx_state_summary tx =
     (if bs_error (tx_stream tx) then tx_ERROR
      else if tx_next_seqno tx = 0 then tx_CLOSED
      else if tx_next_seqno tx = tx_bytes_in_flight tx then tx_SYN_SENT
      else if \<not> bs_eof (tx_stream tx) then tx_SYN_ACKED
      else if tx_next_seqno tx < u64 (bs_bytes_written (tx_stream tx) + 2) then tx_SYN_ACKED
      else if tx_bytes_in_flight tx \<noteq> 0 then tx_FIN_SENT
      else tx_FIN_ACKED)"

definition TCPState_of :: "TCPSender \<Rightarrow> TCPReceiver \<Rightarrow> bool \<Rightarrow> bool \<Rightarrow> TCPState" where
  "TCPState_of sender receiver active linger =
     \<lparr>st_sender = tx_state_summary sender, st_receiver = rx_state_summary receiver,
      st_active = active, st_linger_after_streams_finish = (if active then linger else False)\<rparr>"

section \<open>Lemmas\<close>

lemmas summary_defs =
  rx_ERROR_def rx_LISTEN_def rx_SYN_RECV_def rx_FIN_RECV_def
  tx_ERROR_def tx_CLOSED_def tx_SYN_SENT_def tx_SYN_ACKED_def tx_FIN_SENT_def tx_FIN_ACKED_def

lemma rx_summary_distinct:
  "distinct [rx_ERROR, rx_LISTEN, rx_SYN_RECV, rx_FIN_RECV]"
  "distinct [rx_FIN_RECV, rx_SYN_RECV, rx_LISTEN, rx_ERROR]"
  by (simp_all add: summary_defs)

lemma tx_summary_distinct:
  "distinct [tx_ERROR, tx_CLOSED, tx_SYN_SENT, tx_SYN_ACKED, tx_FIN_SENT, tx_FIN_ACKED]"
  "distinct [tx_FIN_ACKED, tx_FIN_SENT, tx_SYN_ACKED, tx_SYN_SENT, tx_CLOSED, tx_ERROR]"
  by (simp_all add: summary_defs)

lemmas summary_neq [simp] = rx_summary_distinct [simplified] tx_summary_distinct [simplified]

lemma st_equal_iff: "st_equal s t \<longleftrightarrow> s = t"
  by (auto simp: st_equal_def)

lemma tx_eof_iff:
  assumes "tx_inv S tx"
  shows "bs_eof (tx_stream tx) \<longleftrightarrow>
    bs_end_input (tx_stream tx) \<and> bs_bytes_read (tx_stream tx) = length S"
proof -
  have "bs_source S (tx_stream tx)" using assms by (simp add: tx_inv_def)
  then show ?thesis by (auto simp: bs_source_def bs_eof_iff)
qed

lemma tx_fin_sent_iff:
  assumes "tx_inv S tx"
  shows "bs_eof (tx_stream tx) \<and> \<not> tx_next_seqno tx < u64 (bs_bytes_written (tx_stream tx) + 2) \<longleftrightarrow>
    tx_next_seqno tx = length S + 2"
proof -
  note b = tx_inv_bounds [OF assms]
  have ph: "tx_phase S tx" "bs_bytes_read (tx_stream tx) \<le> length S"
    using assms by (auto simp: tx_inv_def bs_source_def)
  have "u64 (bs_bytes_written (tx_stream tx) + 2) = length S + 2"
    unfolding b(3) using b(2) by (intro u64_id) simp
  then show ?thesis
    using b(1) ph unfolding tx_eof_iff [OF assms] tx_phase_def Let_def by linarith
qed

text \<open>The summaries contain no back quote, so that the quotes of the name delimit them.\<close>

lemma append_sep_inj:
  "xs @ c # ys = xs' @ c # ys' \<Longrightarrow> c \<notin> set xs \<Longrightarrow> c \<notin> set xs' \<Longrightarrow> xs = xs' \<and> ys = ys'"
  by (induction xs arbitrary: xs') (auto simp: Cons_eq_append_conv append_eq_Cons_conv)

definition quote_free :: "TCPState \<Rightarrow> bool" where
  "quote_free s \<longleftrightarrow> CHR ''`'' \<notin> set (st_sender s) \<and> CHR ''`'' \<notin> set (st_receiver s)"

lemma quoted_inj:
  assumes "a @ s @ (q # b) @ r @ (q # c) @ x @ d @ y = a @ s' @ (q # b) @ r' @ (q # c) @ x' @ d @ y'"
    and "q \<notin> set s" "q \<notin> set s'" "q \<notin> set r" "q \<notin> set r'" and "length x = length x'"
  shows "s = s' \<and> r = r' \<and> x = x' \<and> y = y'"
proof -
  have "s @ q # (b @ r @ (q # c) @ x @ d @ y) = s' @ q # (b @ r' @ (q # c) @ x' @ d @ y')"
    using assms(1) by simp
  then have 1: "s = s'" "r @ q # (c @ x @ d @ y) = r' @ q # (c @ x' @ d @ y')"
    using append_sep_inj [OF _ assms(2,3)] by auto
  from append_sep_inj [OF 1(2) assms(4,5)] 1(1) assms(6) show ?thesis by simp
qed

lemma st_bool_simps [simp]: "length (st_bool b) = 1" "st_bool b = st_bool c \<longleftrightarrow> b = c"
  by (simp_all add: st_bool_def)

lemma st_name_inj:
  assumes "st_name s = st_name t" and "quote_free s" and "quote_free t"
  shows "s = t"
proof -
  have "st_sender s = st_sender t \<and> st_receiver s = st_receiver t \<and>
      st_bool (st_active s) = st_bool (st_active t) \<and>
      st_bool (st_linger_after_streams_finish s) = st_bool (st_linger_after_streams_finish t)"
    by (rule quoted_inj [OF assms(1) [unfolded st_name_def]])
      (use assms(2,3) in \<open>simp_all add: quote_free_def\<close>)
  then show ?thesis by simp
qed

lemma official_quote_free: "quote_free (TCPState_of_state a)"
  by (cases a) (simp_all add: TCPState_of_state_def quote_free_def summary_defs)

section \<open>Correctness\<close>

text \<open>The official states are told apart by the summary and by its printed name, and
  \<open>operator==\<close> is equality of the summaries.\<close>

theorem official_states_distinct:
  "(st_equal (TCPState_of_state a) (TCPState_of_state b) \<longleftrightarrow> a = b) \<and>
   (st_name (TCPState_of_state a) = st_name (TCPState_of_state b) \<longleftrightarrow> a = b) \<and>
   (st_equal s t \<longleftrightarrow> s = t) \<and> (st_not_equal s t \<longleftrightarrow> s \<noteq> t)"
proof -
  have "a = b" if "TCPState_of_state a = TCPState_of_state b"
    using that
    by (cases a; cases b) (auto simp: TCPState_of_state_def)
  moreover have "TCPState_of_state a = TCPState_of_state b"
    if "st_name (TCPState_of_state a) = st_name (TCPState_of_state b)"
    using that by (intro st_name_inj official_quote_free)
  ultimately show ?thesis by (auto simp: st_equal_iff st_not_equal_def)
qed

text \<open>What the summary of a sender means, in a state where the stream has no error: the SYN was
  not sent; the SYN was sent and no segment is fully acknowledged; the FIN was sent (after every
  byte of the stream) and is outstanding; everything up to and including the FIN is acknowledged;
  and in all other states the stream is ongoing.\<close>

theorem sender_state_summary:
  assumes "tx_inv S tx" and "\<not> bs_error (tx_stream tx)"
  shows "(tx_state_summary tx = tx_CLOSED \<longleftrightarrow> tx_next_seqno tx = 0) \<and>
    (tx_state_summary tx = tx_SYN_SENT \<longleftrightarrow> 0 < tx_next_seqno tx \<and> tx_base tx = 0) \<and>
    (tx_state_summary tx = tx_FIN_SENT \<longleftrightarrow>
       tx_next_seqno tx = length S + 2 \<and> 0 < tx_base tx \<and> tx_base tx < length S + 2) \<and>
    (tx_state_summary tx = tx_FIN_ACKED \<longleftrightarrow>
       tx_next_seqno tx = length S + 2 \<and> tx_abs_ackno tx = length S + 2 \<and> tx_segments_track tx = []) \<and>
    (tx_state_summary tx = tx_SYN_ACKED \<longleftrightarrow> 0 < tx_base tx \<and> tx_next_seqno tx < length S + 2)"
proof -
  note b = tx_inv_bounds [OF assms(1)]
  have f: "bs_eof (tx_stream tx) \<and> \<not> tx_next_seqno tx < u64 (bs_bytes_written (tx_stream tx) + 2) \<longleftrightarrow>
    tx_next_seqno tx = length S + 2"
    by (rule tx_fin_sent_iff [OF assms(1)])
  have i: "tx_bytes_in_flight tx \<le> tx_next_seqno tx" "tx_base tx \<le> tx_abs_ackno tx"
    "tx_abs_ackno tx \<le> tx_next_seqno tx"
    using assms(1) by (simp_all add: tx_inv_def)
  then have base: "tx_base tx = 0 \<longleftrightarrow> tx_next_seqno tx = tx_bytes_in_flight tx"
    "tx_base tx = tx_next_seqno tx \<longleftrightarrow> tx_bytes_in_flight tx = 0 \<or> tx_next_seqno tx = 0"
    "tx_base tx \<le> tx_next_seqno tx"
    by (auto simp: tx_base_def)
  have n: "tx_next_seqno tx < length S + 2 \<longleftrightarrow>
      \<not> (bs_eof (tx_stream tx) \<and> \<not> tx_next_seqno tx < u64 (bs_bytes_written (tx_stream tx) + 2))"
    unfolding f using b(1) by linarith
  have lt: "tx_base tx < tx_next_seqno tx \<longleftrightarrow> tx_bytes_in_flight tx \<noteq> 0 \<and> tx_next_seqno tx \<noteq> 0"
    using base by linarith
  have d: "tx_state_summary tx =
    (if tx_next_seqno tx = 0 then tx_CLOSED else if tx_base tx = 0 then tx_SYN_SENT
     else if tx_next_seqno tx < length S + 2 then tx_SYN_ACKED
     else if tx_base tx < tx_next_seqno tx then tx_FIN_SENT else tx_FIN_ACKED)"
    unfolding n lt base(1) tx_state_summary_def using assms(2)
    by (cases "bs_eof (tx_stream tx)") simp_all
  have z: "tx_abs_ackno tx = tx_next_seqno tx" if "tx_base tx = tx_next_seqno tx" using i that by simp
  have "tx_base tx = tx_next_seqno tx" if "tx_segments_track tx = []"
    using that b(5) by (simp add: tx_base_def)
  then have e: "tx_segments_track tx = [] \<longleftrightarrow> tx_base tx = tx_next_seqno tx"
    using b(5) base i by auto
  consider "tx_next_seqno tx = 0" | "0 < tx_next_seqno tx" "tx_base tx = 0"
    | "0 < tx_base tx" "tx_next_seqno tx < length S + 2"
    | "0 < tx_base tx" "tx_next_seqno tx = length S + 2" "tx_base tx < tx_next_seqno tx"
    | "0 < tx_base tx" "tx_next_seqno tx = length S + 2" "tx_base tx = tx_next_seqno tx"
    using b(1) base(3) by linarith
  then show ?thesis
    by cases (use e z base(3) in \<open>simp_all add: d\<close>)
qed

theorem sender_state_summary_witness:
  "tx_state_summary syn_sent = tx_SYN_SENT"
proof -
  have "\<not> bs_error (tx_stream syn_sent)" "tx_bytes_in_flight syn_sent = 1"
    by (simp_all add: syn_sent_def TCPSender_new_def tx_send_no_empty_segment_def u64_id Let_def)
  then show ?thesis
    using sender_state_summary [OF syn_sent_inv] by (simp add: syn_sent_simps tx_base_def)
qed

end
