(* ===== verification/TCP_Connection.thy ===== *)
theory TCP_Connection
  imports TCP_State "HOL-Library.Sublist"
begin

text \<open>
  \<^verbatim>\<open>tcp_connection.hh\<close>, \<^verbatim>\<open>tcp_connection.cc\<close> and \<^verbatim>\<open>tcp_helpers/tcp_config.hh\<close>: a TCP endpoint, made of a
  \<open>TCPSender\<close> and a \<open>TCPReceiver\<close>. It stamps acknowledgment number and window on every outgoing
  segment, answers incoming segments, aborts the connection with RST and decides when it is over.
\<close>

section \<open>Model\<close>

record TCPConfig =
  cfg_rt_timeout :: uint16_t
  cfg_recv_capacity :: size_t
  cfg_send_capacity :: size_t
  cfg_fixed_isn :: "WrappingInt32 option"

definition TCPConfig_default :: TCPConfig where
  "TCPConfig_default =
     \<lparr>cfg_rt_timeout = TIMEOUT_DFLT, cfg_recv_capacity = DEFAULT_CAPACITY,
      cfg_send_capacity = DEFAULT_CAPACITY, cfg_fixed_isn = None\<rparr>"

record TCPConnection =
  tc_cfg :: TCPConfig
  tc_receiver :: TCPReceiver
  tc_sender :: TCPSender
  tc_segments_out :: "TCPSegment list"
  tc_linger_after_streams_finish :: bool
  tc_time_since_last_segment_received :: size_t
  tc_active :: bool

text \<open>\<open>random\<close> is what \<^verbatim>\<open>std::random_device\<close> gives the sender.\<close>

definition TCPConnection_new :: "TCPConfig \<Rightarrow> WrappingInt32 \<Rightarrow> TCPConnection" where
  "TCPConnection_new cfg random =
     \<lparr>tc_cfg = cfg, tc_receiver = TCPReceiver_new (cfg_recv_capacity cfg),
      tc_sender = TCPSender_new (cfg_send_capacity cfg) (cfg_rt_timeout cfg) (cfg_fixed_isn cfg) random,
      tc_segments_out = [], tc_linger_after_streams_finish = True,
      tc_time_since_last_segment_received = 0, tc_active = True\<rparr>"

definition tc_remaining_outbound_capacity :: "TCPConnection \<Rightarrow> size_t" where
  "tc_remaining_outbound_capacity tc = bs_remaining_capacity (tx_stream (tc_sender tc))"

definition tc_bytes_in_flight :: "TCPConnection \<Rightarrow> size_t" where
  "tc_bytes_in_flight tc = tx_bytes_in_flight (tc_sender tc)"

definition tc_unassembled_bytes :: "TCPConnection \<Rightarrow> size_t" where
  "tc_unassembled_bytes tc = rx_unassembled_bytes (tc_receiver tc)"

definition tc_inbound_stream :: "TCPConnection \<Rightarrow> ByteStream" where
  "tc_inbound_stream tc = rx_stream_out (tc_receiver tc)"

definition tc_state :: "TCPConnection \<Rightarrow> TCPState" where
  "tc_state tc = TCPState_of (tc_sender tc) (tc_receiver tc) (tc_active tc) (tc_linger_after_streams_finish tc)"

text \<open>The acknowledgment number, when there is one; shared by all outgoing segments.\<close>

definition set_ackno :: "WrappingInt32 option \<Rightarrow> TCPHeader \<Rightarrow> TCPHeader" where
  "set_ackno ackno h = (case ackno of None \<Rightarrow> h | Some a \<Rightarrow> h\<lparr>th_ackno := a, th_ack := True\<rparr>)"

definition tc_send_rst_segment :: "TCPConnection \<Rightarrow> TCPConnection" where
  "tc_send_rst_segment tc =
     (let tx = tx_send_empty_segment (tc_sender tc);
          rst_segment = hd (tx_segments_out tx);
          tx1 = tx\<lparr>tx_segments_out := tl (tx_segments_out tx)\<rparr>;
          header = set_ackno (rx_ackno (tc_receiver tc)) ((ts_header rst_segment)\<lparr>th_rst := True\<rparr>);
          header1 = header\<lparr>th_win := of_nat (rx_window_size (tc_receiver tc))\<rparr>
      in tc\<lparr>tc_sender := tx1,
            tc_segments_out := tc_segments_out tc @ [rst_segment\<lparr>ts_header := header1\<rparr>]\<rparr>)"

definition tc_stamp :: "TCPReceiver \<Rightarrow> TCPSegment \<Rightarrow> TCPSegment" where
  "tc_stamp rx segment =
     (let header = set_ackno (rx_ackno rx) (ts_header segment);
          window_size = rx_window_size rx;
          window_size1 = (if window_size > 65535 then 65535 else window_size)
      in segment\<lparr>ts_header := header\<lparr>th_win := of_nat window_size1\<rparr>\<rparr>)"

text \<open>The loop of \<^verbatim>\<open>send_segments\<close>, over the sender's queue.\<close>

fun tc_send_loop :: "TCPReceiver \<Rightarrow> TCPSegment list \<Rightarrow> TCPSegment list \<Rightarrow> bool \<Rightarrow> bool \<times> TCPSegment list" where
  "tc_send_loop rx [] out is_send = (is_send, out)"
| "tc_send_loop rx (segment # segs) out is_send = tc_send_loop rx segs (out @ [tc_stamp rx segment]) True"

definition tc_send_segments :: "TCPConnection \<Rightarrow> bool \<times> TCPConnection" where
  "tc_send_segments tc =
     (let (is_send, out) =
            tc_send_loop (tc_receiver tc) (tx_segments_out (tc_sender tc)) (tc_segments_out tc) False
      in (is_send, tc\<lparr>tc_sender := (tc_sender tc)\<lparr>tx_segments_out := []\<rparr>, tc_segments_out := out\<rparr>))"

definition rx_set_error :: "TCPReceiver \<Rightarrow> TCPReceiver" where
  "rx_set_error rx =
     rx\<lparr>rx_reassembler := (rx_reassembler rx)\<lparr>sr_output := bs_set_error (rx_stream_out rx)\<rparr>\<rparr>"

definition tc_passive_close :: "TCPConnection \<Rightarrow> TCPConnection" where
  "tc_passive_close tc =
     tc\<lparr>tc_sender := (tc_sender tc)\<lparr>tx_stream := bs_set_error (tx_stream (tc_sender tc))\<rparr>,
        tc_receiver := rx_set_error (tc_receiver tc), tc_active := False\<rparr>"

definition tc_check_inbound_ended :: "TCPConnection \<Rightarrow> bool" where
  "tc_check_inbound_ended tc \<longleftrightarrow>
     rx_unassembled_bytes (tc_receiver tc) = 0 \<and> bs_input_ended (rx_stream_out (tc_receiver tc))"

definition tc_check_outbound_ended :: "TCPConnection \<Rightarrow> bool" where
  "tc_check_outbound_ended tc \<longleftrightarrow>
     bs_eof (tx_stream (tc_sender tc)) \<and>
     tx_next_seqno (tc_sender tc) = u64 (bs_bytes_written (tx_stream (tc_sender tc)) + 2) \<and>
     tx_bytes_in_flight (tc_sender tc) = 0"

text \<open>\<^verbatim>\<open>10 * _cfg.rt_timeout\<close> is computed in \<^verbatim>\<open>int\<close>, where it cannot overflow.\<close>

definition tc_test_end :: "TCPConnection \<Rightarrow> TCPConnection" where
  "tc_test_end tc =
     (if tc_check_inbound_ended tc \<and> \<not> bs_eof (tx_stream (tc_sender tc))
      then tc\<lparr>tc_linger_after_streams_finish := False\<rparr>
      else if tc_check_inbound_ended tc \<and> tc_check_outbound_ended tc then
        if \<not> tc_linger_after_streams_finish tc then tc\<lparr>tc_active := False\<rparr>
        else if 10 * unat (cfg_rt_timeout (tc_cfg tc)) \<le> tc_time_since_last_segment_received tc
        then tc\<lparr>tc_active := False\<rparr>
        else tc
      else tc)"

text \<open>A call of \<^verbatim>\<open>_sender.fill_window()\<close> followed by \<^verbatim>\<open>send_segments()\<close>.\<close>

definition tc_fill_window :: "TCPConnection \<Rightarrow> exn + bool \<times> TCPConnection" where
  "tc_fill_window tc =
     bindE (tx_fill_window (tc_sender tc)) (\<lambda>tx. Inr (tc_send_segments (tc\<lparr>tc_sender := tx\<rparr>)))"

definition tc_segment_received :: "TCPSegment \<Rightarrow> TCPConnection \<Rightarrow> exn + TCPConnection" where
  "tc_segment_received segment tc =
     (let tc0 = tc\<lparr>tc_time_since_last_segment_received := 0\<rparr>
      in if th_rst (ts_header segment) then Inr (tc_passive_close tc0)
         else
           bindE (rx_segment_received segment (tc_receiver tc0)) (\<lambda>rx.
           let tc1 = tc0\<lparr>tc_receiver := rx\<rparr>
           in bindE (if th_ack (ts_header segment)
                     then bindE (tx_ack_received (th_ackno (ts_header segment)) (th_win (ts_header segment))
                                   (tc_sender tc1))
                            (\<lambda>tx. Inr (snd (tc_send_segments (tc1\<lparr>tc_sender := tx\<rparr>))))
                     else Inr tc1) (\<lambda>tc2.
              bindE (if 0 < ts_length_in_sequence_space segment
                     then bindE (tc_fill_window tc2) (\<lambda>(is_send, tc3).
                            if \<not> is_send
                            then Inr (snd (tc_send_segments
                                   (tc3\<lparr>tc_sender := tx_send_empty_segment (tc_sender tc3)\<rparr>)))
                            else Inr tc3)
                     else Inr tc2) (\<lambda>tc4.
              Inr (tc_test_end tc4)))))"

definition tc_write :: "bytes \<Rightarrow> TCPConnection \<Rightarrow> exn + size_t \<times> TCPConnection" where
  "tc_write data tc =
     (if length data = 0 then Inr (0, tc)
      else
        let (sz, tx) = tx_write data (tc_sender tc)
        in bindE (tc_fill_window (tc\<lparr>tc_sender := tx\<rparr>)) (\<lambda>(_, tc1). Inr (sz, tc1)))"

definition tc_tick :: "size_t \<Rightarrow> TCPConnection \<Rightarrow> TCPConnection" where
  "tc_tick ms_since_last_tick tc =
     (let tc1 = tc\<lparr>tc_time_since_last_segment_received :=
                     u64 (tc_time_since_last_segment_received tc + ms_since_last_tick),
                   tc_sender := tx_tick ms_since_last_tick (tc_sender tc)\<rparr>
      in if rt_consecutive_retransmissions (tx_timer (tc_sender tc1)) > MAX_RETX_ATTEMPTS
         then tc_send_rst_segment (tc_passive_close tc1)
         else tc_test_end (snd (tc_send_segments tc1)))"

definition tc_end_input_stream :: "TCPConnection \<Rightarrow> exn + TCPConnection" where
  "tc_end_input_stream tc =
     bindE (tc_fill_window (tc\<lparr>tc_sender := tx_end_input (tc_sender tc)\<rparr>)) (\<lambda>(_, tc1). Inr tc1)"

definition tc_connect :: "TCPConnection \<Rightarrow> exn + TCPConnection" where
  "tc_connect tc =
     (if tx_next_seqno (tc_sender tc) \<noteq> 0 then Inr tc
      else bindE (tc_fill_window tc) (\<lambda>(_, tc1). Inr (tc1\<lparr>tc_active := True\<rparr>)))"

text \<open>The destructor, up to the message on the standard error output.\<close>

definition tc_destroy :: "TCPConnection \<Rightarrow> TCPConnection" where
  "tc_destroy tc = (if tc_active tc then tc_send_rst_segment (tc_passive_close tc) else tc)"

text \<open>The application's read from \<^verbatim>\<open>inbound_stream()\<close>.\<close>

definition tc_read :: "size_t \<Rightarrow> TCPConnection \<Rightarrow> exn + bytes \<times> TCPConnection" where
  "tc_read n tc = bindE (rx_read n (tc_receiver tc)) (\<lambda>(d, rx). Inr (d, tc\<lparr>tc_receiver := rx\<rparr>))"


section \<open>The sender seen by the connection\<close>

text \<open>
  What the connection relies on beyond \<open>tx_inv\<close>: the segments of the sender carry no ACK and no RST
  of their own, and no retransmissions are counted while the timer is off.
\<close>

definition plain :: "TCPSegment \<Rightarrow> bool" where
  "plain seg \<longleftrightarrow> \<not> th_ack (ts_header seg) \<and> \<not> th_rst (ts_header seg)"

definition tx_plain :: "TCPSender \<Rightarrow> bool" where
  "tx_plain tx \<longleftrightarrow>
     (\<forall>seg \<in> set (tx_segments_out tx) \<union> set (tx_segments_track tx). plain seg) \<and>
     (\<not> rt_running (tx_timer tx) \<longrightarrow> rt_consecutive_retransmissions (tx_timer tx) = 0)"

lemma plain_simps [simp]:
  "plain fin_segment" "plain syn_segment" "plain (tx_window_segment d s r)"
  "plain (stamp n seg) \<longleftrightarrow> plain seg" "plain TCPSegment_new"
  by (simp_all add: plain_def fin_segment_def syn_segment_def tx_window_segment_def stamp_def
      TCPSegment_new_def TCPHeader_new_def Let_def)

lemma tx_plain_simps [simp]:
  "tx_plain (tx\<lparr>tx_stream := s\<rparr>) = tx_plain tx" "tx_plain (tx\<lparr>tx_window_size := w\<rparr>) = tx_plain tx"
  by (simp_all add: tx_plain_def)

lemma tx_plain_send: "tx_plain tx \<Longrightarrow> plain seg \<Longrightarrow> tx_plain (tx_send_no_empty_segment seg tx)"
  by (auto simp: tx_plain_def tx_send_eq rt_start_def)

lemma tx_plain_fill_loop: "tx_plain tx \<Longrightarrow> tx_fill_loop tx = Inr tx' \<Longrightarrow> tx_plain tx'"
proof (induction tx rule: tx_fill_loop.induct)
  case (1 tx)
  note simps = tx_fill_loop.simps [of tx]
  show ?case
  proof (cases "sub64 (tx_next_seqno tx) (tx_abs_ackno tx) < tx_window tx \<and> \<not> bs_eof (tx_stream tx)")
    case False
    then show ?thesis using "1.prems" by (auto simp: simps Let_def tx_plain_send split: if_splits)
  next
    case True
    with "1.prems" show ?thesis
      using "1.IH" by (auto simp: simps Let_def tx_plain_send split: sum.splits if_splits)
  qed
qed

lemma tx_plain_fill_window:
  assumes "tx_plain tx" and "tx_fill_window tx = Inr tx'"
  shows "tx_plain tx'"
proof -
  have "tx_fill_loop (tx_send_no_empty_segment syn_segment tx) = Inr tx' \<or> tx' = tx \<or> tx_fill_loop tx = Inr tx'"
    using assms(2) by (simp add: tx_fill_window_def split: if_splits)
  then show ?thesis
    using assms(1) tx_plain_send [OF assms(1), of syn_segment] tx_plain_fill_loop plain_simps(2) by metis
qed

lemma tx_ack_loop_subset: "set (fst (tx_ack_loop isn a segs n)) \<subseteq> set segs"
  by (induction isn a segs n rule: tx_ack_loop.induct) (auto simp: Let_def)

lemma tx_plain_ack_received:
  assumes "tx_plain tx" and "tx_ack_received ackno w tx = Inr tx'"
  shows "tx_plain tx'"
proof -
  let ?a = "unwrap ackno (tx_isn tx) (tx_abs_ackno tx)"
  obtain track k where r: "tx_ack_loop (tx_isn tx) ?a (tx_segments_track tx) (tx_bytes_in_flight tx) = (track, k)"
    by fastforce
  let ?tx2 = "tx\<lparr>tx_window_size := w, tx_abs_ackno := ?a, tx_segments_track := track, tx_bytes_in_flight := k,
    tx_timer := (if track \<noteq> [] then rt_start (tx_timer tx) else rt_close (tx_timer tx))\<rparr>"
  have "set track \<subseteq> set (tx_segments_track tx)"
    using tx_ack_loop_subset [of "tx_isn tx" ?a "tx_segments_track tx" "tx_bytes_in_flight tx"] r by simp
  then have "tx_plain ?tx2" using assms(1) by (auto simp: tx_plain_def rt_start_def rt_close_def)
  from tx_plain_fill_window [OF this] show ?thesis
    using assms r by (auto simp: tx_ack_received_def Let_def split: if_splits)
qed

lemma tx_plain_tick: "tx_plain tx \<Longrightarrow> tx_plain (tx_tick ms tx)"
  by (auto simp: tx_plain_def tx_tick_def rt_timeout_def rt_reset_timer_def rt_close_def Let_def
      split: list.splits)

lemma tx_plain_send_empty: "tx_plain tx \<Longrightarrow> tx_plain (tx_send_empty_segment tx)"
  by (auto simp: tx_plain_def tx_send_empty_segment_def plain_def TCPSegment_new_def TCPHeader_new_def)

lemma tx_plain_new: "tx_plain (TCPSender_new capacity timeout isn random)"
  by (simp add: tx_plain_def TCPSender_new_def RetransmissionTimer_new_def)

section \<open>Invariant\<close>

text \<open>
  \<open>S\<close> is the stream the local application writes, \<open>R\<close> the stream the peer sends with the initial
  sequence number \<open>isn\<close>. A segment put out by the connection carries bytes of \<open>S\<close> and, if its ACK
  flag is set, acknowledges no more of \<open>R\<close> than was received.
\<close>

definition acks :: "WrappingInt32 \<Rightarrow> nat \<Rightarrow> TCPSegment \<Rightarrow> bool" where
  "acks isn k seg \<longleftrightarrow>
     (th_ack (ts_header seg) \<longrightarrow> (\<exists>a. 0 < a \<and> a \<le> k \<and> th_ackno (ts_header seg) = wrap a isn))"

lemma acks_mono: "acks isn k seg \<Longrightarrow> k \<le> k' \<Longrightarrow> acks isn k' seg"
  unfolding acks_def by (meson order.trans)

definition tc_inv :: "bytes \<Rightarrow> bytes \<Rightarrow> WrappingInt32 \<Rightarrow> TCPConnection \<Rightarrow> bool" where
  "tc_inv S R isn tc \<longleftrightarrow>
     tx_inv S (tc_sender tc) \<and> tx_plain (tc_sender tc) \<and> rx_sound R isn (tc_receiver tc) \<and>
     (\<forall>seg \<in> set (tc_segments_out tc).
        emitted S (tc_sender tc) seg \<and> acks isn (rx_abs_ackno (tc_receiver tc)) seg)"

text \<open>What never goes back, whatever the connection does.\<close>

definition tc_grows :: "TCPConnection \<Rightarrow> TCPConnection \<Rightarrow> bool" where
  "tc_grows tc tc' \<longleftrightarrow>
     tc_cfg tc' = tc_cfg tc \<and>
     tx_isn (tc_sender tc') = tx_isn (tc_sender tc) \<and>
     tx_next_seqno (tc_sender tc) \<le> tx_next_seqno (tc_sender tc') \<and>
     (bs_end_input (tx_stream (tc_sender tc)) \<longrightarrow> bs_end_input (tx_stream (tc_sender tc'))) \<and>
     rx_abs_ackno (tc_receiver tc) \<le> rx_abs_ackno (tc_receiver tc') \<and>
     rx_capacity (tc_receiver tc') = rx_capacity (tc_receiver tc)"

lemma tc_grows_refl [simp]: "tc_grows tc tc"
  by (simp add: tc_grows_def)

lemma tc_grows_trans [trans]: "tc_grows a b \<Longrightarrow> tc_grows b c \<Longrightarrow> tc_grows a c"
  by (auto simp: tc_grows_def)

lemma tc_inv_step:
  assumes "tc_inv S R isn tc" and "tc_grows tc tc'" and "tx_inv S (tc_sender tc')"
    and "tx_plain (tc_sender tc')" and "rx_sound R isn (tc_receiver tc')"
    and "tc_segments_out tc' = tc_segments_out tc @ news"
    and "\<And>seg. seg \<in> set news \<Longrightarrow>
           emitted S (tc_sender tc') seg \<and> acks isn (rx_abs_ackno (tc_receiver tc')) seg"
  shows "tc_inv S R isn tc'"
  using assms emitted_mono [of S "tc_sender tc" _ "tc_sender tc'"] acks_mono
  unfolding tc_inv_def tc_grows_def by fastforce

text \<open>Stamping a segment changes neither its data nor its sequence number.\<close>

lemma tc_stamp_simps [simp]:
  "th_seqno (ts_header (tc_stamp rx seg)) = th_seqno (ts_header seg)"
  "th_syn (ts_header (tc_stamp rx seg)) = th_syn (ts_header seg)"
  "th_fin (ts_header (tc_stamp rx seg)) = th_fin (ts_header seg)"
  "th_rst (ts_header (tc_stamp rx seg)) = th_rst (ts_header seg)"
  "ts_payload (tc_stamp rx seg) = ts_payload seg"
  by (simp_all add: tc_stamp_def set_ackno_def Let_def split: option.splits)

lemma emitted_cong:
  assumes "th_seqno (ts_header g) = th_seqno (ts_header seg)" "th_syn (ts_header g) = th_syn (ts_header seg)"
    "th_fin (ts_header g) = th_fin (ts_header seg)" "ts_payload g = ts_payload seg"
  shows "emitted S tx g = emitted S tx seg"
  using assms by (simp add: emitted_def carries_def ts_length_in_sequence_space_def)

lemma emitted_tc_stamp [simp]: "emitted S tx (tc_stamp rx seg) = emitted S tx seg"
  by (rule emitted_cong) simp_all

lemma acks_set_ackno:
  assumes "rx_sound R isn rx" and "\<not> th_ack h" and "th_ack (ts_header seg) = th_ack (set_ackno (rx_ackno rx) h)"
    and "th_ackno (ts_header seg) = th_ackno (set_ackno (rx_ackno rx) h)"
  shows "acks isn (rx_abs_ackno rx) seg"
  using assms rx_ackno_eq [OF assms(1)]
  by (auto simp: acks_def set_ackno_def rx_abs_ackno_def intro!: exI [of _ "rx_abs_ackno rx"])

lemma acks_tc_stamp: "rx_sound R isn rx \<Longrightarrow> plain seg \<Longrightarrow> acks isn (rx_abs_ackno rx) (tc_stamp rx seg)"
  by (rule acks_set_ackno [of R isn rx "ts_header seg"]) (simp_all add: plain_def tc_stamp_def Let_def)

lemma tc_send_loop_eq:
  "tc_send_loop rx segs out b = (b \<or> segs \<noteq> [], out @ map (tc_stamp rx) segs)"
  by (induction segs arbitrary: out b) auto

lemma tc_send_segments_eq:
  "tc_send_segments tc =
     (tx_segments_out (tc_sender tc) \<noteq> [],
      tc\<lparr>tc_sender := (tc_sender tc)\<lparr>tx_segments_out := []\<rparr>,
         tc_segments_out := tc_segments_out tc @
           map (tc_stamp (tc_receiver tc)) (tx_segments_out (tc_sender tc))\<rparr>)"
  by (simp add: tc_send_segments_def tc_send_loop_eq)

text \<open>
  A new state of the two halves followed by \<^verbatim>\<open>send_segments\<close>: every operation but the abort of the
  connection ends this way.
\<close>

lemma tc_send_segments_inv:
  assumes inv: "tc_inv S R isn tc"
  shows "tc_inv S R isn (snd (tc_send_segments tc))" and "tc_grows tc (snd (tc_send_segments tc))"
proof -
  let ?tc' = "snd (tc_send_segments tc)"
  show g: "tc_grows tc ?tc'" by (simp add: tc_send_segments_eq tc_grows_def)
  have tx: "tx_inv S (tc_sender tc)" "tx_plain (tc_sender tc)" "rx_sound R isn (tc_receiver tc)"
    using inv by (simp_all add: tc_inv_def)
  show "tc_inv S R isn ?tc'"
  proof (rule tc_inv_step [OF inv g, where news = "map (tc_stamp (tc_receiver tc)) (tx_segments_out (tc_sender tc))"])
    show "tx_inv S (tc_sender ?tc')" using tx_pop_inv [OF tx(1), of "[]"] by (simp add: tc_send_segments_eq)
    fix seg
    assume "seg \<in> set (map (tc_stamp (tc_receiver tc)) (tx_segments_out (tc_sender tc)))"
    then obtain g where g: "g \<in> set (tx_segments_out (tc_sender tc))" "seg = tc_stamp (tc_receiver tc) g" by auto
    then have "emitted S (tc_sender tc) g" "plain g" using tx(1,2) by (simp_all add: tx_inv_def tx_plain_def)
    then show "emitted S (tc_sender ?tc') seg \<and> acks isn (rx_abs_ackno (tc_receiver ?tc')) seg"
      using acks_tc_stamp [OF tx(3)] g(2) by (simp add: tc_send_segments_eq)
  qed (use tx in \<open>simp_all add: tc_send_segments_eq tx_plain_def\<close>)
qed

lemma tc_inv_halves:
  assumes "tc_inv S R isn tc" and "tx_inv S tx" "tx_plain tx" and "rx_sound R isn rx"
    and "tc_grows tc (tc\<lparr>tc_sender := tx, tc_receiver := rx\<rparr>)"
  shows "tc_inv S R isn (tc\<lparr>tc_sender := tx, tc_receiver := rx\<rparr>)"
  using assms by (intro tc_inv_step [OF assms(1), where news = "[]"]) simp_all

lemma tc_inv_sender:
  assumes "tc_inv S R isn tc" and "tx_inv S tx" "tx_plain tx"
    and "tc_grows tc (tc\<lparr>tc_sender := tx\<rparr>)"
  shows "tc_inv S R isn (tc\<lparr>tc_sender := tx\<rparr>)"
  using assms by (intro tc_inv_step [OF assms(1), where news = "[]"]) (simp_all add: tc_inv_def)

lemma tc_inv_flags [simp]:
  "tc_inv S R isn (tc\<lparr>tc_active := b\<rparr>) = tc_inv S R isn tc"
  "tc_inv S R isn (tc\<lparr>tc_linger_after_streams_finish := b\<rparr>) = tc_inv S R isn tc"
  "tc_inv S R isn (tc\<lparr>tc_time_since_last_segment_received := t\<rparr>) = tc_inv S R isn tc"
  by (simp_all add: tc_inv_def)

lemma tc_grows_flags [simp]:
  "tc_grows tc0 (tc\<lparr>tc_active := b\<rparr>) = tc_grows tc0 tc"
  "tc_grows tc0 (tc\<lparr>tc_linger_after_streams_finish := b\<rparr>) = tc_grows tc0 tc"
  "tc_grows tc0 (tc\<lparr>tc_time_since_last_segment_received := t\<rparr>) = tc_grows tc0 tc"
  "tc_grows (tc0\<lparr>tc_time_since_last_segment_received := t\<rparr>) tc = tc_grows tc0 tc"
  by (simp_all add: tc_grows_def)

lemma tc_test_end_inv:
  "tc_inv S R isn (tc_test_end tc) = tc_inv S R isn tc" "tc_grows tc0 (tc_test_end tc) = tc_grows tc0 tc"
  by (simp_all add: tc_test_end_def)

lemma tc_test_end_halves [simp]:
  "tc_sender (tc_test_end tc) = tc_sender tc" "tc_receiver (tc_test_end tc) = tc_receiver tc"
  "tc_segments_out (tc_test_end tc) = tc_segments_out tc"
  by (simp_all add: tc_test_end_def)

section \<open>What each call does\<close>

lemma tc_grows_sent:
  assumes "tx_isn tx = tx_isn (tc_sender tc)" and "tx_next_seqno (tc_sender tc) \<le> tx_next_seqno tx"
    and "bs_end_input (tx_stream tx) = bs_end_input (tx_stream (tc_sender tc))"
  shows "tc_grows tc (tc\<lparr>tc_sender := tx\<rparr>)"
  using assms by (simp add: tc_grows_def)

lemma tc_fill_window_spec:
  assumes inv: "tc_inv S R isn tc"
  obtains b tc' where "tc_fill_window tc = Inr (b, tc')" and "tc_inv S R isn tc'" and "tc_grows tc tc'"
    and "0 < tx_next_seqno (tc_sender tc')" and "tc_receiver tc' = tc_receiver tc"
    and "tx_abs_ackno (tc_sender tc') = tx_abs_ackno (tc_sender tc)"
    and "\<exists>news. tc_segments_out tc' = tc_segments_out tc @ map (tc_stamp (tc_receiver tc)) news \<and> (b \<longleftrightarrow> news \<noteq> [])"
    and "tx_segments_out (tc_sender tc') = []"
proof -
  have h: "tx_inv S (tc_sender tc)" "tx_plain (tc_sender tc)" using inv by (simp_all add: tc_inv_def)
  obtain tx news where tx: "tx_fill_window (tc_sender tc) = Inr tx" "tx_sent S (tc_sender tc) tx news"
    "0 < tx_next_seqno tx"
    using tx_fill_window_spec [OF h(1)] by blast
  have g: "tc_grows tc (tc\<lparr>tc_sender := tx\<rparr>)"
    using tx(2) by (intro tc_grows_sent) (simp_all add: tx_sent_def)
  have i: "tc_inv S R isn (tc\<lparr>tc_sender := tx\<rparr>)"
    using tx_sent_inv [OF tx(2)] tx_plain_fill_window [OF h(2) tx(1)] g by (intro tc_inv_sender [OF inv])
  note s = tc_send_segments_inv [OF i]
  have "tx_abs_ackno tx = tx_abs_ackno (tc_sender tc)" using tx(2) by (simp add: tx_sent_def)
  then show thesis
    using tx(1,3) s(1) tc_grows_trans [OF g s(2)]
    by (intro that [of "fst (tc_send_segments (tc\<lparr>tc_sender := tx\<rparr>))" "snd (tc_send_segments (tc\<lparr>tc_sender := tx\<rparr>))"])
      (auto simp: tc_fill_window_def tc_send_segments_eq)
qed

lemma tc_empty_inv:
  assumes inv: "tc_inv S R isn tc" and "0 < tx_next_seqno (tc_sender tc)"
  defines "tc1 \<equiv> tc\<lparr>tc_sender := tx_send_empty_segment (tc_sender tc)\<rparr>"
  shows "tc_inv S R isn tc1" "tc_grows tc tc1"
proof -
  show "tc_grows tc tc1" unfolding tc1_def by (intro tc_grows_sent) (simp_all add: tx_send_empty_segment_def Let_def)
  then show "tc_inv S R isn tc1"
    unfolding tc1_def using assms(1,2)
    by (intro tc_inv_sender) (simp_all add: tc_inv_def tx_send_empty_inv tx_plain_send_empty)
qed

text \<open>Step 3 of \<^verbatim>\<open>segment_received\<close>: the acknowledgment.\<close>

lemma tc_ack_spec:
  assumes inv: "tc_inv S R isn tc"
  obtains tx where "tx_ack_received ackno w (tc_sender tc) = Inr tx"
    and "tc_inv S R isn (snd (tc_send_segments (tc\<lparr>tc_sender := tx\<rparr>)))"
    and "tc_grows tc (snd (tc_send_segments (tc\<lparr>tc_sender := tx\<rparr>)))"
    and "tx_abs_ackno tx \<in> {tx_abs_ackno (tc_sender tc),
           unwrap ackno (tx_isn (tc_sender tc)) (tx_abs_ackno (tc_sender tc))}"
proof -
  let ?tx = "tc_sender tc" and ?a = "unwrap ackno (tx_isn (tc_sender tc)) (tx_abs_ackno (tc_sender tc))"
  have h: "tx_inv S ?tx" "tx_plain ?tx" using inv by (simp_all add: tc_inv_def)
  obtain tx where tx: "tx_ack_received ackno w ?tx = Inr tx" "tx_inv S tx" "tx_isn tx = tx_isn ?tx"
    "tx_next_seqno ?tx \<le> tx_next_seqno tx" "bs_end_input (tx_stream tx) = bs_end_input (tx_stream ?tx)"
    "tx_abs_ackno tx \<in> {tx_abs_ackno ?tx, ?a}"
  proof -
    consider "tx_next_seqno ?tx < ?a" | "?a \<le> tx_abs_ackno ?tx" | "tx_abs_ackno ?tx < ?a" "?a \<le> tx_next_seqno ?tx"
      by linarith
    then show thesis
    proof cases
      case 3
      then obtain tx2 where tx2: "tx_acked S ?a w ?tx tx2" "tx_ack_received ackno w ?tx = tx_fill_window tx2"
        using tx_ack_received_spec(3) [OF h(1)] by blast
      moreover from this obtain tx' news where "tx_fill_window tx2 = Inr tx'" "tx_sent S tx2 tx' news"
        using tx_fill_window_spec [of S tx2] by (auto simp: tx_acked_def)
      ultimately show thesis by (intro that [of tx']) (auto simp: tx_acked_def tx_sent_def)
    qed (use h(1) tx_ack_received_spec(1,2) [OF h(1)] that in force)+
  qed
  have g: "tc_grows tc (tc\<lparr>tc_sender := tx\<rparr>)" using tx by (intro tc_grows_sent)
  have i: "tc_inv S R isn (tc\<lparr>tc_sender := tx\<rparr>)"
    using tx(2) tx_plain_ack_received [OF h(2) tx(1)] g by (intro tc_inv_sender [OF inv])
  note s = tc_send_segments_inv [OF i]
  show thesis using tx(1,6) s(1) tc_grows_trans [OF g s(2)] by (intro that)
qed

text \<open>Step 4: an answer to a segment that occupies sequence numbers.\<close>

lemma tc_reply_spec:
  assumes inv: "tc_inv S R isn tc"
  obtains b tc3 tc4 news where "tc_fill_window tc = Inr (b, tc3)"
    and "tc4 = (if \<not> b then snd (tc_send_segments (tc3\<lparr>tc_sender := tx_send_empty_segment (tc_sender tc3)\<rparr>)) else tc3)"
    and "tc_inv S R isn tc4" and "tc_grows tc tc4" and "tc_receiver tc4 = tc_receiver tc"
    and "tx_abs_ackno (tc_sender tc4) = tx_abs_ackno (tc_sender tc)"
    and "tc_segments_out tc4 = tc_segments_out tc @ map (tc_stamp (tc_receiver tc)) news" and "news \<noteq> []"
proof -
  obtain b tc3 news where f: "tc_fill_window tc = Inr (b, tc3)" "tc_inv S R isn tc3" "tc_grows tc tc3"
    "0 < tx_next_seqno (tc_sender tc3)" "tc_receiver tc3 = tc_receiver tc"
    "tx_abs_ackno (tc_sender tc3) = tx_abs_ackno (tc_sender tc)"
    "tc_segments_out tc3 = tc_segments_out tc @ map (tc_stamp (tc_receiver tc)) news" "b \<longleftrightarrow> news \<noteq> []"
    by (rule tc_fill_window_spec [OF inv]) blast
  let ?tc = "tc3\<lparr>tc_sender := tx_send_empty_segment (tc_sender tc3)\<rparr>"
  note e = tc_empty_inv [OF f(2,4)]
  note s = tc_send_segments_inv [OF e(1)]
  show thesis
  proof (cases b)
    case True
    then show thesis using f by (intro that [OF f(1) refl]) auto
  next
    case False
    have "tx_segments_out (tx_send_empty_segment (tc_sender tc3)) \<noteq> []"
      by (simp add: tx_send_empty_segment_def)
    then show thesis
      using False f s(1) tc_grows_trans [OF f(3) tc_grows_trans [OF e(2) s(2)]]
      by (intro that [OF f(1) refl, of "tx_segments_out (tx_send_empty_segment (tc_sender tc3))"])
        (auto simp: tc_send_segments_eq tx_send_empty_segment_def)
  qed
qed

lemma rx_set_error_simps [simp]:
  "rx_sound R isn (rx_set_error rx) = rx_sound R isn rx" "rx_abs_ackno (rx_set_error rx) = rx_abs_ackno rx"
  "rx_ackno (rx_set_error rx) = rx_ackno rx" "rx_window_size (rx_set_error rx) = rx_window_size rx"
  "rx_capacity (rx_set_error rx) = rx_capacity rx" "rx_syn (rx_set_error rx) = rx_syn rx"
  "bs_error (rx_stream_out (rx_set_error rx))"
  "bs_bytes_read (rx_stream_out (rx_set_error rx)) = bs_bytes_read (rx_stream_out rx)"
  "bs_contents (rx_stream_out (rx_set_error rx)) = bs_contents (rx_stream_out rx)"
  "bs_input_ended (rx_stream_out (rx_set_error rx)) = bs_input_ended (rx_stream_out rx)"
  "sr_next_pos (rx_reassembler (rx_set_error rx)) = sr_next_pos (rx_reassembler rx)"
  "sr_fin (rx_reassembler (rx_set_error rx)) = sr_fin (rx_reassembler rx)"
  by (simp_all add: rx_set_error_def rx_sound_def sr_sound_def sr_inv_def sr_agree_def sr_window_end_def
      rx_abs_ackno_def rx_ackno_def rx_window_size_def rx_stream_out_def bs_set_error_def bs_inv_def
      bs_contents_def bs_input_ended_def bs_remaining_capacity_def Let_def sr_fin_def)

lemma tc_passive_close_inv:
  assumes inv: "tc_inv S R isn tc"
  shows "tc_inv S R isn (tc_passive_close tc)" "tc_grows tc (tc_passive_close tc)"
proof -
  let ?s = "bs_set_error (tx_stream (tc_sender tc))"
  show g: "tc_grows tc (tc_passive_close tc)"
    by (simp add: tc_passive_close_def tc_grows_def bs_set_error_def)
  have tx: "tx_inv S (tc_sender tc)" "rx_sound R isn (tc_receiver tc)" using inv by (simp_all add: tc_inv_def)
  have "bs_source S (tx_stream (tc_sender tc))" using tx by (simp add: tx_inv_def)
  moreover have "bs_inv ?s = bs_inv (tx_stream (tc_sender tc))" "bs_contents ?s = bs_contents (tx_stream (tc_sender tc))"
    "bs_bytes_read ?s = bs_bytes_read (tx_stream (tc_sender tc))"
    by (simp_all add: bs_set_error_def bs_inv_def bs_contents_def)
  ultimately have "bs_source S ?s" unfolding bs_source_def by simp
  then have "tx_inv S ((tc_sender tc)\<lparr>tx_stream := ?s\<rparr>)"
    by (intro tx_inv_stream [OF tx(1)]) (simp_all add: bs_set_error_def)
  then show "tc_inv S R isn (tc_passive_close tc)"
    using inv tx(2) by (intro tc_inv_step [OF inv g, where news = "[]"]) (simp_all add: tc_passive_close_def tc_inv_def)
qed

lemma tc_send_rst_inv:
  assumes inv: "tc_inv S R isn tc" and "0 < tx_next_seqno (tc_sender tc)"
  shows "tc_inv S R isn (tc_send_rst_segment tc)" "tc_grows tc (tc_send_rst_segment tc)"
proof -
  let ?tc = "tc_send_rst_segment tc" and ?tx = "tx_send_empty_segment (tc_sender tc)"
  have e: "tx_inv S ?tx" "tx_plain ?tx" "rx_sound R isn (tc_receiver tc)"
    using inv assms(2) by (simp_all add: tc_inv_def tx_send_empty_inv tx_plain_send_empty)
  have ne: "tx_segments_out ?tx \<noteq> []" by (simp add: tx_send_empty_segment_def)
  show g: "tc_grows tc ?tc"
    by (simp add: tc_send_rst_segment_def tc_grows_def tx_send_empty_segment_def Let_def)
  have tl: "set (tl (tx_segments_out ?tx)) \<subseteq> set (tx_segments_out ?tx)"
    using ne by (auto dest: list.set_sel(2))
  have hd: "emitted S ?tx (hd (tx_segments_out ?tx))" "plain (hd (tx_segments_out ?tx))"
    using e ne by (simp_all add: tx_inv_def tx_plain_def)
  show "tc_inv S R isn ?tc"
  proof (rule tc_inv_step [OF inv g])
    show "tc_segments_out ?tc = tc_segments_out tc @ [last (tc_segments_out ?tc)]"
      by (simp add: tc_send_rst_segment_def Let_def)
    fix seg
    assume "seg \<in> set [last (tc_segments_out ?tc)]"
    then have seg: "seg = last (tc_segments_out ?tc)" by simp
    let ?h = "(ts_header (hd (tx_segments_out ?tx)))\<lparr>th_rst := True\<rparr>"
    have "emitted S ?tx seg = emitted S ?tx (hd (tx_segments_out ?tx))"
      unfolding seg
      by (intro emitted_cong) (simp_all add: tc_send_rst_segment_def set_ackno_def Let_def split: option.splits)
    moreover have "acks isn (rx_abs_ackno (tc_receiver tc)) seg"
      by (rule acks_set_ackno [OF e(3), of ?h])
        (use hd(2) in \<open>simp_all add: seg tc_send_rst_segment_def plain_def Let_def\<close>)
    ultimately show "emitted S (tc_sender ?tc) seg \<and> acks isn (rx_abs_ackno (tc_receiver ?tc)) seg"
      using hd(1) by (simp add: tc_send_rst_segment_def Let_def)
  qed (use e tl in \<open>auto simp: tc_send_rst_segment_def tx_plain_def Let_def intro: tx_pop_inv\<close>)
qed

lemma tc_segment_received_spec:
  assumes inv: "tc_inv S R isn tc" and c: "carries R isn n seg" and lim: "length R + 2 ^ 33 < 2 ^ 64"
    and near: "rx_syn (tc_receiver tc) \<longrightarrow> n < sr_next_pos (rx_reassembler (tc_receiver tc)) + 1 + 2 ^ 31"
      "rx_syn (tc_receiver tc) \<longrightarrow> sr_next_pos (rx_reassembler (tc_receiver tc)) + 1 \<le> n + 2 ^ 31"
    and "\<not> th_rst (ts_header seg)"
  obtains tc' rx' where "tc_segment_received seg tc = Inr tc'" and "tc_inv S R isn tc'" and "tc_grows tc tc'"
    and "rx_segment_received seg (tc_receiver tc) = Inr rx'" and "tc_receiver tc' = rx'"
    and "bs_bytes_read (rx_stream_out rx') = bs_bytes_read (rx_stream_out (tc_receiver tc))"
    and "tx_abs_ackno (tc_sender tc') = tx_abs_ackno (tc_sender tc) \<or>
         th_ack (ts_header seg) \<and> tx_abs_ackno (tc_sender tc') =
           unwrap (th_ackno (ts_header seg)) (tx_isn (tc_sender tc)) (tx_abs_ackno (tc_sender tc))"
    and "0 < ts_length_in_sequence_space seg \<longrightarrow>
         (\<exists>old news. tc_segments_out tc' = old @ map (tc_stamp rx') news \<and> news \<noteq> [] \<and>
                     prefix (tc_segments_out tc) old)"
proof -
  define tc0 where "tc0 = tc\<lparr>tc_time_since_last_segment_received := 0\<rparr>"
  have rx0: "rx_sound R isn (tc_receiver tc)" using inv by (simp add: tc_inv_def)
  obtain rx where rx: "rx_segment_received seg (tc_receiver tc) = Inr rx" "rx_sound R isn rx"
    "rx_capacity rx = rx_capacity (tc_receiver tc)" "rx_abs_ackno (tc_receiver tc) \<le> rx_abs_ackno rx"
    "bs_bytes_read (rx_stream_out rx) = bs_bytes_read (rx_stream_out (tc_receiver tc))"
    by (rule rx_segment_received_spec [OF rx0 c lim near])
  define tc1 where "tc1 = tc0\<lparr>tc_receiver := rx\<rparr>"
  have g1: "tc_grows tc tc1" using rx by (simp add: tc1_def tc0_def tc_grows_def)
  have i1: "tc_inv S R isn tc1"
    using inv rx(2) by (intro tc_inv_step [OF inv g1, where news = "[]"]) (simp_all add: tc1_def tc0_def tc_inv_def)
  define r2 where "r2 = (if th_ack (ts_header seg)
    then bindE (tx_ack_received (th_ackno (ts_header seg)) (th_win (ts_header seg)) (tc_sender tc1))
           (\<lambda>tx. Inr (snd (tc_send_segments (tc1\<lparr>tc_sender := tx\<rparr>))))
    else Inr tc1)"
  obtain tc2 where tc2: "r2 = Inr tc2" "tc_inv S R isn tc2" "tc_grows tc1 tc2" "tc_receiver tc2 = rx"
    "prefix (tc_segments_out tc) (tc_segments_out tc2)"
    "tx_abs_ackno (tc_sender tc2) = tx_abs_ackno (tc_sender tc) \<or>
     th_ack (ts_header seg) \<and> tx_abs_ackno (tc_sender tc2) =
       unwrap (th_ackno (ts_header seg)) (tx_isn (tc_sender tc)) (tx_abs_ackno (tc_sender tc))"
  proof (cases "th_ack (ts_header seg)")
    case False
    then show thesis using i1 by (intro that [of tc1]) (simp_all add: r2_def tc1_def tc0_def)
  next
    case True
    obtain tx where "tx_ack_received (th_ackno (ts_header seg)) (th_win (ts_header seg)) (tc_sender tc1) = Inr tx"
      "tc_inv S R isn (snd (tc_send_segments (tc1\<lparr>tc_sender := tx\<rparr>)))"
      "tc_grows tc1 (snd (tc_send_segments (tc1\<lparr>tc_sender := tx\<rparr>)))"
      "tx_abs_ackno tx \<in> {tx_abs_ackno (tc_sender tc1),
           unwrap (th_ackno (ts_header seg)) (tx_isn (tc_sender tc1)) (tx_abs_ackno (tc_sender tc1))}"
      by (rule tc_ack_spec [OF i1])
    with True show thesis
      by (intro that [of "snd (tc_send_segments (tc1\<lparr>tc_sender := tx\<rparr>))"])
        (auto simp: r2_def tc_send_segments_eq tc1_def tc0_def)
  qed
  define r4 where "r4 = (if 0 < ts_length_in_sequence_space seg
    then bindE (tc_fill_window tc2) (\<lambda>(is_send, tc3).
           if \<not> is_send
           then Inr (snd (tc_send_segments (tc3\<lparr>tc_sender := tx_send_empty_segment (tc_sender tc3)\<rparr>)))
           else Inr tc3)
    else Inr tc2)"
  obtain tc4 where tc4: "r4 = Inr tc4" "tc_inv S R isn tc4" "tc_grows tc2 tc4" "tc_receiver tc4 = rx"
    "tx_abs_ackno (tc_sender tc4) = tx_abs_ackno (tc_sender tc2)"
    "0 < ts_length_in_sequence_space seg \<longrightarrow>
       (\<exists>news. tc_segments_out tc4 = tc_segments_out tc2 @ map (tc_stamp rx) news \<and> news \<noteq> [])"
  proof (cases "0 < ts_length_in_sequence_space seg")
    case False
    then show thesis using tc2 by (intro that [of tc2]) (simp_all add: r4_def)
  next
    case True
    obtain b tc3 tc4 news where "tc_fill_window tc2 = Inr (b, tc3)"
      "tc4 = (if \<not> b then snd (tc_send_segments (tc3\<lparr>tc_sender := tx_send_empty_segment (tc_sender tc3)\<rparr>)) else tc3)"
      "tc_inv S R isn tc4" "tc_grows tc2 tc4" "tc_receiver tc4 = tc_receiver tc2"
      "tx_abs_ackno (tc_sender tc4) = tx_abs_ackno (tc_sender tc2)"
      "tc_segments_out tc4 = tc_segments_out tc2 @ map (tc_stamp (tc_receiver tc2)) news" "news \<noteq> []"
      by (rule tc_reply_spec [OF tc2(2)])
    with True tc2(4) show thesis by (intro that [of tc4]) (auto simp: r4_def)
  qed
  have run: "tc_segment_received seg tc = bindE r2 (\<lambda>tc2. bindE (if 0 < ts_length_in_sequence_space seg
    then bindE (tc_fill_window tc2) (\<lambda>(is_send, tc3).
           if \<not> is_send
           then Inr (snd (tc_send_segments (tc3\<lparr>tc_sender := tx_send_empty_segment (tc_sender tc3)\<rparr>)))
           else Inr tc3)
    else Inr tc2) (\<lambda>tc4. Inr (tc_test_end tc4)))"
    using rx(1) assms(6) by (simp add: tc_segment_received_def r2_def tc1_def tc0_def Let_def)
  have "tc_segment_received seg tc = Inr (tc_test_end tc4)"
    unfolding run tc2(1) bindE_Inr r4_def [symmetric] tc4(1) ..
  moreover have "tc_grows tc tc4" by (rule tc_grows_trans [OF tc_grows_trans [OF g1 tc2(3)] tc4(3)])
  ultimately show thesis
    using tc2(5,6) tc4 rx by (intro that [of "tc_test_end tc4" rx]) (auto simp: tc_test_end_inv)
qed

lemma tx_tick_fields [simp]:
  "tx_isn (tx_tick ms tx) = tx_isn tx" "tx_next_seqno (tx_tick ms tx) = tx_next_seqno tx"
  "tx_stream (tx_tick ms tx) = tx_stream tx" "tx_abs_ackno (tx_tick ms tx) = tx_abs_ackno tx"
  "tx_segments_track (tx_tick ms tx) = tx_segments_track tx"
  "tx_bytes_in_flight (tx_tick ms tx) = tx_bytes_in_flight tx"
  by (simp_all add: tx_tick_def Let_def split: prod.splits list.splits)

lemma tx_plain_counting:
  assumes "tx_inv S tx" and "tx_plain tx" and "rt_consecutive_retransmissions (tx_timer tx) \<noteq> 0"
  shows "0 < tx_next_seqno tx"
proof -
  have "rt_running (tx_timer tx)" using assms(2,3) by (auto simp: tx_plain_def)
  then have "tx_segments_track tx \<noteq> []" using assms(1) by (simp add: tx_inv_def)
  then show ?thesis using tx_inv_bounds(5) [OF assms(1)] assms(1) by (simp add: tx_inv_def)
qed

lemma tc_tick_spec:
  assumes inv: "tc_inv S R isn tc"
  shows "tc_inv S R isn (tc_tick ms tc)" "tc_grows tc (tc_tick ms tc)"
    "tx_abs_ackno (tc_sender (tc_tick ms tc)) = tx_abs_ackno (tc_sender tc)"
    "tc_receiver (tc_tick ms tc) = tc_receiver tc \<or> tc_receiver (tc_tick ms tc) = rx_set_error (tc_receiver tc)"
proof -
  let ?tx = "tx_tick ms (tc_sender tc)"
  define tc1 where "tc1 = tc\<lparr>tc_time_since_last_segment_received :=
      u64 (tc_time_since_last_segment_received tc + ms), tc_sender := ?tx\<rparr>"
  have tx: "tx_inv S ?tx" "tx_plain ?tx"
    using inv by (simp_all add: tc_inv_def tx_tick_inv tx_plain_tick)
  have g1: "tc_grows tc tc1" by (simp add: tc1_def tc_grows_def)
  have i1: "tc_inv S R isn tc1"
    using inv tx by (intro tc_inv_step [OF inv g1, where news = "[]"]) (simp_all add: tc1_def tc_inv_def)
  note p = tc_passive_close_inv [OF i1]
  have eq: "tc_tick ms tc = (if rt_consecutive_retransmissions (tx_timer ?tx) > MAX_RETX_ATTEMPTS
      then tc_send_rst_segment (tc_passive_close tc1) else tc_test_end (snd (tc_send_segments tc1)))"
    by (simp add: tc_tick_def tc1_def Let_def)
  have "tc_inv S R isn (tc_tick ms tc) \<and> tc_grows tc (tc_tick ms tc)"
  proof (cases "rt_consecutive_retransmissions (tx_timer ?tx) > MAX_RETX_ATTEMPTS")
    case True
    then have "0 < tx_next_seqno ?tx"
      by (intro tx_plain_counting [OF tx]) (auto simp: MAX_RETX_ATTEMPTS_def)
    then have "0 < tx_next_seqno (tc_sender (tc_passive_close tc1))"
      by (simp add: tc_passive_close_def tc1_def)
    from tc_send_rst_inv [OF p(1) this] True show ?thesis
      using tc_grows_trans [OF g1 p(2)] tc_grows_trans by (auto simp: eq)
  next
    case False
    with tc_send_segments_inv [OF i1] show ?thesis
      using tc_grows_trans [OF g1] by (simp add: eq tc_test_end_inv)
  qed
  then show "tc_inv S R isn (tc_tick ms tc)" "tc_grows tc (tc_tick ms tc)" by simp_all
  show "tx_abs_ackno (tc_sender (tc_tick ms tc)) = tx_abs_ackno (tc_sender tc)"
    "tc_receiver (tc_tick ms tc) = tc_receiver tc \<or> tc_receiver (tc_tick ms tc) = rx_set_error (tc_receiver tc)"
    by (simp_all add: eq tc1_def tc_send_rst_segment_def tc_passive_close_def tc_send_segments_eq
        tx_send_empty_segment_def Let_def)
qed

lemma tc_inv_write:
  assumes inv: "tc_inv S R isn tc" and "\<not> bs_end_input (tx_stream (tc_sender tc))"
    and w: "tx_write data (tc_sender tc) = (n, tx)" and "length S + length data + 2 ^ 33 < 2 ^ 64"
  shows "tc_inv (S @ take n data) R isn (tc\<lparr>tc_sender := tx\<rparr>)" "tc_grows tc (tc\<lparr>tc_sender := tx\<rparr>)"
proof -
  have tx0: "tx_inv S (tc_sender tc)" "tx_plain (tc_sender tc)" using inv by (simp_all add: tc_inv_def)
  have same: "tx_isn tx = tx_isn (tc_sender tc)" "tx_plain tx"
    using w tx0(2) by (auto simp: tx_write_def split: prod.splits)
  note t = tx_write_inv [OF tx0(1) assms(2) w assms(4)]
  have "emitted (S @ take n data) tx seg" if "emitted S (tc_sender tc) seg" for seg
  proof -
    have "\<not> th_fin (ts_header seg) \<or> \<not> carries S (tx_isn (tc_sender tc)) m seg \<or>
        \<not> m + ts_length_in_sequence_space seg \<le> tx_next_seqno (tc_sender tc)" for m
      using emitted_fin [OF tx0(1)] assms(2) by blast
    then show ?thesis
      using that t same carries_append unfolding emitted_def by metis
  qed
  then show "tc_inv (S @ take n data) R isn (tc\<lparr>tc_sender := tx\<rparr>)"
    using inv conjunct1 [OF t] same(2) by (simp add: tc_inv_def)
  show "tc_grows tc (tc\<lparr>tc_sender := tx\<rparr>)" using t same assms(2) by (simp add: tc_grows_def)
qed

lemma tc_write_spec:
  assumes inv: "tc_inv S R isn tc" and "\<not> bs_end_input (tx_stream (tc_sender tc))"
    and "length S + length data + 2 ^ 33 < 2 ^ 64"
  obtains n tc' where "tc_write data tc = Inr (n, tc')" and "tc_inv (S @ take n data) R isn tc'"
    and "tc_grows tc tc'" and "tc_receiver tc' = tc_receiver tc"
    and "tx_abs_ackno (tc_sender tc') = tx_abs_ackno (tc_sender tc)"
    and "n = min (tc_remaining_outbound_capacity tc) (length data)"
proof (cases "data = []")
  case True
  then show thesis using inv by (intro that [of 0 tc]) (simp_all add: tc_write_def)
next
  case False
  obtain n tx where w: "tx_write data (tc_sender tc) = (n, tx)" by fastforce
  note i = tc_inv_write [OF inv assms(2) w assms(3)]
  have tx0: "tx_inv S (tc_sender tc)" using inv by (simp add: tc_inv_def)
  have n: "n = min (bs_remaining_capacity (tx_stream (tc_sender tc))) (length data)"
    using tx_write_inv [OF tx0 assms(2) w assms(3)] by simp
  have "tx_abs_ackno tx = tx_abs_ackno (tc_sender tc)" using w by (auto simp: tx_write_def split: prod.splits)
  moreover obtain b tc' where f: "tc_fill_window (tc\<lparr>tc_sender := tx\<rparr>) = Inr (b, tc')"
    "tc_inv (S @ take n data) R isn tc'" "tc_grows (tc\<lparr>tc_sender := tx\<rparr>) tc'"
    "tc_receiver tc' = tc_receiver (tc\<lparr>tc_sender := tx\<rparr>)"
    "tx_abs_ackno (tc_sender tc') = tx_abs_ackno (tc_sender (tc\<lparr>tc_sender := tx\<rparr>))"
    by (rule tc_fill_window_spec [OF i(1)])
  ultimately show thesis
    using False w n tc_grows_trans [OF i(2) f(3)]
    by (intro that [of n tc']) (simp_all add: tc_write_def tc_remaining_outbound_capacity_def)
qed

lemma tc_end_input_spec:
  assumes inv: "tc_inv S R isn tc"
  obtains tc' where "tc_end_input_stream tc = Inr tc'" and "tc_inv S R isn tc'"
    and "tc_grows tc tc'" and "tc_receiver tc' = tc_receiver tc"
    and "tx_abs_ackno (tc_sender tc') = tx_abs_ackno (tc_sender tc)"
proof -
  let ?tc = "tc\<lparr>tc_sender := tx_end_input (tc_sender tc)\<rparr>"
  have g: "tc_grows tc ?tc" by (simp add: tc_grows_def tx_end_input_def bs_do_end_input_def)
  moreover have "tx_plain (tx_end_input (tc_sender tc))" using inv by (simp add: tc_inv_def tx_end_input_def)
  ultimately have "tc_inv S R isn ?tc"
    using inv by (intro tc_inv_sender) (simp_all add: tc_inv_def tx_end_input_inv)
  then obtain b tc' where "tc_fill_window ?tc = Inr (b, tc')" "tc_inv S R isn tc'" "tc_grows ?tc tc'"
    "tc_receiver tc' = tc_receiver ?tc" "tx_abs_ackno (tc_sender tc') = tx_abs_ackno (tc_sender ?tc)"
    by (rule tc_fill_window_spec)
  then show thesis
    using tc_grows_trans [OF g] by (intro that [of tc']) (simp_all add: tc_end_input_stream_def tx_end_input_def)
qed

lemma tc_connect_spec:
  assumes inv: "tc_inv S R isn tc"
  obtains tc' where "tc_connect tc = Inr tc'" and "tc_inv S R isn tc'" and "tc_grows tc tc'"
    and "tc_receiver tc' = tc_receiver tc" and "tx_abs_ackno (tc_sender tc') = tx_abs_ackno (tc_sender tc)"
proof (cases "tx_next_seqno (tc_sender tc) = 0")
  case False
  then show thesis using inv by (intro that [of tc]) (simp_all add: tc_connect_def)
next
  case True
  obtain b tc' where "tc_fill_window tc = Inr (b, tc')" "tc_inv S R isn tc'" "tc_grows tc tc'"
    "tc_receiver tc' = tc_receiver tc" "tx_abs_ackno (tc_sender tc') = tx_abs_ackno (tc_sender tc)"
    by (rule tc_fill_window_spec [OF inv])
  with True show thesis by (intro that [of "tc'\<lparr>tc_active := True\<rparr>"]) (simp_all add: tc_connect_def)
qed

lemma tc_read_spec:
  assumes inv: "tc_inv S R isn tc" and "length R + rx_capacity (tc_receiver tc) < 2 ^ 64"
  obtains d tc' where "tc_read n tc = Inr (d, tc')" and "tc_inv S R isn tc'" and "tc_grows tc tc'"
    and "tc_sender tc' = tc_sender tc"
    and "agrees R (bs_bytes_read (rx_stream_out (tc_receiver tc))) d"
    and "bs_bytes_read (rx_stream_out (tc_receiver tc')) =
         bs_bytes_read (rx_stream_out (tc_receiver tc)) + length d"
proof -
  have "rx_sound R isn (tc_receiver tc)" using inv by (simp add: tc_inv_def)
  from rx_read_spec [OF this assms(2)] obtain d rx where r: "rx_read n (tc_receiver tc) = Inr (d, rx)"
    "rx_sound R isn rx" "rx_capacity rx = rx_capacity (tc_receiver tc)"
    "agrees R (bs_bytes_read (rx_stream_out (tc_receiver tc))) d"
    "bs_bytes_read (rx_stream_out rx) = bs_bytes_read (rx_stream_out (tc_receiver tc)) + length d"
    "rx_abs_ackno rx = rx_abs_ackno (tc_receiver tc)"
    by metis
  let ?tc' = "tc\<lparr>tc_receiver := rx\<rparr>"
  have g: "tc_grows tc ?tc'" using r by (simp add: tc_grows_def)
  have "tc_inv S R isn ?tc'"
    using inv r(2) by (intro tc_inv_step [OF inv g, where news = "[]"]) (simp_all add: tc_inv_def)
  with g r show thesis by (intro that [of d ?tc']) (simp_all add: tc_read_def)
qed

lemma tc_inv_pop:
  "tc_inv S R isn tc \<Longrightarrow> tc_segments_out tc = seg # segs \<Longrightarrow> tc_inv S R isn (tc\<lparr>tc_segments_out := segs\<rparr>)"
  by (simp add: tc_inv_def)

lemma tc_inv_new:
  "cfg_send_capacity cfg < 2 ^ 64 \<Longrightarrow> cfg_recv_capacity cfg < 2 ^ 64 \<Longrightarrow>
   tc_inv [] R isn (TCPConnection_new cfg random)"
  by (simp add: tc_inv_def TCPConnection_new_def tx_new_inv tx_plain_new rx_sound_new)

section \<open>Correctness\<close>

text \<open>
  Everything that can happen to a connection whose peer sends the stream \<open>R\<close> from the initial
  sequence number \<open>isn\<close>: calls of the application, segments of the peer in any order and any number
  of times, and the passage of time. \<open>S\<close> is what the application has written so far.
\<close>

inductive tc_reachable :: "bytes \<Rightarrow> WrappingInt32 \<Rightarrow> bytes \<Rightarrow> TCPConnection \<Rightarrow> bool" for R isn where
  start: "cfg_send_capacity cfg < 2 ^ 64 \<Longrightarrow> cfg_recv_capacity cfg + length R < 2 ^ 64 \<Longrightarrow>
    tc_reachable R isn [] (TCPConnection_new cfg random)"
| connect: "tc_reachable R isn S tc \<Longrightarrow> tc_connect tc = Inr tc' \<Longrightarrow> tc_reachable R isn S tc'"
| put: "tc_reachable R isn S tc \<Longrightarrow> \<not> bs_end_input (tx_stream (tc_sender tc)) \<Longrightarrow>
    length S + length data + 2 ^ 33 < 2 ^ 64 \<Longrightarrow> tc_write data tc = Inr (n, tc') \<Longrightarrow>
    tc_reachable R isn (S @ take n data) tc'"
| finish: "tc_reachable R isn S tc \<Longrightarrow> tc_end_input_stream tc = Inr tc' \<Longrightarrow> tc_reachable R isn S tc'"
| segment: "tc_reachable R isn S tc \<Longrightarrow> carries R isn n seg \<Longrightarrow> tc_segment_received seg tc = Inr tc' \<Longrightarrow>
    tc_reachable R isn S tc'"
| tick: "tc_reachable R isn S tc \<Longrightarrow> tc_reachable R isn S (tc_tick ms tc)"
| get: "tc_reachable R isn S tc \<Longrightarrow> tc_read n tc = Inr (d, tc') \<Longrightarrow> tc_reachable R isn S tc'"
| pop: "tc_reachable R isn S tc \<Longrightarrow> tc_segments_out tc = seg # segs \<Longrightarrow>
    tc_reachable R isn S (tc\<lparr>tc_segments_out := segs\<rparr>)"

lemma carries_near:
  assumes "rx_sound R isn rx" and "carries R isn n seg" and "length R + 2 < 2 ^ 31"
  shows "n < sr_next_pos (rx_reassembler rx) + 1 + 2 ^ 31" "sr_next_pos (rx_reassembler rx) + 1 \<le> n + 2 ^ 31"
proof -
  have "n \<le> length R + 2" using assms(2) by (auto simp: carries_def agrees_def)
  then show "n < sr_next_pos (rx_reassembler rx) + 1 + 2 ^ 31" using assms(3) by simp
  show "sr_next_pos (rx_reassembler rx) + 1 \<le> n + 2 ^ 31"
    using rx_next_pos_le [OF assms(1)] assms(3) by simp
qed

lemma tc_segment_received_rst:
  "th_rst (ts_header seg) \<Longrightarrow> tc_segment_received seg tc =
     Inr (tc_passive_close (tc\<lparr>tc_time_since_last_segment_received := 0\<rparr>))"
  by (simp add: tc_segment_received_def)

lemma tc_segment_received_inv:
  assumes inv: "tc_inv S R isn tc" and c: "carries R isn n seg" and lim: "length R + 2 < 2 ^ 31"
  obtains tc' where "tc_segment_received seg tc = Inr tc'" and "tc_inv S R isn tc'" and "tc_grows tc tc'"
proof (cases "th_rst (ts_header seg)")
  case True
  let ?tc = "tc\<lparr>tc_time_since_last_segment_received := 0\<rparr>"
  have "tc_inv S R isn ?tc" using inv by simp
  note p = tc_passive_close_inv [OF this]
  then have "tc_grows tc (tc_passive_close ?tc)" by (simp add: tc_grows_def)
  with p show thesis using True by (intro that [of "tc_passive_close ?tc"]) (simp_all add: tc_segment_received_rst)
next
  case False
  have rx: "rx_sound R isn (tc_receiver tc)" using inv by (simp add: tc_inv_def)
  have "length R + 2 ^ 33 < 2 ^ 64" using lim by simp
  from tc_segment_received_spec [OF inv c this _ _ False] carries_near [OF rx c lim] that
  show thesis by metis
qed

lemma tc_reachable_inv:
  assumes "length R + 2 < 2 ^ 31"
  shows "tc_reachable R isn S tc \<Longrightarrow> tc_inv S R isn tc \<and> length R + rx_capacity (tc_receiver tc) < 2 ^ 64"
proof (induction rule: tc_reachable.induct)
  case (start cfg random)
  then show ?case by (simp add: tc_inv_new) (simp add: TCPConnection_new_def TCPReceiver_new_def)
next
  case (connect S tc tc')
  obtain u where "tc_connect tc = Inr u" "tc_inv S R isn u" "tc_grows tc u"
    by (rule tc_connect_spec [OF conjunct1 [OF connect.IH]])
  then show ?case using connect by (simp add: tc_grows_def)
next
  case (put S tc data n tc')
  obtain m u where "tc_write data tc = Inr (m, u)" "tc_inv (S @ take m data) R isn u" "tc_grows tc u"
    by (rule tc_write_spec [OF conjunct1 [OF put.IH] put.hyps(2,3)])
  then show ?case using put.hyps(4) put.IH by (simp add: tc_grows_def)
next
  case (finish S tc tc')
  obtain u where "tc_end_input_stream tc = Inr u" "tc_inv S R isn u" "tc_grows tc u"
    by (rule tc_end_input_spec [OF conjunct1 [OF finish.IH]])
  then show ?case using finish by (simp add: tc_grows_def)
next
  case (segment S tc n seg tc')
  obtain u where "tc_segment_received seg tc = Inr u" "tc_inv S R isn u" "tc_grows tc u"
    by (rule tc_segment_received_inv [OF conjunct1 [OF segment.IH] segment.hyps(2) assms])
  then show ?case using segment by (simp add: tc_grows_def)
next
  case (tick S tc ms)
  then show ?case using tc_tick_spec(1,2) [of S R isn tc ms] by (simp add: tc_grows_def)
next
  case (get S tc n d tc')
  obtain e u where "tc_read n tc = Inr (e, u)" "tc_inv S R isn u" "tc_grows tc u"
    by (rule tc_read_spec [OF conjunct1 [OF get.IH] conjunct2 [OF get.IH]])
  then show ?case using get by (simp add: tc_grows_def)
next
  case (pop S tc seg segs)
  then show ?case using tc_inv_pop by simp
qed

text \<open>C25: a connection in every state that any sequence of calls, segments of the peer and ticks can
  lead to. No call throws. Every segment waiting to be sent carries, at the right sequence
  numbers, bytes that the application has written, and if it acknowledges something, it
  acknowledges no more of the peer's stream than was received. Writing accepts as many bytes as
  there is room for.\<close>

theorem connection_invariant:
  assumes "length R + 2 < 2 ^ 31" and "tc_reachable R isn S tc"
  shows "(\<exists>tc'. tc_connect tc = Inr tc') \<and> (\<exists>tc'. tc_end_input_stream tc = Inr tc') \<and>
    (\<forall>n. \<exists>d tc'. tc_read n tc = Inr (d, tc') \<and> agrees R (bs_bytes_read (tc_inbound_stream tc)) d) \<and>
    (\<forall>n seg. carries R isn n seg \<longrightarrow> (\<exists>tc'. tc_segment_received seg tc = Inr tc')) \<and>
    (\<forall>data. \<not> bs_end_input (tx_stream (tc_sender tc)) \<and> length S + length data + 2 ^ 33 < 2 ^ 64 \<longrightarrow>
       (\<exists>tc'. tc_write data tc = Inr (min (tc_remaining_outbound_capacity tc) (length data), tc'))) \<and>
    (\<forall>seg \<in> set (tc_segments_out tc).
       (\<exists>n. carries S (tx_isn (tc_sender tc)) n seg \<and>
          n + ts_length_in_sequence_space seg \<le> tx_next_seqno (tc_sender tc)) \<and>
       (th_ack (ts_header seg) \<longrightarrow>
          (\<exists>a. 0 < a \<and> a \<le> rx_abs_ackno (tc_receiver tc) \<and> th_ackno (ts_header seg) = wrap a isn)))"
proof -
  have inv: "tc_inv S R isn tc" "length R + rx_capacity (tc_receiver tc) < 2 ^ 64"
    using tc_reachable_inv [OF assms] by simp_all
  have "\<exists>d tc'. tc_read n tc = Inr (d, tc') \<and> agrees R (bs_bytes_read (tc_inbound_stream tc)) d" for n
    using tc_read_spec [OF inv, of n] unfolding tc_inbound_stream_def by metis
  moreover have "\<exists>tc'. tc_segment_received seg tc = Inr tc'" if "carries R isn n seg" for n seg
    using tc_segment_received_inv [OF inv(1) that assms(1)] by metis
  moreover have "\<exists>tc'. tc_write data tc = Inr (min (tc_remaining_outbound_capacity tc) (length data), tc')"
    if "\<not> bs_end_input (tx_stream (tc_sender tc)) \<and> length S + length data + 2 ^ 33 < 2 ^ 64" for data
    using tc_write_spec [OF inv(1), of data] that by metis
  moreover have "\<exists>tc'. tc_connect tc = Inr tc'" "\<exists>tc'. tc_end_input_stream tc = Inr tc'"
    using tc_connect_spec [OF inv(1)] tc_end_input_spec [OF inv(1)] by metis+
  ultimately show ?thesis using inv(1) unfolding tc_inv_def emitted_def acks_def by blast
qed

theorem connection_invariant_witness:
  "\<exists>tc'. tc_write [1, 2, 3] (TCPConnection_new TCPConfig_default 7) = Inr (3, tc')"
proof -
  let ?tc = "TCPConnection_new TCPConfig_default 7"
  have "tc_reachable [] 0 [] ?tc"
    by (rule tc_reachable.start) (simp_all add: TCPConfig_default_def DEFAULT_CAPACITY_def)
  from connection_invariant [OF _ this] have
    "\<forall>data. \<not> bs_end_input (tx_stream (tc_sender ?tc)) \<and> length [] + length data + 2 ^ 33 < (2 ^ 64 :: nat) \<longrightarrow>
       (\<exists>tc'. tc_write data ?tc = Inr (min (tc_remaining_outbound_capacity ?tc) (length data), tc'))"
    by simp
  moreover have "\<not> bs_end_input (tx_stream (tc_sender ?tc))"
    by (simp add: TCPConnection_new_def TCPSender_new_def)
  moreover have "length [] + length [1 :: uint8_t, 2, 3] + 2 ^ 33 < (2 ^ 64 :: nat)" by simp
  moreover have "tc_remaining_outbound_capacity ?tc = 64000"
    by (simp add: tc_remaining_outbound_capacity_def TCPConnection_new_def TCPSender_new_def
        TCPConfig_default_def DEFAULT_CAPACITY_def bs_remaining_capacity_def sub64_id)
  moreover have "min 64000 (length [1 :: uint8_t, 2, 3]) = 3" by simp
  ultimately show ?thesis by metis
qed

text \<open>A reset. Whatever the state, a segment with the RST flag puts both byte streams in the error
  state and ends the connection; nothing is sent in answer, and the official state is RESET.\<close>

theorem connection_reset:
  assumes "th_rst (ts_header seg)"
  shows "\<exists>tc'. tc_segment_received seg tc = Inr tc' \<and> \<not> tc_active tc' \<and>
    bs_error (tc_inbound_stream tc') \<and> bs_error (tx_stream (tc_sender tc')) \<and>
    tc_segments_out tc' = tc_segments_out tc \<and> tc_state tc' = TCPState_of_state RESET"
  using assms
  by (simp add: tc_segment_received_rst tc_passive_close_def tc_inbound_stream_def tc_state_def
      TCPState_of_def TCPState_of_state_def tx_state_summary_def rx_state_summary_def)

theorem connection_reset_witness:
  "\<exists>tc'. tc_segment_received (TCPSegment_new\<lparr>ts_header := TCPHeader_new\<lparr>th_rst := True\<rparr>\<rparr>)
     (TCPConnection_new TCPConfig_default 7) = Inr tc' \<and> tc_state tc' = TCPState_of_state RESET"
  using connection_reset [of "TCPSegment_new\<lparr>ts_header := TCPHeader_new\<lparr>th_rst := True\<rparr>\<rparr>"] by fastforce

text \<open>Opening a connection. A new connection is in the state LISTEN; \<^verbatim>\<open>connect\<close> sends exactly one
  segment, the SYN with the initial sequence number, without acknowledgment and with the receive
  capacity (at most 65535) as its window, which leads to SYN_SENT; and calling it again does
  nothing.\<close>

theorem connection_connect:
  fixes cfg :: TCPConfig and random :: WrappingInt32
  assumes "cfg_send_capacity cfg < 2 ^ 64" and "cfg_recv_capacity cfg < 2 ^ 64"
  defines "isn \<equiv> (case cfg_fixed_isn cfg of Some i \<Rightarrow> i | None \<Rightarrow> random)"
  shows "tc_state (TCPConnection_new cfg random) = TCPState_of_state LISTEN \<and>
    (\<exists>tc'. tc_connect (TCPConnection_new cfg random) = Inr tc' \<and>
       tc_segments_out tc' = [TCPSegment_new\<lparr>ts_header := TCPHeader_new\<lparr>th_seqno := isn, th_syn := True,
          th_win := of_nat (min (cfg_recv_capacity cfg) 65535)\<rparr>\<rparr>] \<and>
       tc_state tc' = TCPState_of_state SYN_SENT \<and> tc_connect tc' = Inr tc')"
proof -
  let ?tc = "TCPConnection_new cfg random"
  define tx where "tx = tx_send_no_empty_segment syn_segment (tc_sender ?tc)"
  have tx: "tx_next_seqno tx = 1" "tx_bytes_in_flight tx = 1" "tx_abs_ackno tx = 0" "tx_window tx = 1"
    "tx_segments_out tx = [stamp isn syn_segment]" "\<not> bs_error (tx_stream tx)"
    by (simp_all add: tx_def tx_send_eq TCPConnection_new_def TCPSender_new_def u64_id isn_def
        tx_window_def tx_wrapped_next_seqno_def wrap_def wi_plus_def)
  have "tx_fill_window (tc_sender ?tc) = tx_fill_loop tx"
    by (simp add: tx_fill_window_def tx_def) (simp add: TCPConnection_new_def TCPSender_new_def)
  also have "\<dots> = Inr tx" using tx by (simp add: tx_fill_loop.simps [of tx] sub64_id)
  finally have f: "tx_fill_window (tc_sender ?tc) = Inr tx" .
  have rx: "tc_receiver ?tc = TCPReceiver_new (cfg_recv_capacity cfg)"
    "tc_segments_out ?tc = []" "tc_linger_after_streams_finish ?tc" "tc_active ?tc"
    by (simp_all add: TCPConnection_new_def)
  have ack: "rx_ackno (TCPReceiver_new c) = None" "\<not> bs_error (rx_stream_out (TCPReceiver_new c))" for c
    by (simp_all add: TCPReceiver_new_def rx_ackno_def rx_stream_out_def)
  have win: "rx_window_size (TCPReceiver_new (cfg_recv_capacity cfg)) = cfg_recv_capacity cfg"
    using assms(2) by (simp add: rx_window_size_def TCPReceiver_new_def rx_stream_out_def
        bs_remaining_capacity_def sub64_id)
  define tc' where "tc' = ?tc\<lparr>tc_sender := tx\<lparr>tx_segments_out := []\<rparr>,
    tc_segments_out := [tc_stamp (tc_receiver ?tc) (stamp isn syn_segment)], tc_active := True\<rparr>"
  have "tx_next_seqno (tc_sender ?tc) = 0" by (simp add: TCPConnection_new_def TCPSender_new_def)
  then have "tc_connect ?tc = Inr tc'"
    using f tx by (simp add: tc_connect_def tc_fill_window_def tc_send_segments_eq tc'_def rx)
  moreover have "tc_connect tc' = Inr tc'" using tx by (simp add: tc_connect_def tc'_def)
  moreover have "tc_state tc' = TCPState_of_state SYN_SENT"
    using tx ack by (simp add: tc_state_def TCPState_of_def TCPState_of_state_def tx_state_summary_def
        rx_state_summary_def tc'_def rx)
  moreover have "tc_segments_out tc' = [TCPSegment_new\<lparr>ts_header := TCPHeader_new\<lparr>th_seqno := isn, th_syn := True,
          th_win := of_nat (min (cfg_recv_capacity cfg) 65535)\<rparr>\<rparr>]"
    using ack win by (simp add: tc'_def tc_stamp_def rx set_ackno_def stamp_def syn_segment_def
        TCPSegment_new_def min_def Let_def)
  moreover have "tc_state ?tc = TCPState_of_state LISTEN"
    using ack by (simp add: tc_state_def TCPState_of_def TCPState_of_state_def tx_state_summary_def
        rx_state_summary_def rx) (simp add: TCPConnection_new_def TCPSender_new_def)
  ultimately show ?thesis by blast
qed

theorem connection_connect_witness:
  "\<exists>tc'. tc_connect (TCPConnection_new TCPConfig_default 7) = Inr tc' \<and>
     tc_state tc' = TCPState_of_state SYN_SENT"
  using connection_connect [of TCPConfig_default 7] by (auto simp: TCPConfig_default_def DEFAULT_CAPACITY_def)

text \<open>C27: answers. When a segment of the peer arrives that occupies sequence numbers and has no RST, and the peer's SYN has been
  received before or is in the segment, at least one
  segment is sent, and what is sent last carries the acknowledgment number after the
  arrival and the window that is now free (at most 65535). (A RST is not answered, and data before the SYN gets an answer without
  acknowledgment. The peer's stream is below \<open>2 ^ 31\<close> bytes.)\<close>

theorem connection_reply:
  assumes "tc_inv S R isn tc" and "carries R isn n seg" and "length R + 2 < 2 ^ 31"
    and "\<not> th_rst (ts_header seg)" and "0 < ts_length_in_sequence_space seg"
    and "rx_syn (tc_receiver tc) \<or> th_syn (ts_header seg)"
  shows "\<exists>tc' rx'. tc_segment_received seg tc = Inr tc' \<and>
    rx_segment_received seg (tc_receiver tc) = Inr rx' \<and> tc_receiver tc' = rx' \<and>
    length (tc_segments_out tc) < length (tc_segments_out tc') \<and>
    prefix (tc_segments_out tc) (tc_segments_out tc') \<and>
    (let h = ts_header (last (tc_segments_out tc'))
     in th_ack h \<and> th_ackno h = wrap (rx_abs_ackno rx') isn \<and>
        unat (th_win h) = min (rx_window_size rx') 65535)"
proof -
  have rx: "rx_sound R isn (tc_receiver tc)" using assms(1) by (simp add: tc_inv_def)
  have lim: "length R + 2 ^ 33 < 2 ^ 64" using assms(3) by simp
  note near = carries_near [OF rx assms(2,3)]
  obtain tc' rx' old news where r: "tc_segment_received seg tc = Inr tc'" "tc_inv S R isn tc'"
    "rx_segment_received seg (tc_receiver tc) = Inr rx'" "tc_receiver tc' = rx'"
    "tc_segments_out tc' = old @ map (tc_stamp rx') news" "news \<noteq> []" "prefix (tc_segments_out tc) old"
    using tc_segment_received_spec [OF assms(1,2) lim _ _ assms(4)] near assms(5) by metis
  have rx': "rx_sound R isn rx'" using r(2,4) by (simp add: tc_inv_def)
  have "rx_syn rx'"
    using rx_segment_received_spec [OF rx assms(2) lim] near assms(6) r(3) by (metis Inr_inject)
  then have ack: "rx_ackno rx' = Some (wrap (rx_abs_ackno rx') isn)" using rx_ackno_eq [OF rx'] by simp
  have "last (tc_segments_out tc') = tc_stamp rx' (last news)"
    using r(5,6) by (simp add: last_map)
  moreover have "unat (of_nat (min (rx_window_size rx') 65535) :: uint16_t) = min (rx_window_size rx') 65535"
    by (simp add: unat_of_nat)
  moreover have "prefix (tc_segments_out tc) (tc_segments_out tc')"
    unfolding r(5) using r(7) by (rule prefix_prefix)
  moreover have "length (tc_segments_out tc) < length (tc_segments_out tc')"
    using prefix_length_le [OF r(7)] r(5,6) by (cases news) simp_all
  moreover have "(if x > 65535 then 65535 else x) = min x (65535 :: nat)" for x by simp
  ultimately show ?thesis
    using r(1,3,4) ack by (auto simp: tc_stamp_def set_ackno_def Let_def)
qed

theorem connection_reply_witness:
  "\<exists>tc'. tc_segment_received
      \<lparr>ts_header = TCPHeader_new\<lparr>th_syn := True, th_seqno := 4294967295\<rparr>, ts_payload = buf_of_string [7]\<rparr>
      (TCPConnection_new TCPConfig_default 7) = Inr tc' \<and> 0 < length (tc_segments_out tc')"
proof -
  let ?seg = "\<lparr>ts_header = TCPHeader_new\<lparr>th_syn := True, th_seqno := 4294967295\<rparr>,
    ts_payload = buf_of_string [7]\<rparr>"
  have 1: "tc_inv [] [7, 8] 4294967295 (TCPConnection_new TCPConfig_default 7)"
    by (rule tc_inv_new) (simp_all add: TCPConfig_default_def DEFAULT_CAPACITY_def)
  have 2: "carries [7, 8] 4294967295 0 ?seg"
    by (simp add: carries_def wrap_def wi_plus_def TCPHeader_new_def agrees_def)
  have 3: "0 < ts_length_in_sequence_space ?seg" "\<not> th_rst (ts_header ?seg)" "th_syn (ts_header ?seg)"
    by (simp_all add: ts_length_in_sequence_space_def TCPHeader_new_def)
  show ?thesis using connection_reply [OF 1 2 _ 3(2,1)] 3(3) by fastforce
qed

text \<open>C28: giving up. When the timer expires after \<^verbatim>\<open>MAX_RETX_ATTEMPTS\<close> retransmissions in a row, both
  streams are put in the error state, the connection is over (official state RESET) and one
  segment with RST set is sent. It is not an empty segment: \<^verbatim>\<open>send_rst_segment\<close> takes the
  front of the sender's queue, which is the oldest outstanding segment, retransmitted by the
  same tick, with its sequence number and data; the empty segment stays in the queue.\<close>

theorem connection_abort:
  assumes "tc_inv S R isn tc" and "tx_segments_track (tc_sender tc) = seg # segs"
    and "tx_segments_out (tc_sender tc) = []"
    and "rt_consecutive_retransmissions (tx_timer (tc_sender tc)) = MAX_RETX_ATTEMPTS"
    and "unat (rt_rto (tx_timer (tc_sender tc))) \<le> unat (rt_ms_since_running (tx_timer (tc_sender tc))) + ms"
    and "unat (rt_ms_since_running (tx_timer (tc_sender tc))) + ms < 2 ^ 64"
  shows "\<exists>g. tc_segments_out (tc_tick ms tc) = tc_segments_out tc @ [g] \<and> th_rst (ts_header g) \<and>
    ts_payload g = ts_payload seg \<and> th_seqno (ts_header g) = th_seqno (ts_header seg) \<and>
    th_syn (ts_header g) = th_syn (ts_header seg) \<and> th_fin (ts_header g) = th_fin (ts_header seg) \<and>
    \<not> tc_active (tc_tick ms tc) \<and> bs_error (tc_inbound_stream (tc_tick ms tc)) \<and>
    tc_state (tc_tick ms tc) = TCPState_of_state RESET \<and>
    length (tx_segments_out (tc_sender (tc_tick ms tc))) = 1"
proof -
  let ?tx = "tc_sender tc" and ?t = "tx_timer (tc_sender tc)"
  have run: "rt_running ?t" using assms(1,2) by (simp add: tc_inv_def tx_inv_def)
  have u: "u64 (unat (rt_ms_since_running ?t) + ms) = unat (rt_ms_since_running ?t) + ms"
    using assms(6) by (rule u64_id)
  define t where "t = rt_reset_timer (unat (tx_window_size ?tx)) ?t"
  have tick: "tx_tick ms ?tx = ?tx\<lparr>tx_segments_out := [seg], tx_timer := t\<rparr>"
    using run assms(2,3,5) by (simp add: tx_tick_def rt_timeout_def u t_def)
  have "rt_consecutive_retransmissions t = 9"
    using run assms(4) by (simp add: t_def rt_reset_timer_def MAX_RETX_ATTEMPTS_def Let_def)
  then have eq: "tc_tick ms tc = tc_send_rst_segment (tc_passive_close
      (tc\<lparr>tc_time_since_last_segment_received := u64 (tc_time_since_last_segment_received tc + ms),
          tc_sender := ?tx\<lparr>tx_segments_out := [seg], tx_timer := t\<rparr>\<rparr>))"
    by (simp add: tc_tick_def tick MAX_RETX_ATTEMPTS_def)
  show ?thesis
    unfolding eq
    by (simp add: tc_send_rst_segment_def tc_passive_close_def tx_send_empty_segment_def tc_inbound_stream_def
        tc_state_def TCPState_of_def TCPState_of_state_def tx_state_summary_def rx_state_summary_def
        set_ackno_def bs_set_error_def Let_def split: option.splits)
qed

text \<open>A connection that has sent its SYN and retransmitted it eight times.\<close>

definition tired :: TCPConnection where
  "tired = (TCPConnection_new TCPConfig_default 5)\<lparr>tc_sender :=
     syn_sent\<lparr>tx_segments_out := [],
       tx_timer := (tx_timer syn_sent)\<lparr>rt_consecutive_retransmissions := MAX_RETX_ATTEMPTS, rt_rto := 256000\<rparr>\<rparr>\<rparr>"

theorem connection_abort_witness:
  "\<exists>g. tc_segments_out (tc_tick 256000 tired) = [g] \<and> th_rst (ts_header g) \<and> th_syn (ts_header g)"
proof -
  have "tx_inv [] (tc_sender tired)"
  proof -
    let ?tx = "syn_sent\<lparr>tx_segments_out := []\<rparr>"
    have "tx_inv [] ?tx" by (rule tx_pop_inv [OF syn_sent_inv]) simp
    moreover have "tx_base (tc_sender tired) = tx_base ?tx" "tx_phase [] (tc_sender tired) = tx_phase [] ?tx"
      by (simp_all add: tired_def tx_base_def tx_phase_def)
    ultimately show ?thesis unfolding tx_inv_def by (simp add: tired_def)
  qed
  moreover have "rx_sound [] 0 (TCPReceiver_new (cfg_recv_capacity TCPConfig_default))"
    by (rule rx_sound_new) (simp add: TCPConfig_default_def DEFAULT_CAPACITY_def)
  moreover have "rt_running (tx_timer syn_sent)"
    using syn_sent_inv by (simp add: tx_inv_def syn_sent_simps)
  ultimately have "tc_inv [] [] 0 tired"
    by (simp add: tc_inv_def) (simp add: tired_def TCPConnection_new_def tx_plain_def syn_sent_simps)
  moreover have "tx_segments_track (tc_sender tired) = stamp 5 syn_segment # []" "tx_segments_out (tc_sender tired) = []"
    "rt_consecutive_retransmissions (tx_timer (tc_sender tired)) = MAX_RETX_ATTEMPTS"
    "unat (rt_rto (tx_timer (tc_sender tired))) \<le> unat (rt_ms_since_running (tx_timer (tc_sender tired))) + 256000"
    "unat (rt_ms_since_running (tx_timer (tc_sender tired))) + 256000 < 2 ^ 64"
    by (simp_all add: tired_def syn_sent_simps)
  ultimately obtain g where "tc_segments_out (tc_tick 256000 tired) = tc_segments_out tired @ [g]"
    "th_rst (ts_header g)" "th_syn (ts_header g) = th_syn (ts_header (stamp 5 syn_segment))"
    using connection_abort [of "[]" "[]" 0 tired "stamp 5 syn_segment" "[]" 256000] by blast
  moreover have "tc_segments_out tired = []" by (simp add: tired_def TCPConnection_new_def)
  ultimately show ?thesis by simp
qed

text \<open>The end of a connection whose two streams have both finished.\<close>

definition tc_finished :: "TCPConnection \<Rightarrow> bool" where
  "tc_finished tc \<longleftrightarrow> tc_check_inbound_ended tc \<and> tc_check_outbound_ended tc \<and>
     \<not> rt_running (tx_timer (tc_sender tc)) \<and> rt_consecutive_retransmissions (tx_timer (tc_sender tc)) = 0"

lemma tc_finished_inv:
  assumes "tc_inv S R isn tc" and "tc_check_inbound_ended tc" and "tc_check_outbound_ended tc"
  shows "tc_finished tc"
proof -
  have tx: "tx_inv S (tc_sender tc)" "tx_plain (tc_sender tc)" using assms(1) by (simp_all add: tc_inv_def)
  have "tx_bytes_in_flight (tc_sender tc) = 0" using assms(3) by (simp add: tc_check_outbound_ended_def)
  then have "tx_segments_track (tc_sender tc) = []" unfolding tx_inv_bounds(5) [OF tx(1)] .
  then have "\<not> rt_running (tx_timer (tc_sender tc))" using tx(1) by (simp add: tx_inv_def)
  with tx(2) assms(2,3) show ?thesis by (simp add: tc_finished_def tx_plain_def)
qed

lemma tc_tick_finished:
  assumes "tc_finished tc"
  shows "tc_finished (tc_tick ms tc)"
    and "tc_time_since_last_segment_received (tc_tick ms tc) =
         u64 (tc_time_since_last_segment_received tc + ms)"
    and "tc_linger_after_streams_finish (tc_tick ms tc) = tc_linger_after_streams_finish tc"
    and "tc_cfg (tc_tick ms tc) = tc_cfg tc"
    and "tc_active (tc_tick ms tc) \<longleftrightarrow> tc_active tc \<and> tc_linger_after_streams_finish tc \<and>
         u64 (tc_time_since_last_segment_received tc + ms) < 10 * unat (cfg_rt_timeout (tc_cfg tc))"
proof -
  define tc1 where "tc1 = snd (tc_send_segments (tc\<lparr>tc_time_since_last_segment_received :=
      u64 (tc_time_since_last_segment_received tc + ms)\<rparr>))"
  have same: "tc_receiver tc1 = tc_receiver tc" "tx_stream (tc_sender tc1) = tx_stream (tc_sender tc)"
    "tx_next_seqno (tc_sender tc1) = tx_next_seqno (tc_sender tc)"
    "tx_bytes_in_flight (tc_sender tc1) = tx_bytes_in_flight (tc_sender tc)"
    "tx_timer (tc_sender tc1) = tx_timer (tc_sender tc)" "tc_cfg tc1 = tc_cfg tc"
    "tc_linger_after_streams_finish tc1 = tc_linger_after_streams_finish tc" "tc_active tc1 = tc_active tc"
    "tc_time_since_last_segment_received tc1 = u64 (tc_time_since_last_segment_received tc + ms)"
    by (simp_all add: tc1_def tc_send_segments_eq)
  have chk: "tc_check_inbound_ended tc1" "tc_check_outbound_ended tc1" "bs_eof (tx_stream (tc_sender tc1))"
    using assms by (simp_all add: tc_finished_def tc_check_inbound_ended_def tc_check_outbound_ended_def same)
  have "tx_tick ms (tc_sender tc) = tc_sender tc" using assms by (simp add: tx_tick_def tc_finished_def)
  then have eq: "tc_tick ms tc = tc_test_end tc1"
    using assms by (simp add: tc_tick_def tc1_def tc_finished_def MAX_RETX_ATTEMPTS_def)
  then have eq: "tc_tick ms tc = (if \<not> tc_linger_after_streams_finish tc \<or>
      10 * unat (cfg_rt_timeout (tc_cfg tc)) \<le> u64 (tc_time_since_last_segment_received tc + ms)
      then tc1\<lparr>tc_active := False\<rparr> else tc1)"
    using chk by (simp add: tc_test_end_def same)
  show "tc_finished (tc_tick ms tc)"
    using assms chk unfolding eq tc_finished_def
    by (simp add: same tc_check_inbound_ended_def tc_check_outbound_ended_def)
  show "tc_time_since_last_segment_received (tc_tick ms tc) =
         u64 (tc_time_since_last_segment_received tc + ms)"
    "tc_linger_after_streams_finish (tc_tick ms tc) = tc_linger_after_streams_finish tc"
    "tc_cfg (tc_tick ms tc) = tc_cfg tc"
    "tc_active (tc_tick ms tc) \<longleftrightarrow> tc_active tc \<and> tc_linger_after_streams_finish tc \<and>
         u64 (tc_time_since_last_segment_received tc + ms) < 10 * unat (cfg_rt_timeout (tc_cfg tc))"
    unfolding eq by (auto simp: same)
qed

lemma tc_ticks_finished:
  assumes "tc_finished tc" and "tc_linger_after_streams_finish tc"
    and "tc_time_since_last_segment_received tc + sum_list mss < 2 ^ 64"
    and "tc_active tc \<longleftrightarrow> tc_time_since_last_segment_received tc < 10 * unat (cfg_rt_timeout (tc_cfg tc))"
  shows "tc_active (fold tc_tick mss tc) \<longleftrightarrow>
    tc_time_since_last_segment_received tc + sum_list mss < 10 * unat (cfg_rt_timeout (tc_cfg tc))"
  using assms
proof (induction mss arbitrary: tc)
  case (Cons ms mss)
  have t: "u64 (tc_time_since_last_segment_received tc + ms) = tc_time_since_last_segment_received tc + ms"
    using Cons.prems(3) by (intro u64_id) simp
  have "tc_active (fold tc_tick mss (tc_tick ms tc)) \<longleftrightarrow>
      tc_time_since_last_segment_received (tc_tick ms tc) + sum_list mss <
        10 * unat (cfg_rt_timeout (tc_cfg (tc_tick ms tc)))"
    using Cons.prems by (intro Cons.IH) (auto simp: tc_tick_finished t)
  then show ?case using Cons.prems(1) by (simp add: tc_tick_finished t add.assoc)
qed simp

text \<open>C26: the end of a connection. Once the inbound stream is fully assembled and ended and the
  outbound stream was sent and acknowledged up to its FIN, a connection that need not linger is
  over at the next tick; one that lingers stays active exactly until no segment has arrived for
  ten times the initial retransmission timeout, however that time is divided into ticks. And
  whoever sees the peer's stream end before its own does not have to linger.\<close>

theorem connection_linger:
  assumes "tc_inv S R isn tc" and "tc_check_inbound_ended tc"
  shows "(\<not> bs_eof (tx_stream (tc_sender tc)) \<longrightarrow> \<not> tc_linger_after_streams_finish (tc_test_end tc)) \<and>
    (tc_check_outbound_ended tc \<and> \<not> tc_linger_after_streams_finish tc \<longrightarrow> \<not> tc_active (tc_tick ms tc)) \<and>
    (tc_check_outbound_ended tc \<and> tc_linger_after_streams_finish tc \<and>
     tc_time_since_last_segment_received tc + sum_list mss < 2 ^ 64 \<and>
     (tc_active tc \<longleftrightarrow> tc_time_since_last_segment_received tc < 10 * unat (cfg_rt_timeout (tc_cfg tc))) \<longrightarrow>
     (tc_active (fold tc_tick mss tc) \<longleftrightarrow>
        tc_time_since_last_segment_received tc + sum_list mss < 10 * unat (cfg_rt_timeout (tc_cfg tc))))"
proof (intro conjI impI)
  show "\<not> tc_linger_after_streams_finish (tc_test_end tc)" if "\<not> bs_eof (tx_stream (tc_sender tc))"
    using assms(2) that by (simp add: tc_test_end_def)
  show "\<not> tc_active (tc_tick ms tc)" if "tc_check_outbound_ended tc \<and> \<not> tc_linger_after_streams_finish tc"
    using tc_tick_finished(5) [OF tc_finished_inv [OF assms]] that by simp
qed (use tc_ticks_finished tc_finished_inv [OF assms] in blast)

text \<open>A connection whose two empty streams have been opened and closed.\<close>

definition closing :: TCPConnection where
  "closing = (TCPConnection_new TCPConfig_default 5)\<lparr>
     tc_sender := (TCPSender_new 100 1000 (Some 5) 0)\<lparr>tx_stream := bs_do_end_input (ByteStream_new 100),
       tx_next_seqno := 2, tx_abs_ackno := 2\<rparr>,
     tc_receiver := (TCPReceiver_new 100)\<lparr>rx_syn := True,
       rx_reassembler := (StreamReassembler_new 100)\<lparr>sr_output := bs_do_end_input (ByteStream_new 100)\<rparr>\<rparr>\<rparr>"

lemma closing_inv: "tc_inv [] [] 0 closing"
proof -
  have "sr_sound [] (StreamReassembler_new 100)"
    using rx_sound_new [of 100 "[]" 0] by (simp add: rx_sound_def TCPReceiver_new_def)
  then have "sr_sound [] ((StreamReassembler_new 100)\<lparr>sr_output := bs_do_end_input (ByteStream_new 100)\<rparr>)"
    by (simp add: sr_sound_def sr_inv_def sr_agree_def sr_window_end_def bs_do_end_input_def
        StreamReassembler_new_def bs_inv_def bs_contents_def ByteStream_new_def sr_fin_def)
  then have "rx_sound [] 0 (tc_receiver closing)"
    by (simp add: rx_sound_def closing_def TCPReceiver_new_def StreamReassembler_new_def)
  moreover have "tx_inv [] (tc_sender closing)"
    by (simp add: closing_def tx_inv_def TCPSender_new_def bs_source_def bs_do_end_input_def bs_inv_def
        bs_contents_def ByteStream_new_def tx_phase_def tx_base_def RetransmissionTimer_new_def u64_id)
  moreover have "tx_plain (tc_sender closing)" "tc_segments_out closing = []"
    by (simp_all add: closing_def tx_plain_def TCPSender_new_def RetransmissionTimer_new_def TCPConnection_new_def)
  ultimately show ?thesis by (simp add: tc_inv_def)
qed

theorem connection_linger_witness:
  "tc_active (fold tc_tick [4000, 5999] closing) \<and> \<not> tc_active (fold tc_tick [4000, 6000] closing)"
proof -
  have e: "tc_check_inbound_ended closing" "tc_check_outbound_ended closing"
    "tc_linger_after_streams_finish closing" "tc_time_since_last_segment_received closing = 0"
    "tc_active closing" "cfg_rt_timeout (tc_cfg closing) = 1000"
    by (simp_all add: closing_def tc_check_inbound_ended_def tc_check_outbound_ended_def TCPConnection_new_def
        rx_unassembled_bytes_def StreamReassembler_new_def bs_input_ended_def rx_stream_out_def
        bs_do_end_input_def bs_eof_def TCPSender_new_def u64_id TCPConfig_default_def TIMEOUT_DFLT_def)
  show ?thesis
    using connection_linger [OF closing_inv e(1), of 0 "[4000, 5999]"]
      connection_linger [OF closing_inv e(1), of 0 "[4000, 6000]"] e(2-6) by simp
qed

end
