(* ===== verification/IPv4_Datagram.thy ===== *)
theory IPv4_Datagram
  imports TCP_Segment
begin

unbundle bit_operations_syntax

text \<open>
  \<^verbatim>\<open>tcp_helpers/ipv4_header.cc\<close> and \<^verbatim>\<open>tcp_helpers/ipv4_datagram.cc\<close>: the IPv4 header and datagram,
  their parser and serializer, and the pseudo-header's contribution to the TCP checksum.
\<close>

section \<open>Model\<close>

record IPv4Header =
  ip_ver :: uint8_t
  ip_hlen :: uint8_t
  ip_tos :: uint8_t
  ip_len :: uint16_t
  ip_id :: uint16_t
  ip_df :: bool
  ip_mf :: bool
  ip_offset :: uint16_t
  ip_ttl :: uint8_t
  ip_proto :: uint8_t
  ip_cksum :: uint16_t
  ip_src :: uint32_t
  ip_dst :: uint32_t

definition IPv4Header_LENGTH :: size_t where
  "IPv4Header_LENGTH = 20"

definition DEFAULT_TTL :: uint8_t where
  "DEFAULT_TTL = 128"

definition PROTO_TCP :: uint8_t where
  "PROTO_TCP = 6"

definition IPv4Header_new :: IPv4Header where
  "IPv4Header_new =
     \<lparr>ip_ver = 4, ip_hlen = of_nat (IPv4Header_LENGTH div 4), ip_tos = 0, ip_len = 0, ip_id = 0,
      ip_df = True, ip_mf = False, ip_offset = 0, ip_ttl = DEFAULT_TTL, ip_proto = PROTO_TCP,
      ip_cksum = 0, ip_src = 0, ip_dst = 0\<rparr>"

text \<open>
  The parser leaves the header alone when there are fewer than 20 bytes. Its later checks return
  before the options are skipped, so the parser then stands after the 20 fixed bytes.
\<close>

definition ip_parse :: "IPv4Header \<Rightarrow> NetParser \<Rightarrow> ParseResult \<times> IPv4Header \<times> NetParser" where
  "ip_parse h0 p0 =
     (let original_serialized_version = np_buffer p0;
          data_size = buf_size (np_buffer p0)
      in if data_size < IPv4Header_LENGTH then (PacketTooShort, h0, p0)
         else
           let (first_byte, p1) = np_u8 p0;
               ver = drop_bit 4 first_byte;
               hlen = first_byte AND 0x0f;
               (tos, p2) = np_u8 p1;
               (len, p3) = np_u16 p2;
               (id, p4) = np_u16 p3;
               (fo_val, p5) = np_u16 p4;
               (ttl, p6) = np_u8 p5;
               (proto, p7) = np_u8 p6;
               (cksum, p8) = np_u16 p7;
               (src, p9) = np_u32 p8;
               (dst, p10) = np_u32 p9;
               h = \<lparr>ip_ver = ver, ip_hlen = hlen, ip_tos = tos, ip_len = len, ip_id = id,
                    ip_df = (fo_val AND 0x4000 \<noteq> 0), ip_mf = (fo_val AND 0x2000 \<noteq> 0),
                    ip_offset = fo_val AND 0x1fff, ip_ttl = ttl, ip_proto = proto,
                    ip_cksum = cksum, ip_src = src, ip_dst = dst\<rparr>
           in if data_size < 4 * unat hlen then (PacketTooShort, h, p10)
              else if ver \<noteq> 4 then (WrongIPVersion, h, p10)
              else if hlen < 5 then (HeaderTooShort, h, p10)
              else if data_size \<noteq> unat len then (TruncatedPacket, h, p10)
              else
                let p11 = np_remove_prefix (unat hlen * 4 - IPv4Header_LENGTH) p10
                in if np_error p11 \<noteq> NoError then (np_error p11, h, p11)
                   else
                     let check = ck_add (take (4 * unat hlen) (buf_str original_serialized_version))
                                   (InternetChecksum_new 0)
                     in if ck_value check \<noteq> 0 then (BadChecksum, h, p11) else (NoError, h, p11))"

definition ip_fo_val :: "IPv4Header \<Rightarrow> uint16_t" where
  "ip_fo_val h =
     (if ip_df h then 0x4000 else 0) OR (if ip_mf h then 0x2000 else 0) OR (ip_offset h AND 0x1fff)"

definition ip_serialize :: "IPv4Header \<Rightarrow> exn + bytes" where
  "ip_serialize h =
     (if ip_ver h \<noteq> 4 then Inl (Runtime_error ''wrong IP version'')
      else if 4 * unat (ip_hlen h) < IPv4Header_LENGTH
      then Inl (Runtime_error ''IP header too short'')
      else
        let first_byte = push_bit 4 (ip_ver h) OR (ip_hlen h AND 0xf);
            r1 = un_u8 [] first_byte;
            r2 = un_u8 r1 (ip_tos h);
            r3 = un_u16 r2 (ip_len h);
            r4 = un_u16 r3 (ip_id h);
            r5 = un_u16 r4 (ip_fo_val h);
            r6 = un_u8 r5 (ip_ttl h);
            r7 = un_u8 r6 (ip_proto h);
            r8 = un_u16 r7 (ip_cksum h);
            r9 = un_u32 r8 (ip_src h);
            r10 = un_u32 r9 (ip_dst h)
        in Inr (str_resize (4 * unat (ip_hlen h)) r10))"

definition ip_payload_length :: "IPv4Header \<Rightarrow> uint16_t" where
  "ip_payload_length h = ip_len h - 4 * ucast (ip_hlen h)"

definition ip_pseudo_cksum :: "IPv4Header \<Rightarrow> uint32_t" where
  "ip_pseudo_cksum h =
     (let pcksum = drop_bit 16 (ip_src h) + (ip_src h AND 0xffff);
          pcksum = pcksum + (drop_bit 16 (ip_dst h) + (ip_dst h AND 0xffff));
          pcksum = pcksum + ucast (ip_proto h);
          pcksum = pcksum + ucast (ip_payload_length h)
      in pcksum)"

record IPv4Datagram =
  dg_header :: IPv4Header
  dg_payload :: BufferList

type_synonym InternetDatagram = IPv4Datagram

definition IPv4Datagram_new :: IPv4Datagram where
  "IPv4Datagram_new = \<lparr>dg_header = IPv4Header_new, dg_payload = []\<rparr>"

definition dg_parse :: "Buffer \<Rightarrow> IPv4Datagram \<Rightarrow> ParseResult \<times> IPv4Datagram" where
  "dg_parse buffer dg =
     (let (_, h, p) = ip_parse (dg_header dg) (NetParser_new buffer);
          dg1 = dg\<lparr>dg_header := h, dg_payload := bl_of_buffer (np_buffer p)\<rparr>
      in if bl_size (dg_payload dg1) \<noteq> unat (ip_payload_length h) then (PacketTooShort, dg1)
         else (np_error p, dg1))"

definition dg_serialize :: "IPv4Datagram \<Rightarrow> exn + BufferList" where
  "dg_serialize dg =
     (if bl_size (dg_payload dg) \<noteq> unat (ip_payload_length (dg_header dg))
      then Inl (Runtime_error ''IPv4Datagram::serialize: payload is wrong size'')
      else
        let header_out = (dg_header dg)\<lparr>ip_cksum := 0\<rparr>
        in bindE (ip_serialize header_out) (\<lambda>header_zero_checksum.
           let check = ck_add header_zero_checksum (InternetChecksum_new 0);
               header_out = header_out\<lparr>ip_cksum := ck_value check\<rparr>
           in bindE (ip_serialize header_out) (\<lambda>h1.
              Inr (bl_append (bl_append [] (bl_of_string h1)) (dg_payload dg)))))"

section \<open>Wire format\<close>

definition ip_wire :: "IPv4Header \<Rightarrow> bytes" where
  "ip_wire h =
     [push_bit 4 (ip_ver h) OR (ip_hlen h AND 0xf), ip_tos h,
      byte_of (Suc 0) (ip_len h), byte_of 0 (ip_len h),
      byte_of (Suc 0) (ip_id h), byte_of 0 (ip_id h),
      byte_of (Suc 0) (ip_fo_val h), byte_of 0 (ip_fo_val h),
      ip_ttl h, ip_proto h,
      byte_of (Suc 0) (ip_cksum h), byte_of 0 (ip_cksum h),
      byte_of 3 (ip_src h), byte_of 2 (ip_src h), byte_of (Suc 0) (ip_src h), byte_of 0 (ip_src h),
      byte_of 3 (ip_dst h), byte_of 2 (ip_dst h), byte_of (Suc 0) (ip_dst h), byte_of 0 (ip_dst h)]"

text \<open>Headers that the wire format can carry.\<close>

definition ip_wf :: "IPv4Header \<Rightarrow> bool" where
  "ip_wf h \<longleftrightarrow> ip_ver h = 4 \<and> 5 \<le> unat (ip_hlen h) \<and> unat (ip_hlen h) < 16 \<and>
     unat (ip_offset h) < 2 ^ 13 \<and> 4 * unat (ip_hlen h) \<le> unat (ip_len h)"

definition ip_read :: "bytes \<Rightarrow> IPv4Header" where
  "ip_read bs =
     (let fo_val = join_bytes (take 2 (drop 6 bs))
      in \<lparr>ip_ver = drop_bit 4 (bs ! 0), ip_hlen = bs ! 0 AND 0x0f, ip_tos = bs ! 1,
          ip_len = join_bytes (take 2 (drop 2 bs)), ip_id = join_bytes (take 2 (drop 4 bs)),
          ip_df = (fo_val AND 0x4000 \<noteq> 0), ip_mf = (fo_val AND 0x2000 \<noteq> 0),
          ip_offset = fo_val AND 0x1fff, ip_ttl = bs ! 8, ip_proto = bs ! 9,
          ip_cksum = join_bytes (take 2 (drop 10 bs)),
          ip_src = join_bytes (take 4 (drop 12 bs)), ip_dst = join_bytes (take 4 (drop 16 bs))\<rparr>)"

lemma length_ip_wire [simp]: "length (ip_wire h) = 20"
  by (simp add: ip_wire_def)

lemma ip_wire_cksum:
  "ip_wire (h\<lparr>ip_cksum := c\<rparr>) =
   take 10 (ip_wire h) @ byte_of (Suc 0) c # byte_of 0 c # drop 12 (ip_wire h)"
  by (simp add: ip_wire_def ip_fo_val_def)

lemma ip_serialize_eq:
  assumes "ip_ver h = 4" and "5 \<le> unat (ip_hlen h)"
  shows "ip_serialize h = Inr (ip_wire h @ replicate (4 * unat (ip_hlen h) - 20) 0)"
proof -
  have "un_u32 (un_u32 (un_u16 (un_u8 (un_u8 (un_u16 (un_u16 (un_u16 (un_u8 (un_u8 []
      (push_bit 4 (ip_ver h) OR (ip_hlen h AND 0xf))) (ip_tos h)) (ip_len h)) (ip_id h))
      (ip_fo_val h)) (ip_ttl h)) (ip_proto h)) (ip_cksum h)) (ip_src h)) (ip_dst h) = ip_wire h"
    by (simp add: un_simps ip_wire_def)
  then show ?thesis
    using assms by (simp add: ip_serialize_def Let_def str_resize_def IPv4Header_LENGTH_def)
qed

lemma mask_low:
  fixes w :: "'w::len word"
  assumes "unat w < 2 ^ n"
  shows "w AND mask n = w"
proof -
  have "unat (take_bit n w) = take_bit n (unat w)" by (rule unsigned_take_bit_eq)
  then have "unat (w AND mask n) = unat w mod 2 ^ n"
    by (simp add: take_bit_eq_mask [symmetric] take_bit_eq_mod)
  then show ?thesis using assms by (simp add: word_unat_eq_iff)
qed

lemma first_byte_parts:
  assumes "unat (l :: uint8_t) < 16"
  shows "drop_bit 4 (push_bit 4 4 OR (l AND 0xf)) = (4 :: uint8_t)"
    and "(push_bit 4 4 OR (l AND 0xf)) AND 0xf = l"
proof -
  have l: "l AND 0xf = l" using mask_low [of l 4] assms by (simp add: mask_eq_exp_minus_1)
  have "drop_bit 4 l = 0"
    using assms by (simp add: word_unat_eq_iff drop_bit_eq_div unat_div)
  then show "drop_bit 4 (push_bit 4 4 OR (l AND 0xf)) = (4 :: uint8_t)"
    by (simp add: l drop_bit_or)
  show "(push_bit 4 4 OR (l AND 0xf)) AND 0xf = l"
    by (simp add: bit.conj_disj_distrib2 and.assoc l)
qed

lemma fo_val_parts:
  assumes "unat (ip_offset h) < 2 ^ 13"
  shows "(ip_fo_val h AND 0x4000 \<noteq> 0) = ip_df h" "(ip_fo_val h AND 0x2000 \<noteq> 0) = ip_mf h"
    "ip_fo_val h AND 0x1fff = ip_offset h"
proof -
  have o: "ip_offset h AND 0x1fff = ip_offset h"
    using mask_low [of "ip_offset h" 13] assms by (simp add: mask_eq_exp_minus_1)
  have "ip_offset h AND 0x4000 = ip_offset h AND (0x1fff AND 0x4000)"
    "ip_offset h AND 0x2000 = ip_offset h AND (0x1fff AND 0x2000)"
    by (simp_all only: and.assoc [symmetric] o)
  then have "ip_offset h AND 0x4000 = 0" "ip_offset h AND 0x2000 = 0" by simp_all
  with o show "(ip_fo_val h AND 0x4000 \<noteq> 0) = ip_df h" "(ip_fo_val h AND 0x2000 \<noteq> 0) = ip_mf h"
    "ip_fo_val h AND 0x1fff = ip_offset h"
    by (cases "ip_df h"; cases "ip_mf h"; simp add: ip_fo_val_def bit.conj_disj_distrib2)+
qed

lemma ip_read_wire:
  assumes "ip_wf h"
  shows "ip_read (ip_wire h @ rest) = h"
proof -
  have "ip_read (ip_wire h @ rest) = \<lparr>ip_ver = drop_bit 4 (push_bit 4 4 OR (ip_hlen h AND 0xf)),
      ip_hlen = (push_bit 4 4 OR (ip_hlen h AND 0xf)) AND 0xf, ip_tos = ip_tos h,
      ip_len = ip_len h, ip_id = ip_id h, ip_df = (ip_fo_val h AND 0x4000 \<noteq> 0),
      ip_mf = (ip_fo_val h AND 0x2000 \<noteq> 0), ip_offset = ip_fo_val h AND 0x1fff,
      ip_ttl = ip_ttl h, ip_proto = ip_proto h, ip_cksum = ip_cksum h, ip_src = ip_src h,
      ip_dst = ip_dst h\<rparr>"
    using assms by (simp add: ip_read_def ip_wire_def ip_wf_def Let_def)
  also have "\<dots> = h"
    using assms by (simp only: ip_wf_def first_byte_parts fo_val_parts) simp
  finally show ?thesis .
qed

lemma ip_parse_run:
  assumes "np_fine p" and "20 \<le> length (np_bytes p)"
  shows "ip_parse h0 p =
    (let h = ip_read (np_bytes p); n = length (np_bytes p); hl = 4 * unat (ip_hlen h)
     in if n < hl then (PacketTooShort, h, np_skip 20 p)
        else if ip_ver h \<noteq> 4 then (WrongIPVersion, h, np_skip 20 p)
        else if hl < 20 then (HeaderTooShort, h, np_skip 20 p)
        else if n \<noteq> unat (ip_len h) then (TruncatedPacket, h, np_skip 20 p)
        else if cksum_of 0 (take hl (np_bytes p)) \<noteq> 0 then (BadChecksum, h, np_skip hl p)
        else (NoError, h, np_skip hl p))"
proof -
  define h where "h = ip_read (np_bytes p)"
  have reads: "np_u8 p = (np_bytes p ! 0, np_skip 1 p)"
    "np_u8 (np_skip 1 p) = (np_bytes p ! 1, np_skip 2 p)"
    "np_u16 (np_skip 2 p) = (join_bytes (take 2 (drop 2 (np_bytes p))), np_skip 4 p)"
    "np_u16 (np_skip 4 p) = (join_bytes (take 2 (drop 4 (np_bytes p))), np_skip 6 p)"
    "np_u16 (np_skip 6 p) = (join_bytes (take 2 (drop 6 (np_bytes p))), np_skip 8 p)"
    "np_u8 (np_skip 8 p) = (np_bytes p ! 8, np_skip 9 p)"
    "np_u8 (np_skip 9 p) = (np_bytes p ! 9, np_skip 10 p)"
    "np_u16 (np_skip 10 p) = (join_bytes (take 2 (drop 10 (np_bytes p))), np_skip 12 p)"
    "np_u32 (np_skip 12 p) = (join_bytes (take 4 (drop 12 (np_bytes p))), np_skip 16 p)"
    "np_u32 (np_skip 16 p) = (join_bytes (take 4 (drop 16 (np_bytes p))), np_skip 20 p)"
    using assms by (simp_all add: np_at np_first flip: numeral_2_eq_2)
  have skip: "np_remove_prefix (unat (ip_hlen h) * 4 - 20) (np_skip 20 p) =
      np_skip (4 * unat (ip_hlen h)) p"
    if "5 \<le> unat (ip_hlen h)" "4 * unat (ip_hlen h) \<le> length (np_bytes p)"
    using that assms by (simp add: np_remove_prefix_run mult.commute)
  have "ip_parse h0 p =
     (if length (np_bytes p) < 4 * unat (ip_hlen h) then (PacketTooShort, h, np_skip 20 p)
      else if ip_ver h \<noteq> 4 then (WrongIPVersion, h, np_skip 20 p)
      else if ip_hlen h < 5 then (HeaderTooShort, h, np_skip 20 p)
      else if length (np_bytes p) \<noteq> unat (ip_len h) then (TruncatedPacket, h, np_skip 20 p)
      else
        let p11 = np_remove_prefix (unat (ip_hlen h) * 4 - 20) (np_skip 20 p)
        in if np_error p11 \<noteq> NoError then (np_error p11, h, p11)
           else if ck_value (ck_add (take (4 * unat (ip_hlen h)) (np_bytes p))
                    (InternetChecksum_new 0)) \<noteq> 0 then (BadChecksum, h, p11)
                else (NoError, h, p11))"
    using assms(2)
    by (simp only: ip_parse_def reads Let_def prod.case IPv4Header_LENGTH_def h_def ip_read_def
        IPv4Header.simps buf_size_def np_bytes_def [symmetric] not_less [symmetric] if_False
        linorder_not_less [symmetric] simp_thms if_cancel)
  then show ?thesis
    using assms skip
    by (auto simp: cksum_of_def Let_def word_less_nat_alt simp flip: h_def)
qed

lemma ip_payload_length_eq:
  assumes "4 * unat (ip_hlen h) \<le> unat (ip_len h)"
  shows "unat (ip_payload_length h) = unat (ip_len h) - 4 * unat (ip_hlen h)"
proof -
  have len: "unat (ip_len h) < 2 ^ 16" using unsigned_less [of "ip_len h"] by simp
  have "unat (ip_hlen h) < 256" by (rule unat_byte_less)
  then have "unat (4 * ucast (ip_hlen h) :: uint16_t) = 4 * unat (ip_hlen h)"
    by (simp add: unat_word_ariths(2) unsigned_ucast_eq take_bit_nat_eq_self)
  then show ?thesis
    using assms by (simp add: ip_payload_length_def unat_sub word_le_nat_alt)
qed

lemma dg_serialize_eq:
  assumes "ip_wf (dg_header dg)"
    and "unat (ip_len (dg_header dg)) =
         4 * unat (ip_hlen (dg_header dg)) + length (bl_bytes (dg_payload dg))"
  obtains c bl where "dg_serialize dg = Inr bl"
    and "bl_bytes bl = ip_wire ((dg_header dg)\<lparr>ip_cksum := c\<rparr>) @
           replicate (4 * unat (ip_hlen (dg_header dg)) - 20) 0 @ bl_bytes (dg_payload dg)"
    and "cksum_of 0 (ip_wire ((dg_header dg)\<lparr>ip_cksum := c\<rparr>) @
           replicate (4 * unat (ip_hlen (dg_header dg)) - 20) 0) = 0"
proof -
  let ?h = "dg_header dg" and ?l = "unat (ip_hlen (dg_header dg))"
  define ys where "ys = drop 12 (ip_wire ?h) @ replicate (4 * ?l - 20) 0"
  define c where "c = cksum_of 0 (take 10 (ip_wire ?h) @ 0 # 0 # ys)"
  define bl where "bl = buf_of_string (ip_wire (?h\<lparr>ip_cksum := c\<rparr>) @ replicate (4 * ?l - 20) 0) #
    dg_payload dg"
  have wf: "ip_ver ?h = 4" "5 \<le> ?l" "?l < 16" using assms(1) by (simp_all add: ip_wf_def)
  have "ip_wire (?h\<lparr>ip_cksum := 0\<rparr>) @ replicate (4 * ?l - 20) 0 = take 10 (ip_wire ?h) @ 0 # 0 # ys"
    by (simp add: ip_wire_cksum ys_def)
  then have "dg_serialize dg = Inr bl"
    using assms(2) wf ip_payload_length_eq [of ?h]
    by (simp add: dg_serialize_def ip_serialize_eq Let_def bl_def c_def cksum_of_def bl_append_def
        bl_of_string_def)
  moreover have "cksum_of 0 (ip_wire (?h\<lparr>ip_cksum := c\<rparr>) @ replicate (4 * ?l - 20) 0) = 0"
    using cksum_of_fill [of "take 10 (ip_wire ?h)" 0 ys c] wf
    by (simp add: c_def ip_wire_cksum ys_def)
  ultimately show thesis using that [of bl c] by (simp add: bl_def)
qed

text \<open>The pseudo-header's sum is small: it leaves room in the accumulator for the segment.\<close>

lemma ip_pseudo_cksum_bound: "unat (ip_pseudo_cksum h) < 2 ^ 19"
proof -
  have half: "unat (drop_bit 16 a + (a AND 0xffff)) < 2 ^ 17" for a :: uint32_t
  proof -
    have "unat a < 2 ^ 32" using unsigned_less [of a] by simp
    then have "unat a div 65536 < 65536" "unat a mod 65536 < 65536" by simp_all
    then show ?thesis unfolding unat_fold_step by simp
  qed
  have add: "unat (x + y + u + v) < 2 ^ 19"
    if "unat x < 2 ^ 17" "unat y < 2 ^ 17" "unat u < 2 ^ 16" "unat v < 2 ^ 16" for x y u v :: uint32_t
    using that by (simp add: unat_word_ariths(1))
  have "unat (ucast (ip_proto h) :: uint32_t) < 2 ^ 16" "unat (ucast (ip_payload_length h) :: uint32_t) < 2 ^ 16"
    using unat_byte_less [of "ip_proto h"] unsigned_less [of "ip_payload_length h", where 'a = nat]
    by (simp_all add: unsigned_ucast_eq take_bit_nat_eq_self)
  then show ?thesis
    unfolding ip_pseudo_cksum_def Let_def by (intro add half)
qed

text \<open>Parsing the bytes of a serialized datagram, in any buffer that holds them.\<close>

lemma dg_parse_serialized:
  assumes "ip_wf (dg_header dg)"
    and "unat (ip_len (dg_header dg)) =
         4 * unat (ip_hlen (dg_header dg)) + length (bl_bytes (dg_payload dg))"
  obtains bl c where "dg_serialize dg = Inr bl" and "length (bl_bytes bl) < 2 ^ 16"
    and "\<forall>b h1. buf_wf b \<longrightarrow> buf_str b = bl_bytes bl \<longrightarrow> fst (ip_parse h1 (NetParser_new b)) = NoError"
    and "\<forall>b dg0. buf_wf b \<longrightarrow> buf_str b = bl_bytes bl \<longrightarrow>
           (\<exists>pay. dg_parse b dg0 = (NoError, dg0\<lparr>dg_header := (dg_header dg)\<lparr>ip_cksum := c\<rparr>, dg_payload := [pay]\<rparr>) \<and>
             buf_wf pay \<and> buf_str pay = bl_bytes (dg_payload dg))"
proof -
  let ?l = "unat (ip_hlen (dg_header dg))"
  obtain c bl where bl: "dg_serialize dg = Inr bl"
    "bl_bytes bl = ip_wire ((dg_header dg)\<lparr>ip_cksum := c\<rparr>) @ replicate (4 * ?l - 20) 0 @
      bl_bytes (dg_payload dg)"
    "cksum_of 0 (ip_wire ((dg_header dg)\<lparr>ip_cksum := c\<rparr>) @ replicate (4 * ?l - 20) 0) = 0"
    by (rule dg_serialize_eq [OF assms])
  let ?h = "(dg_header dg)\<lparr>ip_cksum := c\<rparr>"
  have wf: "ip_wf ?h" "ip_ver ?h = 4" "5 \<le> ?l" "?l < 16"
    using assms(1) by (simp_all add: ip_wf_def)
  have len: "length (bl_bytes bl) = unat (ip_len (dg_header dg))"
    using assms(2) wf(3) by (simp add: bl(2))
  have h: "ip_read (bl_bytes bl) = ?h" unfolding bl(2) by (rule ip_read_wire [OF wf(1)])
  have "take (4 * ?l) (bl_bytes bl) = ip_wire ?h @ replicate (4 * ?l - 20) 0"
    using wf(3) by (simp add: bl(2))
  then have parse: "ip_parse h1 (NetParser_new b) = (NoError, ?h, np_skip (4 * ?l) (NetParser_new b))"
    if "buf_wf b" "buf_str b = bl_bytes bl" for h1 b
    using ip_parse_run [of "NetParser_new b"] that wf len h assms(2) bl(3) by (simp add: Let_def)
  have pay: "buf_str (np_buffer (np_skip (4 * ?l) (NetParser_new b))) = bl_bytes (dg_payload dg)"
    if "buf_wf b" "buf_str b = bl_bytes bl" for b
    using that len assms(2) wf(3) by (simp flip: np_bytes_def) (simp add: bl(2))
  have wfp: "buf_wf (np_buffer (np_skip (4 * ?l) (NetParser_new b)))" if "buf_wf b" "buf_str b = bl_bytes bl" for b
    using np_skip_simps(1) [of "NetParser_new b" "4 * ?l"] that len assms(2) by (simp add: np_fine_def)
  have "dg_parse b dg0 = (NoError, dg0\<lparr>dg_header := ?h,
      dg_payload := bl_of_buffer (np_buffer (np_skip (4 * ?l) (NetParser_new b)))\<rparr>)"
    if "buf_wf b" "buf_str b = bl_bytes bl" for b dg0
    using parse [OF that] pay [OF that] that len assms(2) ip_payload_length_eq [of ?h]
    by (simp add: dg_parse_def Let_def bl_of_buffer_def)
  moreover have "length (bl_bytes bl) < 2 ^ 16"
    using unsigned_less [of "ip_len (dg_header dg)", where 'a = nat] by (simp add: len)
  ultimately show thesis
    using bl(1) parse pay wfp by (intro that [of bl c]) (auto simp: bl_of_buffer_def)
qed

section \<open>Correctness\<close>

text \<open>C21: a datagram survives the wire. Serializing a datagram whose header is one that the wire
  format can carry, and whose length field is the length of header and payload, does not throw;
  parsing the bytes accepts them and gives back the payload and the header, with the checksum
  field filled, and the header's own parser finds no fault in them.\<close>

theorem ipv4_round_trip:
  assumes "ip_wf (dg_header dg)"
    and "unat (ip_len (dg_header dg)) =
         4 * unat (ip_hlen (dg_header dg)) + length (bl_bytes (dg_payload dg))"
  shows "\<exists>bl dg1. dg_serialize dg = Inr bl \<and>
    dg_parse (buf_of_string (bl_concatenate bl)) dg0 = (NoError, dg1) \<and>
    fst (ip_parse h0 (NetParser_new (buf_of_string (bl_concatenate bl)))) = NoError \<and>
    (\<exists>c. dg_header dg1 = (dg_header dg)\<lparr>ip_cksum := c\<rparr>) \<and>
    bl_concatenate (dg_payload dg1) = bl_concatenate (dg_payload dg)"
proof -
  obtain bl c where bl: "dg_serialize dg = Inr bl" "length (bl_bytes bl) < 2 ^ 16"
    "\<forall>b h1. buf_wf b \<longrightarrow> buf_str b = bl_bytes bl \<longrightarrow> fst (ip_parse h1 (NetParser_new b)) = NoError"
    "\<forall>b dg0. buf_wf b \<longrightarrow> buf_str b = bl_bytes bl \<longrightarrow>
       (\<exists>pay. dg_parse b dg0 = (NoError, dg0\<lparr>dg_header := (dg_header dg)\<lparr>ip_cksum := c\<rparr>, dg_payload := [pay]\<rparr>) \<and>
         buf_wf pay \<and> buf_str pay = bl_bytes (dg_payload dg))"
    by (rule dg_parse_serialized [OF assms])
  have b: "buf_wf (buf_of_string (bl_bytes bl))" using bl(2) by (intro buf_wf_of_string) simp
  obtain pay where "dg_parse (buf_of_string (bl_bytes bl)) dg0 =
      (NoError, dg0\<lparr>dg_header := (dg_header dg)\<lparr>ip_cksum := c\<rparr>, dg_payload := [pay]\<rparr>)"
    "buf_str pay = bl_bytes (dg_payload dg)"
    using bl(4) b by fastforce
  then show ?thesis using bl(1,3) b by auto
qed

theorem ipv4_round_trip_witness:
  "\<exists>bl dg1. dg_serialize \<lparr>dg_header = IPv4Header_new\<lparr>ip_len := 23\<rparr>,
      dg_payload = [buf_of_string [1, 2], buf_of_string [3]]\<rparr> = Inr bl \<and>
    dg_parse (buf_of_string (bl_concatenate bl)) IPv4Datagram_new = (NoError, dg1) \<and>
    bl_concatenate (dg_payload dg1) = [1, 2, 3]"
proof -
  let ?dg = "\<lparr>dg_header = IPv4Header_new\<lparr>ip_len := 23\<rparr>,
      dg_payload = [buf_of_string [1, 2], buf_of_string [3]]\<rparr>"
  have "ip_wf (dg_header ?dg)"
    "unat (ip_len (dg_header ?dg)) = 4 * unat (ip_hlen (dg_header ?dg)) + length (bl_bytes (dg_payload ?dg))"
    by (simp_all add: ip_wf_def IPv4Header_new_def IPv4Header_LENGTH_def)
  from ipv4_round_trip [OF this, of IPv4Datagram_new IPv4Header_new] show ?thesis by auto
qed


text \<open>C22: what \<^verbatim>\<open>IPv4Datagram::parse\<close> makes of the header parser's verdict, which it does not look
  at, on a new datagram. Fewer than 20 bytes are rejected. When the header parser succeeds the
  datagram is accepted and the payload is what follows the header; and the same holds when the
  header parser reports \<^verbatim>\<open>BadChecksum\<close>. On every other verdict the datagram is accepted exactly
  when the length field minus the header length field happens, modulo \<open>2 ^ 16\<close>, to be the number
  of bytes after the first 20.\<close>

theorem ipv4_datagram_parse:
  fixes b
  defines "v \<equiv> fst (ip_parse IPv4Header_new (NetParser_new b))"
    and "r \<equiv> fst (dg_parse b IPv4Datagram_new)" and "dg \<equiv> snd (dg_parse b IPv4Datagram_new)"
  assumes "buf_wf b"
  shows "(length (buf_str b) < 20 \<longrightarrow> r = PacketTooShort) \<and>
    (20 \<le> length (buf_str b) \<longrightarrow> dg_header dg = ip_read (buf_str b) \<and>
      (if v = NoError \<or> v = BadChecksum
       then r = NoError \<and>
            bl_concatenate (dg_payload dg) = drop (4 * unat (ip_hlen (dg_header dg))) (buf_str b)
       else bl_concatenate (dg_payload dg) = drop 20 (buf_str b) \<and>
            r = (if unat (ip_payload_length (dg_header dg)) = length (buf_str b) - 20
                 then NoError else PacketTooShort)))"
proof (cases "length (buf_str b) < 20")
  case True
  have "ip_payload_length IPv4Header_new = 65516"
    by (simp add: ip_payload_length_def IPv4Header_new_def IPv4Header_LENGTH_def)
  then have "unat (ip_payload_length IPv4Header_new) = 65516" by simp
  with True show ?thesis
    by (simp add: r_def dg_parse_def ip_parse_def IPv4Header_LENGTH_def buf_size_def Let_def
        IPv4Datagram_new_def bl_of_buffer_def)
next
  case False
  let ?p = "NetParser_new b" and ?h = "ip_read (buf_str b)"
  let ?l = "4 * unat (ip_hlen ?h)"
  have p: "np_fine ?p" "20 \<le> length (np_bytes ?p)" using False assms(4) by simp_all
  have skip: "buf_str (np_buffer (np_skip k ?p)) = drop k (buf_str b)" "np_error (np_skip k ?p) = NoError"
    if "k \<le> length (buf_str b)" for k
    using np_skip_simps(2,3) [OF p(1), of k] that by (simp_all add: np_bytes_def)
  show ?thesis
  proof (cases "v = NoError \<or> v = BadChecksum")
    case True
    then have "?l \<le> length (buf_str b)" "length (buf_str b) = unat (ip_len ?h)"
      and q: "ip_parse IPv4Header_new ?p = (v, ?h, np_skip ?l ?p)"
      using ip_parse_run [OF p, of IPv4Header_new]
      by (auto simp: v_def Let_def split: if_splits)
    moreover from this have "unat (ip_payload_length ?h) = length (buf_str b) - ?l"
      using ip_payload_length_eq [of ?h] by simp
    ultimately show ?thesis
      using False True skip [of ?l]
      by (simp add: r_def dg_def dg_parse_def Let_def bl_of_buffer_def IPv4Datagram_new_def)
  next
    case f: False
    then have q: "ip_parse IPv4Header_new ?p = (v, ?h, np_skip 20 ?p)"
      using ip_parse_run [OF p, of IPv4Header_new]
      by (auto simp: v_def Let_def split: if_splits)
    show ?thesis
      using False f skip [of 20]
      by (simp add: r_def dg_def dg_parse_def q Let_def bl_of_buffer_def IPv4Datagram_new_def)
  qed
qed

text \<open>A 20-byte datagram of zero payload with a checksum of zero that should not be zero.\<close>

theorem ipv4_datagram_parse_witness:
  "fst (ip_parse IPv4Header_new (NetParser_new (buf_of_string (0x45 # 0 # 0 # 20 # replicate 16 0)))) =
     BadChecksum \<and>
   fst (dg_parse (buf_of_string (0x45 # 0 # 0 # 20 # replicate 16 0)) IPv4Datagram_new) = NoError"
proof -
  let ?bs = "0x45 # 0 # 0 # 20 # replicate 16 0 :: bytes"
  have h: "ip_hlen (ip_read ?bs) = 5" "ip_ver (ip_read ?bs) = 4" "ip_len (ip_read ?bs) = 20"
    by (simp_all add: ip_read_def Let_def join_bytes_def)
  have "unat (cksum_of 0 ?bs) \<noteq> 0" by (simp add: unat_cksum_of fold16_def)
  then have "cksum_of 0 ?bs \<noteq> 0" by (simp add: unsigned_eq_0_iff)
  then have "fst (ip_parse IPv4Header_new (NetParser_new (buf_of_string ?bs))) = BadChecksum"
    using ip_parse_run [of "NetParser_new (buf_of_string ?bs)" IPv4Header_new] h
    by (simp add: Let_def)
  then show ?thesis using ipv4_datagram_parse [where b = "buf_of_string ?bs"] by simp
qed

end
