(* ===== verification/Ethernet_ARP.thy ===== *)
theory Ethernet_ARP
  imports IPv4_Datagram
begin

unbundle bit_operations_syntax

text \<open>
  \<^verbatim>\<open>tcp_helpers/ethernet_header.cc\<close>, \<^verbatim>\<open>tcp_helpers/ethernet_frame.cc\<close> and
  \<^verbatim>\<open>tcp_helpers/arp_message.cc\<close>: Ethernet frames and ARP messages, their parsers and serializers.
  An \<^verbatim>\<open>EthernetAddress\<close>, an array of six bytes, is a list of bytes; \<open>eth_wf\<close> and \<open>arp_wf\<close> say that
  the lists have six elements.
\<close>

section \<open>Model\<close>

type_synonym EthernetAddress = bytes

definition ETHERNET_BROADCAST :: EthernetAddress where
  "ETHERNET_BROADCAST = [0xff, 0xff, 0xff, 0xff, 0xff, 0xff]"

definition EthernetHeader_LENGTH :: size_t where
  "EthernetHeader_LENGTH = 14"

definition TYPE_IPv4 :: uint16_t where
  "TYPE_IPv4 = 0x800"

definition TYPE_ARP :: uint16_t where
  "TYPE_ARP = 0x806"

record EthernetHeader =
  eth_dst :: EthernetAddress
  eth_src :: EthernetAddress
  eth_type :: uint16_t

definition EthernetHeader_new :: EthernetHeader where
  "EthernetHeader_new = \<lparr>eth_dst = replicate 6 0, eth_src = replicate 6 0, eth_type = 0\<rparr>"

text \<open>The loops over the six bytes of an address.\<close>

fun np_array :: "nat \<Rightarrow> NetParser \<Rightarrow> bytes \<times> NetParser" where
  "np_array 0 p = ([], p)"
| "np_array (Suc n) p =
     (let (b, p1) = np_u8 p; (bs, p2) = np_array n p1 in (b # bs, p2))"

fun un_array :: "bytes \<Rightarrow> bytes \<Rightarrow> bytes" where
  "un_array s [] = s"
| "un_array s (b # bs) = un_array (un_u8 s b) bs"

definition eth_parse :: "EthernetHeader \<Rightarrow> NetParser \<Rightarrow> ParseResult \<times> EthernetHeader \<times> NetParser" where
  "eth_parse h0 p0 =
     (if buf_size (np_buffer p0) < EthernetHeader_LENGTH then (PacketTooShort, h0, p0)
      else let (dst, p1) = np_array 6 p0;
               (src, p2) = np_array 6 p1;
               (type, p3) = np_u16 p2
           in (np_error p3, \<lparr>eth_dst = dst, eth_src = src, eth_type = type\<rparr>, p3))"

definition eth_serialize :: "EthernetHeader \<Rightarrow> bytes" where
  "eth_serialize h = un_u16 (un_array (un_array [] (eth_dst h)) (eth_src h)) (eth_type h)"

record EthernetFrame =
  ef_header :: EthernetHeader
  ef_payload :: BufferList

definition EthernetFrame_new :: EthernetFrame where
  "EthernetFrame_new = \<lparr>ef_header = EthernetHeader_new, ef_payload = []\<rparr>"

definition ef_parse :: "Buffer \<Rightarrow> EthernetFrame \<Rightarrow> ParseResult \<times> EthernetFrame" where
  "ef_parse buffer f =
     (let (_, h, p) = eth_parse (ef_header f) (NetParser_new buffer)
      in (np_error p, f\<lparr>ef_header := h, ef_payload := bl_of_buffer (np_buffer p)\<rparr>))"

definition ef_serialize :: "EthernetFrame \<Rightarrow> BufferList" where
  "ef_serialize f = bl_append (bl_append [] (bl_of_string (eth_serialize (ef_header f)))) (ef_payload f)"

definition ARPMessage_LENGTH :: size_t where
  "ARPMessage_LENGTH = 28"

definition TYPE_ETHERNET :: uint16_t where
  "TYPE_ETHERNET = 1"

definition OPCODE_REQUEST :: uint16_t where
  "OPCODE_REQUEST = 1"

definition OPCODE_REPLY :: uint16_t where
  "OPCODE_REPLY = 2"

record ARPMessage =
  arp_hardware_type :: uint16_t
  arp_protocol_type :: uint16_t
  arp_hardware_address_size :: uint8_t
  arp_protocol_address_size :: uint8_t
  arp_opcode :: uint16_t
  arp_sender_ethernet_address :: EthernetAddress
  arp_sender_ip_address :: uint32_t
  arp_target_ethernet_address :: EthernetAddress
  arp_target_ip_address :: uint32_t

definition ARPMessage_new :: ARPMessage where
  "ARPMessage_new =
     \<lparr>arp_hardware_type = TYPE_ETHERNET, arp_protocol_type = TYPE_IPv4,
      arp_hardware_address_size = 6, arp_protocol_address_size = 4, arp_opcode = 0,
      arp_sender_ethernet_address = replicate 6 0, arp_sender_ip_address = 0,
      arp_target_ethernet_address = replicate 6 0, arp_target_ip_address = 0\<rparr>"

definition arp_supported :: "ARPMessage \<Rightarrow> bool" where
  "arp_supported m \<longleftrightarrow>
     arp_hardware_type m = TYPE_ETHERNET \<and> arp_protocol_type m = TYPE_IPv4 \<and>
     arp_hardware_address_size m = 6 \<and> arp_protocol_address_size m = 4 \<and>
     (arp_opcode m = OPCODE_REQUEST \<or> arp_opcode m = OPCODE_REPLY)"

definition arp_parse :: "Buffer \<Rightarrow> ARPMessage \<Rightarrow> ParseResult \<times> ARPMessage" where
  "arp_parse buffer m0 =
     (let p0 = NetParser_new buffer
      in if buf_size (np_buffer p0) < ARPMessage_LENGTH then (PacketTooShort, m0)
         else
           let (hardware_type, p1) = np_u16 p0;
               (protocol_type, p2) = np_u16 p1;
               (hardware_address_size, p3) = np_u8 p2;
               (protocol_address_size, p4) = np_u8 p3;
               (opcode, p5) = np_u16 p4;
               m1 = m0\<lparr>arp_hardware_type := hardware_type, arp_protocol_type := protocol_type,
                      arp_hardware_address_size := hardware_address_size,
                      arp_protocol_address_size := protocol_address_size, arp_opcode := opcode\<rparr>
           in if \<not> arp_supported m1 then (Unsupported, m1)
              else
                let (sender_ethernet_address, p6) = np_array 6 p5;
                    (sender_ip_address, p7) = np_u32 p6;
                    (target_ethernet_address, p8) = np_array 6 p7;
                    (target_ip_address, p9) = np_u32 p8
                in (np_error p9,
                    m1\<lparr>arp_sender_ethernet_address := sender_ethernet_address,
                       arp_sender_ip_address := sender_ip_address,
                       arp_target_ethernet_address := target_ethernet_address,
                       arp_target_ip_address := target_ip_address\<rparr>))"

definition arp_serialize :: "ARPMessage \<Rightarrow> exn + bytes" where
  "arp_serialize m =
     (if \<not> arp_supported m
      then Inl (Runtime_error ''ARPMessage::serialize(): unsupported field combination (must be Ethernet/IP, and request or reply)'')
      else
        let r1 = un_u16 [] (arp_hardware_type m);
            r2 = un_u16 r1 (arp_protocol_type m);
            r3 = un_u8 r2 (arp_hardware_address_size m);
            r4 = un_u8 r3 (arp_protocol_address_size m);
            r5 = un_u16 r4 (arp_opcode m);
            r6 = un_array r5 (arp_sender_ethernet_address m);
            r7 = un_u32 r6 (arp_sender_ip_address m);
            r8 = un_array r7 (arp_target_ethernet_address m);
            r9 = un_u32 r8 (arp_target_ip_address m)
        in Inr r9)"

section \<open>Wire format\<close>

lemma un_array_eq [simp]: "un_array s bs = s @ bs"
  by (induction s bs rule: un_array.induct) (simp_all add: un_simps)

lemma np_array_at:
  assumes "np_fine p"
  shows "k + n \<le> length (np_bytes p) \<Longrightarrow>
    np_array n (np_skip k p) = (take n (drop k (np_bytes p)), np_skip (k + n) p)"
proof (induction n arbitrary: k)
  case (Suc n)
  then have "np_u8 (np_skip k p) = (np_bytes p ! k, np_skip (k + 1) p)"
    "np_array n (np_skip (k + 1) p) = (take n (drop (k + 1) (np_bytes p)), np_skip (k + 1 + n) p)"
    using np_at(1) [OF assms, of k] by simp_all
  then show ?case using Suc.prems by (simp add: Cons_nth_drop_Suc [symmetric])
qed simp

lemma np_array_first:
  assumes "np_fine p" and "Suc n \<le> length (np_bytes p)"
  shows "np_array (Suc n) p = (take (Suc n) (np_bytes p), np_skip (Suc n) p)"
proof -
  have "np_array n (np_skip 1 p) = (take n (drop 1 (np_bytes p)), np_skip (1 + n) p)"
    using assms by (intro np_array_at) simp_all
  with assms show ?thesis by (cases "np_bytes p") (simp_all add: np_first(1))
qed

definition eth_wf :: "EthernetHeader \<Rightarrow> bool" where
  "eth_wf h \<longleftrightarrow> length (eth_dst h) = 6 \<and> length (eth_src h) = 6"

definition arp_wf :: "ARPMessage \<Rightarrow> bool" where
  "arp_wf m \<longleftrightarrow> length (arp_sender_ethernet_address m) = 6 \<and>
     length (arp_target_ethernet_address m) = 6"

lemma eth_serialize_eq:
  "eth_serialize h = eth_dst h @ eth_src h @ [byte_of (Suc 0) (eth_type h), byte_of 0 (eth_type h)]"
  by (simp add: eth_serialize_def un_simps)

lemma eth_parse_run:
  assumes "np_fine p" and "14 \<le> length (np_bytes p)"
  shows "eth_parse h0 p =
    (NoError, \<lparr>eth_dst = take 6 (np_bytes p), eth_src = take 6 (drop 6 (np_bytes p)),
      eth_type = join_bytes (take 2 (drop 12 (np_bytes p)))\<rparr>, np_skip 14 p)"
proof -
  have "np_array 6 p = (take 6 (np_bytes p), np_skip 6 p)"
    "np_array 6 (np_skip 6 p) = (take 6 (drop 6 (np_bytes p)), np_skip 12 p)"
    "np_u16 (np_skip 12 p) = (join_bytes (take 2 (drop 12 (np_bytes p))), np_skip 14 p)"
    using assms np_array_first [OF assms(1), of 5] np_array_at [OF assms(1), of 6 6]
    by (simp_all add: np_at)
  then show ?thesis
    using assms by (simp add: eth_parse_def EthernetHeader_LENGTH_def buf_size_def np_bytes_def)
qed

definition arp_wire :: "ARPMessage \<Rightarrow> bytes" where
  "arp_wire m =
     [byte_of (Suc 0) (arp_hardware_type m), byte_of 0 (arp_hardware_type m),
      byte_of (Suc 0) (arp_protocol_type m), byte_of 0 (arp_protocol_type m),
      arp_hardware_address_size m, arp_protocol_address_size m,
      byte_of (Suc 0) (arp_opcode m), byte_of 0 (arp_opcode m)] @
     arp_sender_ethernet_address m @
     [byte_of 3 (arp_sender_ip_address m), byte_of 2 (arp_sender_ip_address m),
      byte_of (Suc 0) (arp_sender_ip_address m), byte_of 0 (arp_sender_ip_address m)] @
     arp_target_ethernet_address m @
     [byte_of 3 (arp_target_ip_address m), byte_of 2 (arp_target_ip_address m),
      byte_of (Suc 0) (arp_target_ip_address m), byte_of 0 (arp_target_ip_address m)]"

lemma arp_serialize_eq:
  "arp_serialize m = (if arp_supported m then Inr (arp_wire m) else
     Inl (Runtime_error ''ARPMessage::serialize(): unsupported field combination (must be Ethernet/IP, and request or reply)''))"
  by (simp add: arp_serialize_def un_simps arp_wire_def)

lemma length_arp_wire: "arp_wf m \<Longrightarrow> length (arp_wire m) = 28"
  by (simp add: arp_wire_def arp_wf_def)

lemma arp_parse_run:
  assumes "buf_wf b" and "28 \<le> length (buf_str b)"
  defines "bs \<equiv> buf_str b"
  shows "arp_parse b m0 =
    (let m1 = m0\<lparr>arp_hardware_type := join_bytes (take 2 bs),
        arp_protocol_type := join_bytes (take 2 (drop 2 bs)),
        arp_hardware_address_size := bs ! 4, arp_protocol_address_size := bs ! 5,
        arp_opcode := join_bytes (take 2 (drop 6 bs))\<rparr>
     in if \<not> arp_supported m1 then (Unsupported, m1)
        else (NoError, m1\<lparr>arp_sender_ethernet_address := take 6 (drop 8 bs),
          arp_sender_ip_address := join_bytes (take 4 (drop 14 bs)),
          arp_target_ethernet_address := take 6 (drop 18 bs),
          arp_target_ip_address := join_bytes (take 4 (drop 24 bs))\<rparr>))"
proof -
  let ?p = "NetParser_new b"
  have p: "np_fine ?p" "np_bytes ?p = bs" "28 \<le> length (np_bytes ?p)"
    using assms by simp_all
  have reads: "np_u16 ?p = (join_bytes (take 2 bs), np_skip 2 ?p)"
    "np_u16 (np_skip 2 ?p) = (join_bytes (take 2 (drop 2 bs)), np_skip 4 ?p)"
    "np_u8 (np_skip 4 ?p) = (bs ! 4, np_skip 5 ?p)"
    "np_u8 (np_skip 5 ?p) = (bs ! 5, np_skip 6 ?p)"
    "np_u16 (np_skip 6 ?p) = (join_bytes (take 2 (drop 6 bs)), np_skip 8 ?p)"
    "np_array 6 (np_skip 8 ?p) = (take 6 (drop 8 bs), np_skip 14 ?p)"
    "np_u32 (np_skip 14 ?p) = (join_bytes (take 4 (drop 14 bs)), np_skip 18 ?p)"
    "np_array 6 (np_skip 18 ?p) = (take 6 (drop 18 bs), np_skip 24 ?p)"
    "np_u32 (np_skip 24 ?p) = (join_bytes (take 4 (drop 24 bs)), np_skip 28 ?p)"
    using p np_at(1,2,3) [OF p(1)] np_first(2) [OF p(1)] np_array_at [OF p(1), of 8 6] np_array_at [OF p(1), of 18 6]
    by simp_all
  have e: "np_error (np_skip 28 ?p) = NoError" "\<not> buf_size (np_buffer ?p) < 28"
    using p by (simp_all add: bs_def buf_size_def)
  show ?thesis
    by (simp only: arp_parse_def reads Let_def prod.case ARPMessage_LENGTH_def e if_False)
qed

text \<open>Parsing serialized frames and messages.\<close>

lemma ef_parse_serialized:
  assumes "buf_wf b" and "eth_wf (ef_header f)" and "buf_str b = bl_bytes (ef_serialize f)"
  obtains pay where "ef_parse b f0 = (NoError, f0\<lparr>ef_header := ef_header f, ef_payload := [pay]\<rparr>)"
    and "buf_wf pay" and "buf_str pay = bl_bytes (ef_payload f)"
proof -
  have bs: "buf_str b = eth_dst (ef_header f) @ eth_src (ef_header f) @
      byte_of (Suc 0) (eth_type (ef_header f)) # byte_of 0 (eth_type (ef_header f)) #
      bl_bytes (ef_payload f)"
    using assms(3) by (simp add: ef_serialize_def eth_serialize_eq bl_append_def)
  let ?p = "NetParser_new b"
  have p: "np_fine ?p" "14 \<le> length (np_bytes ?p)"
    using assms(1,2) unfolding np_new_simps bs by (simp_all add: eth_wf_def)
  have "eth_parse (ef_header f0) ?p = (NoError, ef_header f, np_skip 14 ?p)"
    using assms(2) by (simp add: eth_parse_run [OF p]) (simp add: bs eth_wf_def)
  moreover have "buf_str (np_buffer (np_skip 14 ?p)) = bl_bytes (ef_payload f)"
    using np_skip_simps(2) [OF p] assms(2) by (simp add: np_bytes_def [symmetric]) (simp add: bs eth_wf_def)
  moreover have "np_fine (np_skip 14 ?p)" using np_skip_simps(1) [OF p] .
  ultimately show thesis
    using p by (intro that [of "np_buffer (np_skip 14 ?p)"])
      (simp_all add: ef_parse_def bl_of_buffer_def np_fine_def)
qed

lemma arp_parse_wire:
  assumes "buf_wf b" and "arp_wf m" and "buf_str b = arp_wire m @ padding"
  shows "if arp_supported m then arp_parse b m0 = (NoError, m) else fst (arp_parse b m0) = Unsupported"
proof -
  have sup: "arp_supported (m0\<lparr>arp_hardware_type := arp_hardware_type m,
      arp_protocol_type := arp_protocol_type m,
      arp_hardware_address_size := arp_hardware_address_size m,
      arp_protocol_address_size := arp_protocol_address_size m, arp_opcode := arp_opcode m\<rparr>) =
      arp_supported m"
    by (simp add: arp_supported_def)
  have "28 \<le> length (buf_str b)" using assms(2) by (simp add: assms(3) length_arp_wire)
  from arp_parse_run [OF assms(1) this, of m0] sup assms(2) show ?thesis
    by (simp add: assms(3) arp_wire_def arp_wf_def Let_def)
qed

section \<open>Correctness\<close>

text \<open>C23: an Ethernet frame survives the wire: parsing what \<^verbatim>\<open>EthernetFrame::serialize\<close> makes of a frame
  gives back its header and its payload. Fewer than 14 bytes are not a frame, and the header's
  parser says so, but \<^verbatim>\<open>EthernetFrame::parse\<close> does not look at its verdict: it reports no error,
  keeps whatever header it had and takes all bytes as the payload.\<close>

theorem ethernet_frame_round_trip:
  assumes "buf_wf b"
  shows "(eth_wf (ef_header f) \<and> buf_str b = bl_concatenate (ef_serialize f) \<longrightarrow>
      fst (ef_parse b f0) = NoError \<and> ef_header (snd (ef_parse b f0)) = ef_header f \<and>
      bl_concatenate (ef_payload (snd (ef_parse b f0))) = bl_concatenate (ef_payload f)) \<and>
    (length (buf_str b) < 14 \<longrightarrow>
      fst (eth_parse h0 (NetParser_new b)) = PacketTooShort \<and>
      ef_parse b f0 = (NoError, f0\<lparr>ef_payload := [b]\<rparr>))"
proof (intro conjI impI)
  assume "eth_wf (ef_header f) \<and> buf_str b = bl_concatenate (ef_serialize f)"
  then obtain pay where "ef_parse b f0 = (NoError, f0\<lparr>ef_header := ef_header f, ef_payload := [pay]\<rparr>)"
    "buf_str pay = bl_bytes (ef_payload f)"
    using ef_parse_serialized [OF assms, of f f0] by auto
  then show "fst (ef_parse b f0) = NoError" "ef_header (snd (ef_parse b f0)) = ef_header f"
    "bl_concatenate (ef_payload (snd (ef_parse b f0))) = bl_concatenate (ef_payload f)"
    by simp_all
qed (simp_all add: eth_parse_def ef_parse_def EthernetHeader_LENGTH_def buf_size_def bl_of_buffer_def)

theorem ethernet_frame_round_trip_witness:
  "fst (ef_parse (buf_of_string (replicate 12 1 @ [8, 6, 9])) EthernetFrame_new) = NoError \<and>
   ef_header (snd (ef_parse (buf_of_string (replicate 12 1 @ [8, 6, 9])) EthernetFrame_new)) =
     \<lparr>eth_dst = replicate 6 1, eth_src = replicate 6 1, eth_type = TYPE_ARP\<rparr> \<and>
   ef_parse (buf_of_string [9]) EthernetFrame_new =
     (NoError, EthernetFrame_new\<lparr>ef_payload := [buf_of_string [9]]\<rparr>)"
proof -
  let ?f = "\<lparr>ef_header = \<lparr>eth_dst = replicate 6 1, eth_src = replicate 6 1, eth_type = TYPE_ARP\<rparr>,
     ef_payload = [buf_of_string [9]]\<rparr>"
  let ?b = "buf_of_string (replicate 12 1 @ [8, 6, 9])"
  have "eth_wf (ef_header ?f)" "buf_str ?b = bl_concatenate (ef_serialize ?f)"
    by (simp_all add: eth_wf_def ef_serialize_def eth_serialize_eq bl_append_def TYPE_ARP_def
        byte_of_def flip: append_assoc replicate_add)
  moreover have "buf_wf ?b" "buf_wf (buf_of_string [9])" by simp_all
  ultimately show ?thesis
    using ethernet_frame_round_trip [of ?b ?f EthernetFrame_new]
      ethernet_frame_round_trip [of "buf_of_string [9]" ?f EthernetFrame_new]
    by (simp only: simp_thms) simp
qed

text \<open>An ARP message survives the wire, also with padding after it. The serializer throws exactly
  on the field combinations that the parser refuses as \<^verbatim>\<open>Unsupported\<close>, fewer than 28 bytes are
  \<^verbatim>\<open>PacketTooShort\<close>, and a message that the parser accepts is a supported one.\<close>

theorem arp_round_trip:
  assumes "buf_wf b" and "arp_wf m"
  shows "(arp_supported m \<longrightarrow> arp_serialize m = Inr (arp_wire m)) \<and>
    (\<not> arp_supported m \<longrightarrow> (\<exists>e. arp_serialize m = Inl (Runtime_error e))) \<and>
    (buf_str b = arp_wire m @ padding \<longrightarrow>
      (if arp_supported m then arp_parse b m0 = (NoError, m) else fst (arp_parse b m0) = Unsupported)) \<and>
    (length (buf_str b) < 28 \<longrightarrow> arp_parse b m0 = (PacketTooShort, m0)) \<and>
    (fst (arp_parse b m0) = NoError \<longrightarrow> arp_supported (snd (arp_parse b m0)))"
proof (intro conjI impI)
  assume "buf_str b = arp_wire m @ padding"
  then show "if arp_supported m then arp_parse b m0 = (NoError, m) else fst (arp_parse b m0) = Unsupported"
    by (rule arp_parse_wire [OF assms])
next
  show "arp_supported (snd (arp_parse b m0))" if "fst (arp_parse b m0) = NoError"
  proof -
    have "28 \<le> length (buf_str b)"
      using that by (auto simp: arp_parse_def ARPMessage_LENGTH_def buf_size_def split: if_splits)
    from arp_parse_run [OF assms(1) this, of m0] that show ?thesis
      by (auto simp: Let_def arp_supported_def split: if_splits)
  qed
qed (auto simp: arp_serialize_eq arp_parse_def ARPMessage_LENGTH_def buf_size_def)

theorem arp_round_trip_witness:
  "arp_parse (buf_of_string (arp_wire (ARPMessage_new\<lparr>arp_opcode := OPCODE_REPLY\<rparr>) @ [7])) ARPMessage_new =
     (NoError, ARPMessage_new\<lparr>arp_opcode := OPCODE_REPLY\<rparr>)"
proof -
  let ?m = "ARPMessage_new\<lparr>arp_opcode := OPCODE_REPLY\<rparr>"
  have "arp_wf ?m" "arp_supported ?m"
    by (simp_all add: arp_wf_def ARPMessage_new_def arp_supported_def)
  then show ?thesis
    using arp_round_trip [of "buf_of_string (arp_wire ?m @ [7])" ?m "[7]" ARPMessage_new]
    by (simp add: length_arp_wire)
qed

end
