(* ===== verification/Address.thy ===== *)
theory Address
  imports Net_Parser
begin

unbundle bit_operations_syntax

text \<open>
  \<^verbatim>\<open>util/address.hh\<close> and \<^verbatim>\<open>util/address.cc\<close>: socket addresses. An address is kept as the raw bytes of a
  \<^verbatim>\<open>sockaddr_storage\<close>, of which the first \<open>_size\<close> count. An IPv4 address is a \<^verbatim>\<open>sockaddr_in\<close>: two bytes
  of address family (in host order, here little endian), two bytes of port, four bytes of address
  (both in network order) and eight bytes of padding. The resolver functions of the C library,
  \<^verbatim>\<open>getaddrinfo\<close> and \<^verbatim>\<open>getnameinfo\<close>, are parameters of the operations that call them.
\<close>

section \<open>Model\<close>

definition sizeof_sockaddr_storage :: size_t where
  "sizeof_sockaddr_storage = 128"

definition sizeof_sockaddr_in :: size_t where
  "sizeof_sockaddr_in = 16"

definition AF_INET :: uint16_t where
  "AF_INET = 2"

record Address =
  addr_size :: size_t
  addr_storage :: bytes

text \<open>The constructor from a raw socket address, and \<^verbatim>\<open>memcpy\<close> into the zeroed storage.\<close>

definition Address_of_raw :: "bytes \<Rightarrow> size_t \<Rightarrow> exn + Address" where
  "Address_of_raw addr sz =
     (if sizeof_sockaddr_storage < sz then Inl (Runtime_error ''invalid sockaddr size'')
      else Inr \<lparr>addr_size = sz,
                addr_storage = take sz addr @ replicate (sizeof_sockaddr_storage - sz) 0\<rparr>)"

record addrinfo =
  ai_flags :: int
  ai_family :: uint16_t

definition make_hints :: "int \<Rightarrow> uint16_t \<Rightarrow> addrinfo" where
  "make_hints flags family = \<lparr>ai_flags = flags, ai_family = family\<rparr>"

text \<open>
  \<open>getaddrinfo\<close> returns its status and, if the list of results is not empty, the first address
  and its length.
\<close>

type_synonym getaddrinfo = "string \<Rightarrow> string \<Rightarrow> addrinfo \<Rightarrow> int \<times> (bytes \<times> size_t) option"

definition Address_resolve :: "getaddrinfo \<Rightarrow> string \<Rightarrow> string \<Rightarrow> addrinfo \<Rightarrow> exn + Address" where
  "Address_resolve getaddrinfo node service hints =
     (let (gai_ret, resolved_address) = getaddrinfo node service hints
      in if gai_ret \<noteq> 0
         then Inl (Tagged_error ''gai_error_category'' (''getaddrinfo('' @ node @ '', '' @ service @ '')'') gai_ret)
         else case resolved_address of
                None \<Rightarrow> Inl (Runtime_error ''getaddrinfo returned successfully but with no results'')
              | Some (ai_addr, ai_addrlen) \<Rightarrow> Address_of_raw ai_addr ai_addrlen)"

definition AI_ALL :: int where
  "AI_ALL = 0x10"

definition AI_NUMERICHOST :: int where
  "AI_NUMERICHOST = 4"

definition AI_NUMERICSERV :: int where
  "AI_NUMERICSERV = 0x400"

definition Address_of_names :: "getaddrinfo \<Rightarrow> string \<Rightarrow> string \<Rightarrow> exn + Address" where
  "Address_of_names getaddrinfo hostname service =
     Address_resolve getaddrinfo hostname service (make_hints AI_ALL AF_INET)"

text \<open>\<^verbatim>\<open>std::to_string\<close> of an unsigned number and \<^verbatim>\<open>std::stoi\<close>.\<close>

fun dec_string :: "nat \<Rightarrow> string" where
  "dec_string n =
     (if n < 10 then [char_of (48 + n)] else dec_string (n div 10) @ [char_of (48 + n mod 10)])"

declare dec_string.simps [simp del]

definition is_digit :: "char \<Rightarrow> bool" where
  "is_digit c \<longleftrightarrow> 48 \<le> (of_char c :: nat) \<and> (of_char c :: nat) \<le> 57"

definition is_space :: "char \<Rightarrow> bool" where
  "is_space c \<longleftrightarrow> (of_char c :: nat) = 32 \<or> 9 \<le> (of_char c :: nat) \<and> (of_char c :: nat) \<le> 13"

definition dec_value :: "string \<Rightarrow> nat" where
  "dec_value ds = foldl (\<lambda>n c. 10 * n + (of_char c - 48)) 0 ds"

definition stoi :: "string \<Rightarrow> exn + int" where
  "stoi s =
     (let t = dropWhile is_space s;
          (neg, u) = (case t of [] \<Rightarrow> (False, [])
                      | c # r \<Rightarrow> if c = CHR ''-'' then (True, r)
                                else if c = CHR ''+'' then (False, r) else (False, t));
          ds = takeWhile is_digit u;
          v = (if neg then - int (dec_value ds) else int (dec_value ds))
      in if ds = [] then Inl (Invalid_argument ''stoi'')
         else if v < - (2 ^ 31) \<or> 2 ^ 31 \<le> v then Inl (Out_of_range ''stoi'')
         else Inr v)"

definition Address_of_ip :: "getaddrinfo \<Rightarrow> string \<Rightarrow> uint16_t \<Rightarrow> exn + Address" where
  "Address_of_ip getaddrinfo ip port =
     Address_resolve getaddrinfo ip (dec_string (unat port))
       (make_hints (or AI_NUMERICHOST AI_NUMERICSERV) AF_INET)"

text \<open>\<open>getnameinfo\<close> returns its status and the strings for host and port.\<close>

type_synonym getnameinfo = "bytes \<Rightarrow> size_t \<Rightarrow> int \<times> string \<times> string"

definition addr_ip_port :: "getnameinfo \<Rightarrow> Address \<Rightarrow> exn + string \<times> uint16_t" where
  "addr_ip_port getnameinfo a =
     (let (gni_ret, ip, port) = getnameinfo (addr_storage a) (addr_size a)
      in if gni_ret \<noteq> 0 then Inl (Tagged_error ''gai_error_category'' ''getnameinfo'' gni_ret)
         else bindE (stoi port) (\<lambda>p. Inr (ip, of_int p)))"

definition addr_ip :: "getnameinfo \<Rightarrow> Address \<Rightarrow> exn + string" where
  "addr_ip getnameinfo a = bindE (addr_ip_port getnameinfo a) (\<lambda>(ip, _). Inr ip)"

definition addr_port :: "getnameinfo \<Rightarrow> Address \<Rightarrow> exn + uint16_t" where
  "addr_port getnameinfo a = bindE (addr_ip_port getnameinfo a) (\<lambda>(_, port). Inr port)"

definition addr_to_string :: "getnameinfo \<Rightarrow> Address \<Rightarrow> exn + string" where
  "addr_to_string getnameinfo a =
     bindE (addr_ip_port getnameinfo a) (\<lambda>(ip, port). Inr (ip @ '':'' @ dec_string (unat port)))"

text \<open>The family field is read in host order, the address converted from network order.\<close>

definition addr_family :: "Address \<Rightarrow> uint16_t" where
  "addr_family a = join_bytes [addr_storage a ! 1, addr_storage a ! 0]"

definition addr_ipv4_numeric :: "Address \<Rightarrow> exn + uint32_t" where
  "addr_ipv4_numeric a =
     (if addr_family a \<noteq> AF_INET \<or> addr_size a \<noteq> sizeof_sockaddr_in
      then Inl (Runtime_error ''ipv4_numeric called on non-IPV4 address'')
      else Inr (join_bytes (take 4 (drop 4 (addr_storage a)))))"

definition sockaddr_in_bytes :: "uint32_t \<Rightarrow> bytes" where
  "sockaddr_in_bytes ip_address =
     [byte_of 0 AF_INET, byte_of 1 AF_INET, 0, 0,
      byte_of 3 ip_address, byte_of 2 ip_address, byte_of 1 ip_address, byte_of 0 ip_address] @
     replicate 8 0"

definition addr_from_ipv4_numeric :: "uint32_t \<Rightarrow> exn + Address" where
  "addr_from_ipv4_numeric ip_address = Address_of_raw (sockaddr_in_bytes ip_address) sizeof_sockaddr_in"

definition addr_equal :: "Address \<Rightarrow> Address \<Rightarrow> bool" where
  "addr_equal a other \<longleftrightarrow>
     (if addr_size a \<noteq> addr_size other then False
      else take (addr_size a) (addr_storage a) = take (addr_size a) (addr_storage other))"

definition addr_not_equal :: "Address \<Rightarrow> Address \<Rightarrow> bool" where
  "addr_not_equal a other \<longleftrightarrow> \<not> addr_equal a other"

section \<open>Lemmas\<close>

definition ipv4_address :: "uint32_t \<Rightarrow> Address" where
  "ipv4_address n = \<lparr>addr_size = 16, addr_storage = sockaddr_in_bytes n @ replicate 112 0\<rparr>"

lemma addr_from_ipv4_numeric_eq: "addr_from_ipv4_numeric n = Inr (ipv4_address n)"
  by (simp add: addr_from_ipv4_numeric_def Address_of_raw_def sizeof_sockaddr_in_def
      sizeof_sockaddr_storage_def ipv4_address_def sockaddr_in_bytes_def)

lemma addr_ipv4_numeric_ipv4 [simp]: "addr_ipv4_numeric (ipv4_address n) = Inr n"
  by (simp add: addr_ipv4_numeric_def ipv4_address_def sockaddr_in_bytes_def addr_family_def
      sizeof_sockaddr_in_def)

lemma ipv4_address_inj [simp]: "ipv4_address m = ipv4_address n \<longleftrightarrow> m = n"
  using addr_ipv4_numeric_ipv4 by (metis Inr_inject)

lemma of_char_digit: "n < 10 \<Longrightarrow> of_char (char_of (48 + n) :: char) = (48 + n :: nat)"
  by (simp add: of_char_of)

lemma dec_string_digits: "c \<in> set (dec_string n) \<Longrightarrow> is_digit c"
proof (induction n rule: dec_string.induct)
  case (1 n)
  have "n mod 10 < 10" by simp
  with 1 show ?case
    using of_char_digit [of n] of_char_digit [of "n mod 10"]
    by (auto simp: dec_string.simps [of n] is_digit_def split: if_splits)
qed

lemma dec_string_nonempty [simp]: "dec_string n \<noteq> []"
  by (simp add: dec_string.simps)

lemma dec_value_dec_string: "dec_value (dec_string n) = n"
proof (induction n rule: dec_string.induct)
  case (1 n)
  have "n mod 10 < 10" by simp
  with 1 show ?case
    using of_char_digit [of n] of_char_digit [of "n mod 10"]
    by (cases "n < 10") (simp_all add: dec_string.simps [of n] dec_value_def)
qed

lemma stoi_dec_string:
  assumes "n < 2 ^ 31"
  shows "stoi (dec_string n) = Inr (int n)"
proof -
  obtain c r where cr: "dec_string n = c # r" by (cases "dec_string n") simp_all
  then have "is_digit c" using dec_string_digits [of c n] by simp
  then have c: "\<not> is_space c" "c \<noteq> CHR ''-''" "c \<noteq> CHR ''+''" by (auto simp: is_digit_def is_space_def)
  have "takeWhile is_digit (dec_string n) = dec_string n"
    using dec_string_digits by (simp add: takeWhile_eq_all_conv)
  then have "takeWhile is_digit (c # r) = c # r" "dec_value (c # r) = n"
    using cr dec_value_dec_string [of n] by simp_all
  then show ?thesis using c assms by (simp add: stoi_def cr Let_def)
qed

section \<open>Correctness\<close>

text \<open>Numeric IPv4 addresses. Building an address from a 32-bit number never throws and
  reading the number back gives it again; two such addresses are equal exactly when their numbers
  are; and \<^verbatim>\<open>ipv4_numeric\<close> throws on every address of another family or size.\<close>

theorem address_ipv4_round_trip:
  "(\<exists>a. addr_from_ipv4_numeric n = Inr a \<and> addr_ipv4_numeric a = Inr n \<and> addr_size a = 16) \<and>
   (\<forall>a b. addr_from_ipv4_numeric n = Inr a \<and> addr_from_ipv4_numeric m = Inr b \<longrightarrow>
      (addr_equal a b \<longleftrightarrow> n = m) \<and> (addr_not_equal a b \<longleftrightarrow> n \<noteq> m)) \<and>
   (\<forall>a. addr_family a \<noteq> AF_INET \<or> addr_size a \<noteq> 16 \<longrightarrow>
      addr_ipv4_numeric a = Inl (Runtime_error ''ipv4_numeric called on non-IPV4 address''))"
proof -
  have "addr_equal (ipv4_address n) (ipv4_address m) \<longleftrightarrow> ipv4_address n = ipv4_address m"
    unfolding addr_equal_def by (simp add: ipv4_address_def) (simp add: sockaddr_in_bytes_def)
  moreover have "addr_size (ipv4_address n) = 16" by (simp add: ipv4_address_def)
  ultimately show ?thesis
    by (simp add: addr_from_ipv4_numeric_eq addr_not_equal_def)
      (simp add: addr_ipv4_numeric_def sizeof_sockaddr_in_def)
qed

theorem address_ipv4_round_trip_witness:
  "\<exists>a. addr_from_ipv4_numeric 0x7f000001 = Inr a \<and> addr_ipv4_numeric a = Inr 0x7f000001"
  using address_ipv4_round_trip [of "0x7f000001" 0] by blast

text \<open>The port of an address. When \<^verbatim>\<open>getnameinfo\<close> succeeds and prints host and port as numbers,
  as it is asked to, \<^verbatim>\<open>ip_port\<close> reads every 16-bit port right and \<^verbatim>\<open>to_string\<close> is the host, a
  colon and the port; when it fails, its status is thrown.\<close>

theorem address_ip_port:
  assumes "getnameinfo (addr_storage a) (addr_size a) = (ret, ip, dec_string (unat port))"
  shows "(ret = 0 \<longrightarrow> addr_ip_port getnameinfo a = Inr (ip, port) \<and> addr_ip getnameinfo a = Inr ip \<and>
      addr_port getnameinfo a = Inr port \<and>
      addr_to_string getnameinfo a = Inr (ip @ '':'' @ dec_string (unat port))) \<and>
    (ret \<noteq> 0 \<longrightarrow> addr_ip_port getnameinfo a = Inl (Tagged_error ''gai_error_category'' ''getnameinfo'' ret))"
proof -
  have "unat port < 2 ^ 31" using unsigned_less [of port, where 'a = nat] by simp
  from stoi_dec_string [OF this] assms show ?thesis
    by (simp add: addr_ip_port_def addr_ip_def addr_port_def addr_to_string_def)
qed

theorem address_ip_port_witness:
  "addr_to_string (\<lambda>_ _. (0, ''127.0.0.1'', dec_string 80)) (ipv4_address 0x7f000001) =
     Inr (''127.0.0.1'' @ '':'' @ dec_string 80)"
  using address_ip_port [of "\<lambda>_ _. (0, ''127.0.0.1'', dec_string 80)" "ipv4_address 0x7f000001" 0 "''127.0.0.1''" 80]
  by simp

end
