(* ===== verification/Network_Interface.thy ===== *)
theory Network_Interface
  imports Ethernet_ARP Address "HOL-Library.AList"
begin

text \<open>
  \<^verbatim>\<open>network_interface.hh\<close> and \<^verbatim>\<open>network_interface.cc\<close>: the interface between IP and Ethernet. It
  resolves next hops with ARP, keeps what it has learned for thirty seconds, and holds datagrams
  back until their next hop is known. An \<^verbatim>\<open>unordered_map\<close> is an association list whose order is the
  order of iteration; \<^verbatim>\<open>operator[]\<close>, \<^verbatim>\<open>find\<close> and \<^verbatim>\<open>erase\<close> are \<open>AList.update\<close>, \<open>map_of\<close> and
  \<open>AList.delete\<close>.
\<close>

section \<open>Model\<close>

record NetworkInterface =
  ni_ethernet_address :: EthernetAddress
  ni_ip_address :: Address
  ni_frames_out :: "EthernetFrame list"
  ni_ip_ethernet_cache :: "(uint32_t \<times> EthernetAddress) list"
  ni_ip_expire_time :: "(uint32_t \<times> size_t) list"
  ni_arp_expire_time :: "(uint32_t \<times> size_t) list"
  ni_blocked_ip_datagram :: "(uint32_t \<times> InternetDatagram) list"
  ni_ms_since_running :: size_t

definition NetworkInterface_new :: "EthernetAddress \<Rightarrow> Address \<Rightarrow> NetworkInterface" where
  "NetworkInterface_new ethernet_address ip_address =
     \<lparr>ni_ethernet_address = ethernet_address, ni_ip_address = ip_address, ni_frames_out = [],
      ni_ip_ethernet_cache = [], ni_ip_expire_time = [], ni_arp_expire_time = [],
      ni_blocked_ip_datagram = [], ni_ms_since_running = 0\<rparr>"

definition ni_send_arp_message ::
  "uint32_t \<Rightarrow> EthernetAddress \<Rightarrow> uint16_t \<Rightarrow> NetworkInterface \<Rightarrow> exn + NetworkInterface" where
  "ni_send_arp_message target_ip_address target_ethernet_address opcode ni =
     (let m = ARPMessage_new\<lparr>arp_sender_ethernet_address := ni_ethernet_address ni\<rparr>
      in bindE (addr_ipv4_numeric (ni_ip_address ni)) (\<lambda>ip.
         let m1 = m\<lparr>arp_sender_ip_address := ip, arp_target_ip_address := target_ip_address\<rparr>;
             m2 = (if opcode = OPCODE_REPLY
                   then m1\<lparr>arp_target_ethernet_address := target_ethernet_address\<rparr> else m1);
             arp_message = m2\<lparr>arp_opcode := opcode\<rparr>
         in bindE (arp_serialize arp_message) (\<lambda>s.
            let arp_frame = \<lparr>ef_header = \<lparr>eth_dst = target_ethernet_address,
                               eth_src = ni_ethernet_address ni, eth_type = TYPE_ARP\<rparr>,
                             ef_payload = bl_of_string s\<rparr>
            in Inr (ni\<lparr>ni_frames_out := ni_frames_out ni @ [arp_frame]\<rparr>))))"

definition ni_send_ip_dgram ::
  "InternetDatagram \<Rightarrow> EthernetAddress \<Rightarrow> NetworkInterface \<Rightarrow> exn + NetworkInterface" where
  "ni_send_ip_dgram dgram target_ethernet_address ni =
     bindE (dg_serialize dgram) (\<lambda>bl.
       let ip_frame = \<lparr>ef_header = \<lparr>eth_dst = target_ethernet_address,
                         eth_src = ni_ethernet_address ni, eth_type = TYPE_IPv4\<rparr>,
                       ef_payload = bl\<rparr>
       in Inr (ni\<lparr>ni_frames_out := ni_frames_out ni @ [ip_frame]\<rparr>))"

definition ni_update_ip_ethernet_cache ::
  "uint32_t \<Rightarrow> EthernetAddress \<Rightarrow> NetworkInterface \<Rightarrow> NetworkInterface" where
  "ni_update_ip_ethernet_cache ip_address ethernet_address ni =
     ni\<lparr>ni_ip_ethernet_cache := AList.update ip_address ethernet_address (ni_ip_ethernet_cache ni),
        ni_ip_expire_time :=
          AList.update ip_address (u64 (ni_ms_since_running ni + 30000)) (ni_ip_expire_time ni),
        ni_arp_expire_time := AList.delete ip_address (ni_arp_expire_time ni)\<rparr>"

text \<open>
  The lookup that \<^verbatim>\<open>send_datagram\<close> and \<^verbatim>\<open>recv_frame\<close> share: the cached address, unless it is missing
  or expired.
\<close>

definition ni_cached :: "uint32_t \<Rightarrow> NetworkInterface \<Rightarrow> EthernetAddress option" where
  "ni_cached ip ni =
     (case (map_of (ni_ip_ethernet_cache ni) ip, map_of (ni_ip_expire_time ni) ip) of
        (Some ethernet_address, Some t) \<Rightarrow>
          if t < ni_ms_since_running ni then None else Some ethernet_address
      | _ \<Rightarrow> None)"

text \<open>
  \<^verbatim>\<open>send_datagram\<close> compares the iterator into \<^verbatim>\<open>_arp_expire_time\<close> with the end of \<^verbatim>\<open>_ip_expire_time\<close>;
  the end iterators of unordered maps are all the same null node in the standard library the
  program is built with, so that the comparison says whether the key was found.
\<close>

definition ni_send_datagram :: "InternetDatagram \<Rightarrow> Address \<Rightarrow> NetworkInterface \<Rightarrow> exn + NetworkInterface" where
  "ni_send_datagram dgram next_hop ni =
     bindE (addr_ipv4_numeric next_hop) (\<lambda>next_hop_ip.
       case ni_cached next_hop_ip ni of
         None \<Rightarrow>
           let pending = (case map_of (ni_arp_expire_time ni) next_hop_ip of
                            None \<Rightarrow> False | Some t \<Rightarrow> t \<ge> ni_ms_since_running ni)
           in if pending then Inr ni
              else
                bindE (ni_send_arp_message next_hop_ip ETHERNET_BROADCAST OPCODE_REQUEST ni) (\<lambda>ni1.
                  Inr (ni1\<lparr>ni_blocked_ip_datagram := ni_blocked_ip_datagram ni1 @ [(next_hop_ip, dgram)],
                           ni_arp_expire_time :=
                             AList.update next_hop_ip (u64 (ni_ms_since_running ni1 + 5000))
                               (ni_arp_expire_time ni1)\<rparr>))
       | Some ethernet_address \<Rightarrow> ni_send_ip_dgram dgram ethernet_address ni)"

text \<open>The loop of \<^verbatim>\<open>recv_frame\<close> over the queue of blocked datagrams.\<close>

fun ni_flush ::
  "(uint32_t \<times> InternetDatagram) list \<Rightarrow> NetworkInterface \<Rightarrow> exn + NetworkInterface" where
  "ni_flush [] ni = Inr (ni\<lparr>ni_blocked_ip_datagram := []\<rparr>)"
| "ni_flush ((next_hop_ip, dgram) # rest) ni =
     (case ni_cached next_hop_ip ni of
        None \<Rightarrow> Inr (ni\<lparr>ni_blocked_ip_datagram := (next_hop_ip, dgram) # rest\<rparr>)
      | Some ethernet_address \<Rightarrow>
          bindE (ni_send_ip_dgram dgram ethernet_address ni) (ni_flush rest))"

definition ni_recv_frame ::
  "EthernetFrame \<Rightarrow> NetworkInterface \<Rightarrow> exn + InternetDatagram option \<times> NetworkInterface" where
  "ni_recv_frame frame ni =
     (if eth_dst (ef_header frame) \<noteq> ni_ethernet_address ni \<and>
         eth_dst (ef_header frame) \<noteq> ETHERNET_BROADCAST
      then Inr (None, ni)
      else if eth_type (ef_header frame) = TYPE_ARP then
        bindE (bl_to_buffer (ef_payload frame)) (\<lambda>payload.
          let (result, arp_message) = arp_parse payload ARPMessage_new
          in if result \<noteq> NoError then Inr (None, ni)
             else if arp_opcode arp_message = OPCODE_REPLY then
               let ni1 = ni_update_ip_ethernet_cache (arp_sender_ip_address arp_message)
                           (arp_sender_ethernet_address arp_message) ni
               in bindE (ni_flush (ni_blocked_ip_datagram ni1) ni1) (\<lambda>ni2. Inr (None, ni2))
             else if arp_opcode arp_message \<noteq> OPCODE_REQUEST then Inr (None, ni)
             else
               let ni1 = ni_update_ip_ethernet_cache (arp_sender_ip_address arp_message)
                           (arp_sender_ethernet_address arp_message) ni
               in bindE (addr_ipv4_numeric (ni_ip_address ni1)) (\<lambda>ip.
                  if arp_target_ip_address arp_message = ip
                  then bindE (ni_send_arp_message (arp_sender_ip_address arp_message)
                                (arp_sender_ethernet_address arp_message) OPCODE_REPLY ni1)
                         (\<lambda>ni2. Inr (None, ni2))
                  else Inr (None, ni1)))
      else if eth_type (ef_header frame) \<noteq> TYPE_IPv4 then Inr (None, ni)
      else
        bindE (bl_to_buffer (ef_payload frame)) (\<lambda>payload.
          let (result, dgram) = dg_parse payload IPv4Datagram_new
          in if result \<noteq> NoError then Inr (None, ni) else Inr (Some dgram, ni)))"

text \<open>The loop of \<^verbatim>\<open>tick\<close> over \<^verbatim>\<open>_ip_expire_time\<close>: what is kept of it, and the cache.\<close>

fun ni_expire ::
  "size_t \<Rightarrow> (uint32_t \<times> size_t) list \<Rightarrow> (uint32_t \<times> EthernetAddress) list \<Rightarrow>
   (uint32_t \<times> size_t) list \<times> (uint32_t \<times> EthernetAddress) list" where
  "ni_expire now [] cache = ([], cache)"
| "ni_expire now ((ip, t) # rest) cache =
     (if t < now then ni_expire now rest (AList.delete ip cache)
      else let (times, cache1) = ni_expire now rest cache in ((ip, t) # times, cache1))"

definition ni_tick :: "size_t \<Rightarrow> NetworkInterface \<Rightarrow> NetworkInterface" where
  "ni_tick ms_since_last_tick ni =
     (let now = u64 (ni_ms_since_running ni + ms_since_last_tick);
          (times, cache) = ni_expire now (ni_ip_expire_time ni) (ni_ip_ethernet_cache ni)
      in ni\<lparr>ni_ms_since_running := now, ni_ip_expire_time := times, ni_ip_ethernet_cache := cache\<rparr>)"

section \<open>Invariant\<close>

text \<open>
  Every cached address has an expiry time, which is at most thirty seconds ahead; hardware
  addresses have six bytes; and the interface has an IPv4 address.
\<close>

definition ni_inv :: "NetworkInterface \<Rightarrow> bool" where
  "ni_inv ni \<longleftrightarrow>
     length (ni_ethernet_address ni) = 6 \<and> (\<exists>ip. addr_ipv4_numeric (ni_ip_address ni) = Inr ip) \<and>
     distinct (map fst (ni_ip_expire_time ni)) \<and> distinct (map fst (ni_ip_ethernet_cache ni)) \<and>
     dom (map_of (ni_ip_ethernet_cache ni)) = dom (map_of (ni_ip_expire_time ni)) \<and>
     (\<forall>a \<in> ran (map_of (ni_ip_ethernet_cache ni)). length a = 6) \<and>
     (\<forall>t \<in> ran (map_of (ni_ip_expire_time ni)). t \<le> ni_ms_since_running ni + 30000) \<and>
     (\<forall>t \<in> ran (map_of (ni_arp_expire_time ni)). t \<le> ni_ms_since_running ni + 5000)"

declare ni_inv_def [inv_defs]

lemma ni_inv_new:
  "length e = 6 \<Longrightarrow> addr_ipv4_numeric a = Inr ip \<Longrightarrow> ni_inv (NetworkInterface_new e a)"
  by (simp add: ni_inv_def NetworkInterface_new_def)

lemma ni_inv_frames [simp]:
  "ni_inv (ni\<lparr>ni_frames_out := f\<rparr>) = ni_inv ni" "ni_inv (ni\<lparr>ni_blocked_ip_datagram := q\<rparr>) = ni_inv ni"
  by (simp_all add: ni_inv_def)

lemma ni_cached_frames [simp]:
  "ni_cached ip (ni\<lparr>ni_frames_out := f\<rparr>) = ni_cached ip ni"
  "ni_cached ip (ni\<lparr>ni_blocked_ip_datagram := q\<rparr>) = ni_cached ip ni"
  "ni_cached ip (ni\<lparr>ni_arp_expire_time := t\<rparr>) = ni_cached ip ni"
  by (simp_all add: ni_cached_def split: option.split)

lemma ran_update_subset: "x \<in> ran (m(k \<mapsto> v)) \<Longrightarrow> x = v \<or> x \<in> ran m"
  by (auto simp: ran_def split: if_splits)

lemma ni_update_inv:
  assumes "ni_inv ni" and "length a = 6"
  shows "ni_inv (ni_update_ip_ethernet_cache ip a ni)"
proof -
  have "u64 (ni_ms_since_running ni + 30000) \<le> ni_ms_since_running ni + 30000" by (simp add: u64_def)
  moreover have "ran (map_of (AList.delete ip (ni_arp_expire_time ni))) \<subseteq> ran (map_of (ni_arp_expire_time ni))"
    by (auto simp: delete_conv' ran_def restrict_map_def split: if_splits)
  ultimately show ?thesis
    using assms by (auto simp: ni_inv_def ni_update_ip_ethernet_cache_def update_conv' distinct_update
        dest!: ran_update_subset)
qed

lemma ni_cached_update:
  "ni_ms_since_running ni + 30000 < 2 ^ 64 \<Longrightarrow>
   ni_cached ip' (ni_update_ip_ethernet_cache ip a ni) = (if ip' = ip then Some a else ni_cached ip' ni)"
  by (simp add: ni_cached_def ni_update_ip_ethernet_cache_def update_conv' u64_id split: option.split)

lemma ni_inv_dom:
  "ni_inv ni \<Longrightarrow> map_of (ni_ip_ethernet_cache ni) ip = None \<longleftrightarrow> map_of (ni_ip_expire_time ni) ip = None"
  unfolding ni_inv_def by (metis domIff)

lemma ni_expire_spec:
  assumes "distinct (map fst tms)"
  shows "map_of (fst (ni_expire now tms cache)) ip =
      (case map_of tms ip of None \<Rightarrow> None | Some t \<Rightarrow> if t < now then None else Some t)"
    and "map_of (snd (ni_expire now tms cache)) ip =
      (case map_of tms ip of None \<Rightarrow> map_of cache ip | Some t \<Rightarrow> if t < now then None else map_of cache ip)"
    and "set (map fst (fst (ni_expire now tms cache))) \<subseteq> set (map fst tms)"
    and "distinct (map fst (fst (ni_expire now tms cache)))"
    and "distinct (map fst cache) \<Longrightarrow> distinct (map fst (snd (ni_expire now tms cache)))"
proof -
  have "(map_of (fst (ni_expire now tms cache)) ip =
      (case map_of tms ip of None \<Rightarrow> None | Some t \<Rightarrow> if t < now then None else Some t)) \<and>
    (map_of (snd (ni_expire now tms cache)) ip =
      (case map_of tms ip of None \<Rightarrow> map_of cache ip | Some t \<Rightarrow> if t < now then None else map_of cache ip)) \<and>
    set (map fst (fst (ni_expire now tms cache))) \<subseteq> set (map fst tms) \<and>
    distinct (map fst (fst (ni_expire now tms cache))) \<and>
    (distinct (map fst cache) \<longrightarrow> distinct (map fst (snd (ni_expire now tms cache))))"
    using assms
  proof (induction now tms cache rule: ni_expire.induct)
    case (2 now k t rest cache)
    then have notin: "map_of rest k = None" by (simp add: map_of_eq_None_iff)
    show ?case
    proof (cases "t < now")
      case True
      with 2 notin show ?thesis by (auto simp: delete_conv' distinct_delete split: option.splits)
    next
      case False
      obtain tms' cache' where e: "ni_expire now rest cache = (tms', cache')" by fastforce
      with 2 False notin show ?thesis by (auto split: option.splits)
    qed
  qed simp
  then show "map_of (fst (ni_expire now tms cache)) ip =
      (case map_of tms ip of None \<Rightarrow> None | Some t \<Rightarrow> if t < now then None else Some t)"
    "map_of (snd (ni_expire now tms cache)) ip =
      (case map_of tms ip of None \<Rightarrow> map_of cache ip | Some t \<Rightarrow> if t < now then None else map_of cache ip)"
    "set (map fst (fst (ni_expire now tms cache))) \<subseteq> set (map fst tms)"
    "distinct (map fst (fst (ni_expire now tms cache)))"
    "distinct (map fst cache) \<Longrightarrow> distinct (map fst (snd (ni_expire now tms cache)))"
    by blast+
qed

lemma ni_tick_maps:
  assumes "ni_inv ni" and "ni_ms_since_running ni + ms < 2 ^ 64"
  shows "map_of (ni_ip_expire_time (ni_tick ms ni)) ip = (case map_of (ni_ip_expire_time ni) ip of
      None \<Rightarrow> None | Some t \<Rightarrow> if t < ni_ms_since_running ni + ms then None else Some t)"
    and "map_of (ni_ip_ethernet_cache (ni_tick ms ni)) ip = (case map_of (ni_ip_expire_time ni) ip of
      None \<Rightarrow> None | Some t \<Rightarrow> if t < ni_ms_since_running ni + ms then None else map_of (ni_ip_ethernet_cache ni) ip)"
    and "ni_ms_since_running (ni_tick ms ni) = ni_ms_since_running ni + ms"
proof -
  have d: "distinct (map fst (ni_ip_expire_time ni))" using assms(1) by (simp add: ni_inv_def)
  have dom: "map_of (ni_ip_ethernet_cache ni) ip = None" if "map_of (ni_ip_expire_time ni) ip = None"
    using ni_inv_dom [OF assms(1)] that by simp
  note e = ni_expire_spec [OF d, where now = "ni_ms_since_running ni + ms" and cache = "ni_ip_ethernet_cache ni"]
  show "map_of (ni_ip_expire_time (ni_tick ms ni)) ip = (case map_of (ni_ip_expire_time ni) ip of
      None \<Rightarrow> None | Some t \<Rightarrow> if t < ni_ms_since_running ni + ms then None else Some t)"
    using e(1) assms(2) by (simp add: ni_tick_def u64_id case_prod_beta Let_def)
  show "map_of (ni_ip_ethernet_cache (ni_tick ms ni)) ip = (case map_of (ni_ip_expire_time ni) ip of
      None \<Rightarrow> None | Some t \<Rightarrow> if t < ni_ms_since_running ni + ms then None else map_of (ni_ip_ethernet_cache ni) ip)"
    using e(2) [of ip] dom assms(2) by (auto simp: ni_tick_def u64_id case_prod_beta Let_def split: option.splits)
  show "ni_ms_since_running (ni_tick ms ni) = ni_ms_since_running ni + ms"
    using assms(2) by (simp add: ni_tick_def u64_id case_prod_beta Let_def)
qed

lemma ni_tick_inv:
  assumes "ni_inv ni" and "ni_ms_since_running ni + ms < 2 ^ 64"
  shows "ni_inv (ni_tick ms ni)"
proof -
  note m = ni_tick_maps [OF assms]
  have d: "distinct (map fst (ni_ip_expire_time ni))" "distinct (map fst (ni_ip_ethernet_cache ni))"
    using assms(1) by (simp_all add: ni_inv_def)
  have same: "ni_ethernet_address (ni_tick ms ni) = ni_ethernet_address ni"
    "ni_ip_address (ni_tick ms ni) = ni_ip_address ni" "ni_arp_expire_time (ni_tick ms ni) = ni_arp_expire_time ni"
    "distinct (map fst (ni_ip_expire_time (ni_tick ms ni)))"
    "distinct (map fst (ni_ip_ethernet_cache (ni_tick ms ni)))"
    using ni_expire_spec(4,5) [OF d(1)] d(2) by (simp_all add: ni_tick_def case_prod_beta Let_def)
  have "map_of (ni_ip_ethernet_cache (ni_tick ms ni)) ip = None \<longleftrightarrow>
      map_of (ni_ip_expire_time (ni_tick ms ni)) ip = None" for ip
    using ni_inv_dom [OF assms(1), of ip] by (auto simp: m split: option.splits)
  then have "dom (map_of (ni_ip_ethernet_cache (ni_tick ms ni))) = dom (map_of (ni_ip_expire_time (ni_tick ms ni)))"
    unfolding dom_def by simp
  moreover have "\<forall>a \<in> ran (map_of (ni_ip_ethernet_cache (ni_tick ms ni))). length a = 6"
  proof -
    have "ran (map_of (ni_ip_ethernet_cache (ni_tick ms ni))) \<subseteq> ran (map_of (ni_ip_ethernet_cache ni))"
      by (auto simp: ran_def m split: option.splits if_splits)
    then show ?thesis using assms(1) unfolding ni_inv_def by blast
  qed
  moreover have "\<forall>t \<in> ran (map_of (ni_ip_expire_time (ni_tick ms ni))). t \<le> ni_ms_since_running ni + ms + 30000"
  proof -
    have "ran (map_of (ni_ip_expire_time (ni_tick ms ni))) \<subseteq> ran (map_of (ni_ip_expire_time ni))"
      by (auto simp: ran_def m split: option.splits if_splits)
    then show ?thesis using assms(1) unfolding ni_inv_def by fastforce
  qed
  moreover have "\<forall>t \<in> ran (map_of (ni_arp_expire_time ni)). t \<le> ni_ms_since_running ni + ms + 5000"
    using assms(1) unfolding ni_inv_def by fastforce
  moreover have "length (ni_ethernet_address ni) = 6" "\<exists>ip. addr_ipv4_numeric (ni_ip_address ni) = Inr ip"
    using assms(1) by (simp_all add: ni_inv_def)
  ultimately show ?thesis
    unfolding ni_inv_def same(1-3) m(3) using same(4,5) by blast
qed

section \<open>Frames on the wire\<close>

text \<open>
  A frame that another interface receives has been serialized and parsed again (the hosts of a
  network exchange frames as strings).
\<close>

definition on_wire :: "EthernetFrame \<Rightarrow> EthernetFrame" where
  "on_wire f = snd (ef_parse (buf_of_string (bl_concatenate (ef_serialize f))) EthernetFrame_new)"

definition wire_ok :: "EthernetFrame \<Rightarrow> bool" where
  "wire_ok f \<longleftrightarrow> eth_wf (ef_header f) \<and> length (bl_bytes (ef_payload f)) < 2 ^ 32"

lemma on_wire_spec:
  assumes "wire_ok f"
  obtains pay where "on_wire f = \<lparr>ef_header = ef_header f, ef_payload = [pay]\<rparr>" and "buf_wf pay"
    and "buf_str pay = bl_bytes (ef_payload f)"
    and "ef_parse (buf_of_string (bl_concatenate (ef_serialize f))) EthernetFrame_new = (NoError, on_wire f)"
proof -
  have assms: "eth_wf (ef_header f)" "length (bl_bytes (ef_payload f)) < 2 ^ 32"
    using assms by (simp_all add: wire_ok_def)
  let ?b = "buf_of_string (bl_bytes (ef_serialize f))"
  have "length (bl_bytes (ef_serialize f)) = 14 + length (bl_bytes (ef_payload f))"
    using assms(1) by (simp add: ef_serialize_def eth_serialize_eq bl_append_def eth_wf_def)
  then have wf: "buf_wf ?b" using assms(2) by (intro buf_wf_of_string) simp
  have "buf_str ?b = bl_bytes (ef_serialize f)" by simp
  then obtain pay where "ef_parse ?b EthernetFrame_new =
      (NoError, EthernetFrame_new\<lparr>ef_header := ef_header f, ef_payload := [pay]\<rparr>)"
    "buf_wf pay" "buf_str pay = bl_bytes (ef_payload f)"
    by (rule ef_parse_serialized [OF wf assms(1)])
  then show thesis by (intro that [of pay]) (simp_all add: on_wire_def EthernetFrame_new_def)
qed

text \<open>A frame as it arrives: with its payload in one buffer.\<close>

definition carried :: "EthernetFrame \<Rightarrow> EthernetFrame \<Rightarrow> bool" where
  "carried f g \<longleftrightarrow> ef_header g = ef_header f \<and>
     (\<exists>pay. ef_payload g = [pay] \<and> buf_wf pay \<and> buf_str pay = bl_bytes (ef_payload f))"

lemma on_wire_carried: "wire_ok f \<Longrightarrow> carried f (on_wire f)"
  by (rule on_wire_spec) (auto simp: carried_def)

text \<open>The ARP message that \<^verbatim>\<open>send_arp_message\<close> builds.\<close>

definition ni_arp_message :: "uint32_t \<Rightarrow> EthernetAddress \<Rightarrow> uint16_t \<Rightarrow> EthernetAddress \<Rightarrow> uint32_t \<Rightarrow> ARPMessage" where
  "ni_arp_message target_ip target_eth opcode eth ip =
     ARPMessage_new\<lparr>arp_sender_ethernet_address := eth, arp_sender_ip_address := ip,
       arp_target_ip_address := target_ip,
       arp_target_ethernet_address := (if opcode = OPCODE_REPLY then target_eth else replicate 6 0),
       arp_opcode := opcode\<rparr>"

lemma ni_arp_message_simps [simp]:
  "arp_sender_ethernet_address (ni_arp_message t te op e ip) = e"
  "arp_sender_ip_address (ni_arp_message t te op e ip) = ip"
  "arp_target_ip_address (ni_arp_message t te op e ip) = t" "arp_opcode (ni_arp_message t te op e ip) = op"
  by (simp_all add: ni_arp_message_def)

lemma ni_arp_message_wf:
  assumes "length e = 6" "length te = 6" "op = OPCODE_REQUEST \<or> op = OPCODE_REPLY"
  shows "arp_wf (ni_arp_message t te op e ip)" "arp_supported (ni_arp_message t te op e ip)"
  using assms by (simp_all add: arp_wf_def arp_supported_def ni_arp_message_def ARPMessage_new_def)

definition ni_arp_frame :: "uint32_t \<Rightarrow> EthernetAddress \<Rightarrow> uint16_t \<Rightarrow> EthernetAddress \<Rightarrow> uint32_t \<Rightarrow> EthernetFrame" where
  "ni_arp_frame t te op e ip =
     \<lparr>ef_header = \<lparr>eth_dst = te, eth_src = e, eth_type = TYPE_ARP\<rparr>,
      ef_payload = bl_of_string (arp_wire (ni_arp_message t te op e ip))\<rparr>"

lemma ni_send_arp_message_eq:
  assumes "addr_ipv4_numeric (ni_ip_address ni) = Inr ip" "length (ni_ethernet_address ni) = 6" "length te = 6"
    "op = OPCODE_REQUEST \<or> op = OPCODE_REPLY"
  shows "ni_send_arp_message t te op ni =
    Inr (ni\<lparr>ni_frames_out := ni_frames_out ni @ [ni_arp_frame t te op (ni_ethernet_address ni) ip]\<rparr>)"
proof -
  have "(if op = OPCODE_REPLY
      then ARPMessage_new\<lparr>arp_sender_ethernet_address := ni_ethernet_address ni, arp_sender_ip_address := ip,
             arp_target_ip_address := t, arp_target_ethernet_address := te\<rparr>
      else ARPMessage_new\<lparr>arp_sender_ethernet_address := ni_ethernet_address ni, arp_sender_ip_address := ip,
             arp_target_ip_address := t\<rparr>)\<lparr>arp_opcode := op\<rparr> = ni_arp_message t te op (ni_ethernet_address ni) ip"
    by (simp add: ni_arp_message_def ARPMessage_new_def)
  then show ?thesis
    using assms(1) ni_arp_message_wf(2) [OF assms(2-4), of t ip]
    by (simp add: ni_send_arp_message_def arp_serialize_eq ni_arp_frame_def Let_def)
qed

lemma ni_arp_frame_ok:
  assumes "length e = 6" "length te = 6" "op = OPCODE_REQUEST \<or> op = OPCODE_REPLY"
  shows "wire_ok (ni_arp_frame t te op e ip)"
  using assms ni_arp_message_wf [OF assms, of t ip] by (simp add: ni_arp_frame_def wire_ok_def eth_wf_def length_arp_wire)

lemma ni_arp_frame_carried:
  assumes "length e = 6" "length te = 6" "op = OPCODE_REQUEST \<or> op = OPCODE_REPLY" "carried (ni_arp_frame t te op e ip) g"
  obtains pay where "g = \<lparr>ef_header = \<lparr>eth_dst = te, eth_src = e, eth_type = TYPE_ARP\<rparr>, ef_payload = [pay]\<rparr>"
    and "arp_parse pay ARPMessage_new = (NoError, ni_arp_message t te op e ip)"
proof -
  note wf = ni_arp_message_wf [OF assms(1-3), of t ip]
  obtain pay where pay: "ef_header g = ef_header (ni_arp_frame t te op e ip)" "ef_payload g = [pay]" "buf_wf pay"
    "buf_str pay = arp_wire (ni_arp_message t te op e ip) @ []"
    using assms(4) by (auto simp: carried_def ni_arp_frame_def)
  then have "g = \<lparr>ef_header = \<lparr>eth_dst = te, eth_src = e, eth_type = TYPE_ARP\<rparr>, ef_payload = [pay]\<rparr>"
    by (cases g) (simp add: ni_arp_frame_def)
  with arp_parse_wire [OF pay(3) wf(1) pay(4), of ARPMessage_new] show thesis
    using wf(2) by (intro that [of pay]) simp_all
qed

section \<open>What each call does\<close>

lemma broadcast_length [simp]: "length ETHERNET_BROADCAST = 6"
  by (simp add: ETHERNET_BROADCAST_def)

text \<open>An ARP request for this interface is learned from and answered.\<close>

lemma ni_recv_request:
  assumes "ni_inv ni" and "addr_ipv4_numeric (ni_ip_address ni) = Inr ip" and "length e = 6"
    and "carried (ni_arp_frame ip ETHERNET_BROADCAST OPCODE_REQUEST e from_ip) g"
  shows "ni_recv_frame g ni =
    Inr (None, (ni_update_ip_ethernet_cache from_ip e ni)\<lparr>ni_frames_out :=
      ni_frames_out ni @ [ni_arp_frame from_ip e OPCODE_REPLY (ni_ethernet_address ni) ip]\<rparr>)"
proof -
  obtain pay where pay: "g = \<lparr>ef_header = \<lparr>eth_dst = ETHERNET_BROADCAST, eth_src = e, eth_type = TYPE_ARP\<rparr>, ef_payload = [pay]\<rparr>"
    "arp_parse pay ARPMessage_new = (NoError, ni_arp_message ip ETHERNET_BROADCAST OPCODE_REQUEST e from_ip)"
    by (rule ni_arp_frame_carried [OF assms(3) broadcast_length disjI1 [OF refl] assms(4)])
  let ?ni = "ni_update_ip_ethernet_cache from_ip e ni"
  have same: "ni_ip_address ?ni = ni_ip_address ni" "ni_ethernet_address ?ni = ni_ethernet_address ni"
    "ni_frames_out ?ni = ni_frames_out ni"
    by (simp_all add: ni_update_ip_ethernet_cache_def)
  have "length (ni_ethernet_address ni) = 6" using assms(1) by (simp add: ni_inv_def)
  then have "ni_send_arp_message from_ip e OPCODE_REPLY ?ni = Inr (?ni\<lparr>ni_frames_out :=
      ni_frames_out ni @ [ni_arp_frame from_ip e OPCODE_REPLY (ni_ethernet_address ni) ip]\<rparr>)"
    using ni_send_arp_message_eq [of ?ni ip e OPCODE_REPLY from_ip] assms(2,3) by (simp add: same)
  moreover have "OPCODE_REQUEST \<noteq> OPCODE_REPLY" by (simp add: OPCODE_REQUEST_def OPCODE_REPLY_def)
  ultimately show ?thesis
    using assms(2) by (simp add: ni_recv_frame_def pay same Let_def)
qed

text \<open>A request for another interface is learned from, but not answered.\<close>

lemma ni_recv_request_other:
  assumes "addr_ipv4_numeric (ni_ip_address ni) = Inr ip" and "length e = 6" and "t \<noteq> ip"
    and "carried (ni_arp_frame t ETHERNET_BROADCAST OPCODE_REQUEST e from_ip) g"
  shows "ni_recv_frame g ni = Inr (None, ni_update_ip_ethernet_cache from_ip e ni)"
proof -
  obtain pay where pay: "g = \<lparr>ef_header = \<lparr>eth_dst = ETHERNET_BROADCAST, eth_src = e, eth_type = TYPE_ARP\<rparr>, ef_payload = [pay]\<rparr>"
    "arp_parse pay ARPMessage_new = (NoError, ni_arp_message t ETHERNET_BROADCAST OPCODE_REQUEST e from_ip)"
    by (rule ni_arp_frame_carried [OF assms(2) broadcast_length disjI1 [OF refl] assms(4)])
  have "ni_ip_address (ni_update_ip_ethernet_cache from_ip e ni) = ni_ip_address ni" "OPCODE_REQUEST \<noteq> OPCODE_REPLY"
    by (simp_all add: ni_update_ip_ethernet_cache_def OPCODE_REQUEST_def OPCODE_REPLY_def)
  then show ?thesis using assms(1,3) by (simp add: ni_recv_frame_def pay Let_def)
qed

text \<open>An ARP reply is learned from, and then the blocked datagrams are looked at.\<close>

lemma ni_recv_reply:
  assumes "length e = 6" and "length (ni_ethernet_address ni) = 6"
    and "carried (ni_arp_frame t (ni_ethernet_address ni) OPCODE_REPLY e from_ip) g"
  shows "ni_recv_frame g ni =
    bindE (ni_flush (ni_blocked_ip_datagram ni) (ni_update_ip_ethernet_cache from_ip e ni)) (\<lambda>ni2. Inr (None, ni2))"
proof -
  obtain pay where pay: "g = \<lparr>ef_header = \<lparr>eth_dst = ni_ethernet_address ni, eth_src = e, eth_type = TYPE_ARP\<rparr>, ef_payload = [pay]\<rparr>"
    "arp_parse pay ARPMessage_new = (NoError, ni_arp_message t (ni_ethernet_address ni) OPCODE_REPLY e from_ip)"
    by (rule ni_arp_frame_carried [OF assms(1,2) disjI2 [OF refl] assms(3)])
  have "ni_blocked_ip_datagram (ni_update_ip_ethernet_cache from_ip e ni) = ni_blocked_ip_datagram ni"
    by (simp add: ni_update_ip_ethernet_cache_def)
  then show ?thesis by (simp add: ni_recv_frame_def pay Let_def)
qed

lemma ni_arp_frame_on_wire:
  assumes "length e = 6" "length te = 6" "op = OPCODE_REQUEST \<or> op = OPCODE_REPLY"
  shows "carried (ni_arp_frame t te op e ip) (on_wire (ni_arp_frame t te op e ip))"
  using assms by (intro on_wire_carried ni_arp_frame_ok)

text \<open>A datagram that the wire format can carry, with the right length field.\<close>

definition dg_wf :: "InternetDatagram \<Rightarrow> bool" where
  "dg_wf dg \<longleftrightarrow> ip_wf (dg_header dg) \<and>
     unat (ip_len (dg_header dg)) = 4 * unat (ip_hlen (dg_header dg)) + length (bl_bytes (dg_payload dg))"

text \<open>The same datagram as it is read from the wire: with a checksum, and with its payload in one buffer.\<close>

definition same_dgram :: "InternetDatagram \<Rightarrow> InternetDatagram \<Rightarrow> bool" where
  "same_dgram dg dg' \<longleftrightarrow> (\<exists>c. dg_header dg' = (dg_header dg)\<lparr>ip_cksum := c\<rparr>) \<and>
     (\<exists>b. dg_payload dg' = [b] \<and> buf_wf b \<and> buf_str b = bl_concatenate (dg_payload dg))"

lemma ni_send_ip_dgram_carried:
  assumes "dg_wf dg" and "length e = 6" and "length (ni_ethernet_address ni) = 6"
  obtains f where "ni_send_ip_dgram dg e ni = Inr (ni\<lparr>ni_frames_out := ni_frames_out ni @ [f]\<rparr>)"
    and "ef_header f = \<lparr>eth_dst = e, eth_src = ni_ethernet_address ni, eth_type = TYPE_IPv4\<rparr>"
    and "\<forall>ni' g. ni_ethernet_address ni' = e \<longrightarrow> carried f g \<longrightarrow>
           (\<exists>dg'. ni_recv_frame g ni' = Inr (Some dg', ni') \<and> same_dgram dg dg')"
    and "wire_ok f"
proof -
  obtain bl c where bl: "dg_serialize dg = Inr bl" "length (bl_bytes bl) < 2 ^ 16"
    "\<forall>b dg0. buf_wf b \<longrightarrow> buf_str b = bl_bytes bl \<longrightarrow>
       (\<exists>pay. dg_parse b dg0 = (NoError, dg0\<lparr>dg_header := (dg_header dg)\<lparr>ip_cksum := c\<rparr>, dg_payload := [pay]\<rparr>) \<and>
         buf_wf pay \<and> buf_str pay = bl_bytes (dg_payload dg))"
    using assms(1) dg_parse_serialized [of dg] unfolding dg_wf_def by metis
  let ?f = "\<lparr>ef_header = \<lparr>eth_dst = e, eth_src = ni_ethernet_address ni, eth_type = TYPE_IPv4\<rparr>, ef_payload = bl\<rparr>"
  have ok: "wire_ok ?f" using assms(2,3) bl(2) by (simp add: wire_ok_def eth_wf_def)
  have "TYPE_IPv4 \<noteq> TYPE_ARP" by (simp add: TYPE_IPv4_def TYPE_ARP_def)
  then have "\<exists>dg'. ni_recv_frame g ni' = Inr (Some dg', ni') \<and> same_dgram dg dg'"
    if a: "ni_ethernet_address ni' = e" and c: "carried ?f g" for ni' g
  proof -
    obtain pay where pay: "ef_header g = ef_header ?f" "ef_payload g = [pay]" "buf_wf pay" "buf_str pay = bl_bytes bl"
      using c by (auto simp: carried_def)
    obtain p where "dg_parse pay IPv4Datagram_new =
        (NoError, IPv4Datagram_new\<lparr>dg_header := (dg_header dg)\<lparr>ip_cksum := c\<rparr>, dg_payload := [p]\<rparr>)"
      "buf_wf p" "buf_str p = bl_bytes (dg_payload dg)"
      using bl(3) pay(3,4) by blast
    with a pay(1,2) \<open>TYPE_IPv4 \<noteq> TYPE_ARP\<close> show ?thesis by (auto simp: ni_recv_frame_def same_dgram_def)
  qed
  then show thesis
    using bl(1) ok by (intro that [of ?f]) (auto simp: ni_send_ip_dgram_def)
qed

lemma ni_send_ip_dgram_spec:
  assumes "dg_wf dg" and "length e = 6" and "length (ni_ethernet_address ni) = 6"
  obtains f where "ni_send_ip_dgram dg e ni = Inr (ni\<lparr>ni_frames_out := ni_frames_out ni @ [f]\<rparr>)"
    and "ef_header f = \<lparr>eth_dst = e, eth_src = ni_ethernet_address ni, eth_type = TYPE_IPv4\<rparr>"
    and "\<forall>ni'. ni_ethernet_address ni' = e \<longrightarrow>
           (\<exists>dg'. ni_recv_frame (on_wire f) ni' = Inr (Some dg', ni') \<and> same_dgram dg dg')"
    and "wire_ok f"
  using ni_send_ip_dgram_carried [OF assms] on_wire_carried by metis

lemma ni_cached_length: "ni_inv ni \<Longrightarrow> ni_cached ip ni = Some e \<Longrightarrow> length e = 6"
  by (auto simp: ni_inv_def ni_cached_def ran_def split: option.splits if_splits)

text \<open>Sending a well-formed datagram to an IPv4 next hop never throws.\<close>

lemma ni_send_datagram_ok:
  assumes "ni_inv ni" and "addr_ipv4_numeric next_hop = Inr hop" and "dg_wf dg"
  obtains ni' where "ni_send_datagram dg next_hop ni = Inr ni'" and "ni_inv ni'"
proof -
  obtain ip where ip: "addr_ipv4_numeric (ni_ip_address ni) = Inr ip" using assms(1) by (auto simp: ni_inv_def)
  have len: "length (ni_ethernet_address ni) = 6" using assms(1) by (simp add: ni_inv_def)
  show thesis
  proof (cases "ni_cached hop ni")
    case (Some e)
    obtain f where "ni_send_ip_dgram dg e ni = Inr (ni\<lparr>ni_frames_out := ni_frames_out ni @ [f]\<rparr>)"
      by (rule ni_send_ip_dgram_spec [OF assms(3) ni_cached_length [OF assms(1) Some] len])
    with Some assms(1,2) show thesis
      by (intro that [of "ni\<lparr>ni_frames_out := ni_frames_out ni @ [f]\<rparr>"]) (simp_all add: ni_send_datagram_def)
  next
    case None
    define ni' where "ni' = ni\<lparr>ni_frames_out := ni_frames_out ni @
        [ni_arp_frame hop ETHERNET_BROADCAST OPCODE_REQUEST (ni_ethernet_address ni) ip],
      ni_blocked_ip_datagram := ni_blocked_ip_datagram ni @ [(hop, dg)],
      ni_arp_expire_time := AList.update hop (u64 (ni_ms_since_running ni + 5000)) (ni_arp_expire_time ni)\<rparr>"
    have "u64 (ni_ms_since_running ni + 5000) \<le> ni_ms_since_running ni + 5000" by (simp add: u64_def)
    then have "ni_inv ni'"
      using assms(1) unfolding ni'_def ni_inv_def by (auto simp: update_conv' dest!: ran_update_subset)
    moreover have "ni_send_datagram dg next_hop ni = Inr ni \<or> ni_send_datagram dg next_hop ni = Inr ni'"
      using ni_send_arp_message_eq [OF ip len broadcast_length disjI1 [OF refl], of hop] assms(2) None
      by (simp add: ni_send_datagram_def ni'_def Let_def)
    ultimately show thesis using assms(1) that by metis
  qed
qed

lemma ni_flush_spec:
  assumes "length (ni_ethernet_address ni) = 6" and "\<forall>a \<in> ran (map_of (ni_ip_ethernet_cache ni)). length a = 6"
    and "\<forall>(ip, dg) \<in> set q. dg_wf dg"
  shows "\<exists>fs. ni_flush q ni = Inr (ni\<lparr>ni_frames_out := ni_frames_out ni @ fs,
      ni_blocked_ip_datagram := dropWhile (\<lambda>(ip, dg). ni_cached ip ni \<noteq> None) q\<rparr>) \<and>
    list_all2 (\<lambda>(ip, dg) f. ni_cached ip ni = Some (eth_dst (ef_header f)) \<and>
        (\<forall>ni'. ni_ethernet_address ni' = eth_dst (ef_header f) \<longrightarrow>
           (\<exists>dg'. ni_recv_frame (on_wire f) ni' = Inr (Some dg', ni') \<and> same_dgram dg dg')))
      (takeWhile (\<lambda>(ip, dg). ni_cached ip ni \<noteq> None) q) fs"
  using assms
proof (induction q ni rule: ni_flush.induct)
  case (1 ni)
  then show ?case by simp
next
  case (2 ip dg rest ni)
  show ?case
  proof (cases "ni_cached ip ni")
    case None
    then show ?thesis by simp
  next
    case (Some e)
    then have "length e = 6" using "2.prems"(2)
      by (auto simp: ni_cached_def ran_def split: option.splits if_splits)
    moreover have "dg_wf dg" using "2.prems"(3) by simp
    ultimately obtain f where f: "ni_send_ip_dgram dg e ni = Inr (ni\<lparr>ni_frames_out := ni_frames_out ni @ [f]\<rparr>)"
      "ef_header f = \<lparr>eth_dst = e, eth_src = ni_ethernet_address ni, eth_type = TYPE_IPv4\<rparr>"
      "\<forall>ni'. ni_ethernet_address ni' = e \<longrightarrow>
         (\<exists>dg'. ni_recv_frame (on_wire f) ni' = Inr (Some dg', ni') \<and> same_dgram dg dg')"
      using "2.prems"(1) ni_send_ip_dgram_spec [of dg e ni] by metis
    let ?ni = "ni\<lparr>ni_frames_out := ni_frames_out ni @ [f]\<rparr>"
    from "2.IH" [OF Some, of ?ni] "2.prems" obtain fs where fs: "ni_flush rest ?ni = Inr (?ni\<lparr>ni_frames_out :=
        ni_frames_out ?ni @ fs, ni_blocked_ip_datagram := dropWhile (\<lambda>(ip, dg). ni_cached ip ?ni \<noteq> None) rest\<rparr>)"
      "list_all2 (\<lambda>(ip, dg) f. ni_cached ip ?ni = Some (eth_dst (ef_header f)) \<and>
          (\<forall>ni'. ni_ethernet_address ni' = eth_dst (ef_header f) \<longrightarrow>
             (\<exists>dg'. ni_recv_frame (on_wire f) ni' = Inr (Some dg', ni') \<and> same_dgram dg dg')))
        (takeWhile (\<lambda>(ip, dg). ni_cached ip ?ni \<noteq> None) rest) fs"
      by auto
    show ?thesis
      by (rule exI [of _ "f # fs"]) (use Some f fs in simp)
  qed
qed

section \<open>Correctness\<close>

text \<open>C40: sending a datagram. If the next hop's Ethernet address is known and has not expired, one
  frame with the datagram goes there. Otherwise an ARP request for the next hop is broadcast and
  the datagram is held back; but if such a request was sent less than five seconds ago, nothing
  at all happens: the datagram is neither sent nor held back. A next hop that is not an IPv4
  address throws.\<close>

theorem interface_send_datagram:
  assumes "ni_inv ni" and "addr_ipv4_numeric (ni_ip_address ni) = Inr ip" and "dg_wf dg"
  shows "(\<forall>e. addr_ipv4_numeric next_hop = Inl e \<longrightarrow> ni_send_datagram dg next_hop ni = Inl e) \<and>
    (\<forall>hop. addr_ipv4_numeric next_hop = Inr hop \<longrightarrow>
      (\<forall>e. ni_cached hop ni = Some e \<longrightarrow>
        (\<exists>f. ni_send_datagram dg next_hop ni = Inr (ni\<lparr>ni_frames_out := ni_frames_out ni @ [f]\<rparr>) \<and>
          ef_header f = \<lparr>eth_dst = e, eth_src = ni_ethernet_address ni, eth_type = TYPE_IPv4\<rparr> \<and>
          (\<forall>ni'. ni_ethernet_address ni' = e \<longrightarrow>
             (\<exists>dg'. ni_recv_frame (on_wire f) ni' = Inr (Some dg', ni') \<and> same_dgram dg dg')))) \<and>
      (ni_cached hop ni = None \<longrightarrow> ni_send_datagram dg next_hop ni =
        (if \<exists>t. map_of (ni_arp_expire_time ni) hop = Some t \<and> ni_ms_since_running ni \<le> t then Inr ni
         else Inr (ni\<lparr>ni_frames_out := ni_frames_out ni @
                       [ni_arp_frame hop ETHERNET_BROADCAST OPCODE_REQUEST (ni_ethernet_address ni) ip],
                     ni_blocked_ip_datagram := ni_blocked_ip_datagram ni @ [(hop, dg)],
                     ni_arp_expire_time :=
                       AList.update hop (u64 (ni_ms_since_running ni + 5000)) (ni_arp_expire_time ni)\<rparr>))))"
proof (intro conjI allI impI)
  fix hop e
  assume a: "addr_ipv4_numeric next_hop = Inr hop" and c: "ni_cached hop ni = Some e"
  have "length e = 6" by (rule ni_cached_length [OF assms(1) c])
  moreover have "length (ni_ethernet_address ni) = 6" using assms(1) by (simp add: ni_inv_def)
  ultimately obtain f where "ni_send_ip_dgram dg e ni = Inr (ni\<lparr>ni_frames_out := ni_frames_out ni @ [f]\<rparr>)"
    "ef_header f = \<lparr>eth_dst = e, eth_src = ni_ethernet_address ni, eth_type = TYPE_IPv4\<rparr>"
    "\<forall>ni'. ni_ethernet_address ni' = e \<longrightarrow>
       (\<exists>dg'. ni_recv_frame (on_wire f) ni' = Inr (Some dg', ni') \<and> same_dgram dg dg')"
    by (rule ni_send_ip_dgram_spec [OF assms(3)])
  with a c show "\<exists>f. ni_send_datagram dg next_hop ni = Inr (ni\<lparr>ni_frames_out := ni_frames_out ni @ [f]\<rparr>) \<and>
      ef_header f = \<lparr>eth_dst = e, eth_src = ni_ethernet_address ni, eth_type = TYPE_IPv4\<rparr> \<and>
      (\<forall>ni'. ni_ethernet_address ni' = e \<longrightarrow>
         (\<exists>dg'. ni_recv_frame (on_wire f) ni' = Inr (Some dg', ni') \<and> same_dgram dg dg'))"
    by (intro exI [of _ f]) (simp add: ni_send_datagram_def)
next
  fix hop
  assume a: "addr_ipv4_numeric next_hop = Inr hop" and c: "ni_cached hop ni = None"
  have "length (ni_ethernet_address ni) = 6" using assms(1) by (simp add: ni_inv_def)
  from ni_send_arp_message_eq [OF assms(2) this broadcast_length disjI1 [OF refl], of hop] a c
  show "ni_send_datagram dg next_hop ni =
      (if \<exists>t. map_of (ni_arp_expire_time ni) hop = Some t \<and> ni_ms_since_running ni \<le> t then Inr ni
       else Inr (ni\<lparr>ni_frames_out := ni_frames_out ni @
                     [ni_arp_frame hop ETHERNET_BROADCAST OPCODE_REQUEST (ni_ethernet_address ni) ip],
                   ni_blocked_ip_datagram := ni_blocked_ip_datagram ni @ [(hop, dg)],
                   ni_arp_expire_time :=
                     AList.update hop (u64 (ni_ms_since_running ni + 5000)) (ni_arp_expire_time ni)\<rparr>))"
    by (simp add: ni_send_datagram_def split: option.split)
qed (simp add: ni_send_datagram_def)

text \<open>The examples use an interface with hardware address 1:1:1:1:1:1 and an empty datagram.\<close>

definition host :: "uint8_t \<Rightarrow> uint32_t \<Rightarrow> NetworkInterface" where
  "host n ip = NetworkInterface_new (replicate 6 n) (ipv4_address ip)"

definition empty_dgram :: InternetDatagram where
  "empty_dgram = \<lparr>dg_header = IPv4Header_new\<lparr>ip_len := 20\<rparr>, dg_payload = []\<rparr>"

lemma host_simps [simp]:
  "ni_inv (host n ip)" "addr_ipv4_numeric (ni_ip_address (host n ip)) = Inr ip"
  "ni_ethernet_address (host n ip) = replicate 6 n" "ni_cached hop (host n ip) = None"
  "ni_frames_out (host n ip) = []" "ni_blocked_ip_datagram (host n ip) = []"
  "ni_arp_expire_time (host n ip) = []" "ni_ms_since_running (host n ip) = 0"
  by (simp_all add: host_def ni_inv_new [OF _ addr_ipv4_numeric_ipv4])
    (simp_all add: NetworkInterface_new_def ni_cached_def)

lemma empty_dgram_wf [simp]: "dg_wf empty_dgram"
  by (simp add: dg_wf_def empty_dgram_def ip_wf_def IPv4Header_new_def IPv4Header_LENGTH_def)

theorem interface_send_datagram_witness:
  "\<exists>ni'. ni_send_datagram empty_dgram (ipv4_address 2) (host 1 1) = Inr ni' \<and>
     ni_blocked_ip_datagram ni' = [(2, empty_dgram)]"
  using interface_send_datagram [of "host 1 1" 1 empty_dgram "ipv4_address 2"] by simp

text \<open>C39: an ARP reply. The mapping is learned, and the datagrams that were held back are sent in
  order, each to the address known for its next hop, up to the first one whose next hop is not
  known; that one and all that follow it stay, even those whose next hop is known.\<close>

theorem interface_arp_reply:
  assumes "ni_inv ni" and "length e = 6" and "\<forall>(ip, dg) \<in> set (ni_blocked_ip_datagram ni). dg_wf dg"
    and "ni_ms_since_running ni + 30000 < 2 ^ 64"
  shows "\<exists>ni' fs. ni_recv_frame (on_wire (ni_arp_frame t (ni_ethernet_address ni) OPCODE_REPLY e from_ip)) ni =
      Inr (None, ni') \<and> ni_inv ni' \<and>
    (\<forall>hop. ni_cached hop ni' = (if hop = from_ip then Some e else ni_cached hop ni)) \<and>
    ni_frames_out ni' = ni_frames_out ni @ fs \<and>
    ni_blocked_ip_datagram ni' = dropWhile (\<lambda>(hop, dg). ni_cached hop ni' \<noteq> None) (ni_blocked_ip_datagram ni) \<and>
    list_all2 (\<lambda>(hop, dg) f. ni_cached hop ni' = Some (eth_dst (ef_header f)) \<and>
        (\<forall>peer. ni_ethernet_address peer = eth_dst (ef_header f) \<longrightarrow>
           (\<exists>dg'. ni_recv_frame (on_wire f) peer = Inr (Some dg', peer) \<and> same_dgram dg dg')))
      (takeWhile (\<lambda>(hop, dg). ni_cached hop ni' \<noteq> None) (ni_blocked_ip_datagram ni)) fs"
proof -
  let ?ni = "ni_update_ip_ethernet_cache from_ip e ni" and ?q = "ni_blocked_ip_datagram ni"
  have len: "length (ni_ethernet_address ni) = 6" using assms(1) by (simp add: ni_inv_def)
  have inv: "ni_inv ?ni" by (rule ni_update_inv [OF assms(1,2)])
  then have "length (ni_ethernet_address ?ni) = 6" "\<forall>a \<in> ran (map_of (ni_ip_ethernet_cache ?ni)). length a = 6"
    by (simp_all add: ni_inv_def)
  from ni_flush_spec [OF this assms(3)] obtain fs where fs: "ni_flush ?q ?ni =
      Inr (?ni\<lparr>ni_frames_out := ni_frames_out ?ni @ fs,
        ni_blocked_ip_datagram := dropWhile (\<lambda>(ip, dg). ni_cached ip ?ni \<noteq> None) ?q\<rparr>)"
    "list_all2 (\<lambda>(ip, dg) f. ni_cached ip ?ni = Some (eth_dst (ef_header f)) \<and>
        (\<forall>ni'. ni_ethernet_address ni' = eth_dst (ef_header f) \<longrightarrow>
           (\<exists>dg'. ni_recv_frame (on_wire f) ni' = Inr (Some dg', ni') \<and> same_dgram dg dg')))
      (takeWhile (\<lambda>(ip, dg). ni_cached ip ?ni \<noteq> None) ?q) fs"
    by blast
  let ?ni' = "?ni\<lparr>ni_frames_out := ni_frames_out ?ni @ fs,
        ni_blocked_ip_datagram := dropWhile (\<lambda>(ip, dg). ni_cached ip ?ni \<noteq> None) ?q\<rparr>"
  have "ni_recv_frame (on_wire (ni_arp_frame t (ni_ethernet_address ni) OPCODE_REPLY e from_ip)) ni = Inr (None, ?ni')"
    using ni_recv_reply [OF assms(2) len ni_arp_frame_on_wire [OF assms(2) len], of t from_ip] fs(1) by simp
  moreover have "ni_frames_out ?ni = ni_frames_out ni" by (simp add: ni_update_ip_ethernet_cache_def)
  ultimately show ?thesis
    using inv fs(2) ni_cached_update [OF assms(4)] by (intro exI [of _ ?ni'] exI [of _ fs]) simp
qed

theorem interface_arp_reply_witness:
  "\<exists>ni'. ni_recv_frame (on_wire (ni_arp_frame 1 (replicate 6 1) OPCODE_REPLY (replicate 6 2) 2)) (host 1 1) =
     Inr (None, ni') \<and> ni_cached 2 ni' = Some (replicate 6 2)"
  using interface_arp_reply [of "host 1 1" "replicate 6 2" 1 2] by auto

text \<open>Two interfaces that know nothing of each other exchange a request and a reply, and then a datagram.\<close>

lemma ni_arp_exchange:
  assumes "ni_inv a" and "addr_ipv4_numeric (ni_ip_address a) = Inr ip_a" and "ni_frames_out a = []"
    and "ni_inv b" and "addr_ipv4_numeric (ni_ip_address b) = Inr ip_b" and "ni_frames_out b = []"
    and "addr_ipv4_numeric next_hop = Inr ip_b" and "ni_cached ip_b a = None"
    and "map_of (ni_arp_expire_time a) ip_b = None" and "ni_blocked_ip_datagram a = []" and "dg_wf dg"
    and "ni_ms_since_running a + 30000 < 2 ^ 64" and "ni_ms_since_running b + 30000 < 2 ^ 64"
  shows "\<exists>a1 request b1 reply a2 frame.
    ni_send_datagram dg next_hop a = Inr a1 \<and> ni_frames_out a1 = [request] \<and>
    ni_recv_frame (on_wire request) b = Inr (None, b1) \<and> ni_frames_out b1 = [reply] \<and>
    ni_recv_frame (on_wire reply) (a1\<lparr>ni_frames_out := []\<rparr>) = Inr (None, a2) \<and>
    ni_frames_out a2 = [frame] \<and> ni_blocked_ip_datagram a2 = [] \<and>
    wire_ok request \<and> wire_ok reply \<and> wire_ok frame \<and> ni_ethernet_address b1 = ni_ethernet_address b \<and>
    (\<forall>ni'. ni_ethernet_address ni' = ni_ethernet_address b \<longrightarrow>
       (\<exists>dg'. ni_recv_frame (on_wire frame) ni' = Inr (Some dg', ni') \<and> same_dgram dg dg')) \<and>
    ni_cached ip_b a2 = Some (ni_ethernet_address b) \<and> ni_cached ip_a b1 = Some (ni_ethernet_address a)"
proof -
  let ?ea = "ni_ethernet_address a" and ?eb = "ni_ethernet_address b"
  have e: "length ?ea = 6" "length ?eb = 6" using assms(1,4) by (simp_all add: ni_inv_def)
  define request where "request = ni_arp_frame ip_b ETHERNET_BROADCAST OPCODE_REQUEST ?ea ip_a"
  define reply where "reply = ni_arp_frame ip_a ?ea OPCODE_REPLY ?eb ip_b"
  define a1 where "a1 = a\<lparr>ni_frames_out := [request], ni_blocked_ip_datagram := [(ip_b, dg)],
    ni_arp_expire_time := AList.update ip_b (u64 (ni_ms_since_running a + 5000)) (ni_arp_expire_time a)\<rparr>"
  have 1: "ni_send_datagram dg next_hop a = Inr a1"
    using ni_send_arp_message_eq [OF assms(2) e(1) broadcast_length disjI1 [OF refl], of ip_b] assms(3,7-10)
    by (simp add: ni_send_datagram_def a1_def request_def)
  define b1 where "b1 = (ni_update_ip_ethernet_cache ip_a ?ea b)\<lparr>ni_frames_out := [reply]\<rparr>"
  have 2: "ni_recv_frame (on_wire request) b = Inr (None, b1)" "ni_ethernet_address b1 = ?eb"
    using ni_recv_request [OF assms(4,5) e(1) ni_arp_frame_on_wire [OF e(1) broadcast_length], of ip_a] assms(6)
    by (simp_all add: request_def reply_def b1_def) (simp add: ni_update_ip_ethernet_cache_def)
  let ?a = "a1\<lparr>ni_frames_out := []\<rparr>"
  let ?a' = "ni_update_ip_ethernet_cache ip_b ?eb ?a"
  have c: "ni_cached ip_b ?a' = Some ?eb"
    using ni_cached_update [of ?a ip_b ip_b ?eb] assms(12) by (simp add: a1_def)
  have a': "length (ni_ethernet_address ?a') = 6" "ni_frames_out ?a' = []"
    using e(1) by (simp_all add: ni_update_ip_ethernet_cache_def a1_def)
  obtain f where f: "ni_send_ip_dgram dg ?eb ?a' = Inr (?a'\<lparr>ni_frames_out := ni_frames_out ?a' @ [f]\<rparr>)"
    "\<forall>ni'. ni_ethernet_address ni' = ?eb \<longrightarrow>
       (\<exists>dg'. ni_recv_frame (on_wire f) ni' = Inr (Some dg', ni') \<and> same_dgram dg dg')"
    "wire_ok f"
    by (rule ni_send_ip_dgram_spec [OF assms(11) e(2) a'(1)])
  define a2 where "a2 = ?a'\<lparr>ni_frames_out := [f], ni_blocked_ip_datagram := []\<rparr>"
  have "ni_blocked_ip_datagram ?a = [(ip_b, dg)]" "ni_ethernet_address ?a = ?ea" by (simp_all add: a1_def)
  then have 3: "ni_recv_frame (on_wire reply) ?a = Inr (None, a2)"
    using ni_recv_reply [OF e(2) _ ni_arp_frame_on_wire [OF e(2)], of ?a ip_a ip_b] e(1) c f(1) a'(2)
    by (simp add: reply_def a2_def)
  have 4: "wire_ok request" "wire_ok reply"
    using e by (simp_all add: request_def reply_def ni_arp_frame_ok)
  have 5: "ni_cached ip_a b1 = Some ?ea" "ni_cached ip_b a2 = Some ?eb"
    using ni_cached_update [OF assms(13), of ip_a ip_a ?ea] c by (simp_all add: b1_def a2_def)
  show ?thesis
    using 1 2 3 4 5 f(2,3)
    by (intro exI [of _ a1] exI [of _ request] exI [of _ b1] exI [of _ reply] exI [of _ a2] exI [of _ f])
      (simp add: a1_def b1_def a2_def)
qed

text \<open>C38: address resolution, end to end. Two interfaces on one network that know nothing of each other:
  the first is asked to send a datagram to the second's IP address. It broadcasts a request;
  the second answers it; the answer makes the first send the datagram, and the second receives
  exactly that datagram (the header checksum filled in). Afterwards each knows the other.\<close>

theorem interface_arp_exchange:
  assumes "ni_inv a" and "addr_ipv4_numeric (ni_ip_address a) = Inr ip_a" and "ni_frames_out a = []"
    and "ni_inv b" and "addr_ipv4_numeric (ni_ip_address b) = Inr ip_b" and "ni_frames_out b = []"
    and "addr_ipv4_numeric next_hop = Inr ip_b" and "ni_cached ip_b a = None"
    and "map_of (ni_arp_expire_time a) ip_b = None" and "ni_blocked_ip_datagram a = []" and "dg_wf dg"
    and "ni_ms_since_running a + 30000 < 2 ^ 64" and "ni_ms_since_running b + 30000 < 2 ^ 64"
  shows "\<exists>a1 request b1 reply a2 frame dg'.
    ni_send_datagram dg next_hop a = Inr a1 \<and> ni_frames_out a1 = [request] \<and>
    ni_recv_frame (on_wire request) b = Inr (None, b1) \<and> ni_frames_out b1 = [reply] \<and>
    ni_recv_frame (on_wire reply) (a1\<lparr>ni_frames_out := []\<rparr>) = Inr (None, a2) \<and>
    ni_frames_out a2 = [frame] \<and> ni_blocked_ip_datagram a2 = [] \<and>
    ni_recv_frame (on_wire frame) b1 = Inr (Some dg', b1) \<and> same_dgram dg dg' \<and>
    ni_cached ip_b a2 = Some (ni_ethernet_address b) \<and> ni_cached ip_a b1 = Some (ni_ethernet_address a)"
  using ni_arp_exchange [OF assms] by blast

theorem interface_arp_exchange_witness:
  "\<exists>a1 request. ni_send_datagram empty_dgram (ipv4_address 2) (host 1 1) = Inr a1 \<and>
     ni_frames_out a1 = [request] \<and>
     (\<exists>b1 reply. ni_recv_frame (on_wire request) (host 2 2) = Inr (None, b1) \<and> ni_frames_out b1 = [reply])"
  using interface_arp_exchange [of "host 1 1" 1 "host 2 2" 2 "ipv4_address 2" empty_dgram] by fastforce

lemma ni_ticks_cached:
  assumes "ni_inv ni" and "ni_ms_since_running ni + sum_list mss < 2 ^ 64"
    and "map_of (ni_ip_ethernet_cache ni) ip = Some a" and "map_of (ni_ip_expire_time ni) ip = Some t"
    and "ni_ms_since_running ni \<le> t"
  shows "ni_inv (fold ni_tick mss ni) \<and>
    ni_cached ip (fold ni_tick mss ni) = (if ni_ms_since_running ni + sum_list mss \<le> t then Some a else None)"
  using assms
proof (induction mss arbitrary: ni)
  case Nil
  then show ?case by (simp add: ni_cached_def)
next
  case (Cons ms mss)
  let ?ni = "ni_tick ms ni"
  have b: "ni_ms_since_running ni + ms < 2 ^ 64" using Cons.prems(2) by simp
  note m = ni_tick_maps [OF Cons.prems(1) b] and inv = ni_tick_inv [OF Cons.prems(1) b]
  show ?case
  proof (cases "ni_ms_since_running ni + ms \<le> t")
    case True
    then have "ni_inv (fold ni_tick mss ?ni) \<and> ni_cached ip (fold ni_tick mss ?ni) =
        (if ni_ms_since_running ?ni + sum_list mss \<le> t then Some a else None)"
      using Cons.prems inv by (intro Cons.IH) (simp_all add: m)
    then show ?thesis by (simp add: m add.assoc)
  next
    case False
    have gone: "ni_inv n \<Longrightarrow> ni_ms_since_running n + sum_list ls < 2 ^ 64 \<Longrightarrow>
        map_of (ni_ip_expire_time n) ip = None \<Longrightarrow>
        ni_inv (fold ni_tick ls n) \<and> ni_cached ip (fold ni_tick ls n) = None" for n ls
    proof (induction ls arbitrary: n)
      case Nil
      then show ?case by (simp add: ni_cached_def split: option.split)
    next
      case (Cons l ls)
      then have "ni_ms_since_running n + l < 2 ^ 64" by simp
      with Cons show ?case using ni_tick_maps [of n l] ni_tick_inv [of n l] by simp
    qed
    have "map_of (ni_ip_expire_time ?ni) ip = None" using Cons.prems(4) False by (simp add: m)
    with gone [OF inv, of mss] show ?thesis using Cons.prems(2) False by (simp add: m)
  qed
qed

text \<open>How long a mapping lives. From the moment it is learned, and if nothing more is learned, an
  address is used for exactly thirty seconds, however they are divided into ticks; then it is
  forgotten. The interface's invariant holds all the time.\<close>

theorem interface_cache_lifetime:
  assumes "ni_inv ni" and "length e = 6" and "ni_ms_since_running ni + 30000 < 2 ^ 64"
    and "ni_ms_since_running ni + sum_list mss < 2 ^ 64"
  shows "ni_inv (fold ni_tick mss (ni_update_ip_ethernet_cache ip e ni)) \<and>
    ni_cached ip (fold ni_tick mss (ni_update_ip_ethernet_cache ip e ni)) =
      (if sum_list mss \<le> 30000 then Some e else None)"
proof -
  let ?ni = "ni_update_ip_ethernet_cache ip e ni"
  have "map_of (ni_ip_ethernet_cache ?ni) ip = Some e"
    "map_of (ni_ip_expire_time ?ni) ip = Some (ni_ms_since_running ni + 30000)"
    "ni_ms_since_running ?ni = ni_ms_since_running ni"
    using assms(3) by (simp_all add: ni_update_ip_ethernet_cache_def update_conv' u64_id)
  from ni_ticks_cached [OF ni_update_inv [OF assms(1,2)] _ this(1,2), of mss] this(3) assms(4)
  show ?thesis by simp
qed

theorem interface_cache_lifetime_witness:
  "ni_cached 2 (fold ni_tick [20000, 10000] (ni_update_ip_ethernet_cache 2 (replicate 6 2) (host 1 1))) =
     Some (replicate 6 2) \<and>
   ni_cached 2 (fold ni_tick [20000, 10001] (ni_update_ip_ethernet_cache 2 (replicate 6 2) (host 1 1))) = None"
  using interface_cache_lifetime [of "host 1 1" "replicate 6 2" "[20000, 10000]" 2]
    interface_cache_lifetime [of "host 1 1" "replicate 6 2" "[20000, 10001]" 2] by simp

text \<open>Frames that are not for this interface, or of an unknown type, or whose ARP message or
  datagram does not parse, change nothing and return nothing.\<close>

theorem interface_ignores:
  assumes "ef_payload frame = [payload]"
    and "eth_dst (ef_header frame) \<notin> {ni_ethernet_address ni, ETHERNET_BROADCAST} \<or>
         eth_type (ef_header frame) \<notin> {TYPE_ARP, TYPE_IPv4} \<or>
         eth_type (ef_header frame) = TYPE_ARP \<and> fst (arp_parse payload ARPMessage_new) \<noteq> NoError \<or>
         eth_type (ef_header frame) = TYPE_IPv4 \<and> fst (dg_parse payload IPv4Datagram_new) \<noteq> NoError"
  shows "ni_recv_frame frame ni = Inr (None, ni)"
proof -
  have "TYPE_ARP \<noteq> TYPE_IPv4" "TYPE_IPv4 \<noteq> TYPE_ARP" by (simp_all add: TYPE_ARP_def TYPE_IPv4_def)
  then show ?thesis
    using assms unfolding ni_recv_frame_def
    by (elim disjE) (simp_all add: case_prod_beta Let_def)
qed

theorem interface_ignores_witness:
  "ni_recv_frame \<lparr>ef_header = EthernetHeader_new, ef_payload = [buf_empty]\<rparr> (host 1 1) = Inr (None, host 1 1)"
  by (rule interface_ignores [where payload = buf_empty]) (simp_all add: EthernetHeader_new_def TYPE_ARP_def TYPE_IPv4_def)

end
