(* ===== verification/File_Descriptor.thy ===== *)
theory File_Descriptor
  imports Address
begin

unbundle bit_operations_syntax

text \<open>
  \<^verbatim>\<open>util/file_descriptor.hh\<close> and \<^verbatim>\<open>file_descriptor.cc\<close>: reference-counted file descriptors; and, of
  \<^verbatim>\<open>util/util.cc\<close> and \<^verbatim>\<open>util/socket.cc\<close>, the wrapper of system calls and the socket operations that the
  TCP sockets and adapters use. A descriptor counts its reads and writes, for the event loop, and
  remembers the end of its input. Copies of a descriptor share one \<^verbatim>\<open>FDWrapper\<close>, which is what the
  model keeps.
\<close>

section \<open>Model\<close>

text \<open>
  A system call returns its value and \<^verbatim>\<open>errno\<close>; \<^verbatim>\<open>SystemCall\<close> turns failure into an exception. System
  calls are parameters. They act on the rest of the system, whose state is \<open>'o\<close>; a call that
  transfers data is also given or returns the bytes.
\<close>

definition unix_error :: "string \<Rightarrow> int \<Rightarrow> exn" where
  "unix_error attempt error = Tagged_error ''system'' attempt error"

definition SystemCall :: "string \<Rightarrow> int \<times> int \<Rightarrow> int \<Rightarrow> exn + int" where
  "SystemCall attempt result errno_mask =
     (let (return_value, errno) = result
      in if 0 \<le> return_value \<or> errno = errno_mask then Inr return_value
         else Inl (unix_error attempt errno))"

text \<open>
  The parameter \<^verbatim>\<open>return_value\<close> is an \<^verbatim>\<open>int\<close>. \<open>close\<close>, \<open>poll\<close>, \<open>shutdown\<close> and the like return one, which is passed as it is;
  \<open>read\<close>, \<open>writev\<close>, \<open>recvfrom\<close> and \<open>sendmsg\<close> return a \<^verbatim>\<open>ssize_t\<close>, which the call of \<^verbatim>\<open>SystemCall\<close> narrows to 32
  bits: for these it is \<open>SystemCall_ssize_t\<close>, the same function with the conversion of its argument.
\<close>

definition to_int :: "int \<Rightarrow> int" where
  "to_int n = signed_take_bit 31 n"

definition SystemCall_ssize_t :: "string \<Rightarrow> int \<times> int \<Rightarrow> int \<Rightarrow> exn + int" where
  "SystemCall_ssize_t attempt result errno_mask =
     (let (return_value, errno) = result in SystemCall attempt (to_int return_value, errno) errno_mask)"

record FDWrapper =
  fd_num :: int
  fd_eof :: bool
  fd_closed :: bool
  fd_read_count :: uint32_t
  fd_write_count :: uint32_t

definition int_string :: "int \<Rightarrow> string" where
  "int_string n = (if n < 0 then ''-'' @ dec_string (nat (- n)) else dec_string (nat n))"

definition FDWrapper_new :: "int \<Rightarrow> exn + FDWrapper" where
  "FDWrapper_new fd =
     (if fd < 0 then Inl (Runtime_error (''invalid fd number:'' @ int_string fd))
      else Inr \<lparr>fd_num = fd, fd_eof = False, fd_closed = False, fd_read_count = 0, fd_write_count = 0\<rparr>)"

definition fd_close :: "int \<times> int \<Rightarrow> FDWrapper \<Rightarrow> exn + FDWrapper" where
  "fd_close sys_close fd =
     bindE (SystemCall ''close'' sys_close 0) (\<lambda>_. Inr (fd\<lparr>fd_closed := True, fd_eof := True\<rparr>))"

definition fd_register_read :: "FDWrapper \<Rightarrow> FDWrapper" where
  "fd_register_read fd = fd\<lparr>fd_read_count := fd_read_count fd + 1\<rparr>"

definition fd_register_write :: "FDWrapper \<Rightarrow> FDWrapper" where
  "fd_register_write fd = fd\<lparr>fd_write_count := fd_write_count fd + 1\<rparr>"

definition BUFFER_SIZE :: size_t where
  "BUFFER_SIZE = 1024 * 1024"

text \<open>\<open>read(2)\<close> returns its value, \<open>errno\<close> and the buffer it has filled.\<close>

type_synonym 'o sys_read = "size_t \<Rightarrow> 'o \<Rightarrow> ((int \<times> int) \<times> bytes) \<times> 'o"

definition fd_read :: "'o sys_read \<Rightarrow> size_t \<Rightarrow> FDWrapper \<Rightarrow> 'o \<Rightarrow> exn + bytes \<times> FDWrapper \<times> 'o" where
  "fd_read sys_read limit fd os =
     (let size_to_read = min BUFFER_SIZE limit;
          ((result, str), os1) = sys_read size_to_read os
      in bindE (SystemCall_ssize_t ''read'' result 0) (\<lambda>bytes_read.
           let fd1 = (if 0 < limit \<and> bytes_read = 0 then fd\<lparr>fd_eof := True\<rparr> else fd)
           in if int size_to_read < bytes_read then Inl (Runtime_error ''read() read more than requested'')
              else if bytes_read < 0 then Inl (Length_error ''basic_string::_M_replace_aux'')
              else Inr (take (nat bytes_read) str, fd_register_read fd1, os1)))"

text \<open>\<open>writev(2)\<close> is given all the bytes, and returns its value and \<open>errno\<close>.\<close>

type_synonym 'o sys_writev = "bytes \<Rightarrow> 'o \<Rightarrow> (int \<times> int) \<times> 'o"

text \<open>
  The result of a write is converted from \<^verbatim>\<open>ssize_t\<close> to \<^verbatim>\<open>size_t\<close>, where negative numbers wrap; and the size of the
  buffer from \<^verbatim>\<open>size_t\<close> to \<^verbatim>\<open>ssize_t\<close>, where large ones do.
\<close>

definition to_size :: "int \<Rightarrow> size_t" where
  "to_size n = (if 0 \<le> n then nat n else 2 ^ 64 - nat (- n) mod 2 ^ 64)"

lemma to_size_nonneg [simp]: "0 \<le> n \<Longrightarrow> to_size n = nat n"
  by (simp add: to_size_def)

lemma to_size_pos: "n \<noteq> 0 \<Longrightarrow> 0 < to_size n"
proof -
  assume "n \<noteq> 0"
  moreover have "nat (- n) mod 2 ^ 64 < 2 ^ 64" by (rule mod_less_divisor) simp
  ultimately show ?thesis by (simp only: to_size_def split: if_split) simp
qed

lemma bvl_remove_prefix_Inr:
  "bvl_remove_prefix n vl = Inr vl' \<Longrightarrow> n \<le> length (concat vl) \<and> concat vl' = drop n (concat vl)"
  using bvl_remove_prefix_ok [of n vl] bvl_remove_prefix_throws [of vl n] by (cases "n \<le> length (concat vl)") auto

function fd_write_loop ::
  "'o sys_writev \<Rightarrow> bool \<Rightarrow> BufferViewList \<Rightarrow> size_t \<Rightarrow> FDWrapper \<Rightarrow> 'o \<Rightarrow> exn + size_t \<times> FDWrapper \<times> 'o" where
  "fd_write_loop sys_writev write_all buffer total_bytes_written fd os =
     (let (result, os1) = sys_writev (concat buffer) os
      in (case SystemCall_ssize_t ''writev'' result 0 of
            Inl e \<Rightarrow> Inl e
          | Inr bytes_written \<Rightarrow>
              (if bytes_written = 0 \<and> bvl_size buffer \<noteq> 0
               then Inl (Runtime_error ''write returned 0 given non-empty input buffer'')
               else if signed_take_bit 63 (int (bvl_size buffer)) < bytes_written
               then Inl (Runtime_error ''write wrote more than length of input buffer'')
               else (case bvl_remove_prefix (to_size bytes_written) buffer of
                       Inl e \<Rightarrow> Inl e
                     | Inr buffer1 \<Rightarrow>
                         (let total1 = u64 (total_bytes_written + to_size bytes_written)
                          in if write_all \<and> bvl_size buffer1 \<noteq> 0
                             then fd_write_loop sys_writev write_all buffer1 total1 (fd_register_write fd) os1
                             else Inr (total1, fd_register_write fd, os1))))))"
  by pat_completeness auto

termination
proof (relation "measure (\<lambda>(_, _, buffer, _). length (concat buffer))")
  fix sys_writev :: "'o sys_writev" and write_all buffer total_bytes_written fd os x result os1 n buffer1 y
  assume z: "\<not> (n = 0 \<and> bvl_size buffer \<noteq> 0)" and r: "bvl_remove_prefix (to_size n) buffer = Inr buffer1"
    and c: "write_all \<and> bvl_size buffer1 \<noteq> 0"
  have b: "concat buffer1 = drop (to_size n) (concat buffer)"
    using bvl_remove_prefix_Inr [OF r] by simp
  show "((sys_writev, write_all, buffer1, y, fd_register_write fd, os1),
      (sys_writev, write_all, buffer, total_bytes_written, fd, os))
    \<in> measure (\<lambda>(_, _, buffer, _). length (concat buffer))"
    using c z b to_size_pos [of n] by (cases "n = 0") auto
qed simp

declare fd_write_loop.simps [simp del]

definition fd_write ::
  "'o sys_writev \<Rightarrow> BufferViewList \<Rightarrow> bool \<Rightarrow> FDWrapper \<Rightarrow> 'o \<Rightarrow> exn + size_t \<times> FDWrapper \<times> 'o" where
  "fd_write sys_writev buffer write_all fd os = fd_write_loop sys_writev write_all buffer 0 fd os"

text \<open>\<open>set_blocking\<close> returns the flags that it sets.\<close>

definition O_NONBLOCK :: "32 word" where
  "O_NONBLOCK = 0x800"

definition fd_set_blocking :: "bool \<Rightarrow> int \<times> int \<Rightarrow> (32 word \<Rightarrow> int \<times> int) \<Rightarrow> exn + 32 word" where
  "fd_set_blocking blocking_state sys_getfl sys_setfl =
     bindE (SystemCall ''fcntl'' sys_getfl 0) (\<lambda>f.
       let flags = word_of_int f;
           flags = (if blocking_state then flags XOR (flags AND O_NONBLOCK) else flags OR O_NONBLOCK)
       in bindE (SystemCall ''fcntl'' (sys_setfl flags) 0) (\<lambda>_. Inr flags))"

section \<open>Sockets\<close>

datatype shut_how = SHUT_RD | SHUT_WR | SHUT_RDWR | SHUT_OTHER int

definition sk_shutdown :: "shut_how \<Rightarrow> int \<times> int \<Rightarrow> FDWrapper \<Rightarrow> exn + FDWrapper" where
  "sk_shutdown how sys_shutdown fd =
     bindE (SystemCall ''shutdown'' sys_shutdown 0) (\<lambda>_.
       case how of
         SHUT_RD \<Rightarrow> Inr (fd_register_read fd)
       | SHUT_WR \<Rightarrow> Inr (fd_register_write fd)
       | SHUT_RDWR \<Rightarrow> Inr (fd_register_write (fd_register_read fd))
       | SHUT_OTHER _ \<Rightarrow> Inl (Runtime_error ''Socket::shutdown() called with invalid `how`''))"

record received_datagram =
  rd_source_address :: Address
  rd_payload :: bytes

text \<open>\<open>recvfrom(2)\<close> returns its value, \<open>errno\<close>, the buffer and the address of the sender.\<close>

definition sk_recv ::
  "size_t \<Rightarrow> (int \<times> int) \<times> bytes \<times> bytes \<times> size_t \<Rightarrow> FDWrapper \<Rightarrow> exn + received_datagram \<times> FDWrapper" where
  "sk_recv mtu sys_recvfrom fd =
     (let (result, payload, datagram_source_address, fromlen) = sys_recvfrom
      in bindE (SystemCall_ssize_t ''recvfrom'' result 0) (\<lambda>recv_len.
         if int mtu < recv_len then Inl (Runtime_error ''recvfrom (oversized datagram)'')
         else bindE (Address_of_raw datagram_source_address fromlen) (\<lambda>source_address.
           if recv_len < 0 then Inl (Length_error ''basic_string::_M_replace_aux'')
           else Inr (\<lparr>rd_source_address = source_address, rd_payload = take (nat recv_len) payload\<rparr>,
                     fd_register_read fd))))"

definition sendmsg_helper :: "int \<times> int \<Rightarrow> BufferViewList \<Rightarrow> exn + unit" where
  "sendmsg_helper sys_sendmsg payload =
     bindE (SystemCall_ssize_t ''sendmsg'' sys_sendmsg 0) (\<lambda>bytes_sent.
       if to_size bytes_sent \<noteq> bvl_size payload
       then Inl (Runtime_error ''datagram payload too big for sendmsg()'') else Inr ())"

definition sk_sendto :: "int \<times> int \<Rightarrow> BufferViewList \<Rightarrow> FDWrapper \<Rightarrow> exn + FDWrapper" where
  "sk_sendto sys_sendmsg payload fd =
     bindE (sendmsg_helper sys_sendmsg payload) (\<lambda>_. Inr (fd_register_write fd))"

definition sk_send :: "int \<times> int \<Rightarrow> BufferViewList \<Rightarrow> FDWrapper \<Rightarrow> exn + FDWrapper" where
  "sk_send sys_sendmsg payload fd =
     bindE (sendmsg_helper sys_sendmsg payload) (\<lambda>_. Inr (fd_register_write fd))"

text \<open>
  The constructors. One calls \<open>socket(2)\<close>; the other takes a descriptor and checks what two calls of
  \<open>getsockopt(2)\<close> return of it, each with the value and its length in bytes.
\<close>

definition Socket_new :: "int \<times> int \<Rightarrow> exn + FDWrapper" where
  "Socket_new sys_socket = bindE (SystemCall ''socket'' sys_socket 0) FDWrapper_new"

definition Socket_of_fd ::
  "(int \<times> int) \<times> int \<times> nat \<Rightarrow> (int \<times> int) \<times> int \<times> nat \<Rightarrow> int \<Rightarrow> int \<Rightarrow> FDWrapper \<Rightarrow> exn + FDWrapper" where
  "Socket_of_fd sys_so_domain sys_so_type domain type fd =
     (let (result, actual_value, len) = sys_so_domain
      in bindE (SystemCall ''getsockopt'' result 0) (\<lambda>_.
         if len \<noteq> 4 \<or> actual_value \<noteq> domain then Inl (Runtime_error ''socket domain mismatch'')
         else
           let (result, actual_value, len) = sys_so_type
           in bindE (SystemCall ''getsockopt'' result 0) (\<lambda>_.
              if len \<noteq> 4 \<or> actual_value \<noteq> type then Inl (Runtime_error ''socket type mismatch'') else Inr fd)))"

definition sk_get_address :: "string \<Rightarrow> (int \<times> int) \<times> bytes \<times> size_t \<Rightarrow> exn + Address" where
  "sk_get_address name_of_function function =
     (let (result, address, len) = function
      in bindE (SystemCall name_of_function result 0) (\<lambda>_. Address_of_raw address len))"

definition sk_local_address :: "(int \<times> int) \<times> bytes \<times> size_t \<Rightarrow> exn + Address" where
  "sk_local_address = sk_get_address ''getsockname''"

definition sk_peer_address :: "(int \<times> int) \<times> bytes \<times> size_t \<Rightarrow> exn + Address" where
  "sk_peer_address = sk_get_address ''getpeername''"

definition SOCK_STREAM :: int where "SOCK_STREAM = 1"

definition sk_accept ::
  "int \<times> int \<Rightarrow> (int \<times> int) \<times> int \<times> nat \<Rightarrow> (int \<times> int) \<times> int \<times> nat \<Rightarrow> FDWrapper \<Rightarrow>
   exn + FDWrapper \<times> FDWrapper" where
  "sk_accept sys_accept sys_so_domain sys_so_type fd =
     (let fd1 = fd_register_read fd
      in bindE (SystemCall ''accept'' sys_accept 0) (\<lambda>n.
         bindE (FDWrapper_new n) (\<lambda>accepted.
         bindE (Socket_of_fd sys_so_domain sys_so_type (uint AF_INET) SOCK_STREAM accepted) (\<lambda>socket.
           Inr (socket, fd1)))))"

section \<open>Correctness\<close>

text \<open>
  What is relied on of \<open>writev(2)\<close>, as its manual page has it: it accepts some of the bytes, at least
  one if there are any, and these are appended to what has been written before (\<open>sink\<close>).
\<close>

definition honest_writev :: "'o sys_writev \<Rightarrow> ('o \<Rightarrow> bytes) \<Rightarrow> bool" where
  "honest_writev sys_writev sink \<longleftrightarrow>
     (\<forall>d os. \<exists>n err os'. sys_writev d os = ((int n, err), os') \<and> n \<le> length d \<and> (d \<noteq> [] \<longrightarrow> 0 < n) \<and>
        sink os' = sink os @ take n d)"

text \<open>On Linux, one call transfers at most \<open>0x7ffff000\<close> bytes, whatever it is given.\<close>

definition MAX_RW_COUNT :: size_t where
  "MAX_RW_COUNT = 0x7ffff000"

definition transfers_at_most :: "size_t \<Rightarrow> 'o sys_writev \<Rightarrow> bool" where
  "transfers_at_most n sys_writev \<longleftrightarrow> (\<forall>d os. fst (fst (sys_writev d os)) \<le> int n)"

lemma SystemCall_ok [simp]: "SystemCall attempt (int n, err) errno_mask = Inr (int n)"
  by (simp add: SystemCall_def)

lemma SystemCall_ssize_t_ok [simp]: "n < 2 ^ 31 \<Longrightarrow> SystemCall_ssize_t attempt (int n, err) errno_mask = Inr (int n)"
proof -
  assume "n < 2 ^ 31"
  then have "to_int (int n) = int n" by (simp add: to_int_def signed_take_bit_int_eq_self)
  then show ?thesis by (simp add: SystemCall_ssize_t_def)
qed

lemmas SystemCall_ssize_t_small [simp] =
  SystemCall_ssize_t_ok [of 0, simplified] SystemCall_ssize_t_ok [of 1, simplified]

lemma to_size_int: "to_size (int n) = n"
  by simp

lemma fd_write_loop_step:
  assumes "sys_writev (concat buffer) os = ((int n, err), os1)" and "n \<le> length (concat buffer)"
    and "concat buffer \<noteq> [] \<longrightarrow> 0 < n" and "n < 2 ^ 31" and "length (concat buffer) < 2 ^ 63"
  obtains buffer1 where "concat buffer1 = drop n (concat buffer)"
    and "fd_write_loop sys_writev all buffer m fd os =
      (if all \<and> concat buffer1 \<noteq> []
       then fd_write_loop sys_writev all buffer1 (u64 (m + n)) (fd_register_write fd) os1
       else Inr (u64 (m + n), fd_register_write fd, os1))"
proof -
  obtain buffer1 where b: "bvl_remove_prefix n buffer = Inr buffer1" "concat buffer1 = drop n (concat buffer)"
    using bvl_remove_prefix_ok [OF assms(2)] by blast
  have "\<not> (int n = 0 \<and> bvl_size buffer \<noteq> 0)" using assms(3) by auto
  moreover have "signed_take_bit 63 (int (bvl_size buffer)) = int (length (concat buffer))"
    using assms(5) by (simp only: bvl_size_eq) (simp add: signed_take_bit_int_eq_self)
  then have "\<not> signed_take_bit 63 (int (bvl_size buffer)) < int n" using assms(2) by simp
  ultimately show thesis
    using assms(1) b by (intro that [OF b(2)]) (subst fd_write_loop.simps, simp only: prod.case Let_def SystemCall_ssize_t_ok [OF assms(4)]
        sum.case if_False to_size_int bvl_size_eq length_0_conv)
qed

lemma write_once:
  assumes "sys_writev (concat buffer) os = ((int n, err), os1)" and "n \<le> length (concat buffer)"
    and "concat buffer \<noteq> [] \<longrightarrow> 0 < n" and "n < 2 ^ 31" and "length (concat buffer) < 2 ^ 63"
  shows "fd_write sys_writev buffer False fd os = Inr (n, fd_register_write fd, os1)"
proof -
  obtain buffer1 where "fd_write_loop sys_writev False buffer 0 fd os =
        (if False \<and> concat buffer1 \<noteq> []
         then fd_write_loop sys_writev False buffer1 (u64 (0 + n)) (fd_register_write fd) os1
         else Inr (u64 (0 + n), fd_register_write fd, os1))"
    by (rule fd_write_loop_step [where sys_writev = sys_writev and buffer = buffer, OF assms])
  moreover have "u64 n = n" using assms(4) by (intro u64_id) simp
  ultimately show ?thesis by (simp add: fd_write_def)
qed

text \<open>A call that fails makes the operation that uses it fail, and nothing else happens.\<close>

lemma fd_read_fails:
  assumes "SystemCall_ssize_t ''read'' (fst (fst (sys_read (min BUFFER_SIZE limit) os))) 0 = Inl e"
  shows "fd_read sys_read limit fd os = Inl e"
proof -
  obtain result str os1 where "sys_read (min BUFFER_SIZE limit) os = ((result, str), os1)" by (metis prod.exhaust)
  then show ?thesis using assms by (simp add: fd_read_def Let_def)
qed

lemma fd_write_fails:
  assumes "SystemCall_ssize_t ''writev'' (fst (sys_writev (concat buffer) os)) 0 = Inl e"
  shows "fd_write sys_writev buffer all fd os = Inl e"
proof -
  obtain result os1 where "sys_writev (concat buffer) os = (result, os1)" by (metis prod.exhaust)
  then show ?thesis using assms unfolding fd_write_def by (subst fd_write_loop.simps) simp
qed

lemma file_write_some:
  assumes "honest_writev sys_writev sink" and "length (concat buffer) < 2 ^ 31"
  shows "\<exists>n os'. fd_write sys_writev buffer False fd os = Inr (n, fd_register_write fd, os') \<and>
    n \<le> length (concat buffer) \<and> (concat buffer \<noteq> [] \<longrightarrow> 0 < n) \<and> sink os' = sink os @ take n (concat buffer) \<and>
    os' = snd (sys_writev (concat buffer) os)"
proof -
  obtain n err os1 where w: "sys_writev (concat buffer) os = ((int n, err), os1)" "n \<le> length (concat buffer)"
    "concat buffer \<noteq> [] \<longrightarrow> 0 < n" "sink os1 = sink os @ take n (concat buffer)"
    using assms(1) unfolding honest_writev_def by metis
  have "n < 2 ^ 31" "length (concat buffer) < 2 ^ 63" using w(2) assms(2) by simp_all
  from write_once [where sys_writev = sys_writev and buffer = buffer, OF w(1-3) this] show ?thesis using w by simp
qed

text \<open>C30: writing to a file descriptor. With a \<open>writev\<close> as the manual has it, which may accept any part of
  what it is given but no more than \<open>0x7ffff000\<close> bytes in one call, and for a buffer whose size is a \<^verbatim>\<open>ssize_t\<close>: \<open>write\<close> of all
  returns, has written every byte once and in order and returns their number; without \<open>write_all\<close> it makes one call and returns
  the number of bytes it accepted. (Without the bound of the system the code does not have this property: the number
  that \<open>writev\<close> returns is narrowed to an \<^verbatim>\<open>int\<close>.)\<close>

theorem file_write:
  assumes "honest_writev sys_writev sink" and "transfers_at_most MAX_RW_COUNT sys_writev"
    and "length (concat buffer) < 2 ^ 63"
  shows "(\<exists>fd' os'. fd_write sys_writev buffer True fd os = Inr (length (concat buffer), fd', os') \<and>
      sink os' = sink os @ concat buffer \<and> (fd_eof fd', fd_closed fd', fd_num fd') = (fd_eof fd, fd_closed fd, fd_num fd)) \<and>
    (\<exists>n os'. fd_write sys_writev buffer False fd os = Inr (n, fd_register_write fd, os') \<and>
      n \<le> length (concat buffer) \<and> (concat buffer \<noteq> [] \<longrightarrow> 0 < n) \<and> sink os' = sink os @ take n (concat buffer))"
proof
  have accepted: "\<exists>n err os1. sys_writev d os = ((int n, err), os1) \<and> n \<le> length d \<and> (d \<noteq> [] \<longrightarrow> 0 < n) \<and>
      sink os1 = sink os @ take n d \<and> n < 2 ^ 31" for d os
  proof -
    obtain n err os1 where w: "sys_writev d os = ((int n, err), os1)" "n \<le> length d" "d \<noteq> [] \<longrightarrow> 0 < n"
      "sink os1 = sink os @ take n d"
      using assms(1) unfolding honest_writev_def by metis
    moreover have "fst (fst (sys_writev d os)) \<le> int MAX_RW_COUNT" using assms(2) unfolding transfers_at_most_def by blast
    then have "n < 2 ^ 31" by (simp add: w(1) MAX_RW_COUNT_def)
    ultimately show ?thesis by blast
  qed
  have "\<exists>fd' os'. fd_write_loop sys_writev True buffer m fd os = Inr (u64 (m + length (concat buffer)), fd', os') \<and>
      sink os' = sink os @ concat buffer \<and> (fd_eof fd', fd_closed fd', fd_num fd') = (fd_eof fd, fd_closed fd, fd_num fd)"
    for m fd os
    using assms(3)
  proof (induction "length (concat buffer)" arbitrary: buffer m fd os rule: less_induct)
    case less
    obtain n err os1 where w: "sys_writev (concat buffer) os = ((int n, err), os1)" "n \<le> length (concat buffer)"
      "concat buffer \<noteq> [] \<longrightarrow> 0 < n" "sink os1 = sink os @ take n (concat buffer)" "n < 2 ^ 31"
      using accepted by metis
    obtain buffer1 where b: "concat buffer1 = drop n (concat buffer)" "fd_write_loop sys_writev True buffer m fd os =
        (if True \<and> concat buffer1 \<noteq> []
         then fd_write_loop sys_writev True buffer1 (u64 (m + n)) (fd_register_write fd) os1
         else Inr (u64 (m + n), fd_register_write fd, os1))"
      by (rule fd_write_loop_step [where sys_writev = sys_writev, OF w(1-3,5) less.prems])
    show ?case
    proof (cases "concat buffer1 = []")
      case True
      then have "n = length (concat buffer)" using b(1) w(2) by simp
      then show ?thesis using b(2) True w(4) by (simp add: fd_register_write_def)
    next
      case False
      then have lt: "length (concat buffer1) < length (concat buffer)" and ne: "n < length (concat buffer)"
        using b(1) w(2,3) by (cases "concat buffer = []", simp_all only: drop_Nil not_True_eq_False length_drop) force+
      have "length (concat buffer1) < 2 ^ 63" using lt less.prems by simp
      from less.hyps [OF lt this, of "u64 (m + n)" "fd_register_write fd" os1] obtain fd' os' where
        "fd_write_loop sys_writev True buffer1 (u64 (m + n)) (fd_register_write fd) os1 =
           Inr (u64 (u64 (m + n) + length (concat buffer1)), fd', os')"
        "sink os' = sink os1 @ concat buffer1"
        "(fd_eof fd', fd_closed fd', fd_num fd') =
           (fd_eof (fd_register_write fd), fd_closed (fd_register_write fd), fd_num (fd_register_write fd))"
        by blast
      moreover have "m + n + length (concat buffer1) = m + length (concat buffer)" using b(1) ne by simp
      ultimately show ?thesis using b False w(4) by (simp add: fd_register_write_def)
    qed
  qed
  moreover have "length (concat buffer) < 2 ^ 64" using assms(3) by simp
  ultimately show "\<exists>fd' os'. fd_write sys_writev buffer True fd os = Inr (length (concat buffer), fd', os') \<and>
      sink os' = sink os @ concat buffer \<and> (fd_eof fd', fd_closed fd', fd_num fd') = (fd_eof fd, fd_closed fd, fd_num fd)"
    unfolding fd_write_def by (metis add_0 u64_id)
  obtain n err os1 where w: "sys_writev (concat buffer) os = ((int n, err), os1)" "n \<le> length (concat buffer)"
    "concat buffer \<noteq> [] \<longrightarrow> 0 < n" "sink os1 = sink os @ take n (concat buffer)" "n < 2 ^ 31"
    using accepted by metis
  from write_once [where sys_writev = sys_writev and buffer = buffer, OF w(1-3,5) assms(3)]
  show "\<exists>n os'. fd_write sys_writev buffer False fd os = Inr (n, fd_register_write fd, os') \<and>
      n \<le> length (concat buffer) \<and> (concat buffer \<noteq> [] \<longrightarrow> 0 < n) \<and> sink os' = sink os @ take n (concat buffer)"
    using w(2-4) by blast
qed

text \<open>The example's device takes at most two bytes at a time.\<close>

theorem file_write_witness:
  "\<exists>fd' os'. fd_write (\<lambda>d os. ((int (min 2 (length d)), 0), os @ take 2 d)) [[1, 2, 3], [4, 5]] True
     \<lparr>fd_num = 3, fd_eof = False, fd_closed = False, fd_read_count = 0, fd_write_count = 0\<rparr> [9] =
     Inr (5, fd', os') \<and> os' = [9, 1, 2, 3, 4, 5]"
proof -
  let ?w = "\<lambda>d os. ((int (min 2 (length d)), 0), os @ take 2 d)" and ?d = "[[1, 2, 3], [4, 5]] :: bytes list"
    and ?fd = "\<lparr>fd_num = 3, fd_eof = False, fd_closed = False, fd_read_count = 0, fd_write_count = 0\<rparr>"
  have "honest_writev ?w id" by (auto simp: honest_writev_def min_def)
  moreover have "transfers_at_most MAX_RW_COUNT ?w" by (auto simp: transfers_at_most_def MAX_RW_COUNT_def min_le_iff_disj)
  moreover have len: "length (concat ?d) = 5" "id [9] @ concat ?d = [9, 1, 2, 3, 4, 5]" by simp_all
  then have "length (concat ?d) < 2 ^ 63" by simp
  ultimately have "\<exists>fd' os'. fd_write ?w ?d True ?fd [9] = Inr (length (concat ?d), fd', os') \<and>
      id os' = id [9] @ concat ?d \<and> (fd_eof fd', fd_closed fd', fd_num fd') = (fd_eof ?fd, fd_closed ?fd, fd_num ?fd)"
    by (rule conjunct1 [OF file_write])
  then show ?thesis unfolding len unfolding id_apply by blast
qed

end
