(* ===== verification/TCP_Adapters.thy ===== *)
theory TCP_Adapters
  imports TCP_Connection Network_Interface File_Descriptor
begin

unbundle bit_operations_syntax

text \<open>
  The adapters between a TCP connection and a network: \<^verbatim>\<open>tcp_helpers/fd_adapter.hh\<close> and \<^verbatim>\<open>fd_adapter.cc\<close>
  (TCP in UDP), \<^verbatim>\<open>tcp_over_ip.cc\<close> (TCP in IPv4), \<^verbatim>\<open>tuntap_adapter.hh\<close> and \<^verbatim>\<open>tuntap_adapter.cc\<close> (over a TUN
  device, and over Ethernet through a network interface), \<^verbatim>\<open>lossy_fd_adapter.hh\<close> (random loss) and the
  adapter's part of \<^verbatim>\<open>tcp_config.hh\<close>. The devices are not modelled: an operation that reads is given
  what the device returns, and one that writes returns what the device is given. The contract of an
  adapter is a locale that the adapters over TUN and UDP satisfy.
\<close>

section \<open>Model\<close>

text \<open>
  The functions of the C library that convert between addresses and text. \<open>inet_ntoa\<close> takes the
  four bytes of an address in network order.
\<close>

record libc =
  lc_getaddrinfo :: getaddrinfo
  lc_getnameinfo :: getnameinfo
  lc_inet_ntoa :: "bytes \<Rightarrow> string"

record FdAdapterConfig =
  fc_source :: Address
  fc_destination :: Address
  fc_loss_rate_dn :: uint16_t
  fc_loss_rate_up :: uint16_t

definition FdAdapterConfig_new :: "libc \<Rightarrow> exn + FdAdapterConfig" where
  "FdAdapterConfig_new lc =
     bindE (Address_of_ip (lc_getaddrinfo lc) ''0'' 0) (\<lambda>source.
     bindE (Address_of_ip (lc_getaddrinfo lc) ''0'' 0) (\<lambda>destination.
       Inr \<lparr>fc_source = source, fc_destination = destination, fc_loss_rate_dn = 0, fc_loss_rate_up = 0\<rparr>))"

record FdAdapterBase =
  fa_cfg :: FdAdapterConfig
  fa_listen :: bool

definition fa_set_listening :: "bool \<Rightarrow> FdAdapterBase \<Rightarrow> FdAdapterBase" where
  "fa_set_listening l ad = ad\<lparr>fa_listen := l\<rparr>"

definition fa_set_config :: "FdAdapterConfig \<Rightarrow> FdAdapterBase \<Rightarrow> FdAdapterBase" where
  "fa_set_config cfg ad = ad\<lparr>fa_cfg := cfg\<rparr>"

definition fa_tick :: "size_t \<Rightarrow> FdAdapterBase \<Rightarrow> FdAdapterBase" where
  "fa_tick ms_since_last_tick ad = ad"

definition fa_port :: "libc \<Rightarrow> Address \<Rightarrow> exn + uint16_t" where
  "fa_port lc = addr_port (lc_getnameinfo lc)"

definition htobe32 :: "uint32_t \<Rightarrow> bytes" where
  "htobe32 ip = [byte_of 3 ip, byte_of 2 ip, byte_of 1 ip, byte_of 0 ip]"

subsection \<open>TCP in IPv4\<close>

text \<open>
  The two checks on the addresses of a datagram; \<open>ipv4_numeric\<close> is only called when the adapter does
  not listen.
\<close>

definition fa_other :: "FdAdapterBase \<Rightarrow> uint32_t \<Rightarrow> Address \<Rightarrow> exn + bool" where
  "fa_other ad ip address =
     (if \<not> fa_listen ad then bindE (addr_ipv4_numeric address) (\<lambda>n. Inr (ip \<noteq> n)) else Inr False)"

text \<open>A listening adapter takes its addresses from the first SYN.\<close>

definition fa_accept ::
  "libc \<Rightarrow> IPv4Datagram \<Rightarrow> TCPSegment \<Rightarrow> FdAdapterBase \<Rightarrow> exn + FdAdapterBase" where
  "fa_accept lc ip_dgram tcp_seg ad =
     bindE (fa_port lc (fc_source (fa_cfg ad))) (\<lambda>port.
     bindE (Address_of_ip (lc_getaddrinfo lc) (lc_inet_ntoa lc (htobe32 (ip_dst (dg_header ip_dgram)))) port) (\<lambda>source.
     bindE (Address_of_ip (lc_getaddrinfo lc) (lc_inet_ntoa lc (htobe32 (ip_src (dg_header ip_dgram))))
              (th_sport (ts_header tcp_seg))) (\<lambda>destination.
       Inr (ad\<lparr>fa_cfg := (fa_cfg ad)\<lparr>fc_source := source, fc_destination := destination\<rparr>, fa_listen := False\<rparr>))))"

definition fa_unwrap_tcp_in_ip ::
  "libc \<Rightarrow> IPv4Datagram \<Rightarrow> FdAdapterBase \<Rightarrow> exn + TCPSegment option \<times> FdAdapterBase" where
  "fa_unwrap_tcp_in_ip lc ip_dgram ad =
     (let header = dg_header ip_dgram
      in bindE (fa_other ad (ip_dst header) (fc_source (fa_cfg ad))) (\<lambda>not_for_us.
         if not_for_us then Inr (None, ad)
         else
         bindE (fa_other ad (ip_src header) (fc_destination (fa_cfg ad))) (\<lambda>not_from_peer.
         if not_from_peer then Inr (None, ad)
         else if ip_proto header \<noteq> PROTO_TCP then Inr (None, ad)
         else
         bindE (bl_to_buffer (dg_payload ip_dgram)) (\<lambda>payload.
         let (result, tcp_seg) = ts_parse payload (ip_pseudo_cksum header) TCPSegment_new
         in if result \<noteq> NoError then Inr (None, ad)
            else
            bindE (fa_port lc (fc_source (fa_cfg ad))) (\<lambda>port.
            if th_dport (ts_header tcp_seg) \<noteq> port then Inr (None, ad)
            else if fa_listen ad \<and> \<not> (th_syn (ts_header tcp_seg) \<and> \<not> th_rst (ts_header tcp_seg))
            then Inr (None, ad)
            else
            bindE (if fa_listen ad then fa_accept lc ip_dgram tcp_seg ad else Inr ad) (\<lambda>ad1.
            bindE (fa_port lc (fc_destination (fa_cfg ad1))) (\<lambda>port.
            if th_sport (ts_header tcp_seg) \<noteq> port then Inr (None, ad1)
            else Inr (Some tcp_seg, ad1))))))))"

text \<open>Setting the ports, which every adapter does before it serializes a segment.\<close>

definition fa_set_ports :: "libc \<Rightarrow> FdAdapterBase \<Rightarrow> TCPSegment \<Rightarrow> exn + TCPSegment" where
  "fa_set_ports lc ad seg =
     bindE (fa_port lc (fc_source (fa_cfg ad))) (\<lambda>sport.
     bindE (fa_port lc (fc_destination (fa_cfg ad))) (\<lambda>dport.
       Inr (seg\<lparr>ts_header := (ts_header seg)\<lparr>th_sport := sport, th_dport := dport\<rparr>\<rparr>)))"

definition fa_wrap_tcp_in_ip :: "libc \<Rightarrow> TCPSegment \<Rightarrow> FdAdapterBase \<Rightarrow> exn + IPv4Datagram" where
  "fa_wrap_tcp_in_ip lc seg0 ad =
     bindE (fa_set_ports lc ad seg0) (\<lambda>seg.
     bindE (addr_ipv4_numeric (fc_source (fa_cfg ad))) (\<lambda>src.
     bindE (addr_ipv4_numeric (fc_destination (fa_cfg ad))) (\<lambda>dst.
       let header = (dg_header IPv4Datagram_new)\<lparr>ip_src := src, ip_dst := dst\<rparr>;
           header = header\<lparr>ip_len := of_nat (unat (ip_hlen header) * 4 + unat (th_doff (ts_header seg)) * 4 +
                                            buf_size (ts_payload seg))\<rparr>
       in bindE (ts_serialize (ip_pseudo_cksum header) seg) (\<lambda>payload.
            Inr (IPv4Datagram_new\<lparr>dg_header := header, dg_payload := payload\<rparr>)))))"

subsection \<open>TCP in IPv4 over a TUN device\<close>

text \<open>
  A read of the device gives a string, a write takes a list of buffers; the model of a read is given
  the string, the model of a write returns what is written.
\<close>

definition tun_read :: "libc \<Rightarrow> bytes \<Rightarrow> FdAdapterBase \<Rightarrow> exn + TCPSegment option \<times> FdAdapterBase" where
  "tun_read lc datagram ad =
     (let (result, ip_dgram) = dg_parse (buf_of_string datagram) IPv4Datagram_new
      in if result \<noteq> NoError then Inr (None, ad) else fa_unwrap_tcp_in_ip lc ip_dgram ad)"

definition tun_write :: "libc \<Rightarrow> TCPSegment \<Rightarrow> FdAdapterBase \<Rightarrow> exn + BufferList" where
  "tun_write lc seg ad = bindE (fa_wrap_tcp_in_ip lc seg ad) dg_serialize"

subsection \<open>TCP in UDP\<close>

definition udp_read ::
  "received_datagram \<Rightarrow> FdAdapterBase \<Rightarrow> TCPSegment option \<times> FdAdapterBase" where
  "udp_read datagram ad =
     (if \<not> fa_listen ad \<and> addr_not_equal (rd_source_address datagram) (fc_destination (fa_cfg ad))
      then (None, ad)
      else
        let (result, seg) = ts_parse (buf_of_string (rd_payload datagram)) 0 TCPSegment_new
        in if result \<noteq> NoError then (None, ad)
           else if fa_listen ad then
             if th_syn (ts_header seg) \<and> \<not> th_rst (ts_header seg)
             then (Some seg, ad\<lparr>fa_cfg := (fa_cfg ad)\<lparr>fc_destination := rd_source_address datagram\<rparr>,
                                fa_listen := False\<rparr>)
             else (None, ad)
           else (Some seg, ad))"

text \<open>What is given to \<^verbatim>\<open>sendto\<close>: the destination and the bytes.\<close>

definition udp_write :: "libc \<Rightarrow> TCPSegment \<Rightarrow> FdAdapterBase \<Rightarrow> exn + Address \<times> BufferList" where
  "udp_write lc seg0 ad =
     bindE (fa_set_ports lc ad seg0) (\<lambda>seg.
     bindE (ts_serialize 0 seg) (\<lambda>bl. Inr (fc_destination (fa_cfg ad), bl)))"

subsection \<open>TCP in IPv4 over Ethernet\<close>

record EthernetAdapter =
  ea_base :: FdAdapterBase
  ea_interface :: NetworkInterface
  ea_next_hop :: Address

text \<open>The loop of \<^verbatim>\<open>send_pending\<close>, over the frames of the interface; the list is what the device is given.\<close>

fun ea_send_loop :: "EthernetFrame list \<Rightarrow> BufferList list" where
  "ea_send_loop [] = []"
| "ea_send_loop (frame # frames) = ef_serialize frame # ea_send_loop frames"

definition ea_send_pending :: "EthernetAdapter \<Rightarrow> BufferList list \<times> EthernetAdapter" where
  "ea_send_pending ea =
     (ea_send_loop (ni_frames_out (ea_interface ea)),
      ea\<lparr>ea_interface := (ea_interface ea)\<lparr>ni_frames_out := []\<rparr>\<rparr>)"

definition EthernetAdapter_new ::
  "FdAdapterBase \<Rightarrow> EthernetAddress \<Rightarrow> Address \<Rightarrow> Address \<Rightarrow> BufferList list \<times> EthernetAdapter" where
  "EthernetAdapter_new base eth_address ip_address next_hop =
     ([ef_serialize EthernetFrame_new],
      \<lparr>ea_base = base, ea_interface = NetworkInterface_new eth_address ip_address, ea_next_hop = next_hop\<rparr>)"

definition ea_read ::
  "libc \<Rightarrow> bytes \<Rightarrow> EthernetAdapter \<Rightarrow> exn + TCPSegment option \<times> BufferList list \<times> EthernetAdapter" where
  "ea_read lc data ea =
     (let (result, frame) = ef_parse (buf_of_string data) EthernetFrame_new
      in if result \<noteq> NoError then Inr (None, [], ea)
         else
           bindE (ni_recv_frame frame (ea_interface ea)) (\<lambda>(ip_dgram, ni).
           let (out, ea1) = ea_send_pending (ea\<lparr>ea_interface := ni\<rparr>)
           in case ip_dgram of
                None \<Rightarrow> Inr (None, out, ea1)
              | Some dgram \<Rightarrow>
                  bindE (fa_unwrap_tcp_in_ip lc dgram (ea_base ea1)) (\<lambda>(seg, base).
                    Inr (seg, out, ea1\<lparr>ea_base := base\<rparr>))))"

definition ea_tick :: "size_t \<Rightarrow> EthernetAdapter \<Rightarrow> BufferList list \<times> EthernetAdapter" where
  "ea_tick ms_since_last_tick ea =
     ea_send_pending (ea\<lparr>ea_interface := ni_tick ms_since_last_tick (ea_interface ea)\<rparr>)"

definition ea_write :: "libc \<Rightarrow> TCPSegment \<Rightarrow> EthernetAdapter \<Rightarrow> exn + BufferList list \<times> EthernetAdapter" where
  "ea_write lc seg ea =
     bindE (fa_wrap_tcp_in_ip lc seg (ea_base ea)) (\<lambda>dgram.
     bindE (ni_send_datagram dgram (ea_next_hop ea) (ea_interface ea)) (\<lambda>ni.
       Inr (ea_send_pending (ea\<lparr>ea_interface := ni\<rparr>))))"

subsection \<open>Random loss\<close>

text \<open>
  \<open>rand\<close> is the generator \<^verbatim>\<open>std::mt19937\<close>: the next number and the next state. It is only asked when
  the rate is not zero. \<open>'a\<close> is the state of the underlying adapter, \<open>config\<close> its configuration.
\<close>

record ('g, 'a) LossyFdAdapter =
  lf_rand :: 'g
  lf_adapter :: 'a

definition lf_should_drop ::
  "('g \<Rightarrow> uint32_t \<times> 'g) \<Rightarrow> ('a \<Rightarrow> FdAdapterConfig) \<Rightarrow> bool \<Rightarrow> ('g, 'a) LossyFdAdapter \<Rightarrow>
   bool \<times> ('g, 'a) LossyFdAdapter" where
  "lf_should_drop rand config uplink lf =
     (let cfg = config (lf_adapter lf);
          loss = (if uplink then fc_loss_rate_up cfg else fc_loss_rate_dn cfg)
      in if loss \<noteq> 0
         then let (r, g) = rand (lf_rand lf) in ((ucast r :: uint16_t) < loss, lf\<lparr>lf_rand := g\<rparr>)
         else (False, lf))"

definition lf_read ::
  "('g \<Rightarrow> uint32_t \<times> 'g) \<Rightarrow> ('a \<Rightarrow> FdAdapterConfig) \<Rightarrow> ('a \<Rightarrow> exn + TCPSegment option \<times> 'a) \<Rightarrow>
   ('g, 'a) LossyFdAdapter \<Rightarrow> exn + TCPSegment option \<times> ('g, 'a) LossyFdAdapter" where
  "lf_read rand config adapter_read lf =
     bindE (adapter_read (lf_adapter lf)) (\<lambda>(ret, ad).
       let (drop, lf1) = lf_should_drop rand config False (lf\<lparr>lf_adapter := ad\<rparr>)
       in if drop then Inr (None, lf1) else Inr (ret, lf1))"

text \<open>\<open>'w\<close> is what a write of the underlying adapter puts out; a dropped segment puts out nothing.\<close>

definition lf_write ::
  "('g \<Rightarrow> uint32_t \<times> 'g) \<Rightarrow> ('a \<Rightarrow> FdAdapterConfig) \<Rightarrow> (TCPSegment \<Rightarrow> 'a \<Rightarrow> exn + 'w list \<times> 'a) \<Rightarrow>
   TCPSegment \<Rightarrow> ('g, 'a) LossyFdAdapter \<Rightarrow> exn + 'w list \<times> ('g, 'a) LossyFdAdapter" where
  "lf_write rand config adapter_write seg lf =
     (let (drop, lf1) = lf_should_drop rand config True lf
      in if drop then Inr ([], lf1)
         else bindE (adapter_write seg (lf_adapter lf1)) (\<lambda>(out, ad). Inr (out, lf1\<lparr>lf_adapter := ad\<rparr>)))"
section \<open>Addresses and the C library\<close>

text \<open>The IPv4 socket address with a given number and port.\<close>

definition sockaddr_in :: "uint32_t \<Rightarrow> uint16_t \<Rightarrow> bytes" where
  "sockaddr_in ip port =
     [byte_of 0 AF_INET, byte_of 1 AF_INET, byte_of 1 port, byte_of 0 port] @ htobe32 ip @ replicate 8 0"

definition socket_address :: "uint32_t \<Rightarrow> uint16_t \<Rightarrow> Address" where
  "socket_address ip port = \<lparr>addr_size = 16, addr_storage = sockaddr_in ip port @ replicate 112 0\<rparr>"

text \<open>
  What the code relies on of the C library, as its manual pages have it: \<open>getnameinfo\<close>, asked for
  numbers, prints address and port of an IPv4 socket address as \<open>inet_ntoa\<close> and in decimal; and
  \<open>getaddrinfo\<close>, given these, makes the socket address again.
\<close>

definition numeric_libc :: "libc \<Rightarrow> bool" where
  "numeric_libc lc \<longleftrightarrow>
     (\<forall>ip port. lc_getnameinfo lc (sockaddr_in ip port @ replicate 112 0) 16 =
        (0, lc_inet_ntoa lc (htobe32 ip), dec_string (unat port))) \<and>
     (\<forall>ip port. lc_getaddrinfo lc (lc_inet_ntoa lc (htobe32 ip)) (dec_string (unat port))
        (make_hints (or AI_NUMERICHOST AI_NUMERICSERV) AF_INET) = (0, Some (sockaddr_in ip port, 16)))"

lemma addr_ipv4_numeric_socket [simp]: "addr_ipv4_numeric (socket_address ip port) = Inr ip"
  by (simp add: addr_ipv4_numeric_def socket_address_def sockaddr_in_def htobe32_def addr_family_def
      sizeof_sockaddr_in_def)

lemma fa_port_socket: "numeric_libc lc \<Longrightarrow> fa_port lc (socket_address ip port) = Inr port"
proof -
  assume "numeric_libc lc"
  moreover have "unat port < 2 ^ 31" using unsigned_less [of port, where 'a = nat] by simp
  ultimately show ?thesis
    using stoi_dec_string [of "unat port"]
    by (simp add: fa_port_def addr_port_def addr_ip_port_def socket_address_def numeric_libc_def)
qed

lemma Address_of_ip_socket:
  "numeric_libc lc \<Longrightarrow>
   Address_of_ip (lc_getaddrinfo lc) (lc_inet_ntoa lc (htobe32 ip)) port = Inr (socket_address ip port)"
  by (simp add: Address_of_ip_def Address_resolve_def numeric_libc_def Address_of_raw_def socket_address_def
      sizeof_sockaddr_storage_def) (simp add: sockaddr_in_def htobe32_def)

lemma socket_address_inj [simp]:
  "socket_address ip port = socket_address ip' port' \<longleftrightarrow> ip = ip' \<and> port = port'"
proof -
  have "join_bytes (take 2 (drop 2 (addr_storage (socket_address i p)))) = p" for i p
    by (simp add: socket_address_def sockaddr_in_def)
  then show ?thesis using addr_ipv4_numeric_socket by (metis Inr_inject)
qed

section \<open>Segments on the wire\<close>

text \<open>
  A segment as the other side reads it: with the ports of the two sides and a checksum, its payload
  in another buffer.
\<close>

definition same_segment :: "TCPSegment \<Rightarrow> TCPSegment \<Rightarrow> bool" where
  "same_segment seg seg' \<longleftrightarrow>
     (\<exists>s d c. ts_header seg' = (ts_header seg)\<lparr>th_sport := s, th_dport := d, th_cksum := c\<rparr>) \<and>
     buf_str (ts_payload seg') = buf_str (ts_payload seg)"

text \<open>A TCP connection cannot tell the difference.\<close>

lemma tc_segment_received_same:
  assumes "same_segment seg seg'"
  shows "tc_segment_received seg' tc = tc_segment_received seg tc"
proof -
  have h: "th_syn (ts_header seg') = th_syn (ts_header seg)" "th_fin (ts_header seg') = th_fin (ts_header seg)"
    "th_ack (ts_header seg') = th_ack (ts_header seg)" "th_rst (ts_header seg') = th_rst (ts_header seg)"
    "th_seqno (ts_header seg') = th_seqno (ts_header seg)" "th_ackno (ts_header seg') = th_ackno (ts_header seg)"
    "th_win (ts_header seg') = th_win (ts_header seg)" "buf_str (ts_payload seg') = buf_str (ts_payload seg)"
    using assms by (auto simp: same_segment_def)
  then have r: "rx_segment_received seg' = rx_segment_received seg" unfolding fun_eq_iff
    by (simp add: rx_segment_received_def buf_copy_def Let_def)
  have l: "ts_length_in_sequence_space seg' = ts_length_in_sequence_space seg"
    by (simp add: ts_length_in_sequence_space_def h)
  show ?thesis unfolding tc_segment_received_def h r l ..
qed

text \<open>A segment that fits a datagram: a legal data offset, and all of it within 65535 bytes.\<close>

definition fits :: "TCPSegment \<Rightarrow> bool" where
  "fits seg \<longleftrightarrow> 5 \<le> unat (th_doff (ts_header seg)) \<and> unat (th_doff (ts_header seg)) < 16 \<and>
     20 + 4 * unat (th_doff (ts_header seg)) + length (buf_str (ts_payload seg)) < 2 ^ 16"

lemma fits_bound:
  assumes "fits seg" and "unat init < 2 ^ 19"
  shows "unat init + 65280 * (4 * unat (th_doff (ts_header seg)) + length (buf_str (ts_payload seg))) < 2 ^ 32"
proof -
  let ?n = "4 * unat (th_doff (ts_header seg)) + length (buf_str (ts_payload seg))"
  have "?n \<le> 65515" using assms(1) by (simp add: fits_def)
  then have "65280 * ?n \<le> 65280 * 65515" by (rule mult_left_mono) simp
  then show ?thesis using assms(2) by simp
qed

text \<open>Two adapters, neither of them listening, that are configured for each other.\<close>

definition facing :: "libc \<Rightarrow> FdAdapterBase \<Rightarrow> FdAdapterBase \<Rightarrow> bool" where
  "facing lc a b \<longleftrightarrow> numeric_libc lc \<and> \<not> fa_listen a \<and> \<not> fa_listen b \<and>
     (\<exists>ip port ip' port'.
        fc_source (fa_cfg a) = socket_address ip port \<and> fc_destination (fa_cfg a) = socket_address ip' port' \<and>
        fc_source (fa_cfg b) = socket_address ip' port' \<and> fc_destination (fa_cfg b) = socket_address ip port)"

definition ported :: "uint16_t \<Rightarrow> uint16_t \<Rightarrow> TCPSegment \<Rightarrow> TCPSegment" where
  "ported s d seg = seg\<lparr>ts_header := (ts_header seg)\<lparr>th_sport := s, th_dport := d\<rparr>\<rparr>"

lemma ported_simps [simp]:
  "fits (ported s d seg) = fits seg" "ts_payload (ported s d seg) = ts_payload seg"
  "ts_header (ported s d seg) = (ts_header seg)\<lparr>th_sport := s, th_dport := d\<rparr>"
  by (simp_all add: ported_def fits_def)

lemma fa_set_ports_eq:
  assumes "numeric_libc lc" and "fc_source (fa_cfg ad) = socket_address ip port"
    and "fc_destination (fa_cfg ad) = socket_address ip' port'"
  shows "fa_set_ports lc ad seg = Inr (ported port port' seg)"
  using assms by (simp add: fa_set_ports_def fa_port_socket ported_def)

section \<open>Carrying segments\<close>

text \<open>The datagram that carries a segment, and what the other side makes of it.\<close>

definition ad_header :: "uint32_t \<Rightarrow> uint32_t \<Rightarrow> TCPSegment \<Rightarrow> IPv4Header" where
  "ad_header src dst seg =
     IPv4Header_new\<lparr>ip_src := src, ip_dst := dst,
       ip_len := of_nat (20 + unat (th_doff (ts_header seg)) * 4 + buf_size (ts_payload seg))\<rparr>"

lemma ad_header_wf:
  assumes "fits seg"
  shows "ip_wf (ad_header src dst seg)"
    and "unat (ip_len (ad_header src dst seg)) =
      20 + 4 * unat (th_doff (ts_header seg)) + length (buf_str (ts_payload seg))"
    and "unat (ip_hlen (ad_header src dst seg)) = 5"
proof -
  have "20 + 4 * unat (th_doff (ts_header seg)) + length (buf_str (ts_payload seg)) < 65536"
    using assms by (simp add: fits_def)
  then show "unat (ip_len (ad_header src dst seg)) =
      20 + 4 * unat (th_doff (ts_header seg)) + length (buf_str (ts_payload seg))"
    by (simp add: ad_header_def buf_size_def unat_of_nat mult.commute del: of_nat_add of_nat_mult)
  then show "ip_wf (ad_header src dst seg)" "unat (ip_hlen (ad_header src dst seg)) = 5"
    by (simp_all add: ad_header_def ip_wf_def IPv4Header_new_def IPv4Header_LENGTH_def)
qed

lemma ts_update_all [simp]:
  "(seg :: TCPSegment)\<lparr>ts_header := h, ts_payload := p\<rparr> = \<lparr>ts_header = h, ts_payload = p\<rparr>"
  by (cases seg) simp

lemma fa_wrap_spec:
  assumes "numeric_libc lc" and "fc_source (fa_cfg a) = socket_address ip port"
    and "fc_destination (fa_cfg a) = socket_address ip' port'" and "fits seg"
  obtains dg c where "fa_wrap_tcp_in_ip lc seg a = Inr dg" and "dg_wf dg"
    and "dg_header dg = ad_header ip ip' seg"
    and "\<forall>b. buf_wf b \<longrightarrow> buf_str b = bl_bytes (dg_payload dg) \<longrightarrow>
           (\<exists>pay. ts_parse b (ip_pseudo_cksum (ad_header ip ip' seg)) TCPSegment_new =
                (NoError, \<lparr>ts_header = (ts_header seg)\<lparr>th_sport := port, th_dport := port', th_cksum := c\<rparr>,
                           ts_payload = pay\<rparr>) \<and>
              buf_str pay = buf_str (ts_payload seg))"
proof -
  let ?seg = "ported port port' seg" and ?h = "ad_header ip ip' seg"
  have doff: "5 \<le> unat (th_doff (ts_header ?seg))" "unat (th_doff (ts_header ?seg)) < 16"
    using assms(4) by (simp_all add: fits_def)
  have "fits ?seg" using assms(4) by simp
  note bound = fits_bound [OF this ip_pseudo_cksum_bound [of ?h]]
  obtain bl c where bl: "ts_serialize (ip_pseudo_cksum ?h) ?seg = Inr bl"
    "length (bl_bytes bl) = 4 * unat (th_doff (ts_header ?seg)) + length (buf_str (ts_payload ?seg))"
    "\<forall>b seg0. buf_wf b \<longrightarrow> buf_str b = bl_bytes bl \<longrightarrow>
       (\<exists>pay. ts_parse b (ip_pseudo_cksum ?h) seg0 =
          (NoError, seg0\<lparr>ts_header := (ts_header ?seg)\<lparr>th_cksum := c\<rparr>, ts_payload := pay\<rparr>) \<and>
        buf_str pay = buf_str (ts_payload ?seg))"
    by (rule ts_parse_serialized [OF doff bound])
  have h: "(dg_header IPv4Datagram_new)\<lparr>ip_src := ip, ip_dst := ip', ip_len := of_nat
      (unat (ip_hlen (dg_header IPv4Datagram_new)) * 4 + unat (th_doff (ts_header seg)) * 4 + buf_size (ts_payload seg))\<rparr> = ?h"
    by (simp add: ad_header_def IPv4Datagram_new_def IPv4Header_new_def IPv4Header_LENGTH_def)
  let ?dg = "\<lparr>dg_header = ?h, dg_payload = bl\<rparr>"
  have "fa_wrap_tcp_in_ip lc seg a = Inr ?dg"
    using assms(2,3) fa_set_ports_eq [OF assms(1-3)] bl(1) h
    by (simp add: fa_wrap_tcp_in_ip_def Let_def)
  moreover have "dg_wf ?dg"
    using ad_header_wf [OF assms(4), of ip ip'] bl(2) by (simp add: dg_wf_def)
  ultimately show thesis
    using bl(3) by (intro that [of ?dg c]) simp_all
qed

text \<open>What is read is what was sent, when the datagram arrives as \<^term>\<open>same_dgram\<close> says.\<close>

lemma ip_pseudo_cksum_cksum [simp]: "ip_pseudo_cksum (h\<lparr>ip_cksum := c\<rparr>) = ip_pseudo_cksum h"
  by (simp add: ip_pseudo_cksum_def ip_payload_length_def)

definition from_to :: "FdAdapterBase \<Rightarrow> FdAdapterBase \<Rightarrow> TCPSegment \<Rightarrow> TCPSegment \<Rightarrow> bool" where
  "from_to a b seg seg' \<longleftrightarrow> same_segment seg seg' \<and>
     (\<exists>ip ip'. fc_source (fa_cfg a) = socket_address ip (th_sport (ts_header seg')) \<and>
               fc_source (fa_cfg b) = socket_address ip' (th_dport (ts_header seg')))"

lemma fa_wrap_arrives:
  assumes "numeric_libc lc" and "fc_source (fa_cfg a) = socket_address ip port"
    and "fc_destination (fa_cfg a) = socket_address ip' port'" and "fits seg"
  obtains dg where "fa_wrap_tcp_in_ip lc seg a = Inr dg" and "dg_wf dg"
    and "\<forall>dg'. same_dgram dg dg' \<longrightarrow>
      (\<exists>p seg'. dg_payload dg' = [p] \<and> ip_src (dg_header dg') = ip \<and> ip_dst (dg_header dg') = ip' \<and>
         ip_proto (dg_header dg') = PROTO_TCP \<and>
         ts_parse p (ip_pseudo_cksum (dg_header dg')) TCPSegment_new = (NoError, seg') \<and> same_segment seg seg' \<and>
         th_sport (ts_header seg') = port \<and> th_dport (ts_header seg') = port')"
proof -
  obtain dg c where dg: "fa_wrap_tcp_in_ip lc seg a = Inr dg" "dg_wf dg" "dg_header dg = ad_header ip ip' seg"
    "\<forall>b. buf_wf b \<longrightarrow> buf_str b = bl_bytes (dg_payload dg) \<longrightarrow>
       (\<exists>pay. ts_parse b (ip_pseudo_cksum (ad_header ip ip' seg)) TCPSegment_new =
          (NoError, \<lparr>ts_header = (ts_header seg)\<lparr>th_sport := port, th_dport := port', th_cksum := c\<rparr>,
                     ts_payload = pay\<rparr>) \<and> buf_str pay = buf_str (ts_payload seg))"
    by (rule fa_wrap_spec [OF assms])
  have ad: "ip_src (ad_header ip ip' seg) = ip" "ip_dst (ad_header ip ip' seg) = ip'"
    "ip_proto (ad_header ip ip' seg) = PROTO_TCP"
    by (simp_all add: ad_header_def IPv4Header_new_def)
  show thesis
  proof (rule that [OF dg(1,2)], intro allI impI)
    fix dg'
    assume "same_dgram dg dg'"
    then obtain k p where h: "dg_header dg' = (ad_header ip ip' seg)\<lparr>ip_cksum := k\<rparr>" "dg_payload dg' = [p]"
      "buf_wf p" "buf_str p = bl_bytes (dg_payload dg)"
      using dg(3) by (auto simp: same_dgram_def)
    obtain pay where "ts_parse p (ip_pseudo_cksum (ad_header ip ip' seg)) TCPSegment_new =
          (NoError, \<lparr>ts_header = (ts_header seg)\<lparr>th_sport := port, th_dport := port', th_cksum := c\<rparr>,
                     ts_payload = pay\<rparr>)" "buf_str pay = buf_str (ts_payload seg)"
      using dg(4) h(3,4) by blast
    then show "\<exists>p seg'. dg_payload dg' = [p] \<and> ip_src (dg_header dg') = ip \<and> ip_dst (dg_header dg') = ip' \<and>
         ip_proto (dg_header dg') = PROTO_TCP \<and>
         ts_parse p (ip_pseudo_cksum (dg_header dg')) TCPSegment_new = (NoError, seg') \<and> same_segment seg seg' \<and>
         th_sport (ts_header seg') = port \<and> th_dport (ts_header seg') = port'"
      by (auto simp: h ad same_segment_def)
  qed
qed

lemma facing_carry:
  assumes "facing lc a b" and "fits seg"
  obtains dg where "fa_wrap_tcp_in_ip lc seg a = Inr dg" and "dg_wf dg"
    and "\<forall>dg'. same_dgram dg dg' \<longrightarrow>
           (\<exists>seg'. fa_unwrap_tcp_in_ip lc dg' b = Inr (Some seg', b) \<and> from_to a b seg seg')"
proof -
  obtain ip port ip' port' where f: "numeric_libc lc" "\<not> fa_listen b"
    "fc_source (fa_cfg a) = socket_address ip port" "fc_destination (fa_cfg a) = socket_address ip' port'"
    "fc_source (fa_cfg b) = socket_address ip' port'" "fc_destination (fa_cfg b) = socket_address ip port"
    using assms(1) unfolding facing_def by blast
  show thesis
  proof (rule fa_wrap_arrives [OF f(1,3,4) assms(2)], rule that)
    fix dg
    assume s: "\<forall>dg'. same_dgram dg dg' \<longrightarrow>
      (\<exists>p seg'. dg_payload dg' = [p] \<and> ip_src (dg_header dg') = ip \<and> ip_dst (dg_header dg') = ip' \<and>
         ip_proto (dg_header dg') = PROTO_TCP \<and>
         ts_parse p (ip_pseudo_cksum (dg_header dg')) TCPSegment_new = (NoError, seg') \<and> same_segment seg seg' \<and>
         th_sport (ts_header seg') = port \<and> th_dport (ts_header seg') = port')"
    show "\<forall>dg'. same_dgram dg dg' \<longrightarrow>
        (\<exists>seg'. fa_unwrap_tcp_in_ip lc dg' b = Inr (Some seg', b) \<and> from_to a b seg seg')"
      using s f by (fastforce simp: fa_unwrap_tcp_in_ip_def fa_other_def fa_port_socket from_to_def)
  qed
qed

text \<open>A datagram on its way from one TUN device to another.\<close>

lemma tun_wire:
  assumes "fa_wrap_tcp_in_ip lc seg a = Inr dg" and "dg_wf dg"
  obtains w dg' where "tun_write lc seg a = Inr w" and "same_dgram dg dg'"
    and "\<forall>b. tun_read lc (bl_concatenate w) b = fa_unwrap_tcp_in_ip lc dg' b"
proof -
  obtain bl c where bl: "dg_serialize dg = Inr bl" "length (bl_bytes bl) < 2 ^ 16"
    "\<forall>b dg0. buf_wf b \<longrightarrow> buf_str b = bl_bytes bl \<longrightarrow>
       (\<exists>pay. dg_parse b dg0 = (NoError, dg0\<lparr>dg_header := (dg_header dg)\<lparr>ip_cksum := c\<rparr>, dg_payload := [pay]\<rparr>) \<and>
         buf_wf pay \<and> buf_str pay = bl_bytes (dg_payload dg))"
    using dg_parse_serialized [of dg] assms(2) unfolding dg_wf_def by metis
  have "buf_wf (buf_of_string (bl_bytes bl))" using bl(2) by (intro buf_wf_of_string) simp
  then obtain pay where pay: "dg_parse (buf_of_string (bl_bytes bl)) IPv4Datagram_new =
      (NoError, IPv4Datagram_new\<lparr>dg_header := (dg_header dg)\<lparr>ip_cksum := c\<rparr>, dg_payload := [pay]\<rparr>)"
    "buf_wf pay" "buf_str pay = bl_bytes (dg_payload dg)"
    using bl(3) by fastforce
  let ?dg = "IPv4Datagram_new\<lparr>dg_header := (dg_header dg)\<lparr>ip_cksum := c\<rparr>, dg_payload := [pay]\<rparr>"
  have "same_dgram dg ?dg" using pay(2,3) by (auto simp: same_dgram_def)
  then show thesis
    using assms(1) bl(1) pay(1) by (intro that [of bl ?dg]) (simp_all add: tun_write_def tun_read_def)
qed

section \<open>The contract of an adapter\<close>

text \<open>
  What the socket relies on: between two adapters that are set up for each other, a segment that fits
  is put on the wire by one side, and read by the other as the same segment, which stays as it was.
\<close>

definition tc_receive_all :: "TCPSegment list \<Rightarrow> TCPConnection \<Rightarrow> exn + TCPConnection" where
  "tc_receive_all segs tc = foldl (\<lambda>r seg. bindE r (tc_segment_received seg)) (Inr tc) segs"

locale segment_carrier =
  fixes send :: "TCPSegment \<Rightarrow> 'a \<Rightarrow> exn + 'w" and recv :: "'w \<Rightarrow> 'a \<Rightarrow> exn + TCPSegment option \<times> 'a"
    and peers :: "'a \<Rightarrow> 'a \<Rightarrow> bool"
  assumes carry: "peers a b \<Longrightarrow> fits seg \<Longrightarrow>
    \<exists>w seg'. send seg a = Inr w \<and> recv w b = Inr (Some seg', b) \<and> same_segment seg seg'"
begin

text \<open>A connection behind the adapter behaves as if it were given the segments themselves.\<close>

lemma transparent:
  assumes "peers a b" and "\<forall>seg \<in> set segs. fits seg"
  shows "\<exists>ws segs'. list_all2 (\<lambda>seg w. send seg a = Inr w) segs ws \<and>
    list_all2 (\<lambda>w seg'. recv w b = Inr (Some seg', b)) ws segs' \<and>
    list_all2 same_segment segs segs' \<and> tc_receive_all segs' tc = tc_receive_all segs tc"
  using assms(2)
proof (induction segs rule: rev_induct)
  case Nil
  show ?case by (intro exI [of _ "[]"]) simp
next
  case (snoc seg segs)
  then obtain ws segs' where ih: "list_all2 (\<lambda>seg w. send seg a = Inr w) segs ws"
    "list_all2 (\<lambda>w seg'. recv w b = Inr (Some seg', b)) ws segs'" "list_all2 same_segment segs segs'"
    "tc_receive_all segs' tc = tc_receive_all segs tc"
    by auto
  obtain w seg' where w: "send seg a = Inr w" "recv w b = Inr (Some seg', b)" "same_segment seg seg'"
    using carry [OF assms(1), of seg] snoc.prems by auto
  have "tc_segment_received seg' = tc_segment_received seg"
    using tc_segment_received_same [OF w(3)] by auto
  with ih w show ?case
    by (intro exI [of _ "ws @ [w]"] exI [of _ "segs' @ [seg']"])
      (simp add: list_all2_appendI tc_receive_all_def)
qed

end

text \<open>The adapter over a TUN device: the bytes of one side are read by the other.\<close>

lemma tun_carry:
  assumes "facing lc a b" and "fits seg"
  shows "\<exists>w seg'. tun_write lc seg a = Inr w \<and> tun_read lc (bl_concatenate w) b = Inr (Some seg', b) \<and>
    from_to a b seg seg'"
proof -
  obtain dg where dg: "fa_wrap_tcp_in_ip lc seg a = Inr dg" "dg_wf dg"
    "\<forall>dg'. same_dgram dg dg' \<longrightarrow>
       (\<exists>seg'. fa_unwrap_tcp_in_ip lc dg' b = Inr (Some seg', b) \<and> from_to a b seg seg')"
    by (rule facing_carry [OF assms])
  obtain w dg' where "tun_write lc seg a = Inr w" "same_dgram dg dg'"
    "\<forall>b. tun_read lc (bl_concatenate w) b = fa_unwrap_tcp_in_ip lc dg' b"
    by (rule tun_wire [OF dg(1,2)])
  with dg(3) show ?thesis by simp
qed

interpretation tun: segment_carrier "tun_write lc" "\<lambda>w. tun_read lc (bl_concatenate w)" "facing lc" for lc
  by unfold_locales (use tun_carry in \<open>unfold from_to_def, blast\<close>)

text \<open>
  The adapter over UDP: the network delivers the bytes with the address of the sending socket, which
  is bound to the source address of the configuration.
\<close>

definition udp_send :: "libc \<Rightarrow> TCPSegment \<Rightarrow> FdAdapterBase \<Rightarrow> exn + received_datagram" where
  "udp_send lc seg ad =
     bindE (udp_write lc seg ad) (\<lambda>(_, bl).
       Inr \<lparr>rd_source_address = fc_source (fa_cfg ad), rd_payload = bl_concatenate bl\<rparr>)"

lemma udp_write_spec:
  assumes "numeric_libc lc" and "fc_source (fa_cfg a) = socket_address ip port"
    and "fc_destination (fa_cfg a) = socket_address ip' port'" and "fits seg"
  obtains w seg' where "udp_send lc seg a = Inr w" and "rd_source_address w = socket_address ip port"
    and "ts_parse (buf_of_string (rd_payload w)) 0 TCPSegment_new = (NoError, seg')"
    and "same_segment seg seg'" and "th_sport (ts_header seg') = port" and "th_dport (ts_header seg') = port'"
    and "length (rd_payload w) = 4 * unat (th_doff (ts_header seg)) + length (buf_str (ts_payload seg))"
proof -
  let ?seg = "ported port port' seg"
  have doff: "5 \<le> unat (th_doff (ts_header ?seg))" "unat (th_doff (ts_header ?seg)) < 16"
    using assms(4) by (simp_all add: fits_def)
  have fit: "fits ?seg" and "unat (0 :: uint32_t) < 2 ^ 19" using assms(4) by simp_all
  note bound = fits_bound [OF this]
  obtain bl c where bl: "ts_serialize 0 ?seg = Inr bl"
    "length (bl_bytes bl) = 4 * unat (th_doff (ts_header ?seg)) + length (buf_str (ts_payload ?seg))"
    "\<forall>b seg0. buf_wf b \<longrightarrow> buf_str b = bl_bytes bl \<longrightarrow>
       (\<exists>pay. ts_parse b 0 seg0 =
          (NoError, seg0\<lparr>ts_header := (ts_header ?seg)\<lparr>th_cksum := c\<rparr>, ts_payload := pay\<rparr>) \<and>
        buf_str pay = buf_str (ts_payload ?seg))"
    by (rule ts_parse_serialized [OF doff bound])
  have "buf_wf (buf_of_string (bl_bytes bl))"
    using fit bl(2) by (intro buf_wf_of_string) (simp add: fits_def)
  then obtain pay where "ts_parse (buf_of_string (bl_bytes bl)) 0 TCPSegment_new =
      (NoError, TCPSegment_new\<lparr>ts_header := (ts_header ?seg)\<lparr>th_cksum := c\<rparr>, ts_payload := pay\<rparr>)"
    "buf_str pay = buf_str (ts_payload ?seg)"
    using bl(3) by fastforce
  then show thesis
    using assms(2,3) bl(1,2) fa_set_ports_eq [OF assms(1-3)]
    by (intro that [of "\<lparr>rd_source_address = socket_address ip port, rd_payload = bl_bytes bl\<rparr>"
          "\<lparr>ts_header = (ts_header ?seg)\<lparr>th_cksum := c\<rparr>, ts_payload = pay\<rparr>"])
      (auto simp: udp_send_def udp_write_def same_segment_def)
qed

lemma addr_equal_refl [simp]: "addr_equal a a" "\<not> addr_not_equal a a"
  by (simp_all add: addr_equal_def addr_not_equal_def)

interpretation udp: segment_carrier "udp_send lc" "\<lambda>w ad. Inr (udp_read w ad)" "facing lc" for lc
proof
  fix a b seg
  assume p: "facing lc a b" and f: "fits seg"
  then obtain ip port ip' port' where c: "numeric_libc lc" "\<not> fa_listen b"
    "fc_source (fa_cfg a) = socket_address ip port" "fc_destination (fa_cfg a) = socket_address ip' port'"
    "fc_destination (fa_cfg b) = socket_address ip port"
    unfolding facing_def by blast
  obtain w seg' where "udp_send lc seg a = Inr w" "rd_source_address w = socket_address ip port"
    "ts_parse (buf_of_string (rd_payload w)) 0 TCPSegment_new = (NoError, seg')" "same_segment seg seg'"
    by (rule udp_write_spec [OF c(1,3,4) f])
  then show "\<exists>w seg'. udp_send lc seg a = Inr w \<and> Inr (udp_read w b) = Inr (Some seg', b) \<and> same_segment seg seg'"
    using c(2,5) by (intro exI [of _ w] exI [of _ seg']) (simp add: udp_read_def)
qed

section \<open>Correctness\<close>

text \<open>A dotted-quad C library, for the examples.\<close>

definition inet_ntoa :: "bytes \<Rightarrow> string" where
  "inet_ntoa bs = concat (map (\<lambda>b. dec_string (unat b) @ ''.'') bs)"

fun split_dots :: "string \<Rightarrow> string \<Rightarrow> string list" where
  "split_dots acc [] = []"
| "split_dots acc (c # cs) = (if c = CHR ''.'' then acc # split_dots [] cs else split_dots (acc @ [c]) cs)"

definition example_libc :: libc where
  "example_libc =
     \<lparr>lc_getaddrinfo = (\<lambda>node service hints.
        case map (\<lambda>s. of_nat (dec_value s) :: byte) (split_dots [] node) of
          [b3, b2, b1, b0] \<Rightarrow> (0, Some (sockaddr_in (join_bytes [b3, b2, b1, b0]) (of_nat (dec_value service)), 16))
        | _ \<Rightarrow> (-2, None)),
      lc_getnameinfo = (\<lambda>storage sz.
        (0, inet_ntoa (take 4 (drop 4 storage)),
         dec_string (unat (join_bytes (take 2 (drop 2 storage)) :: uint16_t)))),
      lc_inet_ntoa = inet_ntoa\<rparr>"

lemma split_dots_digits:
  "\<forall>c \<in> set ds. is_digit c \<Longrightarrow> split_dots acc (ds @ CHR ''.'' # rest) = (acc @ ds) # split_dots [] rest"
proof (induction ds arbitrary: acc)
  case (Cons c ds)
  then have "c \<noteq> CHR ''.''" by (auto simp: is_digit_def)
  with Cons show ?case by simp
qed simp

lemma split_inet_ntoa: "split_dots [] (inet_ntoa bs) = map (\<lambda>b. dec_string (unat b)) bs"
proof (induction bs)
  case (Cons b bs)
  then show ?case
    using split_dots_digits [of "dec_string (unat b)" "[]" "inet_ntoa bs"] dec_string_digits
    by (simp add: inet_ntoa_def)
qed (simp add: inet_ntoa_def)

lemma example_libc_numeric: "numeric_libc example_libc"
  by (simp add: numeric_libc_def example_libc_def split_inet_ntoa dec_value_dec_string)
    (simp add: sockaddr_in_def htobe32_def dec_value_dec_string)

definition side :: "bool \<Rightarrow> uint32_t \<Rightarrow> uint16_t \<Rightarrow> uint32_t \<Rightarrow> uint16_t \<Rightarrow> FdAdapterBase" where
  "side listening ip port ip' port' =
     \<lparr>fa_cfg = \<lparr>fc_source = socket_address ip port, fc_destination = socket_address ip' port',
        fc_loss_rate_dn = 0, fc_loss_rate_up = 0\<rparr>, fa_listen = listening\<rparr>"

lemma side_facing [simp]: "facing example_libc (side False 1 80 2 99) (side False 2 99 1 80)"
  by (simp add: facing_def side_def example_libc_numeric)

definition syn_example :: TCPSegment where
  "syn_example = TCPSegment_new\<lparr>ts_header := TCPHeader_new\<lparr>th_syn := True\<rparr>\<rparr>"

lemma syn_example_simps [simp]:
  "fits syn_example" "th_syn (ts_header syn_example)" "\<not> th_rst (ts_header syn_example)"
  by (simp_all add: fits_def syn_example_def TCPSegment_new_def TCPHeader_new_def TCPHeader_LENGTH_def)

text \<open>C34: adapters are transparent. Whatever segments a connection hands to its adapter (each with a legal
  data offset, and small enough for a datagram), over a TUN device and over UDP, the adapter on
  the other side, set up for this one, reads the same segments in the same order (ports and
  checksum filled in), and the other connection ends in the same state as if it had been
  given the segments directly.\<close>

theorem adapters_transparent:
  assumes "facing lc a b" and "\<forall>seg \<in> set segs. fits seg"
  shows "(\<exists>ws segs'. list_all2 (\<lambda>seg w. tun_write lc seg a = Inr w) segs ws \<and>
      list_all2 (\<lambda>w seg'. tun_read lc (bl_concatenate w) b = Inr (Some seg', b)) ws segs' \<and>
      list_all2 same_segment segs segs' \<and> tc_receive_all segs' tc = tc_receive_all segs tc) \<and>
    (\<exists>ws segs'. list_all2 (\<lambda>seg w. udp_send lc seg a = Inr w) segs ws \<and>
      list_all2 (\<lambda>w seg'. udp_read w b = (Some seg', b)) ws segs' \<and>
      list_all2 same_segment segs segs' \<and> tc_receive_all segs' tc = tc_receive_all segs tc)"
  using tun.transparent [OF assms] udp.transparent [OF assms] by simp

theorem adapters_transparent_witness:
  "\<exists>w seg'. tun_write example_libc syn_example (side False 1 80 2 99) = Inr w \<and>
     tun_read example_libc (bl_concatenate w) (side False 2 99 1 80) = Inr (Some seg', side False 2 99 1 80) \<and>
     same_segment syn_example seg'"
  using adapters_transparent [of example_libc "side False 1 80 2 99" "side False 2 99 1 80" "[syn_example]"
      "TCPConnection_new TCPConfig_default 0"]
  by (auto simp: list_all2_Cons1)

text \<open>Who may talk to an adapter. One that does not listen accepts a datagram exactly when it is
  addressed to it, comes from its peer, claims to carry TCP, holds a segment that parses with a
  correct checksum, and the ports are the right ones; its own state never changes.\<close>

theorem adapter_filter:
  assumes "numeric_libc lc" and "\<not> fa_listen ad" and "fc_source (fa_cfg ad) = socket_address ip port"
    and "fc_destination (fa_cfg ad) = socket_address ip' port'" and "dg_payload dg = [b]"
  shows "fa_unwrap_tcp_in_ip lc dg ad =
    (let (result, seg) = ts_parse b (ip_pseudo_cksum (dg_header dg)) TCPSegment_new
     in Inr (if ip_dst (dg_header dg) = ip \<and> ip_src (dg_header dg) = ip' \<and> ip_proto (dg_header dg) = PROTO_TCP \<and>
               result = NoError \<and> th_dport (ts_header seg) = port \<and> th_sport (ts_header seg) = port'
             then Some seg else None, ad))"
  using assms(2-5) fa_port_socket [OF assms(1)]
  by (simp add: fa_unwrap_tcp_in_ip_def fa_other_def Let_def split: prod.split)

theorem adapter_filter_witness:
  "fa_unwrap_tcp_in_ip example_libc \<lparr>dg_header = IPv4Header_new\<lparr>ip_dst := 3\<rparr>, dg_payload = [buf_empty]\<rparr>
     (side False 1 80 2 99) = Inr (None, side False 1 80 2 99)"
  using adapter_filter [OF example_libc_numeric, of "side False 1 80 2 99" 1 80 2 99
      "\<lparr>dg_header = IPv4Header_new\<lparr>ip_dst := 3\<rparr>, dg_payload = [buf_empty]\<rparr>" buf_empty]
  by (simp add: side_def split: prod.splits)

text \<open>Accepting a connection. An adapter that listens on a port takes the first SYN (without RST)
  sent to that port, whatever address it was sent to: from then on it does not listen, answers from the
  address that was contacted, and it and the sender are set up for each other. It ignores everything else.\<close>

theorem adapter_listen:
  assumes "numeric_libc lc" and "\<not> fa_listen a" and "fc_source (fa_cfg a) = socket_address ip port"
    and "fc_destination (fa_cfg a) = socket_address ip' port'" and "fa_listen b"
    and "fc_source (fa_cfg b) = socket_address any_ip port_b" and "fits seg"
  shows "\<exists>w. tun_write lc seg a = Inr w \<and>
    (if port_b = port' \<and> th_syn (ts_header seg) \<and> \<not> th_rst (ts_header seg)
     then \<exists>seg' b'. tun_read lc (bl_concatenate w) b = Inr (Some seg', b') \<and> from_to a b' seg seg' \<and> facing lc a b'
     else tun_read lc (bl_concatenate w) b = Inr (None, b))"
proof -
  obtain dg where dg: "fa_wrap_tcp_in_ip lc seg a = Inr dg" "dg_wf dg"
    "\<forall>dg'. same_dgram dg dg' \<longrightarrow>
      (\<exists>p seg'. dg_payload dg' = [p] \<and> ip_src (dg_header dg') = ip \<and> ip_dst (dg_header dg') = ip' \<and>
         ip_proto (dg_header dg') = PROTO_TCP \<and>
         ts_parse p (ip_pseudo_cksum (dg_header dg')) TCPSegment_new = (NoError, seg') \<and> same_segment seg seg' \<and>
         th_sport (ts_header seg') = port \<and> th_dport (ts_header seg') = port')"
    by (rule fa_wrap_arrives [OF assms(1,3,4,7)])
  obtain w dg' where w: "tun_write lc seg a = Inr w" "same_dgram dg dg'"
    "\<forall>b. tun_read lc (bl_concatenate w) b = fa_unwrap_tcp_in_ip lc dg' b"
    by (rule tun_wire [OF dg(1,2)])
  obtain p seg' where s: "dg_payload dg' = [p]" "ip_src (dg_header dg') = ip" "ip_dst (dg_header dg') = ip'"
    "ip_proto (dg_header dg') = PROTO_TCP"
    "ts_parse p (ip_pseudo_cksum (dg_header dg')) TCPSegment_new = (NoError, seg')" "same_segment seg seg'"
    "th_sport (ts_header seg') = port" "th_dport (ts_header seg') = port'"
    using dg(3) w(2) by blast
  have syn: "th_syn (ts_header seg') = th_syn (ts_header seg)" "th_rst (ts_header seg') = th_rst (ts_header seg)"
    using s(6) by (auto simp: same_segment_def)
  define b' where "b' = b\<lparr>fa_cfg := (fa_cfg b)\<lparr>fc_source := socket_address ip' port',
    fc_destination := socket_address ip port\<rparr>, fa_listen := False\<rparr>"
  note port = fa_port_socket [OF assms(1)] and addr = Address_of_ip_socket [OF assms(1)]
  have "fa_unwrap_tcp_in_ip lc dg' b = (if port_b = port' \<and> th_syn (ts_header seg) \<and> \<not> th_rst (ts_header seg)
      then Inr (Some seg', b') else Inr (None, b))"
    using assms(5,6) s by (simp add: fa_unwrap_tcp_in_ip_def fa_other_def fa_accept_def syn port addr b'_def)
  moreover have "facing lc a b'" "from_to a b' seg seg'"
    using assms(1-4) s by (auto simp: facing_def from_to_def b'_def)
  ultimately show ?thesis using w(1,3) by auto
qed

theorem adapter_listen_witness:
  "\<exists>w seg' b'. tun_write example_libc syn_example (side False 1 80 2 99) = Inr w \<and>
     tun_read example_libc (bl_concatenate w) (side True 0 99 0 0) = Inr (Some seg', b') \<and>
     facing example_libc (side False 1 80 2 99) b'"
  using adapter_listen [OF example_libc_numeric, of "side False 1 80 2 99" 1 80 2 99 "side True 0 99 0 0" 0 99
      syn_example] by (auto simp: side_def)

text \<open>All of a queue of segments given to an adapter, first to last.\<close>

fun write_all :: "(TCPSegment \<Rightarrow> 'a \<Rightarrow> exn + 'w list \<times> 'a) \<Rightarrow> TCPSegment list \<Rightarrow> 'a \<Rightarrow> exn + 'w list \<times> 'a" where
  "write_all write [] ad = Inr ([], ad)"
| "write_all write (seg # segs) ad =
     bindE (write seg ad) (\<lambda>(out, ad1).
     bindE (write_all write segs ad1) (\<lambda>(outs, ad2). Inr (out @ outs, ad2)))"

lemma lf_should_drop_adapter:
  "lf_should_drop rand config up lf = (d, lf') \<Longrightarrow> lf_adapter lf' = lf_adapter lf"
  "(if up then fc_loss_rate_up (config (lf_adapter lf)) else fc_loss_rate_dn (config (lf_adapter lf))) = 0 \<Longrightarrow>
   lf_should_drop rand config up lf = (False, lf)"
  by (auto simp: lf_should_drop_def Let_def split: if_splits prod.splits)

text \<open>The lossy adapter only loses. Over an adapter that writes every segment, it writes a subsequence
  of what that one would write, in order and unchanged, and all of it if the loss rate is zero (the
  random generator is then never asked); a read gives what the adapter reads, or nothing, and leaves
  the adapter in the same state, and with loss rate zero it is the adapter's read.\<close>

theorem lossy_adapter:
  assumes "\<forall>seg \<in> set segs. write seg (lf_adapter lf) = Inr ([w seg], lf_adapter lf)"
    and "read (lf_adapter lf) = Inr (r, ad')"
  shows "(\<exists>out lf'. write_all (lf_write rand config write) segs lf = Inr (out, lf') \<and>
      lf_adapter lf' = lf_adapter lf \<and> subseq out (map w segs) \<and>
      (fc_loss_rate_up (config (lf_adapter lf)) = 0 \<longrightarrow> out = map w segs \<and> lf' = lf)) \<and>
    (\<exists>r' lf'. lf_read rand config read lf = Inr (r', lf') \<and> (r' = r \<or> r' = None) \<and> lf_adapter lf' = ad' \<and>
      (fc_loss_rate_dn (config ad') = 0 \<longrightarrow> r' = r \<and> lf' = lf\<lparr>lf_adapter := ad'\<rparr>))"
proof -
  have "\<exists>out lf'. write_all (lf_write rand config write) segs lf = Inr (out, lf') \<and>
      lf_adapter lf' = lf_adapter lf \<and> subseq out (map w segs) \<and>
      (fc_loss_rate_up (config (lf_adapter lf)) = 0 \<longrightarrow> out = map w segs \<and> lf' = lf)"
    using assms(1)
  proof (induction segs arbitrary: lf)
    case (Cons seg segs)
    obtain d lf1 where d: "lf_should_drop rand config True lf = (d, lf1)" by fastforce
    note ad = lf_should_drop_adapter(1) [OF d]
    from Cons.IH [of lf1] Cons.prems ad obtain out lf' where
      ih: "write_all (lf_write rand config write) segs lf1 = Inr (out, lf')" "lf_adapter lf' = lf_adapter lf"
        "subseq out (map w segs)"
        "fc_loss_rate_up (config (lf_adapter lf)) = 0 \<longrightarrow> out = map w segs \<and> lf' = lf1"
      by auto
    have z: "\<not> d \<and> lf1 = lf" if "fc_loss_rate_up (config (lf_adapter lf)) = 0"
      using lf_should_drop_adapter(2) [of True config lf rand] d that by simp
    have w: "lf_write rand config write seg lf = Inr (if d then [] else [w seg], lf1)"
    proof (cases d)
      case False
      have "lf1\<lparr>lf_adapter := lf_adapter lf1\<rparr> = lf1" by simp
      with False d Cons.prems ad show ?thesis by (simp add: lf_write_def)
    qed (simp add: lf_write_def d)
    show ?case using ih z by (cases d) (auto simp: w)
  qed simp
  moreover obtain d lf1 where d: "lf_should_drop rand config False (lf\<lparr>lf_adapter := ad'\<rparr>) = (d, lf1)"
    by fastforce
  have "\<exists>r' lf'. lf_read rand config read lf = Inr (r', lf') \<and> (r' = r \<or> r' = None) \<and> lf_adapter lf' = ad' \<and>
      (fc_loss_rate_dn (config ad') = 0 \<longrightarrow> r' = r \<and> lf' = lf\<lparr>lf_adapter := ad'\<rparr>)"
    using lf_should_drop_adapter(1) [OF d] lf_should_drop_adapter(2) [of False config "lf\<lparr>lf_adapter := ad'\<rparr>" rand]
      d assms(2) by (auto simp: lf_read_def)
  ultimately show ?thesis by blast
qed

theorem lossy_adapter_witness:
  "\<exists>out lf'. write_all (lf_write (\<lambda>g. (of_nat g, g + 1)) fa_cfg (\<lambda>seg ad. Inr ([seg], ad))) [syn_example]
     \<lparr>lf_rand = 7, lf_adapter = side False 1 80 2 99\<rparr> = Inr (out, lf') \<and> subseq out [syn_example]"
proof -
  let ?lf = "\<lparr>lf_rand = 7 :: nat, lf_adapter = side False 1 80 2 99\<rparr>"
  show ?thesis
    using lossy_adapter [of "[syn_example]" "\<lambda>seg ad. Inr ([seg], ad)" ?lf id "\<lambda>ad. Inr (None, ad)" None
        "lf_adapter ?lf" "\<lambda>g. (of_nat g, g + 1)" fa_cfg] by auto
qed

text \<open>Reading a frame from the wire.\<close>

lemma ea_read_wire:
  assumes "wire_ok f" and "ni_recv_frame (on_wire f) (ea_interface ea) = Inr (dg, ni)"
  shows "ea_read lc (bl_concatenate (ef_serialize f)) ea =
    (let out = map ef_serialize (ni_frames_out ni); ea1 = ea\<lparr>ea_interface := ni\<lparr>ni_frames_out := []\<rparr>\<rparr>
     in case dg of None \<Rightarrow> Inr (None, out, ea1)
        | Some dgram \<Rightarrow> bindE (fa_unwrap_tcp_in_ip lc dgram (ea_base ea)) (\<lambda>(seg, base).
            Inr (seg, out, ea1\<lparr>ea_base := base\<rparr>)))"
proof -
  obtain pay where "ef_parse (buf_of_string (bl_concatenate (ef_serialize f))) EthernetFrame_new = (NoError, on_wire f)"
    by (rule on_wire_spec [OF assms(1)])
  moreover have "ea_send_loop frames = map ef_serialize frames" for frames
    by (induction frames) simp_all
  ultimately show ?thesis
    using assms(2) by (cases dg) (simp_all add: ea_read_def ea_send_pending_def Let_def)
qed

text \<open>C35: the whole stack. Two adapters over Ethernet on one network, whose interfaces know nothing of each
  other, set up for each other: when the first is given a segment, three frames are exchanged (an
  ARP request, its reply, and the datagram), and then the second returns the same
  segment: what TCP sees of ARP, Ethernet, IPv4 and the parsers is nothing at all.\<close>

theorem ethernet_adapter_exchange:
  assumes "facing lc (ea_base a) (ea_base b)" and "fits seg"
    and "ni_inv (ea_interface a)" and "addr_ipv4_numeric (ni_ip_address (ea_interface a)) = Inr ip_a"
    and "ni_frames_out (ea_interface a) = []" and "ni_inv (ea_interface b)"
    and "addr_ipv4_numeric (ni_ip_address (ea_interface b)) = Inr ip_b" and "ni_frames_out (ea_interface b) = []"
    and "addr_ipv4_numeric (ea_next_hop a) = Inr ip_b" and "ni_cached ip_b (ea_interface a) = None"
    and "map_of (ni_arp_expire_time (ea_interface a)) ip_b = None"
    and "ni_blocked_ip_datagram (ea_interface a) = []"
    and "ni_ms_since_running (ea_interface a) + 30000 < 2 ^ 64"
    and "ni_ms_since_running (ea_interface b) + 30000 < 2 ^ 64"
  shows "\<exists>request a1 reply b1 frame a2 seg'.
    ea_write lc seg a = Inr ([request], a1) \<and>
    ea_read lc (bl_concatenate request) b = Inr (None, [reply], b1) \<and>
    ea_read lc (bl_concatenate reply) a1 = Inr (None, [frame], a2) \<and>
    ea_read lc (bl_concatenate frame) b1 = Inr (Some seg', [], b1) \<and>
    same_segment seg seg' \<and> tc_segment_received seg' tc = tc_segment_received seg tc"
proof -
  obtain dg where dg: "fa_wrap_tcp_in_ip lc seg (ea_base a) = Inr dg" "dg_wf dg"
    "\<forall>dg'. same_dgram dg dg' \<longrightarrow>
       (\<exists>seg'. fa_unwrap_tcp_in_ip lc dg' (ea_base b) = Inr (Some seg', ea_base b) \<and>
          from_to (ea_base a) (ea_base b) seg seg')"
    by (rule facing_carry [OF assms(1,2)])
  obtain a1 request b1 reply a2 frame where n:
    "ni_send_datagram dg (ea_next_hop a) (ea_interface a) = Inr a1" "ni_frames_out a1 = [request]"
    "ni_recv_frame (on_wire request) (ea_interface b) = Inr (None, b1)" "ni_frames_out b1 = [reply]"
    "ni_recv_frame (on_wire reply) (a1\<lparr>ni_frames_out := []\<rparr>) = Inr (None, a2)" "ni_frames_out a2 = [frame]"
    "wire_ok request" "wire_ok reply" "wire_ok frame" "ni_ethernet_address b1 = ni_ethernet_address (ea_interface b)"
    "\<forall>ni'. ni_ethernet_address ni' = ni_ethernet_address (ea_interface b) \<longrightarrow>
       (\<exists>dg'. ni_recv_frame (on_wire frame) ni' = Inr (Some dg', ni') \<and> same_dgram dg dg')"
    using ni_arp_exchange [OF assms(3-12) dg(2) assms(13,14)] by blast
  obtain dg' where dg': "ni_recv_frame (on_wire frame) (b1\<lparr>ni_frames_out := []\<rparr>) = Inr (Some dg', b1\<lparr>ni_frames_out := []\<rparr>)"
    "same_dgram dg dg'"
    using n(10) n(11) [rule_format, of "b1\<lparr>ni_frames_out := []\<rparr>"] by auto
  obtain seg' where seg': "fa_unwrap_tcp_in_ip lc dg' (ea_base b) = Inr (Some seg', ea_base b)"
    "from_to (ea_base a) (ea_base b) seg seg'"
    using dg(3) dg'(2) by blast
  let ?a1 = "a\<lparr>ea_interface := a1\<lparr>ni_frames_out := []\<rparr>\<rparr>" and ?b1 = "b\<lparr>ea_interface := b1\<lparr>ni_frames_out := []\<rparr>\<rparr>"
  have "ea_write lc seg a = Inr ([ef_serialize request], ?a1)"
    using dg(1) n(1,2) by (simp add: ea_write_def ea_send_pending_def)
  moreover have "ea_read lc (bl_concatenate (ef_serialize request)) b = Inr (None, [ef_serialize reply], ?b1)"
    using ea_read_wire [OF n(7,3)] n(4) by (simp add: Let_def)
  moreover have "ea_read lc (bl_concatenate (ef_serialize reply)) ?a1 =
      Inr (None, [ef_serialize frame], a\<lparr>ea_interface := a2\<lparr>ni_frames_out := []\<rparr>\<rparr>)"
    using ea_read_wire [OF n(8), of ?a1 None a2 lc] n(5,6) by (simp add: Let_def)
  moreover have "ea_read lc (bl_concatenate (ef_serialize frame)) ?b1 = Inr (Some seg', [], ?b1)"
    using ea_read_wire [OF n(9), of ?b1 "Some dg'" "b1\<lparr>ni_frames_out := []\<rparr>" lc] dg'(1) seg'(1) by (simp add: Let_def)
  ultimately show ?thesis
    using seg'(2) tc_segment_received_same [of seg seg' tc] unfolding from_to_def by blast
qed

theorem ethernet_adapter_exchange_witness:
  "\<exists>request a1. ea_write example_libc syn_example
      \<lparr>ea_base = side False 1 80 2 99, ea_interface = host 1 1, ea_next_hop = ipv4_address 2\<rparr> =
      Inr ([request], a1)"
  using ethernet_adapter_exchange [of example_libc
      "\<lparr>ea_base = side False 1 80 2 99, ea_interface = host 1 1, ea_next_hop = ipv4_address 2\<rparr>"
      "\<lparr>ea_base = side False 2 99 1 80, ea_interface = host 2 2, ea_next_hop = ipv4_address 1\<rparr>" syn_example 1 2
      "TCPConnection_new TCPConfig_default 0"]
  by auto

end
