(* ===== verification/Event_Loop.thy ===== *)
theory Event_Loop
  imports File_Descriptor "HOL-Library.Sublist"
begin

unbundle bit_operations_syntax

text \<open>
  \<^verbatim>\<open>util/eventloop.hh\<close> and \<^verbatim>\<open>eventloop.cc\<close>: the loop that waits for events on file descriptors and calls
  the rules that were added for them. The callbacks of a rule act on a state \<open>'s\<close>, in which the
  descriptors are found too; \<^verbatim>\<open>poll\<close> is a parameter. Rules are only added before the loop runs. The
  contract between the loop and its rules is the locale \<open>event_client\<close>.
\<close>

section \<open>Model\<close>

datatype Direction = In | Out

definition POLLIN :: "16 word" where "POLLIN = 1"

definition POLLOUT :: "16 word" where "POLLOUT = 4"

definition POLLERR :: "16 word" where "POLLERR = 8"

definition POLLHUP :: "16 word" where "POLLHUP = 16"

definition POLLNVAL :: "16 word" where "POLLNVAL = 32"

fun dir_events :: "Direction \<Rightarrow> 16 word" where
  "dir_events In = POLLIN"
| "dir_events Out = POLLOUT"

record 's Rule =
  ru_fd :: "'s \<Rightarrow> FDWrapper"
  ru_direction :: Direction
  ru_callback :: "'s \<Rightarrow> exn + 's"
  ru_interest :: "'s \<Rightarrow> bool"
  ru_cancel :: "'s \<Rightarrow> exn + 's"

definition ru_service_count :: "'s Rule \<Rightarrow> 's \<Rightarrow> uint32_t" where
  "ru_service_count r s =
     (if ru_direction r = In then fd_read_count (ru_fd r s) else fd_write_count (ru_fd r s))"

definition el_add_rule ::
  "('s \<Rightarrow> FDWrapper) \<Rightarrow> Direction \<Rightarrow> ('s \<Rightarrow> exn + 's) \<Rightarrow> ('s \<Rightarrow> bool) \<Rightarrow> ('s \<Rightarrow> exn + 's) \<Rightarrow>
   's Rule list \<Rightarrow> 's Rule list" where
  "el_add_rule fd direction callback interest cancel rules =
     rules @ [\<lparr>ru_fd = fd, ru_direction = direction, ru_callback = callback, ru_interest = interest,
               ru_cancel = cancel\<rparr>]"

datatype Result = Success | Timeout | Exit

record pollfd =
  pf_fd :: int
  pf_events :: "16 word"
  pf_revents :: "16 word"

text \<open>The first loop: what is left of the rules, what to poll, and whether there is something to poll.\<close>

fun el_setup :: "'s Rule list \<Rightarrow> bool \<Rightarrow> 's \<Rightarrow> exn + 's Rule list \<times> pollfd list \<times> bool \<times> 's" where
  "el_setup [] something_to_poll s = Inr ([], [], something_to_poll, s)"
| "el_setup (this_rule # rest) something_to_poll s =
     (if ru_direction this_rule = In \<and> fd_eof (ru_fd this_rule s)
      then bindE (ru_cancel this_rule s) (\<lambda>s1. el_setup rest something_to_poll s1)
      else if fd_closed (ru_fd this_rule s)
      then bindE (ru_cancel this_rule s) (\<lambda>s1. el_setup rest something_to_poll s1)
      else
        let (events, something) =
              (if ru_interest this_rule s then (dir_events (ru_direction this_rule), True)
               else (0, something_to_poll))
        in bindE (el_setup rest something s) (\<lambda>(rules, pollfds, something1, s1).
             Inr (this_rule # rules,
                  \<lparr>pf_fd = fd_num (ru_fd this_rule s), pf_events = events, pf_revents = 0\<rparr> # pollfds,
                  something1, s1)))"

definition poll_error :: "pollfd \<Rightarrow> bool" where
  "poll_error p \<longleftrightarrow> pf_revents p AND (POLLERR OR POLLNVAL) \<noteq> 0"

definition poll_ready :: "pollfd \<Rightarrow> bool" where
  "poll_ready p \<longleftrightarrow> pf_revents p AND pf_events p \<noteq> 0"

definition poll_hup :: "pollfd \<Rightarrow> bool" where
  "poll_hup p \<longleftrightarrow> pf_revents p AND POLLHUP \<noteq> 0"

text \<open>
  The second loop, over the rules and the poll results. There is one result for each rule; the last
  equation is for an index past the end of the vector, which does not happen.
\<close>

fun el_results :: "'s Rule list \<Rightarrow> pollfd list \<Rightarrow> 's \<Rightarrow> exn + 's Rule list \<times> 's" where
  "el_results [] pollfds s = Inr ([], s)"
| "el_results (this_rule # rest) (this_pollfd # pollfds) s =
     (if poll_error this_pollfd then Inl (Runtime_error ''EventLoop: error on polled file descriptor'')
      else if poll_hup this_pollfd \<and> pf_events this_pollfd \<noteq> 0 \<and> \<not> poll_ready this_pollfd
      then bindE (ru_cancel this_rule s) (\<lambda>s1. el_results rest pollfds s1)
      else
        bindE (if poll_ready this_pollfd
               then bindE (ru_callback this_rule s) (\<lambda>s1.
                      if ru_service_count this_rule s = ru_service_count this_rule s1 \<and> ru_interest this_rule s1
                      then Inl (Runtime_error
                        ''EventLoop: busy wait detected: callback did not read/write fd and is still interested'')
                      else Inr s1)
               else Inr s) (\<lambda>s1.
        bindE (el_results rest pollfds s1) (\<lambda>(rules, s2). Inr (this_rule # rules, s2))))"
| "el_results (this_rule # rest) [] s = Inl (Out_of_range ''pollfds'')"

definition EINTR :: int where
  "EINTR = 4"

text \<open>\<open>poll(2)\<close> returns its value and \<open>errno\<close>, the descriptors with their results, and the state of the
  system after the wait.\<close>

type_synonym 's sys_poll = "pollfd list \<Rightarrow> int \<Rightarrow> 's \<Rightarrow> ((int \<times> int) \<times> pollfd list) \<times> 's"

definition el_wait_next_event ::
  "'s sys_poll \<Rightarrow> int \<Rightarrow> 's Rule list \<Rightarrow> 's \<Rightarrow> exn + Result \<times> 's Rule list \<times> 's" where
  "el_wait_next_event sys_poll timeout_ms rules s =
     bindE (el_setup rules False s) (\<lambda>(rules1, pollfds, something_to_poll, s1).
       if \<not> something_to_poll then Inr (Exit, rules1, s1)
       else
         let ((result, pollfds1), s2) = sys_poll pollfds timeout_ms s1;
             go = bindE (el_results rules1 pollfds1 s2) (\<lambda>(rules2, s3). Inr (Success, rules2, s3))
         in case SystemCall ''poll'' result 0 of
              Inr n \<Rightarrow> if n = 0 then Inr (Timeout, rules1, s2) else go
            | Inl e \<Rightarrow>
                (case e of Tagged_error _ _ code \<Rightarrow> if code = EINTR then Inr (Exit, rules1, s2) else go
                 | _ \<Rightarrow> Inl e))"

section \<open>The two loops\<close>

lemma el_setup_length:
  "el_setup rules b s = Inr (rules', pollfds, b', s') \<Longrightarrow>
   length pollfds = length rules' \<and> subseq rules' rules"
  by (induction rules b s arbitrary: rules' pollfds b' s' rule: el_setup.induct)
    (auto simp: bindE_eq_Inr Let_def split: if_splits intro: list_emb_Cons)

lemma el_setup_revents:
  "el_setup rules b s = Inr (rules', pollfds, b', s') \<Longrightarrow> \<forall>p \<in> set pollfds. pf_revents p = 0"
  by (induction rules b s arbitrary: rules' pollfds b' s' rule: el_setup.induct)
    (auto simp: bindE_eq_Inr Let_def split: if_splits)

lemma el_setup_Cons:
  assumes "el_setup (r # rest) b s = Inr (rules', pollfds, b', s')"
  obtains (cancelled) s1 where "ru_cancel r s = Inr s1" and "el_setup rest b s1 = Inr (rules', pollfds, b', s')"
  | (kept) rules1 pollfds1 where "rules' = r # rules1"
    and "el_setup rest (ru_interest r s \<or> b) s = Inr (rules1, pollfds1, b', s')"
  using assms by (auto simp: bindE_eq_Inr Let_def split: if_splits)

text \<open>Where there is nothing to poll, no rule that is left is interested, if later cancellations do not change that.\<close>

lemma el_setup_uninterested:
  assumes "el_setup rules b s = Inr (rules', pollfds, b', s')" and "\<not> ru_interest r s"
    and "\<And>q s s1. q \<in> set rules \<Longrightarrow> ru_cancel q s = Inr s1 \<Longrightarrow> \<not> ru_interest r s \<Longrightarrow> \<not> ru_interest r s1"
  shows "\<not> ru_interest r s'"
  using assms
proof (induction rules arbitrary: b s rules' pollfds)
  case (Cons q rest)
  have later: "\<not> ru_interest r s1" if "q' \<in> set rest" "ru_cancel q' s = Inr s1" "\<not> ru_interest r s" for q' s s1
    using Cons.prems(3) [OF _ that(2,3)] that(1) by simp
  from Cons.prems(1) show ?case
  proof (cases rule: el_setup_Cons)
    case (cancelled s1)
    have "\<not> ru_interest r s1" using Cons.prems(3) [OF _ cancelled(1) Cons.prems(2)] by simp
    from Cons.IH [OF cancelled(2) this later] show ?thesis .
  next
    case (kept rules1 pollfds1)
    from Cons.IH [OF kept(2) Cons.prems(2) later] show ?thesis .
  qed
qed (use assms(2) in simp)

lemma el_setup_nothing: "el_setup rules b s = Inr (rules', pollfds, False, s') \<Longrightarrow> \<not> b"
proof (induction rules arbitrary: b s rules' pollfds)
  case (Cons q rest)
  from Cons.prems show ?case
    by (cases rule: el_setup_Cons) (use Cons.IH in blast)+
qed simp

lemma el_setup_quiet:
  assumes "el_setup rules b s = Inr (rules', pollfds, False, s')" and "r \<in> set rules'"
    and "\<And>q s s1. subseq [r, q] rules \<Longrightarrow> ru_cancel q s = Inr s1 \<Longrightarrow> \<not> ru_interest r s \<Longrightarrow> \<not> ru_interest r s1"
  shows "\<not> ru_interest r s'"
  using assms
proof (induction rules arbitrary: b s rules' pollfds)
  case (Cons q rest)
  have later: "\<not> ru_interest r s1" if "subseq [r, q'] rest" "ru_cancel q' s = Inr s1" "\<not> ru_interest r s" for q' s s1
    using Cons.prems(3) that list_emb_Cons by metis
  from Cons.prems(1) show ?case
  proof (cases rule: el_setup_Cons)
    case (cancelled s1)
    from Cons.IH [OF cancelled(2) Cons.prems(2) later] show ?thesis .
  next
    case (kept rules1 pollfds1)
    show ?thesis
    proof (cases "r \<in> set rules1")
      case True
      from Cons.IH [OF kept(2) this later] show ?thesis .
    next
      case False
      then have r: "r = q" using Cons.prems(2) kept(1) by simp
      then have "\<not> ru_interest r s" using el_setup_nothing [OF kept(2)] by simp
      moreover have "subseq [r, q'] (q # rest)" if "q' \<in> set rest" for q'
        using that r by (simp add: subseq_singleton_left)
      ultimately show ?thesis using el_setup_uninterested [OF kept(2)] Cons.prems(3) by blast
    qed
  qed
qed simp

lemma el_results_subseq: "el_results rules pollfds s = Inr (rules', s') \<Longrightarrow> subseq rules' rules"
  by (induction rules pollfds s arbitrary: rules' s' rule: el_results.induct)
    (auto simp: bindE_eq_Inr split: if_splits intro: list_emb_Cons)

lemma subseq_set: "subseq xs ys \<Longrightarrow> set xs \<subseteq> set ys"
  by (auto elim: list_emb_set)

lemma subseq_parts:
  assumes "subseq (r # rest) R"
  shows "r \<in> set R" "subseq rest R" "q \<in> set rest \<Longrightarrow> subseq [r, q] R"
proof -
  have "subseq [r] (r # rest)" by (simp add: subseq_singleton_left)
  from subseq_order.trans [OF this assms] show "r \<in> set R" by (simp add: subseq_singleton_left)
  show "subseq rest R" using assms by (rule subseq_Cons')
  assume "q \<in> set rest"
  then have "subseq [r, q] (r # rest)" by (simp add: subseq_singleton_left)
  then show "subseq [r, q] R" using assms by (rule subseq_order.trans)
qed

section \<open>The contract between the loop and its rules\<close>

text \<open>
  A client keeps an invariant \<open>I\<close> over all rules. A rule is armed (\<open>P\<close>) when it is polled; it stays
  armed while the others work, and an armed callback returns, has used its descriptor or is
  no longer interested, and keeps the invariant, or it throws one of the exceptions \<open>E\<close>; every cancellation returns and keeps
  the invariant.
\<close>

locale event_client =
  fixes R :: "'s Rule list" and I :: "'s \<Rightarrow> bool" and P :: "'s Rule \<Rightarrow> 's \<Rightarrow> bool" and sys_poll :: "'s sys_poll"
    and E :: "exn set"
  assumes armed: "r \<in> set R \<Longrightarrow> I s \<Longrightarrow> ru_interest r s \<Longrightarrow>
      \<not> (ru_direction r = In \<and> fd_eof (ru_fd r s)) \<Longrightarrow> \<not> fd_closed (ru_fd r s) \<Longrightarrow> P r s"
    and callback: "r \<in> set R \<Longrightarrow> I s \<Longrightarrow> P r s \<Longrightarrow> (\<exists>e \<in> E. ru_callback r s = Inl e) \<or> (\<exists>s'. ru_callback r s = Inr s' \<and> I s' \<and>
      (ru_service_count r s' \<noteq> ru_service_count r s \<or> \<not> ru_interest r s'))"
    and callback_armed: "subseq [r, q] R \<Longrightarrow> I s \<Longrightarrow> P r s \<Longrightarrow> P q s \<Longrightarrow> ru_callback r s = Inr s' \<Longrightarrow> P q s'"
    and cancel: "r \<in> set R \<Longrightarrow> I s \<Longrightarrow> \<exists>s'. ru_cancel r s = Inr s' \<and> I s'"
    and cancel_armed: "subseq [r, q] R \<or> subseq [q, r] R \<Longrightarrow> I s \<Longrightarrow> P q s \<Longrightarrow> ru_cancel r s = Inr s' \<Longrightarrow> P q s'"
    and poll: "I s \<Longrightarrow> I (snd (sys_poll pollfds timeout s))"
    and poll_armed: "r \<in> set R \<Longrightarrow> I s \<Longrightarrow> P r s \<Longrightarrow> P r (snd (sys_poll pollfds timeout s))"
    and poll_fds: "I s \<Longrightarrow> map pf_events (snd (fst (sys_poll pollfds timeout s))) = map pf_events pollfds"
begin

text \<open>What may be thrown.\<close>

definition thrown :: "exn set" where
  "thrown = insert (Runtime_error ''EventLoop: error on polled file descriptor'') E"

text \<open>A rule whose descriptor is polled for its direction is armed.\<close>

definition polled_armed :: "'s \<Rightarrow> 's Rule list \<Rightarrow> pollfd list \<Rightarrow> bool" where
  "polled_armed s = list_all2 (\<lambda>r p. pf_events p \<noteq> 0 \<longrightarrow> P r s)"

lemma setup_client:
  assumes "subseq rules R" and "I s"
  shows "\<exists>rules' pollfds b' s'. el_setup rules b s = Inr (rules', pollfds, b', s') \<and> I s' \<and>
    polled_armed s' rules' pollfds \<and>
    (\<forall>q. P q s \<and> (\<forall>r \<in> set rules. subseq [q, r] R) \<longrightarrow> P q s')"
  using assms
proof (induction rules b s rule: el_setup.induct)
  case (1 b s)
  then show ?case by (simp add: polled_armed_def)
next
  case (2 r rest b s)
  note r = subseq_parts [OF "2.prems"(1)]
  show ?case
  proof (cases "ru_direction r = In \<and> fd_eof (ru_fd r s) \<or> fd_closed (ru_fd r s)")
    case True
    obtain s1 where s1: "ru_cancel r s = Inr s1" "I s1" using cancel [OF r(1) "2.prems"(2)] by blast
    have "el_setup (r # rest) b s = el_setup rest b s1" using True s1(1) by auto
    moreover obtain rules' pollfds b' s' where "el_setup rest b s1 = Inr (rules', pollfds, b', s')" "I s'"
      "polled_armed s' rules' pollfds" "\<forall>q. P q s1 \<and> (\<forall>r \<in> set rest. subseq [q, r] R) \<longrightarrow> P q s'"
      using True "2.IH"(1) [OF _ r(2) s1(2)] "2.IH"(2) [OF _ _ r(2) s1(2)] by blast
    moreover have "P q s1" if "P q s" "subseq [q, r] R" for q
      using cancel_armed [OF _ "2.prems"(2) that(1) s1(1)] that(2) by blast
    ultimately show ?thesis by auto
  next
    case False
    let ?e = "if ru_interest r s then dir_events (ru_direction r) else 0" and ?b = "ru_interest r s \<or> b"
    have pr: "P r s" if "ru_interest r s" using armed [OF r(1) "2.prems"(2) that] False by blast
    have eq: "(?e, ?b) = (if ru_interest r s then (dir_events (ru_direction r), True) else (0, b))" by simp
    obtain rules' pollfds b' s' where ih: "el_setup rest ?b s = Inr (rules', pollfds, b', s')" "I s'"
      "polled_armed s' rules' pollfds" "\<forall>q. P q s \<and> (\<forall>r \<in> set rest. subseq [q, r] R) \<longrightarrow> P q s'"
      using False "2.IH"(3) [OF _ _ refl eq r(2) "2.prems"(2)] by blast
    have "el_setup (r # rest) b s = Inr (r # rules',
        \<lparr>pf_fd = fd_num (ru_fd r s), pf_events = ?e, pf_revents = 0\<rparr> # pollfds, b', s')"
      using False ih(1) by (cases "ru_interest r s") auto
    moreover have "?e \<noteq> 0 \<longrightarrow> P r s'" using pr ih(4) r(3) by (auto split: if_splits)
    ultimately show ?thesis
      using ih(2-4) by (auto simp: polled_armed_def)
  qed
qed

text \<open>What is left to do stays armed after the first rule was cancelled or called, and after the wait.\<close>

lemma polled_rest:
  assumes "subseq (r # rest) R" and "I s" and "polled_armed s (r # rest) (p # pollfds)"
  shows "polled_armed s rest pollfds"
    and "ru_cancel r s = Inr s1 \<Longrightarrow> I s1 \<and> polled_armed s1 rest pollfds"
    and "poll_ready p \<Longrightarrow> ru_callback r s = Inr s1 \<Longrightarrow> I s1 \<and> polled_armed s1 rest pollfds"
proof -
  note r = subseq_parts [OF assms(1)]
  have arm: "pf_events p \<noteq> 0 \<Longrightarrow> P r s" "polled_armed s rest pollfds"
    using assms(3) by (simp_all add: polled_armed_def)
  then show "polled_armed s rest pollfds" by blast
  have keep: "polled_armed s1 rest pollfds" if "\<And>q. q \<in> set rest \<Longrightarrow> P q s \<Longrightarrow> P q s1" for s1
    using arm(2) unfolding polled_armed_def by (rule list.rel_mono_strong) (use that in auto)
  show "I s1 \<and> polled_armed s1 rest pollfds" if c: "ru_cancel r s = Inr s1"
    using cancel [OF r(1) assms(2)] c cancel_armed [OF _ assms(2) _ c] r(3) by (auto intro: keep)
  show "I s1 \<and> polled_armed s1 rest pollfds" if "poll_ready p" and c: "ru_callback r s = Inr s1"
  proof -
    have pr: "P r s" using that(1) arm(1) by (cases "pf_events p = 0") (auto simp: poll_ready_def)
    then show ?thesis
      using callback [OF r(1) assms(2)] c callback_armed [OF _ assms(2) pr _ c] r(3) by (auto intro: keep)
  qed
qed

lemma polled_after:
  assumes "I s1" and "polled_armed s1 rules pollfds" and "subseq rules R"
    and p: "sys_poll pollfds timeout s1 = ((v, pollfds1), s2)"
  shows "I s2" and "polled_armed s2 rules pollfds1"
proof -
  have "map pf_events pollfds1 = map pf_events pollfds" using poll_fds [OF assms(1), of pollfds timeout] p by simp
  then have "polled_armed s1 rules pollfds1"
    using assms(2) unfolding polled_armed_def list_all2_conv_all_nth
    by (metis (no_types, lifting) length_map nth_map)
  moreover have "P r s2" if "r \<in> set rules" "P r s1" for r
    using poll_armed [OF _ assms(1) that(2), of pollfds timeout] p subseq_set [OF assms(3)] that(1) by auto
  ultimately show "polled_armed s2 rules pollfds1"
    unfolding polled_armed_def by (elim list.rel_mono_strong) auto
  show "I s2" using poll [OF assms(1), of pollfds timeout] p by simp
qed

lemma results_client:
  assumes "subseq rules R" and "I s" and "polled_armed s rules pollfds"
  shows "(\<exists>e \<in> thrown. el_results rules pollfds s = Inl e) \<or>
    (\<exists>rules' s'. el_results rules pollfds s = Inr (rules', s') \<and> I s' \<and> subseq rules' rules)"
  using assms
proof (induction rules pollfds s rule: el_results.induct)
  case (2 r rest p pollfds s)
  note r = subseq_parts [OF "2.prems"(1)]
  note arm = polled_rest [OF "2.prems"]
  consider "poll_error p" | (hup) "\<not> poll_error p" "poll_hup p \<and> pf_events p \<noteq> 0 \<and> \<not> poll_ready p"
    | (ready) "\<not> poll_error p" "\<not> (poll_hup p \<and> pf_events p \<noteq> 0 \<and> \<not> poll_ready p)" "poll_ready p"
    | (idle) "\<not> poll_error p" "\<not> (poll_hup p \<and> pf_events p \<noteq> 0 \<and> \<not> poll_ready p)" "\<not> poll_ready p"
    by blast
  then show ?case
  proof cases
    case hup
    obtain s1 where s1: "ru_cancel r s = Inr s1" using cancel [OF r(1) "2.prems"(2)] by blast
    have "I s1" "polled_armed s1 rest pollfds" using arm(2) [OF s1] by simp_all
    from "2.IH"(1) [OF hup r(2) this] hup s1 show ?thesis by (elim disjE exE conjE) (auto intro: list_emb_Cons)
  next
    case ready
    then have "P r s" using "2.prems"(3) by (cases "pf_events p = 0") (auto simp: poll_ready_def polled_armed_def)
    from callback [OF r(1) "2.prems"(2) this] show ?thesis
    proof (elim disjE bexE exE conjE)
      fix e
      assume "e \<in> E" "ru_callback r s = Inl e"
      then show ?thesis using ready by (auto simp: thrown_def)
    next
      fix s1
      assume s1: "ru_callback r s = Inr s1" "ru_service_count r s1 \<noteq> ru_service_count r s"
      have "I s1" "polled_armed s1 rest pollfds" using arm(3) [OF ready(3) s1(1)] by simp_all
      from "2.IH"(2) [OF ready(1,2) r(2) this] ready s1 show ?thesis by auto
    next
      fix s1
      assume s1: "ru_callback r s = Inr s1" "\<not> ru_interest r s1"
      have "I s1" "polled_armed s1 rest pollfds" using arm(3) [OF ready(3) s1(1)] by simp_all
      from "2.IH"(2) [OF ready(1,2) r(2) this] ready s1 show ?thesis by auto
    qed
  next
    case idle
    from "2.IH"(2) [OF idle(1,2) r(2) "2.prems"(2) arm(1)] idle show ?thesis by auto
  qed (simp add: thrown_def)
qed (auto simp: polled_armed_def)

lemma wait_client:
  assumes "subseq rules R" and "I s"
  shows "(\<exists>e \<in> thrown. el_wait_next_event sys_poll timeout rules s = Inl e) \<or>
    (\<exists>res rules' s'. el_wait_next_event sys_poll timeout rules s = Inr (res, rules', s') \<and> I s' \<and> subseq rules' R)"
proof -
  obtain rules1 pollfds b s1 where set: "el_setup rules False s = Inr (rules1, pollfds, b, s1)" "I s1"
    "polled_armed s1 rules1 pollfds"
    using setup_client [OF assms] by blast
  have sub: "subseq rules1 R" using el_setup_length [OF set(1)] assms(1) subseq_order.trans by blast
  obtain res pollfds1 s2 where p: "sys_poll pollfds timeout s1 = ((res, pollfds1), s2)" by (metis prod.exhaust)
  note s2 = polled_after [OF set(2,3) sub p]
  have go: "(\<exists>e \<in> thrown. bindE (el_results rules1 pollfds1 s2) (\<lambda>(rules2, s3). Inr (Success, rules2, s3)) = Inl e) \<or>
      (\<exists>res rules' s'. bindE (el_results rules1 pollfds1 s2) (\<lambda>(rules2, s3). Inr (Success, rules2, s3)) =
        Inr (res, rules', s') \<and> I s' \<and> subseq rules' R)"
    using results_client [OF sub s2] sub subseq_order.trans by fastforce
  show ?thesis
    using go s2(1) set sub
    by (auto simp: el_wait_next_event_def p SystemCall_def unix_error_def Let_def split: if_splits prod.splits)
qed

end

text \<open>
  Clients whose cancellations leave a mark \<open>Q\<close> that nothing removes: then every rule is still there or has its mark.
\<close>

locale marking_client = event_client +
  fixes Q :: "'a Rule \<Rightarrow> 'a \<Rightarrow> bool"
  assumes cancel_marks: "r \<in> set R \<Longrightarrow> ru_cancel r s = Inr s' \<Longrightarrow> Q r s'"
    and cancel_keeps: "r \<in> set R \<Longrightarrow> q \<in> set R \<Longrightarrow> ru_cancel r s = Inr s' \<Longrightarrow> Q q s \<Longrightarrow> Q q s'"
    and callback_keeps: "r \<in> set R \<Longrightarrow> q \<in> set R \<Longrightarrow> I s \<Longrightarrow> ru_callback r s = Inr s' \<Longrightarrow> Q q s \<Longrightarrow> Q q s'"
    and poll_keeps: "q \<in> set R \<Longrightarrow> Q q s \<Longrightarrow> Q q (snd (sys_poll pollfds timeout s))"
begin

lemma setup_marks:
  assumes "el_setup rules b s = Inr (rules', pollfds, b', s')" and "subseq rules R" and "q \<in> set R"
  shows "(Q q s \<longrightarrow> Q q s') \<and> (q \<in> set rules \<longrightarrow> q \<in> set rules' \<or> Q q s')"
  using assms(1,2)
proof (induction rules arbitrary: b s rules' pollfds)
  case (Cons r rest)
  note r = subseq_parts [OF Cons.prems(2)]
  from Cons.prems(1) show ?case
  proof (cases rule: el_setup_Cons)
    case (cancelled s1)
    have "Q r s1" "Q q s \<Longrightarrow> Q q s1"
      using cancel_marks [OF r(1) cancelled(1)] cancel_keeps [OF r(1) assms(3) cancelled(1)] by blast+
    then show ?thesis using Cons.IH [OF cancelled(2) r(2)] by auto
  next
    case (kept rules1 pollfds1)
    then show ?thesis using Cons.IH [OF kept(2) r(2)] by auto
  qed
qed auto

lemma results_marks:
  assumes "el_results rules pollfds s = Inr (rules', s')" and "subseq rules R" and "q \<in> set R"
    and "I s" and "polled_armed s rules pollfds"
  shows "(Q q s \<longrightarrow> Q q s') \<and> (q \<in> set rules \<longrightarrow> q \<in> set rules' \<or> Q q s')"
  using assms(1,2,4,5)
proof (induction rules pollfds s arbitrary: rules' s' rule: el_results.induct)
  case (2 r rest p pollfds s)
  note r = subseq_parts [OF "2.prems"(2)]
  have ne: "\<not> poll_error p" using "2.prems"(1) by (auto split: if_splits)
  note arm = polled_rest [OF "2.prems"(2-4)]
  show ?case
  proof (cases "poll_hup p \<and> pf_events p \<noteq> 0 \<and> \<not> poll_ready p")
    case True
    then obtain s1 where s1: "ru_cancel r s = Inr s1" "el_results rest pollfds s1 = Inr (rules', s')"
      using "2.prems"(1) ne by (auto simp: bindE_eq_Inr)
    have "Q r s1" "Q q s \<Longrightarrow> Q q s1"
      using cancel_marks [OF r(1) s1(1)] cancel_keeps [OF r(1) assms(3) s1(1)] by blast+
    with "2.IH"(1) [OF ne True s1(2) r(2)] arm(2) [OF s1(1)] show ?thesis by auto
  next
    case False
    then obtain s1 rs where s1: "if poll_ready p then ru_callback r s = Inr s1 else s1 = s"
      "el_results rest pollfds s1 = Inr (rs, s')" "rules' = r # rs"
      using "2.prems"(1) ne by (auto simp: bindE_eq_Inr split: if_splits)
    have "Q q s1" if "Q q s"
      using that s1(1) callback_keeps [OF r(1) assms(3) "2.prems"(3)] by (cases "poll_ready p") auto
    moreover have "I s1" "polled_armed s1 rest pollfds"
      using s1(1) arm(1,3) "2.prems"(3) by (cases "poll_ready p"; simp)+
    ultimately show ?thesis using "2.IH"(2) [OF ne False s1(2) r(2)] s1(3) by auto
  qed
qed auto

lemma wait_marks:
  assumes "el_wait_next_event sys_poll timeout rules s = Inr (res, rules', s')" and "subseq rules R" and "I s"
    and "q \<in> set R" and "q \<in> set rules \<or> Q q s"
  shows "q \<in> set rules' \<or> Q q s'"
proof -
  obtain rules1 pollfds b s1 where set: "el_setup rules False s = Inr (rules1, pollfds, b, s1)" "I s1"
    "polled_armed s1 rules1 pollfds"
    using setup_client [OF assms(2,3)] by blast
  have sub: "subseq rules1 R" using el_setup_length [OF set(1)] assms(2) subseq_order.trans by blast
  have m: "q \<in> set rules1 \<or> Q q s1" using setup_marks [OF set(1) assms(2,4)] assms(5) by blast
  obtain v pollfds1 s2 where p: "sys_poll pollfds timeout s1 = ((v, pollfds1), s2)" by (metis prod.exhaust)
  note s2 = polled_after [OF set(2,3) sub p]
  have m2: "q \<in> set rules1 \<or> Q q s2" using m poll_keeps [OF assms(4), of s1 pollfds timeout] p by auto
  consider "rules' = rules1" "s' = s1" | "rules' = rules1" "s' = s2" | "el_results rules1 pollfds1 s2 = Inr (rules', s')"
    using assms(1) set(1) p by (auto simp: el_wait_next_event_def bindE_eq_Inr Let_def split: if_splits sum.splits exn.splits)
  then show ?thesis
    using m m2 results_marks [OF _ sub assms(4) s2] by cases auto
qed

end

section \<open>Correctness\<close>

text \<open>The only condition is a hangup on a descriptor that was asked for.\<close>

definition hung_up :: "pollfd \<Rightarrow> bool" where
  "hung_up p \<longleftrightarrow> poll_hup p \<and> pf_events p \<noteq> 0 \<and> \<not> poll_ready p"

definition dispatch :: "'s \<Rightarrow> 's Rule \<times> pollfd \<Rightarrow> 's" where
  "dispatch s = (\<lambda>(r, p). if hung_up p then projr (ru_cancel r s)
     else if poll_ready p then projr (ru_callback r s) else s)"

text \<open>C29: dispatching events. If no descriptor is in error, no callback or cancellation throws, and every
  callback uses its descriptor or is then no longer interested, the loop over the poll results is the
  fold, in the order of the rules, of one callback for each descriptor that is ready and one cancellation
  for each that is only hung up; the rules that remain are the others, in order. An error on a
  descriptor stops everything with an exception, and so does a callback that neither uses its
  descriptor nor loses interest.\<close>

theorem event_loop_dispatch:
  assumes "length pollfds = length rules"
    and "\<forall>r \<in> set rules. \<forall>s. (\<exists>s'. ru_cancel r s = Inr s') \<and> (\<exists>s'. ru_callback r s = Inr s')"
  shows "((\<forall>p \<in> set pollfds. \<not> poll_error p) \<and>
      (\<forall>r \<in> set rules. \<forall>s s'. ru_callback r s = Inr s' \<longrightarrow>
         ru_service_count r s' \<noteq> ru_service_count r s \<or> \<not> ru_interest r s') \<longrightarrow>
      el_results rules pollfds s =
        Inr (map fst (filter (\<lambda>(r, p). \<not> hung_up p) (zip rules pollfds)), foldl dispatch s (zip rules pollfds))) \<and>
    ((\<exists>p \<in> set pollfds. poll_error p) \<longrightarrow> (\<exists>m. el_results rules pollfds s = Inl (Runtime_error m))) \<and>
    ((\<exists>(r, p) \<in> set (zip rules pollfds). poll_ready p \<and> (\<forall>s s'. ru_callback r s = Inr s' \<longrightarrow>
         ru_service_count r s' = ru_service_count r s \<and> ru_interest r s')) \<longrightarrow>
      (\<exists>m. el_results rules pollfds s = Inl (Runtime_error m)))"
  using assms
proof (induction rules pollfds s rule: el_results.induct)
  case (2 r rest p pollfds s)
  obtain s1 s2 where c: "ru_cancel r s = Inr s1" "ru_callback r s = Inr s2" using "2.prems"(2) by force
  have rest: "length pollfds = length rest"
    "\<forall>r \<in> set rest. \<forall>s. (\<exists>s'. ru_cancel r s = Inr s') \<and> (\<exists>s'. ru_callback r s = Inr s')"
    using "2.prems" by simp_all
  show ?case
  proof (cases "poll_error p")
    case True
    then show ?thesis by auto
  next
    case False
    show ?thesis
    proof (cases "hung_up p")
      case True
      then have h: "poll_hup p \<and> pf_events p \<noteq> 0 \<and> \<not> poll_ready p" by (simp add: hung_up_def)
      from "2.IH"(1) [OF False h rest, of s1] True h False c(1) show ?thesis
        by (simp add: dispatch_def)
    next
      case nh: False
      then have h: "\<not> (poll_hup p \<and> pf_events p \<noteq> 0 \<and> \<not> poll_ready p)" by (simp add: hung_up_def)
      define sn where "sn = (if poll_ready p then s2 else s)"
      have step: "el_results (r # rest) (p # pollfds) s =
          (if poll_ready p \<and> ru_service_count r s = ru_service_count r s2 \<and> ru_interest r s2
           then Inl (Runtime_error
             ''EventLoop: busy wait detected: callback did not read/write fd and is still interested'')
           else bindE (el_results rest pollfds sn) (\<lambda>(rules, s2). Inr (r # rules, s2)))"
        using False h c(2) by (cases "poll_ready p") (auto simp: sn_def)
      have d: "dispatch s (r, p) = sn" using nh c(2) by (simp add: dispatch_def sn_def)
      note ih = "2.IH"(2) [OF False h rest, of sn]
      show ?thesis
      proof (intro conjI impI, goal_cases)
        case 1
        then show ?case using ih nh c(2) d by (auto simp: step simp del: el_results.simps)
      next
        case 2
        then show ?case using ih False by (auto simp: step simp del: el_results.simps)
      next
        case 3
        then show ?case using ih c(2) by (auto simp: step simp del: el_results.simps)
      qed
    qed
  qed
qed auto

text \<open>The example's rule on descriptor 3 counts its calls in its state, which is its descriptor.\<close>

definition example_rule :: "FDWrapper Rule" where
  "example_rule = \<lparr>ru_fd = id, ru_direction = In, ru_callback = (\<lambda>fd. Inr (fd_register_read fd)),
     ru_interest = (\<lambda>_. True), ru_cancel = Inr\<rparr>"

definition example_fd :: FDWrapper where
  "example_fd = \<lparr>fd_num = 3, fd_eof = False, fd_closed = False, fd_read_count = 0, fd_write_count = 0\<rparr>"

theorem event_loop_dispatch_witness:
  "el_results [example_rule] [\<lparr>pf_fd = 3, pf_events = POLLIN, pf_revents = POLLIN\<rparr>] example_fd =
     Inr ([example_rule], fd_register_read example_fd)"
  using event_loop_dispatch [of "[\<lparr>pf_fd = 3, pf_events = POLLIN, pf_revents = POLLIN\<rparr>]" "[example_rule]" example_fd]
  by (simp add: example_rule_def poll_error_def poll_ready_def POLLIN_def POLLERR_def POLLNVAL_def hung_up_def
      dispatch_def ru_service_count_def fd_register_read_def)

text \<open>When the system call fails. If \<open>poll\<close> is interrupted by a signal, \<open>wait_next_event\<close> returns \<open>Exit\<close>.
  If it fails for any other reason (and so leaves the results zero), \<open>wait_next_event\<close> does not throw, but returns
  \<open>Success\<close> although no callback has been called and nothing has changed.\<close>

theorem event_loop_poll_failure:
  assumes "el_setup rules False s = Inr (rules1, pollfds, True, s1)"
    and "sys_poll pollfds timeout_ms s1 = ((((-1), errno), pollfds), s1)" and "errno \<noteq> 0"
  shows "el_wait_next_event sys_poll timeout_ms rules s =
    (if errno = EINTR then Inr (Exit, rules1, s1) else Inr (Success, rules1, s1))"
proof -
  have "\<forall>p \<in> set pollfds. pf_revents p = 0"
    by (rule el_setup_revents [OF assms(1)])
  moreover have "length pollfds = length rules1" using el_setup_length [OF assms(1)] by simp
  ultimately have "el_results rules1 pollfds s1 = Inr (rules1, s1)"
  proof (induction rules1 pollfds s1 rule: el_results.induct)
    case (2 r rest p pollfds s)
    then show ?case by (simp add: poll_error_def poll_hup_def poll_ready_def)
  qed auto
  then show ?thesis
    using assms by (simp add: el_wait_next_event_def SystemCall_def unix_error_def Let_def)
qed

theorem event_loop_poll_failure_witness:
  "el_wait_next_event (\<lambda>p t s. (((-1, 12), p), s)) 10 [example_rule] example_fd =
     Inr (Success, [example_rule], example_fd)"
  using event_loop_poll_failure [of "[example_rule]" example_fd "[example_rule]"
      "[\<lparr>pf_fd = 3, pf_events = POLLIN, pf_revents = 0\<rparr>]" example_fd "\<lambda>p t s. (((-1, 12), p), s)" 10 12]
  by (simp add: example_rule_def example_fd_def EINTR_def)

end
