(* ===== verification/Reliable_Delivery.thy ===== *)
theory Reliable_Delivery
  imports TCP_Connection
begin

text \<open>
  Two endpoints of \<^verbatim>\<open>TCPConnection\<close> and a network between them that may lose, repeat, delay and
  reorder segments. Each endpoint is a connection with the history of its application (what it has
  written and read) and of its wire (what it has sent). A relation \<open>link a b\<close> describes the direction
  from \<open>a\<close> to \<open>b\<close>; every step of either endpoint keeps it in both directions, and from it follow the
  properties of the protocol as a whole: what arrives is what was sent, and what is acknowledged has
  arrived.
\<close>

section \<open>Two endpoints and the network between them\<close>

text \<open>
  An endpoint with its history: what its application has written to and read from the connection,
  and every segment it has put on the network.
\<close>

record endpoint =
  ep_tc :: TCPConnection
  ep_wrote :: bytes
  ep_got :: bytes
  ep_sent :: "TCPSegment set"

definition endpoint_new :: "TCPConfig \<Rightarrow> WrappingInt32 \<Rightarrow> endpoint" where
  "endpoint_new cfg random =
     \<lparr>ep_tc = TCPConnection_new cfg random, ep_wrote = [], ep_got = [], ep_sent = {}\<rparr>"

text \<open>
  What an endpoint can do. The network may lose, repeat, delay and reorder the segments of the
  peer: any segment that the peer has ever sent may arrive at any time. The streams stay below
  \<open>2 ^ 31\<close> bytes, so that no old segment can be taken for a new one.
\<close>

inductive ep_step :: "endpoint \<Rightarrow> endpoint \<Rightarrow> endpoint \<Rightarrow> bool" for peer where
  connect: "tc_connect (ep_tc e) = Inr tc' \<Longrightarrow> ep_step peer e (e\<lparr>ep_tc := tc'\<rparr>)"
| put: "\<not> bs_end_input (tx_stream (tc_sender (ep_tc e))) \<Longrightarrow>
    length (ep_wrote e) + length data + 2 < 2 ^ 31 \<Longrightarrow> tc_write data (ep_tc e) = Inr (n, tc') \<Longrightarrow>
    ep_step peer e (e\<lparr>ep_tc := tc', ep_wrote := ep_wrote e @ take n data\<rparr>)"
| finish: "tc_end_input_stream (ep_tc e) = Inr tc' \<Longrightarrow> ep_step peer e (e\<lparr>ep_tc := tc'\<rparr>)"
| get: "tc_read n (ep_tc e) = Inr (d, tc') \<Longrightarrow>
    ep_step peer e (e\<lparr>ep_tc := tc', ep_got := ep_got e @ d\<rparr>)"
| tick: "ep_step peer e (e\<lparr>ep_tc := tc_tick ms (ep_tc e)\<rparr>)"
| send: "tc_segments_out (ep_tc e) = seg # segs \<Longrightarrow>
    ep_step peer e (e\<lparr>ep_tc := (ep_tc e)\<lparr>tc_segments_out := segs\<rparr>, ep_sent := insert seg (ep_sent e)\<rparr>)"
| receive: "seg \<in> ep_sent peer \<Longrightarrow> tc_segment_received seg (ep_tc e) = Inr tc' \<Longrightarrow>
    ep_step peer e (e\<lparr>ep_tc := tc'\<rparr>)"

text \<open>States that two parties can reach when either takes a step, in any order.\<close>

inductive two_party :: "('e \<Rightarrow> 'e \<Rightarrow> 'e \<Rightarrow> bool) \<Rightarrow> 'e \<Rightarrow> 'e \<Rightarrow> 'e \<Rightarrow> 'e \<Rightarrow> bool"
  for step a0 b0 where
  init: "two_party step a0 b0 a0 b0"
| left: "two_party step a0 b0 a b \<Longrightarrow> step b a a' \<Longrightarrow> two_party step a0 b0 a' b"
| right: "two_party step a0 b0 a b \<Longrightarrow> step a b b' \<Longrightarrow> two_party step a0 b0 a b'"

text \<open>
  A protocol keeps a relation between sender and receiver in both directions if a step of either
  party keeps both. \<open>link a b\<close> is what holds of the direction from \<open>a\<close> to \<open>b\<close>.
\<close>

locale linked_parties =
  fixes step :: "'e \<Rightarrow> 'e \<Rightarrow> 'e \<Rightarrow> bool" and link :: "'e \<Rightarrow> 'e \<Rightarrow> bool"
  assumes step_out: "link a b \<Longrightarrow> link b a \<Longrightarrow> step b a a' \<Longrightarrow> link a' b"
    and step_in: "link a b \<Longrightarrow> link b a \<Longrightarrow> step b a a' \<Longrightarrow> link b a'"
begin

lemma reachable_link:
  assumes "two_party step a0 b0 a b" and "link a0 b0" and "link b0 a0"
  shows "link a b \<and> link b a"
  using assms(1) by (induction rule: two_party.induct) (use assms(2,3) step_out step_in in blast)+

end

section \<open>The invariant of one direction\<close>

definition rx_fin_known :: "TCPReceiver \<Rightarrow> bool" where
  "rx_fin_known rx \<longleftrightarrow> sr_fin (rx_reassembler rx) \<noteq> None \<or> bs_end_input (rx_stream_out rx)"

definition link :: "endpoint \<Rightarrow> endpoint \<Rightarrow> bool" where
  "link a b \<longleftrightarrow>
     tc_inv (ep_wrote a) (ep_wrote b) (tx_isn (tc_sender (ep_tc b))) (ep_tc a) \<and>
     (\<forall>seg \<in> ep_sent a. emitted (ep_wrote a) (tc_sender (ep_tc a)) seg \<and>
        acks (tx_isn (tc_sender (ep_tc b))) (rx_abs_ackno (tc_receiver (ep_tc a))) seg) \<and>
     (rx_fin_known (tc_receiver (ep_tc b)) \<longrightarrow> bs_end_input (tx_stream (tc_sender (ep_tc a)))) \<and>
     tx_abs_ackno (tc_sender (ep_tc a)) \<le> rx_abs_ackno (tc_receiver (ep_tc b)) \<and>
     agrees (ep_wrote a) 0 (ep_got b) \<and>
     bs_bytes_read (rx_stream_out (tc_receiver (ep_tc b))) = length (ep_got b) \<and>
     length (ep_wrote a) + 2 < 2 ^ 31 \<and> rx_capacity (tc_receiver (ep_tc b)) + 2 ^ 31 < 2 ^ 64"

lemma rx_fin_known_set_error [simp]: "rx_fin_known (rx_set_error rx) = rx_fin_known rx"
proof -
  have "bs_end_input (rx_stream_out (rx_set_error rx)) = bs_end_input (rx_stream_out rx)"
    using rx_set_error_simps(10) [of rx] by (simp add: bs_input_ended_def)
  then show ?thesis by (simp add: rx_fin_known_def)
qed

text \<open>A receiver learns of the end of the stream only from a FIN.\<close>

lemma rx_fin_known_segment:
  assumes rx: "rx_sound S isn rx" and c: "carries S isn n seg" and lim: "length S + 2 < 2 ^ 31"
    and "rx_segment_received seg rx = Inr rx'" and "rx_fin_known rx'"
  shows "rx_fin_known rx \<or> th_fin (ts_header seg)"
proof (cases "\<not> rx_syn rx \<and> \<not> th_syn (ts_header seg)")
  case True
  then show ?thesis using assms(4,5) by (simp add: rx_segment_received_def)
next
  case False
  have big: "length S + 2 ^ 33 < 2 ^ 64" using lim by simp
  obtain u where u: "rx_segment_received seg rx = Inr u" "rx_syn u \<longleftrightarrow> rx_syn rx \<or> th_syn (ts_header seg)"
    "rx_syn u \<Longrightarrow> sr_push_substring (buf_str (ts_payload seg)) (n - 1)
       (th_fin (ts_header seg)) (rx_reassembler rx) = Inr (rx_reassembler u)"
    using rx_segment_received_spec [OF rx c big] carries_near [OF rx c lim] by metis
  then have push: "sr_push_substring (buf_str (ts_payload seg)) (n - 1)
      (th_fin (ts_header seg)) (rx_reassembler rx) = Inr (rx_reassembler rx')"
    using False assms(4) by auto
  have inv: "sr_inv (rx_reassembler rx)" using rx by (simp add: rx_sound_def sr_sound_def)
  have "n - 1 + length (buf_str (ts_payload seg)) \<le> length S + 1"
    using c by (auto simp: carries_def agrees_def ts_length_in_sequence_space_def)
  then have "n - 1 + length (buf_str (ts_payload seg)) < 2 ^ 64" using lim by simp
  from sr_push_substring_spec [OF inv this, of "th_fin (ts_header seg)"] push
  have "sr_fin (rx_reassembler rx') = (if th_fin (ts_header seg)
        then Some (n - 1 + length (buf_str (ts_payload seg))) else sr_fin (rx_reassembler rx))"
    "bs_end_input (sr_output (rx_reassembler rx')) \<longleftrightarrow> bs_end_input (sr_output (rx_reassembler rx)) \<or>
       (\<exists>k. sr_fin (rx_reassembler rx') = Some k \<and> k \<le> sr_next_pos (rx_reassembler rx'))"
    by (metis Inr_inject)+
  then show ?thesis using assms(5) by (auto simp: rx_fin_known_def rx_stream_out_def split: if_splits)
qed

lemma agrees_more: "agrees S i d \<Longrightarrow> agrees (S @ T) i d"
  by (auto simp: agrees_def)

lemma rx_sound_more:
  assumes "rx_sound S isn rx" and "\<not> rx_fin_known rx"
  shows "rx_sound (S @ T) isn rx"
  using assms agrees_more
  by (fastforce simp: rx_sound_def sr_sound_def sr_agree_def segs_agree_def rx_fin_known_def rx_stream_out_def
      split: if_splits)

lemma emitted_more:
  assumes "tx_inv S tx" and "\<not> bs_end_input (tx_stream tx)" and "emitted S tx seg"
  shows "emitted (S @ T) tx seg"
  using assms emitted_fin [OF assms(1)] carries_append unfolding emitted_def by blast

lemma rx_abs_ackno_le:
  assumes "rx_sound S isn rx"
  shows "rx_abs_ackno rx \<le> length S + 2"
  using rx_next_pos_le [OF assms] by (simp add: rx_abs_ackno_def)

section \<open>Every step keeps both directions\<close>

text \<open>
  A step of \<open>a\<close> that reads nothing and writes nothing: its connection moves on to \<open>tc'\<close>, whose
  acknowledged number the peer has reached and which knows of a FIN only if the peer has ended.
\<close>

definition moves :: "endpoint \<Rightarrow> endpoint \<Rightarrow> TCPConnection \<Rightarrow> bool" where
  "moves b a tc' \<longleftrightarrow>
     tc_inv (ep_wrote a) (ep_wrote b) (tx_isn (tc_sender (ep_tc b))) tc' \<and> tc_grows (ep_tc a) tc' \<and>
     tx_abs_ackno (tc_sender tc') \<le> rx_abs_ackno (tc_receiver (ep_tc b)) \<and>
     (rx_fin_known (tc_receiver tc') \<longrightarrow> bs_end_input (tx_stream (tc_sender (ep_tc b)))) \<and>
     bs_bytes_read (rx_stream_out (tc_receiver tc')) = bs_bytes_read (rx_stream_out (tc_receiver (ep_tc a)))"

lemma link_sent_mono:
  assumes "\<forall>seg \<in> M. emitted S (tc_sender tc) seg \<and> acks isn (rx_abs_ackno (tc_receiver tc)) seg"
    and "tc_grows tc tc'"
  shows "\<forall>seg \<in> M. emitted S (tc_sender tc') seg \<and> acks isn (rx_abs_ackno (tc_receiver tc')) seg"
  using assms emitted_mono acks_mono unfolding tc_grows_def by blast

lemma link_move:
  assumes "link a b" and "link b a" and "moves b a tc'"
  shows "link (a\<lparr>ep_tc := tc'\<rparr>) b" and "link b (a\<lparr>ep_tc := tc'\<rparr>)"
proof -
  have g: "tc_grows (ep_tc a) tc'" using assms(3) by (simp add: moves_def)
  have "\<forall>seg \<in> ep_sent a. emitted (ep_wrote a) (tc_sender tc') seg \<and>
      acks (tx_isn (tc_sender (ep_tc b))) (rx_abs_ackno (tc_receiver tc')) seg"
    using assms(1) unfolding link_def by (intro link_sent_mono [OF _ g]) blast
  then show "link (a\<lparr>ep_tc := tc'\<rparr>) b"
    using assms g by (simp add: link_def moves_def tc_grows_def)
  show "link b (a\<lparr>ep_tc := tc'\<rparr>)"
    using assms g by (auto simp: link_def moves_def tc_grows_def)
qed

lemma moves_local:
  assumes "link a b" and "link b a"
    and "tc_inv (ep_wrote a) (ep_wrote b) (tx_isn (tc_sender (ep_tc b))) tc'" and "tc_grows (ep_tc a) tc'"
    and "tc_receiver tc' = tc_receiver (ep_tc a) \<or> tc_receiver tc' = rx_set_error (tc_receiver (ep_tc a))"
    and "tx_abs_ackno (tc_sender tc') = tx_abs_ackno (tc_sender (ep_tc a))"
  shows "moves b a tc'"
  using assms by (auto simp: moves_def link_def)

lemma moves_receive:
  assumes "link a b" and "link b a" and "seg \<in> ep_sent b" and r: "tc_segment_received seg (ep_tc a) = Inr tc'"
  shows "moves b a tc'"
proof -
  let ?tc = "ep_tc a" and ?isn_b = "tx_isn (tc_sender (ep_tc b))" and ?isn_a = "tx_isn (tc_sender (ep_tc a))"
  have inv: "tc_inv (ep_wrote a) (ep_wrote b) ?isn_b ?tc" using assms(1) by (simp add: link_def)
  have rx: "rx_sound (ep_wrote b) ?isn_b (tc_receiver ?tc)" and tx: "tx_inv (ep_wrote a) (tc_sender ?tc)"
    using inv by (simp_all add: tc_inv_def)
  have invb: "tc_inv (ep_wrote b) (ep_wrote a) ?isn_a (ep_tc b)" using assms(2) by (simp add: link_def)
  then have rxb: "rx_sound (ep_wrote a) ?isn_a (tc_receiver (ep_tc b))" and txb: "tx_inv (ep_wrote b) (tc_sender (ep_tc b))"
    by (simp_all add: tc_inv_def)
  have lim: "length (ep_wrote b) + 2 < 2 ^ 31" "length (ep_wrote a) + 2 < 2 ^ 31"
    using assms(1,2) by (simp_all add: link_def)
  obtain n where c: "carries (ep_wrote b) ?isn_b n seg"
    "n + ts_length_in_sequence_space seg \<le> tx_next_seqno (tc_sender (ep_tc b))"
    using assms(2,3) unfolding link_def emitted_def by blast
  show ?thesis
  proof (cases "th_rst (ts_header seg)")
    case True
    then have tc': "tc' = tc_passive_close (?tc\<lparr>tc_time_since_last_segment_received := 0\<rparr>)"
      using r by (simp add: tc_segment_received_rst)
    obtain u where "tc_segment_received seg ?tc = Inr u" "tc_inv (ep_wrote a) (ep_wrote b) ?isn_b u" "tc_grows ?tc u"
      by (rule tc_segment_received_inv [OF inv c(1) lim(1)])
    with r show ?thesis
      by (intro moves_local [OF assms(1,2)]) (simp_all, simp_all add: tc' tc_passive_close_def)
  next
    case False
    have big: "length (ep_wrote b) + 2 ^ 33 < 2 ^ 64" using lim(1) by simp
    note near = carries_near [OF rx c(1) lim(1)]
    obtain u rx' where u: "tc_segment_received seg ?tc = Inr u" "tc_inv (ep_wrote a) (ep_wrote b) ?isn_b u"
      "tc_grows ?tc u" "rx_segment_received seg (tc_receiver ?tc) = Inr rx'" "tc_receiver u = rx'"
      "bs_bytes_read (rx_stream_out rx') = bs_bytes_read (rx_stream_out (tc_receiver ?tc))"
      "tx_abs_ackno (tc_sender u) = tx_abs_ackno (tc_sender ?tc) \<or>
       th_ack (ts_header seg) \<and> tx_abs_ackno (tc_sender u) =
         unwrap (th_ackno (ts_header seg)) ?isn_a (tx_abs_ackno (tc_sender ?tc))"
      using tc_segment_received_spec [OF inv c(1) big _ _ False] near by metis
    have "tx_abs_ackno (tc_sender u) \<le> rx_abs_ackno (tc_receiver (ep_tc b))"
    proof (cases "tx_abs_ackno (tc_sender u) = tx_abs_ackno (tc_sender ?tc)")
      case True
      then show ?thesis using assms(1) by (simp add: link_def)
    next
      case f: False
      then obtain k where k: "k \<le> rx_abs_ackno (tc_receiver (ep_tc b))" "th_ackno (ts_header seg) = wrap k ?isn_a"
        using u(7) assms(2,3) unfolding link_def acks_def by blast
      have "tx_abs_ackno (tc_sender ?tc) \<le> length (ep_wrote a) + 2"
        using tx_inv_bounds(1) [OF tx] tx by (auto simp: tx_inv_def)
      moreover have "k \<le> length (ep_wrote a) + 2" using k(1) rx_abs_ackno_le [OF rxb] by simp
      ultimately have "unwrap (wrap k ?isn_a) ?isn_a (tx_abs_ackno (tc_sender ?tc)) = k"
        using lim(2) by (intro unwrap_near) simp_all
      then show ?thesis using f u(7) k by simp
    qed
    moreover have "bs_end_input (tx_stream (tc_sender (ep_tc b)))" if "rx_fin_known rx'"
      using rx_fin_known_segment [OF rx c(1) lim(1) u(4) that] emitted_fin [OF txb c] assms(2)
      by (auto simp: link_def)
    ultimately show ?thesis using r u by (simp add: moves_def)
  qed
qed

lemma link_put:
  assumes "link a b" and "link b a" and "\<not> bs_end_input (tx_stream (tc_sender (ep_tc a)))"
    and lim: "length (ep_wrote a) + length data + 2 < 2 ^ 31" and w: "tc_write data (ep_tc a) = Inr (n, tc')"
  defines "a' \<equiv> a\<lparr>ep_tc := tc', ep_wrote := ep_wrote a @ take n data\<rparr>"
  shows "link a' b" and "link b a'"
proof -
  let ?isn_b = "tx_isn (tc_sender (ep_tc b))" and ?isn_a = "tx_isn (tc_sender (ep_tc a))"
  have inv: "tc_inv (ep_wrote a) (ep_wrote b) ?isn_b (ep_tc a)" using assms(1) by (simp add: link_def)
  then have tx: "tx_inv (ep_wrote a) (tc_sender (ep_tc a))" by (simp add: tc_inv_def)
  have "length (ep_wrote a) + length data + 2 ^ 33 < 2 ^ 64" using lim by simp
  from tc_write_spec [OF inv assms(3) this] w obtain
    i: "tc_inv (ep_wrote a @ take n data) (ep_wrote b) ?isn_b tc'" "tc_grows (ep_tc a) tc'"
      "tc_receiver tc' = tc_receiver (ep_tc a)" "tx_abs_ackno (tc_sender tc') = tx_abs_ackno (tc_sender (ep_tc a))"
    by (metis Inr_inject prod.inject)
  have fin: "\<not> rx_fin_known (tc_receiver (ep_tc b))" using assms(1,3) by (auto simp: link_def)
  have "\<forall>seg \<in> ep_sent a. emitted (ep_wrote a @ take n data) (tc_sender (ep_tc a)) seg \<and>
      acks ?isn_b (rx_abs_ackno (tc_receiver (ep_tc a))) seg"
    using assms(1) emitted_more [OF tx assms(3)] by (simp add: link_def)
  from link_sent_mono [OF this i(2)]
  have sent: "\<forall>seg \<in> ep_sent a. emitted (ep_wrote a @ take n data) (tc_sender tc') seg \<and>
      acks ?isn_b (rx_abs_ackno (tc_receiver tc')) seg" .
  have "length (take n data) \<le> length data" by simp
  then have len: "length (ep_wrote a @ take n data) + 2 < 2 ^ 31"
    unfolding length_append using lim by linarith
  show "link a' b"
    unfolding link_def a'_def using assms(1) i sent fin len agrees_more by (auto simp: link_def)
  have "tc_inv (ep_wrote b) (ep_wrote a @ take n data) ?isn_a (ep_tc b)"
    using assms(2) rx_sound_more [OF _ fin] by (simp add: link_def tc_inv_def)
  then show "link b a'"
    unfolding link_def a'_def using assms(2) i(2,3) by (simp add: link_def tc_grows_def)
qed

lemma rx_fin_known_read:
  assumes "rx_sound S isn rx" and "length S + rx_capacity rx < 2 ^ 64" and "rx_read n rx = Inr (d, rx')"
  shows "rx_fin_known rx' = rx_fin_known rx"
proof -
  let ?sr = "rx_reassembler rx"
  have "sr_inv ?sr" "sr_next_pos ?sr + sr_capacity ?sr < 2 ^ 64"
    using assms rx_next_pos_le [OF assms(1)] by (auto simp: rx_sound_def sr_sound_def)
  then obtain sr' where "sr_read n ?sr = Inr (take n (bs_contents (sr_output ?sr)), sr')" "sr_fin sr' = sr_fin ?sr"
    "bs_end_input (sr_output sr') = bs_end_input (sr_output ?sr)"
    by (rule sr_read_spec)
  then show ?thesis using assms(3) by (auto simp: rx_read_def rx_fin_known_def rx_stream_out_def)
qed

lemma link_get:
  assumes "link a b" and "link b a" and r: "tc_read n (ep_tc a) = Inr (d, tc')"
  defines "a' \<equiv> a\<lparr>ep_tc := tc', ep_got := ep_got a @ d\<rparr>"
  shows "link a' b" and "link b a'"
proof -
  let ?isn_b = "tx_isn (tc_sender (ep_tc b))"
  have inv: "tc_inv (ep_wrote a) (ep_wrote b) ?isn_b (ep_tc a)" using assms(1) by (simp add: link_def)
  have cap: "length (ep_wrote b) + rx_capacity (tc_receiver (ep_tc a)) < 2 ^ 64"
    using assms(2) by (simp add: link_def)
  from tc_read_spec [OF inv cap, of n] r obtain i: "tc_inv (ep_wrote a) (ep_wrote b) ?isn_b tc'"
    "tc_grows (ep_tc a) tc'" "tc_sender tc' = tc_sender (ep_tc a)"
    "agrees (ep_wrote b) (bs_bytes_read (rx_stream_out (tc_receiver (ep_tc a)))) d"
    "bs_bytes_read (rx_stream_out (tc_receiver tc')) = bs_bytes_read (rx_stream_out (tc_receiver (ep_tc a))) + length d"
    by (metis Inr_inject prod.inject)
  have sent: "\<forall>seg \<in> ep_sent a. emitted (ep_wrote a) (tc_sender tc') seg \<and> acks ?isn_b (rx_abs_ackno (tc_receiver tc')) seg"
    using assms(1) unfolding link_def by (intro link_sent_mono [OF _ i(2)]) blast
  show "link a' b" unfolding link_def a'_def using assms(1) i sent by (simp add: link_def)
  have "agrees (ep_wrote b) 0 (ep_got a @ d)"
    using assms(2) i(4) by (intro agrees_append) (simp_all add: link_def)
  moreover have "rx_fin_known (tc_receiver tc') = rx_fin_known (tc_receiver (ep_tc a))"
    by (rule rx_fin_known_read [OF _ cap]) (use inv r in \<open>auto simp: tc_inv_def tc_read_def bindE_eq_Inr\<close>)
  ultimately show "link b a'"
    unfolding link_def a'_def using assms(2) i by (simp add: link_def tc_grows_def)
qed

lemma link_send:
  assumes "link a b" and "link b a" and "tc_segments_out (ep_tc a) = seg # segs"
  defines "a' \<equiv> a\<lparr>ep_tc := (ep_tc a)\<lparr>tc_segments_out := segs\<rparr>, ep_sent := insert seg (ep_sent a)\<rparr>"
  shows "link a' b" and "link b a'"
  using assms(1-3) tc_inv_pop [OF _ assms(3)] unfolding a'_def by (auto simp: link_def tc_inv_def)

lemma ep_step_link:
  assumes "link a b" and "link b a" and "ep_step b a a'"
  shows "link a' b \<and> link b a'"
  using assms(3)
proof cases
  case (connect tc')
  have "tc_inv (ep_wrote a) (ep_wrote b) (tx_isn (tc_sender (ep_tc b))) (ep_tc a)" using assms(1) by (simp add: link_def)
  from tc_connect_spec [OF this] connect(2) have "moves b a tc'"
    by (metis Inr_inject moves_local [OF assms(1,2)])
  then show ?thesis using link_move [OF assms(1,2)] connect(1) by simp
next
  case (put data n tc')
  then show ?thesis using link_put [OF assms(1,2)] by simp
next
  case (finish tc')
  have "tc_inv (ep_wrote a) (ep_wrote b) (tx_isn (tc_sender (ep_tc b))) (ep_tc a)" using assms(1) by (simp add: link_def)
  from tc_end_input_spec [OF this] finish(2) have "moves b a tc'"
    by (metis Inr_inject moves_local [OF assms(1,2)])
  then show ?thesis using link_move [OF assms(1,2)] finish(1) by simp
next
  case (get n d tc')
  then show ?thesis using link_get [OF assms(1,2)] by simp
next
  case (tick ms)
  have "tc_inv (ep_wrote a) (ep_wrote b) (tx_isn (tc_sender (ep_tc b))) (ep_tc a)" using assms(1) by (simp add: link_def)
  from tc_tick_spec [OF this, of ms] have "moves b a (tc_tick ms (ep_tc a))"
    by (intro moves_local [OF assms(1,2)])
  then show ?thesis using link_move [OF assms(1,2)] tick by simp
next
  case (send seg segs)
  then show ?thesis using link_send [OF assms(1,2)] by simp
next
  case (receive seg tc')
  then show ?thesis using link_move [OF assms(1,2) moves_receive [OF assms(1,2)]] by simp
qed

interpretation tcp: linked_parties ep_step link
  by unfold_locales (use ep_step_link in blast)+

section \<open>End to end\<close>

definition cfg_ok :: "TCPConfig \<Rightarrow> bool" where
  "cfg_ok cfg \<longleftrightarrow> cfg_send_capacity cfg < 2 ^ 64 \<and> cfg_recv_capacity cfg + 2 ^ 31 < 2 ^ 64"

lemma link_new:
  assumes "cfg_ok ca" and "cfg_ok cb"
  shows "link (endpoint_new ca ra) (endpoint_new cb rb)"
proof -
  have "cfg_send_capacity ca < 2 ^ 64" "cfg_recv_capacity ca < 2 ^ 64" "cfg_recv_capacity cb + 2 ^ 31 < 2 ^ 64"
    using assms by (simp_all add: cfg_ok_def)
  then show ?thesis
    by (simp add: link_def endpoint_new_def tc_inv_new)
      (simp add: TCPConnection_new_def TCPReceiver_new_def TCPSender_new_def rx_fin_known_def rx_stream_out_def
        StreamReassembler_new_def sr_fin_def agrees_def)
qed

abbreviation tcp_run :: "TCPConfig \<Rightarrow> WrappingInt32 \<Rightarrow> TCPConfig \<Rightarrow> WrappingInt32 \<Rightarrow> endpoint \<Rightarrow> endpoint \<Rightarrow> bool" where
  "tcp_run ca ra cb rb \<equiv> two_party ep_step (endpoint_new ca ra) (endpoint_new cb rb)"

lemma tcp_run_link:
  assumes "cfg_ok ca" and "cfg_ok cb" and "tcp_run ca ra cb rb a b"
  shows "link a b" and "link b a"
  using tcp.reachable_link [OF assms(3) link_new link_new] assms(1,2) by blast+

text \<open>What a linked receiver holds of the stream.\<close>

lemma link_assembled:
  assumes "link a b" and "link b a"
  defines "got \<equiv> ep_got b @ bs_contents (tc_inbound_stream (ep_tc b))"
  shows "agrees (ep_wrote a) 0 got"
    and "length got = sr_next_pos (rx_reassembler (tc_receiver (ep_tc b)))"
    and "bs_end_input (tc_inbound_stream (ep_tc b)) \<Longrightarrow> ep_wrote a = got"
proof -
  let ?sr = "rx_reassembler (tc_receiver (ep_tc b))"
  have read: "agrees (ep_wrote a) 0 (ep_got b)" "bs_bytes_read (sr_output ?sr) = length (ep_got b)"
    using assms(1) by (simp_all add: link_def rx_stream_out_def)
  have sr: "sr_sound (ep_wrote a) ?sr" using assms(2) by (simp add: link_def tc_inv_def rx_sound_def)
  then have inv: "sr_inv ?sr" and "agrees (ep_wrote a) (0 + length (ep_got b)) (bs_contents (sr_output ?sr))"
    using read(2) by (simp_all add: sr_sound_def sr_agree_def)
  then show ag: "agrees (ep_wrote a) 0 got"
    using read(1) unfolding got_def tc_inbound_stream_def rx_stream_out_def by (intro agrees_append)
  show len: "length got = sr_next_pos ?sr"
    using sr_inv_bounds(7) [OF inv] read(2) by (simp add: got_def tc_inbound_stream_def rx_stream_out_def)
  show "ep_wrote a = got" if "bs_end_input (tc_inbound_stream (ep_tc b))"
    using that sr ag len by (simp add: sr_sound_def tc_inbound_stream_def rx_stream_out_def agrees_def)
qed

lemma link_delivers:
  assumes l: "link a b" "link b a"
  shows "prefix (ep_got b @ bs_contents (tc_inbound_stream (ep_tc b))) (ep_wrote a) \<and>
    (bs_eof (tc_inbound_stream (ep_tc b)) \<longrightarrow>
       ep_got b = ep_wrote a \<and> bs_end_input (tx_stream (tc_sender (ep_tc a))))"
proof -
  note g = link_assembled [OF l]
  have "sr_inv (rx_reassembler (tc_receiver (ep_tc b)))"
    using l(2) by (simp add: link_def tc_inv_def rx_sound_def sr_sound_def)
  note e = bs_eof_iff [OF sr_inv_bounds(1) [OF this]]
  have "prefix (ep_got b @ bs_contents (tc_inbound_stream (ep_tc b))) (ep_wrote a)"
    using g(1) by (metis agrees_eq drop0 take_is_prefix)
  moreover have "bs_end_input (tx_stream (tc_sender (ep_tc a)))" if "bs_end_input (tc_inbound_stream (ep_tc b))"
    using that l(1) by (auto simp: link_def rx_fin_known_def tc_inbound_stream_def)
  ultimately show ?thesis
    using g(3) e by (auto simp: tc_inbound_stream_def rx_stream_out_def)
qed

text \<open>A run in which the first application has written two bytes.\<close>

lemma run_written:
  "\<exists>a b. tcp_run TCPConfig_default 7 TCPConfig_default 9 a b \<and> ep_wrote a = [7, 8]"
proof -
  let ?a = "endpoint_new TCPConfig_default 7" and ?b = "endpoint_new TCPConfig_default 9"
  let ?tc = "TCPConnection_new TCPConfig_default 7"
  have s: "tc_sender ?tc = TCPSender_new DEFAULT_CAPACITY TIMEOUT_DFLT None 7"
    by (simp add: TCPConnection_new_def TCPConfig_default_def)
  have e: "\<not> bs_end_input (tx_stream (tc_sender ?tc))" "tc_remaining_outbound_capacity ?tc = 64000"
    by (simp_all add: s TCPSender_new_def tc_remaining_outbound_capacity_def bs_remaining_capacity_def sub64_id
        DEFAULT_CAPACITY_def)
  have "tc_inv [] [] 0 ?tc" by (rule tc_inv_new) (simp_all add: TCPConfig_default_def DEFAULT_CAPACITY_def)
  then obtain n tc' where "tc_write [7, 8] ?tc = Inr (n, tc')" "n = min (tc_remaining_outbound_capacity ?tc) 2"
    by (rule tc_write_spec [where data = "[7, 8]"]) (use e(1) in simp_all)
  then have "ep_step ?b ?a (?a\<lparr>ep_tc := tc', ep_wrote := ep_wrote ?a @ take 2 [7, 8]\<rparr>)"
    using e by (intro ep_step.put) (simp_all add: endpoint_new_def)
  then have "tcp_run TCPConfig_default 7 TCPConfig_default 9
      (?a\<lparr>ep_tc := tc', ep_wrote := ep_wrote ?a @ take 2 [7, 8]\<rparr>) ?b"
    by (rule two_party.left [OF two_party.init])
  then show ?thesis by (force simp: endpoint_new_def)
qed

lemma cfg_ok_default: "cfg_ok TCPConfig_default"
  by (simp add: cfg_ok_def TCPConfig_default_def DEFAULT_CAPACITY_def)

text \<open>C1: End to end, over a network that loses, repeats, delays and reorders segments at will, what
  an application has read from its connection, together with what waits for it there, is at every moment
  a prefix of what the other application has written; at the end of the stream (\<open>eof\<close>) it has read
  exactly what the other side wrote, and the other side had ended its stream.\<close>

theorem reliable_delivery:
  assumes "cfg_ok ca" and "cfg_ok cb" and "tcp_run ca ra cb rb a b"
  shows "prefix (ep_got b @ bs_contents (tc_inbound_stream (ep_tc b))) (ep_wrote a) \<and>
    (bs_eof (tc_inbound_stream (ep_tc b)) \<longrightarrow>
       ep_got b = ep_wrote a \<and> bs_end_input (tx_stream (tc_sender (ep_tc a)))) \<and>
    prefix (ep_got a @ bs_contents (tc_inbound_stream (ep_tc a))) (ep_wrote b) \<and>
    (bs_eof (tc_inbound_stream (ep_tc a)) \<longrightarrow>
       ep_got a = ep_wrote b \<and> bs_end_input (tx_stream (tc_sender (ep_tc b))))"
  using link_delivers [of a b] link_delivers [of b a] tcp_run_link [OF assms] by blast

theorem reliable_delivery_witness:
  "\<exists>a b. tcp_run TCPConfig_default 7 TCPConfig_default 9 a b \<and> ep_wrote a = [7, 8] \<and>
     prefix (ep_got b @ bs_contents (tc_inbound_stream (ep_tc b))) [7, 8]"
  using run_written reliable_delivery [OF cfg_ok_default cfg_ok_default] by metis

text \<open>C2: An acknowledgment is never ahead of the data: of the sequence numbers a sender holds
  acknowledged the receiver has assembled every one (SYN, the bytes of the stream, FIN); so a sender in
  state \<open>FIN_ACKED\<close> talks to a receiver that has the whole stream and its end.\<close>

theorem acknowledged_received:
  assumes "cfg_ok ca" and "cfg_ok cb" and "tcp_run ca ra cb rb a b"
  shows "tx_abs_ackno (tc_sender (ep_tc a)) \<le>
      length (ep_got b @ bs_contents (tc_inbound_stream (ep_tc b))) + 1 +
        (if bs_input_ended (tc_inbound_stream (ep_tc b)) then 1 else 0) \<and>
    (tx_state_summary (tc_sender (ep_tc a)) = tx_FIN_ACKED \<longrightarrow>
       ep_got b @ bs_contents (tc_inbound_stream (ep_tc b)) = ep_wrote a \<and>
       bs_input_ended (tc_inbound_stream (ep_tc b)))"
proof -
  note l = tcp_run_link [OF assms]
  note g = link_assembled [OF l]
  let ?tx = "tc_sender (ep_tc a)" and ?rx = "tc_receiver (ep_tc b)"
  have tx: "tx_inv (ep_wrote a) ?tx" using l(1) by (simp add: link_def tc_inv_def)
  have ack: "tx_abs_ackno ?tx \<le> rx_abs_ackno ?rx" using l(1) by (simp add: link_def)
  then have le: "tx_abs_ackno ?tx \<le> length (ep_got b @ bs_contents (tc_inbound_stream (ep_tc b))) + 1 +
      (if bs_input_ended (tc_inbound_stream (ep_tc b)) then 1 else 0)"
    unfolding g(2) by (auto simp: rx_abs_ackno_def tc_inbound_stream_def bs_input_ended_def split: if_splits)
  have "bs_end_input (tc_inbound_stream (ep_tc b))" if "tx_state_summary ?tx = tx_FIN_ACKED"
  proof -
    have "tx_next_seqno ?tx = length (ep_wrote a) + 2" "tx_bytes_in_flight ?tx = 0"
      using that tx_fin_sent_iff [OF tx] by (auto simp: tx_state_summary_def split: if_splits)
    then have "length (ep_wrote a) + 2 \<le> tx_abs_ackno ?tx"
      using tx by (simp add: tx_inv_def tx_base_def)
    then show ?thesis
      using le agrees_length [OF g(1)] by (auto simp: bs_input_ended_def split: if_splits)
  qed
  then show ?thesis using le g(3) by (auto simp: bs_input_ended_def)
qed

theorem acknowledged_received_witness:
  "\<exists>a b. tcp_run TCPConfig_default 7 TCPConfig_default 9 a b \<and> ep_wrote a = [7, 8] \<and>
     tx_abs_ackno (tc_sender (ep_tc a)) \<le>
       length (ep_got b @ bs_contents (tc_inbound_stream (ep_tc b))) + 1 +
         (if bs_input_ended (tc_inbound_stream (ep_tc b)) then 1 else 0)"
  using run_written acknowledged_received [OF cfg_ok_default cfg_ok_default] by metis

end
