(* ===== verification/Endpoint_Facts.thy ===== *)
theory Endpoint_Facts
  imports Reliable_Delivery
begin

text \<open>
  Two more facts about the endpoints of \<open>Reliable_Delivery\<close>, on which sockets rely: what ends the outbound stream, and
  that the headers of a connection's segments have no options.
\<close>

section \<open>The end of the outbound stream\<close>

text \<open>Only \<^verbatim>\<open>end_input_stream\<close> ends the outbound stream of a connection.\<close>

abbreviation tc_ended :: "TCPConnection \<Rightarrow> bool" where
  "tc_ended tc \<equiv> bs_end_input (tx_stream (tc_sender tc))"

lemma bs_read_ended: "bs_read n bs = Inr (d, bs') \<Longrightarrow> bs_end_input bs' = bs_end_input bs"
  by (auto simp: bs_read_def bs_pop_output_def bindE_eq_Inr Let_def)

lemma bs_write_ended: "bs_write d bs = (n, bs') \<Longrightarrow> bs_end_input bs' = bs_end_input bs"
  by (auto simp: bs_write_def Let_def)

lemma tx_send_stream [simp]:
  "tx_stream (tx_send_no_empty_segment seg tx) = tx_stream tx" "tx_stream (tx_send_empty_segment tx) = tx_stream tx"
  by (simp_all add: tx_send_no_empty_segment_def tx_send_empty_segment_def Let_def)

text \<open>What reading leaves as it is, sending leaves as it is.\<close>

lemma tx_fill_loop_stream:
  assumes "\<And>n s d s'. bs_read n s = Inr (d, s') \<Longrightarrow> f s' = f s"
  shows "tx_fill_loop tx = Inr tx' \<Longrightarrow> f (tx_stream tx') = f (tx_stream tx)"
proof (induction tx arbitrary: tx' rule: tx_fill_loop.induct)
  case (1 tx)
  show ?case
  proof (cases "sub64 (tx_next_seqno tx) (tx_abs_ackno tx) < tx_window tx \<and> \<not> bs_eof (tx_stream tx)")
    case False
    then show ?thesis using "1.prems"
      by (auto simp: tx_fill_loop.simps [of tx] Let_def split: if_splits)
  next
    case True
    let ?remain = "sub64 (tx_window tx) (sub64 (tx_next_seqno tx) (tx_abs_ackno tx))"
    obtain d s where r: "bs_read (min ?remain MAX_PAYLOAD_SIZE) (tx_stream tx) = Inr (d, s)"
      using "1.prems" True by (auto simp: tx_fill_loop.simps [of tx] Let_def split: sum.splits)
    show ?thesis
      using "1.prems" True r assms [OF r] "1.IH" [OF _ refl _ r refl refl refl]
      by (auto simp: tx_fill_loop.simps [of tx] Let_def split: if_splits)
  qed
qed

lemma tx_stream_kept:
  assumes f: "\<And>n s d s'. bs_read n s = Inr (d, s') \<Longrightarrow> f s' = f s"
  shows "tx_fill_window tx = Inr tx' \<Longrightarrow> f (tx_stream tx') = f (tx_stream tx)"
    and "tx_ack_received ackno win tx = Inr tx' \<Longrightarrow> f (tx_stream tx') = f (tx_stream tx)"
proof -
  have loop: "f (tx_stream tx') = f (tx_stream tx)" if "tx_fill_loop tx = Inr tx'" for tx tx'
    by (rule tx_fill_loop_stream [of f]) (use f that in blast)+
  show fill: "f (tx_stream tx') = f (tx_stream tx)" if "tx_fill_window tx = Inr tx'" for tx tx'
    using that by (auto simp: tx_fill_window_def dest!: loop split: if_splits)
  show "f (tx_stream tx') = f (tx_stream tx)" if "tx_ack_received ackno win tx = Inr tx'"
    using that by (auto simp: tx_ack_received_def Let_def dest!: fill split: if_splits prod.splits)
qed

lemma tc_send_segments_stream [simp]: "tx_stream (tc_sender (snd (tc_send_segments tc))) = tx_stream (tc_sender tc)"
  by (simp add: tc_send_segments_def split: prod.split)

lemma tc_stream_kept:
  assumes f: "\<And>n s d s'. bs_read n s = Inr (d, s') \<Longrightarrow> f s' = f s" and e: "\<And>s. f (bs_set_error s) = f s"
  shows "tc_fill_window tc = Inr (b, tc') \<Longrightarrow> f (tx_stream (tc_sender tc')) = f (tx_stream (tc_sender tc))"
    and "tc_segment_received seg tc = Inr tc' \<Longrightarrow> f (tx_stream (tc_sender tc')) = f (tx_stream (tc_sender tc))"
proof -
  have tx: "f (tx_stream tx') = f (tx_stream tx)"
    if "tx_fill_window tx = Inr tx' \<or> tx_ack_received ackno win tx = Inr tx'" for tx tx' ackno win
    using that tx_stream_kept [of f] f by blast
  show fill: "f (tx_stream (tc_sender tc')) = f (tx_stream (tc_sender tc))" if r: "tc_fill_window tc = Inr (b, tc')" for tc b tc'
  proof -
    obtain tx where "tx_fill_window (tc_sender tc) = Inr tx" "tc_send_segments (tc\<lparr>tc_sender := tx\<rparr>) = (b, tc')"
      using r by (auto simp: tc_fill_window_def bindE_eq_Inr)
    then show ?thesis using tx tc_send_segments_stream [of "tc\<lparr>tc_sender := tx\<rparr>"] by force
  qed
  have ack: "f (tx_stream tx') = f (tx_stream tx)" if "tx_ack_received ackno win tx = Inr tx'" for ackno win tx tx'
    using that tx by blast
  show "f (tx_stream (tc_sender tc')) = f (tx_stream (tc_sender tc))" if "tc_segment_received seg tc = Inr tc'"
    using that
    by (auto simp: tc_segment_received_def tc_passive_close_def e bindE_eq_Inr Let_def
        dest!: ack fill split: if_splits)
qed

lemma tc_fill_window_ended: "tc_fill_window tc = Inr (b, tc') \<Longrightarrow> tc_ended tc' = tc_ended tc"
  by (rule tc_stream_kept(1) [of bs_end_input]) (simp_all add: bs_read_ended)

lemma tc_segment_received_ended: "tc_segment_received seg tc = Inr tc' \<Longrightarrow> tc_ended tc' = tc_ended tc"
  by (rule tc_stream_kept(2) [of bs_end_input]) (simp_all add: bs_read_ended)

text \<open>Nothing changes the capacity of the outbound stream.\<close>

abbreviation tc_send_capacity :: "TCPConnection \<Rightarrow> size_t" where
  "tc_send_capacity tc \<equiv> bs_capacity (tx_stream (tc_sender tc))"

lemma bs_read_capacity: "bs_read n bs = Inr (d, bs') \<Longrightarrow> bs_capacity bs' = bs_capacity bs"
  by (auto simp: bs_read_def bs_pop_output_def bindE_eq_Inr Let_def)

lemma tc_fill_window_capacity: "tc_fill_window tc = Inr (b, tc') \<Longrightarrow> tc_send_capacity tc' = tc_send_capacity tc"
  by (rule tc_stream_kept(1) [of bs_capacity]) (simp_all add: bs_read_capacity)

lemma tc_segment_received_capacity: "tc_segment_received seg tc = Inr tc' \<Longrightarrow> tc_send_capacity tc' = tc_send_capacity tc"
  by (rule tc_stream_kept(2) [of bs_capacity]) (simp_all add: bs_read_capacity)

lemma tc_write_capacity: "tc_write d tc = Inr (n, tc') \<Longrightarrow> tc_send_capacity tc' = tc_send_capacity tc"
  by (auto simp: tc_write_def tx_write_def bs_write_def bindE_eq_Inr Let_def dest!: tc_fill_window_capacity
      split: if_splits)

lemma tc_end_input_capacity: "tc_end_input_stream tc = Inr tc' \<Longrightarrow> tc_send_capacity tc' = tc_send_capacity tc"
  by (auto simp: tc_end_input_stream_def tx_end_input_def bindE_eq_Inr dest!: tc_fill_window_capacity)

lemma tc_write_ended: "tc_write d tc = Inr (n, tc') \<Longrightarrow> tc_ended tc' = tc_ended tc"
  by (auto simp: tc_write_def tx_write_def bindE_eq_Inr Let_def dest!: tc_fill_window_ended bs_write_ended
      split: if_splits prod.splits)

lemma tc_tick_ended: "tc_ended (tc_tick ms tc) = tc_ended tc"
proof -
  have "bs_end_input (tx_stream (tx_tick ms tx)) = bs_end_input (tx_stream tx)" for tx
    by (auto simp: tx_tick_def Let_def split: prod.splits list.splits)
  then show ?thesis
    by (simp add: tc_tick_def tc_send_rst_segment_def tc_passive_close_def bs_set_error_def Let_def)
qed

lemma tc_read_ended: "tc_read n tc = Inr (d, tc') \<Longrightarrow> tc_ended tc' = tc_ended tc"
  by (auto simp: tc_read_def bindE_eq_Inr)

lemma tc_connect_ended: "tc_connect tc = Inr tc' \<Longrightarrow> tc_ended tc' = tc_ended tc"
  by (auto simp: tc_connect_def bindE_eq_Inr dest!: tc_fill_window_ended split: if_splits)
section \<open>Headers without options\<close>

text \<open>Every segment that a connection makes has a header of five words.\<close>

definition tx_doff :: "TCPSender \<Rightarrow> bool" where
  "tx_doff tx \<longleftrightarrow> (\<forall>seg \<in> set (tx_segments_out tx) \<union> set (tx_segments_track tx). th_doff (ts_header seg) = 5)"

definition tc_doff :: "TCPConnection \<Rightarrow> bool" where
  "tc_doff tc \<longleftrightarrow> tx_doff (tc_sender tc) \<and> (\<forall>seg \<in> set (tc_segments_out tc). th_doff (ts_header seg) = 5)"

lemma tx_doff_update [simp]:
  "tx_doff (tx\<lparr>tx_stream := s\<rparr>) = tx_doff tx" "tx_doff (tx\<lparr>tx_window_size := win\<rparr>) = tx_doff tx"
  by (simp_all add: tx_doff_def)

lemma segment_doff [simp]:
  "th_doff (ts_header TCPSegment_new) = 5" "th_doff (ts_header syn_segment) = 5" "th_doff (ts_header fin_segment) = 5"
  "th_doff (ts_header (tx_window_segment data stream remain)) = 5" "th_doff (set_ackno ackno h) = th_doff h"
  "th_doff (ts_header (tc_stamp rx seg)) = th_doff (ts_header seg)"
  by (simp_all add: TCPSegment_new_def TCPHeader_new_def TCPHeader_LENGTH_def syn_segment_def fin_segment_def
      tx_window_segment_def set_ackno_def tc_stamp_def Let_def split: option.split)

lemma tx_send_doff [simp]:
  "th_doff (ts_header seg) = 5 \<Longrightarrow> tx_doff (tx_send_no_empty_segment seg tx) = tx_doff tx"
  "tx_doff (tx_send_empty_segment tx) = tx_doff tx"
  by (auto simp: tx_doff_def tx_send_no_empty_segment_def tx_send_empty_segment_def Let_def)

lemma tx_fill_loop_doff: "tx_fill_loop tx = Inr tx' \<Longrightarrow> tx_doff tx \<Longrightarrow> tx_doff tx'"
proof (induction tx arbitrary: tx' rule: tx_fill_loop.induct)
  case (1 tx)
  show ?case
  proof (cases "sub64 (tx_next_seqno tx) (tx_abs_ackno tx) < tx_window tx \<and> \<not> bs_eof (tx_stream tx)")
    case False
    then show ?thesis using "1.prems"
      by (auto simp: tx_fill_loop.simps [of tx] Let_def split: if_splits)
  next
    case True
    let ?remain = "sub64 (tx_window tx) (sub64 (tx_next_seqno tx) (tx_abs_ackno tx))"
    obtain d s where r: "bs_read (min ?remain MAX_PAYLOAD_SIZE) (tx_stream tx) = Inr (d, s)"
      using "1.prems" True by (auto simp: tx_fill_loop.simps [of tx] Let_def split: sum.splits)
    show ?thesis
      using "1.prems" True r "1.IH" [OF _ refl _ r refl refl refl]
      by (auto simp: tx_fill_loop.simps [of tx] Let_def split: if_splits)
  qed
qed

lemma tx_fill_window_doff: "tx_fill_window tx = Inr tx' \<Longrightarrow> tx_doff tx \<Longrightarrow> tx_doff tx'"
  by (auto simp: tx_fill_window_def dest!: tx_fill_loop_doff split: if_splits)

lemma tx_ack_loop_set: "tx_ack_loop isn n segs f = (track, f') \<Longrightarrow> set track \<subseteq> set segs"
  by (induction isn n segs f rule: tx_ack_loop.induct) (auto simp: Let_def split: if_splits)

lemma tx_ack_received_doff:
  assumes "tx_ack_received ackno win tx = Inr tx'" and "tx_doff tx"
  shows "tx_doff tx'"
proof -
  obtain track f where l: "tx_ack_loop (tx_isn tx) (unwrap ackno (tx_isn tx) (tx_abs_ackno tx))
      (tx_segments_track tx) (tx_bytes_in_flight tx) = (track, f)" by fastforce
  have "tx_doff (tx\<lparr>tx_window_size := win, tx_abs_ackno := n, tx_segments_track := track,
      tx_bytes_in_flight := f, tx_timer := t\<rparr>)" for n t
    using assms(2) tx_ack_loop_set [OF l] by (auto simp: tx_doff_def)
  then show ?thesis
    using assms l by (auto simp: tx_ack_received_def Let_def dest: tx_fill_window_doff split: if_splits)
qed

lemma tx_tick_doff: "tx_doff tx \<Longrightarrow> tx_doff (tx_tick ms tx)"
  by (auto simp: tx_tick_def tx_doff_def Let_def split: prod.splits list.splits)

lemma tc_send_loop_doff:
  "snd (tc_send_loop rx segs out b) = out @ map (tc_stamp rx) segs"
  by (induction rx segs out b rule: tc_send_loop.induct) auto

lemma tc_send_segments_doff: "tc_doff tc \<Longrightarrow> tc_doff (snd (tc_send_segments tc))"
proof -
  obtain b segs where l: "tc_send_loop (tc_receiver tc) (tx_segments_out (tc_sender tc)) (tc_segments_out tc) False = (b, segs)"
    by fastforce
  assume "tc_doff tc"
  then show ?thesis
    using l tc_send_loop_doff [of "tc_receiver tc" "tx_segments_out (tc_sender tc)" "tc_segments_out tc" False]
    by (auto simp: tc_send_segments_def tc_doff_def tx_doff_def)
qed

lemma tc_test_end_doff [simp]: "tc_doff (tc_test_end tc) = tc_doff tc"
  by (simp add: tc_test_end_def tc_doff_def)

lemma tc_fill_window_doff: "tc_fill_window tc = Inr (b, tc') \<Longrightarrow> tc_doff tc \<Longrightarrow> tc_doff tc'"
  using tc_send_segments_doff [of "tc\<lparr>tc_sender := tx\<rparr>" for tx]
  by (fastforce simp: tc_fill_window_def bindE_eq_Inr tc_doff_def dest!: tx_fill_window_doff)

lemma tc_doff_update [simp]:
  "tc_doff (tc\<lparr>tc_sender := tx\<rparr>) = (tx_doff tx \<and> (\<forall>seg \<in> set (tc_segments_out tc). th_doff (ts_header seg) = 5))"
  "tc_doff (tc\<lparr>tc_receiver := rx\<rparr>) = tc_doff tc" "tc_doff (tc\<lparr>tc_time_since_last_segment_received := n\<rparr>) = tc_doff tc"
  "tc_doff (tc\<lparr>tc_active := x\<rparr>) = tc_doff tc" "tc_doff (tc_passive_close tc) = tc_doff tc"
  by (simp_all add: tc_doff_def tc_passive_close_def)

lemma tc_doff_sender: "tc_doff tc \<Longrightarrow> tx_doff (tc_sender tc) \<and> (\<forall>seg \<in> set (tc_segments_out tc). th_doff (ts_header seg) = 5)"
  by (simp add: tc_doff_def)

lemma tc_segment_received_doff:
  assumes "tc_segment_received seg tc = Inr tc'" and d: "tc_doff tc"
  shows "tc_doff tc'"
proof (cases "th_rst (ts_header seg)")
  case False
  define tc0 where "tc0 = tc\<lparr>tc_time_since_last_segment_received := 0\<rparr>"
  have d0: "tc_doff tc0" using d by (simp add: tc0_def)
  obtain rx tc2 tc4 where s: "(if th_ack (ts_header seg)
      then bindE (tx_ack_received (th_ackno (ts_header seg)) (th_win (ts_header seg)) (tc_sender (tc0\<lparr>tc_receiver := rx\<rparr>)))
        (\<lambda>tx. Inr (snd (tc_send_segments (tc0\<lparr>tc_receiver := rx, tc_sender := tx\<rparr>))))
      else Inr (tc0\<lparr>tc_receiver := rx\<rparr>)) = Inr tc2"
    "(if 0 < ts_length_in_sequence_space seg
      then bindE (tc_fill_window tc2) (\<lambda>(is_send, tc3).
        if \<not> is_send then Inr (snd (tc_send_segments (tc3\<lparr>tc_sender := tx_send_empty_segment (tc_sender tc3)\<rparr>)))
        else Inr tc3) else Inr tc2) = Inr tc4" "tc' = tc_test_end tc4"
    using assms(1) False unfolding tc_segment_received_def tc0_def [symmetric] by (auto simp: bindE_eq_Inr Let_def)
  have "tc_doff tc2"
    using s(1) d0 tc_doff_sender [OF d0] tx_ack_received_doff
    by (auto simp: bindE_eq_Inr split: if_splits intro!: tc_send_segments_doff)
  then have "tc_doff tc4"
    using s(2) tc_fill_window_doff
    by (fastforce simp: bindE_eq_Inr split: if_splits dest: tc_doff_sender intro!: tc_send_segments_doff)
  then show ?thesis by (simp add: s(3))
qed (use assms in \<open>auto simp: tc_segment_received_def Let_def\<close>)

lemma tc_tick_doff:
  assumes "tc_doff tc"
  shows "tc_doff (tc_tick ms tc)"
proof -
  define tc1 where "tc1 = tc\<lparr>tc_time_since_last_segment_received := u64 (tc_time_since_last_segment_received tc + ms),
    tc_sender := tx_tick ms (tc_sender tc)\<rparr>"
  have d: "tc_doff tc1" using tc_doff_sender [OF assms] tx_tick_doff by (simp add: tc1_def)
  have "tc_doff (tc_send_rst_segment tc2)" if "tc_doff tc2" for tc2
  proof -
    have "tx_segments_out (tx_send_empty_segment (tc_sender tc2)) \<noteq> []"
      by (simp add: tx_send_empty_segment_def Let_def)
    moreover have "tx_doff (tx_send_empty_segment (tc_sender tc2))" using that by (simp add: tc_doff_def)
    ultimately show ?thesis
      using that by (cases "tx_segments_out (tx_send_empty_segment (tc_sender tc2))")
        (auto simp: tc_send_rst_segment_def tc_doff_def tx_doff_def Let_def)
  qed
  then show ?thesis
    using d tc_send_segments_doff [OF d] unfolding tc_tick_def tc1_def [symmetric] by (simp add: Let_def)
qed

lemma ep_step_doff:
  assumes "ep_step b a a'" and "tc_doff (ep_tc a)"
  shows "tc_doff (ep_tc a')"
  using assms(1)
proof cases
  case (connect tc')
  then show ?thesis using assms(2) by (auto simp: tc_connect_def bindE_eq_Inr dest: tc_fill_window_doff split: if_splits)
next
  case (put data n tc')
  then show ?thesis
    using assms(2) tc_fill_window_doff tc_doff_sender [OF assms(2)]
    by (fastforce simp: tc_write_def tx_write_def bindE_eq_Inr Let_def split: if_splits prod.splits)
next
  case (finish tc')
  then show ?thesis
    using assms(2) tc_fill_window_doff tc_doff_sender [OF assms(2)]
    by (fastforce simp: tc_end_input_stream_def tx_end_input_def bindE_eq_Inr)
next
  case (get n d tc')
  then show ?thesis using assms(2) by (auto simp: tc_read_def bindE_eq_Inr)
next
  case (tick ms)
  then show ?thesis using assms(2) by (simp add: tc_tick_doff)
next
  case (send seg segs)
  then show ?thesis using assms(2) by (simp add: tc_doff_def)
next
  case (receive seg tc')
  then show ?thesis using assms(2) by (simp add: tc_segment_received_doff)
qed

lemma tc_doff_new: "tc_doff (TCPConnection_new cfg random)"
  by (simp add: tc_doff_def tx_doff_def TCPConnection_new_def TCPSender_new_def)

end
