(* ===== verification/Sponge_Socket.thy ===== *)
theory Sponge_Socket
  imports TCP_Adapters Event_Loop Endpoint_Facts
begin

unbundle bit_operations_syntax

text \<open>
  \<^verbatim>\<open>tcp_helpers/tcp_sponge_socket.hh\<close> and \<^verbatim>\<open>.cc\<close>: the socket that runs a \<^verbatim>\<open>TCPConnection\<close> under an event loop with
  four rules, between an adapter to the network and a pipe to the application. The rules satisfy the
  contract \<open>event_client\<close> of the event loop, and a socket implements an endpoint of \<open>Reliable_Delivery\<close>.
  \<open>Socket_Pair\<close> puts two sockets together.
\<close>

section \<open>Model\<close>

text \<open>
  The template parameter: the operations of an adapter with state \<open>'a\<close> on a system with state \<open>'o\<close>.
  They include the system calls on the adapter's descriptor.
\<close>

record ('a, 'o) AdaptT =
  ao_fd :: "'a \<Rightarrow> FDWrapper"
  ao_read :: "'a \<Rightarrow> 'o \<Rightarrow> exn + TCPSegment option \<times> 'a \<times> 'o"
  ao_write :: "TCPSegment \<Rightarrow> 'a \<Rightarrow> 'o \<Rightarrow> exn + 'a \<times> 'o"
  ao_tick :: "size_t \<Rightarrow> 'a \<Rightarrow> 'o \<Rightarrow> exn + 'a \<times> 'o"
  ao_config :: "FdAdapterConfig \<Rightarrow> 'a \<Rightarrow> 'a"
  ao_set_listening :: "bool \<Rightarrow> 'a \<Rightarrow> 'a"
  ao_get_config :: "'a \<Rightarrow> FdAdapterConfig"

text \<open>
  The system: calls on the two ends of the pipe to the application (\<open>True\<close> for the owner's end), the
  clock, and the flag by which the owner asks the thread to stop; and \<open>getnameinfo(3)\<close>, with which the messages on
  standard error print addresses. The messages themselves are left out, but printing an address may throw.
\<close>

record 'o system =
  os_read :: "'o sys_read"
  os_writev :: "'o sys_writev"
  os_shutdown :: "bool \<Rightarrow> shut_how \<Rightarrow> 'o \<Rightarrow> (int \<times> int) \<times> 'o"
  os_poll :: "'o sys_poll"
  os_timestamp_ms :: "'o \<Rightarrow> uint64_t \<times> 'o"
  os_abort :: "'o \<Rightarrow> bool"
  os_getnameinfo :: getnameinfo

record ('a, 'o) TCPSpongeSocket =
  so_owner :: FDWrapper
  so_thread_data :: FDWrapper
  so_datagram_adapter :: 'a
  so_tcp :: "TCPConnection option"
  so_inbound_shutdown :: bool
  so_outbound_shutdown :: bool
  so_fully_acked :: bool
  so_os :: 'o

definition so_connection :: "('a, 'o) TCPSpongeSocket \<Rightarrow> TCPConnection" where
  "so_connection s = the (so_tcp s)"

text \<open>The address of the peer, as the messages print it.\<close>

definition so_peer_string :: "('a, 'o) AdaptT \<Rightarrow> 'o system \<Rightarrow> ('a, 'o) TCPSpongeSocket \<Rightarrow> exn + string" where
  "so_peer_string ao sys s =
     addr_to_string (os_getnameinfo sys) (fc_destination (ao_get_config ao (so_datagram_adapter s)))"

text \<open>Rule 1: read from the network and give the segment to the connection.\<close>

definition so_rule1_callback ::
  "('a, 'o) AdaptT \<Rightarrow> 'o system \<Rightarrow> ('a, 'o) TCPSpongeSocket \<Rightarrow> exn + ('a, 'o) TCPSpongeSocket" where
  "so_rule1_callback ao sys s =
     bindE (ao_read ao (so_datagram_adapter s) (so_os s)) (\<lambda>(seg, ad, os).
     let s1 = s\<lparr>so_datagram_adapter := ad, so_os := os\<rparr>
     in bindE (case seg of None \<Rightarrow> Inr s1
               | Some seg \<Rightarrow> bindE (tc_segment_received seg (so_connection s1)) (\<lambda>tc. Inr (s1\<lparr>so_tcp := Some tc\<rparr>)))
          (\<lambda>s2. if fd_eof (so_thread_data s2) \<and> tc_bytes_in_flight (so_connection s2) = 0 \<and> \<not> so_fully_acked s2
                then bindE (so_peer_string ao sys s2) (\<lambda>_. Inr (s2\<lparr>so_fully_acked := True\<rparr>)) else Inr s2))"

definition so_rule1_interest :: "('a, 'o) TCPSpongeSocket \<Rightarrow> bool" where
  "so_rule1_interest s \<longleftrightarrow> tc_active (so_connection s)"

text \<open>Rule 2: read from the pipe into the outbound stream.\<close>

definition so_rule2_callback ::
  "('a, 'o) AdaptT \<Rightarrow> 'o system \<Rightarrow> ('a, 'o) TCPSpongeSocket \<Rightarrow> exn + ('a, 'o) TCPSpongeSocket" where
  "so_rule2_callback ao sys s =
     bindE (fd_read (os_read sys) (tc_remaining_outbound_capacity (so_connection s)) (so_thread_data s) (so_os s))
       (\<lambda>(data, fd, os).
     let len = length data
     in bindE (tc_write data (so_connection s)) (\<lambda>(amount_written, tc).
        if amount_written \<noteq> len
        then Inl (Runtime_error ''TCPConnection::write() accepted less than advertised length'')
        else
          let s1 = s\<lparr>so_thread_data := fd, so_os := os, so_tcp := Some tc\<rparr>
          in if fd_eof (so_thread_data s1)
             then bindE (tc_end_input_stream (so_connection s1)) (\<lambda>tc1.
                    let s2 = s1\<lparr>so_tcp := Some tc1, so_outbound_shutdown := True\<rparr>
                    in bindE (so_peer_string ao sys s2) (\<lambda>_. Inr s2))
             else Inr s1))"

definition so_rule2_interest :: "('a, 'o) TCPSpongeSocket \<Rightarrow> bool" where
  "so_rule2_interest s \<longleftrightarrow>
     tc_active (so_connection s) \<and> \<not> so_outbound_shutdown s \<and> 0 < tc_remaining_outbound_capacity (so_connection s)"

definition so_rule2_cancel :: "('a, 'o) TCPSpongeSocket \<Rightarrow> exn + ('a, 'o) TCPSpongeSocket" where
  "so_rule2_cancel s =
     bindE (tc_end_input_stream (so_connection s)) (\<lambda>tc. Inr (s\<lparr>so_tcp := Some tc, so_outbound_shutdown := True\<rparr>))"

text \<open>Rule 3: read from the inbound stream into the pipe. \<open>tc_pop\<close> is \<^verbatim>\<open>pop_output\<close> of the inbound stream.\<close>

definition tc_pop :: "size_t \<Rightarrow> TCPConnection \<Rightarrow> exn + TCPConnection" where
  "tc_pop n tc =
     bindE (bs_pop_output n (tc_inbound_stream tc)) (\<lambda>out.
       Inr (tc\<lparr>tc_receiver := (tc_receiver tc)\<lparr>rx_reassembler :=
                 (rx_reassembler (tc_receiver tc))\<lparr>sr_output := out\<rparr>\<rparr>\<rparr>))"

definition so_rule3_callback ::
  "('a, 'o) AdaptT \<Rightarrow> 'o system \<Rightarrow> ('a, 'o) TCPSpongeSocket \<Rightarrow> exn + ('a, 'o) TCPSpongeSocket" where
  "so_rule3_callback ao sys s =
     (let inbound = tc_inbound_stream (so_connection s);
          amount_to_write = min 65536 (bs_buffer_size inbound);
          buffer = bs_peek_output amount_to_write inbound
      in bindE (fd_write (os_writev sys) (bvl_of_string buffer) False (so_thread_data s) (so_os s))
           (\<lambda>(bytes_written, fd, os).
         bindE (tc_pop bytes_written (so_connection s)) (\<lambda>tc.
         let s1 = s\<lparr>so_thread_data := fd, so_os := os, so_tcp := Some tc\<rparr>;
             inbound1 = tc_inbound_stream (so_connection s1)
         in if bs_eof inbound1 \<or> bs_error inbound1
            then let (result, os1) = os_shutdown sys False SHUT_WR (so_os s1)
                 in bindE (sk_shutdown SHUT_WR result (so_thread_data s1)) (\<lambda>fd1.
                    let s2 = s1\<lparr>so_thread_data := fd1, so_os := os1, so_inbound_shutdown := True\<rparr>
                    in bindE (so_peer_string ao sys s2) (\<lambda>_. Inr s2))
            else Inr s1)))"

definition so_rule3_interest :: "('a, 'o) TCPSpongeSocket \<Rightarrow> bool" where
  "so_rule3_interest s \<longleftrightarrow>
     (let inbound = tc_inbound_stream (so_connection s)
      in \<not> bs_buffer_empty inbound \<or> ((bs_eof inbound \<or> bs_error inbound) \<and> \<not> so_inbound_shutdown s))"

text \<open>Rule 4: send the segments of the connection.\<close>

fun so_send_loop ::
  "('a, 'o) AdaptT \<Rightarrow> TCPSegment list \<Rightarrow> 'a \<Rightarrow> 'o \<Rightarrow> exn + 'a \<times> 'o" where
  "so_send_loop ao [] ad os = Inr (ad, os)"
| "so_send_loop ao (seg # segs) ad os =
     bindE (ao_write ao seg ad os) (\<lambda>(ad1, os1). so_send_loop ao segs ad1 os1)"

definition so_rule4_callback ::
  "('a, 'o) AdaptT \<Rightarrow> ('a, 'o) TCPSpongeSocket \<Rightarrow> exn + ('a, 'o) TCPSpongeSocket" where
  "so_rule4_callback ao s =
     bindE (so_send_loop ao (tc_segments_out (so_connection s)) (so_datagram_adapter s) (so_os s)) (\<lambda>(ad, os).
       Inr (s\<lparr>so_datagram_adapter := ad, so_os := os,
             so_tcp := Some ((so_connection s)\<lparr>tc_segments_out := []\<rparr>)\<rparr>))"

definition so_rule4_interest :: "('a, 'o) TCPSpongeSocket \<Rightarrow> bool" where
  "so_rule4_interest s \<longleftrightarrow> tc_segments_out (so_connection s) \<noteq> []"

text \<open>The four rules that \<^verbatim>\<open>_initialize_TCP\<close> adds; the default cancellation does nothing.\<close>

definition so_rules :: "('a, 'o) AdaptT \<Rightarrow> 'o system \<Rightarrow> ('a, 'o) TCPSpongeSocket Rule list" where
  "so_rules ao sys =
     el_add_rule (\<lambda>s. ao_fd ao (so_datagram_adapter s)) Out (so_rule4_callback ao) so_rule4_interest Inr
       (el_add_rule so_thread_data Out (so_rule3_callback ao sys) so_rule3_interest Inr
         (el_add_rule so_thread_data In (so_rule2_callback ao sys) so_rule2_interest so_rule2_cancel
           (el_add_rule (\<lambda>s. ao_fd ao (so_datagram_adapter s)) In (so_rule1_callback ao sys) so_rule1_interest Inr [])))"

definition so_poll :: "'o system \<Rightarrow> ('a, 'o) TCPSpongeSocket sys_poll" where
  "so_poll sys pollfds timeout_ms s =
     (let (result, os) = os_poll sys pollfds timeout_ms (so_os s) in (result, s\<lparr>so_os := os\<rparr>))"

definition TCP_TICK_MS :: int where
  "TCP_TICK_MS = 10"

text \<open>
  The body of the loop of \<^verbatim>\<open>_tcp_loop\<close>; its first result is false after the \<^verbatim>\<open>break\<close>. The loop itself may run
  for ever: \<open>fuel\<close> bounds the number of rounds, and \<open>None\<close> is a loop that has not ended by then.
\<close>

definition so_tcp_round ::
  "('a, 'o) AdaptT \<Rightarrow> 'o system \<Rightarrow> uint64_t \<Rightarrow> ('a, 'o) TCPSpongeSocket Rule list \<Rightarrow> ('a, 'o) TCPSpongeSocket \<Rightarrow>
   exn + bool \<times> uint64_t \<times> ('a, 'o) TCPSpongeSocket Rule list \<times> ('a, 'o) TCPSpongeSocket" where
  "so_tcp_round ao sys base_time rules s =
     bindE (el_wait_next_event (so_poll sys) TCP_TICK_MS rules s) (\<lambda>(ret, rules1, s1).
       if ret = Exit \<or> os_abort sys (so_os s1) then Inr (False, base_time, rules1, s1)
       else if tc_active (so_connection s1) then
         let (next_time, os) = os_timestamp_ms sys (so_os s1);
             tc = tc_tick (sub64 next_time base_time) (so_connection s1)
         in bindE (ao_tick ao (sub64 next_time base_time) (so_datagram_adapter s1) os) (\<lambda>(ad, os1).
              Inr (True, next_time, rules1, s1\<lparr>so_tcp := Some tc, so_datagram_adapter := ad, so_os := os1\<rparr>))
       else Inr (True, base_time, rules1, s1))"

fun so_tcp_loop ::
  "('a, 'o) AdaptT \<Rightarrow> 'o system \<Rightarrow> (('a, 'o) TCPSpongeSocket \<Rightarrow> bool) \<Rightarrow> nat \<Rightarrow> uint64_t \<Rightarrow>
   ('a, 'o) TCPSpongeSocket Rule list \<Rightarrow> ('a, 'o) TCPSpongeSocket \<Rightarrow>
   (exn + ('a, 'o) TCPSpongeSocket Rule list \<times> ('a, 'o) TCPSpongeSocket) option" where
  "so_tcp_loop ao sys condition 0 base_time rules s = None"
| "so_tcp_loop ao sys condition (Suc fuel) base_time rules s =
     (if \<not> condition s then Some (Inr (rules, s))
      else
        (case so_tcp_round ao sys base_time rules s of
           Inl e \<Rightarrow> Some (Inl e)
         | Inr (continue, base_time1, rules1, s1) \<Rightarrow>
             if continue then so_tcp_loop ao sys condition fuel base_time1 rules1 s1 else Some (Inr (rules1, s1))))"

definition so_start_loop ::
  "('a, 'o) AdaptT \<Rightarrow> 'o system \<Rightarrow> (('a, 'o) TCPSpongeSocket \<Rightarrow> bool) \<Rightarrow> nat \<Rightarrow>
   ('a, 'o) TCPSpongeSocket Rule list \<Rightarrow> ('a, 'o) TCPSpongeSocket \<Rightarrow>
   (exn + ('a, 'o) TCPSpongeSocket Rule list \<times> ('a, 'o) TCPSpongeSocket) option" where
  "so_start_loop ao sys condition fuel rules s =
     (let (base_time, os) = os_timestamp_ms sys (so_os s)
      in so_tcp_loop ao sys condition fuel base_time rules (s\<lparr>so_os := os\<rparr>))"

text \<open>
  \<^verbatim>\<open>connect\<close> and \<^verbatim>\<open>listen_and_accept\<close> up to the start of the thread. \<open>random\<close> is what the sender gets from the random device.
  \<open>so_then_print\<close> prints an address when a loop has ended.
\<close>

definition so_then_print :: "('x \<Rightarrow> exn + string) \<Rightarrow> (exn + 'x) option \<Rightarrow> (exn + 'x) option" where
  "so_then_print printed = map_option (\<lambda>r. bindE r (\<lambda>x. bindE (printed x) (\<lambda>_. Inr x)))"

definition so_connect ::
  "('a, 'o) AdaptT \<Rightarrow> 'o system \<Rightarrow> nat \<Rightarrow> TCPConfig \<Rightarrow> WrappingInt32 \<Rightarrow> FdAdapterConfig \<Rightarrow>
   ('a, 'o) TCPSpongeSocket \<Rightarrow>
   (exn + ('a, 'o) TCPSpongeSocket Rule list \<times> ('a, 'o) TCPSpongeSocket) option" where
  "so_connect ao sys fuel c_tcp random c_ad s =
     (if so_tcp s \<noteq> None then Some (Inl (Runtime_error ''connect() with TCPConnection already initialized''))
      else
        (case bindE (addr_to_string (os_getnameinfo sys) (fc_destination c_ad)) (\<lambda>_.
              tc_connect (TCPConnection_new c_tcp random)) of
           Inl e \<Rightarrow> Some (Inl e)
         | Inr tc \<Rightarrow>
             if st_not_equal (tc_state tc) (TCPState_of_state SYN_SENT)
             then Some (Inl (Runtime_error (''After TCPConnection::connect(), state was '' @ st_name (tc_state tc) @
                    '' but expected '' @ st_name (TCPState_of_state SYN_SENT))))
             else so_then_print (\<lambda>_. addr_to_string (os_getnameinfo sys) (fc_destination c_ad))
                    (so_start_loop ao sys (\<lambda>s. st_equal (tc_state (so_connection s)) (TCPState_of_state SYN_SENT)) fuel
                       (so_rules ao sys)
                       (s\<lparr>so_tcp := Some tc, so_datagram_adapter := ao_config ao c_ad (so_datagram_adapter s)\<rparr>))))"

definition so_listen_and_accept ::
  "('a, 'o) AdaptT \<Rightarrow> 'o system \<Rightarrow> nat \<Rightarrow> TCPConfig \<Rightarrow> WrappingInt32 \<Rightarrow> FdAdapterConfig \<Rightarrow>
   ('a, 'o) TCPSpongeSocket \<Rightarrow>
   (exn + ('a, 'o) TCPSpongeSocket Rule list \<times> ('a, 'o) TCPSpongeSocket) option" where
  "so_listen_and_accept ao sys fuel c_tcp random c_ad s =
     (if so_tcp s \<noteq> None
      then Some (Inl (Runtime_error ''listen_and_accept() with TCPConnection already initialized''))
      else
        so_then_print (\<lambda>(_, s). so_peer_string ao sys s)
          (so_start_loop ao sys
             (\<lambda>s. let st = tc_state (so_connection s)
                  in st_equal st (TCPState_of_state LISTEN) \<or> st_equal st (TCPState_of_state SYN_RCVD) \<or>
                     st_equal st (TCPState_of_state SYN_SENT)) fuel (so_rules ao sys)
             (s\<lparr>so_tcp := Some (TCPConnection_new c_tcp random),
                so_datagram_adapter := ao_set_listening ao True (ao_config ao c_ad (so_datagram_adapter s))\<rparr>)))"

text \<open>The thread's main function, up to its messages.\<close>

definition so_tcp_main ::
  "('a, 'o) AdaptT \<Rightarrow> 'o system \<Rightarrow> nat \<Rightarrow> ('a, 'o) TCPSpongeSocket Rule list \<Rightarrow> ('a, 'o) TCPSpongeSocket \<Rightarrow>
   (exn + ('a, 'o) TCPSpongeSocket) option" where
  "so_tcp_main ao sys fuel rules s =
     (if so_tcp s = None then Some (Inl (Runtime_error ''no TCP''))
      else
        (case so_start_loop ao sys (\<lambda>_. True) fuel rules s of
           None \<Rightarrow> None
         | Some (Inl e) \<Rightarrow> Some (Inl e)
         | Some (Inr (rules1, s1)) \<Rightarrow>
             let (result, os) = os_shutdown sys True SHUT_RDWR (so_os s1)
             in Some (bindE (sk_shutdown SHUT_RDWR result (so_owner s1)) (\<lambda>fd.
                  Inr (s1\<lparr>so_owner := fd, so_os := os, so_tcp := None\<rparr>)))))"

text \<open>
  Construction: \<^verbatim>\<open>socketpair(2)\<close> gives the two ends of the pipe, each is checked by the constructor of
  \<^verbatim>\<open>LocalStreamSocket\<close>, and the thread's end does not block.
\<close>

definition socket_pair_helper :: "(int \<times> int) \<times> int \<times> int \<Rightarrow> exn + FDWrapper \<times> FDWrapper" where
  "socket_pair_helper sys_socketpair =
     (let (result, fd0, fd1) = sys_socketpair
      in bindE (SystemCall ''socketpair'' result 0) (\<lambda>_.
         bindE (FDWrapper_new fd0) (\<lambda>a. bindE (FDWrapper_new fd1) (\<lambda>b. Inr (a, b)))))"

definition AF_UNIX :: int where
  "AF_UNIX = 1"

definition LocalStreamSocket_of_fd ::
  "(int \<Rightarrow> ((int \<times> int) \<times> int \<times> nat) \<times> ((int \<times> int) \<times> int \<times> nat)) \<Rightarrow> FDWrapper \<Rightarrow> exn + FDWrapper" where
  "LocalStreamSocket_of_fd sys_getsockopt fd =
     (let (so_domain, so_type) = sys_getsockopt (fd_num fd)
      in Socket_of_fd so_domain so_type AF_UNIX SOCK_STREAM fd)"

definition TCPSpongeSocket_new ::
  "(int \<times> int) \<times> int \<times> int \<Rightarrow> (int \<Rightarrow> ((int \<times> int) \<times> int \<times> nat) \<times> ((int \<times> int) \<times> int \<times> nat)) \<Rightarrow>
   int \<times> int \<Rightarrow> (32 word \<Rightarrow> int \<times> int) \<Rightarrow> 'a \<Rightarrow> 'o \<Rightarrow> exn + ('a, 'o) TCPSpongeSocket" where
  "TCPSpongeSocket_new sys_socketpair sys_getsockopt sys_getfl sys_setfl datagram_interface os =
     bindE (socket_pair_helper sys_socketpair) (\<lambda>(a, b).
     bindE (LocalStreamSocket_of_fd sys_getsockopt a) (\<lambda>owner.
     bindE (LocalStreamSocket_of_fd sys_getsockopt b) (\<lambda>thread_data.
     bindE (fd_set_blocking False sys_getfl sys_setfl) (\<lambda>_.
       Inr \<lparr>so_owner = owner, so_thread_data = thread_data, so_datagram_adapter = datagram_interface, so_tcp = None,
            so_inbound_shutdown = False, so_outbound_shutdown = False, so_fully_acked = False, so_os = os\<rparr>))))"

text \<open>The owner's \<^verbatim>\<open>wait_until_closed\<close>, up to the wait for the thread.\<close>

definition so_wait_until_closed ::
  "'o system \<Rightarrow> ('a, 'o) TCPSpongeSocket \<Rightarrow> exn + ('a, 'o) TCPSpongeSocket" where
  "so_wait_until_closed sys s =
     (let (result, os) = os_shutdown sys True SHUT_RDWR (so_os s)
      in bindE (sk_shutdown SHUT_RDWR result (so_owner s)) (\<lambda>fd. Inr (s\<lparr>so_owner := fd, so_os := os\<rparr>)))"

text \<open>
  The helper classes \<^verbatim>\<open>CS144TCPSocket\<close> and \<^verbatim>\<open>FullStackSocket\<close> connect with the same configuration but for their
  own address; \<open>port\<close> is random.
\<close>

definition helper_connect ::
  "libc \<Rightarrow> string \<Rightarrow> ('a, 'o) AdaptT \<Rightarrow> 'o system \<Rightarrow> nat \<Rightarrow> uint16_t \<Rightarrow> WrappingInt32 \<Rightarrow> Address \<Rightarrow>
   ('a, 'o) TCPSpongeSocket \<Rightarrow>
   (exn + ('a, 'o) TCPSpongeSocket Rule list \<times> ('a, 'o) TCPSpongeSocket) option" where
  "helper_connect lc ip ao sys fuel port random address s =
     (let tcp_config = TCPConfig_default\<lparr>cfg_rt_timeout := 100\<rparr>
      in case bindE (FdAdapterConfig_new lc) (\<lambda>multiplexer_config.
              bindE (Address_of_names (lc_getaddrinfo lc) ip (dec_string (unat port))) (\<lambda>source.
                Inr (multiplexer_config\<lparr>fc_source := source, fc_destination := address\<rparr>))) of
           Inl e \<Rightarrow> Some (Inl e)
         | Inr multiplexer_config \<Rightarrow> so_connect ao sys fuel tcp_config random multiplexer_config s)"

definition CS144TCPSocket_connect ::
  "libc \<Rightarrow> ('a, 'o) AdaptT \<Rightarrow> 'o system \<Rightarrow> nat \<Rightarrow> uint16_t \<Rightarrow> WrappingInt32 \<Rightarrow> Address \<Rightarrow>
   ('a, 'o) TCPSpongeSocket \<Rightarrow>
   (exn + ('a, 'o) TCPSpongeSocket Rule list \<times> ('a, 'o) TCPSpongeSocket) option" where
  "CS144TCPSocket_connect lc = helper_connect lc ''169.254.144.9''"

definition LOCAL_TAP_IP_ADDRESS :: string where
  "LOCAL_TAP_IP_ADDRESS = ''169.254.10.9''"

definition FullStackSocket_connect ::
  "libc \<Rightarrow> ('a, 'o) AdaptT \<Rightarrow> 'o system \<Rightarrow> nat \<Rightarrow> uint16_t \<Rightarrow> WrappingInt32 \<Rightarrow> Address \<Rightarrow>
   ('a, 'o) TCPSpongeSocket \<Rightarrow>
   (exn + ('a, 'o) TCPSpongeSocket Rule list \<times> ('a, 'o) TCPSpongeSocket) option" where
  "FullStackSocket_connect lc = helper_connect lc LOCAL_TAP_IP_ADDRESS"

text \<open>\<open>random\<close> holds the six bytes that the random device returns.\<close>

definition random_private_ethernet_address :: "bytes \<Rightarrow> EthernetAddress" where
  "random_private_ethernet_address random =
     (let addr = random;
          addr = addr[0 := addr ! 0 OR 2]
      in addr[0 := addr ! 0 AND 0xfe])"

text \<open>Such an address is that of one station and locally administered.\<close>

lemma random_private_ethernet_address_local:
  assumes "length random = 6"
  shows "length (random_private_ethernet_address random) = 6"
    and "\<not> bit (random_private_ethernet_address random ! 0) 0"
    and "bit (random_private_ethernet_address random ! 0) 1"
    and "random_private_ethernet_address random \<noteq> ETHERNET_BROADCAST"
proof -
  let ?a = "random_private_ethernet_address random"
  have a: "?a ! 0 = (random ! 0 OR 2) AND 0xfe" using assms by (simp add: random_private_ethernet_address_def)
  show "length ?a = 6" using assms by (simp add: random_private_ethernet_address_def)
  show 0: "\<not> bit (?a ! 0) 0" and "bit (?a ! 0) 1"
    unfolding a by (simp_all add: bit_simps)
  have "bit (ETHERNET_BROADCAST ! 0) 0" by (simp add: ETHERNET_BROADCAST_def)
  with 0 show "?a \<noteq> ETHERNET_BROADCAST" by auto
qed

section \<open>A socket is an endpoint\<close>

text \<open>
  What can be seen of the world around a socket: what the application has given to the pipe and the
  thread has read (\<open>source\<close>), what the thread has written there (\<open>sink\<close>), the segments on the wire that the
  adapter has sent (\<open>sent\<close>) and those that the network may deliver (\<open>net\<close>); and which states of the
  adapter are in order (\<open>adapter\<close>). A call behaves as its manual page says, or it fails, and then what is thrown is one of
  \<open>errors\<close>; what printing an address throws is one of them too. The application writes
  less than \<open>2 ^ 31\<close> bytes; and an adapter in order reads only segments of the network and sends nothing but what it is given, if
  with other ports and checksums, or throws one of \<open>errors\<close>.
\<close>

record ('a, 'o) world =
  wo_adapter :: "'a \<Rightarrow> bool"
  wo_source :: "'o \<Rightarrow> bytes"
  wo_sink :: "'o \<Rightarrow> bytes"
  wo_sent :: "'o \<Rightarrow> TCPSegment set"
  wo_net :: "'o \<Rightarrow> TCPSegment set"
  wo_errors :: "exn set"

definition same_io :: "('a, 'o) world \<Rightarrow> 'o \<Rightarrow> 'o \<Rightarrow> bool" where
  "same_io w os os' \<longleftrightarrow> wo_source w os' = wo_source w os \<and> wo_sink w os' = wo_sink w os \<and>
     wo_sent w os' = wo_sent w os \<and> wo_net w os' = wo_net w os"

definition same_net :: "('a, 'o) world \<Rightarrow> 'o \<Rightarrow> 'o \<Rightarrow> bool" where
  "same_net w os os' \<longleftrightarrow> wo_sent w os' = wo_sent w os \<and> wo_net w os' = wo_net w os"

definition honest_system :: "('a, 'o) world \<Rightarrow> 'o system \<Rightarrow> bool" where
  "honest_system w sys \<longleftrightarrow>
     (\<forall>n os. (\<exists>e \<in> wo_errors w. SystemCall_ssize_t ''read'' (fst (fst (os_read sys n os))) 0 = Inl e) \<or>
       (\<exists>len err str os'. os_read sys n os = (((int len, err), str), os') \<and> len \<le> n \<and> len \<le> length str \<and>
        wo_source w os' = wo_source w os @ take len str \<and> wo_sink w os' = wo_sink w os \<and> same_net w os os' \<and>
        (length (wo_source w os) + 2 < 2 ^ 31 \<longrightarrow> length (wo_source w os') + 2 < 2 ^ 31))) \<and>
     (\<forall>d os. (\<exists>e \<in> wo_errors w. SystemCall_ssize_t ''writev'' (fst (os_writev sys d os)) 0 = Inl e) \<or>
       (\<exists>n err os'. os_writev sys d os = ((int n, err), os') \<and> n \<le> length d \<and> (d \<noteq> [] \<longrightarrow> 0 < n) \<and>
        wo_sink w os' = wo_sink w os @ take n d \<and> wo_source w os' = wo_source w os \<and> same_net w os os')) \<and>
     (\<forall>own how os. (\<exists>e \<in> wo_errors w. SystemCall ''shutdown'' (fst (os_shutdown sys own how os)) 0 = Inl e) \<or>
       (\<exists>err os'. os_shutdown sys own how os = ((0, err), os') \<and> same_io w os os')) \<and>
     (\<forall>p t os. same_io w os (snd (os_poll sys p t os)) \<and>
        map pf_events (snd (fst (os_poll sys p t os))) = map pf_events p) \<and>
     (\<forall>os. same_io w os (snd (os_timestamp_ms sys os))) \<and>
     (\<forall>a. throws_only (wo_errors w) (addr_to_string (os_getnameinfo sys) a) (\<lambda>_. True))"

definition plain_segment :: "TCPSegment \<Rightarrow> bool" where
  "plain_segment seg \<longleftrightarrow> th_doff (ts_header seg) = 5 \<and> length (buf_str (ts_payload seg)) \<le> MAX_PAYLOAD_SIZE"

lemma plain_segment_fits: "plain_segment seg \<Longrightarrow> fits seg"
  by (simp add: plain_segment_def fits_def MAX_PAYLOAD_SIZE_def)

definition honest_adapter :: "('a, 'o) world \<Rightarrow> ('a, 'o) AdaptT \<Rightarrow> bool" where
  "honest_adapter w ao \<longleftrightarrow>
     (\<forall>ad os. wo_adapter w ad \<longrightarrow> throws_only (wo_errors w) (ao_read ao ad os) (\<lambda>(seg, ad', os'). wo_adapter w ad' \<and>
        same_io w os os' \<and> fd_read_count (ao_fd ao ad') \<noteq> fd_read_count (ao_fd ao ad) \<and>
        (\<forall>seg'. seg = Some seg' \<longrightarrow> seg' \<in> wo_net w os))) \<and>
     (\<forall>seg ad os. wo_adapter w ad \<longrightarrow> plain_segment seg \<longrightarrow>
        throws_only (wo_errors w) (ao_write ao seg ad os) (\<lambda>(ad', os'). wo_adapter w ad' \<and>
          wo_source w os' = wo_source w os \<and> wo_sink w os' = wo_sink w os \<and> wo_net w os' = wo_net w os \<and>
          (\<forall>seg' \<in> wo_sent w os'. seg' \<in> wo_sent w os \<or> same_segment seg seg'))) \<and>
     (\<forall>ms ad os. wo_adapter w ad \<longrightarrow>
        throws_only (wo_errors w) (ao_tick ao ms ad os) (\<lambda>(ad', os'). wo_adapter w ad' \<and> same_io w os os'))"

text \<open>What is on the wire are segments of an endpoint.\<close>

definition covers :: "TCPSegment set \<Rightarrow> TCPSegment set \<Rightarrow> bool" where
  "covers A B \<longleftrightarrow> (\<forall>seg \<in> B. \<exists>seg0 \<in> A. same_segment seg0 seg)"

text \<open>The endpoint \<open>a\<close>, with the peer \<open>b\<close>, that the socket implements.\<close>

definition represents :: "('a, 'o) world \<Rightarrow> endpoint \<Rightarrow> endpoint \<Rightarrow> ('a, 'o) TCPSpongeSocket \<Rightarrow> bool" where
  "represents w b a s \<longleftrightarrow> so_tcp s = Some (ep_tc a) \<and> wo_adapter w (so_datagram_adapter s) \<and>
     ep_wrote a = wo_source w (so_os s) \<and> ep_got a = wo_sink w (so_os s) \<and>
     covers (ep_sent a) (wo_sent w (so_os s)) \<and> covers (ep_sent b) (wo_net w (so_os s)) \<and> (tc_ended (ep_tc a) \<longrightarrow> so_outbound_shutdown s)"

definition implements ::
  "('a, 'o) world \<Rightarrow> (endpoint \<Rightarrow> endpoint \<Rightarrow> bool) \<Rightarrow> endpoint \<Rightarrow> endpoint \<Rightarrow> ('a, 'o) TCPSpongeSocket \<Rightarrow> bool" where
  "implements w run b a s \<longleftrightarrow> run a b \<and> represents w b a s"

text \<open>Runs, seen from one side: they go on with the steps of that side, and keep \<open>link\<close>.\<close>

definition side_run :: "(endpoint \<Rightarrow> endpoint \<Rightarrow> bool) \<Rightarrow> bool" where
  "side_run run \<longleftrightarrow> (\<forall>a b a'. run a b \<longrightarrow> ep_step b a a' \<longrightarrow> run a' b) \<and>
     (\<forall>a b. run a b \<longrightarrow> link a b \<and> link b a \<and> tc_doff (ep_tc a))"

definition so_inv ::
  "('a, 'o) world \<Rightarrow> ('a, 'o) AdaptT \<Rightarrow> 'o system \<Rightarrow> (endpoint \<Rightarrow> endpoint \<Rightarrow> bool) \<Rightarrow> endpoint \<Rightarrow>
   ('a, 'o) TCPSpongeSocket \<Rightarrow> bool" where
  "so_inv w ao sys run b s \<longleftrightarrow>
     honest_system w sys \<and> honest_adapter w ao \<and> side_run run \<and> (\<exists>a. implements w run b a s)"

lemma implementsI: "run a b \<Longrightarrow> represents w b a s \<Longrightarrow> implements w run b a s"
  by (simp add: implements_def)

lemmas implements_simps = implements_def represents_def

lemma side_run_step: "side_run run \<Longrightarrow> run a b \<Longrightarrow> ep_step b a a' \<Longrightarrow> run a' b"
  unfolding side_run_def by blast

lemma so_connection_Some [simp]: "so_tcp s = Some tc \<Longrightarrow> so_connection s = tc"
  by (simp add: so_connection_def)

lemma link_segment_received:
  assumes "link a b" and "link b a" and "seg \<in> ep_sent b"
  obtains tc' where "tc_segment_received seg (ep_tc a) = Inr tc'"
proof -
  have inv: "tc_inv (ep_wrote a) (ep_wrote b) (tx_isn (tc_sender (ep_tc b))) (ep_tc a)"
    and lim: "length (ep_wrote b) + 2 < 2 ^ 31"
    using assms(1,2) by (simp_all add: link_def)
  obtain n where "carries (ep_wrote b) (tx_isn (tc_sender (ep_tc b))) n seg"
    using assms(2,3) unfolding link_def emitted_def by blast
  from tc_segment_received_inv [OF inv this lim] show thesis using that by metis
qed

text \<open>Popping from the inbound stream is reading from it.\<close>

lemma link_pop:
  assumes "link a b" and "link b a"
  obtains tc' where "tc_read n (ep_tc a) = Inr (take n (bs_contents (tc_inbound_stream (ep_tc a))), tc')"
    and "tc_pop n (ep_tc a) = Inr tc'"
proof -
  let ?sr = "rx_reassembler (tc_receiver (ep_tc a))"
  have rx: "rx_sound (ep_wrote b) (tx_isn (tc_sender (ep_tc b))) (tc_receiver (ep_tc a))"
    and cap: "length (ep_wrote b) + rx_capacity (tc_receiver (ep_tc a)) < 2 ^ 64"
    using assms by (simp_all add: link_def tc_inv_def)
  have "sr_inv ?sr" "sr_next_pos ?sr + sr_capacity ?sr < 2 ^ 64"
    using cap rx_next_pos_le [OF rx] rx by (auto simp: rx_sound_def sr_sound_def)
  then obtain sr' where r: "sr_read n ?sr = Inr (take n (bs_contents (sr_output ?sr)), sr')"
    by (rule sr_read_spec)
  then obtain out where "bs_pop_output n (sr_output ?sr) = Inr out" "sr' = ?sr\<lparr>sr_output := out\<rparr>"
    by (auto simp: sr_read_def bs_read_def bindE_eq_Inr Let_def)
  with r show thesis
    by (intro that) (simp_all add: tc_read_def rx_read_def tc_pop_def tc_inbound_stream_def rx_stream_out_def)
qed

lemma link_inbound:
  assumes "link b a" and "link a b"
  shows "bs_buffer_size (tc_inbound_stream (ep_tc a)) = length (bs_contents (tc_inbound_stream (ep_tc a)))"
    and "bs_peek_output n (tc_inbound_stream (ep_tc a)) = take n (bs_contents (tc_inbound_stream (ep_tc a)))"
    and "length (bs_contents (tc_inbound_stream (ep_tc a))) < 2 ^ 64"
proof -
  have "sr_inv (rx_reassembler (tc_receiver (ep_tc a)))"
    using assms(2) by (simp add: link_def tc_inv_def rx_sound_def sr_sound_def)
  note b = sr_inv_bounds(1) [OF this] sr_inv_bounds(9) [OF this]
  show "bs_buffer_size (tc_inbound_stream (ep_tc a)) = length (bs_contents (tc_inbound_stream (ep_tc a)))"
    using b(2) by (simp add: tc_inbound_stream_def rx_stream_out_def)
  show "bs_peek_output n (tc_inbound_stream (ep_tc a)) = take n (bs_contents (tc_inbound_stream (ep_tc a)))"
    using b(1) by (simp add: tc_inbound_stream_def rx_stream_out_def bs_peek_output_eq)
  show "length (bs_contents (tc_inbound_stream (ep_tc a))) < 2 ^ 64"
    using b(1) by (simp add: tc_inbound_stream_def rx_stream_out_def bs_inv_def)
qed

section \<open>What the rules do\<close>

text \<open>A step that only moves the connection on.\<close>

lemma implements_tc:
  assumes "implements w run b a s" and "side_run run" and "ep_step b a (a\<lparr>ep_tc := tc'\<rparr>)"
    and "so_tcp s' = Some tc'" and "wo_adapter w (so_datagram_adapter s')" and "same_io w (so_os s) (so_os s')"
    and "tc_ended tc' \<longrightarrow> so_outbound_shutdown s'"
  shows "implements w run b (a\<lparr>ep_tc := tc'\<rparr>) s'"
  using assms side_run_step by (auto simp: implements_simps same_io_def)

lemma peer_string:
  "so_inv w ao sys run b s \<Longrightarrow> throws_only (wo_errors w) (so_peer_string ao sys t) (\<lambda>_. Q) \<longleftrightarrow>
    (Q \<or> (\<exists>e. so_peer_string ao sys t = Inl e))"
  unfolding so_inv_def honest_system_def so_peer_string_def throws_only_iff by (metis Inl_Inr_False)

lemma rule1_callback:
  assumes inv: "so_inv w ao sys run b s"
  shows "throws_only (wo_errors w) (so_rule1_callback ao sys s) (\<lambda>s'. so_inv w ao sys run b s' \<and>
    so_outbound_shutdown s' = so_outbound_shutdown s \<and>
    fd_read_count (ao_fd ao (so_datagram_adapter s')) \<noteq> fd_read_count (ao_fd ao (so_datagram_adapter s)))"
proof -
  obtain a where a: "implements w run b a s" and r: "side_run run" using inv by (auto simp: so_inv_def)
  have l: "link a b" "link b a" using a r by (auto simp: implements_simps side_run_def)
  have "wo_adapter w (so_datagram_adapter s)" and "honest_adapter w ao" using a inv by (simp_all add: implements_simps so_inv_def)
  then have "throws_only (wo_errors w) (ao_read ao (so_datagram_adapter s) (so_os s)) (\<lambda>(seg, ad, os). wo_adapter w ad \<and>
      same_io w (so_os s) os \<and> fd_read_count (ao_fd ao ad) \<noteq> fd_read_count (ao_fd ao (so_datagram_adapter s)) \<and>
      (\<forall>seg'. seg = Some seg' \<longrightarrow> seg' \<in> wo_net w (so_os s)))"
    unfolding honest_adapter_def by blast
  then show ?thesis
    unfolding so_rule1_callback_def throws_only_simps
  proof (rule throws_only_mono, clarify)
    fix seg ad os
    assume rd: "wo_adapter w ad" "same_io w (so_os s) os"
      "fd_read_count (ao_fd ao ad) \<noteq> fd_read_count (ao_fd ao (so_datagram_adapter s))"
      "\<forall>seg'. seg = Some seg' \<longrightarrow> seg' \<in> wo_net w (so_os s)"
    define s1 where "s1 = s\<lparr>so_datagram_adapter := ad, so_os := os\<rparr>"
    have tc: "so_tcp s = Some (ep_tc a)" using a by (simp add: implements_simps)
    have "\<exists>s2 a2. (case seg of None \<Rightarrow> Inr s1
        | Some seg \<Rightarrow> bindE (tc_segment_received seg (so_connection s1)) (\<lambda>tc. Inr (s1\<lparr>so_tcp := Some tc\<rparr>))) = Inr s2 \<and>
        implements w run b a2 s2 \<and> so_outbound_shutdown s2 = so_outbound_shutdown s \<and> so_datagram_adapter s2 = ad"
    proof (cases seg)
      case None
      then show ?thesis
        using a rd(1,2) by (intro exI [of _ s1] exI [of _ a]) (simp add: implements_simps same_io_def s1_def)
    next
      case (Some seg')
      then obtain seg0 where seg0: "seg0 \<in> ep_sent b" "same_segment seg0 seg'"
        using rd(4) a unfolding implements_simps covers_def by blast
      obtain tc' where t: "tc_segment_received seg0 (ep_tc a) = Inr tc'"
        by (rule link_segment_received [OF l seg0(1)])
      then have "tc_segment_received seg' (ep_tc a) = Inr tc'"
        using tc_segment_received_same [OF seg0(2)] by simp
      moreover have "implements w run b (a\<lparr>ep_tc := tc'\<rparr>) (s1\<lparr>so_tcp := Some tc'\<rparr>)"
        using a tc_segment_received_ended [OF t] rd(1,2)
        by (intro implements_tc [OF a r ep_step.receive [OF seg0(1) t]]) (simp_all add: s1_def implements_simps)
      ultimately show ?thesis
        using tc Some by (auto simp: s1_def)
    qed
    then obtain s2 a2 where s2: "(case seg of None \<Rightarrow> Inr s1
        | Some seg \<Rightarrow> bindE (tc_segment_received seg (so_connection s1)) (\<lambda>tc. Inr (s1\<lparr>so_tcp := Some tc\<rparr>))) = Inr s2"
      "implements w run b a2 s2" "so_outbound_shutdown s2 = so_outbound_shutdown s" "so_datagram_adapter s2 = ad"
      by blast
    have ok: "so_inv w ao sys run b s2" "so_inv w ao sys run b (s2\<lparr>so_fully_acked := True\<rparr>)"
      using s2(2) inv by (auto simp: so_inv_def implements_simps)
    show "throws_only (wo_errors w) (let s1 = s\<lparr>so_datagram_adapter := ad, so_os := os\<rparr>
        in bindE (case seg of None \<Rightarrow> Inr s1
             | Some seg \<Rightarrow> bindE (tc_segment_received seg (so_connection s1)) (\<lambda>tc. Inr (s1\<lparr>so_tcp := Some tc\<rparr>)))
          (\<lambda>s2. if fd_eof (so_thread_data s2) \<and> tc_bytes_in_flight (so_connection s2) = 0 \<and> \<not> so_fully_acked s2
                then bindE (so_peer_string ao sys s2) (\<lambda>_. Inr (s2\<lparr>so_fully_acked := True\<rparr>)) else Inr s2))
      (\<lambda>s'. so_inv w ao sys run b s' \<and> so_outbound_shutdown s' = so_outbound_shutdown s \<and>
        fd_read_count (ao_fd ao (so_datagram_adapter s')) \<noteq> fd_read_count (ao_fd ao (so_datagram_adapter s)))"
      unfolding Let_def s1_def [symmetric] s2(1) using ok rd(3) s2(3,4) by (simp add: peer_string [OF inv])
  qed
qed

lemma rule2_callback:
  assumes inv: "so_inv w ao sys run b s" and open_out: "\<not> so_outbound_shutdown s"
  shows "throws_only (wo_errors w) (so_rule2_callback ao sys s) (\<lambda>s'. so_inv w ao sys run b s' \<and>
    fd_read_count (so_thread_data s') = fd_read_count (so_thread_data s) + 1)"
proof -
  obtain a where a: "implements w run b a s" and r: "side_run run" using inv by (auto simp: so_inv_def)
  have l: "link a b" "link b a" using a r by (auto simp: implements_simps side_run_def)
  have tc: "so_tcp s = Some (ep_tc a)" and ne: "\<not> tc_ended (ep_tc a)"
    using a open_out by (auto simp: implements_simps)
  let ?n = "min BUFFER_SIZE (tc_remaining_outbound_capacity (ep_tc a))"
  consider e where "e \<in> wo_errors w" "SystemCall_ssize_t ''read'' (fst (fst (os_read sys ?n (so_os s)))) 0 = Inl e"
    | len err str os where "os_read sys ?n (so_os s) = (((int len, err), str), os)" "len \<le> ?n"
    "len \<le> length str" "wo_source w os = wo_source w (so_os s) @ take len str" "wo_sink w os = wo_sink w (so_os s)"
    "length (wo_source w (so_os s)) + 2 < 2 ^ 31 \<longrightarrow> length (wo_source w os) + 2 < 2 ^ 31" "same_net w (so_os s) os"
    using inv unfolding so_inv_def honest_system_def by metis
  then show ?thesis
  proof cases
    case 1
    then show ?thesis
      using tc by (simp add: so_rule2_callback_def fd_read_fails [of "os_read sys"])
  next
    case rd: 2
    let ?data = "take len str"
    define fd where "fd = fd_register_read (if 0 < tc_remaining_outbound_capacity (ep_tc a) \<and> int len = 0
      then (so_thread_data s)\<lparr>fd_eof := True\<rparr> else so_thread_data s)"
    have read: "fd_read (os_read sys) (tc_remaining_outbound_capacity (ep_tc a)) (so_thread_data s) (so_os s) =
        Inr (?data, fd, os)"
      using rd(1,2) by (simp add: fd_read_def fd_def Let_def not_less BUFFER_SIZE_def)
    have wrote: "ep_wrote a = wo_source w (so_os s)" using a by (simp add: implements_simps)
    have lim: "length (ep_wrote a) + length ?data + 2 < 2 ^ 31"
      using rd(3,4,6) wrote l(1) by (simp add: link_def)
    have inv_a: "tc_inv (ep_wrote a) (ep_wrote b) (tx_isn (tc_sender (ep_tc b))) (ep_tc a)" using l(1) by (simp add: link_def)
    have "length (ep_wrote a) + length ?data + 2 ^ 33 < 2 ^ 64" using lim by simp
    then obtain m tc' where w: "tc_write ?data (ep_tc a) = Inr (m, tc')"
      "m = min (tc_remaining_outbound_capacity (ep_tc a)) (length ?data)"
      by (rule tc_write_spec [OF inv_a ne])
    have m: "m = length ?data" using rd(2,3) w(2) by simp
    have tk: "take m ?data = ?data" unfolding m by (rule take_all) (rule order.refl)
    define a1 where "a1 = a\<lparr>ep_tc := tc', ep_wrote := ep_wrote a @ ?data\<rparr>"
    have run: "run a1 b"
      using side_run_step [OF r _ ep_step.put [OF ne lim w(1)]] a unfolding tk a1_def implements_simps by blast
    define s1 where "s1 = s\<lparr>so_thread_data := fd, so_os := os, so_tcp := Some tc'\<rparr>"
    have a1: "implements w run b a1 s1"
      using run a rd(4,5,7) ne tc_write_ended [OF w(1)] by (simp add: implements_simps same_net_def a1_def s1_def)
    have cnt: "fd_read_count fd = fd_read_count (so_thread_data s) + 1" by (simp add: fd_def fd_register_read_def)
    have ok: "so_inv w ao sys run b s1" using a1 inv unfolding so_inv_def by blast
    show ?thesis
    proof (cases "fd_eof fd")
      case False
      then show ?thesis
        using ok cnt tc read w(1) m by (auto simp: so_rule2_callback_def s1_def)
    next
      case True
      have l1: "link a1 b" using run r by (simp add: side_run_def)
      then have "tc_inv (ep_wrote a1) (ep_wrote b) (tx_isn (tc_sender (ep_tc b))) (ep_tc a1)" by (simp add: link_def)
      then obtain tc2 where e: "tc_end_input_stream tc' = Inr tc2"
        by (rule tc_end_input_spec) (use a1_def in simp)
      then have "ep_step b a1 (a1\<lparr>ep_tc := tc2\<rparr>)" by (intro ep_step.finish) (simp add: a1_def)
      from implements_tc [OF a1 r this, of "s1\<lparr>so_tcp := Some tc2, so_outbound_shutdown := True\<rparr>"]
      have "implements w run b (a1\<lparr>ep_tc := tc2\<rparr>) (s1\<lparr>so_tcp := Some tc2, so_outbound_shutdown := True\<rparr>)"
        using a1 by (simp add: same_io_def implements_simps)
      then have "so_inv w ao sys run b (s1\<lparr>so_tcp := Some tc2, so_outbound_shutdown := True\<rparr>)"
        using inv unfolding so_inv_def by blast
      then show ?thesis
        using cnt tc read w(1) m True e
        by (auto simp: so_rule2_callback_def s1_def so_connection_def peer_string [OF inv] Let_def)
    qed
  qed
qed

lemma rule2_cancel:
  assumes inv: "so_inv w ao sys run b s"
  shows "\<exists>s'. so_rule2_cancel s = Inr s' \<and> so_inv w ao sys run b s'"
proof -
  obtain a where a: "implements w run b a s" and r: "side_run run" using inv by (auto simp: so_inv_def)
  have "link a b" using a r by (auto simp: implements_simps side_run_def)
  then have "tc_inv (ep_wrote a) (ep_wrote b) (tx_isn (tc_sender (ep_tc b))) (ep_tc a)" by (simp add: link_def)
  then obtain tc' where e: "tc_end_input_stream (ep_tc a) = Inr tc'" by (rule tc_end_input_spec)
  have "implements w run b (a\<lparr>ep_tc := tc'\<rparr>) (s\<lparr>so_tcp := Some tc', so_outbound_shutdown := True\<rparr>)"
    using a by (intro implements_tc [OF a r ep_step.finish [OF e]]) (simp_all add: same_io_def implements_simps)
  moreover have "so_connection s = ep_tc a" using a by (simp add: implements_simps)
  ultimately show ?thesis using inv e by (auto simp: so_rule2_cancel_def so_inv_def)
qed

lemma rule3_callback:
  assumes inv: "so_inv w ao sys run b s"
  shows "throws_only (wo_errors w) (so_rule3_callback ao sys s) (\<lambda>s'. so_inv w ao sys run b s' \<and>
    so_outbound_shutdown s' = so_outbound_shutdown s \<and>
    fd_write_count (so_thread_data s') \<noteq> fd_write_count (so_thread_data s))"
proof -
  obtain a where a: "implements w run b a s" and r: "side_run run" and sys: "honest_system w sys"
    using inv by (auto simp: so_inv_def)
  have l: "link a b" "link b a" using a r by (auto simp: implements_simps side_run_def)
  have tc: "so_connection s = ep_tc a" using a by (simp add: implements_simps)
  define c where "c = bs_contents (tc_inbound_stream (ep_tc a))"
  note inb = link_inbound [OF l(2,1), folded c_def]
  define buf where "buf = take (min 65536 (length c)) c"
  have len: "length (concat [buf]) < 2 ^ 31" by (simp add: buf_def)
  consider e where "e \<in> wo_errors w" "SystemCall_ssize_t ''writev'' (fst (os_writev sys (concat [buf]) (so_os s))) 0 = Inl e"
    | n err os where "os_writev sys (concat [buf]) (so_os s) = ((int n, err), os)" "n \<le> length (concat [buf])"
    "concat [buf] \<noteq> [] \<longrightarrow> 0 < n" "wo_sink w os = wo_sink w (so_os s) @ take n (concat [buf])"
    "wo_source w os = wo_source w (so_os s)" "same_net w (so_os s) os"
    using sys unfolding honest_system_def by metis
  then show ?thesis
  proof cases
    case 1
    then have "fd_write (os_writev sys) (bvl_of_string buf) False (so_thread_data s) (so_os s) = Inl e"
      unfolding bvl_of_string_def by (intro fd_write_fails)
    then show ?thesis
      using 1(1) inb(1,2) by (simp add: so_rule3_callback_def tc Let_def flip: buf_def)
  next
    case w: 2
    let ?fd = "fd_register_write (so_thread_data s)"
    have "n < 2 ^ 31" "length (concat [buf]) < 2 ^ 63" using w(2) len by simp_all
    from write_once [where sys_writev = "os_writev sys" and buffer = "[buf]", OF w(1-3) this]
    have wr: "fd_write (os_writev sys) (bvl_of_string buf) False (so_thread_data s) (so_os s) = Inr (n, ?fd, os)"
      by (simp add: bvl_of_string_def)
    obtain tc' where p: "tc_read n (ep_tc a) = Inr (take n c, tc')" "tc_pop n (ep_tc a) = Inr tc'"
      unfolding c_def by (rule link_pop [OF l])
    have "n \<le> min 65536 (length c)" using w(2) by (simp add: buf_def)
    then have tk: "take n buf = take n c" by (simp add: buf_def min.absorb2)
    define s1 where "s1 = s\<lparr>so_thread_data := ?fd, so_os := os, so_tcp := Some tc'\<rparr>"
    define a1 where "a1 = a\<lparr>ep_tc := tc', ep_got := ep_got a @ take n c\<rparr>"
    have "run a1 b"
      using side_run_step [OF r _ ep_step.get [OF p(1)]] a by (simp add: implements_simps a1_def)
    moreover have "ep_tc a1 = tc'" "ep_wrote a1 = ep_wrote a" "ep_got a1 = ep_got a @ take n c" "ep_sent a1 = ep_sent a"
      by (simp_all add: a1_def)
    ultimately have s1: "implements w run b a1 s1"
      using a w(4-6) tk tc_read_ended [OF p(1)] by (simp add: implements_simps same_net_def s1_def)
    have ok1: "so_inv w ao sys run b s1" using s1 inv unfolding so_inv_def by blast
    have eq: "so_rule3_callback ao sys s = (if bs_eof (tc_inbound_stream tc') \<or> bs_error (tc_inbound_stream tc')
        then let (result, os1) = os_shutdown sys False SHUT_WR os
             in bindE (sk_shutdown SHUT_WR result ?fd) (\<lambda>fd1.
                let s2 = s1\<lparr>so_thread_data := fd1, so_os := os1, so_inbound_shutdown := True\<rparr>
                in bindE (so_peer_string ao sys s2) (\<lambda>_. Inr s2))
        else Inr s1)"
      using wr p(2) inb(1,2)
      by (simp add: so_rule3_callback_def tc s1_def Let_def flip: buf_def)
    consider e where "e \<in> wo_errors w" "SystemCall ''shutdown'' (fst (os_shutdown sys False SHUT_WR os)) 0 = Inl e"
      | err' os' where "os_shutdown sys False SHUT_WR os = ((0, err'), os')" "same_io w os os'"
      using sys unfolding honest_system_def by metis
    then show ?thesis
    proof cases
      case 1
      then show ?thesis
        using ok1 by (auto simp: eq s1_def fd_register_write_def sk_shutdown_def split: prod.split)
    next
      case sd: 2
      define s2 where "s2 = s1\<lparr>so_thread_data := fd_register_write ?fd, so_os := os', so_inbound_shutdown := True\<rparr>"
      have "implements w run b a1 s2"
        using s1 sd(2) by (simp add: implements_simps same_io_def s2_def s1_def)
      then have "so_inv w ao sys run b s2" using inv unfolding so_inv_def by blast
      moreover have "fd_write_count ?fd \<noteq> fd_write_count (so_thread_data s)"
        "fd_write_count (fd_register_write ?fd) \<noteq> fd_write_count (so_thread_data s)"
        by (simp_all add: fd_register_write_def)
      moreover have "so_rule3_callback ao sys s = (if bs_eof (tc_inbound_stream tc') \<or> bs_error (tc_inbound_stream tc')
          then bindE (so_peer_string ao sys s2) (\<lambda>_. Inr s2) else Inr s1)"
        using sd(1) by (simp add: eq sk_shutdown_def SystemCall_def s2_def Let_def)
      ultimately show ?thesis using ok1 by (simp add: peer_string [OF inv]) (simp add: s1_def s2_def)
    qed
  qed
qed

lemma queued_plain:
  assumes "run a b" and "side_run run" and "seg \<in> set (tc_segments_out (ep_tc a))"
  shows "plain_segment seg"
proof -
  have "link a b" "tc_doff (ep_tc a)" using assms(1,2) by (auto simp: side_run_def)
  then have "emitted (ep_wrote a) (tc_sender (ep_tc a)) seg" "th_doff (ts_header seg) = 5"
    using assms(3) by (simp_all add: link_def tc_inv_def tc_doff_def)
  then show ?thesis by (simp add: emitted_def plain_segment_def)
qed

lemma send_loop:
  assumes "honest_adapter w ao" and "side_run run" and "implements w run b a s"
    and "tc_segments_out (ep_tc a) = segs"
  shows "throws_only (wo_errors w) (so_send_loop ao segs (so_datagram_adapter s) (so_os s)) (\<lambda>(ad', os').
    \<exists>a'. implements w run b a' (s\<lparr>so_datagram_adapter := ad', so_os := os', so_tcp := Some ((ep_tc a)\<lparr>tc_segments_out := []\<rparr>)\<rparr>))"
  using assms(3,4)
proof (induction segs arbitrary: a s)
  case Nil
  then have "(ep_tc a)\<lparr>tc_segments_out := []\<rparr> = ep_tc a" by (cases "ep_tc a") simp
  then show ?case using Nil(1) by (auto simp: implements_simps intro!: exI [of _ a])
next
  case (Cons seg segs)
  have run: "run a b" and ok: "wo_adapter w (so_datagram_adapter s)" using Cons.prems(1) by (simp_all add: implements_simps)
  have "plain_segment seg" using queued_plain [OF run assms(2)] Cons.prems(2) by simp
  then have "throws_only (wo_errors w) (ao_write ao seg (so_datagram_adapter s) (so_os s)) (\<lambda>(ad1, os1). wo_adapter w ad1 \<and>
      wo_source w os1 = wo_source w (so_os s) \<and> wo_sink w os1 = wo_sink w (so_os s) \<and> wo_net w os1 = wo_net w (so_os s) \<and>
      (\<forall>seg' \<in> wo_sent w os1. seg' \<in> wo_sent w (so_os s) \<or> same_segment seg seg'))"
    using assms(1) ok unfolding honest_adapter_def by blast
  then show ?case
    unfolding so_send_loop.simps throws_only_simps
  proof (rule throws_only_mono, clarify)
    fix ad1 os1
    assume w: "wo_adapter w ad1" "wo_source w os1 = wo_source w (so_os s)" "wo_sink w os1 = wo_sink w (so_os s)"
      "wo_net w os1 = wo_net w (so_os s)" "\<forall>seg' \<in> wo_sent w os1. seg' \<in> wo_sent w (so_os s) \<or> same_segment seg seg'"
    let ?a = "a\<lparr>ep_tc := (ep_tc a)\<lparr>tc_segments_out := segs\<rparr>, ep_sent := insert seg (ep_sent a)\<rparr>"
    let ?s = "s\<lparr>so_datagram_adapter := ad1, so_os := os1, so_tcp := Some (ep_tc ?a)\<rparr>"
    have "run ?a b" by (rule side_run_step [OF assms(2) run ep_step.send [OF Cons.prems(2)]])
    moreover have "covers (insert seg (ep_sent a)) (wo_sent w os1)"
      using w(5) Cons.prems(1) unfolding implements_simps covers_def by blast
    ultimately have "implements w run b ?a ?s" using Cons.prems(1) w(1-4) by (simp add: implements_simps)
    from Cons.IH [OF this]
    show "throws_only (wo_errors w) (so_send_loop ao segs ad1 os1) (\<lambda>(ad', os').
        \<exists>a'. implements w run b a' (s\<lparr>so_datagram_adapter := ad', so_os := os', so_tcp := Some ((ep_tc a)\<lparr>tc_segments_out := []\<rparr>)\<rparr>))"
      by simp
  qed
qed

lemma rule4_callback:
  assumes inv: "so_inv w ao sys run b s"
  shows "throws_only (wo_errors w) (so_rule4_callback ao s) (\<lambda>s'. so_inv w ao sys run b s' \<and> \<not> so_rule4_interest s')"
proof -
  obtain a where a: "implements w run b a s" and r: "side_run run" and h: "honest_adapter w ao"
    using inv by (auto simp: so_inv_def)
  have tc: "so_connection s = ep_tc a" using a by (simp add: implements_simps)
  from send_loop [OF h r a refl] show ?thesis
    unfolding so_rule4_callback_def tc throws_only_simps
  proof (rule throws_only_mono, clarify)
    fix ad os a'
    let ?s = "s\<lparr>so_datagram_adapter := ad, so_os := os, so_tcp := Some ((ep_tc a)\<lparr>tc_segments_out := []\<rparr>)\<rparr>"
    assume "implements w run b a' ?s"
    then have "so_inv w ao sys run b ?s" using inv unfolding so_inv_def by blast
    then show "throws_only (wo_errors w) (Inr ?s) (\<lambda>s'. so_inv w ao sys run b s' \<and> \<not> so_rule4_interest s')"
      by (simp add: so_rule4_interest_def so_connection_def)
  qed
qed

lemma so_tick:
  assumes inv: "so_inv w ao sys run b s"
  shows "\<exists>t os. os_timestamp_ms sys (so_os s) = (t, os) \<and> so_inv w ao sys run b (s\<lparr>so_os := os\<rparr>) \<and>
    (\<forall>ms. throws_only (wo_errors w) (ao_tick ao ms (so_datagram_adapter s) os) (\<lambda>(ad, os1). so_inv w ao sys run b
        (s\<lparr>so_tcp := Some (tc_tick ms (so_connection s)), so_datagram_adapter := ad, so_os := os1\<rparr>)))"
proof -
  obtain a where a: "implements w run b a s" and r: "side_run run" and h: "honest_adapter w ao"
    and sys: "honest_system w sys"
    using inv by (auto simp: so_inv_def)
  have tc: "so_connection s = ep_tc a" using a by (simp add: implements_simps)
  obtain t os where t: "os_timestamp_ms sys (so_os s) = (t, os)" by fastforce
  then have io: "same_io w (so_os s) os" using sys unfolding honest_system_def by (metis snd_conv)
  then have "implements w run b a (s\<lparr>so_os := os\<rparr>)" using a by (simp add: implements_simps same_io_def)
  then have 1: "so_inv w ao sys run b (s\<lparr>so_os := os\<rparr>)" using inv unfolding so_inv_def by blast
  have "throws_only (wo_errors w) (ao_tick ao ms (so_datagram_adapter s) os) (\<lambda>(ad, os1). so_inv w ao sys run b
      (s\<lparr>so_tcp := Some (tc_tick ms (so_connection s)), so_datagram_adapter := ad, so_os := os1\<rparr>))" for ms
  proof -
    have "throws_only (wo_errors w) (ao_tick ao ms (so_datagram_adapter s) os) (\<lambda>(ad, os1). wo_adapter w ad \<and> same_io w os os1)"
      using h a unfolding honest_adapter_def implements_simps by blast
    then show ?thesis
    proof (rule throws_only_mono, clarify)
      fix ad os1
      assume k: "wo_adapter w ad" "same_io w os os1"
      have "implements w run b (a\<lparr>ep_tc := tc_tick ms (ep_tc a)\<rparr>)
          (s\<lparr>so_tcp := Some (tc_tick ms (so_connection s)), so_datagram_adapter := ad, so_os := os1\<rparr>)"
        using a io k tc by (intro implements_tc [OF a r ep_step.tick])
          (auto simp: same_io_def implements_simps tc_tick_ended)
      then show "so_inv w ao sys run b
          (s\<lparr>so_tcp := Some (tc_tick ms (so_connection s)), so_datagram_adapter := ad, so_os := os1\<rparr>)"
        using inv unfolding so_inv_def by blast
    qed
  qed
  with t 1 show ?thesis by blast
qed

section \<open>The rules under the event loop\<close>

text \<open>Rule 2 may only run while the outbound stream is open; the others at any time.\<close>

definition so_armed :: "('a, 'o) AdaptT \<Rightarrow> 'o system \<Rightarrow> ('a, 'o) TCPSpongeSocket Rule \<Rightarrow>
    ('a, 'o) TCPSpongeSocket \<Rightarrow> bool" where
  "so_armed ao sys r s \<longleftrightarrow> (r = so_rules ao sys ! 1 \<longrightarrow> \<not> so_outbound_shutdown s)"

lemma so_rules_eq:
  "so_rules ao sys =
     [\<lparr>ru_fd = (\<lambda>s. ao_fd ao (so_datagram_adapter s)), ru_direction = In, ru_callback = so_rule1_callback ao sys,
       ru_interest = so_rule1_interest, ru_cancel = Inr\<rparr>,
      \<lparr>ru_fd = so_thread_data, ru_direction = In, ru_callback = so_rule2_callback ao sys,
       ru_interest = so_rule2_interest, ru_cancel = so_rule2_cancel\<rparr>,
      \<lparr>ru_fd = so_thread_data, ru_direction = Out, ru_callback = so_rule3_callback ao sys,
       ru_interest = so_rule3_interest, ru_cancel = Inr\<rparr>,
      \<lparr>ru_fd = (\<lambda>s. ao_fd ao (so_datagram_adapter s)), ru_direction = Out, ru_callback = so_rule4_callback ao,
       ru_interest = so_rule4_interest, ru_cancel = Inr\<rparr>]"
  by (simp add: so_rules_def el_add_rule_def)

lemma so_rule2_cancel_not_Inr: "so_rule2_cancel \<noteq> (Inr :: ('a, 'o) TCPSpongeSocket \<Rightarrow> _)"
proof
  assume eq: "so_rule2_cancel = (Inr :: ('a, 'o) TCPSpongeSocket \<Rightarrow> _)"
  fix s :: "('a, 'o) TCPSpongeSocket"
  have "so_rule2_cancel (s\<lparr>so_outbound_shutdown := False\<rparr>) = Inr (s\<lparr>so_outbound_shutdown := False\<rparr>)"
    by (simp add: eq)
  then obtain tc where "s\<lparr>so_outbound_shutdown := False, so_tcp := Some tc, so_outbound_shutdown := True\<rparr> =
      s\<lparr>so_outbound_shutdown := False\<rparr>"
    by (auto simp: so_rule2_cancel_def bindE_eq_Inr)
  then have "so_outbound_shutdown (s\<lparr>so_outbound_shutdown := False, so_tcp := Some tc, so_outbound_shutdown := True\<rparr>) =
      so_outbound_shutdown (s\<lparr>so_outbound_shutdown := False\<rparr>)"
    by (rule arg_cong)
  then show False by simp
qed

lemma so_poll_io:
  assumes "so_inv w ao sys run b s"
  shows "so_inv w ao sys run b (snd (so_poll sys pollfds t s))"
    and "so_outbound_shutdown (snd (so_poll sys pollfds t s)) = so_outbound_shutdown s"
    and "map pf_events (snd (fst (so_poll sys pollfds t s))) = map pf_events pollfds"
proof -
  obtain r os where p: "os_poll sys pollfds t (so_os s) = (r, os)" by fastforce
  then have io: "same_io w (so_os s) os" and ev: "map pf_events (snd r) = map pf_events pollfds"
    using assms unfolding so_inv_def honest_system_def by (metis fst_conv snd_conv)+
  have "\<exists>a. implements w run b a (s\<lparr>so_os := os\<rparr>)"
    using assms io by (auto simp: so_inv_def implements_simps same_io_def)
  then show "so_inv w ao sys run b (snd (so_poll sys pollfds t s))"
    using assms p by (simp add: so_inv_def so_poll_def)
  show "so_outbound_shutdown (snd (so_poll sys pollfds t s)) = so_outbound_shutdown s"
    and "map pf_events (snd (fst (so_poll sys pollfds t s))) = map pf_events pollfds"
    using p ev by (simp_all add: so_poll_def)
qed

text \<open>No rule that comes before rule 2, and no other rule's cancellation, closes the outbound stream.\<close>

lemma so_rule_pairs:
  assumes "subseq [r, q] (so_rules ao sys)" and "q = so_rules ao sys ! 1"
  shows "r = so_rules ao sys ! 0"
  using assms so_rule2_cancel_not_Inr by (auto simp: so_rules_eq split: if_splits)

lemma so_rule_cancels:
  assumes "subseq [r, q] (so_rules ao sys) \<or> subseq [q, r] (so_rules ao sys)" and "q = so_rules ao sys ! 1"
  shows "ru_cancel r = Inr"
  using assms so_rule2_cancel_not_Inr by (auto simp: so_rules_eq split: if_splits)

lemma so_rules_cases:
  assumes "r \<in> set (so_rules ao sys)"
  obtains "r = so_rules ao sys ! 0" | "r = so_rules ao sys ! 1" | "r = so_rules ao sys ! 2" | "r = so_rules ao sys ! 3"
  using assms by (auto simp: so_rules_eq)

interpretation so: event_client "so_rules ao sys" "so_inv w ao sys run b" "so_armed ao sys" "so_poll sys" "wo_errors w"
  for ao sys w run b
proof
  fix r s
  assume "r \<in> set (so_rules ao sys)" and "ru_interest r s"
  then show "so_armed ao sys r s"
    using so_rule2_cancel_not_Inr by (auto simp: so_armed_def so_rules_eq so_rule2_interest_def)
next
  fix r s
  assume "r \<in> set (so_rules ao sys)" and inv: "so_inv w ao sys run b s" and arm: "so_armed ao sys r s"
  then have "throws_only (wo_errors w) (ru_callback r s) (\<lambda>s'. so_inv w ao sys run b s' \<and>
      (ru_service_count r s' \<noteq> ru_service_count r s \<or> \<not> ru_interest r s'))"
  proof (cases rule: so_rules_cases)
    case 1
    from rule1_callback [OF inv] show ?thesis unfolding 1 by (simp add: so_rules_eq ru_service_count_def) (erule throws_only_mono, simp)
  next
    case 2
    then have "\<not> so_outbound_shutdown s" using arm by (simp add: so_armed_def)
    from rule2_callback [OF inv this] show ?thesis unfolding 2 by (simp add: so_rules_eq ru_service_count_def) (erule throws_only_mono, simp)
  next
    case 3
    from rule3_callback [OF inv] show ?thesis unfolding 3 by (simp add: so_rules_eq ru_service_count_def) (erule throws_only_mono, simp)
  next
    case 4
    from rule4_callback [OF inv] show ?thesis unfolding 4 by (simp add: so_rules_eq ru_service_count_def) (erule throws_only_mono, simp)
  qed
  then show "(\<exists>e \<in> wo_errors w. ru_callback r s = Inl e) \<or> (\<exists>s'. ru_callback r s = Inr s' \<and> so_inv w ao sys run b s' \<and>
      (ru_service_count r s' \<noteq> ru_service_count r s \<or> \<not> ru_interest r s'))"
    by (simp only: throws_only_iff)
next
  fix r q s s'
  assume pair: "subseq [r, q] (so_rules ao sys)" and inv: "so_inv w ao sys run b s" and q: "so_armed ao sys q s"
    and cb: "ru_callback r s = Inr s'"
  show "so_armed ao sys q s'"
    unfolding so_armed_def
  proof
    assume q1: "q = so_rules ao sys ! 1"
    have "so_rule1_callback ao sys s = Inr s'" using so_rule_pairs [OF pair q1] cb by (simp add: so_rules_eq)
    then show "\<not> so_outbound_shutdown s'" using rule1_callback [OF inv] q q1 by (auto simp: so_armed_def)
  qed
next
  fix r s
  assume "r \<in> set (so_rules ao sys)" and inv: "so_inv w ao sys run b s"
  then show "\<exists>s'. ru_cancel r s = Inr s' \<and> so_inv w ao sys run b s'"
    using rule2_cancel [OF inv] by (auto simp: so_rules_eq)
next
  fix r q s s'
  assume pair: "subseq [r, q] (so_rules ao sys) \<or> subseq [q, r] (so_rules ao sys)" and q: "so_armed ao sys q s"
    and c: "ru_cancel r s = Inr s'"
  show "so_armed ao sys q s'"
    using so_rule_cancels [OF pair] c q by (auto simp: so_armed_def)
next
  fix s pollfds t
  assume inv: "so_inv w ao sys run b s"
  show "so_inv w ao sys run b (snd (so_poll sys pollfds t s))"
    and "map pf_events (snd (fst (so_poll sys pollfds t s))) = map pf_events pollfds"
    by (rule so_poll_io [OF inv])+
  show "so_armed ao sys r (snd (so_poll sys pollfds t s))" if "so_armed ao sys r s" for r
    using that by (simp add: so_armed_def so_poll_io(2) [OF inv])
qed

section \<open>The loop\<close>

abbreviation polled_error :: exn where
  "polled_error \<equiv> Runtime_error ''EventLoop: error on polled file descriptor''"

lemma so_round:
  assumes rules: "subseq rules (so_rules ao sys)" and inv: "so_inv w ao sys run b s"
  shows "throws_only (insert polled_error (wo_errors w)) (so_tcp_round ao sys t rules s)
    (\<lambda>(c, t', rules', s'). so_inv w ao sys run b s' \<and> subseq rules' (so_rules ao sys))"
proof (cases "el_wait_next_event (so_poll sys) TCP_TICK_MS rules s")
  case (Inl e)
  then show ?thesis using so.wait_client [OF assms, of TCP_TICK_MS] by (auto simp: so_tcp_round_def so.thrown_def)
next
  case (Inr r)
  then obtain ret rules1 s1 where e: "el_wait_next_event (so_poll sys) TCP_TICK_MS rules s = Inr (ret, rules1, s1)"
    and s1: "so_inv w ao sys run b s1" "subseq rules1 (so_rules ao sys)"
    using so.wait_client [OF assms, of TCP_TICK_MS] by auto
  obtain t1 os where t1: "os_timestamp_ms sys (so_os s1) = (t1, os)"
    "\<forall>ms. throws_only (wo_errors w) (ao_tick ao ms (so_datagram_adapter s1) os) (\<lambda>(ad, os1). so_inv w ao sys run b
      (s1\<lparr>so_tcp := Some (tc_tick ms (so_connection s1)), so_datagram_adapter := ad, so_os := os1\<rparr>))"
    using so_tick [OF s1(1)] by blast
  have "throws_only (wo_errors w) (ao_tick ao (sub64 t1 t) (so_datagram_adapter s1) os) (\<lambda>(ad, os1). so_inv w ao sys run b
      (s1\<lparr>so_tcp := Some (tc_tick (sub64 t1 t) (so_connection s1)), so_datagram_adapter := ad, so_os := os1\<rparr>))"
    using t1(2) by blast
  then show ?thesis
    using s1 by (cases "ao_tick ao (sub64 t1 t) (so_datagram_adapter s1) os") (auto simp: so_tcp_round_def e t1(1) Let_def)
qed

lemma so_loop:
  assumes "subseq rules (so_rules ao sys)" and "so_inv w ao sys run b s"
  shows "case so_tcp_loop ao sys condition fuel t rules s of None \<Rightarrow> True
    | Some r \<Rightarrow> throws_only (insert polled_error (wo_errors w)) r
        (\<lambda>(rules', s'). so_inv w ao sys run b s' \<and> subseq rules' (so_rules ao sys))"
  using assms
proof (induction fuel arbitrary: t rules s)
  case (Suc fuel)
  show ?case
  proof (cases "condition s")
    case True
    show ?thesis
    proof (cases "so_tcp_round ao sys t rules s")
      case (Inl e)
      then show ?thesis using so_round [OF Suc.prems, of t] True by simp
    next
      case (Inr x)
      obtain c t' rules' s' where x: "x = (c, t', rules', s')" by (cases x)
      then have "so_inv w ao sys run b s'" "subseq rules' (so_rules ao sys)"
        using so_round [OF Suc.prems, of t] Inr by simp_all
      then show ?thesis using True Inr x Suc.IH [of rules' s' t'] by (cases c) auto
    qed
  qed (use Suc.prems in simp)
qed simp

end
