(* ===== verification/UDP_Socket.thy ===== *)
theory UDP_Socket
  imports Sponge_Socket
begin

text \<open>
  The adapter \<^verbatim>\<open>TCPOverUDPSocketAdapter\<close> with its socket and the system calls it makes (\<^verbatim>\<open>tcp_helpers/fd_adapter.hh\<close> and
  \<^verbatim>\<open>.cc\<close>, \<^verbatim>\<open>util/socket.cc\<close>), as the template parameter of \<^verbatim>\<open>TCPSpongeSocket\<close>. It meets the contract of an adapter, so that what
  is relied on of a \<^verbatim>\<open>TCPOverUDPSpongeSocket\<close> are only the system calls and the C library.
\<close>

section \<open>Model\<close>

text \<open>\<open>recvfrom(2)\<close> is given the size of the buffer, \<open>sendmsg(2)\<close> the destination and the bytes.\<close>

record 'o udp_system =
  us_recvfrom :: "size_t \<Rightarrow> 'o \<Rightarrow> ((int \<times> int) \<times> bytes \<times> bytes \<times> size_t) \<times> 'o"
  us_sendmsg :: "Address \<Rightarrow> bytes \<Rightarrow> 'o \<Rightarrow> (int \<times> int) \<times> 'o"

record UDPAdapter =
  ua_base :: FdAdapterBase
  ua_sock :: FDWrapper

definition ua_read :: "'o udp_system \<Rightarrow> UDPAdapter \<Rightarrow> 'o \<Rightarrow> exn + TCPSegment option \<times> UDPAdapter \<times> 'o" where
  "ua_read us ad os =
     (let (call, os1) = us_recvfrom us 65536 os
      in bindE (sk_recv 65536 call (ua_sock ad)) (\<lambda>(datagram, sock).
           let (seg, base) = udp_read datagram (ua_base ad)
           in Inr (seg, ad\<lparr>ua_base := base, ua_sock := sock\<rparr>, os1)))"

definition ua_write :: "libc \<Rightarrow> 'o udp_system \<Rightarrow> TCPSegment \<Rightarrow> UDPAdapter \<Rightarrow> 'o \<Rightarrow> exn + UDPAdapter \<times> 'o" where
  "ua_write lc us seg ad os =
     bindE (udp_write lc seg (ua_base ad)) (\<lambda>(destination, payload).
       let (call, os1) = us_sendmsg us destination (bl_concatenate payload) os
       in bindE (sk_sendto call (bvl_of_bufferlist payload) (ua_sock ad)) (\<lambda>sock.
            Inr (ad\<lparr>ua_sock := sock\<rparr>, os1)))"

definition udp_adapter :: "libc \<Rightarrow> 'o udp_system \<Rightarrow> (UDPAdapter, 'o) AdaptT" where
  "udp_adapter lc us =
     \<lparr>ao_fd = ua_sock,
      ao_read = ua_read us,
      ao_write = ua_write lc us,
      ao_tick = (\<lambda>ms ad os. Inr (ad\<lparr>ua_base := fa_tick ms (ua_base ad)\<rparr>, os)),
      ao_config = (\<lambda>cfg ad. ad\<lparr>ua_base := fa_set_config cfg (ua_base ad)\<rparr>),
      ao_set_listening = (\<lambda>l ad. ad\<lparr>ua_base := fa_set_listening l (ua_base ad)\<rparr>),
      ao_get_config = (\<lambda>ad. fa_cfg (ua_base ad))\<rparr>"

section \<open>The contract\<close>

text \<open>
  The datagrams that the network may deliver (\<open>inn\<close>), each with the address it comes from, among which there may be some that
  are no segments; and those that \<open>sendmsg\<close> has accepted (\<open>out\<close>), in order, each with its destination. The calls behave
  as their manual pages say, or they fail, and then what is thrown is one of \<open>errors\<close>.
\<close>

definition segments_of :: "bytes set \<Rightarrow> TCPSegment set" where
  "segments_of ds = {seg. \<exists>d \<in> ds. ts_parse (buf_of_string d) 0 TCPSegment_new = (NoError, seg)}"

text \<open>An adapter in order has IPv4 socket addresses for both sides.\<close>

definition ua_ok :: "UDPAdapter \<Rightarrow> bool" where
  "ua_ok ad \<longleftrightarrow> (\<exists>ip port ip' port'. fc_source (fa_cfg (ua_base ad)) = socket_address ip port \<and>
     fc_destination (fa_cfg (ua_base ad)) = socket_address ip' port')"

definition udp_world ::
  "exn set \<Rightarrow> ('o \<Rightarrow> bytes) \<Rightarrow> ('o \<Rightarrow> bytes) \<Rightarrow> ('o \<Rightarrow> (Address \<times> bytes) set) \<Rightarrow> ('o \<Rightarrow> (Address \<times> bytes) list) \<Rightarrow>
   (UDPAdapter, 'o) world" where
  "udp_world errors source sink inn out =
     \<lparr>wo_adapter = ua_ok, wo_source = source, wo_sink = sink, wo_sent = (\<lambda>os. segments_of (snd ` set (out os))),
      wo_net = (\<lambda>os. segments_of (snd ` inn os)), wo_errors = errors\<rparr>"

definition honest_udp ::
  "exn set \<Rightarrow> ('o \<Rightarrow> bytes) \<Rightarrow> ('o \<Rightarrow> bytes) \<Rightarrow> ('o \<Rightarrow> (Address \<times> bytes) set) \<Rightarrow> ('o \<Rightarrow> (Address \<times> bytes) list) \<Rightarrow>
   'o udp_system \<Rightarrow> bool" where
  "honest_udp errors source sink inn out us \<longleftrightarrow>
     (\<forall>os. (\<exists>e \<in> errors. SystemCall_ssize_t ''recvfrom'' (fst (fst (us_recvfrom us 65536 os))) 0 = Inl e) \<or>
       (\<exists>n err buf ip port os'. us_recvfrom us 65536 os = (((int n, err), buf, sockaddr_in ip port, 16), os') \<and>
        n \<le> 65536 \<and> (socket_address ip port, take n buf) \<in> inn os \<and>
        source os' = source os \<and> sink os' = sink os \<and> inn os' = inn os \<and> out os' = out os)) \<and>
     (\<forall>dest d os. length d \<le> 65507 \<longrightarrow>
       (\<exists>e \<in> errors. SystemCall_ssize_t ''sendmsg'' (fst (us_sendmsg us dest d os)) 0 = Inl e) \<or>
       (\<exists>err os'. us_sendmsg us dest d os = ((int (length d), err), os') \<and>
        source os' = source os \<and> sink os' = sink os \<and> inn os' = inn os \<and> out os' = out os @ [(dest, d)]))"

text \<open>
  What a read makes of a datagram with payload \<open>d\<close> from the address \<open>a\<close>: a segment, if the payload parses as one and, when
  the adapter listens, has SYN and not RST; otherwise it must come from the configured destination. A listening adapter that has
  accepted a SYN takes its sender as the destination and listens no more.
\<close>

definition accepted_segment :: "FdAdapterBase \<Rightarrow> Address \<Rightarrow> bytes \<Rightarrow> TCPSegment option" where
  "accepted_segment base a d =
     (let (result, seg) = ts_parse (buf_of_string d) 0 TCPSegment_new
      in if result = NoError \<and>
            (if fa_listen base then th_syn (ts_header seg) \<and> \<not> th_rst (ts_header seg)
             else addr_equal a (fc_destination (fa_cfg base)))
         then Some seg else None)"

definition base_after :: "FdAdapterBase \<Rightarrow> Address \<Rightarrow> TCPSegment option \<Rightarrow> FdAdapterBase" where
  "base_after base a seg =
     (if fa_listen base \<and> seg \<noteq> None
      then base\<lparr>fa_cfg := (fa_cfg base)\<lparr>fc_destination := a\<rparr>, fa_listen := False\<rparr>
      else base)"

lemma udp_read_accepts:
  "udp_read \<lparr>rd_source_address = a, rd_payload = d\<rparr> base =
     (accepted_segment base a d, base_after base a (accepted_segment base a d))"
  by (auto simp: udp_read_def accepted_segment_def base_after_def addr_not_equal_def Let_def split: prod.split)

lemma Address_of_sockaddr: "Address_of_raw (sockaddr_in ip port) 16 = Inr (socket_address ip port)"
  by (simp add: Address_of_raw_def socket_address_def sizeof_sockaddr_storage_def sockaddr_in_def htobe32_def)

lemma accepted_segment_parses:
  "accepted_segment base a d = Some seg \<Longrightarrow> ts_parse (buf_of_string d) 0 TCPSegment_new = (NoError, seg)"
  by (auto simp: accepted_segment_def split: prod.splits if_splits)

lemma ua_ok_read:
  "ua_ok ad \<Longrightarrow> ua_ok (ad\<lparr>ua_base := base_after (ua_base ad) (socket_address ip port) seg, ua_sock := sock\<rparr>)"
  by (auto simp: ua_ok_def base_after_def)

lemma ua_read_honest:
  assumes "honest_udp errors source sink inn out us"
  shows "throws_only errors (ua_read us ad os) (\<lambda>(seg, ad', os').
    (\<exists>(a, d) \<in> inn os. seg = accepted_segment (ua_base ad) a d \<and>
       ad' = ad\<lparr>ua_base := base_after (ua_base ad) a seg, ua_sock := fd_register_read (ua_sock ad)\<rparr> \<and>
       (\<exists>ip port. a = socket_address ip port)) \<and>
    same_io (udp_world errors source sink inn out) os os')"
proof -
  consider e where "e \<in> errors" "SystemCall_ssize_t ''recvfrom'' (fst (fst (us_recvfrom us 65536 os))) 0 = Inl e"
    | n err buf ip port os' where "us_recvfrom us 65536 os = (((int n, err), buf, sockaddr_in ip port, 16), os')"
    "n \<le> 65536" "(socket_address ip port, take n buf) \<in> inn os"
    "source os' = source os \<and> sink os' = sink os \<and> inn os' = inn os \<and> out os' = out os"
    using assms unfolding honest_udp_def by metis
  then show ?thesis
  proof cases
    case 1
    obtain result rest os' where "us_recvfrom us 65536 os = ((result, rest), os')" by (metis prod.exhaust)
    with 1 show ?thesis by (simp add: ua_read_def sk_recv_def split: prod.split)
  next
    case r: 2
    let ?a = "socket_address ip port" and ?d = "take n buf"
    have "n < 2 ^ 31" using r(2) by simp
    then have "sk_recv 65536 ((int n, err), buf, sockaddr_in ip port, 16) (ua_sock ad) =
        Inr (\<lparr>rd_source_address = ?a, rd_payload = ?d\<rparr>, fd_register_read (ua_sock ad))"
      using r(2) by (simp add: sk_recv_def Address_of_sockaddr)
    then have "ua_read us ad os = Inr (accepted_segment (ua_base ad) ?a ?d,
        ad\<lparr>ua_base := base_after (ua_base ad) ?a (accepted_segment (ua_base ad) ?a ?d),
           ua_sock := fd_register_read (ua_sock ad)\<rparr>, os')"
      by (simp add: ua_read_def r(1) udp_read_accepts)
    moreover have "same_io (udp_world errors source sink inn out) os os'"
      using r(4) by (simp add: same_io_def udp_world_def)
    ultimately show ?thesis using r(3) by auto
  qed
qed

lemma ua_write_honest:
  assumes "honest_udp errors source sink inn out us" and "numeric_libc lc" and "plain_segment seg"
    and "fc_source (fa_cfg (ua_base ad)) = socket_address ip port"
    and "fc_destination (fa_cfg (ua_base ad)) = socket_address ip' port'"
  shows "throws_only errors (ua_write lc us seg ad os) (\<lambda>(ad', os').
    ad' = ad\<lparr>ua_sock := fd_register_write (ua_sock ad)\<rparr> \<and>
    source os' = source os \<and> sink os' = sink os \<and> inn os' = inn os \<and>
    (\<exists>d seg'. out os' = out os @ [(socket_address ip' port', d)] \<and>
       ts_parse (buf_of_string d) 0 TCPSegment_new = (NoError, seg') \<and> same_segment seg seg' \<and>
       th_sport (ts_header seg') = port \<and> th_dport (ts_header seg') = port'))"
proof -
  obtain d seg' where s: "udp_send lc seg (ua_base ad) = Inr d"
    "ts_parse (buf_of_string (rd_payload d)) 0 TCPSegment_new = (NoError, seg')" "same_segment seg seg'"
    "th_sport (ts_header seg') = port" "th_dport (ts_header seg') = port'"
    "length (rd_payload d) = 4 * unat (th_doff (ts_header seg)) + length (buf_str (ts_payload seg))"
    by (rule udp_write_spec [OF assms(2,4,5) plain_segment_fits [OF assms(3)]])
  then obtain bl where bl: "udp_write lc seg (ua_base ad) = Inr (socket_address ip' port', bl)"
    "rd_payload d = bl_concatenate bl"
    using assms(5) by (auto simp: udp_send_def udp_write_def bindE_eq_Inr)
  let ?d = "bl_concatenate bl"
  have len: "length ?d \<le> 65507"
    using s(6) bl(2) assms(3) by (simp add: plain_segment_def MAX_PAYLOAD_SIZE_def)
  then consider e where "e \<in> errors"
      "SystemCall_ssize_t ''sendmsg'' (fst (us_sendmsg us (socket_address ip' port') ?d os)) 0 = Inl e"
    | err os' where "us_sendmsg us (socket_address ip' port') ?d os = ((int (length ?d), err), os')"
      "source os' = source os \<and> sink os' = sink os \<and> inn os' = inn os"
      "out os' = out os @ [(socket_address ip' port', ?d)]"
    using assms(1) unfolding honest_udp_def by metis
  then show ?thesis
  proof cases
    case 1
    obtain result os' where "us_sendmsg us (socket_address ip' port') ?d os = (result, os')" by (metis prod.exhaust)
    with 1 bl(1) show ?thesis by (simp add: ua_write_def sk_sendto_def sendmsg_helper_def)
  next
    case call: 2
    have "concat (bvl_of_bufferlist bl) = ?d" by (simp add: bvl_of_bufferlist_def bl_bytes_def)
    moreover have "length ?d < 2 ^ 31" using len by simp
    ultimately have "sk_sendto (int (length ?d), err) (bvl_of_bufferlist bl) (ua_sock ad) =
        Inr (fd_register_write (ua_sock ad))"
      by (simp add: sk_sendto_def sendmsg_helper_def)
    then have "ua_write lc us seg ad os = Inr (ad\<lparr>ua_sock := fd_register_write (ua_sock ad)\<rparr>, os')"
      unfolding ua_write_def using bl(1) call(1) by simp
    then show ?thesis using call(2,3) s(2-5) bl(2) by simp
  qed
qed

lemma udp_honest:
  assumes "numeric_libc lc" and "honest_udp errors source sink inn out us"
  shows "honest_adapter (udp_world errors source sink inn out) (udp_adapter lc us)"
proof -
  let ?w = "udp_world errors source sink inn out"
  have r: "throws_only errors (ua_read us ad os) (\<lambda>(seg, ad', os'). ua_ok ad' \<and> same_io ?w os os' \<and>
      fd_read_count (ua_sock ad') \<noteq> fd_read_count (ua_sock ad) \<and>
      (\<forall>seg'. seg = Some seg' \<longrightarrow> seg' \<in> segments_of (snd ` inn os)))" if "ua_ok ad" for ad os
    by (rule throws_only_mono [OF ua_read_honest [OF assms(2)]])
      (use that in \<open>force dest!: accepted_segment_parses simp: fd_register_read_def segments_of_def intro: ua_ok_read\<close>)
  have s: "throws_only errors (ua_write lc us seg ad os) (\<lambda>(ad', os'). ua_ok ad' \<and> source os' = source os \<and>
      sink os' = sink os \<and> segments_of (snd ` inn os') = segments_of (snd ` inn os) \<and>
      (\<forall>seg' \<in> segments_of (snd ` set (out os')). seg' \<in> segments_of (snd ` set (out os)) \<or> same_segment seg seg'))"
    if ok: "ua_ok ad" and pl: "plain_segment seg" for seg ad os
  proof -
    obtain ip port ip' port' where "fc_source (fa_cfg (ua_base ad)) = socket_address ip port"
      "fc_destination (fa_cfg (ua_base ad)) = socket_address ip' port'"
      using ok by (auto simp: ua_ok_def)
    from ua_write_honest [OF assms(2,1) pl this] show ?thesis
      by (rule throws_only_mono) (use ok in \<open>force simp: ua_ok_def segments_of_def\<close>)
  qed
  show ?thesis
    using r s unfolding honest_adapter_def
    by (simp add: udp_adapter_def) (auto simp: udp_world_def same_io_def fa_tick_def)
qed

section \<open>An example world\<close>

text \<open>
  An application that gives two bytes to the pipe, one at a time, and then ends; a network that delivers the
  datagrams of a list in turn, or else an empty one; every descriptor is always ready.
\<close>

record example_os =
  xo_source :: bytes
  xo_sink :: bytes
  xo_out :: "(Address \<times> bytes) list"
  xo_in :: "bytes list"

definition example_read :: "example_os sys_read" where
  "example_read n os =
     (let d = (if length (xo_source os) < 2 then take n [42] else [])
      in (((int (length d), 0), d), os\<lparr>xo_source := xo_source os @ d\<rparr>))"

definition example_system :: "example_os system" where
  "example_system =
     \<lparr>os_read = example_read,
      os_writev = (\<lambda>d os. ((int (length d), 0), os\<lparr>xo_sink := xo_sink os @ d\<rparr>)),
      os_shutdown = (\<lambda>own how os. ((0, 0), os)),
      os_poll = (\<lambda>p t os. (((int (length p), 0), map (\<lambda>f. f\<lparr>pf_revents := pf_events f\<rparr>) p), os)),
      os_timestamp_ms = (\<lambda>os. (0, os)),
      os_abort = (\<lambda>os. False),
      os_getnameinfo = lc_getnameinfo example_libc\<rparr>"

definition example_udp :: "example_os udp_system" where
  "example_udp =
     \<lparr>us_recvfrom = (\<lambda>n os. case xo_in os of
          [] \<Rightarrow> (((0, 0), [], sockaddr_in 2 99, 16), os)
        | d # ds \<Rightarrow> if length d \<le> 65536
            then (((int (length d), 0), d, sockaddr_in 2 99, 16), os\<lparr>xo_in := ds @ [d]\<rparr>)
            else (((0, 0), [], sockaddr_in 2 99, 16), os)),
      us_sendmsg = (\<lambda>dest d os. ((int (length d), 0), os\<lparr>xo_out := xo_out os @ [(dest, d)]\<rparr>))\<rparr>"

definition example_in :: "example_os \<Rightarrow> (Address \<times> bytes) set" where
  "example_in os = Pair (socket_address 2 99) ` insert [] (set (xo_in os))"

text \<open>Nothing fails in this world.\<close>

definition example_world :: "(UDPAdapter, example_os) world" where
  "example_world = udp_world {} xo_source xo_sink example_in xo_out"

definition example_adapter :: "(UDPAdapter, example_os) AdaptT" where
  "example_adapter = udp_adapter example_libc example_udp"

definition example_socket :: "TCPConnection option \<Rightarrow> (UDPAdapter, example_os) TCPSpongeSocket" where
  "example_socket tc =
     \<lparr>so_owner = example_fd, so_thread_data = example_fd\<lparr>fd_num := 4\<rparr>,
      so_datagram_adapter = \<lparr>ua_base = side False 1 80 2 99, ua_sock = example_fd\<lparr>fd_num := 5\<rparr>\<rparr>,
      so_tcp = tc, so_inbound_shutdown = False, so_outbound_shutdown = False, so_fully_acked = False,
      so_os = \<lparr>xo_source = [], xo_sink = [], xo_out = [], xo_in = []\<rparr>\<rparr>"

lemma example_world_simps [simp]:
  "wo_adapter example_world = ua_ok" "wo_source example_world = xo_source" "wo_sink example_world = xo_sink"
  "wo_sent example_world os = segments_of (snd ` set (xo_out os))"
  "wo_net example_world os = segments_of (insert [] (set (xo_in os)))" "wo_errors example_world = {}"
  by (simp_all add: example_world_def udp_world_def example_in_def image_image)

lemma no_segments [simp]: "segments_of {[]} = {}" "segments_of {} = {}"
proof -
  have "buf_wf (buf_of_string [])" by (rule buf_wf_of_string) simp
  then have "fst (ts_parse (buf_of_string []) 0 TCPSegment_new) \<noteq> NoError"
    using th_parse_short [of "buf_of_string []"] by (auto simp: ts_parse_def Let_def split: prod.splits)
  then show "segments_of {[]} = {}" "segments_of {} = {}" by (auto simp: segments_of_def)
qed

lemma example_udp_honest: "honest_udp {} xo_source xo_sink example_in xo_out example_udp"
proof -
  have "\<exists>n err buf ip port os'. us_recvfrom example_udp 65536 os = (((int n, err), buf, sockaddr_in ip port, 16), os') \<and>
      n \<le> 65536 \<and> (socket_address ip port, take n buf) \<in> example_in os \<and> xo_source os' = xo_source os \<and>
      xo_sink os' = xo_sink os \<and> example_in os' = example_in os \<and> xo_out os' = xo_out os" for os
  proof (cases "xo_in os = [] \<or> 65536 < length (hd (xo_in os))")
    case True
    then show ?thesis
      by (intro exI [of _ 0] exI [of _ "[]"] exI [of _ 2] exI [of _ 99] exI [of _ os])
        (auto simp: example_udp_def example_in_def split: list.split)
  next
    case False
    then obtain d ds where "xo_in os = d # ds" "length d \<le> 65536" by (cases "xo_in os") auto
    then show ?thesis
      by (intro exI [of _ "length d"] exI [of _ 0] exI [of _ d] exI [of _ 2] exI [of _ 99] exI [of _ "os\<lparr>xo_in := ds @ [d]\<rparr>"])
        (auto simp: example_udp_def example_in_def)
  qed
  then show ?thesis unfolding honest_udp_def by (auto simp: example_udp_def example_in_def)
qed

lemma example_prints: "throws_only {} (addr_to_string (lc_getnameinfo example_libc) a) (\<lambda>_. True)"
proof -
  let ?port = "join_bytes (take 2 (drop 2 (addr_storage a))) :: uint16_t"
  have "unat ?port < 2 ^ 31" using unsigned_less [of ?port, where 'a = nat] by simp
  from stoi_dec_string [OF this] show ?thesis
    by (simp add: addr_to_string_def addr_ip_port_def example_libc_def)
qed

lemma example_honest: "honest_system example_world example_system" "honest_adapter example_world example_adapter"
proof -
  have "\<exists>len err str os'. example_read n os = (((int len, err), str), os') \<and> len \<le> n \<and> len \<le> length str \<and>
      xo_source os' = xo_source os @ take len str \<and> xo_sink os' = xo_sink os \<and> same_net example_world os os' \<and>
      (length (xo_source os) + 2 < 2 ^ 31 \<longrightarrow> length (xo_source os') + 2 < 2 ^ 31)" for n os
    by (cases n) (auto simp: example_read_def same_net_def example_world_def udp_world_def example_in_def Let_def)
  moreover have "\<exists>n err os'. os_writev example_system d os = ((int n, err), os') \<and> n \<le> length d \<and> (d \<noteq> [] \<longrightarrow> 0 < n) \<and>
      xo_sink os' = xo_sink os @ take n d \<and> xo_source os' = xo_source os \<and> same_net example_world os os'" for d os
    unfolding example_system_def
    by (intro exI) (auto simp: length_greater_0_conv same_net_def example_world_def udp_world_def example_in_def)
  moreover have "throws_only {} (addr_to_string (os_getnameinfo example_system) a) (\<lambda>_. True)" for a
    by (simp add: example_system_def example_prints)
  moreover have "map pf_events (map (\<lambda>f. f\<lparr>pf_revents := pf_events f\<rparr>) p) = map pf_events p" for p
    by simp
  ultimately show "honest_system example_world example_system"
    by (simp add: honest_system_def example_world_def udp_world_def example_system_def same_io_def same_net_def)
  show "honest_adapter example_world example_adapter"
    unfolding example_world_def example_adapter_def by (rule udp_honest [OF example_libc_numeric example_udp_honest])
qed

section \<open>Correctness\<close>



end
