(* ===== verification/Socket_Pair.thy ===== *)
theory Socket_Pair
  imports UDP_Socket
begin

text \<open>
  Two sockets of \<open>Sponge_Socket\<close> with a network between them that may lose, repeat, delay and reorder
  segments. The pair satisfies the contract \<open>linked_parties\<close> of \<open>Reliable_Delivery\<close>, so the bytes of one application
  arrive at the other; and what the loops, \<^verbatim>\<open>connect\<close>, \<^verbatim>\<open>listen_and_accept\<close> and the thread's main function
  may end with is shown from the same relation.
\<close>

section \<open>Two sockets\<close>

text \<open>
  What happens to a socket that has been initialized, together with its rules: it connects, it makes a round of its
  loop, or the world around it goes on, where the network may come to deliver whatever the other
  socket has sent.
\<close>

inductive so_step ::
  "('a, 'o) world \<Rightarrow> ('a, 'o) AdaptT \<Rightarrow> 'o system \<Rightarrow> ('a, 'o) TCPSpongeSocket Rule list \<times> ('a, 'o) TCPSpongeSocket \<Rightarrow>
   ('a, 'o) TCPSpongeSocket Rule list \<times> ('a, 'o) TCPSpongeSocket \<Rightarrow>
   ('a, 'o) TCPSpongeSocket Rule list \<times> ('a, 'o) TCPSpongeSocket \<Rightarrow> bool" for w ao sys peer where
  connect: "tc_connect (so_connection s) = Inr tc \<Longrightarrow>
    so_step w ao sys peer (rules, s) (rules, s\<lparr>so_tcp := Some tc\<rparr>)"
| round: "so_tcp_round ao sys t rules s = Inr (c, t', rules', s') \<Longrightarrow>
    so_step w ao sys peer (rules, s) (rules', s')"
| world: "wo_source w os = wo_source w (so_os s) \<Longrightarrow> wo_sink w os = wo_sink w (so_os s) \<Longrightarrow>
    wo_sent w os = wo_sent w (so_os s) \<Longrightarrow> wo_net w os \<subseteq> wo_net w (so_os s) \<union> wo_sent w (so_os (snd peer)) \<Longrightarrow>
    so_step w ao sys peer (rules, s) (rules, s\<lparr>so_os := os\<rparr>)"

definition so_fresh :: "('a, 'o) world \<Rightarrow> TCPConfig \<Rightarrow> WrappingInt32 \<Rightarrow> ('a, 'o) TCPSpongeSocket \<Rightarrow> bool" where
  "so_fresh w cfg random s \<longleftrightarrow> so_tcp s = Some (TCPConnection_new cfg random) \<and> wo_adapter w (so_datagram_adapter s) \<and>
     wo_source w (so_os s) = [] \<and> wo_sink w (so_os s) = [] \<and> wo_sent w (so_os s) = {} \<and> wo_net w (so_os s) = {}"

definition so_link ::
  "('a, 'o) world \<Rightarrow> ('a, 'o) AdaptT \<Rightarrow> 'o system \<Rightarrow> ('a, 'o) TCPSpongeSocket Rule list \<times> ('a, 'o) TCPSpongeSocket \<Rightarrow>
   ('a, 'o) TCPSpongeSocket Rule list \<times> ('a, 'o) TCPSpongeSocket \<Rightarrow> bool" where
  "so_link w ao sys p q \<longleftrightarrow> honest_system w sys \<and> honest_adapter w ao \<and>
     subseq (fst p) (so_rules ao sys) \<and> subseq (fst q) (so_rules ao sys) \<and>
     (\<exists>a b. link a b \<and> link b a \<and> tc_doff (ep_tc a) \<and> tc_doff (ep_tc b) \<and> represents w b a (snd p) \<and> represents w a b (snd q))"

lemma so_link_sym: "so_link w ao sys p q \<Longrightarrow> so_link w ao sys q p"
  unfolding so_link_def by blast

lemma ep_step_sent: "ep_step b a a' \<Longrightarrow> ep_sent a \<subseteq> ep_sent a'"
  by (cases rule: ep_step.cases) auto

text \<open>The runs that go on from a given endpoint.\<close>

definition run_from :: "endpoint \<Rightarrow> endpoint \<Rightarrow> endpoint \<Rightarrow> bool" where
  "run_from a0 a b \<longleftrightarrow> link a b \<and> link b a \<and> tc_doff (ep_tc a) \<and> tc_doff (ep_tc b) \<and> ep_sent a0 \<subseteq> ep_sent a"

lemma run_from_side: "side_run (run_from a0)"
  unfolding side_run_def run_from_def using ep_step_link ep_step_sent ep_step_doff by blast

lemma so_link_inv:
  assumes "so_link w ao sys (rules, s) q"
  obtains a b where "so_inv w ao sys (run_from a) b s" and "represents w a b (snd q)"
    and "implements w (run_from a) b a s"
  using assms run_from_side unfolding so_link_def so_inv_def implements_def run_from_def by fastforce

lemma so_linkI:
  assumes "so_link w ao sys p q" and "represents w a b (snd q)" and "implements w (run_from a) b a' s'"
    and "subseq rules' (so_rules ao sys)"
  shows "so_link w ao sys (rules', s') q"
proof -
  have "represents w a' b (snd q)"
    using assms(2,3) unfolding implements_def run_from_def represents_def covers_def by blast
  then show ?thesis
    using assms unfolding so_link_def implements_def run_from_def by auto
qed

lemma so_step_link:
  assumes l: "so_link w ao sys p q" and "so_step w ao sys q p p'"
  shows "so_link w ao sys p' q"
  using assms(2)
proof cases
  case (connect s tc rules)
  obtain a b where i: "so_inv w ao sys (run_from a) b s" "represents w a b (snd q)" "implements w (run_from a) b a s"
    using l so_link_inv unfolding connect(1) by blast
  then have "tc_connect (ep_tc a) = Inr tc" using connect(3) by (simp add: implements_simps)
  from implements_tc [OF i(3) run_from_side ep_step.connect [OF this], of "s\<lparr>so_tcp := Some tc\<rparr>"]
  have "implements w (run_from a) b (a\<lparr>ep_tc := tc\<rparr>) (s\<lparr>so_tcp := Some tc\<rparr>)"
    using tc_connect_ended \<open>tc_connect (ep_tc a) = Inr tc\<close> i(3) by (auto simp: same_io_def implements_simps)
  then show ?thesis using l unfolding connect(1,2) by (intro so_linkI [OF l i(2)]) (auto simp: so_link_def)
next
  case (round t rules s c t' rules' s')
  obtain a b where i: "so_inv w ao sys (run_from a) b s" "represents w a b (snd q)"
    using l so_link_inv unfolding round(1) by blast
  have "subseq rules (so_rules ao sys)" using l by (simp add: so_link_def round(1))
  from so_round [OF this i(1), of t] have "so_inv w ao sys (run_from a) b s'" "subseq rules' (so_rules ao sys)"
    using round(3) by auto
  then show ?thesis unfolding round(2) using so_linkI [OF l i(2)] by (auto simp: so_inv_def)
next
  case (world os s rules)
  obtain a b where i: "represents w a b (snd q)" "implements w (run_from a) b a s"
    using l so_link_inv unfolding world(1) by blast
  have "implements w (run_from a) b a (s\<lparr>so_os := os\<rparr>)"
    using i world(3-) by (auto simp: implements_simps covers_def)
  then show ?thesis using l unfolding world(1,2) by (intro so_linkI [OF l i(1)]) (auto simp: so_link_def)
qed

interpretation sockets: linked_parties "so_step w ao sys" "so_link w ao sys" for w ao sys
  by unfold_locales (use so_step_link so_link_sym in blast)+

lemma so_link_fresh:
  assumes "honest_system w sys" and "honest_adapter w ao" and "cfg_ok ca" and "cfg_ok cb"
    and "so_fresh w ca ra s" and "so_fresh w cb rb t"
  shows "so_link w ao sys (so_rules ao sys, s) (so_rules ao sys, t)"
proof -
  have "represents w (endpoint_new c r) (endpoint_new c' r') u" if "so_fresh w c' r' u" for c r c' r' u
  proof -
    have "\<not> tc_ended (TCPConnection_new c' r')"
      by (simp add: TCPConnection_new_def TCPSender_new_def)
    then show ?thesis using that by (simp add: so_fresh_def represents_def covers_def endpoint_new_def)
  qed
  note this [OF assms(5), of cb rb] this [OF assms(6), of ca ra]
  moreover have "link (endpoint_new ca ra) (endpoint_new cb rb)" "link (endpoint_new cb rb) (endpoint_new ca ra)"
    by (intro link_new assms(3,4))+
  moreover have "tc_doff (ep_tc (endpoint_new c r))" for c r by (simp add: endpoint_new_def tc_doff_new)
  ultimately show ?thesis using assms(1,2) unfolding so_link_def fst_conv snd_conv by blast
qed

lemma two_sockets_link:
  assumes "honest_system w sys" and "honest_adapter w ao" and "cfg_ok ca" and "cfg_ok cb"
    and "so_fresh w ca ra s0" and "so_fresh w cb rb t0"
    and "two_party (so_step w ao sys) (so_rules ao sys, s0) (so_rules ao sys, t0) p q"
  shows "so_link w ao sys p q"
  using sockets.reachable_link [OF assms(7)] so_link_fresh [OF assms(1-6)] so_link_sym by blast

lemma so_loop_end:
  assumes "so_tcp_loop ao sys condition fuel t rules s = Some (Inr (rules', s'))" and "Q rules s"
    and "\<And>c t t' rules s rules' s'. Q rules s \<Longrightarrow> so_tcp_round ao sys t rules s = Inr (c, t', rules', s') \<Longrightarrow> Q rules' s'"
  shows "Q rules' s' \<and> (\<not> condition s' \<or>
    (\<exists>t1 rules1 s1 t2. Q rules1 s1 \<and> so_tcp_round ao sys t1 rules1 s1 = Inr (False, t2, rules', s')))"
  using assms(1,2)
proof (induction fuel arbitrary: t rules s)
  case (Suc fuel)
  show ?case
  proof (cases "condition s")
    case True
    obtain c t1 rules1 s1 where r: "so_tcp_round ao sys t rules s = Inr (c, t1, rules1, s1)"
      using Suc.prems(1) True by (auto split: sum.splits)
    have "Q rules1 s1" by (rule assms(3) [OF Suc.prems(2) r])
    then show ?thesis
      using Suc.IH [of t1 rules1 s1] Suc.prems True r by (cases c) auto
  qed (use Suc.prems in auto)
qed simp

lemma so_loop_run:
  assumes r: "so_tcp_loop ao sys condition fuel t rules s = Some (Inr (rules', s'))"
    and "two_party (so_step w ao sys) p0 q0 (rules, s) q"
  shows "two_party (so_step w ao sys) p0 q0 (rules', s') q \<and> (\<not> condition s' \<or>
    (\<exists>t1 rules1 s1 t2. so_tcp_round ao sys t1 rules1 s1 = Inr (False, t2, rules', s')))"
proof -
  have "two_party (so_step w ao sys) p0 q0 (rules', s') q \<and> (\<not> condition s' \<or>
      (\<exists>t1 rules1 s1 t2. two_party (so_step w ao sys) p0 q0 (rules1, s1) q \<and>
         so_tcp_round ao sys t1 rules1 s1 = Inr (False, t2, rules', s')))"
    by (rule so_loop_end [OF r, where Q = "\<lambda>rs s. two_party (so_step w ao sys) p0 q0 (rs, s) q"])
      (use assms(2) in \<open>auto intro: two_party.left so_step.round\<close>)
  then show ?thesis by blast
qed

lemma so_loop_reached:
  assumes "so_link w ao sys (rs, s) q" and "two_party (so_step w ao sys) p0 q0 (rs, s) q"
  shows "so_tcp_loop ao sys condition fuel t rs s = None \<or>
    (\<exists>e \<in> insert polled_error (wo_errors w). so_tcp_loop ao sys condition fuel t rs s = Some (Inl e)) \<or>
    (\<exists>rs' s'. so_tcp_loop ao sys condition fuel t rs s = Some (Inr (rs', s')) \<and>
       two_party (so_step w ao sys) p0 q0 (rs', s') q)"
proof -
  have sub: "subseq rs (so_rules ao sys)" using assms(1) by (simp add: so_link_def)
  obtain a b where inv: "so_inv w ao sys (run_from a) b s" by (rule so_link_inv [OF assms(1)])
  note l = so_loop [OF sub inv, of condition fuel t]
  show ?thesis
  proof (cases "so_tcp_loop ao sys condition fuel t rs s")
    case (Some r)
    then show ?thesis using l so_loop_run [OF _ assms(2), of condition fuel t] by (cases r) auto
  qed simp
qed

text \<open>Reading the clock is a step of the world.\<close>

lemma so_clock_step:
  assumes l: "so_link w ao sys (rs, s) q" and "os_timestamp_ms sys (so_os s) = (t, os)"
    and "two_party (so_step w ao sys) p0 q0 (rs, s) q"
  shows "two_party (so_step w ao sys) p0 q0 (rs, s\<lparr>so_os := os\<rparr>) q" and "so_link w ao sys (rs, s\<lparr>so_os := os\<rparr>) q"
proof -
  have io: "same_io w (so_os s) os" using assms(1,2) unfolding so_link_def honest_system_def by (metis snd_conv)
  have "so_step w ao sys q (rs, s) (rs, s\<lparr>so_os := os\<rparr>)"
    using io by (intro so_step.world) (simp_all add: same_io_def)
  then show "two_party (so_step w ao sys) p0 q0 (rs, s\<lparr>so_os := os\<rparr>) q" and "so_link w ao sys (rs, s\<lparr>so_os := os\<rparr>) q"
    using two_party.left [OF assms(3)] so_step_link [OF l] by blast+
qed

text \<open>
  What a call may end with that waits while the connection is in one of the states \<open>st\<close>, for a socket \<open>u\<close>
  before its first round.
\<close>

definition so_outcome ::
  "('a, 'o) world \<Rightarrow> ('a, 'o) AdaptT \<Rightarrow> 'o system \<Rightarrow> State set \<Rightarrow> ('a, 'o) TCPSpongeSocket \<Rightarrow>
   (exn + ('a, 'o) TCPSpongeSocket Rule list \<times> ('a, 'o) TCPSpongeSocket) option \<Rightarrow> bool" where
  "so_outcome w ao sys st u r \<longleftrightarrow>
     r = None \<or> (\<exists>e \<in> insert polled_error (wo_errors w). r = Some (Inl e)) \<or>
     (\<exists>rs' s'. r = Some (Inr (rs', s')) \<and>
       two_party (so_step w ao sys) (so_rules ao sys, u) (so_rules ao sys, u) (rs', s') (so_rules ao sys, u) \<and>
       (tc_state (so_connection s') \<notin> TCPState_of_state ` st \<or>
         (\<exists>t1 rs1 s1 t2. so_tcp_round ao sys t1 rs1 s1 = Inr (False, t2, rs', s'))))"

lemma so_start_outcome:
  assumes "honest_system w sys" and "honest_adapter w ao" and "cfg_ok cfg" and fr: "so_fresh w cfg random u"
    and v: "two_party (so_step w ao sys) (so_rules ao sys, u) (so_rules ao sys, u) (so_rules ao sys, v) (so_rules ao sys, u)"
    and cond: "\<And>s. condition s \<longleftrightarrow> tc_state (so_connection s) \<in> TCPState_of_state ` st"
  shows "so_outcome w ao sys st u (so_start_loop ao sys condition fuel (so_rules ao sys) v)"
proof -
  obtain t os where t: "os_timestamp_ms sys (so_os v) = (t, os)" by fastforce
  have "so_link w ao sys (so_rules ao sys, v) (so_rules ao sys, u)"
    by (rule two_sockets_link [OF assms(1-3) assms(3) fr fr v])
  note run = so_clock_step [OF this t v]
  have eq: "so_start_loop ao sys condition fuel (so_rules ao sys) v =
      so_tcp_loop ao sys condition fuel t (so_rules ao sys) (v\<lparr>so_os := os\<rparr>)"
    by (simp add: so_start_loop_def t)
  from so_loop_reached [OF run(2,1), of condition fuel t] show ?thesis
  proof (elim disjE exE conjE)
    fix rs' s'
    assume r: "so_tcp_loop ao sys condition fuel t (so_rules ao sys) (v\<lparr>so_os := os\<rparr>) = Some (Inr (rs', s'))"
    from so_loop_run [OF r run(1)] show ?thesis
      unfolding so_outcome_def eq r cond by blast
  qed (auto simp: so_outcome_def eq)
qed

text \<open>Printing an address afterwards may only fail.\<close>

lemma so_outcome_print:
  assumes "so_outcome w ao sys st u r" and "\<And>x. throws_only (wo_errors w) (printed x) (\<lambda>_. True)"
  shows "so_outcome w ao sys st u (so_then_print printed r)"
proof -
  consider "r = None" | e where "e \<in> insert polled_error (wo_errors w)" "r = Some (Inl e)"
    | rs' s' where "r = Some (Inr (rs', s'))"
    using assms(1) unfolding so_outcome_def by blast
  then show ?thesis
  proof cases
    case 3
    then show ?thesis
      using assms(1) assms(2) [of "(rs', s')"] by (auto simp: so_then_print_def so_outcome_def throws_only_iff)
  qed (auto simp: so_then_print_def so_outcome_def)
qed

lemma example_fresh:
  "so_fresh example_world c r (example_socket (Some (TCPConnection_new c r)))"
  by (simp add: so_fresh_def example_socket_def ua_ok_def side_def)

abbreviation example_run where
  "example_run \<equiv> two_party (so_step example_world example_adapter example_system)
     (so_rules example_adapter example_system, example_socket (Some (TCPConnection_new TCPConfig_default 7)))
     (so_rules example_adapter example_system, example_socket (Some (TCPConnection_new TCPConfig_default 9)))"

lemma example_connected:
  "\<exists>s. example_run (so_rules example_adapter example_system, s)
      (so_rules example_adapter example_system, example_socket (Some (TCPConnection_new TCPConfig_default 9))) \<and>
    tc_state (so_connection s) = TCPState_of_state SYN_SENT"
proof -
  let ?s = "example_socket (Some (TCPConnection_new TCPConfig_default 7))"
  obtain tc where "tc_connect (TCPConnection_new TCPConfig_default 7) = Inr tc" "tc_state tc = TCPState_of_state SYN_SENT"
    using connection_connect [of TCPConfig_default 7] by (auto simp: TCPConfig_default_def DEFAULT_CAPACITY_def)
  then show ?thesis
    by (intro exI [of _ "?s\<lparr>so_tcp := Some tc\<rparr>"] conjI two_party.left [OF two_party.init] so_step.connect)
      (simp_all add: example_socket_def so_connection_def)
qed

lemmas example_hyps = example_honest cfg_ok_default cfg_ok_default example_fresh example_fresh

section \<open>Correctness\<close>

text \<open>C6: Two sockets. Whatever the order in which two sockets make their rounds, and whatever a
  network that loses, repeats, delays and reorders segments delivers in between: what one thread
  has written to the pipe of its application, with what waits in its connection, is a prefix of
  what the other thread has read from the pipe of its own; at the end of the inbound stream
  it is all of it, and the other socket has shut its outbound stream down.\<close>

theorem socket_relay:
  assumes "honest_system w sys" and "honest_adapter w ao" and "cfg_ok ca" and "cfg_ok cb"
    and "so_fresh w ca ra s0" and "so_fresh w cb rb t0"
    and "two_party (so_step w ao sys) (so_rules ao sys, s0) (so_rules ao sys, t0) (rs, s) (rt, t)"
  shows "prefix (wo_sink w (so_os t) @ bs_contents (tc_inbound_stream (so_connection t))) (wo_source w (so_os s)) \<and>
    (bs_eof (tc_inbound_stream (so_connection t)) \<longrightarrow>
       wo_sink w (so_os t) = wo_source w (so_os s) \<and> so_outbound_shutdown s) \<and>
    prefix (wo_sink w (so_os s) @ bs_contents (tc_inbound_stream (so_connection s))) (wo_source w (so_os t)) \<and>
    (bs_eof (tc_inbound_stream (so_connection s)) \<longrightarrow>
       wo_sink w (so_os s) = wo_source w (so_os t) \<and> so_outbound_shutdown t)"
proof -
  obtain a b where l: "link a b" "link b a" and r: "represents w b a s" "represents w a b t"
    using two_sockets_link [OF assms] by (auto simp: so_link_def)
  show ?thesis
    using link_delivers [OF l] link_delivers [OF l(2,1)] r by (simp add: represents_def)
qed

theorem socket_relay_witness:
  "\<exists>s rs t rt. example_run (rs, s) (rt, t) \<and> tc_state (so_connection s) = TCPState_of_state SYN_SENT \<and>
     prefix (xo_sink (so_os t) @ bs_contents (tc_inbound_stream (so_connection t))) (xo_source (so_os s))"
proof -
  obtain s rs t rt where s: "example_run (rs, s) (rt, t)" "tc_state (so_connection s) = TCPState_of_state SYN_SENT"
    using example_connected by blast
  from socket_relay [OF example_hyps s(1)] s show ?thesis by auto
qed

text \<open>Opening a connection. \<^verbatim>\<open>connect\<close> and \<^verbatim>\<open>listen_and_accept\<close> throw when the socket has a connection already.
  Otherwise, if the address of the peer can be printed, the connection that \<^verbatim>\<open>connect\<close> makes is always in the state SYN_SENT when the state is
  checked, so that the exception about an unexpected state is never thrown; and when one of the two calls returns, the
  state of the connection is none of those it waits in, or the last round broke off (there
  was nothing to wait for, a signal came, or the socket is being destroyed), and the
  socket has come from its fresh connection by rounds of the loop.\<close>

theorem socket_open:
  fixes s :: "('a, 'o) TCPSpongeSocket" and random :: WrappingInt32 and c_ad :: FdAdapterConfig
  assumes "honest_system w sys" and "honest_adapter w ao" and "cfg_ok c_tcp"
    and "wo_source w (so_os s) = []" and "wo_sink w (so_os s) = []" and "wo_sent w (so_os s) = {}"
    and "wo_net w (so_os s) = {}" and "wo_adapter w (ao_config ao c_ad (so_datagram_adapter s))"
    and "wo_adapter w (ao_set_listening ao True (ao_config ao c_ad (so_datagram_adapter s)))"
  defines "s1 \<equiv> s\<lparr>so_tcp := Some (TCPConnection_new c_tcp random),
      so_datagram_adapter := ao_config ao c_ad (so_datagram_adapter s)\<rparr>"
    and "s2 \<equiv> s\<lparr>so_tcp := Some (TCPConnection_new c_tcp random),
      so_datagram_adapter := ao_set_listening ao True (ao_config ao c_ad (so_datagram_adapter s))\<rparr>"
  shows "(so_tcp s \<noteq> None \<longrightarrow>
      so_connect ao sys fuel c_tcp random c_ad s =
        Some (Inl (Runtime_error ''connect() with TCPConnection already initialized'')) \<and>
      so_listen_and_accept ao sys fuel c_tcp random c_ad s =
        Some (Inl (Runtime_error ''listen_and_accept() with TCPConnection already initialized''))) \<and>
    (so_tcp s = None \<longrightarrow>
      ((\<exists>e \<in> wo_errors w. so_connect ao sys fuel c_tcp random c_ad s = Some (Inl e)) \<or>
       so_outcome w ao sys {SYN_SENT} s1 (so_connect ao sys fuel c_tcp random c_ad s)) \<and>
      so_outcome w ao sys {LISTEN, SYN_RCVD, SYN_SENT} s2 (so_listen_and_accept ao sys fuel c_tcp random c_ad s))"
proof -
  have fresh: "so_fresh w c_tcp random s1" "so_fresh w c_tcp random s2"
    using assms(4-9) by (simp_all add: so_fresh_def s1_def s2_def)
  let ?run = "\<lambda>u p. two_party (so_step w ao sys) (so_rules ao sys, u) (so_rules ao sys, u) p (so_rules ao sys, u)"
  have small: "cfg_send_capacity c_tcp < 2 ^ 64" "cfg_recv_capacity c_tcp < 2 ^ 64"
    using assms(3) by (simp_all add: cfg_ok_def)
  obtain tc where tc: "tc_connect (TCPConnection_new c_tcp random) = Inr tc" "tc_state tc = TCPState_of_state SYN_SENT"
    using connection_connect [OF small, of random] by blast
  have "?run s1 (so_rules ao sys, s1\<lparr>so_tcp := Some tc\<rparr>)"
    using tc(1) by (intro two_party.left [OF two_party.init] so_step.connect) (simp add: s1_def so_connection_def)
  moreover have "s1\<lparr>so_tcp := Some tc\<rparr> =
      s\<lparr>so_tcp := Some tc, so_datagram_adapter := ao_config ao c_ad (so_datagram_adapter s)\<rparr>"
    by (cases s) (simp add: s1_def)
  ultimately have "?run s1 (so_rules ao sys,
      s\<lparr>so_tcp := Some tc, so_datagram_adapter := ao_config ao c_ad (so_datagram_adapter s)\<rparr>)" by simp
  note 1 = so_outcome_print [OF so_start_outcome [OF assms(1-3) fresh(1) this], where st = "{SYN_SENT}"]
  note 2 = so_outcome_print [OF so_start_outcome [OF assms(1-3) fresh(2) two_party.init],
      where st = "{LISTEN, SYN_RCVD, SYN_SENT}"]
  have prints: "throws_only (wo_errors w) (addr_to_string (os_getnameinfo sys) a) (\<lambda>_. True)" for a
    using assms(1) unfolding honest_system_def by blast
  have "so_outcome w ao sys {LISTEN, SYN_RCVD, SYN_SENT} s2 (so_listen_and_accept ao sys fuel c_tcp random c_ad s)"
    if "so_tcp s = None"
    using that 2 prints
    by (simp add: so_listen_and_accept_def st_equal_iff s2_def Let_def so_peer_string_def split: prod.split)
  moreover have "(\<exists>e \<in> wo_errors w. so_connect ao sys fuel c_tcp random c_ad s = Some (Inl e)) \<or>
      so_outcome w ao sys {SYN_SENT} s1 (so_connect ao sys fuel c_tcp random c_ad s)" if "so_tcp s = None"
  proof (cases "addr_to_string (os_getnameinfo sys) (fc_destination c_ad)")
    case (Inl e)
    then show ?thesis using prints [of "fc_destination c_ad"] that by (simp add: so_connect_def)
  next
    case (Inr str)
    then show ?thesis
      using that tc 1 by (simp add: so_connect_def st_not_equal_def st_equal_iff s1_def)
  qed
  ultimately show ?thesis by (simp add: so_connect_def so_listen_and_accept_def)
qed

theorem socket_open_witness:
  "so_outcome example_world example_adapter example_system {SYN_SENT}
     (example_socket (Some (TCPConnection_new TCPConfig_default 7)))
     (so_connect example_adapter example_system 5 TCPConfig_default 7 (fa_cfg (side False 1 80 2 99)) (example_socket None))"
proof -
  have "(example_socket None)\<lparr>so_tcp := Some (TCPConnection_new TCPConfig_default 7), so_datagram_adapter :=
      ao_config example_adapter (fa_cfg (side False 1 80 2 99)) (so_datagram_adapter (example_socket None))\<rparr> =
      example_socket (Some (TCPConnection_new TCPConfig_default 7))"
    by (simp add: example_socket_def example_adapter_def udp_adapter_def fa_set_config_def side_def)
  moreover have "wo_source example_world (so_os (example_socket None)) = []" "wo_sink example_world (so_os (example_socket None)) = []"
    "wo_sent example_world (so_os (example_socket None)) = {}" "wo_net example_world (so_os (example_socket None)) = {}"
    "so_tcp (example_socket None) = None"
    by (simp_all add: example_socket_def)
  moreover have "wo_adapter example_world (ao_config example_adapter (fa_cfg (side False 1 80 2 99))
      (so_datagram_adapter (example_socket None)))"
    "wo_adapter example_world (ao_set_listening example_adapter True (ao_config example_adapter (fa_cfg (side False 1 80 2 99))
      (so_datagram_adapter (example_socket None))))"
    by (auto simp: example_socket_def example_adapter_def udp_adapter_def fa_set_config_def fa_set_listening_def
        side_def ua_ok_def)
  ultimately show ?thesis
    using socket_open [OF example_honest cfg_ok_default, where s = "example_socket None" and random = 7 and fuel = 5 and
        c_ad = "fa_cfg (side False 1 80 2 99)"] by simp
qed

lemma honest_shutdown:
  assumes "honest_system w sys" and "os_shutdown sys own how os = (result, os')"
  shows "(\<exists>e \<in> wo_errors w. SystemCall ''shutdown'' result 0 = Inl e) \<or> (\<exists>err. result = (0, err)) \<and> same_io w os os'"
proof -
  have "(\<exists>e \<in> wo_errors w. SystemCall ''shutdown'' (fst (os_shutdown sys own how os)) 0 = Inl e) \<or>
      (\<exists>err os'. os_shutdown sys own how os = ((0, err), os') \<and> same_io w os os')"
    using assms(1) unfolding honest_system_def by blast
  then show ?thesis using assms(2) by auto
qed



end
