(* ===== verification/Stream_Copy.thy ===== *)
theory Stream_Copy
  imports Byte_Stream Event_Loop
begin

text \<open>
  \<^verbatim>\<open>apps/bidirectional_stream_copy.cc\<close>: copies standard input to a socket and the socket to standard output, through two
  byte streams and an event loop with four rules. The rules satisfy the contract \<open>marking_client\<close> of the event loop.
\<close>

section \<open>Model\<close>

text \<open>The system calls on the three descriptors, on a system with state \<open>'o\<close>.\<close>

record 'o copy_system =
  cs_read_input :: "'o sys_read"
  cs_read_socket :: "'o sys_read"
  cs_write_socket :: "'o sys_writev"
  cs_write_output :: "'o sys_writev"
  cs_shutdown :: "shut_how \<Rightarrow> 'o \<Rightarrow> (int \<times> int) \<times> 'o"
  cs_close_output :: "'o \<Rightarrow> (int \<times> int) \<times> 'o"
  cs_poll :: "'o sys_poll"
  cs_getfl :: "int \<Rightarrow> int \<times> int"
  cs_setfl :: "int \<Rightarrow> 32 word \<Rightarrow> int \<times> int"

record 'o copy =
  cp_socket :: FDWrapper
  cp_input :: FDWrapper
  cp_output :: FDWrapper
  cp_outbound :: ByteStream
  cp_inbound :: ByteStream
  cp_outbound_shutdown :: bool
  cp_inbound_shutdown :: bool
  cp_os :: 'o

definition max_copy_length :: size_t where
  "max_copy_length = 65536"

definition copy_buffer_size :: size_t where
  "copy_buffer_size = 1048576"

text \<open>What rules 1 and 3 have in common, and what rules 2 and 4 have in common.\<close>

definition copy_in :: "'o sys_read \<Rightarrow> FDWrapper \<Rightarrow> ByteStream \<Rightarrow> 'o \<Rightarrow> exn + FDWrapper \<times> ByteStream \<times> 'o" where
  "copy_in sys_read fd stream os =
     bindE (fd_read sys_read (bs_remaining_capacity stream) fd os) (\<lambda>(data, fd1, os1).
       let (_, stream1) = bs_write data stream
       in Inr (fd1, if fd_eof fd1 then bs_do_end_input stream1 else stream1, os1))"

definition copy_out :: "'o sys_writev \<Rightarrow> FDWrapper \<Rightarrow> ByteStream \<Rightarrow> 'o \<Rightarrow> exn + FDWrapper \<times> ByteStream \<times> 'o" where
  "copy_out sys_writev fd stream os =
     (let bytes_to_write = min max_copy_length (bs_buffer_size stream)
      in bindE (fd_write sys_writev (bvl_of_string (bs_peek_output bytes_to_write stream)) False fd os)
           (\<lambda>(bytes_written, fd1, os1).
         bindE (bs_pop_output bytes_written stream) (\<lambda>stream1. Inr (fd1, stream1, os1))))"

definition cp_rule1_callback :: "'o copy_system \<Rightarrow> 'o copy \<Rightarrow> exn + 'o copy" where
  "cp_rule1_callback sys s =
     bindE (copy_in (cs_read_input sys) (cp_input s) (cp_outbound s) (cp_os s)) (\<lambda>(fd, stream, os).
       Inr (s\<lparr>cp_input := fd, cp_outbound := stream, cp_os := os\<rparr>))"

definition cp_rule1_interest :: "'o copy \<Rightarrow> bool" where
  "cp_rule1_interest s \<longleftrightarrow>
     \<not> bs_error (cp_outbound s) \<and> 0 < bs_remaining_capacity (cp_outbound s) \<and> \<not> bs_error (cp_inbound s)"

definition cp_end_outbound :: "'o copy \<Rightarrow> exn + 'o copy" where
  "cp_end_outbound s = Inr (s\<lparr>cp_outbound := bs_do_end_input (cp_outbound s)\<rparr>)"

definition cp_rule2_callback :: "'o copy_system \<Rightarrow> 'o copy \<Rightarrow> exn + 'o copy" where
  "cp_rule2_callback sys s =
     bindE (copy_out (cs_write_socket sys) (cp_socket s) (cp_outbound s) (cp_os s)) (\<lambda>(fd, stream, os).
       let s1 = s\<lparr>cp_socket := fd, cp_outbound := stream, cp_os := os\<rparr>
       in if bs_eof stream
          then let (result, os1) = cs_shutdown sys SHUT_WR os
               in bindE (sk_shutdown SHUT_WR result fd) (\<lambda>fd1.
                    Inr (s1\<lparr>cp_socket := fd1, cp_os := os1, cp_outbound_shutdown := True\<rparr>))
          else Inr s1)"

definition cp_rule2_interest :: "'o copy \<Rightarrow> bool" where
  "cp_rule2_interest s \<longleftrightarrow>
     \<not> bs_buffer_empty (cp_outbound s) \<or> (bs_eof (cp_outbound s) \<and> \<not> cp_outbound_shutdown s)"

definition cp_rule3_callback :: "'o copy_system \<Rightarrow> 'o copy \<Rightarrow> exn + 'o copy" where
  "cp_rule3_callback sys s =
     bindE (copy_in (cs_read_socket sys) (cp_socket s) (cp_inbound s) (cp_os s)) (\<lambda>(fd, stream, os).
       Inr (s\<lparr>cp_socket := fd, cp_inbound := stream, cp_os := os\<rparr>))"

definition cp_rule3_interest :: "'o copy \<Rightarrow> bool" where
  "cp_rule3_interest s \<longleftrightarrow>
     \<not> bs_error (cp_inbound s) \<and> 0 < bs_remaining_capacity (cp_inbound s) \<and> \<not> bs_error (cp_outbound s)"

definition cp_end_inbound :: "'o copy \<Rightarrow> exn + 'o copy" where
  "cp_end_inbound s = Inr (s\<lparr>cp_inbound := bs_do_end_input (cp_inbound s)\<rparr>)"

definition cp_rule4_callback :: "'o copy_system \<Rightarrow> 'o copy \<Rightarrow> exn + 'o copy" where
  "cp_rule4_callback sys s =
     bindE (copy_out (cs_write_output sys) (cp_output s) (cp_inbound s) (cp_os s)) (\<lambda>(fd, stream, os).
       let s1 = s\<lparr>cp_output := fd, cp_inbound := stream, cp_os := os\<rparr>
       in if bs_eof stream
          then let (result, os1) = cs_close_output sys os
               in bindE (fd_close result fd) (\<lambda>fd1.
                    Inr (s1\<lparr>cp_output := fd1, cp_os := os1, cp_inbound_shutdown := True\<rparr>))
          else Inr s1)"

definition cp_rule4_interest :: "'o copy \<Rightarrow> bool" where
  "cp_rule4_interest s \<longleftrightarrow>
     \<not> bs_buffer_empty (cp_inbound s) \<or> (bs_eof (cp_inbound s) \<and> \<not> cp_inbound_shutdown s)"

definition cp_rules :: "'o copy_system \<Rightarrow> 'o copy Rule list" where
  "cp_rules sys =
     el_add_rule cp_output Out (cp_rule4_callback sys) cp_rule4_interest cp_end_inbound
       (el_add_rule cp_socket In (cp_rule3_callback sys) cp_rule3_interest cp_end_inbound
         (el_add_rule cp_socket Out (cp_rule2_callback sys) cp_rule2_interest cp_end_outbound
           (el_add_rule cp_input In (cp_rule1_callback sys) cp_rule1_interest cp_end_outbound [])))"

definition cp_poll :: "'o copy_system \<Rightarrow> 'o copy sys_poll" where
  "cp_poll sys pollfds timeout_ms s =
     (let (result, os) = cs_poll sys pollfds timeout_ms (cp_os s) in (result, s\<lparr>cp_os := os\<rparr>))"

text \<open>The loop, for at most \<open>fuel\<close> rounds; \<open>None\<close> is a loop that has not ended by then.\<close>

fun cp_loop :: "'o copy_system \<Rightarrow> nat \<Rightarrow> 'o copy Rule list \<Rightarrow> 'o copy \<Rightarrow> (exn + 'o copy Rule list \<times> 'o copy) option" where
  "cp_loop sys 0 rules s = None"
| "cp_loop sys (Suc fuel) rules s =
     (case el_wait_next_event (cp_poll sys) (-1) rules s of
        Inl e \<Rightarrow> Some (Inl e)
      | Inr (ret, rules1, s1) \<Rightarrow> if ret = Exit then Some (Inr (rules1, s1)) else cp_loop sys fuel rules1 s1)"

definition copy_new :: "FDWrapper \<Rightarrow> FDWrapper \<Rightarrow> FDWrapper \<Rightarrow> 'o \<Rightarrow> 'o copy" where
  "copy_new socket input output os =
     \<lparr>cp_socket = socket, cp_input = input, cp_output = output,
      cp_outbound = ByteStream_new copy_buffer_size, cp_inbound = ByteStream_new copy_buffer_size,
      cp_outbound_shutdown = False, cp_inbound_shutdown = False, cp_os = os\<rparr>"

definition bidirectional_stream_copy ::
  "'o copy_system \<Rightarrow> nat \<Rightarrow> FDWrapper \<Rightarrow> 'o \<Rightarrow> (exn + 'o copy Rule list \<times> 'o copy) option" where
  "bidirectional_stream_copy sys fuel socket os =
     (case bindE (FDWrapper_new 0) (\<lambda>input.
           bindE (FDWrapper_new 1) (\<lambda>output.
           bindE (fd_set_blocking False (cs_getfl sys (fd_num socket)) (cs_setfl sys (fd_num socket))) (\<lambda>_.
           bindE (fd_set_blocking False (cs_getfl sys (fd_num input)) (cs_setfl sys (fd_num input))) (\<lambda>_.
           bindE (fd_set_blocking False (cs_getfl sys (fd_num output)) (cs_setfl sys (fd_num output))) (\<lambda>_.
             Inr (copy_new socket input output os)))))) of
        Inl e \<Rightarrow> Some (Inl e)
      | Inr s \<Rightarrow> cp_loop sys fuel (cp_rules sys) s)"

section \<open>What is relied on\<close>

text \<open>
  What has been read from standard input and from the socket, and what has been written to the socket and to
  standard output. The calls behave as their manual pages say and do not fail.
\<close>

record 'o copied =
  cw_input :: "'o \<Rightarrow> bytes"
  cw_to_socket :: "'o \<Rightarrow> bytes"
  cw_from_socket :: "'o \<Rightarrow> bytes"
  cw_output :: "'o \<Rightarrow> bytes"

definition honest_read :: "'o sys_read \<Rightarrow> ('o \<Rightarrow> bytes) \<Rightarrow> bool" where
  "honest_read sys_read source \<longleftrightarrow>
     (\<forall>n os. \<exists>len err str os'. sys_read n os = (((int len, err), str), os') \<and> len \<le> n \<and> len \<le> length str \<and>
        source os' = source os @ take len str)"

definition same_out :: "'o copied \<Rightarrow> 'o \<Rightarrow> 'o \<Rightarrow> bool" where
  "same_out w os os' \<longleftrightarrow> cw_input w os' = cw_input w os \<and> cw_to_socket w os' = cw_to_socket w os"

definition same_in :: "'o copied \<Rightarrow> 'o \<Rightarrow> 'o \<Rightarrow> bool" where
  "same_in w os os' \<longleftrightarrow> cw_from_socket w os' = cw_from_socket w os \<and> cw_output w os' = cw_output w os"

definition honest_copy :: "'o copied \<Rightarrow> 'o copy_system \<Rightarrow> bool" where
  "honest_copy w sys \<longleftrightarrow>
     honest_read (cs_read_input sys) (cw_input w) \<and> honest_read (cs_read_socket sys) (cw_from_socket w) \<and>
     honest_writev (cs_write_socket sys) (cw_to_socket w) \<and> honest_writev (cs_write_output sys) (cw_output w) \<and>
     (\<forall>n os. same_in w os (snd (cs_read_input sys n os)) \<and>
        cw_to_socket w (snd (cs_read_input sys n os)) = cw_to_socket w os) \<and>
     (\<forall>n os. same_out w os (snd (cs_read_socket sys n os)) \<and>
        cw_output w (snd (cs_read_socket sys n os)) = cw_output w os) \<and>
     (\<forall>d os. same_in w os (snd (cs_write_socket sys d os)) \<and>
        cw_input w (snd (cs_write_socket sys d os)) = cw_input w os) \<and>
     (\<forall>d os. same_out w os (snd (cs_write_output sys d os)) \<and>
        cw_from_socket w (snd (cs_write_output sys d os)) = cw_from_socket w os) \<and>
     (\<forall>how os. \<exists>err os'. cs_shutdown sys how os = ((0, err), os') \<and> same_out w os os' \<and> same_in w os os') \<and>
     (\<forall>os. \<exists>err os'. cs_close_output sys os = ((0, err), os') \<and> same_out w os os' \<and> same_in w os os') \<and>
     (\<forall>p t os. same_out w os (snd (cs_poll sys p t os)) \<and> same_in w os (snd (cs_poll sys p t os)) \<and>
        map pf_events (snd (fst (cs_poll sys p t os))) = map pf_events p)"

text \<open>The invariant: each stream holds exactly the bytes that were read and not yet written.\<close>

definition holds :: "ByteStream \<Rightarrow> bytes \<Rightarrow> bytes \<Rightarrow> bool" where
  "holds bs source sink \<longleftrightarrow> bs_inv bs \<and> bs_capacity bs = copy_buffer_size \<and> \<not> bs_error bs \<and> source = sink @ bs_contents bs"

definition cp_inv :: "'o copied \<Rightarrow> 'o copy_system \<Rightarrow> 'o copy \<Rightarrow> bool" where
  "cp_inv w sys s \<longleftrightarrow> honest_copy w sys \<and>
     holds (cp_outbound s) (cw_input w (cp_os s)) (cw_to_socket w (cp_os s)) \<and>
     holds (cp_inbound s) (cw_from_socket w (cp_os s)) (cw_output w (cp_os s))"

lemma holds_end [simp]: "holds (bs_do_end_input bs) source sink = holds bs source sink"
  by (simp add: holds_def)

lemma copy_in_spec:
  assumes "honest_read sys_read source" and h: "holds bs (source os) sink"
  obtains fd' bs' os' n where "copy_in sys_read fd bs os = Inr (fd', bs', os')" and "holds bs' (source os') sink"
    and "os' = snd (sys_read n os)" and "fd_read_count fd' = fd_read_count fd + 1"
    and "bs_end_input bs \<longrightarrow> bs_end_input bs'"
proof -
  let ?cap = "bs_remaining_capacity bs" and ?n = "min BUFFER_SIZE (bs_remaining_capacity bs)"
  obtain len err str os' where r: "sys_read ?n os = (((int len, err), str), os')" "len \<le> ?n" "len \<le> length str"
    "source os' = source os @ take len str"
    using assms(1) unfolding honest_read_def by metis
  define fd' where "fd' = fd_register_read (if 0 < ?cap \<and> int len = 0 then fd\<lparr>fd_eof := True\<rparr> else fd)"
  have read: "fd_read sys_read ?cap fd os = Inr (take len str, fd', os')"
    using r(1,2) by (simp add: fd_read_def fd'_def Let_def not_less BUFFER_SIZE_def)
  obtain k bs1 where w: "bs_write (take len str) bs = (k, bs1)" by fastforce
  have inv: "bs_inv bs" using h by (simp add: holds_def)
  have "len \<le> bs_capacity bs - length (bs_contents bs)" using r(2) bs_inv_remaining [OF inv] by simp
  then have "bs_contents bs1 = bs_contents bs @ take len str"
    using bs_write_spec(1,2) [OF inv w] r(3) by (simp add: min_def)
  then have h1: "holds bs1 (source os') sink"
    using h r(4) bs_write_spec(3,5,8) [OF inv w] by (simp add: holds_def)
  let ?bs = "if fd_eof fd' then bs_do_end_input bs1 else bs1"
  have "copy_in sys_read fd bs os = Inr (fd', ?bs, os')" by (simp add: copy_in_def read w)
  then show thesis
    by (rule that [where n = ?n]) (use h1 r(1) bs_write_spec(7) [OF inv w] in \<open>auto simp: fd'_def fd_register_read_def\<close>)
qed

lemma copy_out_spec:
  assumes "honest_writev sys_writev sink" and h: "holds bs source (sink os)"
  obtains bs' os' d where "copy_out sys_writev fd bs os = Inr (fd_register_write fd, bs', os')"
    and "holds bs' source (sink os')" and "os' = snd (sys_writev d os)" and "bs_end_input bs' = bs_end_input bs"
proof -
  have inv: "bs_inv bs" and src: "source = sink os @ bs_contents bs" using h by (simp_all add: holds_def)
  let ?m = "min max_copy_length (bs_buffer_size bs)"
  define buf where "buf = take ?m (bs_contents bs)"
  have peek: "bs_peek_output ?m bs = buf" by (simp add: buf_def bs_peek_output_eq [OF inv])
  have "length (concat [buf]) < 2 ^ 31" by (simp add: buf_def max_copy_length_def)
  with file_write_some [OF assms(1) this, of fd os]
  obtain n os' where w: "fd_write sys_writev [buf] False fd os = Inr (n, fd_register_write fd, os')" "n \<le> length buf"
    "sink os' = sink os @ take n buf" "os' = snd (sys_writev buf os)"
    by auto
  obtain bs' where p: "bs_pop_output n bs = Inr bs'" "bs_inv bs'" "bs_contents bs' = drop n (bs_contents bs)"
    "bs_capacity bs' = bs_capacity bs" "bs_error bs' = bs_error bs" "bs_end_input bs' = bs_end_input bs"
    by (rule bs_pop_output_spec [OF inv])
  have "take n buf @ drop n (bs_contents bs) = bs_contents bs"
    using w(2) by (simp add: buf_def min.absorb1)
  then have "holds bs' source (sink os')"
    using p(2-5) h w(3) src by (simp add: holds_def)
  moreover have "copy_out sys_writev fd bs os = Inr (fd_register_write fd, bs', os')"
    unfolding copy_out_def Let_def peek using w(1) p(1) by (simp add: bvl_of_string_def)
  ultimately show thesis using that w(4) p(6) by blast
qed

section \<open>The rules under the event loop\<close>

lemma cp_rules_eq:
  "cp_rules sys =
     [\<lparr>ru_fd = cp_input, ru_direction = In, ru_callback = cp_rule1_callback sys,
       ru_interest = cp_rule1_interest, ru_cancel = cp_end_outbound\<rparr>,
      \<lparr>ru_fd = cp_socket, ru_direction = Out, ru_callback = cp_rule2_callback sys,
       ru_interest = cp_rule2_interest, ru_cancel = cp_end_outbound\<rparr>,
      \<lparr>ru_fd = cp_socket, ru_direction = In, ru_callback = cp_rule3_callback sys,
       ru_interest = cp_rule3_interest, ru_cancel = cp_end_inbound\<rparr>,
      \<lparr>ru_fd = cp_output, ru_direction = Out, ru_callback = cp_rule4_callback sys,
       ru_interest = cp_rule4_interest, ru_cancel = cp_end_inbound\<rparr>]"
  by (simp add: cp_rules_def el_add_rule_def)

text \<open>What no rule undoes.\<close>

definition cp_ends_kept :: "'o copy \<Rightarrow> 'o copy \<Rightarrow> bool" where
  "cp_ends_kept s s' \<longleftrightarrow> (bs_end_input (cp_outbound s) \<longrightarrow> bs_end_input (cp_outbound s')) \<and>
     (bs_end_input (cp_inbound s) \<longrightarrow> bs_end_input (cp_inbound s'))"

lemma cp_rule1_spec:
  assumes "cp_inv w sys s"
  shows "\<exists>s'. cp_rule1_callback sys s = Inr s' \<and> cp_inv w sys s' \<and> cp_ends_kept s s' \<and>
    fd_read_count (cp_input s') \<noteq> fd_read_count (cp_input s)"
proof -
  have "honest_read (cs_read_input sys) (cw_input w)" "holds (cp_outbound s) (cw_input w (cp_os s)) (cw_to_socket w (cp_os s))"
    using assms by (simp_all add: cp_inv_def honest_copy_def)
  then obtain fd' bs' os' n where c: "copy_in (cs_read_input sys) (cp_input s) (cp_outbound s) (cp_os s) = Inr (fd', bs', os')"
    "holds bs' (cw_input w os') (cw_to_socket w (cp_os s))" "os' = snd (cs_read_input sys n (cp_os s))"
    "fd_read_count fd' = fd_read_count (cp_input s) + 1" "bs_end_input (cp_outbound s) \<longrightarrow> bs_end_input bs'"
    by (rule copy_in_spec)
  moreover have "same_in w (cp_os s) os'" "cw_to_socket w os' = cw_to_socket w (cp_os s)"
    using assms unfolding c(3) by (simp_all add: cp_inv_def honest_copy_def)
  ultimately show ?thesis
    using assms by (simp add: cp_rule1_callback_def cp_inv_def cp_ends_kept_def same_in_def)
qed

lemma cp_rule2_spec:
  assumes "cp_inv w sys s"
  shows "\<exists>s'. cp_rule2_callback sys s = Inr s' \<and> cp_inv w sys s' \<and> cp_ends_kept s s' \<and>
    fd_write_count (cp_socket s') \<noteq> fd_write_count (cp_socket s)"
proof -
  have "honest_writev (cs_write_socket sys) (cw_to_socket w)"
    "holds (cp_outbound s) (cw_input w (cp_os s)) (cw_to_socket w (cp_os s))"
    using assms by (simp_all add: cp_inv_def honest_copy_def)
  then obtain bs' os' d where c: "copy_out (cs_write_socket sys) (cp_socket s) (cp_outbound s) (cp_os s) =
      Inr (fd_register_write (cp_socket s), bs', os')"
    "holds bs' (cw_input w (cp_os s)) (cw_to_socket w os')" "os' = snd (cs_write_socket sys d (cp_os s))"
    "bs_end_input bs' = bs_end_input (cp_outbound s)"
    by (rule copy_out_spec)
  have same: "same_in w (cp_os s) os'" "cw_input w os' = cw_input w (cp_os s)"
    using assms unfolding c(3) by (simp_all add: cp_inv_def honest_copy_def)
  obtain err os2 where sd: "cs_shutdown sys SHUT_WR os' = ((0, err), os2)" "same_out w os' os2" "same_in w os' os2"
    using assms unfolding cp_inv_def honest_copy_def by metis
  show ?thesis
    using assms c(1,2,4) same sd
    by (simp add: cp_rule2_callback_def cp_inv_def cp_ends_kept_def same_in_def same_out_def sk_shutdown_def
        SystemCall_def fd_register_write_def Let_def)
qed

lemma cp_rule3_spec:
  assumes "cp_inv w sys s"
  shows "\<exists>s'. cp_rule3_callback sys s = Inr s' \<and> cp_inv w sys s' \<and> cp_ends_kept s s' \<and>
    fd_read_count (cp_socket s') \<noteq> fd_read_count (cp_socket s)"
proof -
  have "honest_read (cs_read_socket sys) (cw_from_socket w)"
    "holds (cp_inbound s) (cw_from_socket w (cp_os s)) (cw_output w (cp_os s))"
    using assms by (simp_all add: cp_inv_def honest_copy_def)
  then obtain fd' bs' os' n where c: "copy_in (cs_read_socket sys) (cp_socket s) (cp_inbound s) (cp_os s) = Inr (fd', bs', os')"
    "holds bs' (cw_from_socket w os') (cw_output w (cp_os s))" "os' = snd (cs_read_socket sys n (cp_os s))"
    "fd_read_count fd' = fd_read_count (cp_socket s) + 1" "bs_end_input (cp_inbound s) \<longrightarrow> bs_end_input bs'"
    by (rule copy_in_spec)
  moreover have "same_out w (cp_os s) os'" "cw_output w os' = cw_output w (cp_os s)"
    using assms unfolding c(3) by (simp_all add: cp_inv_def honest_copy_def)
  ultimately show ?thesis
    using assms by (simp add: cp_rule3_callback_def cp_inv_def cp_ends_kept_def same_out_def)
qed

lemma cp_rule4_spec:
  assumes "cp_inv w sys s"
  shows "\<exists>s'. cp_rule4_callback sys s = Inr s' \<and> cp_inv w sys s' \<and> cp_ends_kept s s' \<and>
    fd_write_count (cp_output s') \<noteq> fd_write_count (cp_output s)"
proof -
  have "honest_writev (cs_write_output sys) (cw_output w)"
    "holds (cp_inbound s) (cw_from_socket w (cp_os s)) (cw_output w (cp_os s))"
    using assms by (simp_all add: cp_inv_def honest_copy_def)
  then obtain bs' os' d where c: "copy_out (cs_write_output sys) (cp_output s) (cp_inbound s) (cp_os s) =
      Inr (fd_register_write (cp_output s), bs', os')"
    "holds bs' (cw_from_socket w (cp_os s)) (cw_output w os')" "os' = snd (cs_write_output sys d (cp_os s))"
    "bs_end_input bs' = bs_end_input (cp_inbound s)"
    by (rule copy_out_spec)
  have same: "same_out w (cp_os s) os'" "cw_from_socket w os' = cw_from_socket w (cp_os s)"
    using assms unfolding c(3) by (simp_all add: cp_inv_def honest_copy_def)
  obtain err os2 where sd: "cs_close_output sys os' = ((0, err), os2)" "same_out w os' os2" "same_in w os' os2"
    using assms unfolding cp_inv_def honest_copy_def by metis
  show ?thesis
    using assms c(1,2,4) same sd
    by (simp add: cp_rule4_callback_def cp_inv_def cp_ends_kept_def same_in_def same_out_def fd_close_def
        SystemCall_def fd_register_write_def Let_def)
qed

text \<open>The mark of a cancelled rule: its stream has ended.\<close>

definition cp_marked :: "'o copy_system \<Rightarrow> 'o copy Rule \<Rightarrow> 'o copy \<Rightarrow> bool" where
  "cp_marked sys r s \<longleftrightarrow> (ru_cancel r = cp_end_outbound \<longrightarrow> bs_end_input (cp_outbound s)) \<and>
     (ru_cancel r = cp_end_inbound \<longrightarrow> bs_end_input (cp_inbound s))"

lemma cp_cancels_differ: "cp_end_outbound \<noteq> (cp_end_inbound :: 'o copy \<Rightarrow> _)"
proof
  assume eq: "cp_end_outbound = (cp_end_inbound :: 'o copy \<Rightarrow> _)"
  fix s :: "'o copy"
  let ?s = "s\<lparr>cp_outbound := ByteStream_new 0\<rparr>"
  have "cp_outbound (projr (cp_end_outbound ?s)) = cp_outbound (projr (cp_end_inbound ?s))" by (simp add: eq)
  then have "bs_end_input (bs_do_end_input (ByteStream_new 0)) = bs_end_input (ByteStream_new 0)"
    by (simp add: cp_end_outbound_def cp_end_inbound_def)
  then show False by simp
qed

lemma cp_callbacks:
  assumes "r \<in> set (cp_rules sys)" and "cp_inv w sys s"
  shows "\<exists>s'. ru_callback r s = Inr s' \<and> cp_inv w sys s' \<and> cp_ends_kept s s' \<and>
    ru_service_count r s' \<noteq> ru_service_count r s"
  using assms(1) cp_rule1_spec [OF assms(2)] cp_rule2_spec [OF assms(2)] cp_rule3_spec [OF assms(2)]
    cp_rule4_spec [OF assms(2)]
  by (auto simp: cp_rules_eq ru_service_count_def)

lemma cp_cancels:
  assumes "r \<in> set (cp_rules sys)"
  shows "ru_cancel r \<in> {cp_end_outbound, cp_end_inbound}"
  using assms by (auto simp: cp_rules_eq)

lemma cp_poll_same:
  assumes "cp_inv w sys s"
  shows "cp_inv w sys (snd (cp_poll sys pollfds t s))"
    and "map pf_events (snd (fst (cp_poll sys pollfds t s))) = map pf_events pollfds"
proof -
  obtain r os where p: "cs_poll sys pollfds t (cp_os s) = (r, os)" by fastforce
  then have "same_out w (cp_os s) os" "same_in w (cp_os s) os" "map pf_events (snd r) = map pf_events pollfds"
    using assms unfolding cp_inv_def honest_copy_def by (metis fst_conv snd_conv)+
  then show "cp_inv w sys (snd (cp_poll sys pollfds t s))"
    and "map pf_events (snd (fst (cp_poll sys pollfds t s))) = map pf_events pollfds"
    using assms p by (simp_all add: cp_poll_def cp_inv_def same_out_def same_in_def)
qed

interpretation cp: marking_client "cp_rules sys" "cp_inv w sys" "\<lambda>_ _. True" "cp_poll sys" "{}" "cp_marked sys" for w sys
proof
  fix r s
  assume "r \<in> set (cp_rules sys)" and "cp_inv w sys s"
  then show "(\<exists>e \<in> {}. ru_callback r s = Inl e) \<or> (\<exists>s'. ru_callback r s = Inr s' \<and> cp_inv w sys s' \<and>
      (ru_service_count r s' \<noteq> ru_service_count r s \<or> \<not> ru_interest r s'))"
    using cp_callbacks by blast
next
  fix r s
  assume "r \<in> set (cp_rules sys)" and "cp_inv w sys s"
  then show "\<exists>s'. ru_cancel r s = Inr s' \<and> cp_inv w sys s'"
    using cp_cancels [of r sys] by (auto simp: cp_end_outbound_def cp_end_inbound_def cp_inv_def)
next
  fix s pollfds t
  assume "cp_inv w sys s"
  then show "cp_inv w sys (snd (cp_poll sys pollfds t s))"
    and "map pf_events (snd (fst (cp_poll sys pollfds t s))) = map pf_events pollfds"
    by (rule cp_poll_same)+
next
  fix r s s'
  assume "r \<in> set (cp_rules sys)" and "ru_cancel r s = Inr s'"
  then show "cp_marked sys r s'"
    using cp_cancels [of r sys] cp_cancels_differ
    by (auto simp: cp_marked_def cp_end_outbound_def [abs_def] cp_end_inbound_def [abs_def] fun_eq_iff)
next
  fix r q s s'
  assume "r \<in> set (cp_rules sys)" and "ru_cancel r s = Inr s'" and "cp_marked sys q s"
  then show "cp_marked sys q s'"
    using cp_cancels [of r sys] by (auto simp: cp_marked_def cp_end_outbound_def [of s] cp_end_inbound_def [of s])
next
  fix r q s s'
  assume "r \<in> set (cp_rules sys)" and "cp_inv w sys s" and "ru_callback r s = Inr s'" and "cp_marked sys q s"
  then show "cp_marked sys q s'"
    using cp_callbacks [of r sys w s] by (auto simp: cp_marked_def cp_ends_kept_def)
next
  fix q s pollfds t
  assume "cp_marked sys q s"
  then show "cp_marked sys q (snd (cp_poll sys pollfds t s))"
    by (simp add: cp_marked_def cp_poll_def split: prod.split)
qed simp_all

section \<open>Correctness\<close>

text \<open>The states that rounds of the loop lead to, when between them the world goes on.\<close>

inductive cp_run :: "'o copied \<Rightarrow> 'o copy_system \<Rightarrow> 'o copy Rule list \<Rightarrow> 'o copy \<Rightarrow> bool" for w sys where
  start: "cw_input w os = [] \<Longrightarrow> cw_to_socket w os = [] \<Longrightarrow> cw_from_socket w os = [] \<Longrightarrow> cw_output w os = [] \<Longrightarrow>
    cp_run w sys (cp_rules sys) (copy_new socket input out os)"
| round: "cp_run w sys rules s \<Longrightarrow> el_wait_next_event (cp_poll sys) (-1) rules s = Inr (ret, rules', s') \<Longrightarrow>
    cp_run w sys rules' s'"
| world: "cp_run w sys rules s \<Longrightarrow> same_out w (cp_os s) os \<Longrightarrow> same_in w (cp_os s) os \<Longrightarrow>
    cp_run w sys rules (s\<lparr>cp_os := os\<rparr>)"

lemma cp_run_inv:
  assumes "cp_run w sys rules s" and "honest_copy w sys"
  shows "cp_inv w sys s \<and> subseq rules (cp_rules sys) \<and>
    (\<forall>r \<in> set (cp_rules sys). r \<in> set rules \<or> cp_marked sys r s)"
  using assms(1)
proof (induction rule: cp_run.induct)
  case (start os socket input out)
  have "bs_inv (ByteStream_new copy_buffer_size)" by (rule bs_inv_new) (simp add: copy_buffer_size_def)
  then show ?case using start assms(2) by (simp add: cp_inv_def copy_new_def holds_def)
next
  case (round rules s ret rules' s')
  then have i: "subseq rules (cp_rules sys)" "cp_inv w sys s" by blast+
  have "cp_inv w sys s'" "subseq rules' (cp_rules sys)"
    using cp.wait_client [OF i, of "-1"] round.hyps(2) by auto
  then show ?case using cp.wait_marks [OF round.hyps(2) i] round.IH by blast
next
  case (world rules s os)
  then show ?case by (simp add: cp_inv_def same_out_def same_in_def cp_marked_def)
qed

lemma cp_loop_run:
  assumes "cp_run w sys rules s" and "honest_copy w sys"
  shows "cp_loop sys fuel rules s \<in>
      {None, Some (Inl (Runtime_error ''EventLoop: error on polled file descriptor''))} \<or>
    (\<exists>rules' s' rules1 s1. cp_loop sys fuel rules s = Some (Inr (rules', s')) \<and> cp_run w sys rules' s' \<and>
       cp_run w sys rules1 s1 \<and> el_wait_next_event (cp_poll sys) (-1) rules1 s1 = Inr (Exit, rules', s'))"
  using assms(1)
proof (induction fuel arbitrary: rules s)
  case (Suc fuel)
  have i: "subseq rules (cp_rules sys)" "cp_inv w sys s" using cp_run_inv [OF Suc.prems assms(2)] by blast+
  show ?case
  proof (cases "el_wait_next_event (cp_poll sys) (-1) rules s")
    case (Inl e)
    then show ?thesis using cp.wait_client [OF i, of "-1"] by (auto simp: cp.thrown_def)
  next
    case (Inr x)
    obtain ret rules1 s1 where e: "el_wait_next_event (cp_poll sys) (-1) rules s = Inr (ret, rules1, s1)"
      using Inr by (cases x) auto
    have "cp_run w sys rules1 s1" by (rule cp_run.round [OF Suc.prems e])
    then show ?thesis using e Suc.IH [of rules1 s1] Suc.prems by (cases "ret = Exit") auto
  qed
qed simp

text \<open>Nothing but the end of the work lets the loop end, when \<open>poll\<close> does not fail.\<close>

lemma el_exit:
  assumes "el_wait_next_event sys_poll timeout rules s = Inr (Exit, rules', s')"
    and "\<And>p s. 0 \<le> fst (fst (fst (sys_poll p timeout s)))"
  shows "\<exists>pollfds. el_setup rules False s = Inr (rules', pollfds, False, s')"
proof -
  obtain rules1 pollfds b s1 where e: "el_setup rules False s = Inr (rules1, pollfds, b, s1)"
    using assms(1) by (auto simp: el_wait_next_event_def bindE_eq_Inr)
  obtain n err pollfds1 s2 where p: "sys_poll pollfds timeout s1 = (((n, err), pollfds1), s2)" by (metis prod.exhaust)
  have "0 \<le> n" using assms(2) [of pollfds s1] p by simp
  then show ?thesis
    using assms(1) e p by (auto simp: el_wait_next_event_def SystemCall_def bindE_eq_Inr Let_def split: if_splits)
qed

lemma cp_later:
  assumes "subseq [r, q] (cp_rules sys)" and "r = cp_rules sys ! 1"
  shows "ru_cancel q = cp_end_inbound"
  using assms cp_cancels_differ by (auto simp: cp_rules_eq split: if_splits)

lemma cp_interest_kept:
  assumes "q \<in> set (cp_rules sys)" and "ru_cancel q s = Inr s1"
  shows "cp_rule1_interest s1 = cp_rule1_interest s"
  using assms cp_cancels [OF assms(1)]
  by (auto simp: cp_end_outbound_def cp_end_inbound_def cp_rule1_interest_def bs_remaining_capacity_def)

lemma cp_done:
  assumes inv: "cp_inv w sys s'" and e: "el_setup rules False s = Inr (rules', pollfds, False, s')"
    and sub: "subseq rules (cp_rules sys)" and two: "cp_rules sys ! 1 \<in> set rules'"
    and marks: "cp_rules sys ! 0 \<in> set rules' \<or> cp_marked sys (cp_rules sys ! 0) s'"
  shows "cw_to_socket w (cp_os s') = cw_input w (cp_os s') \<and> bs_eof (cp_outbound s') \<and> cp_outbound_shutdown s'"
proof -
  let ?one = "cp_rules sys ! 0" and ?two = "cp_rules sys ! 1"
  have h: "holds (cp_outbound s') (cw_input w (cp_os s')) (cw_to_socket w (cp_os s'))" "\<not> bs_error (cp_inbound s')"
    using inv by (simp_all add: cp_inv_def holds_def)
  have "\<not> ru_interest ?two s'"
  proof (rule el_setup_quiet [OF e two])
    fix q s s1
    assume "subseq [?two, q] rules" and c: "ru_cancel q s = Inr s1" and n: "\<not> ru_interest ?two s"
    then have "ru_cancel q = cp_end_inbound" using cp_later [OF _ refl] sub subseq_order.trans by blast
    then show "\<not> ru_interest ?two s1" using c n by (auto simp: cp_rules_eq cp_end_inbound_def cp_rule2_interest_def)
  qed
  then have q: "bs_buffer_empty (cp_outbound s')" "bs_eof (cp_outbound s') \<longrightarrow> cp_outbound_shutdown s'"
    by (auto simp: cp_rules_eq cp_rule2_interest_def)
  then have empty: "bs_contents (cp_outbound s') = []"
    using h(1) by (simp add: bs_buffer_empty_def holds_def bs_inv_def)
  have "bs_remaining_capacity (cp_outbound s') = copy_buffer_size"
    using h(1) bs_inv_remaining [of "cp_outbound s'"] empty by (simp add: holds_def)
  then have one: "cp_rule1_interest s'" using h by (simp add: cp_rule1_interest_def holds_def copy_buffer_size_def)
  have "?one \<notin> set rules'"
  proof
    assume "?one \<in> set rules'"
    then have "\<not> ru_interest ?one s'"
    proof (rule el_setup_quiet [OF e])
      fix q s s1
      assume "subseq [?one, q] rules" and c: "ru_cancel q s = Inr s1" and n: "\<not> ru_interest ?one s"
      then have "q \<in> set (cp_rules sys)" using subseq_set [OF subseq_order.trans [OF _ sub]] by fastforce
      then show "\<not> ru_interest ?one s1" using n cp_interest_kept [OF _ c] by (simp add: cp_rules_eq)
    qed
    then show False using one by (simp add: cp_rules_eq)
  qed
  then have "bs_end_input (cp_outbound s')" using marks by (simp add: cp_marked_def cp_rules_eq)
  then have "bs_eof (cp_outbound s')" using q(1) by (simp add: bs_eof_def bs_buffer_empty_def)
  then show ?thesis using q(2) empty h(1) by (simp add: holds_def)
qed

section \<open>An example\<close>

text \<open>Standard input holds one byte, the socket has nothing to say, and every descriptor is always ready.\<close>

record example_files =
  xf_input :: bytes
  xf_to_socket :: bytes
  xf_output :: bytes

definition example_copied :: "example_files copied" where
  "example_copied = \<lparr>cw_input = xf_input, cw_to_socket = xf_to_socket, cw_from_socket = (\<lambda>_. []), cw_output = xf_output\<rparr>"

definition example_copy_system :: "example_files copy_system" where
  "example_copy_system =
     \<lparr>cs_read_input = (\<lambda>n os. if xf_input os = [] \<and> 0 < n then (((1, 0), [7]), os\<lparr>xf_input := [7]\<rparr>) else (((0, 0), []), os)),
      cs_read_socket = (\<lambda>n os. (((0, 0), []), os)),
      cs_write_socket = (\<lambda>d os. ((int (length d), 0), os\<lparr>xf_to_socket := xf_to_socket os @ d\<rparr>)),
      cs_write_output = (\<lambda>d os. ((int (length d), 0), os\<lparr>xf_output := xf_output os @ d\<rparr>)),
      cs_shutdown = (\<lambda>how os. ((0, 0), os)),
      cs_close_output = (\<lambda>os. ((0, 0), os)),
      cs_poll = (\<lambda>p t os. (((int (length p), 0), map (\<lambda>f. f\<lparr>pf_revents := pf_events f\<rparr>) p), os)),
      cs_getfl = (\<lambda>_. (0, 0)),
      cs_setfl = (\<lambda>_ _. (0, 0))\<rparr>"

abbreviation example_copy :: "example_files copy" where
  "example_copy \<equiv> copy_new (example_fd\<lparr>fd_num := 5\<rparr>) (example_fd\<lparr>fd_num := 0\<rparr>) (example_fd\<lparr>fd_num := 1\<rparr>)
     \<lparr>xf_input = [], xf_to_socket = [], xf_output = []\<rparr>"

lemma fd_write_nonblock:
  "length d < 2 ^ 31 \<Longrightarrow> fd_write (\<lambda>d os. ((int (length d), 0), f d os)) [d] False fd os =
     Inr (length d, fd_register_write fd, f d os)"
  by (rule write_once) simp_all

lemmas example_eval = example_copy_system_def copy_new_def example_fd_def cp_rules_eq cp_poll_def
  el_wait_next_event_def SystemCall_def poll_error_def poll_ready_def poll_hup_def POLLIN_def POLLOUT_def POLLERR_def
  POLLNVAL_def POLLHUP_def ru_service_count_def cp_rule1_callback_def cp_rule2_callback_def cp_rule3_callback_def
  cp_rule4_callback_def cp_rule1_interest_def cp_rule2_interest_def cp_rule3_interest_def cp_rule4_interest_def
  cp_end_outbound_def cp_end_inbound_def copy_in_def copy_out_def fd_read_def fd_register_read_def
  fd_register_write_def fd_close_def sk_shutdown_def bvl_of_string_def fd_write_nonblock
  bs_buffer_empty_def bs_eof_def bs_remaining_capacity_def bs_do_end_input_def bs_write_def bs_peek_output_def
  bs_pop_output_def ByteStream_new_def bl_append_def bl_of_string_def copy_buffer_size_def max_copy_length_def
  BUFFER_SIZE_def bl_concatenate_n_eq sub64_id u64_id Let_def

lemma example_loop:
  "\<exists>s'. cp_loop example_copy_system 3 (cp_rules example_copy_system) example_copy =
     Some (Inr ([cp_rules example_copy_system ! 1], s')) \<and> xf_input (cp_os s') = [7]"
  by (simp add: numeral_3_eq_3 example_eval)

lemma example_honest_copy: "honest_copy example_copied example_copy_system"
proof -
  have "honest_read (cs_read_input example_copy_system) xf_input" "honest_read (cs_read_socket example_copy_system) (\<lambda>_. [])"
    unfolding honest_read_def example_copy_system_def
    by (auto intro!: exI [of _ "0::nat"] exI [of _ "1::nat"] split: if_splits)
  moreover have "honest_writev (cs_write_socket example_copy_system) xf_to_socket"
    unfolding honest_writev_def example_copy_system_def by (intro allI exI) (auto simp: length_greater_0_conv)
  moreover have "honest_writev (cs_write_output example_copy_system) xf_output"
    unfolding honest_writev_def example_copy_system_def by (intro allI exI) (auto simp: length_greater_0_conv)
  ultimately show ?thesis
    by (simp add: honest_copy_def example_copied_def same_in_def same_out_def) (simp add: example_copy_system_def)
qed

lemma example_start: "cp_run example_copied example_copy_system (cp_rules example_copy_system) example_copy"
  by (rule cp_run.start) (simp_all add: example_copied_def)

text \<open>C31: Copying. In every state that the loop reaches, what has been written to the socket is a prefix of what has
  been read from standard input, and at most the megabyte of the buffer behind it; the same holds from the socket
  to standard output; and the loop, for any number of rounds, goes on, ends in such a state, or
  throws because \<open>poll\<close> reported an error on a descriptor. It throws nothing else.\<close>

theorem stream_copy:
  assumes "honest_copy w sys" and "cp_run w sys rules s"
  shows "prefix (cw_to_socket w (cp_os s)) (cw_input w (cp_os s)) \<and>
    length (cw_input w (cp_os s)) \<le> length (cw_to_socket w (cp_os s)) + 1048576 \<and>
    prefix (cw_output w (cp_os s)) (cw_from_socket w (cp_os s)) \<and>
    length (cw_from_socket w (cp_os s)) \<le> length (cw_output w (cp_os s)) + 1048576 \<and>
    (cp_loop sys fuel rules s = None \<or>
     cp_loop sys fuel rules s = Some (Inl (Runtime_error ''EventLoop: error on polled file descriptor'')) \<or>
     (\<exists>rules' s'. cp_loop sys fuel rules s = Some (Inr (rules', s')) \<and> cp_run w sys rules' s'))"
proof -
  have inv: "cp_inv w sys s" using cp_run_inv [OF assms(2,1)] by blast
  have h: "prefix sink source \<and> length source \<le> length sink + 1048576" if "holds bs source sink" for bs source sink
    using that by (auto simp: holds_def bs_inv_def copy_buffer_size_def)
  show ?thesis
    using inv h [of "cp_outbound s"] h [of "cp_inbound s"] cp_loop_run [OF assms(2,1), of fuel]
    unfolding cp_inv_def by blast
qed

theorem stream_copy_witness:
  "\<exists>rules s. cp_run example_copied example_copy_system rules s \<and> xf_input (cp_os s) = [7] \<and>
     prefix (xf_to_socket (cp_os s)) [7] \<and> length (xf_input (cp_os s)) \<le> length (xf_to_socket (cp_os s)) + 1048576"
proof -
  obtain rules s where r: "cp_run example_copied example_copy_system rules s" "xf_input (cp_os s) = [7]"
    using example_loop cp_loop_run [OF example_start example_honest_copy, of 3] by auto
  have "prefix (xf_to_socket (cp_os s)) [7]"
    using stream_copy [OF example_honest_copy r(1), of 0] r(2) by (simp add: example_copied_def)
  then show ?thesis using r by (intro exI [of _ rules] exI [of _ s]) simp
qed

text \<open>C32: The end of copying. When \<open>poll\<close> does not fail, and the loop ends with the rule that writes to the socket still in
  place (its descriptor has not hung up), then standard input has come to its end, every byte that was read from it has
  been written to the socket, and the socket has been shut down for writing.\<close>

theorem stream_copy_complete:
  assumes "honest_copy w sys" and "cp_run w sys rules s"
    and "\<forall>p t os. 0 \<le> fst (fst (fst (cs_poll sys p t os)))"
    and "cp_loop sys fuel rules s = Some (Inr (rules', s'))" and "cp_rules sys ! 1 \<in> set rules'"
  shows "cw_to_socket w (cp_os s') = cw_input w (cp_os s') \<and> bs_eof (cp_outbound s') \<and> cp_outbound_shutdown s'"
proof -
  obtain rules1 s1 where r: "cp_run w sys rules' s'" "cp_run w sys rules1 s1"
    "el_wait_next_event (cp_poll sys) (-1) rules1 s1 = Inr (Exit, rules', s')"
    using cp_loop_run [OF assms(2,1), of fuel] assms(4) by auto
  have "0 \<le> fst (fst (fst (cp_poll sys p (- 1) s)))" for p s
    using assms(3) by (simp add: cp_poll_def split: prod.split) (metis fst_conv)
  then obtain pollfds where e: "el_setup rules1 False s1 = Inr (rules', pollfds, False, s')"
    using el_exit [OF r(3)] by blast
  have one: "cp_rules sys ! 0 \<in> set (cp_rules sys)" by (simp add: cp_rules_eq)
  show ?thesis
    using cp_run_inv [OF r(1) assms(1)] cp_run_inv [OF r(2) assms(1)] one
    by (intro cp_done [OF _ e _ assms(5)]) auto
qed

theorem stream_copy_complete_witness:
  "\<exists>rules' s'. cp_loop example_copy_system 3 (cp_rules example_copy_system) example_copy = Some (Inr (rules', s')) \<and>
     xf_to_socket (cp_os s') = [7] \<and> cp_outbound_shutdown s'"
proof -
  obtain s' where r: "cp_loop example_copy_system 3 (cp_rules example_copy_system) example_copy =
      Some (Inr ([cp_rules example_copy_system ! 1], s'))" "xf_input (cp_os s') = [7]"
    using example_loop by blast
  have "\<forall>p t os. 0 \<le> fst (fst (fst (cs_poll example_copy_system p t os)))" by (simp add: example_copy_system_def)
  from stream_copy_complete [OF example_honest_copy example_start this r(1)] r show ?thesis
    by (auto simp: example_copied_def)
qed

end
