(* ===== verification/TCP_Progress.thy ===== *)
theory TCP_Progress
  imports Endpoint_Facts
begin

text \<open>
  What the calls of a connection achieve, beyond keeping its invariant: a receiver has the sequence numbers that
  arrived (\<open>rx_has\<close>) and acknowledges the first one missing; a sender is never idle while it has something to send
  (\<open>tx_busy\<close>), and the segments that it puts out occupy all the numbers that it counts as sent.
\<close>

section \<open>What a receiver has\<close>

text \<open>
  The absolute sequence numbers that have arrived, in order or not, and the state of a receiver between two
  segments: everything that can be assembled is.
\<close>

definition rx_has :: "TCPReceiver \<Rightarrow> nat set" where
  "rx_has rx =
     (if rx_syn rx
      then insert 0 (Suc ` sr_known (rx_reassembler rx)) \<union> {Suc k |k. sr_fin (rx_reassembler rx) = Some k}
      else {})"

definition rx_settled :: "TCPReceiver \<Rightarrow> bool" where
  "rx_settled rx \<longleftrightarrow>
     sr_settled (rx_reassembler rx) \<and>
     (bs_end_input (rx_stream_out rx) \<longleftrightarrow>
        (\<exists>k. sr_fin (rx_reassembler rx) = Some k \<and> k \<le> sr_next_pos (rx_reassembler rx))) \<and>
     (\<not> rx_syn rx \<longrightarrow> sr_known (rx_reassembler rx) = {} \<and> sr_fin (rx_reassembler rx) = None)"

lemma sr_known_bound:
  assumes "sr_sound S sr"
  shows "sr_known sr \<subseteq> {..<length S}"
proof -
  have "sr_inv sr" "sr_agree S sr" using assms by (simp_all add: sr_sound_def)
  moreover from this have "segs_set (sr_unassemble_buffer sr) \<subseteq> {..<length S}"
    by (auto simp: sr_agree_def segs_agree_def segs_set_def agrees_def)
  ultimately show ?thesis using sr_agree_next_pos [of sr S] by (auto simp: sr_known_def)
qed

text \<open>The acknowledgment number is the first one missing.\<close>

lemma rx_has_ack:
  assumes "rx_sound S isn rx" and "rx_settled rx"
  shows "{..<rx_abs_ackno rx} \<subseteq> rx_has rx" and "rx_abs_ackno rx \<notin> rx_has rx"
proof -
  let ?sr = "rx_reassembler rx"
  have snd: "sr_sound S ?sr" and inv: "sr_inv ?sr" using assms(1) by (simp_all add: rx_sound_def sr_sound_def)
  have st: "sr_settled ?sr" using assms(2) by (simp add: rx_settled_def)
  have fin: "sr_fin ?sr = Some k \<Longrightarrow> k = length S" for k using snd by (auto simp: sr_sound_def)
  have e: "sr_next_pos ?sr = length S" if "bs_end_input (rx_stream_out rx)"
    using that snd by (simp add: sr_sound_def rx_stream_out_def)
  note new = sr_next_pos_unknown [OF inv st] and bound = sr_known_bound [OF snd]
  have known: "{..<sr_next_pos ?sr} \<subseteq> sr_known ?sr" by (simp add: sr_known_def)
  show "{..<rx_abs_ackno rx} \<subseteq> rx_has rx"
  proof
    fix n
    assume n: "n \<in> {..<rx_abs_ackno rx}"
    then have syn: "rx_syn rx" by (auto simp: rx_abs_ackno_def split: if_splits)
    show "n \<in> rx_has rx"
    proof (cases n)
      case (Suc i)
      then show ?thesis
        using n syn known assms(2) fin e
        by (cases "i < sr_next_pos ?sr") (auto simp: rx_has_def rx_abs_ackno_def rx_settled_def split: if_splits)
    qed (simp add: rx_has_def syn)
  qed
  show "rx_abs_ackno rx \<notin> rx_has rx"
    using new bound fin e assms(2) by (auto simp: rx_has_def rx_abs_ackno_def rx_settled_def split: if_splits)
qed

lemma rx_has_ack_eq:
  assumes "rx_sound S isn rx" and "rx_settled rx" and "rx_has rx = {..<n}"
  shows "rx_abs_ackno rx = n"
  using rx_has_ack [OF assms(1,2)] assms(3) by (auto simp: not_less intro: antisym)

lemma rx_has_mono_ack:
  assumes "rx_sound S isn rx" "rx_settled rx" and "rx_sound S' isn' rx'" "rx_settled rx'"
    and "rx_has rx \<subseteq> rx_has rx'"
  shows "rx_abs_ackno rx \<le> rx_abs_ackno rx'"
  using rx_has_ack [OF assms(1,2)] rx_has_ack [OF assms(3,4)] assms(5) by (meson in_mono lessThan_iff linorder_not_less)

lemma carries_numbers:
  assumes "carries S isn m seg"
  shows "{m..<m + ts_length_in_sequence_space seg} =
    (if th_syn (ts_header seg) then {0} else {}) \<union>
    Suc ` {m - 1..<m - 1 + length (buf_str (ts_payload seg))} \<union>
    (if th_fin (ts_header seg) then {Suc (length S)} else {})"
proof -
  let ?d = "buf_str (ts_payload seg)"
  have m: "if th_syn (ts_header seg) then m = 0 else 1 \<le> m"
    and f: "th_fin (ts_header seg) \<longrightarrow> m - 1 + length ?d = length S"
    using assms unfolding carries_def by blast+
  have sy: "{m..<m + (length ?d + (if th_syn (ts_header seg) then 1 else 0))} =
      (if th_syn (ts_header seg) then {0} else {}) \<union> Suc ` {m - 1..<m - 1 + length ?d}"
  proof (cases "th_syn (ts_header seg)")
    case True
    then show ?thesis using m by (simp add: atLeast0_lessThan_Suc_eq_insert_0 lessThan_atLeast0)
  next
    case False
    then obtain i where "m = Suc i" using m by (cases m) auto
    then show ?thesis using False by simp
  qed
  show ?thesis
  proof (cases "th_fin (ts_header seg)")
    case True
    then have "m + ts_length_in_sequence_space seg = Suc (Suc (length S))"
      "m + (length ?d + (if th_syn (ts_header seg) then 1 else 0)) = Suc (length S)"
      using m f by (auto simp: ts_length_in_sequence_space_def split: if_splits)
    moreover from this(2) have "m \<le> Suc (length S)" by linarith
    ultimately show ?thesis using True sy by (simp add: atLeastLessThanSuc)
  qed (use sy in \<open>simp add: ts_length_in_sequence_space_def add_ac\<close>)
qed

text \<open>A segment adds the numbers it occupies, as far as they are in the window.\<close>

lemma rx_receive_set:
  assumes rx: "rx_sound S isn rx" "rx_settled rx" and c: "carries S isn m seg" and lim: "length S + 2 < 2 ^ 31"
    and r: "rx_segment_received seg rx = Inr rx'" and go: "rx_syn rx \<or> th_syn (ts_header seg)"
  shows "rx_settled rx'" and "sr_window_end (rx_reassembler rx') = sr_window_end (rx_reassembler rx)"
    and "rx_has rx' = rx_has rx \<union> {0} \<union>
      Suc ` ({m - 1..<m - 1 + length (buf_str (ts_payload seg))} \<inter> {..<sr_window_end (rx_reassembler rx)}) \<union>
      (if th_fin (ts_header seg) then {Suc (length S)} else {})"
proof -
  let ?sr = "rx_reassembler rx" and ?d = "buf_str (ts_payload seg)" and ?sr' = "rx_reassembler rx'"
  have big: "length S + 2 ^ 33 < 2 ^ 64" using lim by simp
  have syn: "rx_syn rx'" and push: "sr_push_substring ?d (m - 1) (th_fin (ts_header seg)) ?sr = Inr ?sr'"
    using rx_segment_received_spec [OF rx(1) c big] carries_near [OF rx(1) c lim] go r by (metis Inr_inject)+
  have "m - 1 + length ?d \<le> length S + 1"
    using c by (auto simp: carries_def agrees_def ts_length_in_sequence_space_def)
  then have ix: "m - 1 + length ?d < 2 ^ 64" using big by simp
  have inv: "sr_inv ?sr" and fin0: "sr_fin ?sr = None \<or> sr_fin ?sr = Some (length S)"
    using rx(1) by (simp_all add: rx_sound_def sr_sound_def)
  obtain sr' where "sr_push_substring ?d (m - 1) (th_fin (ts_header seg)) ?sr = Inr sr'"
    "sr_inv sr'" "sr_settled sr'" "sr_window_end sr' = sr_window_end ?sr"
    "sr_known sr' = sr_known ?sr \<union> ({m - 1..<m - 1 + length ?d} \<inter> {..<sr_window_end ?sr})"
    "sr_fin sr' = (if th_fin (ts_header seg) then Some (m - 1 + length ?d) else sr_fin ?sr)"
    "bs_end_input (sr_output sr') \<longleftrightarrow> bs_end_input (sr_output ?sr) \<or>
       (\<exists>k. sr_fin sr' = Some k \<and> k \<le> sr_next_pos sr')"
    by (rule sr_push_substring_spec [OF inv ix])
  moreover from this(1) push have "sr' = ?sr'" by simp
  ultimately have p: "sr_inv ?sr'" "sr_settled ?sr'" "sr_window_end ?sr' = sr_window_end ?sr"
    "sr_known ?sr' = sr_known ?sr \<union> ({m - 1..<m - 1 + length ?d} \<inter> {..<sr_window_end ?sr})"
    "sr_fin ?sr' = (if th_fin (ts_header seg) then Some (m - 1 + length ?d) else sr_fin ?sr)"
    "bs_end_input (sr_output ?sr') \<longleftrightarrow> bs_end_input (sr_output ?sr) \<or>
       (\<exists>k. sr_fin ?sr' = Some k \<and> k \<le> sr_next_pos ?sr')"
    by simp_all
  have fin: "sr_fin ?sr' = (if th_fin (ts_header seg) then Some (length S) else sr_fin ?sr)"
    using p(5) c unfolding carries_def by simp
  have mono: "sr_next_pos ?sr \<le> sr_next_pos ?sr'"
    using p(4) by (intro sr_known_mono_next [OF p(1,2)]) blast
  have "\<exists>k. sr_fin ?sr' = Some k \<and> k \<le> sr_next_pos ?sr'" if e: "bs_end_input (sr_output ?sr)"
  proof -
    obtain k where "sr_fin ?sr = Some k" "k \<le> sr_next_pos ?sr"
      using e rx(2) by (auto simp: rx_settled_def rx_stream_out_def)
    then show ?thesis using mono fin fin0 by auto
  qed
  then show "rx_settled rx'" and "sr_window_end ?sr' = sr_window_end ?sr"
    unfolding rx_settled_def rx_stream_out_def using p(2,3,6) syn by blast+
  have "rx_has rx \<union> {0} = insert 0 (Suc ` sr_known ?sr) \<union> {Suc k |k. sr_fin ?sr = Some k}"
    using rx(2) by (simp add: rx_has_def rx_settled_def)
  moreover have "rx_has rx' = insert 0 (Suc ` sr_known ?sr') \<union> {Suc k |k. sr_fin ?sr' = Some k}"
    using syn by (simp add: rx_has_def)
  moreover have "{Suc k |k. sr_fin ?sr' = Some k} = {Suc k |k. sr_fin ?sr = Some k} \<union>
      (if th_fin (ts_header seg) then {Suc (length S)} else {})"
    using fin fin0 by auto
  ultimately show "rx_has rx' = rx_has rx \<union> {0} \<union>
      Suc ` ({m - 1..<m - 1 + length ?d} \<inter> {..<sr_window_end ?sr}) \<union>
      (if th_fin (ts_header seg) then {Suc (length S)} else {})"
    using p(4) by (simp only: image_Un) blast
qed

lemma rx_receive_has:
  assumes rx: "rx_sound S isn rx" "rx_settled rx" and c: "carries S isn m seg" and lim: "length S + 2 < 2 ^ 31"
    and r: "rx_segment_received seg rx = Inr rx'"
  shows "rx_settled rx'" and "sr_window_end (rx_reassembler rx') = sr_window_end (rx_reassembler rx)"
    and "rx_has rx \<subseteq> rx_has rx'" and "rx_has rx' \<subseteq> rx_has rx \<union> {m..<m + ts_length_in_sequence_space seg}"
    and "\<And>n. rx_syn rx \<or> th_syn (ts_header seg) \<Longrightarrow> n \<in> {m..<m + ts_length_in_sequence_space seg} \<Longrightarrow>
           (n \<in> {1..length S} \<longrightarrow> n \<le> sr_window_end (rx_reassembler rx)) \<Longrightarrow> n \<in> rx_has rx'"
proof -
  let ?sr = "rx_reassembler rx" and ?d = "buf_str (ts_payload seg)"
  let ?new = "{m..<m + ts_length_in_sequence_space seg}"
  note num = carries_numbers [OF c]
  have "rx_settled rx' \<and> sr_window_end (rx_reassembler rx') = sr_window_end ?sr \<and>
    rx_has rx \<subseteq> rx_has rx' \<and> rx_has rx' \<subseteq> rx_has rx \<union> ?new"
  proof (cases "rx_syn rx \<or> th_syn (ts_header seg)")
    case False
    then have "rx' = rx" using r by (simp add: rx_segment_received_def)
    then show ?thesis using rx(2) by simp
  next
    case True
    note s = rx_receive_set [OF rx c lim r True]
    have "0 \<in> rx_has rx \<or> th_syn (ts_header seg)" using True by (auto simp: rx_has_def)
    then have "rx_has rx' \<subseteq> rx_has rx \<union> ?new" unfolding s(3) num by auto
    moreover have "rx_has rx \<subseteq> rx_has rx'" unfolding s(3) by blast
    ultimately show ?thesis using s(1,2) by blast
  qed
  then show "rx_settled rx'" "sr_window_end (rx_reassembler rx') = sr_window_end ?sr"
    "rx_has rx \<subseteq> rx_has rx'" "rx_has rx' \<subseteq> rx_has rx \<union> ?new"
    by blast+
  fix n
  assume go: "rx_syn rx \<or> th_syn (ts_header seg)" and n: "n \<in> ?new"
    and win: "n \<in> {1..length S} \<longrightarrow> n \<le> sr_window_end ?sr"
  note has = rx_receive_set(3) [OF rx c lim r go]
  consider "n = 0" | "th_fin (ts_header seg)" "n = Suc (length S)"
    | i where "n = Suc i" "i \<in> {m - 1..<m - 1 + length ?d}"
    using n unfolding num by (elim UnE imageE) (simp_all split: if_splits)
  then show "n \<in> rx_has rx'"
  proof cases
    case 3
    moreover have "i < length S"
      using 3(2) c by (auto simp: carries_def agrees_def ts_length_in_sequence_space_def)
    ultimately have "n \<in> Suc ` ({m - 1..<m - 1 + length ?d} \<inter> {..<sr_window_end ?sr})" using win by simp
    then show ?thesis unfolding has by blast
  qed (simp_all add: has)
qed

lemma rx_read_has:
  assumes "rx_sound S isn rx" and "length S + rx_capacity rx < 2 ^ 64" and "rx_read n rx = Inr (d, rx')"
  shows "rx_settled rx' = rx_settled rx" and "rx_has rx' = rx_has rx"
    and "bs_contents (rx_stream_out rx') = drop n (bs_contents (rx_stream_out rx))"
    and "d = take n (bs_contents (rx_stream_out rx))"
    and "bs_end_input (rx_stream_out rx') = bs_end_input (rx_stream_out rx)"
    and "sr_window_end (rx_reassembler rx) \<le> sr_window_end (rx_reassembler rx')"
proof -
  let ?sr = "rx_reassembler rx"
  have inv: "sr_inv ?sr" "sr_next_pos ?sr + sr_capacity ?sr < 2 ^ 64"
    using assms rx_next_pos_le [OF assms(1)] by (auto simp: rx_sound_def sr_sound_def)
  obtain sr' where r: "sr_read n ?sr = Inr (take n (bs_contents (sr_output ?sr)), sr')" "sr_inv sr'"
    "sr_known sr' = sr_known ?sr" "sr_capacity sr' = sr_capacity ?sr" "sr_settled sr' = sr_settled ?sr"
    "bs_contents (sr_output sr') = drop n (bs_contents (sr_output ?sr))" "sr_fin sr' = sr_fin ?sr"
    "sr_next_pos sr' = sr_next_pos ?sr" "bs_end_input (sr_output sr') = bs_end_input (sr_output ?sr)"
    by (rule sr_read_spec [OF inv, of n])
  have rx': "rx' = rx\<lparr>rx_reassembler := sr'\<rparr>" "d = take n (bs_contents (sr_output ?sr))"
    using assms(3) r(1) by (simp_all add: rx_read_def)
  show "rx_settled rx' = rx_settled rx" "rx_has rx' = rx_has rx"
    "bs_end_input (rx_stream_out rx') = bs_end_input (rx_stream_out rx)"
    "bs_contents (rx_stream_out rx') = drop n (bs_contents (rx_stream_out rx))"
    "d = take n (bs_contents (rx_stream_out rx))"
    using r by (simp_all add: rx' rx_settled_def rx_has_def rx_stream_out_def)
  have "bs_bytes_read (sr_output ?sr) + length (bs_contents (sr_output ?sr)) =
      bs_bytes_read (sr_output sr') + length (bs_contents (sr_output sr'))"
    using sr_inv_bounds(7) [OF inv(1)] sr_inv_bounds(7) [OF r(2)] r(8) by simp
  then show "sr_window_end ?sr \<le> sr_window_end (rx_reassembler rx')"
    using r(4,6) by (simp add: rx' sr_window_end_def)
qed

section \<open>What a sender does\<close>

text \<open>The segment occupies the absolute sequence number \<open>n\<close>; streams are short enough for this to be unambiguous.\<close>

definition spans :: "WrappingInt32 \<Rightarrow> TCPSegment \<Rightarrow> nat \<Rightarrow> bool" where
  "spans isn seg n \<longleftrightarrow>
     (\<exists>m. m < 2 ^ 32 \<and> th_seqno (ts_header seg) = wrap m isn \<and> m \<le> n \<and> n < m + ts_length_in_sequence_space seg)"

lemma wrap_inj: "m < 2 ^ 32 \<Longrightarrow> k < 2 ^ 32 \<Longrightarrow> wrap m isn = wrap k isn \<Longrightarrow> m = k"
  by (simp add: wrap_def wi_plus_def word_of_nat_eq_iff take_bit_nat_eq_self)

lemma spans_carries:
  assumes "carries S isn m seg" and "length S + 2 < 2 ^ 31"
  shows "spans isn seg n \<longleftrightarrow> n \<in> {m..<m + ts_length_in_sequence_space seg}"
proof -
  have "m \<le> length S + 2" using assms(1) by (auto simp: carries_def agrees_def)
  then have "m < 2 ^ 32" using assms(2) by simp
  moreover have "th_seqno (ts_header seg) = wrap m isn" using assms(1) unfolding carries_def by blast
  ultimately show ?thesis using wrap_inj [of m] by (auto simp: spans_def)
qed

lemma tracked_spans:
  "tracked S isn lo segs hi \<Longrightarrow> length S + 2 < 2 ^ 31 \<Longrightarrow> n \<in> {lo..<hi} \<Longrightarrow> \<exists>g \<in> set segs. spans isn g n"
proof (induction S isn lo segs hi rule: tracked.induct)
  case (2 S isn lo seg segs hi)
  then show ?case using spans_carries [of S isn lo seg n] by (cases "n < lo + ts_length_in_sequence_space seg") auto
qed simp

abbreviation tx_count :: "TCPSender \<Rightarrow> uint32_t" where
  "tx_count tx \<equiv> rt_consecutive_retransmissions (tx_timer tx)"

text \<open>
  A sender is never idle while it has something to send: it waits for an acknowledgment, or all that was written is sent
  and acknowledged. Until its SYN is acknowledged it sends nothing else.
\<close>

definition tx_opening :: "TCPSender \<Rightarrow> bool" where
  "tx_opening tx \<longleftrightarrow> (tx_abs_ackno tx = 0 \<longrightarrow> tx_next_seqno tx \<le> 1 \<and> tx_window_size tx = 1)"

definition tx_busy :: "bytes \<Rightarrow> TCPSender \<Rightarrow> bool" where
  "tx_busy S tx \<longleftrightarrow>
     tx_next_seqno tx = 0 \<or> tx_abs_ackno tx < tx_next_seqno tx \<or>
     bs_contents (tx_stream tx) = [] \<and> (bs_end_input (tx_stream tx) \<longrightarrow> tx_next_seqno tx = length S + 2)"

text \<open>
  From \<open>tx\<close> to \<open>tx'\<close> the segments \<open>news\<close> were sent, which occupy the numbers that are new; a new acknowledgment ends the
  counting of retransmissions.
\<close>

definition tx_goes :: "TCPSender \<Rightarrow> TCPSender \<Rightarrow> TCPSegment list \<Rightarrow> bool" where
  "tx_goes tx tx' news \<longleftrightarrow>
     tx_isn tx' = tx_isn tx \<and> (\<forall>g \<in> set news. plain g) \<and> tx_abs_ackno tx \<le> tx_abs_ackno tx' \<and> tx_next_seqno tx \<le> tx_next_seqno tx' \<and>
     (\<forall>n \<in> {tx_next_seqno tx..<tx_next_seqno tx'}. \<exists>g \<in> set news. spans (tx_isn tx) g n) \<and>
     tx_next_seqno tx' \<le> max (tx_next_seqno tx) (tx_abs_ackno tx' + tx_window tx') \<and>
     tx_count tx' = (if tx_abs_ackno tx < tx_abs_ackno tx' then 0 else tx_count tx)"

text \<open>A sender between two calls of the connection, which has taken its segments.\<close>

definition tx_ready :: "bytes \<Rightarrow> TCPSender \<Rightarrow> bool" where
  "tx_ready S tx \<longleftrightarrow> tx_inv S tx \<and> tx_plain tx \<and> tx_opening tx \<and> tx_segments_out tx = []"

lemma tx_count_send: "tx_plain tx \<Longrightarrow> tx_count (tx_send_no_empty_segment seg tx) = tx_count tx"
  by (simp add: tx_plain_def tx_send_eq rt_start_def)

lemma tx_count_fill_loop: "tx_plain tx \<Longrightarrow> tx_fill_loop tx = Inr tx' \<Longrightarrow> tx_count tx' = tx_count tx"
proof (induction tx rule: tx_fill_loop.induct)
  case (1 tx)
  note simps = tx_fill_loop.simps [of tx]
  show ?case
  proof (cases "sub64 (tx_next_seqno tx) (tx_abs_ackno tx) < tx_window tx \<and> \<not> bs_eof (tx_stream tx)")
    case False
    then show ?thesis using "1.prems" by (auto simp: simps Let_def tx_count_send split: if_splits)
  next
    case True
    have "tx_count (tx_send_no_empty_segment seg (tx\<lparr>tx_stream := s\<rparr>)) = tx_count tx" for seg s
      using tx_count_send [of "tx\<lparr>tx_stream := s\<rparr>" seg] "1.prems"(1) by simp
    with "1.prems" True show ?thesis
      using "1.IH" by (auto simp: simps Let_def tx_plain_send split: sum.splits if_splits)
  qed
qed

lemma tx_count_fill_window:
  assumes "tx_plain tx" and "tx_fill_window tx = Inr tx'"
  shows "tx_count tx' = tx_count tx"
proof -
  have "tx_fill_loop (tx_send_no_empty_segment syn_segment tx) = Inr tx' \<or> tx' = tx \<or> tx_fill_loop tx = Inr tx'"
    using assms(2) by (simp add: tx_fill_window_def split: if_splits)
  then show ?thesis
    using assms(1) tx_plain_send [OF assms(1), of syn_segment] tx_count_fill_loop tx_count_send plain_simps(2) by metis
qed

lemma tx_goes_refl: "tx_goes tx tx []"
  by (simp add: tx_goes_def)

lemma tx_goes_trans:
  assumes "tx_goes tx tx1 news" and "tx_goes tx1 tx2 news'" and "tx_window_size tx2 = tx_window_size tx1"
  shows "tx_goes tx tx2 (news @ news')"
proof -
  have "\<exists>g \<in> set (news @ news'). spans (tx_isn tx) g n" if "n \<in> {tx_next_seqno tx..<tx_next_seqno tx2}" for n
    using that assms(1,2) by (cases "n < tx_next_seqno tx1") (auto simp: tx_goes_def)
  moreover have "tx_window tx2 = tx_window tx1" using assms(3) by (simp add: tx_window_def)
  ultimately show ?thesis using assms(1,2) by (auto simp: tx_goes_def)
qed

lemma tx_out_simps [simp]:
  "tx_goes tx (tx'\<lparr>tx_segments_out := out\<rparr>) news = tx_goes tx tx' news"
  "tx_goes (tx\<lparr>tx_segments_out := out\<rparr>) tx' news = tx_goes tx tx' news"
  "tx_busy S (tx\<lparr>tx_segments_out := out\<rparr>) = tx_busy S tx"
  "tx_opening (tx\<lparr>tx_segments_out := out\<rparr>) = tx_opening tx"
  by (simp_all add: tx_goes_def tx_busy_def tx_opening_def tx_window_def)

lemma tx_ready_drained:
  assumes "tx_inv S tx" "tx_plain tx" "tx_opening tx"
  shows "tx_ready S (tx\<lparr>tx_segments_out := []\<rparr>)"
  using assms tx_pop_inv [OF assms(1), of "[]"] by (simp add: tx_ready_def tx_plain_def)

lemma tx_syn_in_flight:
  assumes inv: "tx_inv S tx" and "tx_next_seqno tx = tx_bytes_in_flight tx" and "0 < tx_next_seqno tx"
  shows "tx_abs_ackno tx < tx_next_seqno tx"
proof -
  have t: "tracked S (tx_isn tx) 0 (tx_segments_track tx) (tx_next_seqno tx)"
    using inv assms(2) by (simp add: tx_inv_def tx_base_def)
  then obtain seg segs where seg: "tx_segments_track tx = seg # segs"
    using assms(3) by (cases "tx_segments_track tx") auto
  then have "tx_abs_ackno tx < ts_length_in_sequence_space seg"
    using inv assms(2) by (simp add: tx_inv_def tx_base_def)
  moreover have "ts_length_in_sequence_space seg \<le> tx_next_seqno tx"
    using t seg by (auto dest: tracked_le)
  ultimately show ?thesis by simp
qed

lemma tx_fill_window_goes:
  assumes rd: "tx_ready S tx" and lim: "length S + 2 < 2 ^ 31"
  obtains tx' where "tx_fill_window tx = Inr tx'" and "tx_goes tx tx' (tx_segments_out tx')"
    and "tx_ready S (tx'\<lparr>tx_segments_out := []\<rparr>)" and "tx_busy S tx'" and "0 < tx_next_seqno tx'"
    and "tx_abs_ackno tx' = tx_abs_ackno tx" and "tx_window_size tx' = tx_window_size tx"
    and "tx_next_seqno tx = length S + 2 \<longrightarrow> tx_segments_out tx' = []"
proof -
  have inv: "tx_inv S tx" "tx_plain tx" "tx_opening tx" and out: "tx_segments_out tx = []"
    using rd by (simp_all add: tx_ready_def)
  obtain tx' news where f: "tx_fill_window tx = Inr tx'" "tx_sent S tx tx' news" "0 < tx_next_seqno tx'"
    "tx_next_seqno tx = tx_bytes_in_flight tx \<and> 0 < tx_next_seqno tx \<and> tx' = tx \<or> tx_filled S tx'"
    using tx_fill_window_spec [OF inv(1)] by blast
  have s: "tx_inv S tx'" "tx_isn tx' = tx_isn tx" "tx_abs_ackno tx' = tx_abs_ackno tx"
    "tx_window_size tx' = tx_window_size tx" "bs_end_input (tx_stream tx') = bs_end_input (tx_stream tx)"
    "tx_segments_out tx' = tx_segments_out tx @ news"
    "tx_next_seqno tx' = tx_next_seqno tx + sum_list (map ts_length_in_sequence_space news)"
    "news \<noteq> [] \<longrightarrow> tx_next_seqno tx' \<le> tx_abs_ackno tx + tx_window tx"
    using f(2) unfolding tx_sent_def by blast+
  have w: "tx_window tx' = tx_window tx" using s(4) by (simp add: tx_window_def)
  have p: "tx_plain tx'" using tx_plain_fill_window [OF inv(2) f(1)] .
  then have "\<forall>g \<in> set news. plain g" using s(6) by (simp add: tx_plain_def)
  moreover note tr = tx_sent_tracked [OF inv(1) f(2)]
  moreover have "\<forall>n \<in> {tx_next_seqno tx..<tx_next_seqno tx'}. \<exists>g \<in> set news. spans (tx_isn tx) g n"
    using tracked_spans [OF tr lim] by blast
  moreover have "tx_next_seqno tx' \<le> max (tx_next_seqno tx) (tx_abs_ackno tx + tx_window tx)"
    using s(7,8) by (cases "news = []") auto
  ultimately have g: "tx_goes tx tx' (tx_segments_out tx')"
    using s w out tx_count_fill_window [OF inv(2) f(1)] by (simp add: tx_goes_def)
  have o: "tx_opening tx'"
    using inv(3) s(3,4,7,8) by (cases "news = []") (auto simp: tx_opening_def tx_window_def)
  have b: "tx_busy S tx'"
  proof (cases "tx_filled S tx'")
    case True
    then show ?thesis using tx_window_bound(1) [of tx'] by (auto simp: tx_filled_def tx_busy_def)
  next
    case False
    then have "tx_next_seqno tx = tx_bytes_in_flight tx" "0 < tx_next_seqno tx" "tx' = tx" using f(4) by simp_all
    then have "tx_abs_ackno tx < tx_next_seqno tx" by (intro tx_syn_in_flight [OF inv(1)])
    then show ?thesis using \<open>tx' = tx\<close> by (simp add: tx_busy_def)
  qed
  have "news = []" if "tx_next_seqno tx = length S + 2"
    using that tx_inv_bounds(1) [OF s(1)] s(7) tracked_empty_iff [OF tr] by simp
  then show thesis using that [OF f(1) g] tx_ready_drained [OF s(1) p o] b f(3) s out by simp
qed

lemma tx_ack_goes:
  assumes rd: "tx_ready S tx" and busy: "tx_busy S tx" and lim: "length S + 2 < 2 ^ 31"
    and k: "0 < k" "k \<le> tx_next_seqno tx" "ackno = wrap k (tx_isn tx)"
  obtains tx' where "tx_ack_received ackno w tx = Inr tx'" and "tx_goes tx tx' (tx_segments_out tx')"
    and "tx_ready S (tx'\<lparr>tx_segments_out := []\<rparr>)" and "tx_busy S tx'"
    and "tx_abs_ackno tx' = max (tx_abs_ackno tx) k" and "tx_window_size tx' = w"
    and "k \<le> tx_abs_ackno tx \<longrightarrow> tx_segments_out tx' = [] \<and> tx_next_seqno tx' = tx_next_seqno tx"
proof -
  have inv: "tx_inv S tx" "tx_plain tx" "tx_opening tx" "tx_segments_out tx = []"
    using rd by (simp_all add: tx_ready_def)
  have "tx_next_seqno tx \<le> length S + 2" "tx_abs_ackno tx \<le> tx_next_seqno tx"
    using tx_inv_bounds(1) [OF inv(1)] inv(1) by (simp_all add: tx_inv_def)
  then have a: "unwrap ackno (tx_isn tx) (tx_abs_ackno tx) = k"
    using k(2,3) lim by (intro unwrap_near) simp_all
  show thesis
  proof (cases "k \<le> tx_abs_ackno tx")
    case True
    then have "tx_ack_received ackno w tx = Inr (tx\<lparr>tx_window_size := w\<rparr>)" "tx_inv S (tx\<lparr>tx_window_size := w\<rparr>)"
      using tx_ack_received_spec(2) [OF inv(1), of ackno w] by (simp_all add: a)
    moreover from this(2) have "tx_ready S (tx\<lparr>tx_window_size := w, tx_segments_out := []\<rparr>)"
      using inv(2) True k(1) by (intro tx_ready_drained) (simp_all add: tx_opening_def)
    ultimately show thesis
      using True inv(4) busy
      by (intro that [of "tx\<lparr>tx_window_size := w\<rparr>"]) (simp_all add: tx_goes_def tx_busy_def max_def)
  next
    case False
    then obtain tx2 where tx2: "tx_acked S k w tx tx2" "tx_ack_received ackno w tx = tx_fill_window tx2"
      using tx_ack_received_spec(3) [OF inv(1), of ackno w] k(2) by (auto simp: a)
    have f2: "tx_inv S tx2" "tx_abs_ackno tx2 = k" "tx_window_size tx2 = w" "tx_isn tx2 = tx_isn tx"
      "tx_stream tx2 = tx_stream tx" "tx_next_seqno tx2 = tx_next_seqno tx" "tx_segments_out tx2 = []" "tx_count tx2 = 0"
      using tx2(1) inv(4) unfolding tx_acked_def by simp_all
    have "set (tx_segments_track tx2) \<subseteq> set (tx_segments_track tx)" using tx2(1) by (auto simp: tx_acked_def)
    then have "tx_plain tx2" using inv(2) f2(7,8) by (auto simp: tx_plain_def)
    then have "tx_ready S tx2" using f2 k(1) by (simp add: tx_ready_def tx_opening_def)
    then obtain tx' where t: "tx_fill_window tx2 = Inr tx'" "tx_goes tx2 tx' (tx_segments_out tx')"
      "tx_ready S (tx'\<lparr>tx_segments_out := []\<rparr>)" "tx_busy S tx'" "tx_abs_ackno tx' = tx_abs_ackno tx2"
      "tx_window_size tx' = tx_window_size tx2"
      by (rule tx_fill_window_goes [OF _ lim])
    have "tx_goes tx tx' (tx_segments_out tx')"
      using t(2,5) f2 False unfolding tx_goes_def by simp
    then show thesis using t f2 False tx2(2) by (intro that [of tx']) simp_all
  qed
qed

text \<open>Time passes: at most the oldest segment is sent again.\<close>

lemma tx_tick_goes:
  assumes "tx_ready S tx"
  shows "tx_ready S ((tx_tick ms tx)\<lparr>tx_segments_out := []\<rparr>)" and "tx_busy S (tx_tick ms tx) = tx_busy S tx"
    and "tx_isn (tx_tick ms tx) = tx_isn tx" "tx_stream (tx_tick ms tx) = tx_stream tx"
    "tx_next_seqno (tx_tick ms tx) = tx_next_seqno tx" "tx_abs_ackno (tx_tick ms tx) = tx_abs_ackno tx"
    "tx_window_size (tx_tick ms tx) = tx_window_size tx"
    and "\<forall>g \<in> set (tx_segments_out (tx_tick ms tx)). plain g"
    and "tx_segments_track tx = [] \<Longrightarrow> tx_tick ms tx = tx"
    and "tx_count tx = 0 \<Longrightarrow> tx_count (tx_tick ms tx) \<le> 1"
proof -
  have rd: "tx_inv S tx" "tx_plain tx" "tx_opening tx" "tx_segments_out tx = []"
    using assms by (simp_all add: tx_ready_def)
  show fields: "tx_isn (tx_tick ms tx) = tx_isn tx" "tx_stream (tx_tick ms tx) = tx_stream tx"
    "tx_next_seqno (tx_tick ms tx) = tx_next_seqno tx" "tx_abs_ackno (tx_tick ms tx) = tx_abs_ackno tx"
    "tx_window_size (tx_tick ms tx) = tx_window_size tx"
    by (simp_all add: tx_tick_def Let_def split: prod.splits list.splits)
  have p: "tx_plain (tx_tick ms tx)" using tx_plain_tick [OF rd(2)] .
  then show "\<forall>g \<in> set (tx_segments_out (tx_tick ms tx)). plain g" by (simp add: tx_plain_def)
  have "tx_opening (tx_tick ms tx)" using rd(3) fields by (simp add: tx_opening_def)
  then show "tx_ready S ((tx_tick ms tx)\<lparr>tx_segments_out := []\<rparr>)"
    using tx_tick_inv [OF rd(1)] p by (intro tx_ready_drained)
  show "tx_busy S (tx_tick ms tx) = tx_busy S tx" using fields by (simp add: tx_busy_def)
  show "tx_tick ms tx = tx" if "tx_segments_track tx = []"
    using that rd(1) by (simp add: tx_tick_def tx_inv_def)
  show "tx_count (tx_tick ms tx) \<le> 1" if "tx_count tx = 0"
    using that by (auto simp: tx_tick_def rt_timeout_def rt_reset_timer_def rt_close_def Let_def split: list.splits)
qed

section \<open>What a connection does\<close>

text \<open>From \<open>tc\<close> to \<open>tc'\<close> the sender's segments \<open>raw\<close> were put out, stamped by the receiver.\<close>

definition tc_goes :: "TCPConnection \<Rightarrow> TCPConnection \<Rightarrow> TCPSegment list \<Rightarrow> bool" where
  "tc_goes tc tc' raw \<longleftrightarrow>
     tx_goes (tc_sender tc) (tc_sender tc') raw \<and>
     tc_segments_out tc' = tc_segments_out tc @ map (tc_stamp (tc_receiver tc')) raw"

definition tc_ready :: "bytes \<Rightarrow> TCPConnection \<Rightarrow> bool" where
  "tc_ready S tc \<longleftrightarrow> tx_ready S (tc_sender tc) \<and> tx_busy S (tc_sender tc)"

lemma tc_fill_goes:
  assumes rd: "tx_ready S (tc_sender tc)" and lim: "length S + 2 < 2 ^ 31"
  obtains tc' raw where "tc_fill_window tc = Inr (raw \<noteq> [], tc')" and "tc_goes tc tc' raw" and "tc_ready S tc'"
    and "tc_receiver tc' = tc_receiver tc" and "0 < tx_next_seqno (tc_sender tc')"
    and "tx_abs_ackno (tc_sender tc') = tx_abs_ackno (tc_sender tc)"
    and "tx_window_size (tc_sender tc') = tx_window_size (tc_sender tc)"
    and "tx_next_seqno (tc_sender tc) = length S + 2 \<longrightarrow> raw = []"
proof -
  obtain tx' where f: "tx_fill_window (tc_sender tc) = Inr tx'" "tx_goes (tc_sender tc) tx' (tx_segments_out tx')"
    "tx_ready S (tx'\<lparr>tx_segments_out := []\<rparr>)" "tx_busy S tx'" "0 < tx_next_seqno tx'"
    "tx_abs_ackno tx' = tx_abs_ackno (tc_sender tc)" "tx_window_size tx' = tx_window_size (tc_sender tc)"
    "tx_next_seqno (tc_sender tc) = length S + 2 \<longrightarrow> tx_segments_out tx' = []"
    by (rule tx_fill_window_goes [OF rd lim])
  let ?tc' = "snd (tc_send_segments (tc\<lparr>tc_sender := tx'\<rparr>))"
  show thesis
    using f by (intro that [of "tx_segments_out tx'" ?tc'])
      (simp_all add: tc_fill_window_def tc_goes_def tc_ready_def tc_send_segments_eq)
qed

lemma tc_goes_trans:
  assumes "tc_goes tc tc1 raw" and "tc_goes tc1 tc2 raw'" and "tc_receiver tc2 = tc_receiver tc1"
    and "tx_window_size (tc_sender tc2) = tx_window_size (tc_sender tc1)"
  shows "tc_goes tc tc2 (raw @ raw')"
  using assms tx_goes_trans [of "tc_sender tc" "tc_sender tc1" raw "tc_sender tc2" raw'] by (simp add: tc_goes_def)

text \<open>An answer to a segment: what the window lets through, or else an empty segment.\<close>

lemma tc_reply_goes:
  assumes rd: "tx_ready S (tc_sender tc)" and lim: "length S + 2 < 2 ^ 31"
  obtains tc3 tc4 raw b where "tc_fill_window tc = Inr (b, tc3)"
    and "tc4 = (if \<not> b then snd (tc_send_segments (tc3\<lparr>tc_sender := tx_send_empty_segment (tc_sender tc3)\<rparr>)) else tc3)"
    and "tc_goes tc tc4 raw" and "raw \<noteq> []" and "tc_ready S tc4" and "tc_receiver tc4 = tc_receiver tc"
    and "tx_abs_ackno (tc_sender tc4) = tx_abs_ackno (tc_sender tc)"
    and "tx_window_size (tc_sender tc4) = tx_window_size (tc_sender tc)"
    and "tx_next_seqno (tc_sender tc) = length S + 2 \<longrightarrow> (\<forall>g \<in> set raw. ts_length_in_sequence_space g = 0)"
proof -
  obtain tc3 raw where f: "tc_fill_window tc = Inr (raw \<noteq> [], tc3)" "tc_goes tc tc3 raw" "tc_ready S tc3"
    "tc_receiver tc3 = tc_receiver tc" "0 < tx_next_seqno (tc_sender tc3)"
    "tx_abs_ackno (tc_sender tc3) = tx_abs_ackno (tc_sender tc)"
    "tx_window_size (tc_sender tc3) = tx_window_size (tc_sender tc)"
    "tx_next_seqno (tc_sender tc) = length S + 2 \<longrightarrow> raw = []"
    by (rule tc_fill_goes [OF rd lim])
  show thesis
  proof (cases "raw = []")
    case False
    then show thesis using f by (intro that [OF f(1) refl, of raw]) simp_all
  next
    case True
    let ?tx = "tx_send_empty_segment (tc_sender tc3)"
    let ?tc4 = "snd (tc_send_segments (tc3\<lparr>tc_sender := ?tx\<rparr>))"
    define e where "e = stamp (tx_wrapped_next_seqno (tc_sender tc3)) TCPSegment_new"
    have tx: "?tx = (tc_sender tc3)\<lparr>tx_segments_out := [e]\<rparr>"
      using f(3) by (simp add: tx_send_empty_segment_def e_def stamp_def tc_ready_def tx_ready_def)
    have rd3: "tx_ready S (tc_sender tc3)" "tx_busy S (tc_sender tc3)" using f(3) by (simp_all add: tc_ready_def)
    then have "(tc_sender tc3)\<lparr>tx_segments_out := []\<rparr> = tc_sender tc3" by (simp add: tx_ready_def)
    then have "tc_goes tc ?tc4 [e] \<and> tc_ready S ?tc4"
      using f(2,4) True rd3 tx by (auto simp: tc_goes_def tc_ready_def tc_send_segments_eq tx_goes_def e_def)
    moreover have "ts_length_in_sequence_space e = 0"
      by (simp add: e_def ts_length_in_sequence_space_def TCPSegment_new_def TCPHeader_new_def)
    ultimately show thesis
      using True f tx by (intro that [OF f(1) refl, of "[e]"]) (simp_all add: tc_send_segments_eq)
  qed
qed

text \<open>Every segment of the peer, other than RST.\<close>

lemma tc_receive_goes:
  assumes rd: "tc_ready S tc" and lim: "length S + 2 < 2 ^ 31"
    and rx: "rx_segment_received seg (tc_receiver tc) = Inr rx'" and rst: "\<not> th_rst (ts_header seg)"
    and k: "th_ack (ts_header seg) \<Longrightarrow> 0 < k \<and> k \<le> tx_next_seqno (tc_sender tc) \<and>
              th_ackno (ts_header seg) = wrap k (tx_isn (tc_sender tc))"
  obtains tc' raw where "tc_segment_received seg tc = Inr tc'" and "tc_goes tc tc' raw" and "tc_ready S tc'"
    and "tc_receiver tc' = rx'"
    and "tx_abs_ackno (tc_sender tc') =
           (if th_ack (ts_header seg) then max (tx_abs_ackno (tc_sender tc)) k else tx_abs_ackno (tc_sender tc))"
    and "tx_window_size (tc_sender tc') =
           (if th_ack (ts_header seg) then th_win (ts_header seg) else tx_window_size (tc_sender tc))"
    and "0 < ts_length_in_sequence_space seg \<longrightarrow> raw \<noteq> []"
    and "tx_abs_ackno (tc_sender tc) = length S + 2 \<longrightarrow>
           (if 0 < ts_length_in_sequence_space seg then \<forall>g \<in> set raw. ts_length_in_sequence_space g = 0 else raw = [])"
proof -
  define tc1 where "tc1 = tc\<lparr>tc_time_since_last_segment_received := 0, tc_receiver := rx'\<rparr>"
  have tx1: "tc_sender tc1 = tc_sender tc" "tc_receiver tc1 = rx'" "tc_segments_out tc1 = tc_segments_out tc"
    by (simp_all add: tc1_def)
  have una: "tx_abs_ackno (tc_sender tc) \<le> tx_next_seqno (tc_sender tc)" "tx_next_seqno (tc_sender tc) \<le> length S + 2"
    using rd tx_inv_bounds(1) [of S "tc_sender tc"] by (simp_all add: tc_ready_def tx_ready_def tx_inv_def)
  let ?r2 = "if th_ack (ts_header seg)
    then bindE (tx_ack_received (th_ackno (ts_header seg)) (th_win (ts_header seg)) (tc_sender tc1))
           (\<lambda>tx. Inr (snd (tc_send_segments (tc1\<lparr>tc_sender := tx\<rparr>))))
    else Inr tc1"
  obtain tc2 raw2 where tc2: "?r2 = Inr tc2" "tc_goes tc tc2 raw2" "tc_ready S tc2" "tc_receiver tc2 = rx'"
    "tx_abs_ackno (tc_sender tc2) =
       (if th_ack (ts_header seg) then max (tx_abs_ackno (tc_sender tc)) k else tx_abs_ackno (tc_sender tc))"
    "tx_window_size (tc_sender tc2) =
       (if th_ack (ts_header seg) then th_win (ts_header seg) else tx_window_size (tc_sender tc))"
    "tx_abs_ackno (tc_sender tc) = length S + 2 \<longrightarrow> raw2 = [] \<and> tx_next_seqno (tc_sender tc2) = length S + 2"
  proof (cases "th_ack (ts_header seg)")
    case False
    then show thesis
      using rd una tx1 by (intro that [of tc1 "[]"]) (simp_all add: tc_goes_def tx_goes_refl tc_ready_def)
  next
    case True
    have rd': "tx_ready S (tc_sender tc)" "tx_busy S (tc_sender tc)" using rd by (simp_all add: tc_ready_def)
    obtain tx where "tx_ack_received (th_ackno (ts_header seg)) (th_win (ts_header seg)) (tc_sender tc) = Inr tx"
      "tx_goes (tc_sender tc) tx (tx_segments_out tx)" "tx_ready S (tx\<lparr>tx_segments_out := []\<rparr>)" "tx_busy S tx"
      "tx_abs_ackno tx = max (tx_abs_ackno (tc_sender tc)) k" "tx_window_size tx = th_win (ts_header seg)"
      "k \<le> tx_abs_ackno (tc_sender tc) \<longrightarrow> tx_segments_out tx = [] \<and> tx_next_seqno tx = tx_next_seqno (tc_sender tc)"
      using tx_ack_goes [OF rd' lim] k [OF True] by metis
    then show thesis
      using True una k [OF True] tx1
      by (intro that [of "snd (tc_send_segments (tc1\<lparr>tc_sender := tx\<rparr>))" "tx_segments_out tx"])
        (simp_all add: tc_goes_def tc_ready_def tc_send_segments_eq)
  qed
  have eq: "tc_segment_received seg tc =
      bindE (if 0 < ts_length_in_sequence_space seg
             then bindE (tc_fill_window tc2) (\<lambda>(is_send, tc3).
                    if \<not> is_send
                    then Inr (snd (tc_send_segments (tc3\<lparr>tc_sender := tx_send_empty_segment (tc_sender tc3)\<rparr>)))
                    else Inr tc3)
             else Inr tc2) (\<lambda>tc4. Inr (tc_test_end tc4))"
    using rst rx tc2(1) unfolding tc1_def tc_segment_received_def by (simp add: Let_def)
  have rd2: "tx_ready S (tc_sender tc2)" using tc2(3) by (simp add: tc_ready_def)
  show thesis
  proof (cases "0 < ts_length_in_sequence_space seg")
    case False
    then show thesis
      using tc2 eq by (intro that [of "tc_test_end tc2" raw2]) (simp_all add: tc_goes_def tc_ready_def)
  next
    case True
    obtain tc3 tc4 raw b where f: "tc_fill_window tc2 = Inr (b, tc3)"
      "tc4 = (if \<not> b then snd (tc_send_segments (tc3\<lparr>tc_sender := tx_send_empty_segment (tc_sender tc3)\<rparr>)) else tc3)"
      "tc_goes tc2 tc4 raw" "raw \<noteq> []" "tc_ready S tc4" "tc_receiver tc4 = tc_receiver tc2"
      "tx_abs_ackno (tc_sender tc4) = tx_abs_ackno (tc_sender tc2)"
      "tx_window_size (tc_sender tc4) = tx_window_size (tc_sender tc2)"
      "tx_next_seqno (tc_sender tc2) = length S + 2 \<longrightarrow> (\<forall>g \<in> set raw. ts_length_in_sequence_space g = 0)"
      by (rule tc_reply_goes [OF rd2 lim])
    have "tc_segment_received seg tc = Inr (tc_test_end tc4)" unfolding eq using True f(1,2) by simp
    moreover have "tc_goes tc (tc_test_end tc4) (raw2 @ raw)"
      using tc_goes_trans [OF tc2(2) f(3,6,8)] by (simp add: tc_goes_def)
    ultimately show thesis
      using True tc2 f by (intro that [of "tc_test_end tc4" "raw2 @ raw"]) (simp_all add: tc_ready_def)
  qed
qed

lemma tc_tick_goes:
  assumes rd: "tc_ready S tc" and count: "tx_count (tc_sender tc) = 0"
  obtains raw where "tc_segments_out (tc_tick ms tc) = tc_segments_out tc @ map (tc_stamp (tc_receiver tc)) raw"
    and "\<forall>g \<in> set raw. plain g" and "tc_ready S (tc_tick ms tc)" and "tc_receiver (tc_tick ms tc) = tc_receiver tc"
    and "tx_isn (tc_sender (tc_tick ms tc)) = tx_isn (tc_sender tc)"
    and "tx_stream (tc_sender (tc_tick ms tc)) = tx_stream (tc_sender tc)"
    and "tx_next_seqno (tc_sender (tc_tick ms tc)) = tx_next_seqno (tc_sender tc)"
    and "tx_abs_ackno (tc_sender (tc_tick ms tc)) = tx_abs_ackno (tc_sender tc)"
    and "tx_window_size (tc_sender (tc_tick ms tc)) = tx_window_size (tc_sender tc)"
    and "tx_count (tc_sender (tc_tick ms tc)) \<le> 1"
    and "tx_abs_ackno (tc_sender tc) = tx_next_seqno (tc_sender tc) \<longrightarrow> raw = []"
proof -
  let ?tx = "tc_sender tc" and ?tx' = "tx_tick ms (tc_sender tc)"
  have rdx: "tx_ready S ?tx" "tx_busy S ?tx" and inv: "tx_inv S ?tx" and out: "tx_segments_out ?tx = []"
    using rd by (simp_all add: tc_ready_def tx_ready_def)
  note t = tx_tick_goes [OF rdx(1), of ms]
  have "tx_count ?tx' \<le> 1" using t(10) count by simp
  then have small: "\<not> tx_count ?tx' > MAX_RETX_ATTEMPTS"
    unfolding MAX_RETX_ATTEMPTS_def by (simp add: not_less order_trans [of _ 1])
  define tc1 where "tc1 = snd (tc_send_segments (tc\<lparr>tc_time_since_last_segment_received :=
      u64 (tc_time_since_last_segment_received tc + ms), tc_sender := ?tx'\<rparr>))"
  have eq: "tc_tick ms tc = tc_test_end tc1" using small by (simp add: tc_tick_def tc1_def)
  have "?tx' = ?tx" if "tx_abs_ackno ?tx = tx_next_seqno ?tx"
  proof -
    have "tx_segments_track ?tx = []"
      using that inv by (cases "tx_segments_track ?tx") (auto simp: tx_inv_def dest: tracked_le)
    then show ?thesis by (rule t(9))
  qed
  then show thesis
    using t rdx(2) \<open>tx_count ?tx' \<le> 1\<close> out
    by (intro that [of "tx_segments_out ?tx'"])
      (simp_all add: eq tc1_def tc_send_segments_eq tc_ready_def)
qed

lemma tc_write_goes:
  assumes rd: "tc_ready S tc" and "\<not> tc_ended tc" and lim: "length S + length data + 2 < 2 ^ 31"
  obtains tc' n raw where "tc_write data tc = Inr (n, tc')" and "n = min (tc_remaining_outbound_capacity tc) (length data)"
    and "tc_goes tc tc' raw" and "tc_ready (S @ take n data) tc'" and "tc_receiver tc' = tc_receiver tc"
    and "tx_abs_ackno (tc_sender tc') = tx_abs_ackno (tc_sender tc)"
    and "tx_window_size (tc_sender tc') = tx_window_size (tc_sender tc)"
proof (cases "data = []")
  case True
  then show thesis
    using rd by (intro that [of 0 tc "[]"]) (simp_all add: tc_write_def tc_goes_def tx_goes_refl)
next
  case False
  have inv: "tx_inv S (tc_sender tc)" "tx_plain (tc_sender tc)" "tx_opening (tc_sender tc)" "tx_segments_out (tc_sender tc) = []"
    using rd by (simp_all add: tc_ready_def tx_ready_def)
  obtain n tx where w: "tx_write data (tc_sender tc) = (n, tx)" by fastforce
  then obtain s where tx: "tx = (tc_sender tc)\<lparr>tx_stream := s\<rparr>" by (auto simp: tx_write_def split: prod.splits)
  have big: "length S + length data + 2 ^ 33 < 2 ^ 64" using lim by simp
  have i: "tx_inv (S @ take n data) tx" "n = min (tc_remaining_outbound_capacity tc) (length data)"
    using tx_write_inv [OF inv(1) assms(2) w big] unfolding tc_remaining_outbound_capacity_def by blast+
  then have rd': "tx_ready (S @ take n data) tx"
    using inv by (simp add: tx_ready_def tx tx_opening_def)
  have len: "length (S @ take n data) + 2 < 2 ^ 31" using lim by simp
  obtain tc' raw where f: "tc_fill_window (tc\<lparr>tc_sender := tx\<rparr>) = Inr (raw \<noteq> [], tc')"
    "tc_goes (tc\<lparr>tc_sender := tx\<rparr>) tc' raw" "tc_ready (S @ take n data) tc'"
    "tc_receiver tc' = tc_receiver (tc\<lparr>tc_sender := tx\<rparr>)"
    "tx_abs_ackno (tc_sender tc') = tx_abs_ackno (tc_sender (tc\<lparr>tc_sender := tx\<rparr>))"
    "tx_window_size (tc_sender tc') = tx_window_size (tc_sender (tc\<lparr>tc_sender := tx\<rparr>))"
    by (rule tc_fill_goes [of "S @ take n data" "tc\<lparr>tc_sender := tx\<rparr>"]) (use rd' len in simp_all)
  then have "tc_goes tc tc' raw" by (simp add: tc_goes_def tx_goes_def tx)
  then show thesis
    using False w i(2) f by (intro that [of n tc' raw]) (simp_all add: tc_write_def tx)
qed

lemma tc_end_goes:
  assumes rd: "tc_ready S tc" and lim: "length S + 2 < 2 ^ 31"
  obtains tc' raw where "tc_end_input_stream tc = Inr tc'" and "tc_goes tc tc' raw" and "tc_ready S tc'"
    and "tc_receiver tc' = tc_receiver tc" and "tx_abs_ackno (tc_sender tc') = tx_abs_ackno (tc_sender tc)"
    and "tx_window_size (tc_sender tc') = tx_window_size (tc_sender tc)" and "tc_ended tc'"
    and "0 < tx_next_seqno (tc_sender tc')"
proof -
  let ?tx = "tx_end_input (tc_sender tc)"
  have inv: "tx_inv S (tc_sender tc)" "tx_plain (tc_sender tc)" "tx_opening (tc_sender tc)" "tx_segments_out (tc_sender tc) = []"
    using rd by (simp_all add: tc_ready_def tx_ready_def)
  then have rd': "tx_ready S ?tx"
    using tx_end_input_inv [OF inv(1)] by (simp add: tx_ready_def tx_end_input_def tx_opening_def)
  obtain tc' raw where f: "tc_fill_window (tc\<lparr>tc_sender := ?tx\<rparr>) = Inr (raw \<noteq> [], tc')"
    "tc_goes (tc\<lparr>tc_sender := ?tx\<rparr>) tc' raw" "tc_ready S tc'" "tc_receiver tc' = tc_receiver (tc\<lparr>tc_sender := ?tx\<rparr>)"
    "tx_abs_ackno (tc_sender tc') = tx_abs_ackno (tc_sender (tc\<lparr>tc_sender := ?tx\<rparr>))"
    "tx_window_size (tc_sender tc') = tx_window_size (tc_sender (tc\<lparr>tc_sender := ?tx\<rparr>))"
    "0 < tx_next_seqno (tc_sender tc')"
    by (rule tc_fill_goes [of S "tc\<lparr>tc_sender := ?tx\<rparr>"]) (use rd' lim in simp_all)
  moreover from f(2) have "tc_goes tc tc' raw" by (simp add: tc_goes_def tx_goes_def tx_end_input_def)
  moreover have "tc_ended tc'" using tc_fill_window_ended [OF f(1)] by (simp add: tx_end_input_def bs_do_end_input_def)
  ultimately show thesis
    by (intro that [of tc' raw]) (simp_all add: tc_end_input_stream_def, simp_all add: tx_end_input_def)
qed

lemma tc_connect_goes:
  assumes rd: "tc_ready S tc" and lim: "length S + 2 < 2 ^ 31"
  obtains tc' raw where "tc_connect tc = Inr tc'" and "tc_goes tc tc' raw" and "tc_ready S tc'"
    and "tc_receiver tc' = tc_receiver tc" and "tx_abs_ackno (tc_sender tc') = tx_abs_ackno (tc_sender tc)"
    and "tx_window_size (tc_sender tc') = tx_window_size (tc_sender tc)" and "0 < tx_next_seqno (tc_sender tc')"
    and "tc_send_capacity tc' = tc_send_capacity tc"
proof (cases "tx_next_seqno (tc_sender tc) = 0")
  case False
  then show thesis using rd by (intro that [of tc "[]"]) (simp_all add: tc_connect_def tc_goes_def tx_goes_refl)
next
  case True
  have rdx: "tx_ready S (tc_sender tc)" using rd by (simp add: tc_ready_def)
  obtain tc' raw where f: "tc_fill_window tc = Inr (raw \<noteq> [], tc')" "tc_goes tc tc' raw" "tc_ready S tc'"
    "tc_receiver tc' = tc_receiver tc" "0 < tx_next_seqno (tc_sender tc')"
    "tx_abs_ackno (tc_sender tc') = tx_abs_ackno (tc_sender tc)"
    "tx_window_size (tc_sender tc') = tx_window_size (tc_sender tc)"
    by (rule tc_fill_goes [OF rdx lim])
  then show thesis
    using True tc_fill_window_capacity [OF f(1)]
    by (intro that [of "tc'\<lparr>tc_active := True\<rparr>" raw]) (simp_all add: tc_connect_def tc_goes_def tc_ready_def)
qed

end
