(* ===== verification/Lossless_Exchange.thy ===== *)
theory Lossless_Exchange
  imports TCP_Progress
begin

text \<open>
  Two connections whose network loses nothing. \<open>flow\<close> says of one direction that every number that is sent has arrived
  or is on its way, and that what has arrived is acknowledged or its acknowledgment is on its way; \<open>edge\<close> that the
  sender respects the window of the receiver. Both are kept by whatever either party does, and once nothing is
  on its way the receiver has all that was sent, and the sender knows.
\<close>

section \<open>A direction of a connection\<close>

abbreviation nxt :: "endpoint \<Rightarrow> nat" where
  "nxt e \<equiv> tx_next_seqno (tc_sender (ep_tc e))"

abbreviation una :: "endpoint \<Rightarrow> nat" where
  "una e \<equiv> tx_abs_ackno (tc_sender (ep_tc e))"

abbreviation isn_of :: "endpoint \<Rightarrow> WrappingInt32" where
  "isn_of e \<equiv> tx_isn (tc_sender (ep_tc e))"

abbreviation rx_of :: "endpoint \<Rightarrow> TCPReceiver" where
  "rx_of e \<equiv> tc_receiver (ep_tc e)"

text \<open>\<open>F\<close> is on its way from \<open>a\<close> to \<open>b\<close>, and \<open>G\<close> back.\<close>

definition flow :: "endpoint \<Rightarrow> endpoint \<Rightarrow> TCPSegment set \<Rightarrow> TCPSegment set \<Rightarrow> bool" where
  "flow a b F G \<longleftrightarrow>
     tc_ready (ep_wrote a) (ep_tc a) \<and> rx_settled (rx_of b) \<and> rx_has (rx_of b) \<subseteq> {..<nxt a} \<and>
     (\<forall>n < nxt a. n \<in> rx_has (rx_of b) \<or> (\<exists>g \<in> F. spans (isn_of a) g n)) \<and>
     (una a < rx_abs_ackno (rx_of b) \<longrightarrow>
        (\<exists>g \<in> G. th_ack (ts_header g) \<and> th_ackno (ts_header g) = wrap (rx_abs_ackno (rx_of b)) (isn_of a))) \<and>
     (\<forall>g \<in> F. \<not> th_rst (ts_header g))"

lemma link_rx: "link a b \<Longrightarrow> rx_sound (ep_wrote b) (isn_of b) (rx_of a)"
  by (simp add: link_def tc_inv_def)

lemma flow_ack_le:
  assumes "link b a" and "flow a b F G"
  shows "rx_abs_ackno (rx_of b) \<le> nxt a"
proof -
  have "rx_settled (rx_of b)" "rx_has (rx_of b) \<subseteq> {..<nxt a}" using assms(2) by (simp_all add: flow_def)
  then have "{..<rx_abs_ackno (rx_of b)} \<subseteq> {..<nxt a}"
    using rx_has_ack(1) [OF link_rx [OF assms(1)]] by (meson order_trans)
  then show ?thesis by simp
qed

text \<open>Nothing is on its way any more.\<close>

lemma flow_complete:
  assumes "link b a" and "flow a b {} G"
  shows "rx_abs_ackno (rx_of b) = nxt a"
proof (rule rx_has_ack_eq [OF link_rx [OF assms(1)]])
  show "rx_settled (rx_of b)" "rx_has (rx_of b) = {..<nxt a}" using assms(2) by (auto simp: flow_def)
qed

lemma flow_acked:
  assumes "flow a b F {}"
  shows "rx_abs_ackno (rx_of b) \<le> una a"
  using assms by (auto simp: flow_def)

lemma stamp_spans [simp]: "spans isn (tc_stamp rx g) = spans isn g" "ts_length_in_sequence_space (tc_stamp rx g) = ts_length_in_sequence_space g"
  by (simp_all add: spans_def fun_eq_iff ts_length_in_sequence_space_def)

text \<open>One party acts, without taking a segment: it may send, and its receiver has what it had.\<close>

lemma flow_local:
  assumes f: "flow a b F G" "flow b a G F" and "tc_ready (ep_wrote a') (ep_tc a')"
    and "tx_isn (tc_sender (ep_tc a')) = isn_of a" and "nxt a \<le> nxt a'" and "una a \<le> una a'"
    and "\<forall>n \<in> {nxt a..<nxt a'}. \<exists>g \<in> F'. spans (isn_of a) g n"
    and "F \<subseteq> F'" and "\<forall>g \<in> F'. \<not> th_rst (ts_header g)"
    and "rx_has (rx_of a') = rx_has (rx_of a)" "rx_settled (rx_of a') = rx_settled (rx_of a)"
      "rx_abs_ackno (rx_of a') = rx_abs_ackno (rx_of a)"
  shows "flow a' b F' G" and "flow b a' G F'"
proof -
  have "n \<in> rx_has (rx_of b) \<or> (\<exists>g \<in> F'. spans (isn_of a) g n)" if "n < nxt a'" for n
  proof (cases "n < nxt a")
    case True
    then show ?thesis using f(1) assms(8) unfolding flow_def by blast
  next
    case False
    then show ?thesis using that assms(7) by simp
  qed
  moreover have "rx_has (rx_of b) \<subseteq> {..<nxt a'}"
    using f(1) assms(5) unfolding flow_def by (meson lessThan_subset_iff order_trans)
  moreover have "\<exists>g \<in> G. th_ack (ts_header g) \<and> th_ackno (ts_header g) = wrap (rx_abs_ackno (rx_of b)) (isn_of a)"
    if "una a' < rx_abs_ackno (rx_of b)"
    using that f(1) assms(6) unfolding flow_def by (meson le_less_trans)
  ultimately show "flow a' b F' G" using f(1) assms(3,4,9) unfolding flow_def by simp
  show "flow b a' G F'" using f(2) assms(8) unfolding flow_def assms(10-12) by blast
qed

lemma flow_goes:
  assumes f: "flow a b F G" "flow b a G F" and "tc_ready W tc'" and g: "tc_goes (ep_tc a) tc' raw"
    and "tc_receiver tc' = rx_of a"
  defines "a' \<equiv> a\<lparr>ep_tc := tc', ep_wrote := W\<rparr>" and "F' \<equiv> F \<union> set (map (tc_stamp (rx_of a)) raw)"
  shows "flow a' b F' G" and "flow b a' G F'"
proof -
  have p: "\<forall>g \<in> set raw. plain g" using g by (simp add: tc_goes_def tx_goes_def)
  have rst: "\<forall>g \<in> F'. \<not> th_rst (ts_header g)"
    using f(1) p by (auto simp: F'_def flow_def plain_def)
  have new: "\<forall>n \<in> {nxt a..<nxt a'}. \<exists>g \<in> F'. spans (isn_of a) g n"
    using g unfolding tc_goes_def tx_goes_def by (simp add: a'_def F'_def bex_Un image_iff)
  show "flow a' b F' G" "flow b a' G F'"
    using flow_local [OF f _ _ _ _ new _ rst] assms(3,5) g
    by (simp_all add: a'_def F'_def tc_goes_def tx_goes_def)
qed

text \<open>What is sent fits in the window of the receiver.\<close>

definition roomy :: "endpoint \<Rightarrow> endpoint \<Rightarrow> bool" where
  "roomy a b \<longleftrightarrow>
     (\<forall>n \<in> {1..length (ep_wrote a)}. n < nxt a \<longrightarrow>
        n \<in> rx_has (rx_of b) \<or> n \<le> sr_window_end (rx_reassembler (rx_of b)))"

lemma stamp_ack:
  assumes "rx_sound S isn rx" and "plain g"
  shows "th_ack (ts_header (tc_stamp rx g)) = rx_syn rx"
    and "rx_syn rx \<Longrightarrow> th_ackno (ts_header (tc_stamp rx g)) = wrap (rx_abs_ackno rx) isn"
  using rx_ackno_eq [OF assms(1)] assms(2) by (simp_all add: tc_stamp_def set_ackno_def plain_def Let_def)

text \<open>A segment of \<open>a\<close> before \<open>b\<close> has the SYN of \<open>a\<close> is a SYN, unless it is empty.\<close>

lemma flow_syn:
  assumes l: "link a b" "link b a" and f: "flow a b F G" and c: "carries (ep_wrote a) (isn_of a) m g"
    and m: "m + ts_length_in_sequence_space g \<le> nxt a" "0 < ts_length_in_sequence_space g"
  shows "rx_syn (rx_of b) \<or> th_syn (ts_header g)"
proof (rule ccontr)
  assume *: "\<not> (rx_syn (rx_of b) \<or> th_syn (ts_header g))"
  then have "rx_abs_ackno (rx_of b) = 0" by (simp add: rx_abs_ackno_def)
  moreover have "una a \<le> rx_abs_ackno (rx_of b)" using l(1) by (simp add: link_def)
  ultimately have "nxt a \<le> 1" using f by (simp add: flow_def tc_ready_def tx_ready_def tx_opening_def)
  moreover have "1 \<le> m" using c * by (simp add: carries_def)
  ultimately show False using m by simp
qed

text \<open>
  The arrival of the segment \<open>g\<close> of \<open>a\<close> at \<open>b\<close>: it carries the numbers from \<open>m\<close> on, acknowledges \<open>k\<close>, and takes the
  connection of \<open>b\<close> to \<open>tc'\<close>, which has sent \<open>raw\<close>.
\<close>

definition arrival :: "endpoint \<Rightarrow> endpoint \<Rightarrow> TCPSegment \<Rightarrow> nat \<Rightarrow> nat \<Rightarrow> TCPConnection \<Rightarrow> TCPSegment list \<Rightarrow> bool" where
  "arrival a b g m k tc' raw \<longleftrightarrow>
     carries (ep_wrote a) (isn_of a) m g \<and> m + ts_length_in_sequence_space g \<le> nxt a \<and>
     tc_segment_received g (ep_tc b) = Inr tc' \<and> rx_segment_received g (rx_of b) = Inr (tc_receiver tc') \<and>
     tc_goes (ep_tc b) tc' raw \<and> tc_ready (ep_wrote b) tc' \<and>
     (th_ack (ts_header g) \<longrightarrow> 0 < k \<and> k \<le> rx_abs_ackno (rx_of a) \<and> th_ackno (ts_header g) = wrap k (isn_of b)) \<and>
     tx_abs_ackno (tc_sender tc') = (if th_ack (ts_header g) then max (una b) k else una b) \<and>
     tx_window_size (tc_sender tc') =
       (if th_ack (ts_header g) then th_win (ts_header g) else tx_window_size (tc_sender (ep_tc b))) \<and>
     (0 < ts_length_in_sequence_space g \<longrightarrow> raw \<noteq> []) \<and>
     (una b = length (ep_wrote b) + 2 \<longrightarrow>
        (if 0 < ts_length_in_sequence_space g then \<forall>h \<in> set raw. ts_length_in_sequence_space h = 0 else raw = [])) \<and>
     rx_sound (ep_wrote a) (isn_of a) (tc_receiver tc') \<and> rx_settled (tc_receiver tc') \<and>
     sr_window_end (rx_reassembler (tc_receiver tc')) = sr_window_end (rx_reassembler (rx_of b)) \<and>
     rx_has (rx_of b) \<subseteq> rx_has (tc_receiver tc') \<and>
     rx_has (tc_receiver tc') \<subseteq> rx_has (rx_of b) \<union> {m..<m + ts_length_in_sequence_space g}"

lemma flow_arrival:
  assumes l: "link a b" "link b a" and f: "flow a b F G" "flow b a G F" and g: "g \<in> F" "g \<in> ep_sent a"
  obtains m k tc' raw where "arrival a b g m k tc' raw"
proof -
  have lim: "length (ep_wrote a) + 2 < 2 ^ 31" "length (ep_wrote b) + 2 < 2 ^ 31" using l by (simp_all add: link_def)
  have em: "emitted (ep_wrote a) (tc_sender (ep_tc a)) g" and ak: "acks (isn_of b) (rx_abs_ackno (rx_of a)) g"
    using l(1) g(2) by (simp_all add: link_def)
  obtain m where m: "carries (ep_wrote a) (isn_of a) m g" "m + ts_length_in_sequence_space g \<le> nxt a"
    using em by (auto simp: emitted_def)
  obtain k where k: "th_ack (ts_header g) \<longrightarrow>
      0 < k \<and> k \<le> rx_abs_ackno (rx_of a) \<and> th_ackno (ts_header g) = wrap k (isn_of b)"
    using ak by (auto simp: acks_def)
  have le: "rx_abs_ackno (rx_of a) \<le> nxt b" by (rule flow_ack_le [OF l(1) f(2)])
  have big: "length (ep_wrote a) + 2 ^ 33 < 2 ^ 64" using lim(1) by simp
  have rx: "rx_sound (ep_wrote a) (isn_of a) (rx_of b)" "rx_settled (rx_of b)"
    using link_rx [OF l(2)] f(1) by (simp_all add: flow_def)
  obtain rx' where rx': "rx_segment_received g (rx_of b) = Inr rx'" "rx_sound (ep_wrote a) (isn_of a) rx'"
    using rx_segment_received_spec [OF rx(1) m(1) big] carries_near [OF rx(1) m(1) lim(1)] by metis
  have rd: "tc_ready (ep_wrote b) (ep_tc b)" and rst: "\<not> th_rst (ts_header g)"
    using f g(1) by (simp_all add: flow_def)
  have kk: "th_ack (ts_header g) \<Longrightarrow> 0 < k \<and> k \<le> nxt b \<and> th_ackno (ts_header g) = wrap k (isn_of b)"
    using k le by simp
  obtain tc' raw where t: "tc_segment_received g (ep_tc b) = Inr tc'" "tc_goes (ep_tc b) tc' raw"
    "tc_ready (ep_wrote b) tc'" "tc_receiver tc' = rx'"
    "tx_abs_ackno (tc_sender tc') = (if th_ack (ts_header g) then max (una b) k else una b)"
    "tx_window_size (tc_sender tc') =
       (if th_ack (ts_header g) then th_win (ts_header g) else tx_window_size (tc_sender (ep_tc b)))"
    "0 < ts_length_in_sequence_space g \<longrightarrow> raw \<noteq> []"
    "una b = length (ep_wrote b) + 2 \<longrightarrow>
       (if 0 < ts_length_in_sequence_space g then \<forall>h \<in> set raw. ts_length_in_sequence_space h = 0 else raw = [])"
    by (rule tc_receive_goes [OF rd lim(2) rx'(1) rst kk])
  have "arrival a b g m k tc' raw"
    unfolding arrival_def using m k t rx' rx_receive_has(1-4) [OF rx m(1) lim(1) rx'(1)] by (intro conjI) simp_all
  then show thesis by (rule that)
qed

text \<open>The direction of the segment: what it carried has arrived, and if it carried anything it is acknowledged.\<close>

lemma arrival_forth:
  assumes l: "link a b" "link b a" and f: "flow a b F G" and ar: "arrival a b g m k tc' raw"
    and room: "roomy a b" and F': "F - {g} \<subseteq> F'" "F' \<subseteq> F"
  defines "b' \<equiv> b\<lparr>ep_tc := tc'\<rparr>" and "G' \<equiv> G \<union> set (map (tc_stamp (tc_receiver tc')) raw)"
  shows "flow a b' F' G'" and "roomy a b'"
proof -
  let ?rx' = "tc_receiver tc'"
  have c: "carries (ep_wrote a) (isn_of a) m g" "m + ts_length_in_sequence_space g \<le> nxt a"
    and r: "rx_segment_received g (rx_of b) = Inr ?rx'" "0 < ts_length_in_sequence_space g \<longrightarrow> raw \<noteq> []"
    and h: "rx_sound (ep_wrote a) (isn_of a) ?rx'" "rx_settled ?rx'"
      "sr_window_end (rx_reassembler ?rx') = sr_window_end (rx_reassembler (rx_of b))"
      "rx_has (rx_of b) \<subseteq> rx_has ?rx'" "rx_has ?rx' \<subseteq> rx_has (rx_of b) \<union> {m..<m + ts_length_in_sequence_space g}"
    and plain: "\<forall>s \<in> set raw. plain s"
    using ar unfolding arrival_def tc_goes_def tx_goes_def by blast+
  have rx: "rx_sound (ep_wrote a) (isn_of a) (rx_of b)" "rx_settled (rx_of b)"
    using link_rx [OF l(2)] f(1) by (simp_all add: flow_def)
  have lim: "length (ep_wrote a) + 2 < 2 ^ 31" using l by (simp add: link_def)
  show "roomy a b'" using room h(3,4) unfolding roomy_def b'_def by auto
  have "n \<in> rx_has ?rx'" if "spans (isn_of a) g n" for n
  proof -
    have n: "n \<in> {m..<m + ts_length_in_sequence_space g}" using spans_carries [OF c(1) lim(1)] that by simp
    then have "rx_syn (rx_of b) \<or> th_syn (ts_header g)" using flow_syn [OF l f(1) c] by simp
    moreover have "n < nxt a" using n c(2) by simp
    ultimately show ?thesis
      using h(4) rx_receive_has(5) [OF rx c(1) lim r(1)] n room unfolding roomy_def by blast
  qed
  then have "n \<in> rx_has ?rx' \<or> (\<exists>s \<in> F'. spans (isn_of a) s n)" if "n < nxt a" for n
    using that f(1) h(4) F'(1) unfolding flow_def by blast
  moreover have "\<exists>s \<in> G'. th_ack (ts_header s) \<and> th_ackno (ts_header s) = wrap (rx_abs_ackno ?rx') (isn_of a)"
    if u: "una a < rx_abs_ackno ?rx'"
  proof (cases "ts_length_in_sequence_space g = 0")
    case True
    then have "rx_has ?rx' = rx_has (rx_of b)" using h(4,5) by simp
    then have "rx_abs_ackno ?rx' = rx_abs_ackno (rx_of b)"
      using rx_has_mono_ack [OF rx h(1,2)] rx_has_mono_ack [OF h(1,2) rx] by (simp add: antisym)
    then show ?thesis using f(1) u unfolding flow_def G'_def by auto
  next
    case False
    then have raw: "hd raw \<in> set raw" using r(2) by simp
    moreover have "rx_syn ?rx'" using u by (auto simp: rx_abs_ackno_def split: if_splits)
    ultimately show ?thesis
      using stamp_ack [OF h(1), of "hd raw"] plain
      by (intro bexI [of _ "tc_stamp ?rx' (hd raw)"]) (simp_all add: G'_def)
  qed
  moreover have "rx_has ?rx' \<subseteq> {..<nxt a}"
    using h(5) c(2) f(1) unfolding flow_def by fastforce
  ultimately show "flow a b' F' G'"
    using f(1) h(2) F'(2) unfolding flow_def b'_def by auto
qed

text \<open>The other direction: what was acknowledged is known, and the answer is on its way.\<close>

lemma arrival_back:
  assumes l: "link a b" "link b a" and f: "flow b a G F" and ar: "arrival a b g m k tc' raw" and F': "F - {g} \<subseteq> F'"
  defines "b' \<equiv> b\<lparr>ep_tc := tc'\<rparr>" and "G' \<equiv> G \<union> set (map (tc_stamp (tc_receiver tc')) raw)"
  shows "flow b' a G' F'"
proof -
  have r: "tc_ready (ep_wrote b) tc'"
      "th_ack (ts_header g) \<longrightarrow> 0 < k \<and> k \<le> rx_abs_ackno (rx_of a) \<and> th_ackno (ts_header g) = wrap k (isn_of b)"
      "tx_abs_ackno (tc_sender tc') = (if th_ack (ts_header g) then max (una b) k else una b)"
    and plain: "\<forall>s \<in> set raw. plain s" and goes: "tx_isn (tc_sender tc') = isn_of b" "nxt b \<le> tx_next_seqno (tc_sender tc')"
      "una b \<le> tx_abs_ackno (tc_sender tc')"
      "\<forall>n \<in> {nxt b..<tx_next_seqno (tc_sender tc')}. \<exists>s \<in> set raw. spans (isn_of b) s n"
    using ar unfolding arrival_def tc_goes_def tx_goes_def by blast+
  have lim: "length (ep_wrote b) + 2 < 2 ^ 31" using l by (simp add: link_def)
  have "n \<in> rx_has (rx_of a) \<or> (\<exists>s \<in> G'. spans (isn_of b) s n)" if n: "n < tx_next_seqno (tc_sender tc')" for n
  proof (cases "n < nxt b")
    case True
    then show ?thesis using f unfolding flow_def G'_def by blast
  next
    case False
    then obtain s where "s \<in> set raw" "spans (isn_of b) s n" using goes(4) n by (meson atLeastLessThan_iff not_less)
    then show ?thesis unfolding G'_def by (intro disjI2 bexI [of _ "tc_stamp (tc_receiver tc') s"]) simp_all
  qed
  moreover have "\<exists>s \<in> F'. th_ack (ts_header s) \<and> th_ackno (ts_header s) = wrap (rx_abs_ackno (rx_of a)) (isn_of b)"
    if u: "tx_abs_ackno (tc_sender tc') < rx_abs_ackno (rx_of a)"
  proof -
    obtain s where s: "s \<in> F" "th_ack (ts_header s)" "th_ackno (ts_header s) = wrap (rx_abs_ackno (rx_of a)) (isn_of b)"
      using f u goes(3) unfolding flow_def by (meson le_less_trans)
    have "s \<noteq> g"
    proof
      assume "s = g"
      then have k: "k \<le> rx_abs_ackno (rx_of a)" "wrap k (isn_of b) = wrap (rx_abs_ackno (rx_of a)) (isn_of b)"
        "k \<le> tx_abs_ackno (tc_sender tc')"
        using s r(2,3) by simp_all
      moreover have "rx_abs_ackno (rx_of a) < 2 ^ 32" using rx_abs_ackno_le [OF link_rx [OF l(1)]] lim by simp
      ultimately have "k = rx_abs_ackno (rx_of a)" by (intro wrap_inj) simp_all
      then show False using k(3) u by simp
    qed
    then show ?thesis using s F' by blast
  qed
  moreover have "rx_has (rx_of a) \<subseteq> {..<tx_next_seqno (tc_sender tc')}"
    using f goes(2) unfolding flow_def by (meson lessThan_subset_iff order_trans)
  moreover have "\<not> th_rst (ts_header s)" if "s \<in> G'" for s
    using that f plain unfolding flow_def G'_def by (auto simp: plain_def)
  ultimately show "flow b' a G' F'"
    using f r(1) goes(1) unfolding flow_def b'_def by simp
qed

section \<open>The right edge of the window\<close>

text \<open>
  The last number that a receiver would take, and the acknowledgments \<open>gs\<close> on their way to a sender, in order: they
  rise from \<open>lo\<close> to at most \<open>hi\<close> and none offers more than \<open>edge\<close>.
\<close>

definition rx_edge :: "TCPReceiver \<Rightarrow> nat" where
  "rx_edge rx = sr_window_end (rx_reassembler rx) + 1 + (if bs_end_input (rx_stream_out rx) then 1 else 0)"

fun ack_chain :: "WrappingInt32 \<Rightarrow> nat \<Rightarrow> TCPSegment list \<Rightarrow> nat \<Rightarrow> nat \<Rightarrow> bool" where
  "ack_chain isn lo [] hi edge \<longleftrightarrow> lo \<le> hi"
| "ack_chain isn lo (g # gs) hi edge \<longleftrightarrow>
     (if th_ack (ts_header g)
      then \<exists>k \<ge> lo. th_ackno (ts_header g) = wrap k isn \<and> k + unat (th_win (ts_header g)) \<le> edge \<and>
             ack_chain isn k gs hi edge
      else ack_chain isn lo gs hi edge)"

lemma ack_chain_le: "ack_chain isn lo gs hi edge \<Longrightarrow> lo \<le> hi"
proof (induction gs arbitrary: lo)
  case (Cons g gs)
  then show ?case by (fastforce split: if_splits)
qed simp

lemma ack_chain_append:
  assumes "ack_chain isn lo gs hi edge" and "ack_chain isn hi gs' hi' edge'" and "edge \<le> edge'"
  shows "ack_chain isn lo (gs @ gs') hi' edge'"
  using assms
proof (induction gs arbitrary: lo)
  case Nil
  then have "lo \<le> hi" by simp
  with Nil.prems(2) show ?case
  proof (induction gs')
    case (Cons g gs')
    then show ?case by (auto split: if_splits intro: order_trans)
  qed simp
next
  case (Cons g gs)
  then show ?case by (fastforce split: if_splits)
qed

lemma stamp_win:
  assumes "rx_sound S isn rx" and "rx_syn rx"
  shows "rx_abs_ackno rx + unat (th_win (ts_header (tc_stamp rx g))) \<le> rx_edge rx"
proof -
  let ?sr = "rx_reassembler rx"
  have inv: "sr_inv ?sr" using assms(1) by (simp add: rx_sound_def sr_sound_def)
  note b = sr_inv_bounds [OF inv]
  have "rx_window_size rx = sr_capacity ?sr - length (bs_contents (sr_output ?sr))"
    using bs_inv_remaining [OF b(1)] b(2) by (simp add: rx_window_size_def rx_stream_out_def)
  moreover have "unat (th_win (ts_header (tc_stamp rx g))) \<le> rx_window_size rx"
    by (simp add: tc_stamp_def Let_def unsigned_of_nat take_bit_nat_less_eq_self)
  ultimately show ?thesis
    using assms(2) b(7,10) by (simp add: rx_abs_ackno_def rx_edge_def sr_window_end_def)
qed

lemma ack_chain_stamps:
  assumes "rx_sound S isn rx" and "\<forall>g \<in> set raw. plain g"
  shows "ack_chain isn (rx_abs_ackno rx) (map (tc_stamp rx) raw) (rx_abs_ackno rx) (rx_edge rx)"
  using assms(2)
proof (induction raw)
  case (Cons g raw)
  then show ?case using stamp_ack [OF assms(1), of g] stamp_win [OF assms(1), of g] by (cases "rx_syn rx") auto
qed simp

text \<open>The sender \<open>a\<close> does not send beyond what \<open>b\<close> offers, but for one number when the window is closed.\<close>

definition edge :: "endpoint \<Rightarrow> endpoint \<Rightarrow> TCPSegment list \<Rightarrow> bool" where
  "edge a b gs \<longleftrightarrow>
     ack_chain (isn_of a) (una a) gs (rx_abs_ackno (rx_of b)) (rx_edge (rx_of b)) \<and>
     una a + unat (tx_window_size (tc_sender (ep_tc a))) \<le> rx_edge (rx_of b) \<and>
     nxt a \<le> max (rx_edge (rx_of b)) (rx_abs_ackno (rx_of b) + 1)"

lemma edge_peer:
  assumes "edge a b gs" and "rx_sound S (isn_of a) (rx_of b')" and "\<forall>g \<in> set raw. plain g"
    and "rx_abs_ackno (rx_of b) \<le> rx_abs_ackno (rx_of b')" and "rx_edge (rx_of b) \<le> rx_edge (rx_of b')"
  shows "edge a b' (gs @ map (tc_stamp (rx_of b')) raw)"
proof -
  have "ack_chain (isn_of a) (una a) gs (rx_abs_ackno (rx_of b)) (rx_edge (rx_of b))" using assms(1) by (simp add: edge_def)
  moreover have "ack_chain (isn_of a) (rx_abs_ackno (rx_of b)) [] (rx_abs_ackno (rx_of b')) (rx_edge (rx_of b'))"
    using assms(4) by simp
  ultimately have "ack_chain (isn_of a) (una a) (gs @ []) (rx_abs_ackno (rx_of b')) (rx_edge (rx_of b'))"
    using assms(5) by (rule ack_chain_append)
  from ack_chain_append [OF this ack_chain_stamps [OF assms(2,3)]] show ?thesis
    using assms(1,4,5) by (auto simp: edge_def)
qed

lemma edge_window:
  assumes "una a \<le> rx_abs_ackno (rx_of b)" and "una a + unat (tx_window_size (tc_sender (ep_tc a))) \<le> rx_edge (rx_of b)"
  shows "una a + tx_window (tc_sender (ep_tc a)) \<le> max (rx_edge (rx_of b)) (rx_abs_ackno (rx_of b) + 1)"
  using assms by (auto simp: tx_window_def)

lemma edge_local:
  assumes e: "edge a b gs" and u: "una a \<le> rx_abs_ackno (rx_of b)" and "tc_goes (ep_tc a) (ep_tc a') raw" and "una a' = una a"
    and "tx_window_size (tc_sender (ep_tc a')) = tx_window_size (tc_sender (ep_tc a))"
  shows "edge a' b gs"
proof -
  have g: "isn_of a' = isn_of a" "nxt a' \<le> max (nxt a) (una a' + tx_window (tc_sender (ep_tc a')))"
    using assms(3) by (simp_all add: tc_goes_def tx_goes_def)
  have "una a' + tx_window (tc_sender (ep_tc a')) \<le> max (rx_edge (rx_of b)) (rx_abs_ackno (rx_of b) + 1)"
    using e u assms(4,5) by (intro edge_window) (simp_all add: edge_def)
  then show ?thesis using e g assms(4,5) by (auto simp: edge_def)
qed

lemma edge_receive:
  assumes l: "link a b" "link b a" and e: "edge a b (g # gs)" and ar: "arrival b a g m k tc' raw"
  shows "edge (a\<lparr>ep_tc := tc'\<rparr>) b gs"
proof -
  let ?a' = "a\<lparr>ep_tc := tc'\<rparr>"
  have goes: "tx_goes (tc_sender (ep_tc a)) (tc_sender tc') raw" using ar by (simp add: arrival_def tc_goes_def)
  then have g: "isn_of ?a' = isn_of a" "nxt ?a' \<le> max (nxt a) (una ?a' + tx_window (tc_sender (ep_tc ?a')))"
    by (simp_all add: tx_goes_def)
  have "una ?a' + unat (tx_window_size (tc_sender tc')) \<le> rx_edge (rx_of b) \<and>
    ack_chain (isn_of a) (una ?a') gs (rx_abs_ackno (rx_of b)) (rx_edge (rx_of b))"
  proof (cases "th_ack (ts_header g)")
    case False
    then show ?thesis using e ar by (simp add: edge_def arrival_def)
  next
    case True
    then obtain j where j: "una a \<le> j" "th_ackno (ts_header g) = wrap j (isn_of a)"
      "j + unat (th_win (ts_header g)) \<le> rx_edge (rx_of b)"
      "ack_chain (isn_of a) j gs (rx_abs_ackno (rx_of b)) (rx_edge (rx_of b))"
      using e by (auto simp: edge_def)
    have k: "k \<le> rx_abs_ackno (rx_of b)" "th_ackno (ts_header g) = wrap k (isn_of a)"
      "una ?a' = max (una a) k" "tx_window_size (tc_sender tc') = th_win (ts_header g)"
      using True ar by (simp_all add: arrival_def)
    have "rx_abs_ackno (rx_of b) < 2 ^ 32"
      using rx_abs_ackno_le [OF link_rx [OF l(2)]] l(1) by (simp add: link_def)
    then have "j = k" using j(2) k(1,2) ack_chain_le [OF j(4)] by (intro wrap_inj [of j k "isn_of a"]) simp_all
    then show ?thesis using j k by simp
  qed
  moreover from this have "una ?a' \<le> rx_abs_ackno (rx_of b)" using ack_chain_le by blast
  ultimately show ?thesis
    using e g edge_window [of ?a' b] by (auto simp: edge_def)
qed

text \<open>With an empty buffer there is room for all that was sent.\<close>

lemma edge_roomy:
  assumes l: "link b a" and e: "edge a b gs" and "rx_settled (rx_of b)"
    and "bs_contents (tc_inbound_stream (ep_tc b)) = []" and "0 < rx_capacity (rx_of b)"
  shows "roomy a b"
proof -
  let ?rx = "rx_of b" let ?sr = "rx_reassembler ?rx"
  have rx: "rx_sound (ep_wrote a) (isn_of a) ?rx" by (rule link_rx [OF l])
  then have inv: "sr_inv ?sr" and cap: "sr_capacity ?sr = rx_capacity ?rx" by (simp_all add: rx_sound_def sr_sound_def)
  have we: "sr_window_end ?sr = sr_next_pos ?sr + rx_capacity ?rx"
    using sr_inv_bounds(7) [OF inv] assms(4) cap by (simp add: sr_window_end_def tc_inbound_stream_def rx_stream_out_def)
  have "n \<in> rx_has ?rx \<or> n \<le> sr_window_end ?sr" if "n \<in> {1..length (ep_wrote a)}" "n < nxt a" for n
  proof (cases "n < rx_abs_ackno ?rx")
    case True
    then show ?thesis using rx_has_ack(1) [OF rx assms(3)] by auto
  next
    case False
    have "\<not> bs_end_input (rx_stream_out ?rx)"
    proof
      assume "bs_end_input (rx_stream_out ?rx)"
      moreover from this have "sr_next_pos ?sr = length (ep_wrote a)" "rx_syn ?rx"
        using rx by (auto simp: rx_sound_def sr_sound_def rx_stream_out_def split: if_splits)
      ultimately show False using False that(1) by (simp add: rx_abs_ackno_def)
    qed
    then have "n \<le> sr_window_end ?sr \<or> n \<le> sr_next_pos ?sr + 1"
      using that(2) e by (auto simp: edge_def rx_edge_def rx_abs_ackno_def split: if_splits)
    then show ?thesis using we assms(5) by auto
  qed
  then show ?thesis by (simp add: roomy_def)
qed

end
