(* ===== verification/TCP_Benchmark.thy ===== *)
theory TCP_Benchmark
  imports Lossless_Exchange Address
begin

text \<open>
  \<^verbatim>\<open>apps/tcp_benchmark.cc\<close>: two connections in one process, whose segments are moved from one to the other, in order or
  in reverse. One sends a string, the other reads it; the program throws if what is read is not what was sent, and
  ends when both connections have ended.
\<close>

section \<open>Model\<close>

text \<open>The loop of \<^verbatim>\<open>move_segments\<close> over the segments, in either order.\<close>

fun receive_all :: "TCPSegment list \<Rightarrow> TCPConnection \<Rightarrow> exn + TCPConnection" where
  "receive_all [] y = Inr y"
| "receive_all (seg # segs) y = bindE (tc_segment_received seg y) (receive_all segs)"

definition move_segments ::
  "TCPConnection \<Rightarrow> TCPConnection \<Rightarrow> TCPSegment list \<Rightarrow> bool \<Rightarrow>
   exn + TCPConnection \<times> TCPConnection \<times> TCPSegment list" where
  "move_segments x y segments reorder =
     (let segments1 = segments @ tc_segments_out x;
          x1 = x\<lparr>tc_segments_out := []\<rparr>
      in bindE (receive_all (if reorder then rev segments1 else segments1) y) (\<lambda>y1. Inr (x1, y1, [])))"

text \<open>The variables of \<^verbatim>\<open>main_loop\<close> that its loop works on.\<close>

record benchmark =
  bm_x :: TCPConnection
  bm_y :: TCPConnection
  bm_bytes_to_send :: Buffer
  bm_x_closed :: bool
  bm_string_received :: bytes

text \<open>The loop that writes into \<open>x\<close>. \<open>None\<close> says that it does not end.\<close>

partial_function (option) bm_write :: "Buffer \<Rightarrow> TCPConnection \<Rightarrow> (exn + Buffer \<times> TCPConnection) option" where
  "bm_write bytes_to_send x =
     (if buf_size bytes_to_send \<noteq> 0 \<and> tc_remaining_outbound_capacity x \<noteq> 0 then
        let want = min (tc_remaining_outbound_capacity x) (buf_size bytes_to_send)
        in (case tc_write (take want (buf_str bytes_to_send)) x of
              Inl e \<Rightarrow> Some (Inl e)
            | Inr (written, x1) \<Rightarrow>
                if want \<noteq> written then
                  Some (Inl (Runtime_error (''want = '' @ dec_string want @ '', written = '' @ dec_string written)))
                else
                  (case buf_remove_prefix written bytes_to_send of
                     Inl e \<Rightarrow> Some (Inl e)
                   | Inr bytes1 \<Rightarrow> bm_write bytes1 x1))
      else Some (Inr (bytes_to_send, x)))"

text \<open>The lambda \<^verbatim>\<open>loop\<close>: what follows the writing, and all of it.\<close>

definition bm_exchange :: "bool \<Rightarrow> benchmark \<Rightarrow> exn + benchmark" where
  "bm_exchange reorder s =
     bindE (if buf_size (bm_bytes_to_send s) = 0 \<and> \<not> bm_x_closed s
            then bindE (tc_end_input_stream (bm_x s)) (\<lambda>x. Inr (s\<lparr>bm_x := x, bm_x_closed := True\<rparr>))
            else Inr s) (\<lambda>s1.
     bindE (move_segments (bm_x s1) (bm_y s1) [] reorder) (\<lambda>(x, y, segments).
     bindE (move_segments y x segments False) (\<lambda>(y1, x1, _).
     let available_output = bs_buffer_size (tc_inbound_stream y1)
     in bindE (if available_output > 0
               then bindE (tc_read available_output y1) (\<lambda>(d, y2). Inr (y2, bm_string_received s1 @ d))
               else Inr (y1, bm_string_received s1)) (\<lambda>(y2, received).
        Inr (s1\<lparr>bm_x := tc_tick 1000 x1, bm_y := tc_tick 1000 y2, bm_string_received := received\<rparr>)))))"

definition bm_loop :: "bool \<Rightarrow> benchmark \<Rightarrow> (exn + benchmark) option" where
  "bm_loop reorder s =
     (case bm_write (bm_bytes_to_send s) (bm_x s) of
        None \<Rightarrow> None
      | Some (Inl e) \<Rightarrow> Some (Inl e)
      | Some (Inr (bytes_to_send, x)) \<Rightarrow>
          Some (bm_exchange reorder (s\<lparr>bm_bytes_to_send := bytes_to_send, bm_x := x\<rparr>)))"

text \<open>\<^verbatim>\<open>while (cond) loop();\<close>\<close>

partial_function (option) bm_while :: "bool \<Rightarrow> (benchmark \<Rightarrow> bool) \<Rightarrow> benchmark \<Rightarrow> (exn + benchmark) option" where
  "bm_while reorder cond s =
     (if cond s then
        (case bm_loop reorder s of
           None \<Rightarrow> None
         | Some (Inl e) \<Rightarrow> Some (Inl e)
         | Some (Inr s1) \<Rightarrow> bm_while reorder cond s1)
      else Some (Inr s))"

text \<open>
  \<^verbatim>\<open>main_loop\<close>, without the clock and the printing. \<open>rx\<close> and \<open>ry\<close> are the random initial sequence numbers; the string to send,
  which the code fills with random bytes, is an argument.
\<close>

definition bm_start :: "WrappingInt32 \<Rightarrow> WrappingInt32 \<Rightarrow> bytes \<Rightarrow> exn + benchmark" where
  "bm_start rx ry string_to_send =
     bindE (tc_connect (TCPConnection_new TCPConfig_default rx)) (\<lambda>x.
     bindE (tc_end_input_stream (TCPConnection_new TCPConfig_default ry)) (\<lambda>y.
     Inr \<lparr>bm_x = x, bm_y = y, bm_bytes_to_send = buf_of_string string_to_send, bm_x_closed = False,
          bm_string_received = []\<rparr>))"

definition main_loop :: "WrappingInt32 \<Rightarrow> WrappingInt32 \<Rightarrow> bytes \<Rightarrow> bool \<Rightarrow> (exn + benchmark) option" where
  "main_loop rx ry string_to_send reorder =
     (case bm_start rx ry string_to_send of
        Inl e \<Rightarrow> Some (Inl e)
      | Inr s0 \<Rightarrow>
          (case bm_while reorder (\<lambda>s. \<not> bs_eof (tc_inbound_stream (bm_y s))) s0 of
             None \<Rightarrow> None
           | Some (Inl e) \<Rightarrow> Some (Inl e)
           | Some (Inr s1) \<Rightarrow>
               if bm_string_received s1 \<noteq> string_to_send
               then Some (Inl (Runtime_error ''strings sent vs. received don't match''))
               else bm_while reorder (\<lambda>s. tc_active (bm_x s) \<or> tc_active (bm_y s)) s1))"

section \<open>Delivering segments\<close>

text \<open>What the arrival of segments leaves as it is, and what only grows.\<close>

definition moves_on :: "TCPConnection \<Rightarrow> TCPConnection \<Rightarrow> bool" where
  "moves_on tc tc' \<longleftrightarrow>
     tx_abs_ackno (tc_sender tc) \<le> tx_abs_ackno (tc_sender tc') \<and>
     tx_next_seqno (tc_sender tc) \<le> tx_next_seqno (tc_sender tc') \<and>
     tx_count (tc_sender tc') =
       (if tx_abs_ackno (tc_sender tc) < tx_abs_ackno (tc_sender tc') then 0 else tx_count (tc_sender tc)) \<and>
     tc_ended tc' = tc_ended tc \<and> tc_send_capacity tc' = tc_send_capacity tc \<and>
     rx_capacity (tc_receiver tc') = rx_capacity (tc_receiver tc)"

text \<open>From \<open>tc\<close> to \<open>tc'\<close> the segments \<open>news\<close> were put out.\<close>

definition advances :: "TCPConnection \<Rightarrow> TCPConnection \<Rightarrow> TCPSegment list \<Rightarrow> bool" where
  "advances tc tc' news \<longleftrightarrow> tc_segments_out tc' = tc_segments_out tc @ news \<and> moves_on tc tc'"

lemma advances_trans:
  "advances tc tc1 news \<Longrightarrow> advances tc1 tc2 news' \<Longrightarrow> advances tc tc2 (news @ news')"
  by (auto simp: advances_def moves_on_def)

lemma moves_on_count:
  assumes "moves_on tc tc'"
    and "tx_count (tc_sender tc) \<noteq> 0 \<Longrightarrow> tx_abs_ackno (tc_sender tc) < tx_abs_ackno (tc_sender tc')"
  shows "tx_count (tc_sender tc') = 0"
  using assms by (cases "tx_count (tc_sender tc) = 0") (simp_all add: moves_on_def)

lemma rx_edge_mono:
  assumes "rx_sound S isn rx" and "rx_sound S isn rx'" and "rx_abs_ackno rx \<le> rx_abs_ackno rx'"
    and "sr_window_end (rx_reassembler rx) \<le> sr_window_end (rx_reassembler rx')"
  shows "rx_edge rx \<le> rx_edge rx'"
proof -
  have "bs_end_input (rx_stream_out rx')" if e: "bs_end_input (rx_stream_out rx)"
  proof -
    have "rx_abs_ackno rx = length S + 2"
      using e assms(1) by (auto simp: rx_abs_ackno_def rx_sound_def sr_sound_def rx_stream_out_def split: if_splits)
    then show ?thesis
      using assms(3) rx_next_pos_le [OF assms(2)] by (auto simp: rx_abs_ackno_def split: if_splits)
  qed
  then show ?thesis using assms(4) by (simp add: rx_edge_def)
qed

lemma rx_received_capacity: "rx_segment_received seg rx = Inr rx' \<Longrightarrow> rx_capacity rx' = rx_capacity rx"
  by (auto simp: rx_segment_received_def bindE_eq_Inr Let_def split: if_splits)

lemma deliver_one:
  assumes l: "link a b" "link b a" and f: "flow a b (set (g # gs)) G" "flow b a G (set (g # gs))"
    and sent: "g \<in> ep_sent a" and room: "roomy a b"
  obtains tc' news where "tc_segment_received g (ep_tc b) = Inr tc'" and "advances (ep_tc b) tc' news"
    and "link a (b\<lparr>ep_tc := tc'\<rparr>)" and "link (b\<lparr>ep_tc := tc'\<rparr>) a" and "roomy a (b\<lparr>ep_tc := tc'\<rparr>)"
    and "flow a (b\<lparr>ep_tc := tc'\<rparr>) (set gs) (G \<union> set news)" and "flow (b\<lparr>ep_tc := tc'\<rparr>) a (G \<union> set news) (set gs)"
    and "\<forall>Q. edge a b Q \<longrightarrow> edge a (b\<lparr>ep_tc := tc'\<rparr>) (Q @ news)"
    and "edge b a (g # gs) \<longrightarrow> edge (b\<lparr>ep_tc := tc'\<rparr>) a gs"
    and "una b = length (ep_wrote b) + 2 \<longrightarrow> (\<forall>h \<in> set news. ts_length_in_sequence_space h = 0) \<and>
           (ts_length_in_sequence_space g = 0 \<longrightarrow> news = [])"
proof -
  obtain m k tc' raw where ar: "arrival a b g m k tc' raw"
    by (rule flow_arrival [OF l f]) (use sent in simp_all)
  let ?b' = "b\<lparr>ep_tc := tc'\<rparr>" and ?news = "map (tc_stamp (tc_receiver tc')) raw"
  have r: "tc_segment_received g (ep_tc b) = Inr tc'" and goes: "tc_goes (ep_tc b) tc' raw"
    and rx': "rx_sound (ep_wrote a) (isn_of a) (tc_receiver tc')" "rx_settled (tc_receiver tc')"
      "sr_window_end (rx_reassembler (tc_receiver tc')) = sr_window_end (rx_reassembler (rx_of b))"
      "rx_has (rx_of b) \<subseteq> rx_has (tc_receiver tc')"
    and quiet: "una b = length (ep_wrote b) + 2 \<longrightarrow>
        (if 0 < ts_length_in_sequence_space g then \<forall>h \<in> set raw. ts_length_in_sequence_space h = 0 else raw = [])"
    using ar unfolding arrival_def by blast+
  have l': "link ?b' a" "link a ?b'"
    using ep_step_link [OF l(2,1) ep_step.receive [OF sent r]] by simp_all
  have rx: "rx_sound (ep_wrote a) (isn_of a) (rx_of b)" "rx_settled (rx_of b)"
    using link_rx [OF l(2)] f(1) by (simp_all add: flow_def)
  have ack: "rx_abs_ackno (rx_of b) \<le> rx_abs_ackno (tc_receiver tc')"
    by (rule rx_has_mono_ack [OF rx rx'(1,2,4)])
  have edg: "rx_edge (rx_of b) \<le> rx_edge (tc_receiver tc')"
    using rx'(3) by (intro rx_edge_mono [OF rx(1) rx'(1) ack]) simp
  have "rx_segment_received g (rx_of b) = Inr (tc_receiver tc')" using ar unfolding arrival_def by blast
  then have "rx_capacity (tc_receiver tc') = rx_capacity (rx_of b)" by (rule rx_received_capacity)
  then have adv: "advances (ep_tc b) tc' ?news"
    using goes tc_segment_received_ended [OF r] tc_segment_received_capacity [OF r] by (simp add: advances_def moves_on_def tc_goes_def tx_goes_def)
  have plain: "\<forall>h \<in> set raw. plain h" using goes by (simp add: tc_goes_def tx_goes_def)
  have sub: "set (g # gs) - {g} \<subseteq> set gs" "set gs \<subseteq> set (g # gs)" by auto
  show thesis
  proof (rule that [OF r adv l'(2,1)])
    show "roomy a ?b'" "flow a ?b' (set gs) (G \<union> set ?news)"
      using arrival_forth [OF l f(1) ar room sub] by simp_all
    show "flow ?b' a (G \<union> set ?news) (set gs)" using arrival_back [OF l f(2) ar sub(1)] by simp
    show "\<forall>Q. edge a b Q \<longrightarrow> edge a ?b' (Q @ ?news)"
      using edge_peer [where S = "ep_wrote a" and b' = ?b' and raw = raw] rx'(1) plain ack edg by simp
    show "edge b a (g # gs) \<longrightarrow> edge ?b' a gs" using edge_receive [OF l(2,1) _ ar] by blast
    show "una b = length (ep_wrote b) + 2 \<longrightarrow> (\<forall>h \<in> set ?news. ts_length_in_sequence_space h = 0) \<and>
        (ts_length_in_sequence_space g = 0 \<longrightarrow> ?news = [])"
      using quiet by (cases "0 < ts_length_in_sequence_space g") simp_all
  qed
qed

text \<open>What holds of two endpoints when \<open>gs\<close> is on its way to \<open>b\<close> and nothing else, and \<open>news\<close> back.\<close>

definition exchange :: "endpoint \<Rightarrow> endpoint \<Rightarrow> TCPSegment set \<Rightarrow> TCPSegment set \<Rightarrow> bool" where
  "exchange a b F G \<longleftrightarrow> link a b \<and> link b a \<and> flow a b F G \<and> flow b a G F"

lemma exchange_sym: "exchange a b F G \<Longrightarrow> exchange b a G F"
  by (simp add: exchange_def)

lemma quiet_append:
  assumes "\<forall>h \<in> set news. len h = (0::nat)" and "len g = 0 \<longrightarrow> news = []" and "\<forall>h \<in> set news'. len h = 0"
    and "(\<forall>g \<in> set gs. len g = 0) \<longrightarrow> news' = []"
  shows "(\<forall>h \<in> set (news @ news'). len h = 0) \<and> ((\<forall>g \<in> set (g # gs). len g = 0) \<longrightarrow> news @ news' = [])"
  using assms by (metis Un_iff append_Nil list.set_intros set_append)

lemma deliver:
  assumes "exchange a b (set gs) G" and "set gs \<subseteq> ep_sent a" and "roomy a b"
  shows "\<exists>tc' news. receive_all gs (ep_tc b) = Inr tc' \<and> advances (ep_tc b) tc' news \<and>
    exchange a (b\<lparr>ep_tc := tc'\<rparr>) {} (G \<union> set news) \<and>
    (\<forall>Q. edge a b Q \<longrightarrow> edge a (b\<lparr>ep_tc := tc'\<rparr>) (Q @ news)) \<and>
    (edge b a gs \<longrightarrow> edge (b\<lparr>ep_tc := tc'\<rparr>) a []) \<and>
    (una b = length (ep_wrote b) + 2 \<longrightarrow> (\<forall>h \<in> set news. ts_length_in_sequence_space h = 0) \<and>
       ((\<forall>g \<in> set gs. ts_length_in_sequence_space g = 0) \<longrightarrow> news = []))"
  using assms
proof (induction gs arbitrary: b G)
  case Nil
  have "b\<lparr>ep_tc := ep_tc b\<rparr> = b" by simp
  with Nil show ?case
    by (intro exI [of _ "ep_tc b"] exI [of _ "[]"]) (simp only: receive_all.simps advances_def moves_on_def, simp)
next
  case (Cons g gs)
  have e: "link a b" "link b a" "flow a b (set (g # gs)) G" "flow b a G (set (g # gs))" "g \<in> ep_sent a"
    using Cons.prems by (simp_all add: exchange_def)
  obtain tc1 news where r: "tc_segment_received g (ep_tc b) = Inr tc1" and adv: "advances (ep_tc b) tc1 news"
    and x: "link a (b\<lparr>ep_tc := tc1\<rparr>)" "link (b\<lparr>ep_tc := tc1\<rparr>) a" "roomy a (b\<lparr>ep_tc := tc1\<rparr>)"
      "flow a (b\<lparr>ep_tc := tc1\<rparr>) (set gs) (G \<union> set news)" "flow (b\<lparr>ep_tc := tc1\<rparr>) a (G \<union> set news) (set gs)"
    and ed: "\<forall>Q. edge a b Q \<longrightarrow> edge a (b\<lparr>ep_tc := tc1\<rparr>) (Q @ news)"
      "edge b a (g # gs) \<longrightarrow> edge (b\<lparr>ep_tc := tc1\<rparr>) a gs"
    and quiet: "una b = length (ep_wrote b) + 2 \<longrightarrow> (\<forall>h \<in> set news. ts_length_in_sequence_space h = 0) \<and>
           (ts_length_in_sequence_space g = 0 \<longrightarrow> news = [])"
    by (rule deliver_one [OF e Cons.prems(3)])
  let ?b1 = "b\<lparr>ep_tc := tc1\<rparr>"
  have ex: "exchange a ?b1 (set gs) (G \<union> set news)" using x by (simp add: exchange_def)
  have "set gs \<subseteq> ep_sent a" using Cons.prems(2) by simp
  from Cons.IH [OF ex this x(3)] obtain tc' news' where
    i: "receive_all gs (ep_tc ?b1) = Inr tc'" "advances (ep_tc ?b1) tc' news'"
      "exchange a (?b1\<lparr>ep_tc := tc'\<rparr>) {} (G \<union> set news \<union> set news')"
      "\<forall>Q. edge a ?b1 Q \<longrightarrow> edge a (?b1\<lparr>ep_tc := tc'\<rparr>) (Q @ news')" "edge ?b1 a gs \<longrightarrow> edge (?b1\<lparr>ep_tc := tc'\<rparr>) a []"
      "una ?b1 = length (ep_wrote ?b1) + 2 \<longrightarrow> (\<forall>h \<in> set news'. ts_length_in_sequence_space h = 0) \<and>
       ((\<forall>g \<in> set gs. ts_length_in_sequence_space g = 0) \<longrightarrow> news' = [])"
    by (elim exE conjE) (rule that; assumption)
  have b': "?b1\<lparr>ep_tc := tc'\<rparr> = b\<lparr>ep_tc := tc'\<rparr>" by simp
  note i = i [unfolded b']
  have una: "una ?b1 = length (ep_wrote b) + 2" if "una b = length (ep_wrote b) + 2"
  proof -
    have "tx_inv (ep_wrote b) (tc_sender tc1)" using x(2) by (simp add: link_def tc_inv_def)
    then have "una ?b1 \<le> length (ep_wrote b) + 2"
      using tx_inv_bounds(1) [of "ep_wrote b" "tc_sender tc1"] by (simp add: tx_inv_def)
    then show ?thesis using that adv by (simp add: advances_def moves_on_def)
  qed
  show ?case
  proof (intro exI conjI)
    show "receive_all (g # gs) (ep_tc b) = Inr tc'" using r i(1) by simp
    show "advances (ep_tc b) tc' (news @ news')" using advances_trans [OF adv] i(2) by simp
    show "exchange a (b\<lparr>ep_tc := tc'\<rparr>) {} (G \<union> set (news @ news'))" using i(3) by (simp add: Un_assoc)
    show "\<forall>Q. edge a b Q \<longrightarrow> edge a (b\<lparr>ep_tc := tc'\<rparr>) (Q @ news @ news')" 
    proof (intro allI impI)
      fix Q
      assume "edge a b Q"
      then have "edge a ?b1 (Q @ news)" using ed(1) by blast
      then have "edge a (b\<lparr>ep_tc := tc'\<rparr>) ((Q @ news) @ news')" using i(4) by blast
      then show "edge a (b\<lparr>ep_tc := tc'\<rparr>) (Q @ news @ news')" by simp
    qed
    show "edge b a (g # gs) \<longrightarrow> edge (b\<lparr>ep_tc := tc'\<rparr>) a []" using ed(2) i(5) by blast
    show "una b = length (ep_wrote b) + 2 \<longrightarrow> (\<forall>h \<in> set (news @ news'). ts_length_in_sequence_space h = 0) \<and>
        ((\<forall>g \<in> set (g # gs). ts_length_in_sequence_space g = 0) \<longrightarrow> news @ news' = [])"
    proof (rule impI)
      assume fin: "una b = length (ep_wrote b) + 2"
      then have "una ?b1 = length (ep_wrote ?b1) + 2" using una by simp
      then have later: "\<forall>h \<in> set news'. ts_length_in_sequence_space h = 0"
        "(\<forall>g \<in> set gs. ts_length_in_sequence_space g = 0) \<longrightarrow> news' = []"
        using i(6) by blast+
      have now: "\<forall>h \<in> set news. ts_length_in_sequence_space h = 0" "ts_length_in_sequence_space g = 0 \<longrightarrow> news = []"
        using quiet fin by blast+
      show "(\<forall>h \<in> set (news @ news'). ts_length_in_sequence_space h = 0) \<and>
          ((\<forall>g \<in> set (g # gs). ts_length_in_sequence_space g = 0) \<longrightarrow> news @ news' = [])"
        by (rule quiet_append [OF now later])
    qed
  qed
qed

section \<open>One round of the loop\<close>

text \<open>
  The endpoints \<open>a\<close> and \<open>b\<close> of \<open>x\<close> and \<open>y\<close>: \<open>a\<close> has written all but \<open>rest\<close> of the string \<open>S\<close>, and \<open>b\<close> writes nothing.
\<close>

definition paired :: "bytes \<Rightarrow> bytes \<Rightarrow> bool \<Rightarrow> endpoint \<Rightarrow> endpoint \<Rightarrow> bool" where
  "paired S rest closed a b \<longleftrightarrow>
     ep_wrote a @ rest = S \<and> length S + 2 < 2 ^ 31 \<and> tc_ended (ep_tc a) = closed \<and> (closed \<longrightarrow> rest = []) \<and>
     ep_wrote b = [] \<and> tc_ended (ep_tc b) \<and> 0 < nxt a \<and> 0 < nxt b \<and>
     0 < tc_send_capacity (ep_tc a) \<and> 0 < rx_capacity (rx_of b)"

text \<open>The state at the head of the loop.\<close>

definition loop_head :: "bytes \<Rightarrow> benchmark \<Rightarrow> endpoint \<Rightarrow> endpoint \<Rightarrow> bool" where
  "loop_head S s a b \<longleftrightarrow>
     ep_tc a = bm_x s \<and> ep_tc b = bm_y s \<and> ep_got b = bm_string_received s \<and> buf_wf (bm_bytes_to_send s) \<and>
     paired S (buf_str (bm_bytes_to_send s)) (bm_x_closed s) a b \<and>
     exchange a b (set (tc_segments_out (bm_x s))) (set (tc_segments_out (bm_y s))) \<and>
     edge a b (tc_segments_out (bm_y s)) \<and> bs_contents (tc_inbound_stream (bm_y s)) = [] \<and>
     (tx_count (tc_sender (bm_y s)) = 0 \<or> rx_abs_ackno (tc_receiver (bm_x s)) = tx_next_seqno (tc_sender (bm_y s)))"

lemma remaining_capacity:
  assumes "tx_inv S (tc_sender tc)"
  shows "tc_remaining_outbound_capacity tc = tc_send_capacity tc - length (bs_contents (tx_stream (tc_sender tc)))"
  using bs_inv_remaining [OF tx_inv_bounds(6) [OF assms]] by (simp add: tc_remaining_outbound_capacity_def)

text \<open>A call of the application at \<open>a\<close>, which sends but takes no segment.\<close>

lemma exchange_goes:
  assumes ex: "exchange a b (set (tc_segments_out (ep_tc a))) G" and ed: "edge a b Q"
    and step: "ep_step b a (a\<lparr>ep_tc := tc', ep_wrote := W\<rparr>)"
    and goes: "tc_goes (ep_tc a) tc' raw" "tc_ready W tc'" "tc_receiver tc' = rx_of a"
      "tx_abs_ackno (tc_sender tc') = una a" "tx_window_size (tc_sender tc') = tx_window_size (tc_sender (ep_tc a))"
  defines "a' \<equiv> a\<lparr>ep_tc := tc', ep_wrote := W\<rparr>"
  shows "exchange a' b (set (tc_segments_out tc')) G" and "edge a' b Q"
proof -
  have l: "link a b" "link b a" and f: "flow a b (set (tc_segments_out (ep_tc a))) G"
    "flow b a G (set (tc_segments_out (ep_tc a)))"
    using ex by (simp_all add: exchange_def)
  have "link a' b" "link b a'" using ep_step_link [OF l step] by (simp_all add: a'_def)
  moreover have "tc_segments_out tc' = tc_segments_out (ep_tc a) @ map (tc_stamp (rx_of a)) raw"
    using goes(1,3) by (simp add: tc_goes_def)
  ultimately show "exchange a' b (set (tc_segments_out tc')) G"
    using flow_goes [OF f goes(2,1,3)] by (simp add: exchange_def a'_def)
  have "una a \<le> rx_abs_ackno (rx_of b)" using l(1) by (simp add: link_def)
  from edge_local [OF ed this, of a' raw] show "edge a' b Q" using goes by (simp add: a'_def)
qed

lemma loop_head_write_step:
  assumes t: "loop_head S s a b" and ne: "buf_str (bm_bytes_to_send s) \<noteq> []" and room: "tc_remaining_outbound_capacity (bm_x s) \<noteq> 0"
  defines "want \<equiv> min (tc_remaining_outbound_capacity (bm_x s)) (buf_size (bm_bytes_to_send s))"
  obtains x1 a1 where "tc_write (take want (buf_str (bm_bytes_to_send s))) (bm_x s) = Inr (want, x1)"
    and "buf_remove_prefix want (bm_bytes_to_send s) = Inr (buf_advance want (bm_bytes_to_send s))"
    and "loop_head S (s\<lparr>bm_bytes_to_send := buf_advance want (bm_bytes_to_send s), bm_x := x1\<rparr>) a1 b"
    and "una a1 = una a" and "nxt a \<le> nxt a1" and "tx_count (tc_sender x1) = tx_count (tc_sender (bm_x s))"
    and "rx_of a1 = rx_of a" and "length (buf_str (buf_advance want (bm_bytes_to_send s))) < length (buf_str (bm_bytes_to_send s))"
proof -
  let ?bytes = "bm_bytes_to_send s" let ?d = "take want (buf_str ?bytes)"
  have p: "paired S (buf_str ?bytes) (bm_x_closed s) a b" and x: "ep_tc a = bm_x s"
    and ex: "exchange a b (set (tc_segments_out (ep_tc a))) (set (tc_segments_out (bm_y s)))"
    and ed: "edge a b (tc_segments_out (bm_y s))" and wf: "buf_wf ?bytes"
    using t by (simp_all add: loop_head_def)
  have S: "ep_wrote a @ buf_str ?bytes = S" "length S + 2 < 2 ^ 31" and nc: "\<not> tc_ended (bm_x s)"
    using p ne x by (auto simp: paired_def)
  have len: "length ?d = want" "0 < want" using ne room by (auto simp: want_def buf_size_def)
  have lim: "length (ep_wrote a) + length ?d + 2 < 2 ^ 31" using S by (auto simp: want_def buf_size_def)
  have rd: "tc_ready (ep_wrote a) (bm_x s)" using ex x by (simp add: exchange_def flow_def)
  obtain x1 n raw where w: "tc_write ?d (bm_x s) = Inr (n, x1)" "n = min (tc_remaining_outbound_capacity (bm_x s)) (length ?d)"
    "tc_goes (bm_x s) x1 raw" "tc_ready (ep_wrote a @ take n ?d) x1" "tc_receiver x1 = tc_receiver (bm_x s)"
    "tx_abs_ackno (tc_sender x1) = tx_abs_ackno (tc_sender (bm_x s))"
    "tx_window_size (tc_sender x1) = tx_window_size (tc_sender (bm_x s))"
    by (rule tc_write_goes [OF rd nc lim])
  have n: "n = want" using w(2) len by (simp add: want_def)
  let ?a1 = "a\<lparr>ep_tc := x1, ep_wrote := ep_wrote a @ ?d\<rparr>"
  have "ep_step b a ?a1"
    using ep_step.put [of a ?d want x1 b] nc lim w(1) n x len by simp
  then have e1: "exchange ?a1 b (set (tc_segments_out x1)) (set (tc_segments_out (bm_y s)))"
    "edge ?a1 b (tc_segments_out (bm_y s))"
    using exchange_goes [OF ex ed, where tc' = x1 and W = "ep_wrote a @ ?d" and raw = raw] w n len x by simp_all
  have adv: "buf_str (buf_advance want ?bytes) = drop want (buf_str ?bytes)" "buf_wf (buf_advance want ?bytes)"
    using wf by (auto simp: want_def buf_size_def intro!: buf_str_advance buf_advance_wf)
  have g: "nxt a \<le> nxt ?a1" "tx_count (tc_sender x1) = tx_count (tc_sender (bm_x s))"
    using w(3,6) x by (simp_all add: tc_goes_def tx_goes_def)
  have "paired S (drop want (buf_str ?bytes)) (bm_x_closed s) ?a1 b"
    using p tc_write_ended [OF w(1)] tc_write_capacity [OF w(1)] x g(1) by (auto simp: paired_def)
  then have "loop_head S (s\<lparr>bm_bytes_to_send := buf_advance want ?bytes, bm_x := x1\<rparr>) ?a1 b"
    using t adv e1 w(5) by (simp add: loop_head_def)
  then show thesis
    using that [OF _ _ _ _ g] w(1,5,6) n x adv(1) len ne by (simp add: buf_remove_prefix_def buf_size_def want_def)
qed

text \<open>The writing ends: with nothing left to write, or with no room left.\<close>

lemma bm_write_ok:
  assumes "loop_head S s a b"
  shows "\<exists>bytes x a'. bm_write (bm_bytes_to_send s) (bm_x s) = Some (Inr (bytes, x)) \<and>
    loop_head S (s\<lparr>bm_bytes_to_send := bytes, bm_x := x\<rparr>) a' b \<and> una a' = una a \<and> nxt a \<le> nxt a' \<and>
    tx_count (tc_sender x) = tx_count (tc_sender (bm_x s)) \<and> rx_of a' = rx_of a \<and>
    (buf_str bytes = [] \<or> tc_remaining_outbound_capacity x = 0)"
  using assms
proof (induction "length (buf_str (bm_bytes_to_send s))" arbitrary: s a rule: less_induct)
  case less
  let ?bytes = "bm_bytes_to_send s" and ?x = "bm_x s"
  show ?case
  proof (cases "buf_str ?bytes \<noteq> [] \<and> tc_remaining_outbound_capacity ?x \<noteq> 0")
    case False
    then have "bm_write ?bytes ?x = Some (Inr (?bytes, ?x))"
      by (subst bm_write.simps) (auto simp: buf_size_def)
    then show ?thesis using less.prems False by fastforce
  next
    case True
    define want where "want = min (tc_remaining_outbound_capacity ?x) (buf_size ?bytes)"
    let ?bytes1 = "buf_advance want ?bytes"
    obtain x1 a1 where w: "tc_write (take want (buf_str ?bytes)) ?x = Inr (want, x1)"
      "buf_remove_prefix want ?bytes = Inr ?bytes1" "loop_head S (s\<lparr>bm_bytes_to_send := ?bytes1, bm_x := x1\<rparr>) a1 b"
      "una a1 = una a" "nxt a \<le> nxt a1" "tx_count (tc_sender x1) = tx_count (tc_sender ?x)" "rx_of a1 = rx_of a"
      "length (buf_str ?bytes1) < length (buf_str ?bytes)"
      using loop_head_write_step [OF less.prems] True unfolding want_def by blast
    have "buf_size ?bytes \<noteq> 0" using True by (simp add: buf_size_def)
    then have "bm_write ?bytes ?x = bm_write ?bytes1 x1"
      using True w(1,2) by (subst bm_write.simps) (simp add: Let_def flip: want_def)
    then show ?thesis
      using less.hyps [OF _ w(3)] w(4-8) by (auto intro: order_trans)
  qed
qed

lemma exchange_sender:
  assumes "exchange a b F G"
  shows "tc_ready (ep_wrote a) (ep_tc a)" "tx_inv (ep_wrote a) (tc_sender (ep_tc a))" "tx_plain (tc_sender (ep_tc a))"
    "tx_busy (ep_wrote a) (tc_sender (ep_tc a))" "una a \<le> nxt a" "nxt a \<le> length (ep_wrote a) + 2"
proof -
  show rd: "tc_ready (ep_wrote a) (ep_tc a)" using assms by (simp add: exchange_def flow_def)
  then show inv: "tx_inv (ep_wrote a) (tc_sender (ep_tc a))" and "tx_plain (tc_sender (ep_tc a))"
    "tx_busy (ep_wrote a) (tc_sender (ep_tc a))"
    by (simp_all add: tc_ready_def tx_ready_def)
  show "una a \<le> nxt a" using inv by (simp add: tx_inv_def)
  show "nxt a \<le> length (ep_wrote a) + 2" by (rule tx_inv_bounds(1) [OF inv])
qed

text \<open>After writing, something is on its way or all is acknowledged.\<close>

lemma loop_head_busy:
  assumes t: "loop_head S s a b" and c: "bm_x_closed s \<or> tc_remaining_outbound_capacity (bm_x s) = 0"
  shows "una a < nxt a \<or> una a = length S + 2"
proof (cases "una a < nxt a")
  case False
  have p: "paired S (buf_str (bm_bytes_to_send s)) (bm_x_closed s) a b" and x: "ep_tc a = bm_x s"
    and ex: "exchange a b (set (tc_segments_out (bm_x s))) (set (tc_segments_out (bm_y s)))"
    using t by (simp_all add: loop_head_def)
  note tx = exchange_sender [OF ex]
  have e: "bs_contents (tx_stream (tc_sender (bm_x s))) = []" "tc_ended (bm_x s) \<longrightarrow> nxt a = length (ep_wrote a) + 2"
    using tx(4) False p x by (auto simp: tx_busy_def paired_def)
  have "bm_x_closed s"
    using remaining_capacity [of "ep_wrote a" "bm_x s"] tx(2) e(1) c p x by (auto simp: paired_def)
  then have "nxt a = length S + 2" using e(2) p x by (auto simp: paired_def)
  then show ?thesis using tx(5) False by simp
qed simp

lemma loop_head_close:
  assumes t: "loop_head S s a b" and full: "buf_str (bm_bytes_to_send s) = [] \<or> tc_remaining_outbound_capacity (bm_x s) = 0"
  obtains s1 a1 where "(if buf_size (bm_bytes_to_send s) = 0 \<and> \<not> bm_x_closed s
        then bindE (tc_end_input_stream (bm_x s)) (\<lambda>x. Inr (s\<lparr>bm_x := x, bm_x_closed := True\<rparr>)) else Inr s) = Inr s1"
    and "loop_head S s1 a1 b" and "rx_of a1 = rx_of a"
    and "una a1 = una a" and "nxt a \<le> nxt a1" and "tx_count (tc_sender (bm_x s1)) = tx_count (tc_sender (bm_x s))"
    and "una a1 < nxt a1 \<or> una a1 = length S + 2"
proof -
  have p: "paired S (buf_str (bm_bytes_to_send s)) (bm_x_closed s) a b" and x: "ep_tc a = bm_x s"
    and ex: "exchange a b (set (tc_segments_out (ep_tc a))) (set (tc_segments_out (bm_y s)))"
    and ed: "edge a b (tc_segments_out (bm_y s))"
    using t by (simp_all add: loop_head_def)
  show thesis
  proof (cases "buf_size (bm_bytes_to_send s) = 0 \<and> \<not> bm_x_closed s")
    case False
    then have "bm_x_closed s \<or> tc_remaining_outbound_capacity (bm_x s) = 0" using full by (auto simp: buf_size_def)
    then show thesis using that [of s a] False t loop_head_busy [OF t] by auto
  next
    case True
    have lim: "length (ep_wrote a) + 2 < 2 ^ 31" using p by (auto simp: paired_def)
    have rd: "tc_ready (ep_wrote a) (bm_x s)" using ex x by (simp add: exchange_def flow_def)
    obtain x1 raw where w: "tc_end_input_stream (bm_x s) = Inr x1" "tc_goes (bm_x s) x1 raw" "tc_ready (ep_wrote a) x1"
      "tc_receiver x1 = tc_receiver (bm_x s)" "tx_abs_ackno (tc_sender x1) = tx_abs_ackno (tc_sender (bm_x s))"
      "tx_window_size (tc_sender x1) = tx_window_size (tc_sender (bm_x s))" "tc_ended x1"
      by (rule tc_end_goes [OF rd lim])
    let ?a1 = "a\<lparr>ep_tc := x1, ep_wrote := ep_wrote a\<rparr>" and ?s1 = "s\<lparr>bm_x := x1, bm_x_closed := True\<rparr>"
    have "ep_step b a ?a1" using ep_step.finish [of a x1 b] w(1) x by simp
    then have e1: "exchange ?a1 b (set (tc_segments_out x1)) (set (tc_segments_out (bm_y s)))"
      "edge ?a1 b (tc_segments_out (bm_y s))"
      using exchange_goes [OF ex ed, where tc' = x1 and W = "ep_wrote a" and raw = raw] w x by simp_all
    have g: "nxt a \<le> nxt ?a1" "tx_count (tc_sender x1) = tx_count (tc_sender (bm_x s))"
      using w(2,5) x by (simp_all add: tc_goes_def tx_goes_def)
    have "paired S (buf_str (bm_bytes_to_send s)) True ?a1 b"
      using p w(7) tc_end_input_capacity [OF w(1)] x g(1) True by (auto simp: paired_def buf_size_def)
    then have t1: "loop_head S ?s1 ?a1 b" using t e1 w(4) by (simp add: loop_head_def)
    then show thesis using that [of ?s1 ?a1] True w(1,4,5) x g loop_head_busy [OF t1] by simp
  qed
qed

lemma exchange_drain:
  assumes "exchange a b F G"
  defines "a' \<equiv> a\<lparr>ep_tc := (ep_tc a)\<lparr>tc_segments_out := []\<rparr>, ep_sent := ep_sent a \<union> set (tc_segments_out (ep_tc a))\<rparr>"
  shows "exchange a' b F G"
proof -
  have f: "flow a' b F G = flow a b F G" "flow b a' G F = flow b a G F"
    by (simp_all add: flow_def a'_def tc_ready_def)
  have l: "link a b" "link b a" using assms(1) by (simp_all add: exchange_def)
  have "link a' b" using l(1) unfolding link_def a'_def by (auto simp: tc_inv_def)
  moreover have "link b a'" using l(2) unfolding link_def a'_def by simp
  ultimately show ?thesis using f assms(1) by (simp add: exchange_def)
qed

text \<open>The two calls of \<^verbatim>\<open>move_segments\<close>.\<close>

lemma move_segments_ok:
  assumes ex: "exchange a b (set (tc_segments_out (ep_tc a))) (set (tc_segments_out (ep_tc b)))" and room: "roomy a b"
  obtains x y a1 b1 news where "move_segments (ep_tc a) (ep_tc b) [] reorder = Inr (x, y, [])"
    and "ep_tc a1 = x" "ep_tc b1 = y" "ep_wrote a1 = ep_wrote a" "ep_wrote b1 = ep_wrote b"
      "ep_got a1 = ep_got a" "ep_got b1 = ep_got b"
    and "exchange a1 b1 {} (set (tc_segments_out y))" and "tc_segments_out x = []"
    and "x = (ep_tc a)\<lparr>tc_segments_out := []\<rparr>" and "tc_segments_out y = tc_segments_out (ep_tc b) @ news" and "moves_on (ep_tc b) y"
    and "edge a b (tc_segments_out (ep_tc b)) \<longrightarrow> edge a1 b1 (tc_segments_out y)"
    and "\<not> reorder \<longrightarrow> edge b a (tc_segments_out (ep_tc a)) \<longrightarrow> edge b1 a1 []"
    and "una b = length (ep_wrote b) + 2 \<longrightarrow> (\<forall>h \<in> set news. ts_length_in_sequence_space h = 0) \<and>
       ((\<forall>g \<in> set (tc_segments_out (ep_tc a)). ts_length_in_sequence_space g = 0) \<longrightarrow> news = [])"
proof -
  let ?x = "ep_tc a" and ?y = "ep_tc b"
  let ?a1 = "a\<lparr>ep_tc := ?x\<lparr>tc_segments_out := []\<rparr>, ep_sent := ep_sent a \<union> set (tc_segments_out ?x)\<rparr>"
  let ?gs = "if reorder then rev (tc_segments_out ?x) else tc_segments_out ?x"
  have ex1: "exchange ?a1 b (set ?gs) (set (tc_segments_out ?y))" using exchange_drain [OF ex] by simp
  have room1: "roomy ?a1 b" using room by (simp add: roomy_def)
  have sent: "set ?gs \<subseteq> ep_sent ?a1" by simp
  have edge1: "edge ?a1 b Q = edge a b Q" "edge b ?a1 Q = edge b a Q" for Q by (simp_all add: edge_def)
  from deliver [OF ex1 sent room1] obtain y news where
    d: "receive_all ?gs ?y = Inr y" "advances ?y y news" "exchange ?a1 (b\<lparr>ep_tc := y\<rparr>) {} (set (tc_segments_out ?y) \<union> set news)"
      "\<forall>Q. edge ?a1 b Q \<longrightarrow> edge ?a1 (b\<lparr>ep_tc := y\<rparr>) (Q @ news)" "edge b ?a1 ?gs \<longrightarrow> edge (b\<lparr>ep_tc := y\<rparr>) ?a1 []"
      "una b = length (ep_wrote b) + 2 \<longrightarrow> (\<forall>h \<in> set news. ts_length_in_sequence_space h = 0) \<and>
       ((\<forall>g \<in> set ?gs. ts_length_in_sequence_space g = 0) \<longrightarrow> news = [])"
    by (elim exE conjE) (rule that; assumption)
  have out: "tc_segments_out y = tc_segments_out ?y @ news" "moves_on ?y y" using d(2) by (simp_all add: advances_def)
  have set_gs: "set ?gs = set (tc_segments_out ?x)" by simp
  show thesis
  proof (rule that [of "?x\<lparr>tc_segments_out := []\<rparr>" y ?a1 "b\<lparr>ep_tc := y\<rparr>" news])
    show "move_segments ?x ?y [] reorder = Inr (?x\<lparr>tc_segments_out := []\<rparr>, y, [])"
      using d(1) by (simp add: move_segments_def)
    show "exchange ?a1 (b\<lparr>ep_tc := y\<rparr>) {} (set (tc_segments_out y))" using d(3) out(1) by simp
    show "edge a b (tc_segments_out ?y) \<longrightarrow> edge ?a1 (b\<lparr>ep_tc := y\<rparr>) (tc_segments_out y)"
      using d(4) out(1) edge1 by simp
    show "\<not> reorder \<longrightarrow> edge b a (tc_segments_out ?x) \<longrightarrow> edge (b\<lparr>ep_tc := y\<rparr>) ?a1 []"
      using d(5) edge1 by (cases reorder) simp_all
    show "una b = length (ep_wrote b) + 2 \<longrightarrow> (\<forall>h \<in> set news. ts_length_in_sequence_space h = 0) \<and>
        ((\<forall>g \<in> set (tc_segments_out ?x). ts_length_in_sequence_space g = 0) \<longrightarrow> news = [])"
      using d(6) unfolding set_gs .
  qed (use out in simp_all)
qed

text \<open>Reading all that has arrived.\<close>

lemma read_all_ok:
  assumes ex: "exchange a b F G" and ed: "edge a b Q"
  defines "n \<equiv> bs_buffer_size (tc_inbound_stream (ep_tc b))"
  obtains y b' where "(if n > 0 then bindE (tc_read n (ep_tc b)) (\<lambda>(d, y). Inr (y, ep_got b @ d))
        else Inr (ep_tc b, ep_got b)) = Inr (y, ep_got b')"
    and "ep_tc b' = y" "ep_wrote b' = ep_wrote b" and "exchange a b' F G" and "edge a b' Q"
    and "bs_contents (tc_inbound_stream y) = []" and "tc_sender y = tc_sender (ep_tc b)"
    and "tc_segments_out y = tc_segments_out (ep_tc b)" and "rx_capacity (tc_receiver y) = rx_capacity (rx_of b)"
proof -
  have l: "link a b" "link b a" and f: "flow b a G F" "flow a b F G" using ex by (simp_all add: exchange_def)
  have rx: "rx_sound (ep_wrote a) (isn_of a) (rx_of b)" by (rule link_rx [OF l(2)])
  then have "sr_inv (rx_reassembler (rx_of b))" by (simp add: rx_sound_def sr_sound_def)
  note size = sr_inv_bounds(9) [OF this]
  show thesis
  proof (cases "n > 0")
    case False
    then have "bs_contents (tc_inbound_stream (ep_tc b)) = []"
      using size by (simp add: n_def tc_inbound_stream_def rx_stream_out_def)
    then show thesis using False that [of "ep_tc b" b] ex ed by simp
  next
    case True
    have inv: "tc_inv (ep_wrote b) (ep_wrote a) (isn_of a) (ep_tc b)" using l(2) by (simp add: link_def)
    have cap: "length (ep_wrote a) + rx_capacity (rx_of b) < 2 ^ 64" using l by (simp add: link_def)
    obtain d y where r: "tc_read n (ep_tc b) = Inr (d, y)" by (rule tc_read_spec [OF inv cap])
    then obtain rx' where rx': "rx_read n (rx_of b) = Inr (d, rx')" "y = (ep_tc b)\<lparr>tc_receiver := rx'\<rparr>"
      by (auto simp: tc_read_def bindE_eq_Inr)
    note h = rx_read_has [OF rx cap rx'(1)]
    let ?b' = "b\<lparr>ep_tc := y, ep_got := ep_got b @ d\<rparr>"
    have l': "link ?b' a" "link a ?b'" using ep_step_link [OF l(2,1) ep_step.get [OF r]] by simp_all
    have rxs': "rx_sound (ep_wrote a) (isn_of a) rx'" using link_rx [OF l'(1)] rx'(2) by simp
    have st: "rx_settled (rx_of b)" using f(2) by (simp add: flow_def)
    have ack: "rx_abs_ackno rx' = rx_abs_ackno (rx_of b)"
      using rx_has_mono_ack [OF rx st rxs'] rx_has_mono_ack [OF rxs' _ rx st] h(1,2) st by (simp add: antisym)
    have "tc_ready (ep_wrote ?b') (ep_tc ?b')" "\<forall>g \<in> G. \<not> th_rst (ts_header g)"
      using f(1) by (simp_all add: flow_def rx'(2) tc_ready_def)
    then have "flow ?b' a G F" "flow a ?b' F G"
      using flow_local [OF f, of ?b' G] h(1,2) ack by (simp_all add: rx'(2))
    then have "exchange a ?b' F G" using l' by (simp add: exchange_def)
    moreover have "edge a ?b' Q"
      using edge_peer [OF ed, of "ep_wrote a" ?b' "[]"] rxs' ack rx_edge_mono [OF rx rxs' _ h(6)] by (simp add: rx'(2))
    moreover have "bs_contents (tc_inbound_stream y) = []"
      using h(3) size by (simp add: rx'(2) n_def tc_inbound_stream_def rx_stream_out_def)
    moreover have "rx_capacity rx' = rx_capacity (rx_of b)" using rx'(1) by (auto simp: rx_read_def bindE_eq_Inr)
    ultimately show thesis using True r that [of y ?b'] rx'(2) by simp
  qed
qed

text \<open>Time passes at one endpoint, which has not been retransmitting.\<close>

lemma exchange_tick:
  fixes ms :: size_t
  assumes ex: "exchange a b (set (tc_segments_out (ep_tc a))) G" and count: "tx_count (tc_sender (ep_tc a)) = 0"
  defines "a' \<equiv> a\<lparr>ep_tc := tc_tick ms (ep_tc a)\<rparr>"
  shows "exchange a' b (set (tc_segments_out (ep_tc a'))) G"
    and "edge a b Q \<Longrightarrow> edge a' b Q" and "edge b a (tc_segments_out (ep_tc a)) \<Longrightarrow> edge b a' (tc_segments_out (ep_tc a'))"
    and "una a' = una a" "nxt a' = nxt a" "tx_count (tc_sender (ep_tc a')) \<le> 1" "rx_of a' = rx_of a"
      "tx_stream (tc_sender (ep_tc a')) = tx_stream (tc_sender (ep_tc a))"
    and "una a = nxt a \<Longrightarrow> tc_segments_out (ep_tc a') = tc_segments_out (ep_tc a)"
proof -
  have l: "link a b" "link b a" and f: "flow a b (set (tc_segments_out (ep_tc a))) G"
    "flow b a G (set (tc_segments_out (ep_tc a)))"
    using ex by (simp_all add: exchange_def)
  obtain raw where t: "tc_segments_out (ep_tc a') = tc_segments_out (ep_tc a) @ map (tc_stamp (rx_of a)) raw"
    "\<forall>g \<in> set raw. plain g" "tc_ready (ep_wrote a) (ep_tc a')" "rx_of a' = rx_of a" "isn_of a' = isn_of a"
    "tx_stream (tc_sender (ep_tc a')) = tx_stream (tc_sender (ep_tc a))" "nxt a' = nxt a" "una a' = una a"
    "tx_window_size (tc_sender (ep_tc a')) = tx_window_size (tc_sender (ep_tc a))"
    "tx_count (tc_sender (ep_tc a')) \<le> 1" "una a = nxt a \<longrightarrow> raw = []"
    using tc_tick_goes [OF exchange_sender(1) [OF ex] count, of ms] unfolding a'_def by simp metis
  have l': "link a' b" "link b a'" using ep_step_link [OF l ep_step.tick, of ms] by (simp_all add: a'_def)
  have rst: "\<forall>g \<in> set (tc_segments_out (ep_tc a')). \<not> th_rst (ts_header g)"
    using f(1) t(1,2) by (auto simp: flow_def plain_def)
  have w: "ep_wrote a' = ep_wrote a" by (simp add: a'_def)
  have "flow a' b (set (tc_segments_out (ep_tc a'))) G" "flow b a' G (set (tc_segments_out (ep_tc a')))"
    using flow_local [OF f _ t(5) _ _ _ _ rst] t(1,3,4,7,8) w by simp_all
  then show "exchange a' b (set (tc_segments_out (ep_tc a'))) G" using l' by (simp add: exchange_def)
  show "edge a' b Q" if "edge a b Q" using that t(5,7,8,9) by (simp add: edge_def)
  show "edge b a' (tc_segments_out (ep_tc a'))" if "edge b a (tc_segments_out (ep_tc a))"
    using edge_peer [OF that, of "ep_wrote b" a' raw] link_rx [OF l(1)] t(1,2,4) by simp
  show "una a' = una a" "nxt a' = nxt a" "tx_count (tc_sender (ep_tc a')) \<le> 1" "rx_of a' = rx_of a"
    "tx_stream (tc_sender (ep_tc a')) = tx_stream (tc_sender (ep_tc a))"
    by (fact t)+
  show "tc_segments_out (ep_tc a') = tc_segments_out (ep_tc a)" if "una a = nxt a" using t(1,11) that by simp
qed

lemma count_pending:
  assumes "exchange a b F G" and "tx_count (tc_sender (ep_tc a)) \<noteq> 0"
  shows "una a < nxt a"
proof -
  have inv: "tx_inv (ep_wrote a) (tc_sender (ep_tc a))" "tx_plain (tc_sender (ep_tc a))"
    using exchange_sender [OF assms(1)] by simp_all
  then have "tx_segments_track (tc_sender (ep_tc a)) \<noteq> []" using assms(2) by (auto simp: tx_plain_def tx_inv_def)
  then show ?thesis
    using inv(1) by (cases "tx_segments_track (tc_sender (ep_tc a))") (auto simp: tx_inv_def dest: tracked_le)
qed

text \<open>
  The segments of \<open>a\<close> go to \<open>b\<close>, and then all that \<open>b\<close> has sent goes to \<open>a\<close>: now \<open>a\<close> knows that \<open>b\<close> has what \<open>a\<close> had sent before,
  and has all that \<open>b\<close> has sent.
\<close>

lemma round_trip:
  assumes ex: "exchange a b (set (tc_segments_out (ep_tc a))) (set (tc_segments_out (ep_tc b)))"
    and ed: "edge a b (tc_segments_out (ep_tc b))" and room: "roomy a b" and silent: "ep_wrote b = []"
  obtains x2 y2 a3 b3 where "move_segments (ep_tc a) (ep_tc b) [] reorder = Inr (x2, y2, [])"
    and "move_segments y2 x2 [] False = Inr (ep_tc b3, ep_tc a3, [])"
    and "ep_wrote a3 = ep_wrote a" "ep_wrote b3 = []" "ep_got b3 = ep_got b"
    and "exchange a3 b3 (set (tc_segments_out (ep_tc a3))) {}" and "edge a3 b3 []" and "tc_segments_out (ep_tc b3) = []"
    and "moves_on (ep_tc a) (ep_tc a3)" and "moves_on (ep_tc b) (ep_tc b3)"
    and "nxt a \<le> una a3" and "rx_abs_ackno (rx_of a) \<le> una b3" and "rx_abs_ackno (rx_of a3) = nxt b3"
    and "una a = length (ep_wrote a) + 2 \<and> una b = 2 \<longrightarrow>
       (\<forall>h \<in> set (tc_segments_out (ep_tc a3)). ts_length_in_sequence_space h = 0) \<and>
       (tc_segments_out (ep_tc b) = [] \<and> (\<forall>g \<in> set (tc_segments_out (ep_tc a)). ts_length_in_sequence_space g = 0) \<longrightarrow>
          tc_segments_out (ep_tc a3) = [])"
proof -
  obtain x2 y2 a2 b2 news where m1: "move_segments (ep_tc a) (ep_tc b) [] reorder = Inr (x2, y2, [])"
    and e2: "ep_tc a2 = x2" "ep_tc b2 = y2" "ep_wrote a2 = ep_wrote a" "ep_wrote b2 = ep_wrote b"
      "ep_got a2 = ep_got a" "ep_got b2 = ep_got b"
    and ex2: "exchange a2 b2 {} (set (tc_segments_out y2))" and "tc_segments_out x2 = []"
    and o2: "x2 = (ep_tc a)\<lparr>tc_segments_out := []\<rparr>" "tc_segments_out y2 = tc_segments_out (ep_tc b) @ news" "moves_on (ep_tc b) y2"
    and ed2: "edge a b (tc_segments_out (ep_tc b)) \<longrightarrow> edge a2 b2 (tc_segments_out y2)"
    and q2: "una b = length (ep_wrote b) + 2 \<longrightarrow> (\<forall>h \<in> set news. ts_length_in_sequence_space h = 0) \<and>
       ((\<forall>g \<in> set (tc_segments_out (ep_tc a)). ts_length_in_sequence_space g = 0) \<longrightarrow> news = [])"
    by (rule move_segments_ok [OF ex room])
  have room2: "roomy b2 a2" using e2 silent by (simp add: roomy_def)
  have "exchange b2 a2 (set (tc_segments_out (ep_tc b2))) (set (tc_segments_out (ep_tc a2)))"
    using exchange_sym [OF ex2] e2(1,2) o2(1) by simp
  then obtain y3 x3 b3 a3 news' where m2: "move_segments (ep_tc b2) (ep_tc a2) [] False = Inr (y3, x3, [])"
    and e3: "ep_tc b3 = y3" "ep_tc a3 = x3" "ep_wrote b3 = ep_wrote b2" "ep_wrote a3 = ep_wrote a2"
      "ep_got b3 = ep_got b2" "ep_got a3 = ep_got a2"
    and ex3: "exchange b3 a3 {} (set (tc_segments_out x3))" and "tc_segments_out y3 = []"
    and o3: "y3 = (ep_tc b2)\<lparr>tc_segments_out := []\<rparr>" "tc_segments_out x3 = tc_segments_out (ep_tc a2) @ news'" "moves_on (ep_tc a2) x3"
    and ed3: "\<not> False \<longrightarrow> edge a2 b2 (tc_segments_out (ep_tc b2)) \<longrightarrow> edge a3 b3 []"
    and q3: "una a2 = length (ep_wrote a2) + 2 \<longrightarrow> (\<forall>h \<in> set news'. ts_length_in_sequence_space h = 0) \<and>
       ((\<forall>g \<in> set (tc_segments_out (ep_tc b2)). ts_length_in_sequence_space g = 0) \<longrightarrow> news' = [])"
    by (rule move_segments_ok [OF _ room2])
  have "rx_abs_ackno (rx_of b2) = nxt a2" "rx_abs_ackno (rx_of a2) \<le> una b2"
    using ex2 flow_complete flow_acked unfolding exchange_def by blast+
  moreover have "rx_abs_ackno (rx_of a3) = nxt b3" "rx_abs_ackno (rx_of b3) \<le> una a3"
    using ex3 flow_complete flow_acked unfolding exchange_def by blast+
  ultimately have acks: "nxt a \<le> una a3" "rx_abs_ackno (rx_of a) \<le> una b3" "rx_abs_ackno (rx_of a3) = nxt b3"
    using e2(1,2) e3(1) o2(1) o3(1) by simp_all
  have mv: "moves_on (ep_tc a) (ep_tc a3)" "moves_on (ep_tc b) (ep_tc b3)"
    using o2(1,3) o3(1,3) e2 e3 by (simp_all add: moves_on_def)
  have out: "tc_segments_out (ep_tc a3) = news'" using o3(2) e2(1) e3(2) o2(1) by simp
  have quiet: "(\<forall>h \<in> set news'. ts_length_in_sequence_space h = 0) \<and>
      (tc_segments_out (ep_tc b) = [] \<and> (\<forall>g \<in> set (tc_segments_out (ep_tc a)). ts_length_in_sequence_space g = 0) \<longrightarrow>
         news' = [])" if d: "una a = length (ep_wrote a) + 2 \<and> una b = 2"
  proof -
    have "una a2 = length (ep_wrote a2) + 2" using d e2(1,3) o2(1) by simp
    note later = q3 [rule_format, OF this]
    have now: "(\<forall>g \<in> set (tc_segments_out (ep_tc a)). ts_length_in_sequence_space g = 0) \<longrightarrow> news = []"
      using q2 d silent by simp
    have "tc_segments_out (ep_tc b2) = tc_segments_out (ep_tc b) @ news" using o2(2) e2(2) by simp
    then show ?thesis using later now by (metis append_Nil empty_iff empty_set)
  qed
  show thesis
  proof (rule that [OF m1])
    show "move_segments y2 x2 [] False = Inr (ep_tc b3, ep_tc a3, [])" using m2 e2 e3 by simp
    show "exchange a3 b3 (set (tc_segments_out (ep_tc a3))) {}" using exchange_sym [OF ex3] e3 by simp
    show "edge a3 b3 []" using ed ed2 ed3 e2(2) by simp
    show "una a = length (ep_wrote a) + 2 \<and> una b = 2 \<longrightarrow>
       (\<forall>h \<in> set (tc_segments_out (ep_tc a3)). ts_length_in_sequence_space h = 0) \<and>
       (tc_segments_out (ep_tc b) = [] \<and> (\<forall>g \<in> set (tc_segments_out (ep_tc a)). ts_length_in_sequence_space g = 0) \<longrightarrow>
          tc_segments_out (ep_tc a3) = [])"
      unfolding out using quiet by blast
  qed (use acks mv e2 e3 o3(1) silent in simp_all)
qed

text \<open>The end of a round: \<open>y\<close> is read and time passes.\<close>

lemma round_end:
  assumes ex: "exchange a b (set (tc_segments_out (ep_tc a))) {}" and ed: "edge a b []" and out: "tc_segments_out (ep_tc b) = []"
    and p: "paired S rest closed a b" and counts: "tx_count (tc_sender (ep_tc a)) = 0" "tx_count (tc_sender (ep_tc b)) = 0"
    and acked: "rx_abs_ackno (rx_of a) = nxt b" and bytes: "buf_wf bytes" "buf_str bytes = rest"
  defines "n \<equiv> bs_buffer_size (tc_inbound_stream (ep_tc b))"
  obtains y received a' b' where
    "(if n > 0 then bindE (tc_read n (ep_tc b)) (\<lambda>(d, y). Inr (y, ep_got b @ d)) else Inr (ep_tc b, ep_got b)) =
       Inr (y, received)"
    and "loop_head S \<lparr>bm_x = tc_tick 1000 (ep_tc a), bm_y = tc_tick 1000 y, bm_bytes_to_send = bytes, bm_x_closed = closed,
           bm_string_received = received\<rparr> a' b'"
    and "una a' = una a" and "una b' = una b" and "rx_abs_ackno (rx_of a') = nxt b'"
    and "una a = nxt a \<longrightarrow> tc_segments_out (tc_tick 1000 (ep_tc a)) = tc_segments_out (ep_tc a)"
    and "una b = nxt b \<longrightarrow> tc_segments_out (tc_tick 1000 y) = []"
proof -
  obtain y b1 where r: "(if n > 0 then bindE (tc_read n (ep_tc b)) (\<lambda>(d, y). Inr (y, ep_got b @ d))
        else Inr (ep_tc b, ep_got b)) = Inr (y, ep_got b1)"
    "ep_tc b1 = y" "ep_wrote b1 = ep_wrote b" "exchange a b1 (set (tc_segments_out (ep_tc a))) {}" "edge a b1 []"
    "bs_contents (tc_inbound_stream y) = []" "tc_sender y = tc_sender (ep_tc b)"
    "tc_segments_out y = tc_segments_out (ep_tc b)" "rx_capacity (tc_receiver y) = rx_capacity (rx_of b)"
    using read_all_ok [OF ex ed] unfolding n_def by blast
  define a2 where "a2 = a\<lparr>ep_tc := tc_tick 1000 (ep_tc a)\<rparr>"
  define b2 where "b2 = b1\<lparr>ep_tc := tc_tick 1000 (ep_tc b1)\<rparr>"
  note ta = exchange_tick [OF r(4) counts(1), where ms = 1000, folded a2_def]
  have "exchange b1 a2 (set (tc_segments_out (ep_tc b1))) (set (tc_segments_out (ep_tc a2)))"
    using exchange_sym [OF ta(1)] r(2,8) out by simp
  from exchange_tick [OF this, where ms = 1000, folded b2_def] r(2,7) counts(2)
  have tb: "exchange b2 a2 (set (tc_segments_out (ep_tc b2))) (set (tc_segments_out (ep_tc a2)))"
    "edge a2 b1 (tc_segments_out (ep_tc b1)) \<Longrightarrow> edge a2 b2 (tc_segments_out (ep_tc b2))"
    "una b2 = una b1" "nxt b2 = nxt b1" "rx_of b2 = rx_of b1"
    "tx_stream (tc_sender (ep_tc b2)) = tx_stream (tc_sender (ep_tc b1))"
    "una b1 = nxt b1 \<Longrightarrow> tc_segments_out (ep_tc b2) = tc_segments_out (ep_tc b1)"
    by simp_all
  have edge2: "edge a2 b2 (tc_segments_out (ep_tc b2))" using tb(2) ta(2) [OF r(5)] r(2,8) out by simp
  have same: "ep_wrote a2 = ep_wrote a" "ep_wrote b2 = ep_wrote b" "ep_got b2 = ep_got b1"
    using r(3) by (simp_all add: a2_def b2_def)
  have "paired S rest closed a2 b2"
    using p same ta(5,8) tb(4,5,6) r(2,7,9) by (simp add: paired_def)
  moreover have "rx_abs_ackno (rx_of a2) = nxt b2" using ta(7) tb(4) acked r(2,7) by simp
  moreover have "bs_contents (tc_inbound_stream (ep_tc b2)) = []" using tb(5) r(2,6) by (simp add: tc_inbound_stream_def)
  ultimately have "loop_head S \<lparr>bm_x = tc_tick 1000 (ep_tc a), bm_y = tc_tick 1000 y, bm_bytes_to_send = bytes, bm_x_closed = closed,
           bm_string_received = ep_got b1\<rparr> a2 b2"
    using exchange_sym [OF tb(1)] edge2 bytes same(3) r(2) by (simp add: loop_head_def a2_def b2_def)
  then show thesis
    using that [OF r(1), of a2 b2] ta(4,7,9) tb(3,4,7) acked r(2,7,8) out by (simp add: a2_def b2_def)
qed

text \<open>A round never throws. It brings the acknowledgments forward, and at the end it quiets down.\<close>

definition progress :: "bytes \<Rightarrow> benchmark \<Rightarrow> endpoint \<Rightarrow> endpoint \<Rightarrow> benchmark \<Rightarrow> endpoint \<Rightarrow> endpoint \<Rightarrow> bool" where
  "progress S s a b s' a' b' \<longleftrightarrow>
     una a \<le> una a' \<and> (una a < length S + 2 \<longrightarrow> una a < una a') \<and> rx_abs_ackno (rx_of a') = nxt b' \<and>
     una b \<le> una b' \<and> rx_abs_ackno (rx_of a) \<le> una b' \<and> nxt a \<le> una a' \<and>
     (una a = length S + 2 \<and> una b = 2 \<longrightarrow>
        tc_segments_out (bm_y s') = [] \<and> (\<forall>g \<in> set (tc_segments_out (bm_x s')). ts_length_in_sequence_space g = 0) \<and>
        (tc_segments_out (bm_y s) = [] \<and> (\<forall>g \<in> set (tc_segments_out (bm_x s)). ts_length_in_sequence_space g = 0) \<longrightarrow>
           tc_segments_out (bm_x s') = []))"

lemma loop_head_done:
  assumes t: "loop_head S s a b" and u: "una a = length S + 2"
  shows "bm_x_closed s" and "buf_str (bm_bytes_to_send s) = []" and "ep_wrote a = S" and "nxt a = length S + 2"
proof -
  have p: "paired S (buf_str (bm_bytes_to_send s)) (bm_x_closed s) a b" and x: "ep_tc a = bm_x s"
    and ex: "exchange a b (set (tc_segments_out (bm_x s))) (set (tc_segments_out (bm_y s)))"
    using t by (simp_all add: loop_head_def)
  note tx = exchange_sender [OF ex]
  have S: "ep_wrote a @ buf_str (bm_bytes_to_send s) = S" using p by (simp add: paired_def)
  then have "length S = length (ep_wrote a) + length (buf_str (bm_bytes_to_send s))" by auto
  then have "length (buf_str (bm_bytes_to_send s)) = 0" using tx(5,6) u by linarith
  then show e: "buf_str (bm_bytes_to_send s) = []" by simp
  show w: "ep_wrote a = S" using S e by simp
  show n: "nxt a = length S + 2" using tx(5,6) u unfolding w by linarith
  have "bs_bytes_read (tx_stream (tc_sender (ep_tc a))) \<le> length S" "tx_phase S (tc_sender (ep_tc a))"
    using tx(2) unfolding w tx_inv_def bs_source_def by simp_all
  then have "tc_ended (ep_tc a)" using n unfolding tx_phase_def Let_def by linarith
  then show "bm_x_closed s" using p by (simp add: paired_def)
qed

lemma bm_exchange_ok:
  assumes t: "loop_head S s a b" and full: "buf_str (bm_bytes_to_send s) = [] \<or> tc_remaining_outbound_capacity (bm_x s) = 0"
  shows "\<exists>s' a' b'. bm_exchange reorder s = Inr s' \<and> loop_head S s' a' b' \<and> progress S s a b s' a' b'"
proof -
  obtain s1 a1 where c: "(if buf_size (bm_bytes_to_send s) = 0 \<and> \<not> bm_x_closed s
        then bindE (tc_end_input_stream (bm_x s)) (\<lambda>x. Inr (s\<lparr>bm_x := x, bm_x_closed := True\<rparr>)) else Inr s) = Inr s1"
    "loop_head S s1 a1 b" "rx_of a1 = rx_of a" "una a1 = una a" "nxt a \<le> nxt a1"
    "tx_count (tc_sender (bm_x s1)) = tx_count (tc_sender (bm_x s))" "una a1 < nxt a1 \<or> una a1 = length S + 2"
    by (rule loop_head_close [OF t full])
  have x1: "ep_tc a1 = bm_x s1" "ep_tc b = bm_y s1" "ep_got b = bm_string_received s1"
    and p: "paired S (buf_str (bm_bytes_to_send s1)) (bm_x_closed s1) a1 b"
    and ex: "exchange a1 b (set (tc_segments_out (ep_tc a1))) (set (tc_segments_out (ep_tc b)))"
    and ed: "edge a1 b (tc_segments_out (ep_tc b))" and e: "bs_contents (tc_inbound_stream (ep_tc b)) = []"
    and full_b: "tx_count (tc_sender (ep_tc b)) = 0 \<or> rx_abs_ackno (rx_of a1) = nxt b" and wf: "buf_wf (bm_bytes_to_send s1)"
    using c(2) by (simp_all add: loop_head_def)
  have "rx_settled (rx_of b)" "link b a1" using ex by (simp_all add: exchange_def flow_def)
  then have room: "roomy a1 b" using edge_roomy [OF _ ed _ e] p by (simp add: paired_def)
  have silent: "ep_wrote b = []" using p by (simp add: paired_def)
  obtain x2 y2 a3 b3 where m: "move_segments (ep_tc a1) (ep_tc b) [] reorder = Inr (x2, y2, [])"
      "move_segments y2 x2 [] False = Inr (ep_tc b3, ep_tc a3, [])"
    and e3: "ep_wrote a3 = ep_wrote a1" "ep_wrote b3 = []" "ep_got b3 = ep_got b"
    and ex3: "exchange a3 b3 (set (tc_segments_out (ep_tc a3))) {}" "edge a3 b3 []" "tc_segments_out (ep_tc b3) = []"
    and mv: "moves_on (ep_tc a1) (ep_tc a3)" "moves_on (ep_tc b) (ep_tc b3)"
    and ack: "nxt a1 \<le> una a3" "rx_abs_ackno (rx_of a1) \<le> una b3" "rx_abs_ackno (rx_of a3) = nxt b3"
    and quiet: "una a1 = length (ep_wrote a1) + 2 \<and> una b = 2 \<longrightarrow>
       (\<forall>h \<in> set (tc_segments_out (ep_tc a3)). ts_length_in_sequence_space h = 0) \<and>
       (tc_segments_out (ep_tc b) = [] \<and> (\<forall>g \<in> set (tc_segments_out (ep_tc a1)). ts_length_in_sequence_space g = 0) \<longrightarrow>
          tc_segments_out (ep_tc a3) = [])"
    by (rule round_trip [OF ex ed room silent])
  have p3: "paired S (buf_str (bm_bytes_to_send s1)) (bm_x_closed s1) a3 b3"
    using p e3 mv by (auto simp: paired_def moves_on_def)
  have counts: "tx_count (tc_sender (ep_tc a3)) = 0" "tx_count (tc_sender (ep_tc b3)) = 0"
    using moves_on_count [OF mv(1)] moves_on_count [OF mv(2)] ack(1,2) full_b
      count_pending [OF ex] count_pending [OF exchange_sym [OF ex]]
    by fastforce+
  obtain y received a' b' where r: "(if bs_buffer_size (tc_inbound_stream (ep_tc b3)) > 0
      then bindE (tc_read (bs_buffer_size (tc_inbound_stream (ep_tc b3))) (ep_tc b3)) (\<lambda>(d, y). Inr (y, ep_got b3 @ d))
      else Inr (ep_tc b3, ep_got b3)) = Inr (y, received)"
    "loop_head S \<lparr>bm_x = tc_tick 1000 (ep_tc a3), bm_y = tc_tick 1000 y, bm_bytes_to_send = bm_bytes_to_send s1,
       bm_x_closed = bm_x_closed s1, bm_string_received = received\<rparr> a' b'"
    "una a' = una a3" "una b' = una b3" "rx_abs_ackno (rx_of a') = nxt b'"
    "una a3 = nxt a3 \<longrightarrow> tc_segments_out (tc_tick 1000 (ep_tc a3)) = tc_segments_out (ep_tc a3)"
    "una b3 = nxt b3 \<longrightarrow> tc_segments_out (tc_tick 1000 y) = []"
    by (rule round_end [OF ex3 p3 counts ack(3) wf refl])
  let ?s' = "\<lparr>bm_x = tc_tick 1000 (ep_tc a3), bm_y = tc_tick 1000 y, bm_bytes_to_send = bm_bytes_to_send s1,
       bm_x_closed = bm_x_closed s1, bm_string_received = received\<rparr>"
  have "bm_exchange reorder s = Inr ?s'"
    unfolding bm_exchange_def c(1) using m r(1) x1 e3(3) by (simp add: Let_def split: if_splits)
  moreover have "progress S s a b ?s' a' b'"
  proof -
    have "una a1 \<le> una a3" "una b \<le> una b3" using mv by (simp_all add: moves_on_def)
    moreover have "tc_segments_out (bm_y ?s') = [] \<and>
        (\<forall>g \<in> set (tc_segments_out (bm_x ?s')). ts_length_in_sequence_space g = 0) \<and>
        (tc_segments_out (bm_y s) = [] \<and> (\<forall>g \<in> set (tc_segments_out (bm_x s)). ts_length_in_sequence_space g = 0) \<longrightarrow>
           tc_segments_out (bm_x ?s') = [])" if d: "una a = length S + 2 \<and> una b = 2"
    proof -
      have w: "ep_wrote a1 = S" using loop_head_done(3) [OF c(2)] c(4) d by simp
      have s1: "s1 = s" using c(1) loop_head_done(1) [OF t] d by simp
      have "una a3 = nxt a3"
        using exchange_sender(5,6) [OF ex3(1)] \<open>una a1 \<le> una a3\<close> c(4) d e3(1) w by simp
      moreover have "una b3 = nxt b3"
        using exchange_sender(5,6) [OF exchange_sym [OF ex3(1)]] \<open>una b \<le> una b3\<close> d e3(2) by simp
      ultimately show ?thesis
        using quiet r(6,7) d c(4) w x1(1,2) s1 by simp
    qed
    ultimately show ?thesis
      unfolding progress_def using c(3-5,7) ack(1,2) r(3-5) by auto
  qed
  ultimately show ?thesis using r(2) by blast
qed

lemma bm_loop_ok:
  assumes t: "loop_head S s a b"
  obtains s' a' b' where "bm_loop reorder s = Some (Inr s')" and "loop_head S s' a' b'" and "progress S s a b s' a' b'"
proof -
  obtain bytes x a1 where w: "bm_write (bm_bytes_to_send s) (bm_x s) = Some (Inr (bytes, x))"
    "loop_head S (s\<lparr>bm_bytes_to_send := bytes, bm_x := x\<rparr>) a1 b" "una a1 = una a" "rx_of a1 = rx_of a"
    "buf_str bytes = [] \<or> tc_remaining_outbound_capacity x = 0" "nxt a \<le> nxt a1"
    using bm_write_ok [OF t] by blast
  let ?s1 = "s\<lparr>bm_bytes_to_send := bytes, bm_x := x\<rparr>"
  have "buf_str (bm_bytes_to_send ?s1) = [] \<or> tc_remaining_outbound_capacity (bm_x ?s1) = 0" using w(5) by simp
  from bm_exchange_ok [OF w(2) this] obtain s' a' b' where e: "bm_exchange reorder ?s1 = Inr s'" "loop_head S s' a' b'" "progress S ?s1 a1 b s' a' b'"
    by blast
  have "bm_x ?s1 = bm_x s" if "una a = length S + 2"
  proof -
    have "bm_write (bm_bytes_to_send s) (bm_x s) = Some (Inr (bm_bytes_to_send s, bm_x s))"
      using loop_head_done(2) [OF t that] by (subst bm_write.simps) (simp add: buf_size_def)
    then show ?thesis using w(1) by simp
  qed
  then have "progress S s a b s' a' b'" using e(3) w(3,4,6) by (auto simp: progress_def)
  then show thesis using that w(1) e(1,2) by (simp add: bm_loop_def)
qed

section \<open>The end\<close>

lemma rx_all_assembled:
  assumes "rx_sound S isn rx" and "rx_abs_ackno rx = length S + 2"
  shows "bs_end_input (rx_stream_out rx)" and "rx_unassembled_bytes rx = 0"
proof -
  let ?sr = "rx_reassembler rx"
  have snd: "sr_sound S ?sr" "sr_inv ?sr" using assms(1) by (simp_all add: rx_sound_def sr_sound_def)
  have "sr_next_pos ?sr \<le> length S" by (rule rx_next_pos_le [OF assms(1)])
  then have e: "bs_end_input (rx_stream_out rx)" "sr_next_pos ?sr = length S"
    using assms(2) by (auto simp: rx_abs_ackno_def split: if_splits)
  then show "bs_end_input (rx_stream_out rx)" by simp
  have "sr_known ?sr - {..<sr_next_pos ?sr} = {}" using sr_known_bound [OF snd(1)] e(2) by auto
  then show "rx_unassembled_bytes rx = 0" 
    using sr_unassembled_card [OF snd(2)] by (simp only: rx_unassembled_bytes_def card.empty)
qed

text \<open>An endpoint that has sent and received everything.\<close>

lemma all_acked_finished:
  assumes ex: "exchange a b F G" and u: "una a = length (ep_wrote a) + 2" "una b = length (ep_wrote b) + 2" and e: "tc_ended (ep_tc a)"
    and n: "0 < nxt a"
  shows "tc_finished (ep_tc a)"
proof -
  let ?tx = "tc_sender (ep_tc a)"
  have l: "link a b" "link b a" using ex by (simp_all add: exchange_def)
  note tx = exchange_sender [OF ex]
  have nx: "nxt a = una a" using tx(5,6) u(1) by linarith
  then have "bs_contents (tx_stream ?tx) = []" using tx(4) n by (auto simp: tx_busy_def)
  then have eof: "bs_eof (tx_stream ?tx)" using bs_eof_iff [OF tx_inv_bounds(6) [OF tx(2)]] e by simp
  have "tx_segments_track ?tx = []"
    using nx tx(2) by (cases "tx_segments_track ?tx") (auto simp: tx_inv_def dest: tracked_le)
  then have "tx_bytes_in_flight ?tx = 0" using tx_inv_bounds(5) [OF tx(2)] by simp
  moreover have "nxt a = u64 (bs_bytes_written (tx_stream ?tx) + 2)"
    using nx u(1) bytes_written_2 [OF tx(2)] by simp
  ultimately have out: "tc_check_outbound_ended (ep_tc a)" using eof by (simp add: tc_check_outbound_ended_def)
  have "una b \<le> rx_abs_ackno (rx_of a)" using l(2) by (simp add: link_def)
  then have "rx_abs_ackno (rx_of a) = length (ep_wrote b) + 2"
    using rx_abs_ackno_le [OF link_rx [OF l(1)]] u(2) by linarith
  note r = rx_all_assembled [OF link_rx [OF l(1)] this]
  have "tc_check_inbound_ended (ep_tc a)" using r by (simp add: tc_check_inbound_ended_def bs_input_ended_def)
  moreover have "tc_inv (ep_wrote a) (ep_wrote b) (isn_of b) (ep_tc a)" using l(1) by (simp add: link_def)
  ultimately show ?thesis using out by (intro tc_finished_inv)
qed

text \<open>How long a finished connection can stay active: no more than ten times the largest timeout.\<close>

definition patience :: "TCPConnection \<Rightarrow> nat" where
  "patience tc =
     (if \<not> tc_active tc then 0
      else if tc_time_since_last_segment_received tc < 655350 then 655351 - tc_time_since_last_segment_received tc
      else 655352)"

lemma patience_tick:
  assumes "tc_finished tc"
  shows "patience (tc_tick 1000 tc) \<le> patience tc" and "tc_active tc \<Longrightarrow> patience (tc_tick 1000 tc) < patience tc"
proof -
  let ?t = "u64 (tc_time_since_last_segment_received tc + 1000)"
  note k = tc_tick_finished [OF assms, of 1000]
  have "unat (cfg_rt_timeout (tc_cfg tc)) < 65536" using unsigned_less [of "cfg_rt_timeout (tc_cfg tc)"] by simp
  then have short: "tc_active (tc_tick 1000 tc) \<Longrightarrow> ?t < 655350" using k(5) by simp
  have id: "tc_time_since_last_segment_received tc < 655350 \<Longrightarrow> ?t = tc_time_since_last_segment_received tc + 1000"
    by (intro u64_id) simp
  show less: "patience (tc_tick 1000 tc) < patience tc" if "tc_active tc"
    using that short id by (auto simp: patience_def k(2))
  show "patience (tc_tick 1000 tc) \<le> patience tc"
    using less k(5) by (cases "tc_active tc") (auto simp: patience_def)
qed

end
