(* ===== verification/Benchmark_Run.thy ===== *)
theory Benchmark_Run
  imports TCP_Benchmark
begin

text \<open>
  The run of the benchmark as a whole: the first loop brings every byte to \<open>y\<close>, and in the second the connections settle, and then
  wait until they are over.
\<close>

section \<open>Loops\<close>

text \<open>A loop whose rounds succeed, keep an invariant and go down in a well-founded relation ends.\<close>

lemma bm_while_total:
  assumes "wf R" and "I s"
    and round: "\<And>s. I s \<Longrightarrow> cond s \<Longrightarrow> \<exists>s'. bm_loop reorder s = Some (Inr s') \<and> I s' \<and> (s', s) \<in> R"
  shows "\<exists>s'. bm_while reorder cond s = Some (Inr s') \<and> I s' \<and> \<not> cond s'"
  using assms(1,2)
proof (induction s rule: wf_induct_rule)
  case (less s)
  show ?case
  proof (cases "cond s")
    case False
    then show ?thesis using less.prems by (subst bm_while.simps) simp
  next
    case True
    then obtain s1 where s1: "bm_loop reorder s = Some (Inr s1)" "I s1" "(s1, s) \<in> R"
      using round [OF less.prems] by blast
    then have "bm_while reorder cond s = bm_while reorder cond s1" using True by (subst bm_while.simps) simp
    then show ?thesis using less.IH [OF s1(3,2)] by simp
  qed
qed

text \<open>What the ends of the streams say.\<close>

lemma loop_head_received:
  assumes t: "loop_head S s a b" and e: "bs_end_input (tc_inbound_stream (bm_y s))"
  shows "bm_string_received s = S" and "ep_wrote a = S" and "nxt a = length S + 2" and "bm_x_closed s"
proof -
  have p: "paired S (buf_str (bm_bytes_to_send s)) (bm_x_closed s) a b"
    and h: "ep_tc a = bm_x s" "ep_tc b = bm_y s" "ep_got b = bm_string_received s" "bs_contents (tc_inbound_stream (bm_y s)) = []"
    and l: "link a b" "link b a" and f: "flow a b (set (tc_segments_out (bm_x s))) (set (tc_segments_out (bm_y s)))"
    and ex: "exchange a b (set (tc_segments_out (bm_x s))) (set (tc_segments_out (bm_y s)))"
    using t by (simp_all add: loop_head_def exchange_def)
  note rx = link_rx [OF l(2)]
  have w: "ep_wrote a = ep_got b" using link_assembled(3) [OF l] e h by simp
  have "bs_eof (tc_inbound_stream (ep_tc b))"
    using bs_eof_iff [OF sr_inv_bounds(1)] rx e h(2,4)
    by (simp add: rx_sound_def sr_sound_def tc_inbound_stream_def rx_stream_out_def)
  then have "tc_ended (ep_tc a)" using link_delivers [OF l] by simp
  then show "bm_x_closed s" using p by (simp add: paired_def)
  then show wS: "ep_wrote a = S" using p by (auto simp: paired_def)
  then show "bm_string_received s = S" using w h(3) by simp
  have "sr_next_pos (rx_reassembler (rx_of b)) = length (ep_wrote a)" "rx_syn (rx_of b)"
    using e h(2) rx by (auto simp: rx_sound_def sr_sound_def rx_stream_out_def tc_inbound_stream_def split: if_splits)
  then have "rx_abs_ackno (rx_of b) = length S + 2"
    using e h(2) wS by (simp add: rx_abs_ackno_def tc_inbound_stream_def rx_stream_out_def)
  then show "nxt a = length S + 2"
    using flow_ack_le [OF l(2) f] exchange_sender(6) [OF ex] wS by simp
qed

lemma loop_head_eof:
  assumes t: "loop_head S s a b"
  shows "bs_eof (tc_inbound_stream (bm_y s)) \<longleftrightarrow> bs_end_input (tc_inbound_stream (bm_y s))"
    and "una a = length S + 2 \<Longrightarrow> bs_eof (tc_inbound_stream (bm_y s))"
proof -
  have h: "ep_tc a = bm_x s" "ep_tc b = bm_y s" "bs_contents (tc_inbound_stream (bm_y s)) = []"
    and l: "link a b" "link b a"
    using t by (simp_all add: loop_head_def exchange_def)
  note rx = link_rx [OF l(2)]
  show iff: "bs_eof (tc_inbound_stream (bm_y s)) \<longleftrightarrow> bs_end_input (tc_inbound_stream (bm_y s))"
    using bs_eof_iff [OF sr_inv_bounds(1)] rx h(2,3)
    by (simp add: rx_sound_def sr_sound_def tc_inbound_stream_def rx_stream_out_def)
  assume u: "una a = length S + 2"
  have w: "ep_wrote a = S" by (rule loop_head_done(3) [OF t u])
  have "una a \<le> rx_abs_ackno (rx_of b)" using l(1) by (simp add: link_def)
  then have "rx_abs_ackno (rx_of b) = length S + 2" using rx_abs_ackno_le [OF rx] u w by simp
  then show "bs_eof (tc_inbound_stream (bm_y s))"
    using rx_all_assembled(1) [OF rx] w iff h(2) by (simp add: tc_inbound_stream_def)
qed
text \<open>Once all is sent and acknowledged and nothing is on its way, a round only lets time pass.\<close>

lemma quiet_round:
  assumes t: "loop_head S s a b" and u: "una a = length S + 2" "una b = 2"
    and out: "tc_segments_out (bm_x s) = []" "tc_segments_out (bm_y s) = []"
  shows "bm_loop reorder s = Some (Inr (s\<lparr>bm_x := tc_tick 1000 (bm_x s), bm_y := tc_tick 1000 (bm_y s)\<rparr>))"
    and "tc_finished (bm_x s)" and "tc_finished (bm_y s)"
proof -
  have h: "ep_tc a = bm_x s" "ep_tc b = bm_y s" "bs_contents (tc_inbound_stream (bm_y s)) = []"
    and l: "link b a"
    and ex: "exchange a b (set (tc_segments_out (bm_x s))) (set (tc_segments_out (bm_y s)))"
    and p: "paired S (buf_str (bm_bytes_to_send s)) (bm_x_closed s) a b"
    using t by (simp_all add: loop_head_def exchange_def)
  note fin = loop_head_done [OF t u(1)]
  have e: "buf_size (bm_bytes_to_send s) = 0" using fin(2) by (simp add: buf_size_def)
  have drained: "tc_segments_out tc = [] \<Longrightarrow> tc\<lparr>tc_segments_out := []\<rparr> = tc" for tc :: TCPConnection
    by (cases tc) simp
  have m: "move_segments x y [] r = Inr (x, y, [])" if "tc_segments_out x = []" for x y r
    unfolding move_segments_def Let_def that drained [OF that] by simp
  have "bs_buffer_size (tc_inbound_stream (bm_y s)) = 0"
    using link_rx [OF l] sr_inv_bounds(9) h(2,3)
    by (simp add: rx_sound_def sr_sound_def tc_inbound_stream_def rx_stream_out_def)
  then show "bm_loop reorder s = Some (Inr (s\<lparr>bm_x := tc_tick 1000 (bm_x s), bm_y := tc_tick 1000 (bm_y s)\<rparr>))"
    using e fin(1) by (simp add: bm_loop_def bm_write.simps bm_exchange_def m [OF out(1)] m [OF out(2)] Let_def)
  have w: "ep_wrote b = []" "tc_ended (ep_tc b)" "0 < nxt b" "tc_ended (ep_tc a)"
    using p fin(1) by (simp_all add: paired_def)
  show "tc_finished (bm_x s)" using all_acked_finished [OF ex] u w fin(3,4) h(1) by simp
  show "tc_finished (bm_y s)" using all_acked_finished [OF exchange_sym [OF ex]] u w fin(3) h(2) by simp
qed

text \<open>What a round of the second loop brings forward.\<close>

definition unsettled :: "benchmark \<Rightarrow> nat" where
  "unsettled s =
     (if tc_segments_out (bm_y s) \<noteq> [] \<or> (\<exists>g \<in> set (tc_segments_out (bm_x s)). ts_length_in_sequence_space g \<noteq> 0) then 2
      else if tc_segments_out (bm_x s) \<noteq> [] then 1 else 0)"

definition unacked :: "bytes \<Rightarrow> benchmark \<Rightarrow> nat" where
  "unacked S s = (length S + 2 - tx_abs_ackno (tc_sender (bm_x s))) + (2 - tx_abs_ackno (tc_sender (bm_y s)))"

definition closing :: "bytes \<Rightarrow> (benchmark \<times> benchmark) set" where
  "closing S = measures [unacked S, unsettled, \<lambda>s. patience (bm_x s) + patience (bm_y s)]"

definition all_arrived :: "bytes \<Rightarrow> benchmark \<Rightarrow> bool" where
  "all_arrived S s \<longleftrightarrow>
     (\<exists>a b. loop_head S s a b \<and> rx_abs_ackno (rx_of a) = nxt b \<and> bs_end_input (tc_inbound_stream (bm_y s)))"

lemma loop_head_bounds:
  assumes t: "loop_head S s a b"
  shows "una a \<le> length S + 2" and "una b \<le> 2" and "una b < 2 \<Longrightarrow> una b < nxt b"
proof -
  have p: "paired S (buf_str (bm_bytes_to_send s)) (bm_x_closed s) a b"
    and ex: "exchange a b (set (tc_segments_out (bm_x s))) (set (tc_segments_out (bm_y s)))"
    using t by (simp_all add: loop_head_def)
  note xa = exchange_sender [OF ex] and xb = exchange_sender [OF exchange_sym [OF ex]]
  have "length (ep_wrote a) \<le> length S" using p by (auto simp: paired_def)
  then show "una a \<le> length S + 2" using xa(5,6) by linarith
  have w: "ep_wrote b = []" "tc_ended (ep_tc b)" "0 < nxt b" using p by (simp_all add: paired_def)
  show "una b \<le> 2" using xb(5,6) w(1) by simp
  show "una b < nxt b" if "una b < 2"
    using that xb(4) w by (auto simp: tx_busy_def)
qed

lemma closing_round:
  assumes i: "all_arrived S s" and active: "tc_active (bm_x s) \<or> tc_active (bm_y s)"
  shows "\<exists>s'. bm_loop reorder s = Some (Inr s') \<and> all_arrived S s' \<and> (s', s) \<in> closing S"
proof -
  obtain a b where t: "loop_head S s a b" and ack: "rx_abs_ackno (rx_of a) = nxt b"
    and e: "bs_end_input (tc_inbound_stream (bm_y s))"
    using i by (auto simp: all_arrived_def)
  obtain s' a' b' where r: "bm_loop reorder s = Some (Inr s')" and t': "loop_head S s' a' b'"
    and pr: "progress S s a b s' a' b'"
    by (rule bm_loop_ok [OF t])
  have h: "ep_tc a = bm_x s" "ep_tc b = bm_y s" "ep_tc a' = bm_x s'" "ep_tc b' = bm_y s'"
    using t t' by (simp_all add: loop_head_def)
  note hd = loop_head_bounds [OF t] and hd' = loop_head_bounds [OF t']
  have g: "nxt a \<le> una a'" "una b \<le> una b'" "nxt b \<le> una b'" "rx_abs_ackno (rx_of a') = nxt b'"
    using pr ack by (simp_all add: progress_def)
  have ua': "una a' = length S + 2" using g(1) hd'(1) loop_head_received(3) [OF t e] by simp
  have "bs_end_input (tc_inbound_stream (bm_y s'))" using loop_head_eof [OF t'] ua' by simp
  then have inv: "all_arrived S s'" using t' g(4) by (auto simp: all_arrived_def)
  have "(s', s) \<in> closing S"
  proof (cases "una a = length S + 2 \<and> una b = 2")
    case False
    then have "unacked S s' < unacked S s"
      using ua' g(2,3) hd hd'(2) h by (cases "una b = 2") (auto simp: unacked_def)
    then show ?thesis by (simp add: closing_def)
  next
    case True
    then have acked: "unacked S s' = unacked S s" using ua' g(2) hd'(2) h by (simp add: unacked_def)
    have q: "tc_segments_out (bm_y s') = []" "\<forall>g \<in> set (tc_segments_out (bm_x s')). ts_length_in_sequence_space g = 0"
      "tc_segments_out (bm_y s) = [] \<Longrightarrow> \<forall>g \<in> set (tc_segments_out (bm_x s)). ts_length_in_sequence_space g = 0 \<Longrightarrow>
         tc_segments_out (bm_x s') = []"
      using pr True unfolding progress_def by blast+
    show ?thesis
    proof (cases "unsettled s = 0")
      case False
      then have "unsettled s' < unsettled s"
        using q by (auto simp: unsettled_def split: if_splits)
      then show ?thesis using acked by (simp add: closing_def)
    next
      case still: True
      then have out: "tc_segments_out (bm_x s) = []" "tc_segments_out (bm_y s) = []"
        by (simp_all add: unsettled_def split: if_splits)
      note k = quiet_round [OF t _ _ out]
      have s': "bm_x s' = tc_tick 1000 (bm_x s)" "bm_y s' = tc_tick 1000 (bm_y s)"
        using k(1) r True by auto
      have "unsettled s' = 0" using q out by (simp add: unsettled_def)
      moreover have "patience (bm_x s') + patience (bm_y s') < patience (bm_x s) + patience (bm_y s)"
        using patience_tick [OF k(2)] patience_tick [OF k(3)] True active s'
        by (auto intro: add_less_le_mono add_le_less_mono)
      ultimately show ?thesis using acked still by (simp add: closing_def)
    qed
  qed
  then show ?thesis using r inv by blast
qed
section \<open>From the start to the end\<close>

lemma exchange_new:
  fixes ra rb :: WrappingInt32
  assumes "cfg_ok ca" and "cfg_ok cb"
  defines "a \<equiv> endpoint_new ca ra" and "b \<equiv> endpoint_new cb rb"
  shows "exchange a b {} {}" and "0 < cfg_recv_capacity cb \<Longrightarrow> edge a b []"
proof -
  have new: "ep_tc a = TCPConnection_new ca ra" "ep_wrote a = []" "ep_tc b = TCPConnection_new cb rb" "ep_wrote b = []"
    by (simp_all add: a_def b_def endpoint_new_def)
  have l: "link a b" "link b a" unfolding a_def b_def using assms(1,2) by (simp_all add: link_new)
  have rx: "rx_has (TCPReceiver_new n) = {}" "rx_settled (TCPReceiver_new n)" "rx_abs_ackno (TCPReceiver_new n) = 0" for n
    by (simp_all add: rx_has_def rx_settled_def sr_settled_def TCPReceiver_new_def StreamReassembler_new_def sr_known_def
        sr_fin_def rx_abs_ackno_def rx_stream_out_def ByteStream_new_def segs_set_def)
  have tx: "tc_ready [] (TCPConnection_new cfg r)" if "cfg_ok cfg" for cfg r
    using that by (simp add: tc_ready_def tx_ready_def TCPConnection_new_def tx_new_inv tx_plain_new cfg_ok_def)
      (simp add: tx_busy_def tx_opening_def TCPSender_new_def)
  have n: "tx_next_seqno (tc_sender (TCPConnection_new cfg r)) = 0" "tc_receiver (TCPConnection_new cfg r) = TCPReceiver_new (cfg_recv_capacity cfg)"
    for cfg r
    by (simp_all add: TCPConnection_new_def TCPSender_new_def)
  have "flow a b {} {}" "flow b a {} {}" unfolding flow_def new n rx using tx rx(2) assms by simp_all
  then show "exchange a b {} {}" using l by (simp add: exchange_def)
  show "edge a b []" if "0 < cfg_recv_capacity cb"
    unfolding edge_def new n rx using that
    by (simp add: rx_edge_def TCPReceiver_new_def StreamReassembler_new_def sr_window_end_def TCPConnection_new_def
        TCPSender_new_def ByteStream_new_def bs_bytes_read_def)
qed

lemma bm_start_ok:
  assumes len: "length S + 2 < 2 ^ 31"
  obtains s a b where "bm_start rx ry S = Inr s" and "loop_head S s a b" and "\<not> bm_x_closed s"
proof -
  let ?c = TCPConfig_default
  let ?na = "endpoint_new ?c rx" and ?nb = "endpoint_new ?c ry"
  let ?nx = "TCPConnection_new ?c rx" and ?ny = "TCPConnection_new ?c ry"
  have caps: "cfg_recv_capacity ?c = 64000" "cfg_send_capacity ?c = 64000"
    by (simp_all add: TCPConfig_default_def DEFAULT_CAPACITY_def)
  have new: "ep_tc ?na = ?nx" "ep_tc ?nb = ?ny" "ep_wrote ?na = []" "ep_wrote ?nb = []" "ep_got ?nb = []"
    "tc_segments_out ?nx = []" "tc_segments_out ?ny = []" "tc_receiver ?ny = TCPReceiver_new 64000"
    "tc_receiver ?nx = TCPReceiver_new 64000" "tc_send_capacity ?nx = 64000" "\<not> tc_ended ?nx"
    "tx_count (tc_sender ?ny) = 0" "tx_abs_ackno (tc_sender ?ny) = 0"
    by (simp_all add: endpoint_new_def TCPConnection_new_def caps TCPSender_new_def ByteStream_new_def RetransmissionTimer_new_def)
  have ex0: "exchange ?na ?nb {} {}" "edge ?na ?nb []" "edge ?nb ?na []"
    using exchange_new [OF cfg_ok_default cfg_ok_default] caps by simp_all
  have rd: "tc_ready [] ?nx" "tc_ready [] ?ny"
    using exchange_sender(1) [OF ex0(1)] exchange_sender(1) [OF exchange_sym [OF ex0(1)]] new by simp_all
  obtain x raw where x: "tc_connect ?nx = Inr x" "tc_goes ?nx x raw" "tc_ready [] x" "tc_receiver x = tc_receiver ?nx"
    "tx_abs_ackno (tc_sender x) = tx_abs_ackno (tc_sender ?nx)" "tx_window_size (tc_sender x) = tx_window_size (tc_sender ?nx)"
    "0 < tx_next_seqno (tc_sender x)" "tc_send_capacity x = tc_send_capacity ?nx"
    by (rule tc_connect_goes [OF rd(1)]) simp_all
  obtain y raw' where y: "tc_end_input_stream ?ny = Inr y" "tc_goes ?ny y raw'" "tc_ready [] y" "tc_receiver y = tc_receiver ?ny"
    "tx_abs_ackno (tc_sender y) = tx_abs_ackno (tc_sender ?ny)" "tx_window_size (tc_sender y) = tx_window_size (tc_sender ?ny)"
    "tc_ended y" "0 < tx_next_seqno (tc_sender y)"
    by (rule tc_end_goes [OF rd(2)]) simp_all
  let ?a = "?na\<lparr>ep_tc := x, ep_wrote := []\<rparr>" and ?b = "?nb\<lparr>ep_tc := y, ep_wrote := []\<rparr>"
  have "ep_step ?nb ?na ?a" using ep_step.connect [of ?na x ?nb] x(1) by (simp add: endpoint_new_def)
  then have e1: "exchange ?a ?nb (set (tc_segments_out x)) {}" "edge ?a ?nb []"
    using exchange_goes [where a = ?na and b = ?nb and G = "{}" and Q = "[]" and tc' = x and W = "[]" and raw = raw] ex0 x new
    by simp_all
  have "ep_step ?a ?nb ?b" using ep_step.finish [of ?nb y ?a] y(1) by (simp add: endpoint_new_def)
  moreover have "edge ?nb ?a []" using ex0(3) x(4) new by (simp add: edge_def)
  ultimately have e2: "exchange ?b ?a (set (tc_segments_out y)) (set (tc_segments_out x))"
    using exchange_goes(1) [where a = ?nb and b = ?a and Q = "[]" and tc' = y and W = "[]" and raw = raw']
      exchange_sym [OF e1(1)] y new by simp
  have out: "tc_segments_out y = map (tc_stamp (tc_receiver y)) raw'" "\<forall>g \<in> set raw'. plain g"
    using y(2) new by (simp_all add: tc_goes_def tx_goes_def)
  have "rx_sound [] (isn_of ?a) (tc_receiver y)" using link_rx [of ?b ?a] e2 by (simp add: exchange_def)
  then have ed: "edge ?a ?b (tc_segments_out y)"
    using edge_peer [OF e1(2), where b' = ?b and raw = raw' and S = "[]"] out y(4) new by simp
  let ?s = "\<lparr>bm_x = x, bm_y = y, bm_bytes_to_send = buf_of_string S, bm_x_closed = False, bm_string_received = []\<rparr>"
  have quiet: "bs_contents (tc_inbound_stream y) = []" "rx_capacity (tc_receiver y) = 64000" 
    using y(4) new by (simp_all add: tc_inbound_stream_def rx_stream_out_def TCPReceiver_new_def StreamReassembler_new_def
        ByteStream_new_def bs_contents_def)
  have count: "tx_count (tc_sender y) = 0" using y(2,5) new by (simp add: tc_goes_def tx_goes_def)
  have "\<not> tc_ended x" using tc_connect_ended [OF x(1)] new by simp
  then have p: "paired S S False ?a ?b" using len x(7,8) y(7,8) quiet(2) new by (simp add: paired_def)
  have "length S < 2 ^ 64" using len by simp
  then have "loop_head S ?s ?a ?b"
    using p exchange_sym [OF e2] ed quiet(1) count new by (simp add: loop_head_def)
  then show thesis using x(1) y(1) by (intro that [of ?s]) (simp_all add: bm_start_def)
qed
text \<open>The first loop: until \<open>y\<close> has seen the end of the stream.\<close>

definition sending :: "bytes \<Rightarrow> benchmark \<Rightarrow> bool" where
  "sending S s \<longleftrightarrow>
     (\<exists>a b. loop_head S s a b \<and> (bs_eof (tc_inbound_stream (bm_y s)) \<longrightarrow> rx_abs_ackno (rx_of a) = nxt b))"

lemma sending_round:
  assumes i: "sending S s" and go: "\<not> bs_eof (tc_inbound_stream (bm_y s))"
  shows "\<exists>s'. bm_loop reorder s = Some (Inr s') \<and> sending S s' \<and>
    (s', s) \<in> measure (\<lambda>s. length S + 2 - tx_abs_ackno (tc_sender (bm_x s)))"
proof -
  obtain a b where t: "loop_head S s a b" using i by (auto simp: sending_def)
  obtain s' a' b' where r: "bm_loop reorder s = Some (Inr s')" and t': "loop_head S s' a' b'"
    and pr: "progress S s a b s' a' b'"
    by (rule bm_loop_ok [OF t])
  have "una a < length S + 2" using loop_head_bounds(1) [OF t] loop_head_eof(2) [OF t] go by linarith
  then have "una a < una a'" "rx_abs_ackno (rx_of a') = nxt b'" using pr by (simp_all add: progress_def)
  moreover have "ep_tc a = bm_x s" "ep_tc a' = bm_x s'" using t t' by (simp_all add: loop_head_def)
  ultimately have "sending S s'" "length S + 2 - tx_abs_ackno (tc_sender (bm_x s')) < length S + 2 - tx_abs_ackno (tc_sender (bm_x s))"
    using t' \<open>una a < length S + 2\<close> unfolding sending_def by (blast, simp)
  then show ?thesis using r by simp
qed

text \<open>C3: The whole of the benchmark: whatever string is sent between two connections, up to the sizes at which sequence numbers
  repeat, whatever their initial sequence numbers, and whether segments are delivered in order or in reverse, the program
  never throws, both its loops end, what \<open>y\<close> has received is the string that was sent, and both connections are over.\<close>

theorem main_loop_terminates:
  assumes "length string_to_send + 2 < 2 ^ 31"
  shows "\<exists>s. main_loop rx ry string_to_send reorder = Some (Inr s) \<and> bm_string_received s = string_to_send \<and>
    \<not> tc_active (bm_x s) \<and> \<not> tc_active (bm_y s)"
proof -
  let ?S = string_to_send
  obtain s0 a b where s0: "bm_start rx ry ?S = Inr s0" "loop_head ?S s0 a b" "\<not> bm_x_closed s0"
    by (rule bm_start_ok [OF assms])
  have "\<not> bs_eof (tc_inbound_stream (bm_y s0))"
    using loop_head_eof(1) [OF s0(2)] loop_head_received(4) [OF s0(2)] s0(3) by blast
  then have "sending ?S s0" using s0(2) by (auto simp: sending_def)
  then have "\<exists>s1. bm_while reorder (\<lambda>s. \<not> bs_eof (tc_inbound_stream (bm_y s))) s0 = Some (Inr s1) \<and> sending ?S s1 \<and>
      \<not> \<not> bs_eof (tc_inbound_stream (bm_y s1))"
    by (rule bm_while_total [where I = "sending ?S", OF wf_measure]) (rule sending_round)
  then obtain s1 where
    s1: "bm_while reorder (\<lambda>s. \<not> bs_eof (tc_inbound_stream (bm_y s))) s0 = Some (Inr s1)" "sending ?S s1"
      "bs_eof (tc_inbound_stream (bm_y s1))"
    by blast
  have "all_arrived ?S s1" and got: "bm_string_received s1 = ?S"
    using s1(2,3) loop_head_eof(1) loop_head_received(1) unfolding sending_def all_arrived_def by blast+
  have "wf (closing ?S)" by (simp add: closing_def)
  then have "\<exists>s2. bm_while reorder (\<lambda>s. tc_active (bm_x s) \<or> tc_active (bm_y s)) s1 = Some (Inr s2) \<and> all_arrived ?S s2 \<and>
      \<not> (tc_active (bm_x s2) \<or> tc_active (bm_y s2))"
    by (rule bm_while_total [where I = "all_arrived ?S", OF _ \<open>all_arrived ?S s1\<close>]) (rule closing_round)
  then obtain s2 where
    s2: "bm_while reorder (\<lambda>s. tc_active (bm_x s) \<or> tc_active (bm_y s)) s1 = Some (Inr s2)" "all_arrived ?S s2"
      "\<not> (tc_active (bm_x s2) \<or> tc_active (bm_y s2))"
    by blast
  have "bm_string_received s2 = ?S" using s2(2) loop_head_received(1) unfolding all_arrived_def by blast
  then show ?thesis using s0(1) s1(1) s2(1,3) got by (simp add: main_loop_def)
qed

lemma main_loop_terminates_witness:
  "\<exists>s. main_loop 4294967290 7 [72, 105, 33] True = Some (Inr s) \<and> bm_string_received s = [72, 105, 33] \<and>
     \<not> tc_active (bm_x s) \<and> \<not> tc_active (bm_y s)"
  by (rule main_loop_terminates) simp

end
