(* ===== verification/Router.thy ===== *)
theory Router
  imports Network_Interface
begin

unbundle bit_operations_syntax

text \<open>
  \<^verbatim>\<open>router.hh\<close> and \<^verbatim>\<open>router.cc\<close>: a router with several network interfaces that forwards datagrams
  along the longest matching prefix. The forwarding table, a \<^verbatim>\<open>std::map\<close> ordered by \<^verbatim>\<open>ModCmp\<close>, is a
  sorted association list.
\<close>

section \<open>Model\<close>

record AsyncNetworkInterface =
  an_interface :: NetworkInterface
  an_datagrams_out :: "InternetDatagram list"

abbreviation an_frames_out :: "AsyncNetworkInterface \<Rightarrow> EthernetFrame list" where
  "an_frames_out an \<equiv> ni_frames_out (an_interface an)"

definition AsyncNetworkInterface_new :: "NetworkInterface \<Rightarrow> AsyncNetworkInterface" where
  "AsyncNetworkInterface_new ni = \<lparr>an_interface = ni, an_datagrams_out = []\<rparr>"

definition an_recv_frame :: "EthernetFrame \<Rightarrow> AsyncNetworkInterface \<Rightarrow> exn + AsyncNetworkInterface" where
  "an_recv_frame frame an =
     bindE (ni_recv_frame frame (an_interface an)) (\<lambda>(optional_dgram, ni).
       case optional_dgram of
         None \<Rightarrow> Inr (an\<lparr>an_interface := ni\<rparr>)
       | Some dgram \<Rightarrow> Inr (an\<lparr>an_interface := ni, an_datagrams_out := an_datagrams_out an @ [dgram]\<rparr>))"

type_synonym route_key = "uint8_t \<times> uint32_t"
type_synonym route_value = "size_t \<times> Address option"

record Router =
  rt_interfaces :: "AsyncNetworkInterface list"
  rt_forwarding_table :: "(route_key \<times> route_value) list"

definition Router_new :: Router where
  "Router_new = \<lparr>rt_interfaces = [], rt_forwarding_table = []\<rparr>"

definition mod_cmp :: "route_key \<Rightarrow> route_key \<Rightarrow> bool" where
  "mod_cmp key1 key2 = (if fst key1 \<noteq> fst key2 then fst key1 > fst key2 else snd key1 > snd key2)"

text \<open>\<^verbatim>\<open>std::map::emplace\<close>: a key that is already there keeps its value.\<close>

fun rt_emplace :: "route_key \<Rightarrow> route_value \<Rightarrow> (route_key \<times> route_value) list \<Rightarrow> (route_key \<times> route_value) list" where
  "rt_emplace key value [] = [(key, value)]"
| "rt_emplace key value ((k, v) # rest) =
     (if mod_cmp key k then (key, value) # (k, v) # rest
      else if mod_cmp k key then (k, v) # rt_emplace key value rest
      else (k, v) # rest)"

definition rt_add_interface :: "AsyncNetworkInterface \<Rightarrow> Router \<Rightarrow> size_t \<times> Router" where
  "rt_add_interface an rt =
     (let rt1 = rt\<lparr>rt_interfaces := rt_interfaces rt @ [an]\<rparr> in (length (rt_interfaces rt1) - 1, rt1))"

definition rt_add_route ::
  "uint32_t \<Rightarrow> uint8_t \<Rightarrow> Address option \<Rightarrow> size_t \<Rightarrow> Router \<Rightarrow> Router" where
  "rt_add_route route_prefix prefix_length next_hop interface_num rt =
     rt\<lparr>rt_forwarding_table :=
          rt_emplace (prefix_length, route_prefix) (interface_num, next_hop) (rt_forwarding_table rt)\<rparr>"

text \<open>
  \<^verbatim>\<open>match_function\<close>. The subtraction is done in \<^verbatim>\<open>int\<close>; for a prefix length above 32 the shift
  count is negative, which C++ leaves undefined.
\<close>

definition rt_match :: "uint32_t \<Rightarrow> route_key \<Rightarrow> bool" where
  "rt_match src_ip key =
     (let postfix_length = 32 - int (unat (fst key)); route_prefix = snd key
      in if postfix_length = 32 then True
         else if postfix_length = 0 then route_prefix = src_ip
         else let mask = push_bit (nat postfix_length) (0xffffffff :: uint32_t)
              in route_prefix AND mask = src_ip AND mask)"

definition rt_lookup :: "uint32_t \<Rightarrow> (route_key \<times> route_value) list \<Rightarrow> (route_key \<times> route_value) option" where
  "rt_lookup dst table = find (\<lambda>(key, _). rt_match dst key) table"

text \<open>\<^verbatim>\<open>interface(N)\<close>: \<^verbatim>\<open>std::vector::at\<close> throws out of range.\<close>

definition rt_interface :: "size_t \<Rightarrow> Router \<Rightarrow> exn + AsyncNetworkInterface" where
  "rt_interface n rt =
     (if n < length (rt_interfaces rt) then Inr (rt_interfaces rt ! n)
      else Inl (Out_of_range ''vector::_M_range_check''))"

definition rt_route_one_datagram :: "InternetDatagram \<Rightarrow> Router \<Rightarrow> exn + Router" where
  "rt_route_one_datagram dgram rt =
     (if ip_ttl (dg_header dgram) \<le> 1 then Inr rt
      else
        let dgram1 = dgram\<lparr>dg_header := (dg_header dgram)\<lparr>ip_ttl := ip_ttl (dg_header dgram) - 1\<rparr>\<rparr>;
            dst = ip_dst (dg_header dgram1)
        in case rt_lookup dst (rt_forwarding_table rt) of
             None \<Rightarrow> Inr rt
           | Some (_, interface_num, next_hop) \<Rightarrow>
               bindE (case next_hop of Some a \<Rightarrow> Inr a
                      | None \<Rightarrow> addr_from_ipv4_numeric (ip_dst (dg_header dgram1))) (\<lambda>real_next_hop.
               bindE (rt_interface interface_num rt) (\<lambda>an.
               bindE (ni_send_datagram dgram1 real_next_hop (an_interface an)) (\<lambda>ni.
               Inr (rt\<lparr>rt_interfaces :=
                         (rt_interfaces rt)[interface_num := an\<lparr>an_interface := ni\<rparr>]\<rparr>)))))"

text \<open>
  The loops of \<^verbatim>\<open>route\<close>. Routing a datagram changes no queue of received datagrams, so that the inner
  loop runs over the queue as it was when the loop began.
\<close>

fun rt_route_queue :: "nat \<Rightarrow> InternetDatagram list \<Rightarrow> Router \<Rightarrow> exn + Router" where
  "rt_route_queue i [] rt = Inr rt"
| "rt_route_queue i (dgram # queue) rt =
     bindE (rt_route_one_datagram dgram rt) (\<lambda>rt1.
       rt_route_queue i queue
         (rt1\<lparr>rt_interfaces := (rt_interfaces rt1)[i := (rt_interfaces rt1 ! i)\<lparr>an_datagrams_out := queue\<rparr>]\<rparr>))"

fun rt_route_loop :: "nat list \<Rightarrow> Router \<Rightarrow> exn + Router" where
  "rt_route_loop [] rt = Inr rt"
| "rt_route_loop (i # is) rt =
     bindE (rt_route_queue i (an_datagrams_out (rt_interfaces rt ! i)) rt) (rt_route_loop is)"

definition rt_route :: "Router \<Rightarrow> exn + Router" where
  "rt_route rt = rt_route_loop [0..<length (rt_interfaces rt)] rt"


section \<open>The forwarding table\<close>

lemma mod_cmp_irrefl [simp]: "\<not> mod_cmp k k"
  by (simp add: mod_cmp_def)

lemma mod_cmp_trans: "mod_cmp a b \<Longrightarrow> mod_cmp b c \<Longrightarrow> mod_cmp a c"
  by (auto simp: mod_cmp_def split: if_splits)

lemma mod_cmp_total: "\<not> mod_cmp a b \<Longrightarrow> \<not> mod_cmp b a \<Longrightarrow> a = b"
  by (cases a; cases b) (auto simp: mod_cmp_def split: if_splits)

definition table_sorted :: "(route_key \<times> route_value) list \<Rightarrow> bool" where
  "table_sorted table \<longleftrightarrow> sorted_wrt (\<lambda>x y. mod_cmp (fst x) (fst y)) table"

lemma set_rt_emplace: "fst ` set (rt_emplace k v table) = insert k (fst ` set table)"
proof (induction table)
  case (Cons x table)
  obtain k' v' where "x = (k', v')" by (cases x)
  with Cons mod_cmp_total [of k k'] show ?case by auto
qed simp

lemma rt_emplace_sorted: "table_sorted table \<Longrightarrow> table_sorted (rt_emplace k v table)"
proof (induction table)
  case (Cons x table)
  obtain k' v' where x: "x = (k', v')" by (cases x)
  have step: "mod_cmp k' (fst y)" if "y \<in> set (rt_emplace k v table)" "mod_cmp k' k" for y
  proof -
    have "fst y \<in> insert k (fst ` set table)"
      using that(1) set_rt_emplace [of k v table] by blast
    then show ?thesis using Cons.prems that(2) x by (auto simp: table_sorted_def)
  qed
  show ?case using Cons x mod_cmp_trans step by (auto simp: table_sorted_def)
qed (simp add: table_sorted_def)

lemma rt_emplace_map_of:
  assumes "table_sorted table"
  shows "map_of (rt_emplace k v table) =
    (case map_of table k of None \<Rightarrow> (map_of table)(k \<mapsto> v) | Some _ \<Rightarrow> map_of table)"
  using assms
proof (induction table)
  case (Cons x table)
  obtain k' v' where x: "x = (k', v')" by (cases x)
  have sorted: "table_sorted table" and lt: "\<And>y. y \<in> set table \<Longrightarrow> mod_cmp k' (fst y)"
    using Cons.prems x by (auto simp: table_sorted_def)
  have none: "map_of table k = None" if "mod_cmp k k'"
  proof -
    have "k \<noteq> fst y" if "y \<in> set table" for y
      using mod_cmp_trans [OF \<open>mod_cmp k k'\<close> lt [OF that]] by auto
    then show ?thesis unfolding map_of_eq_None_iff by blast
  qed
  consider "mod_cmp k k'" | "mod_cmp k' k" | "k = k'" using mod_cmp_total by blast
  then show ?case
  proof cases
    case 1
    then have "k \<noteq> k'" by auto
    with 1 none x show ?thesis by simp
  next
    case 2
    then have ne: "k \<noteq> k'" "\<not> mod_cmp k k'" using mod_cmp_trans mod_cmp_irrefl by blast+
    with 2 x Cons.IH [OF sorted] show ?thesis
      by (auto split: option.splits simp: fun_upd_twist)
  next
    case 3
    with x show ?thesis by simp
  qed
qed simp

text \<open>A route covers a destination when the first \<open>len\<close> bits agree.\<close>

definition covers :: "uint32_t \<Rightarrow> uint8_t \<Rightarrow> uint32_t \<Rightarrow> bool" where
  "covers pfx len dst \<longleftrightarrow> drop_bit (32 - unat len) pfx = drop_bit (32 - unat len) dst"

lemma and_mask_eq_iff:
  fixes a b :: uint32_t
  shows "a AND push_bit n 0xffffffff = b AND push_bit n 0xffffffff \<longleftrightarrow> drop_bit n a = drop_bit n b"
proof -
  have m: "(0xffffffff :: uint32_t) = - 1" by simp
  have b: "bit (x AND push_bit n 0xffffffff) i \<longleftrightarrow> n \<le> i \<and> bit x i" for x :: uint32_t and i
    unfolding m using bit_imp_le_length [of x i] by (auto simp: bit_simps)
  have "a AND push_bit n 0xffffffff = b AND push_bit n 0xffffffff \<longleftrightarrow> (\<forall>i. n \<le> i \<longrightarrow> bit a i = bit b i)"
    using bit_imp_le_length [of a] bit_imp_le_length [of b] by (auto simp: bit_eq_iff [of "a AND _"] b)
  also have "\<dots> \<longleftrightarrow> (\<forall>i. bit a (n + i) = bit b (n + i))" by (metis le_add1 le_iff_add)
  also have "\<dots> \<longleftrightarrow> drop_bit n a = drop_bit n b"
    using bit_imp_le_length [of a] bit_imp_le_length [of b]
    by (auto simp: bit_eq_iff [of "drop_bit n a"] bit_drop_bit_eq) (meson add_leD2 le_add2 le_trans linorder_not_less)+
  finally show ?thesis .
qed

lemma rt_match_iff:
  assumes "unat len \<le> 32"
  shows "rt_match dst (len, pfx) \<longleftrightarrow> covers pfx len dst"
proof -
  have n: "nat (32 - int (unat len)) = 32 - unat len" using assms by linarith
  consider "unat len = 0" | "unat len = 32" | "0 < unat len" "unat len < 32" using assms by linarith
  then show ?thesis
  proof cases
    case 1
    have "drop_bit 32 x = (0 :: uint32_t)" for x
      using bit_imp_le_length [of x] by (auto simp: bit_eq_iff [of "drop_bit 32 x"] bit_drop_bit_eq)
    with 1 show ?thesis by (simp add: rt_match_def covers_def)
  next
    case 2
    then show ?thesis by (simp add: rt_match_def covers_def)
  next
    case 3
    then have "32 - int (unat len) \<noteq> 32" "32 - int (unat len) \<noteq> 0" by linarith+
    then show ?thesis by (simp only: rt_match_def covers_def Let_def fst_conv snd_conv if_False n and_mask_eq_iff)
  qed
qed

lemma rt_lookup_None: "rt_lookup dst table = None \<longleftrightarrow> (\<forall>(k, v) \<in> set table. \<not> rt_match dst k)"
  by (auto simp: rt_lookup_def find_None_iff)

lemma rt_lookup_Some:
  assumes "table_sorted table" and "rt_lookup dst table = Some (k, v)"
  shows "map_of table k = Some v" and "rt_match dst k"
    and "\<And>k'. k' \<in> fst ` set table \<Longrightarrow> rt_match dst k' \<Longrightarrow> k' = k \<or> mod_cmp k k'"
proof -
  have "\<exists>xs ys. table = xs @ (k, v) # ys \<and> (\<forall>x \<in> set xs. \<not> rt_match dst (fst x)) \<and> rt_match dst k"
    using assms(2) unfolding rt_lookup_def
  proof (induction table)
    case (Cons x table)
    show ?case
    proof (cases "rt_match dst (fst x)")
      case True
      with Cons.prems have "x = (k, v)" by (simp add: case_prod_beta)
      with True show ?thesis by (intro exI [of _ "[]"] exI [of _ table]) simp
    next
      case False
      with Cons obtain xs ys where "table = xs @ (k, v) # ys" "\<forall>x \<in> set xs. \<not> rt_match dst (fst x)" "rt_match dst k"
        by (auto simp: case_prod_beta)
      with False show ?thesis by (intro exI [of _ "x # xs"] exI [of _ ys]) simp
    qed
  qed simp
  then obtain xs ys where t: "table = xs @ (k, v) # ys" "\<forall>x \<in> set xs. \<not> rt_match dst (fst x)" "rt_match dst k"
    by blast
  show "rt_match dst k" by (rule t(3))
  have "k \<notin> fst ` set xs" using t(2,3) by auto
  then have "map_of xs k = None" by (simp add: map_of_eq_None_iff)
  then show "map_of table k = Some v" by (simp add: t(1) map_add_def)
  show "k' = k \<or> mod_cmp k k'" if "k' \<in> fst ` set table" "rt_match dst k'" for k'
    using that t assms(1) by (auto simp: table_sorted_def sorted_wrt_append)
qed

text \<open>The table after a list of calls of \<^verbatim>\<open>add_route\<close>, given as \<open>(prefix, length, next hop, interface)\<close>.\<close>

type_synonym route = "uint32_t \<times> uint8_t \<times> Address option \<times> size_t"

definition add_routes :: "route list \<Rightarrow> Router \<Rightarrow> Router" where
  "add_routes = fold (\<lambda>(p, l, h, i). rt_add_route p l h i)"

definition route_of :: "route list \<Rightarrow> route_key \<Rightarrow> route option" where
  "route_of routes key = find (\<lambda>(p, l, h, i). (l, p) = key) routes"

lemma find_append: "find P (xs @ ys) = (case find P xs of None \<Rightarrow> find P ys | Some x \<Rightarrow> Some x)"
  by (induction xs) auto

lemma add_routes_table:
  assumes "rt_forwarding_table rt = []"
  shows "table_sorted (rt_forwarding_table (add_routes routes rt)) \<and>
    (\<forall>k. map_of (rt_forwarding_table (add_routes routes rt)) k =
       map_option (\<lambda>(p, l, h, i). (i, h)) (route_of routes k))"
proof (induction routes rule: rev_induct)
  case Nil
  then show ?case using assms by (simp add: add_routes_def route_of_def table_sorted_def)
next
  case (snoc r routes)
  obtain p l h i where r: "r = (p, l, h, i)" by (cases r)
  let ?t = "rt_forwarding_table (add_routes routes rt)"
  have t: "rt_forwarding_table (add_routes (routes @ [r]) rt) = rt_emplace (l, p) (i, h) ?t"
    by (simp add: add_routes_def r rt_add_route_def)
  have "map_of (rt_emplace (l, p) (i, h) ?t) k = map_option (\<lambda>(p, l, h, i). (i, h)) (route_of (routes @ [r]) k)" for k
  proof -
    have "route_of (routes @ [r]) k =
        (case route_of routes k of None \<Rightarrow> if (l, p) = k then Some r else None | Some x \<Rightarrow> Some x)"
      by (auto simp: route_of_def find_append r split: option.split)
    then show ?thesis
      using conjunct1 [OF snoc] spec [OF conjunct2 [OF snoc], of k] spec [OF conjunct2 [OF snoc], of "(l, p)"]
        rt_emplace_map_of [of ?t "(l, p)" "(i, h)"]
      by (auto simp: r split: option.splits if_splits)
  qed
  then show ?case using snoc rt_emplace_sorted [of ?t] unfolding t by blast
qed

lemma route_of_mem: "(p, l, h, i) \<in> set routes \<Longrightarrow> \<exists>r. route_of routes (l, p) = Some r"
  using find_None_iff [of "\<lambda>(p', l', h, i). (l', p') = (l, p)" routes]
  by (auto simp: route_of_def)

lemma route_of_Some: "route_of routes (l, p) = Some r \<Longrightarrow> r \<in> set routes \<and> (\<exists>h i. r = (p, l, h, i))"
  by (auto simp: route_of_def find_Some_iff in_set_conv_nth)

section \<open>Correctness\<close>

text \<open>C36: longest prefix match. With a table built by any sequence of calls of \<^verbatim>\<open>add_route\<close> (prefix lengths
  at most 32), the lookup fails exactly when no route covers the destination; otherwise it
  returns a route that covers it, no route with a longer prefix covers it, and of the routes
  added with the same prefix it is the first.\<close>

theorem router_longest_prefix:
  assumes "rt_forwarding_table rt = []" and "\<forall>(p, l, h, i) \<in> set routes. unat l \<le> 32"
  shows "case rt_lookup dst (rt_forwarding_table (add_routes routes rt)) of
      None \<Rightarrow> \<forall>(p, l, h, i) \<in> set routes. \<not> covers p l dst
    | Some ((l, p), i, h) \<Rightarrow>
        route_of routes (l, p) = Some (p, l, h, i) \<and> covers p l dst \<and>
        (\<forall>(p', l', h', i') \<in> set routes. covers p' l' dst \<longrightarrow> unat l' \<le> unat l)"
proof -
  let ?t = "rt_forwarding_table (add_routes routes rt)"
  have t: "table_sorted ?t" "\<And>k. map_of ?t k = map_option (\<lambda>(p, l, h, i). (i, h)) (route_of routes k)"
    using add_routes_table [OF assms(1)] by blast+
  have keys: "(l, p) \<in> fst ` set ?t \<and> unat l \<le> 32" if m: "(p, l, h, i) \<in> set routes" for p l h i
  proof -
    have "map_of ?t (l, p) \<noteq> None" using t(2) route_of_mem [OF m] by auto
    then show ?thesis using m assms(2) by (auto simp: map_of_eq_None_iff)
  qed
  show ?thesis
  proof (cases "rt_lookup dst ?t")
    case None
    have "\<not> covers p l dst" if r: "(p, l, h, i) \<in> set routes" for p l h i
    proof -
      have "\<not> rt_match dst (l, p)" using None keys [OF r] unfolding rt_lookup_None by auto
      then show ?thesis using rt_match_iff keys [OF r] by simp
    qed
    then show ?thesis using None by auto
  next
    case (Some x)
    obtain l p i h where x: "x = ((l, p), i, h)" by (cases x) auto
    note s = rt_lookup_Some [OF t(1) Some [unfolded x]]
    obtain r where "route_of routes (l, p) = Some r" "(case r of (p, l, h, i) \<Rightarrow> (i, h)) = (i, h)"
      using s(1) t(2) by auto
    with route_of_Some have r: "route_of routes (l, p) = Some (p, l, h, i)" "(p, l, h, i) \<in> set routes" by fastforce+
    have "covers p l dst" using s(2) rt_match_iff keys [OF r(2)] by simp
    moreover have "unat l' \<le> unat l" if m: "(p', l', h', i') \<in> set routes" "covers p' l' dst" for p' l' h' i'
    proof -
      have "(l', p') = (l, p) \<or> mod_cmp (l, p) (l', p')"
        using s(3) [of "(l', p')"] rt_match_iff [of l' dst p'] keys [OF m(1)] m(2) by blast
      then show ?thesis by (auto simp: mod_cmp_def word_less_nat_alt split: if_splits)
    qed
    ultimately show ?thesis using Some r(1) x by auto
  qed
qed

theorem router_longest_prefix_witness:
  "case rt_lookup 0x0a000105 (rt_forwarding_table
       (add_routes [(0x0a000000, 8, None, 0), (0x0a000100, 24, None, 1)] Router_new)) of
     None \<Rightarrow> False | Some ((l, p), i, h) \<Rightarrow> i = 1"
  using router_longest_prefix [of Router_new "[(0x0a000000, 8, None, 0), (0x0a000100, 24, None, 1)]" "0x0a000105"]
  by (auto simp: Router_new_def route_of_def covers_def split: option.splits if_splits)

text \<open>
  A router in order: its interfaces are, the datagrams it received are well-formed, and its routes
  name existing interfaces and IPv4 next hops.
\<close>

definition rt_ok :: "Router \<Rightarrow> bool" where
  "rt_ok rt \<longleftrightarrow>
     (\<forall>an \<in> set (rt_interfaces rt). ni_inv (an_interface an) \<and> (\<forall>dg \<in> set (an_datagrams_out an). dg_wf dg)) \<and>
     (\<forall>(k, i, h) \<in> set (rt_forwarding_table rt). i < length (rt_interfaces rt) \<and>
        (\<forall>a. h = Some a \<longrightarrow> (\<exists>ip. addr_ipv4_numeric a = Inr ip)))"

abbreviation queues :: "Router \<Rightarrow> InternetDatagram list list" where
  "queues rt \<equiv> map an_datagrams_out (rt_interfaces rt)"

definition ttl_less :: "InternetDatagram \<Rightarrow> InternetDatagram" where
  "ttl_less dg = dg\<lparr>dg_header := (dg_header dg)\<lparr>ip_ttl := ip_ttl (dg_header dg) - 1\<rparr>\<rparr>"

lemma ttl_less_wf: "dg_wf dg \<Longrightarrow> dg_wf (ttl_less dg)"
  by (simp add: dg_wf_def ttl_less_def ip_wf_def)

lemma ttl_less_dst [simp]: "ip_dst (dg_header (ttl_less dg)) = ip_dst (dg_header dg)"
  by (simp add: ttl_less_def)

lemma rt_ok_nth:
  "rt_ok rt \<Longrightarrow> i < length (rt_interfaces rt) \<Longrightarrow>
   ni_inv (an_interface (rt_interfaces rt ! i)) \<and> (\<forall>dg \<in> set (an_datagrams_out (rt_interfaces rt ! i)). dg_wf dg)"
  unfolding rt_ok_def by (meson nth_mem)

lemma rt_lookup_mem: "rt_lookup dst table = Some (k, v) \<Longrightarrow> (k, v) \<in> set table"
  by (auto simp: rt_lookup_def find_Some_iff in_set_conv_nth)

lemma rt_ok_update:
  assumes "rt_ok rt" and "ni_inv (an_interface an)" and "\<forall>dg \<in> set (an_datagrams_out an). dg_wf dg"
  shows "rt_ok (rt\<lparr>rt_interfaces := (rt_interfaces rt)[i := an]\<rparr>)"
proof -
  have "set ((rt_interfaces rt)[i := an]) \<subseteq> insert an (set (rt_interfaces rt))" by (rule set_update_subset_insert)
  then show ?thesis using assms unfolding rt_ok_def by auto
qed

lemma rt_route_one_spec:
  assumes ok: "rt_ok rt" and "dg_wf dg"
  obtains rt' where "rt_route_one_datagram dg rt = Inr rt'" and "rt_ok rt'" and "queues rt' = queues rt"
    and "rt_forwarding_table rt' = rt_forwarding_table rt"
proof (cases "ip_ttl (dg_header dg) \<le> 1 \<or> rt_lookup (ip_dst (dg_header dg)) (rt_forwarding_table rt) = None")
  case True
  then have "rt_route_one_datagram dg rt = Inr rt" by (auto simp: rt_route_one_datagram_def)
  then show thesis using ok by (intro that) simp_all
next
  case False
  then obtain k i h where r: "\<not> ip_ttl (dg_header dg) \<le> 1"
    "rt_lookup (ip_dst (dg_header dg)) (rt_forwarding_table rt) = Some (k, i, h)"
    by auto
  then have i: "i < length (rt_interfaces rt)" "\<And>a. h = Some a \<Longrightarrow> \<exists>ip. addr_ipv4_numeric a = Inr ip"
    using ok rt_lookup_mem [OF r(2)] by (auto simp: rt_ok_def)
  let ?an = "rt_interfaces rt ! i"
  obtain hop ip where hop: "(case h of Some a \<Rightarrow> Inr a | None \<Rightarrow> addr_from_ipv4_numeric (ip_dst (dg_header dg))) =
      (Inr hop :: exn + Address)" "addr_ipv4_numeric hop = Inr ip"
    using i(2) addr_ipv4_numeric_ipv4 by (cases h) (auto simp: addr_from_ipv4_numeric_eq)
  have an: "ni_inv (an_interface ?an)" "\<forall>dg \<in> set (an_datagrams_out ?an). dg_wf dg"
    using rt_ok_nth [OF ok i(1)] by simp_all
  obtain ni where ni: "ni_send_datagram (ttl_less dg) hop (an_interface ?an) = Inr ni" "ni_inv ni"
    by (rule ni_send_datagram_ok [OF an(1) hop(2) ttl_less_wf [OF assms(2)]])
  let ?rt' = "rt\<lparr>rt_interfaces := (rt_interfaces rt)[i := ?an\<lparr>an_interface := ni\<rparr>]\<rparr>"
  have "rt_route_one_datagram dg rt = Inr ?rt'"
    using r i(1) hop(1) ni(1)
    by (cases h) (simp_all add: rt_route_one_datagram_def rt_interface_def Let_def flip: ttl_less_def)
  moreover have "queues ?rt' = queues rt"
    using i(1) by (simp add: map_update list_update_same_conv)
  moreover have "rt_ok ?rt'" using ni(2) an(2) by (intro rt_ok_update [OF ok]) simp_all
  ultimately show thesis by (intro that [of ?rt']) simp_all
qed

lemma rt_route_queue_spec:
  assumes "rt_ok rt" and "i < length (rt_interfaces rt)" and "\<forall>dg \<in> set q. dg_wf dg"
    and "an_datagrams_out (rt_interfaces rt ! i) = q"
  shows "\<exists>rt'. rt_route_queue i q rt = Inr rt' \<and> rt_ok rt' \<and> queues rt' = (queues rt)[i := []] \<and>
    rt_forwarding_table rt' = rt_forwarding_table rt"
  using assms
proof (induction q arbitrary: rt)
  case Nil
  then have "(queues rt)[i := []] = queues rt" by (simp add: list_update_same_conv)
  with Nil show ?case by simp
next
  case (Cons dg q)
  obtain rt1 where rt1: "rt_route_one_datagram dg rt = Inr rt1" "rt_ok rt1" "queues rt1 = queues rt"
    "rt_forwarding_table rt1 = rt_forwarding_table rt"
    using rt_route_one_spec [OF Cons.prems(1)] Cons.prems(3) by auto
  have i: "i < length (rt_interfaces rt1)" using rt1(3) Cons.prems(2) by (metis length_map)
  let ?an = "(rt_interfaces rt1 ! i)\<lparr>an_datagrams_out := q\<rparr>"
  let ?rt2 = "rt1\<lparr>rt_interfaces := (rt_interfaces rt1)[i := ?an]\<rparr>"
  have "ni_inv (an_interface ?an)" using rt1(2) i by (simp add: rt_ok_def)
  then have "rt_ok ?rt2" using Cons.prems(3) by (intro rt_ok_update [OF rt1(2)]) simp_all
  moreover have "queues ?rt2 = (queues rt)[i := q]" using rt1(3) by (simp add: map_update)
  ultimately show ?case
    using Cons.IH [of ?rt2] Cons.prems(3) i rt1(1,4) by auto
qed

lemma rt_route_loop_spec:
  assumes "rt_ok rt" and "set is \<subseteq> {..<length (rt_interfaces rt)}"
  shows "\<exists>rt'. rt_route_loop is rt = Inr rt' \<and> rt_ok rt' \<and>
    queues rt' = map (\<lambda>j. if j \<in> set is then [] else queues rt ! j) [0..<length (rt_interfaces rt)] \<and>
    rt_forwarding_table rt' = rt_forwarding_table rt"
  using assms
proof (induction "is" arbitrary: rt)
  case Nil
  have "queues rt = map (\<lambda>j. queues rt ! j) [0..<length (rt_interfaces rt)]"
    by (metis length_map map_nth)
  then show ?case using Nil by simp
next
  case (Cons i "is")
  have i: "i < length (rt_interfaces rt)" using Cons.prems(2) by simp
  then have "\<forall>dg \<in> set (an_datagrams_out (rt_interfaces rt ! i)). dg_wf dg"
    using rt_ok_nth [OF Cons.prems(1)] by simp
  from rt_route_queue_spec [OF Cons.prems(1) i this refl] obtain rt1 where
    rt1: "rt_route_queue i (an_datagrams_out (rt_interfaces rt ! i)) rt = Inr rt1" "rt_ok rt1"
    "queues rt1 = (queues rt)[i := []]" "rt_forwarding_table rt1 = rt_forwarding_table rt"
    by blast
  have len: "length (rt_interfaces rt1) = length (rt_interfaces rt)" using rt1(3) by (metis length_list_update length_map)
  obtain rt' where "rt_route_loop is rt1 = Inr rt'" "rt_ok rt'"
    "queues rt' = map (\<lambda>j. if j \<in> set is then [] else queues rt1 ! j) [0..<length (rt_interfaces rt1)]"
    "rt_forwarding_table rt' = rt_forwarding_table rt1"
    using Cons.IH [OF rt1(2)] Cons.prems(2) len by auto
  moreover have "(if j \<in> set is then [] else (queues rt)[i := []] ! j) =
      (if j \<in> set (i # is) then [] else queues rt ! j)" if "j < length (rt_interfaces rt)" for j
    using that by (auto simp: nth_list_update)
  ultimately show ?case using rt1 len by (auto intro!: map_cong)
qed

text \<open>One datagram. A datagram whose time to live is used up, or for whose destination there is no
  route, is dropped without a trace; any other leaves, with its time to live decremented, through
  the interface of its route, to the route's next hop or, on an attached network, to its
  destination.\<close>

theorem router_one_datagram:
  assumes "rt_ok rt" and "dg_wf dg"
  shows "\<exists>rt'. rt_route_one_datagram dg rt = Inr rt' \<and> rt_ok rt' \<and>
    (case rt_lookup (ip_dst (dg_header dg)) (rt_forwarding_table rt) of
       None \<Rightarrow> rt' = rt
     | Some (k, i, h) \<Rightarrow>
         if unat (ip_ttl (dg_header dg)) \<le> 1 then rt' = rt
         else \<exists>ni. ni_send_datagram (ttl_less dg)
                (case h of Some a \<Rightarrow> a | None \<Rightarrow> ipv4_address (ip_dst (dg_header dg)))
                (an_interface (rt_interfaces rt ! i)) = Inr ni \<and>
              rt' = rt\<lparr>rt_interfaces := (rt_interfaces rt)[i := (rt_interfaces rt ! i)\<lparr>an_interface := ni\<rparr>]\<rparr>)"
proof -
  obtain rt' where rt': "rt_route_one_datagram dg rt = Inr rt'" "rt_ok rt'"
    by (rule rt_route_one_spec [OF assms])
  have one: "unat (ip_ttl (dg_header dg)) \<le> 1 \<longleftrightarrow> ip_ttl (dg_header dg) \<le> 1" by (simp add: word_le_nat_alt)
  show ?thesis
  proof (cases "rt_lookup (ip_dst (dg_header dg)) (rt_forwarding_table rt)")
    case None
    then show ?thesis using rt' by (auto simp: rt_route_one_datagram_def split: if_splits)
  next
    case (Some x)
    obtain k i h where x: "x = (k, i, h)" by (cases x) auto
    show ?thesis
    proof (cases "ip_ttl (dg_header dg) \<le> 1")
      case True
      then show ?thesis using rt' Some x one by (simp add: rt_route_one_datagram_def)
    next
      case False
      have "rt_route_one_datagram dg rt =
        bindE (rt_interface i rt) (\<lambda>an.
          bindE (ni_send_datagram (ttl_less dg)
                  (case h of Some a \<Rightarrow> a | None \<Rightarrow> ipv4_address (ip_dst (dg_header dg))) (an_interface an)) (\<lambda>ni.
            Inr (rt\<lparr>rt_interfaces := (rt_interfaces rt)[i := an\<lparr>an_interface := ni\<rparr>]\<rparr>)))"
        using False Some x by (cases h)
          (simp_all add: rt_route_one_datagram_def Let_def addr_from_ipv4_numeric_eq flip: ttl_less_def)
      with rt'(1) obtain ni where "ni_send_datagram (ttl_less dg)
          (case h of Some a \<Rightarrow> a | None \<Rightarrow> ipv4_address (ip_dst (dg_header dg)))
          (an_interface (rt_interfaces rt ! i)) = Inr ni"
        "rt' = rt\<lparr>rt_interfaces := (rt_interfaces rt)[i := (rt_interfaces rt ! i)\<lparr>an_interface := ni\<rparr>]\<rparr>"
        unfolding rt'(1) by (auto simp: bindE_eq_Inr rt_interface_def split: if_splits dest!: sym [of "Inr _"])
      then show ?thesis using rt' Some x False one by auto
    qed
  qed
qed

text \<open>The examples: a router with two interfaces and a route to network 10.0.0.0/8 on the second.\<close>

definition small_router :: Router where
  "small_router = rt_add_route 0x0a000000 8 None 1
     (snd (rt_add_interface (AsyncNetworkInterface_new (host 2 2))
       (snd (rt_add_interface ((AsyncNetworkInterface_new (host 1 1))\<lparr>an_datagrams_out := [empty_dgram]\<rparr>) Router_new))))"

lemma small_router_eq:
  "small_router = \<lparr>rt_interfaces = [\<lparr>an_interface = host 1 1, an_datagrams_out = [empty_dgram]\<rparr>,
      \<lparr>an_interface = host 2 2, an_datagrams_out = []\<rparr>], rt_forwarding_table = [((8, 0x0a000000), 1, None)]\<rparr>"
  by (simp add: small_router_def rt_add_route_def rt_add_interface_def AsyncNetworkInterface_new_def Router_new_def)

lemma small_router_ok: "rt_ok small_router"
  by (simp add: rt_ok_def small_router_eq)

theorem router_one_datagram_witness:
  "\<exists>rt'. rt_route_one_datagram empty_dgram small_router = Inr rt' \<and> rt_ok rt'"
  using router_one_datagram [OF small_router_ok empty_dgram_wf] by blast

text \<open>C37: \<^verbatim>\<open>route\<close> takes every received datagram off the queue of every interface, without an exception,
  and keeps the router in order and its routes as they were.\<close>

theorem router_route:
  assumes "rt_ok rt"
  shows "\<exists>rt'. rt_route rt = Inr rt' \<and> rt_ok rt' \<and> rt_forwarding_table rt' = rt_forwarding_table rt \<and>
    length (rt_interfaces rt') = length (rt_interfaces rt) \<and>
    (\<forall>an \<in> set (rt_interfaces rt'). an_datagrams_out an = [])"
proof -
  have "set [0..<length (rt_interfaces rt)] \<subseteq> {..<length (rt_interfaces rt)}" by auto
  then obtain rt' where rt': "rt_route rt = Inr rt'" "rt_ok rt'" "rt_forwarding_table rt' = rt_forwarding_table rt"
    "queues rt' = map (\<lambda>j. if j \<in> {0..<length (rt_interfaces rt)} then [] else queues rt ! j)
       [0..<length (rt_interfaces rt)]"
    using rt_route_loop_spec [OF assms, of "[0..<length (rt_interfaces rt)]"] by (auto simp: rt_route_def)
  then have "queues rt' = replicate (length (rt_interfaces rt)) []"
    by (auto simp: map_replicate_const intro!: nth_equalityI)
  moreover from this have "length (rt_interfaces rt') = length (rt_interfaces rt)" by (metis length_map length_replicate)
  moreover have "an_datagrams_out an = []" if "an \<in> set (rt_interfaces rt')" for an
    using that calculation(1) by (metis imageI in_set_replicate list.set_map)
  ultimately show ?thesis using rt' by blast
qed

theorem router_route_witness:
  "\<exists>rt'. rt_route small_router = Inr rt' \<and> (\<forall>an \<in> set (rt_interfaces rt'). an_datagrams_out an = [])"
  using router_route [OF small_router_ok] by blast

section \<open>A router with one datagram\<close>

lemma rt_route_loop_append: "rt_route_loop (is @ js) rt = bindE (rt_route_loop is rt) (rt_route_loop js)"
  by (induction "is" arbitrary: rt) (auto simp: bindE_def split: sum.split)

lemma rt_route_loop_quiet: "\<forall>i \<in> set is. an_datagrams_out (rt_interfaces rt ! i) = [] \<Longrightarrow> rt_route_loop is rt = Inr rt"
  by (induction "is") simp_all

lemma rt_route_single:
  assumes j: "j < length (rt_interfaces rt)" "an_datagrams_out (rt_interfaces rt ! j) = [dg]"
    and others: "\<And>i. i < length (rt_interfaces rt) \<Longrightarrow> i \<noteq> j \<Longrightarrow> an_datagrams_out (rt_interfaces rt ! i) = []"
    and one: "rt_route_one_datagram dg rt = Inr rt1" and same: "queues rt1 = queues rt"
  shows "rt_route rt = Inr (rt1\<lparr>rt_interfaces := (rt_interfaces rt1)[j := (rt_interfaces rt1 ! j)\<lparr>an_datagrams_out := []\<rparr>]\<rparr>)"
proof -
  let ?n = "length (rt_interfaces rt)"
  let ?rt2 = "rt1\<lparr>rt_interfaces := (rt_interfaces rt1)[j := (rt_interfaces rt1 ! j)\<lparr>an_datagrams_out := []\<rparr>]\<rparr>"
  have n: "length (rt_interfaces rt1) = ?n" using same by (metis length_map)
  have q: "an_datagrams_out (rt_interfaces rt1 ! i) = an_datagrams_out (rt_interfaces rt ! i)" if "i < ?n" for i
    using that n same by (metis nth_map)
  have "[0..<?n] = [0..<j] @ j # [Suc j..<?n]"
    using j(1) by (metis append_Cons append_Nil le_add_same_cancel1 less_imp_add_positive upt_add_eq_append upt_conv_Cons zero_le)
  moreover have "rt_route_loop [0..<j] rt = Inr rt" using others j(1) by (intro rt_route_loop_quiet) auto
  moreover have "rt_route_loop [Suc j..<?n] ?rt2 = Inr ?rt2" using others q n by (intro rt_route_loop_quiet) auto
  ultimately show ?thesis using j(2) one by (simp add: rt_route_def rt_route_loop_append)
qed

end
