(* ===== verification/Network_Simulator.thy ===== *)
theory Network_Simulator
  imports Router TCP_Adapters "HOL-Library.Multiset"
begin

unbundle bit_operations_syntax

text \<open>
  \<^verbatim>\<open>apps/network_simulator.cc\<close>: a network of six hosts around a router with seven interfaces, in which datagrams are sent
  from host to host, and every host checks that it has received what it was told to expect. The trace on standard
  error and the progress messages are left out. Random numbers are arguments.
\<close>

section \<open>Model\<close>

text \<open>\<open>rd\<close> gives the bytes that the generator draws for one address.\<close>

definition random_host_ethernet_address :: "(nat \<Rightarrow> uint8_t) \<Rightarrow> EthernetAddress" where
  "random_host_ethernet_address rd =
     (let addr = map rd [0..<6]; addr = addr[0 := addr ! 0 OR 0x02]; addr = addr[0 := addr ! 0 AND 0xfe] in addr)"

definition random_router_ethernet_address :: "(nat \<Rightarrow> uint8_t) \<Rightarrow> EthernetAddress" where
  "random_router_ethernet_address rd =
     (let addr = map rd [0..<6]; addr = addr[0 := 0x02]; addr = addr[1 := 0]; addr = addr[2 := 0] in addr)"

definition sim_ip :: "getaddrinfo \<Rightarrow> string \<Rightarrow> exn + uint32_t" where
  "sim_ip gai str = bindE (Address_of_ip gai str 0) addr_ipv4_numeric"

text \<open>\<^verbatim>\<open>clear\<close>. Its callers give it a second queue that is at least as long as the first.\<close>

fun clear :: "'a list \<Rightarrow> 'a list \<Rightarrow> 'a list \<times> 'a list" where
  "clear [] queue2 = ([], queue2)"
| "clear (x # queue1) queue2 = clear queue1 (tl queue2)"

subsection \<open>Hosts\<close>

text \<open>\<^verbatim>\<open>IPv4Header::summary\<close>, whose numbers are in hexadecimal but for the time to live.\<close>

fun hex_string :: "nat \<Rightarrow> string" where
  "hex_string n =
     (if n < 16 then [''0123456789abcdef'' ! n] else hex_string (n div 16) @ [''0123456789abcdef'' ! (n mod 16)])"

declare hex_string.simps [simp del]

definition ip_summary :: "libc \<Rightarrow> IPv4Header \<Rightarrow> string" where
  "ip_summary lc h =
     ''IPv'' @ hex_string (unat (ip_ver h)) @ '', '' @ ''len='' @ hex_string (unat (ip_len h)) @ '', '' @
     ''protocol='' @ hex_string (unat (ip_proto h)) @ '', '' @
     (if ip_ttl h \<ge> 10 then '''' else ''ttl='' @ dec_string (unat (ip_ttl h)) @ '', '') @
     ''src='' @ lc_inet_ntoa lc (htobe32 (ip_src h)) @ '', '' @ ''dst='' @ lc_inet_ntoa lc (htobe32 (ip_dst h))"

text \<open>\<^verbatim>\<open>serialize().concatenate()\<close>.\<close>

definition dg_bytes :: "InternetDatagram \<Rightarrow> exn + bytes" where
  "dg_bytes dgram = bindE (dg_serialize dgram) (\<lambda>bl. Inr (bl_concatenate bl))"

record Host =
  ho_name :: string
  ho_my_address :: Address
  ho_interface :: AsyncNetworkInterface
  ho_next_hop :: Address
  ho_expecting_to_receive :: "InternetDatagram list"

fun ho_expecting :: "InternetDatagram list \<Rightarrow> InternetDatagram \<Rightarrow> exn + bool" where
  "ho_expecting [] expected = Inr False"
| "ho_expecting (x # xs) expected =
     bindE (dg_bytes x) (\<lambda>s. bindE (dg_bytes expected) (\<lambda>t.
       if s = t then Inr True else ho_expecting xs expected))"

fun ho_remove_expectation :: "InternetDatagram list \<Rightarrow> InternetDatagram \<Rightarrow> exn + InternetDatagram list" where
  "ho_remove_expectation [] expected = Inr []"
| "ho_remove_expectation (x # xs) expected =
     bindE (dg_bytes x) (\<lambda>s. bindE (dg_bytes expected) (\<lambda>t.
       if s = t then Inr xs
       else bindE (ho_remove_expectation xs expected) (\<lambda>xs'. Inr (x # xs'))))"

definition Host_new :: "(nat \<Rightarrow> uint8_t) \<Rightarrow> string \<Rightarrow> Address \<Rightarrow> Address \<Rightarrow> Host" where
  "Host_new rd name my_address next_hop =
     \<lparr>ho_name = name, ho_my_address = my_address,
      ho_interface = AsyncNetworkInterface_new (NetworkInterface_new (random_host_ethernet_address rd) my_address),
      ho_next_hop = next_hop, ho_expecting_to_receive = []\<rparr>"

definition char_bytes :: "string \<Rightarrow> bytes" where
  "char_bytes = map (\<lambda>c. of_nat (of_char c))"

text \<open>The trace that \<^verbatim>\<open>send_to\<close> prints asks the C library for the address of the next hop.\<close>

definition ho_send_to :: "libc \<Rightarrow> uint32_t \<Rightarrow> Address \<Rightarrow> uint8_t \<Rightarrow> Host \<Rightarrow> exn + InternetDatagram \<times> Host" where
  "ho_send_to lc rnd destination ttl h =
     bindE (addr_ipv4_numeric (ho_my_address h)) (\<lambda>src.
     bindE (addr_ipv4_numeric destination) (\<lambda>dst.
     let payload = bl_of_string (char_bytes (''random payload: {'' @ dec_string (unat rnd) @ ''}''));
         hdr = IPv4Header_new\<lparr>ip_src := src, ip_dst := dst\<rparr>;
         dgram = \<lparr>dg_header = hdr\<lparr>ip_len := of_nat (unat (ip_hlen hdr) * 4 + bl_size payload), ip_ttl := ttl\<rparr>,
                  dg_payload = payload\<rparr>
     in bindE (ni_send_datagram dgram (ho_next_hop h) (an_interface (ho_interface h))) (\<lambda>ni.
        bindE (addr_ip (lc_getnameinfo lc) (ho_next_hop h)) (\<lambda>_.
          Inr (dgram, h\<lparr>ho_interface := (ho_interface h)\<lparr>an_interface := ni\<rparr>\<rparr>)))))"

definition ho_expect :: "InternetDatagram \<Rightarrow> Host \<Rightarrow> Host" where
  "ho_expect expected h = h\<lparr>ho_expecting_to_receive := ho_expecting_to_receive h @ [expected]\<rparr>"

definition bytes_chars :: "bytes \<Rightarrow> string" where
  "bytes_chars = map (\<lambda>b. char_of (unat b))"

definition dg_text :: "libc \<Rightarrow> InternetDatagram \<Rightarrow> string" where
  "dg_text lc dgram =
     ip_summary lc (dg_header dgram) @ '' payload='' @ [CHR 0x22] @ bytes_chars (bl_concatenate (dg_payload dgram)) @ [CHR 0x22]"

text \<open>The loop of \<^verbatim>\<open>check\<close> over the datagrams that have been received, and what follows it.\<close>

fun ho_check_loop :: "libc \<Rightarrow> InternetDatagram list \<Rightarrow> Host \<Rightarrow> exn + Host" where
  "ho_check_loop lc [] h =
     (case ho_expecting_to_receive h of
        [] \<Rightarrow> Inr h
      | expected # _ \<Rightarrow>
          Inl (Runtime_error (''Host '' @ ho_name h @ '' did NOT receive an expected Internet datagram: '' @ dg_text lc expected)))"
| "ho_check_loop lc (dgram_received # rest) h =
     bindE (ho_expecting (ho_expecting_to_receive h) dgram_received) (\<lambda>is_expected.
       if \<not> is_expected
       then Inl (Runtime_error (''Host '' @ ho_name h @ '' received unexpected Internet datagram: '' @ dg_text lc dgram_received))
       else bindE (ho_remove_expectation (ho_expecting_to_receive h) dgram_received) (\<lambda>expecting.
         ho_check_loop lc rest
           (h\<lparr>ho_expecting_to_receive := expecting, ho_interface := (ho_interface h)\<lparr>an_datagrams_out := rest\<rparr>\<rparr>)))"

definition ho_check :: "libc \<Rightarrow> Host \<Rightarrow> exn + Host" where
  "ho_check lc h = ho_check_loop lc (an_datagrams_out (ho_interface h)) h"

subsection \<open>The network\<close>

text \<open>\<^verbatim>\<open>deliver\<close> puts the payload of each frame into one string.\<close>

definition flat_frame :: "EthernetFrame \<Rightarrow> EthernetFrame" where
  "flat_frame f = f\<lparr>ef_payload := bl_of_string (bl_concatenate (ef_payload f))\<rparr>"

fun deliver_frames :: "EthernetFrame list \<Rightarrow> AsyncNetworkInterface \<Rightarrow> exn + AsyncNetworkInterface" where
  "deliver_frames [] dst = Inr dst"
| "deliver_frames (f # to_send) dst = bindE (an_recv_frame (flat_frame f) dst) (deliver_frames to_send)"

definition an_clear :: "EthernetFrame list \<Rightarrow> AsyncNetworkInterface \<Rightarrow> AsyncNetworkInterface" where
  "an_clear frames an =
     an\<lparr>an_interface := (an_interface an)\<lparr>ni_frames_out := snd (clear frames (an_frames_out an))\<rparr>\<rparr>"

definition exchange_frames ::
  "AsyncNetworkInterface \<Rightarrow> AsyncNetworkInterface \<Rightarrow> exn + AsyncNetworkInterface \<times> AsyncNetworkInterface" where
  "exchange_frames x y =
     (let x_frames = an_frames_out x; y_frames = an_frames_out y
      in bindE (deliver_frames x_frames y) (\<lambda>y.
         bindE (deliver_frames y_frames x) (\<lambda>x.
           Inr (an_clear x_frames x, an_clear y_frames y))))"

definition exchange_frames3 ::
  "AsyncNetworkInterface \<Rightarrow> AsyncNetworkInterface \<Rightarrow> AsyncNetworkInterface \<Rightarrow>
   exn + AsyncNetworkInterface \<times> AsyncNetworkInterface \<times> AsyncNetworkInterface" where
  "exchange_frames3 x y z =
     (let x_frames = an_frames_out x; y_frames = an_frames_out y; z_frames = an_frames_out z
      in bindE (deliver_frames x_frames y) (\<lambda>y.
         bindE (deliver_frames x_frames z) (\<lambda>z.
         bindE (deliver_frames y_frames x) (\<lambda>x.
         bindE (deliver_frames y_frames z) (\<lambda>z.
         bindE (deliver_frames z_frames x) (\<lambda>x.
         bindE (deliver_frames z_frames y) (\<lambda>y.
           Inr (an_clear x_frames x, an_clear y_frames y, an_clear z_frames z))))))))"

record Network =
  nw_router :: Router
  nw_default_id :: size_t
  nw_eth0_id :: size_t
  nw_eth1_id :: size_t
  nw_eth2_id :: size_t
  nw_uun3_id :: size_t
  nw_hs4_id :: size_t
  nw_mit5_id :: size_t
  nw_hosts :: "(string \<times> Host) list"

definition nw_host :: "string \<Rightarrow> Network \<Rightarrow> exn + Host" where
  "nw_host name nw =
     (case map_of (nw_hosts nw) name of
        None \<Rightarrow> Inl (Runtime_error (''unknown host: '' @ name))
      | Some h \<Rightarrow> if ho_name h \<noteq> name then Inl (Runtime_error (''invalid host: '' @ name)) else Inr h)"

text \<open>What the code does through the reference that \<^verbatim>\<open>host\<close> returns.\<close>

definition nw_set_host :: "string \<Rightarrow> Host \<Rightarrow> Network \<Rightarrow> Network" where
  "nw_set_host name h nw = nw\<lparr>nw_hosts := AList.update name h (nw_hosts nw)\<rparr>"

definition nw_set_interface :: "size_t \<Rightarrow> AsyncNetworkInterface \<Rightarrow> Network \<Rightarrow> Network" where
  "nw_set_interface i an nw =
     nw\<lparr>nw_router := (nw_router nw)\<lparr>rt_interfaces := (rt_interfaces (nw_router nw))[i := an]\<rparr>\<rparr>"

definition nw_add_interface :: "getaddrinfo \<Rightarrow> (nat \<Rightarrow> uint8_t) \<Rightarrow> string \<Rightarrow> Router \<Rightarrow> exn + size_t \<times> Router" where
  "nw_add_interface gai rd str rt =
     bindE (Address_of_ip gai str 0) (\<lambda>a.
       Inr (rt_add_interface (AsyncNetworkInterface_new (NetworkInterface_new (random_router_ethernet_address rd) a)) rt))"

definition nw_insert_host ::
  "getaddrinfo \<Rightarrow> (nat \<Rightarrow> uint8_t) \<Rightarrow> string \<Rightarrow> string \<Rightarrow> string \<Rightarrow> (string \<times> Host) list \<Rightarrow> exn + (string \<times> Host) list" where
  "nw_insert_host gai rd name my_address next_hop hosts =
     bindE (Address_of_ip gai my_address 0) (\<lambda>a.
     bindE (Address_of_ip gai next_hop 0) (\<lambda>hop.
       Inr (if map_of hosts name = None then hosts @ [(name, Host_new rd name a hop)] else hosts)))"

definition nw_add_route ::
  "getaddrinfo \<Rightarrow> string \<Rightarrow> uint8_t \<Rightarrow> Address option \<Rightarrow> size_t \<Rightarrow> Router \<Rightarrow> exn + Router" where
  "nw_add_route gai str len next_hop i rt =
     bindE (sim_ip gai str) (\<lambda>n. Inr (rt_add_route n len next_hop i rt))"

text \<open>\<open>rd i\<close> are the bytes drawn for the \<open>i\<close>-th Ethernet address: seven of the router, then six of the hosts.\<close>

definition nw_new_router :: "getaddrinfo \<Rightarrow> (nat \<Rightarrow> nat \<Rightarrow> uint8_t) \<Rightarrow> exn + Network" where
  "nw_new_router gai rd =
     bindE (nw_add_interface gai (rd 0) ''171.67.76.46'' Router_new) (\<lambda>(default_id, rt).
     bindE (nw_add_interface gai (rd 1) ''10.0.0.1'' rt) (\<lambda>(eth0_id, rt).
     bindE (nw_add_interface gai (rd 2) ''172.16.0.1'' rt) (\<lambda>(eth1_id, rt).
     bindE (nw_add_interface gai (rd 3) ''192.168.0.1'' rt) (\<lambda>(eth2_id, rt).
     bindE (nw_add_interface gai (rd 4) ''198.178.229.1'' rt) (\<lambda>(uun3_id, rt).
     bindE (nw_add_interface gai (rd 5) ''143.195.0.2'' rt) (\<lambda>(hs4_id, rt).
     bindE (nw_add_interface gai (rd 6) ''128.30.76.255'' rt) (\<lambda>(mit5_id, rt).
       Inr \<lparr>nw_router = rt, nw_default_id = default_id, nw_eth0_id = eth0_id, nw_eth1_id = eth1_id,
            nw_eth2_id = eth2_id, nw_uun3_id = uun3_id, nw_hs4_id = hs4_id, nw_mit5_id = mit5_id,
            nw_hosts = []\<rparr>)))))))"

definition nw_new_hosts :: "getaddrinfo \<Rightarrow> (nat \<Rightarrow> nat \<Rightarrow> uint8_t) \<Rightarrow> exn + (string \<times> Host) list" where
  "nw_new_hosts gai rd =
     bindE (nw_insert_host gai (rd 7) ''applesauce'' ''10.0.0.2'' ''10.0.0.1'' []) (\<lambda>hs.
     bindE (nw_insert_host gai (rd 8) ''default_router'' ''171.67.76.1'' ''0'' hs) (\<lambda>hs.
     bindE (nw_insert_host gai (rd 9) ''cherrypie'' ''192.168.0.2'' ''192.168.0.1'' hs) (\<lambda>hs.
     bindE (nw_insert_host gai (rd 10) ''hs_router'' ''143.195.0.1'' ''0'' hs) (\<lambda>hs.
     bindE (nw_insert_host gai (rd 11) ''dm42'' ''198.178.229.42'' ''198.178.229.1'' hs) (\<lambda>hs.
     nw_insert_host gai (rd 12) ''dm43'' ''198.178.229.43'' ''198.178.229.1'' hs)))))"

definition nw_new_routes :: "getaddrinfo \<Rightarrow> Network \<Rightarrow> exn + Router" where
  "nw_new_routes gai nw =
     bindE (nw_host ''default_router'' nw) (\<lambda>d.
     bindE (nw_add_route gai ''0.0.0.0'' 0 (Some (ho_my_address d)) (nw_default_id nw) (nw_router nw)) (\<lambda>rt.
     bindE (nw_add_route gai ''10.0.0.0'' 8 None (nw_eth0_id nw) rt) (\<lambda>rt.
     bindE (nw_add_route gai ''172.16.0.0'' 16 None (nw_eth1_id nw) rt) (\<lambda>rt.
     bindE (nw_add_route gai ''192.168.0.0'' 24 None (nw_eth2_id nw) rt) (\<lambda>rt.
     bindE (nw_add_route gai ''198.178.229.0'' 24 None (nw_uun3_id nw) rt) (\<lambda>rt.
     bindE (nw_host ''hs_router'' nw) (\<lambda>h.
     bindE (nw_add_route gai ''143.195.0.0'' 17 (Some (ho_my_address h)) (nw_hs4_id nw) rt) (\<lambda>rt.
     bindE (nw_add_route gai ''143.195.128.0'' 18 (Some (ho_my_address h)) (nw_hs4_id nw) rt) (\<lambda>rt.
     bindE (nw_add_route gai ''143.195.192.0'' 19 (Some (ho_my_address h)) (nw_hs4_id nw) rt) (\<lambda>rt.
     bindE (Address_of_ip gai ''128.30.0.1'' 0) (\<lambda>m.
     nw_add_route gai ''128.30.76.255'' 16 (Some m) (nw_mit5_id nw) rt)))))))))))"

definition Network_new :: "getaddrinfo \<Rightarrow> (nat \<Rightarrow> nat \<Rightarrow> uint8_t) \<Rightarrow> exn + Network" where
  "Network_new gai rd =
     bindE (nw_new_router gai rd) (\<lambda>nw.
     bindE (nw_new_hosts gai rd) (\<lambda>hosts.
     let nw1 = nw\<lparr>nw_hosts := hosts\<rparr>
     in bindE (nw_new_routes gai nw1) (\<lambda>rt. Inr (nw1\<lparr>nw_router := rt\<rparr>))))"

text \<open>One link between an interface of the router and a host.\<close>

definition nw_link :: "size_t \<Rightarrow> string \<Rightarrow> Network \<Rightarrow> exn + Network" where
  "nw_link i name nw =
     bindE (rt_interface i (nw_router nw)) (\<lambda>x.
     bindE (nw_host name nw) (\<lambda>h.
     bindE (exchange_frames x (ho_interface h)) (\<lambda>(x1, y1).
       Inr (nw_set_host name (h\<lparr>ho_interface := y1\<rparr>) (nw_set_interface i x1 nw)))))"

definition simulate_physical_connections :: "Network \<Rightarrow> exn + Network" where
  "simulate_physical_connections nw =
     bindE (nw_link (nw_default_id nw) ''default_router'' nw) (\<lambda>nw.
     bindE (nw_link (nw_eth0_id nw) ''applesauce'' nw) (\<lambda>nw.
     bindE (nw_link (nw_eth2_id nw) ''cherrypie'' nw) (\<lambda>nw.
     bindE (nw_link (nw_hs4_id nw) ''hs_router'' nw) (\<lambda>nw.
     bindE (rt_interface (nw_uun3_id nw) (nw_router nw)) (\<lambda>x.
     bindE (nw_host ''dm42'' nw) (\<lambda>h42.
     bindE (nw_host ''dm43'' nw) (\<lambda>h43.
     bindE (exchange_frames3 x (ho_interface h42) (ho_interface h43)) (\<lambda>(x1, y1, z1).
       Inr (nw_set_host ''dm43'' (h43\<lparr>ho_interface := z1\<rparr>) (nw_set_host ''dm42'' (h42\<lparr>ho_interface := y1\<rparr>)
         (nw_set_interface (nw_uun3_id nw) x1 nw)))))))))))"

definition nw_round :: "Network \<Rightarrow> exn + Network" where
  "nw_round nw = bindE (rt_route (nw_router nw)) (\<lambda>rt. simulate_physical_connections (nw\<lparr>nw_router := rt\<rparr>))"

fun nw_rounds :: "nat \<Rightarrow> Network \<Rightarrow> exn + Network" where
  "nw_rounds 0 nw = Inr nw"
| "nw_rounds (Suc n) nw = bindE (nw_round nw) (nw_rounds n)"

fun nw_check_all :: "libc \<Rightarrow> (string \<times> Host) list \<Rightarrow> exn + (string \<times> Host) list" where
  "nw_check_all lc [] = Inr []"
| "nw_check_all lc ((name, h) # hosts) =
     bindE (ho_check lc h) (\<lambda>h1. bindE (nw_check_all lc hosts) (\<lambda>hosts1. Inr ((name, h1) # hosts1)))"

definition nw_simulate :: "libc \<Rightarrow> Network \<Rightarrow> exn + Network" where
  "nw_simulate lc nw =
     bindE (nw_rounds 256 nw) (\<lambda>nw1.
     bindE (nw_check_all lc (nw_hosts nw1)) (\<lambda>hosts. Inr (nw1\<lparr>nw_hosts := hosts\<rparr>)))"

subsection \<open>The tests\<close>

text \<open>\<^verbatim>\<open>network.host(name).send_to(destination, ttl)\<close>, with the destination as an expression that may throw.\<close>

definition nw_send_to ::
  "libc \<Rightarrow> uint32_t \<Rightarrow> string \<Rightarrow> exn + Address \<Rightarrow> uint8_t \<Rightarrow> Network \<Rightarrow> exn + InternetDatagram \<times> Network" where
  "nw_send_to lc rnd name destination ttl nw =
     bindE (nw_host name nw) (\<lambda>h.
     bindE destination (\<lambda>a.
     bindE (ho_send_to lc rnd a ttl h) (\<lambda>(dgram, h1). Inr (dgram, nw_set_host name h1 nw))))"

text \<open>The lines of one test: a datagram is sent with the default time to live, and \<open>receiver\<close> is to expect it with one hop less.\<close>

definition nw_test :: "libc \<Rightarrow> uint32_t \<Rightarrow> string \<Rightarrow> exn + Address \<Rightarrow> string \<Rightarrow> Network \<Rightarrow> exn + Network" where
  "nw_test lc rnd sender destination receiver nw =
     bindE (nw_send_to lc rnd sender destination 64 nw) (\<lambda>(dgram_sent, nw1).
     bindE (nw_host receiver nw1) (\<lambda>h.
       nw_simulate lc (nw_set_host receiver (ho_expect (ttl_less dgram_sent) h) nw1)))"

definition nw_test_ttl :: "libc \<Rightarrow> uint32_t \<Rightarrow> uint8_t \<Rightarrow> Network \<Rightarrow> exn + Network" where
  "nw_test_ttl lc rnd ttl nw =
     bindE (nw_send_to lc rnd ''applesauce'' (Address_of_ip (lc_getaddrinfo lc) ''1.2.3.4'' 0) ttl nw) (\<lambda>(_, nw1).
       nw_simulate lc nw1)"

definition host_address :: "string \<Rightarrow> Network \<Rightarrow> exn + Address" where
  "host_address name nw = bindE (nw_host name nw) (\<lambda>h. Inr (ho_my_address h))"

text \<open>\<open>rnd i\<close> is the random number in the payload of the \<open>i\<close>-th datagram.\<close>

definition network_simulator :: "libc \<Rightarrow> (nat \<Rightarrow> nat \<Rightarrow> uint8_t) \<Rightarrow> (nat \<Rightarrow> uint32_t) \<Rightarrow> exn + Network" where
  "network_simulator lc rd rnd =
     (let addr = (\<lambda>str. Address_of_ip (lc_getaddrinfo lc) str 0)
      in bindE (Network_new (lc_getaddrinfo lc) rd) (\<lambda>nw.
         bindE (nw_test lc (rnd 0) ''applesauce'' (host_address ''cherrypie'' nw) ''cherrypie'' nw) (\<lambda>nw.
         bindE (nw_test lc (rnd 1) ''cherrypie'' (host_address ''applesauce'' nw) ''applesauce'' nw) (\<lambda>nw.
         bindE (nw_test lc (rnd 2) ''applesauce'' (addr ''1.2.3.4'') ''default_router'' nw) (\<lambda>nw.
         bindE (nw_test lc (rnd 3) ''applesauce'' (addr ''143.195.131.17'') ''hs_router'' nw) (\<lambda>nw.
         bindE (nw_test lc (rnd 4) ''cherrypie'' (addr ''143.195.193.52'') ''hs_router'' nw) (\<lambda>nw.
         bindE (nw_test lc (rnd 5) ''cherrypie'' (addr ''143.195.223.255'') ''hs_router'' nw) (\<lambda>nw.
         bindE (nw_test lc (rnd 6) ''cherrypie'' (addr ''143.195.224.0'') ''default_router'' nw) (\<lambda>nw.
         bindE (nw_test lc (rnd 7) ''dm42'' (host_address ''dm43'' nw) ''dm43'' nw) (\<lambda>nw.
         bindE (nw_test_ttl lc (rnd 8) 1 nw) (\<lambda>nw.
           nw_test_ttl lc (rnd 9) 0 nw)))))))))))"

end
