(* ===== verification/Ethernet_Link.thy ===== *)
theory Ethernet_Link
  imports Router TCP_Adapters
begin

text \<open>
  One Ethernet link with any number of interfaces (\<^verbatim>\<open>network_interface.cc\<close>): how a datagram gets from one to another while the
  parties ask for Ethernet addresses, answer, and learn. The locale \<open>link_parties\<close> says what is needed of the addresses and of
  the way the frames take.
\<close>

section \<open>The same datagram\<close>

text \<open>Datagrams that differ only in the checksum of the header and in how the payload is cut up.\<close>

definition alike :: "InternetDatagram \<Rightarrow> InternetDatagram \<Rightarrow> bool" where
  "alike dg dg' \<longleftrightarrow> (\<exists>c. dg_header dg' = (dg_header dg)\<lparr>ip_cksum := c\<rparr>) \<and> bl_bytes (dg_payload dg') = bl_bytes (dg_payload dg)"

lemma alike_refl [simp]: "alike dg dg"
  unfolding alike_def by (rule conjI [OF exI [of _ "ip_cksum (dg_header dg)"]]) simp_all

lemma alike_trans: "alike a b \<Longrightarrow> alike b c \<Longrightarrow> alike a c"
  by (auto simp: alike_def)

lemma alike_wf: "alike a b \<Longrightarrow> dg_wf a \<Longrightarrow> dg_wf b"
  by (auto simp: alike_def dg_wf_def ip_wf_def)

lemma same_dgram_alike: "same_dgram a b \<Longrightarrow> alike a b"
  by (auto simp: alike_def same_dgram_def)

text \<open>A datagram that has been read from a link has its payload in one buffer.\<close>

definition arrives_as :: "InternetDatagram \<Rightarrow> InternetDatagram \<Rightarrow> bool" where
  "arrives_as dg dg' \<longleftrightarrow> alike dg dg' \<and> (\<exists>p. dg_payload dg' = [p] \<and> buf_wf p)"

lemma same_dgram_arrives: "alike dg0 dg \<Longrightarrow> same_dgram dg dg' \<Longrightarrow> arrives_as dg0 dg'"
  using alike_trans same_dgram_alike by (auto simp: arrives_as_def same_dgram_def)

lemma arrives_alike: "arrives_as dg dg' \<Longrightarrow> alike dg dg'"
  by (simp add: arrives_as_def)

lemma alike_less:
  assumes "alike a b"
  shows "alike (ttl_less a) (ttl_less b)"
proof -
  obtain c where "dg_header b = (dg_header a)\<lparr>ip_cksum := c\<rparr>" "bl_bytes (dg_payload b) = bl_bytes (dg_payload a)"
    using assms by (auto simp: alike_def)
  then show ?thesis unfolding alike_def by (intro conjI exI [of _ c]) (simp_all add: ttl_less_def)
qed

lemma alike_fields:
  "alike a b \<Longrightarrow> ip_dst (dg_header b) = ip_dst (dg_header a) \<and> ip_ttl (dg_header b) = ip_ttl (dg_header a)"
  by (auto simp: alike_def)

section \<open>One link\<close>

text \<open>
  The parties of a link are numbered, and their addresses given. A link is idle, or \<open>p\<close> is on its way to send a datagram to \<open>q\<close>: it
  asks for the Ethernet address of \<open>q\<close>, or \<open>q\<close> answers, or the datagram is in a frame, or it has arrived.
\<close>

datatype phase =
    Idle
  | Ask nat nat InternetDatagram
  | Answer nat nat InternetDatagram
  | Carry nat nat InternetDatagram
  | Arrived nat InternetDatagram

fun next_phase :: "phase \<Rightarrow> phase" where
  "next_phase Idle = Idle"
| "next_phase (Ask p q dg) = Answer p q dg"
| "next_phase (Answer p q dg) = Carry p q dg"
| "next_phase (Carry p q dg) = Arrived q dg"
| "next_phase (Arrived q dg) = Arrived q dg"

text \<open>What a party knows, and that its clock stands.\<close>

definition party_ok ::
  "nat \<Rightarrow> (nat \<Rightarrow> EthernetAddress) \<Rightarrow> (nat \<Rightarrow> uint32_t) \<Rightarrow> nat \<Rightarrow> NetworkInterface \<Rightarrow> bool" where
  "party_ok n mac ip i ni \<longleftrightarrow>
     ni_inv ni \<and> ni_ethernet_address ni = mac i \<and> addr_ipv4_numeric (ni_ip_address ni) = Inr (ip i) \<and>
     ni_ms_since_running ni = 0 \<and> (\<forall>a e. ni_cached a ni = Some e \<longrightarrow> (\<exists>j < n. a = ip j \<and> e = mac j))"

definition carries_dgram :: "EthernetAddress \<Rightarrow> InternetDatagram \<Rightarrow> EthernetFrame \<Rightarrow> bool" where
  "carries_dgram e dg f \<longleftrightarrow> wire_ok f \<and> eth_dst (ef_header f) = e \<and>
     (\<forall>ni g. ni_ethernet_address ni = e \<longrightarrow> carried f g \<longrightarrow>
        (\<exists>dg'. ni_recv_frame g ni = Inr (Some dg', ni) \<and> arrives_as dg dg'))"

fun party_frames ::
  "(nat \<Rightarrow> EthernetAddress) \<Rightarrow> (nat \<Rightarrow> uint32_t) \<Rightarrow> phase \<Rightarrow> nat \<Rightarrow> EthernetFrame list \<Rightarrow> bool" where
  "party_frames mac ip (Ask p q dg) i fs \<longleftrightarrow>
     fs = (if i = p then [ni_arp_frame (ip q) ETHERNET_BROADCAST OPCODE_REQUEST (mac p) (ip p)] else [])"
| "party_frames mac ip (Answer p q dg) i fs \<longleftrightarrow>
     fs = (if i = q then [ni_arp_frame (ip p) (mac p) OPCODE_REPLY (mac q) (ip q)] else [])"
| "party_frames mac ip (Carry p q dg) i fs \<longleftrightarrow> (if i = p then \<exists>f. fs = [f] \<and> carries_dgram (mac q) dg f else fs = [])"
| "party_frames mac ip _ i fs \<longleftrightarrow> fs = []"

text \<open>The datagrams that are held back, and the requests that are not yet answered.\<close>

definition holds_back :: "uint32_t \<Rightarrow> InternetDatagram \<Rightarrow> NetworkInterface \<Rightarrow> bool" where
  "holds_back hop dg ni \<longleftrightarrow> (\<exists>dg' t. alike dg dg' \<and> ni_blocked_ip_datagram ni = [(hop, dg')] \<and> ni_arp_expire_time ni = [(hop, t)])"

fun party_waits :: "(nat \<Rightarrow> uint32_t) \<Rightarrow> phase \<Rightarrow> nat \<Rightarrow> NetworkInterface \<Rightarrow> bool" where
  "party_waits ip (Ask p q dg) i ni \<longleftrightarrow>
     (if i = p then holds_back (ip q) dg ni else ni_blocked_ip_datagram ni = [] \<and> ni_arp_expire_time ni = [])"
| "party_waits ip (Answer p q dg) i ni \<longleftrightarrow>
     (if i = p then holds_back (ip q) dg ni else ni_blocked_ip_datagram ni = [] \<and> ni_arp_expire_time ni = [])"
| "party_waits ip _ i ni \<longleftrightarrow> ni_blocked_ip_datagram ni = [] \<and> ni_arp_expire_time ni = []"

fun party_queue :: "phase \<Rightarrow> nat \<Rightarrow> InternetDatagram list \<Rightarrow> bool" where
  "party_queue (Arrived q dg) i ds \<longleftrightarrow> (if i = q then \<exists>dg'. ds = [dg'] \<and> arrives_as dg dg' else ds = [])"
| "party_queue _ i ds \<longleftrightarrow> ds = []"

definition party ::
  "nat \<Rightarrow> (nat \<Rightarrow> EthernetAddress) \<Rightarrow> (nat \<Rightarrow> uint32_t) \<Rightarrow> phase \<Rightarrow> nat \<Rightarrow> AsyncNetworkInterface \<Rightarrow> bool" where
  "party n mac ip ph i an \<longleftrightarrow>
     party_ok n mac ip i (an_interface an) \<and> party_frames mac ip ph i (an_frames_out an) \<and>
     party_waits ip ph i (an_interface an) \<and> party_queue ph i (an_datagrams_out an)"

lemma party_ok_frames [simp]:
  "party_ok n mac ip i (ni\<lparr>ni_frames_out := fs\<rparr>) = party_ok n mac ip i ni"
  "party_ok n mac ip i (ni\<lparr>ni_blocked_ip_datagram := q\<rparr>) = party_ok n mac ip i ni"
  by (simp_all add: party_ok_def)

fun phase_ok :: "nat \<Rightarrow> phase \<Rightarrow> bool" where
  "phase_ok n Idle \<longleftrightarrow> True"
| "phase_ok n (Arrived q dg) \<longleftrightarrow> q < n \<and> dg_wf dg"
| "phase_ok n (Ask p q dg) \<longleftrightarrow> p < n \<and> q < n \<and> p \<noteq> q \<and> dg_wf dg"
| "phase_ok n (Answer p q dg) \<longleftrightarrow> p < n \<and> q < n \<and> p \<noteq> q \<and> dg_wf dg"
| "phase_ok n (Carry p q dg) \<longleftrightarrow> p < n \<and> q < n \<and> p \<noteq> q \<and> dg_wf dg"

definition on_link ::
  "nat \<Rightarrow> (nat \<Rightarrow> EthernetAddress) \<Rightarrow> (nat \<Rightarrow> uint32_t) \<Rightarrow> phase \<Rightarrow> (nat \<Rightarrow> AsyncNetworkInterface) \<Rightarrow> bool" where
  "on_link n mac ip ph f \<longleftrightarrow> phase_ok n ph \<and> (\<forall>i < n. party n mac ip ph i (f i))"

text \<open>
  What an exchange of frames does on a link where at most one party, \<open>s\<close>, has frames to send. The others get them as \<open>rc\<close> makes
  them: as strings, or serialized and parsed again.
\<close>

fun recv_frames :: "(EthernetFrame \<Rightarrow> EthernetFrame) \<Rightarrow> EthernetFrame list \<Rightarrow> AsyncNetworkInterface \<Rightarrow> exn + AsyncNetworkInterface" where
  "recv_frames rc [] an = Inr an"
| "recv_frames rc (f # fs) an = bindE (an_recv_frame (rc f) an) (recv_frames rc fs)"

definition an_sent :: "EthernetFrame list \<Rightarrow> AsyncNetworkInterface \<Rightarrow> AsyncNetworkInterface" where
  "an_sent fs an = an\<lparr>an_interface := (an_interface an)\<lparr>ni_frames_out := drop (length fs) (an_frames_out an)\<rparr>\<rparr>"

lemma an_sent_Nil [simp]: "an_sent [] an = an"
  by (simp add: an_sent_def)

definition hears ::
  "(EthernetFrame \<Rightarrow> EthernetFrame) \<Rightarrow> EthernetFrame list \<Rightarrow> nat \<Rightarrow> nat \<Rightarrow> AsyncNetworkInterface \<Rightarrow> AsyncNetworkInterface \<Rightarrow> bool" where
  "hears rc fs s i an an' \<longleftrightarrow> (if i = s then an' = an_sent fs an else recv_frames rc fs an = Inr an')"

definition moves_frames ::
  "(EthernetFrame \<Rightarrow> EthernetFrame) \<Rightarrow> nat \<Rightarrow> (nat \<Rightarrow> AsyncNetworkInterface) \<Rightarrow> (nat \<Rightarrow> AsyncNetworkInterface) \<Rightarrow> bool" where
  "moves_frames rc n f f' \<longleftrightarrow>
     (\<exists>s < n. (\<forall>i < n. i \<noteq> s \<longrightarrow> an_frames_out (f i) = []) \<and> (\<forall>i < n. hears rc (an_frames_out (f s)) s i (f i) (f' i)))"

lemma carries_dgramI:
  assumes "dg_wf dg" and "alike dg0 dg" and "length e = 6" and "length (ni_ethernet_address ni) = 6"
  obtains f where "ni_send_ip_dgram dg e ni = Inr (ni\<lparr>ni_frames_out := ni_frames_out ni @ [f]\<rparr>)" and "carries_dgram e dg0 f"
proof -
  obtain f where f: "ni_send_ip_dgram dg e ni = Inr (ni\<lparr>ni_frames_out := ni_frames_out ni @ [f]\<rparr>)"
    "ef_header f = \<lparr>eth_dst = e, eth_src = ni_ethernet_address ni, eth_type = TYPE_IPv4\<rparr>"
    "\<forall>ni' g. ni_ethernet_address ni' = e \<longrightarrow> carried f g \<longrightarrow>
       (\<exists>dg'. ni_recv_frame g ni' = Inr (Some dg', ni') \<and> same_dgram dg dg')"
    "wire_ok f"
    by (rule ni_send_ip_dgram_carried [OF assms(1,3,4)])
  then have "carries_dgram e dg0 f"
    unfolding carries_dgram_def using same_dgram_arrives [OF assms(2)] by fastforce
  then show thesis using f(1) by (rule that [rotated])
qed

text \<open>A frame for another party.\<close>

lemma ni_recv_other:
  "eth_dst (ef_header g) \<noteq> ni_ethernet_address ni \<Longrightarrow> eth_dst (ef_header g) \<noteq> ETHERNET_BROADCAST \<Longrightarrow>
   ni_recv_frame g ni = Inr (None, ni)"
  by (simp add: ni_recv_frame_def)

lemma recv_one_frame:
  "ni_recv_frame (rc f) (an_interface an) = Inr (None, ni) \<Longrightarrow> recv_frames rc [f] an = Inr (an\<lparr>an_interface := ni\<rparr>)"
  "ni_recv_frame (rc f) (an_interface an) = Inr (Some dg, ni) \<Longrightarrow>
   recv_frames rc [f] an = Inr (an\<lparr>an_interface := ni, an_datagrams_out := an_datagrams_out an @ [dg]\<rparr>)"
  by (simp_all add: an_recv_frame_def)

lemma an_same [simp]: "an\<lparr>an_interface := an_interface an\<rparr> = (an :: AsyncNetworkInterface)"
  by simp

text \<open>
  The parties of a link have different addresses; if there are more than two, those who do not send can be told apart.
\<close>

locale link_parties =
  fixes n :: nat and mac :: "nat \<Rightarrow> EthernetAddress" and ip :: "nat \<Rightarrow> uint32_t" and rc :: "EthernetFrame \<Rightarrow> EthernetFrame"
  assumes some_party: "0 < n"
    and mac_length: "i < n \<Longrightarrow> length (mac i) = 6"
    and mac_unicast: "i < n \<Longrightarrow> mac i \<noteq> ETHERNET_BROADCAST"
    and ip_inj: "i < n \<Longrightarrow> j < n \<Longrightarrow> ip i = ip j \<Longrightarrow> i = j"
    and mac_inj: "i < n \<Longrightarrow> j < n \<Longrightarrow> k < n \<Longrightarrow> i \<noteq> j \<Longrightarrow> i \<noteq> k \<Longrightarrow> j \<noteq> k \<Longrightarrow> mac j \<noteq> mac k"
    and rc_carried: "wire_ok f \<Longrightarrow> carried f (rc f)"
begin

abbreviation "here \<equiv> on_link n mac ip"

lemma party_other:
  assumes "i \<noteq> p"
  shows "party n mac ip (Ask p q dg) i an = party n mac ip Idle i an" "party n mac ip (Carry p q dg) i an = party n mac ip Idle i an"
    "i \<noteq> q \<Longrightarrow> party n mac ip (Answer p q dg) i an = party n mac ip Idle i an"
  using assms by (simp_all add: party_def)

lemma party_arrived: "i \<noteq> q \<Longrightarrow> party n mac ip (Arrived q dg) i an = party n mac ip Idle i an"
  by (simp add: party_def)

lemma party_ok_learn:
  assumes "party_ok n mac ip i ni" and "j < n"
  shows "party_ok n mac ip i (ni_update_ip_ethernet_cache (ip j) (mac j) ni)"
    and "ni_cached (ip j) (ni_update_ip_ethernet_cache (ip j) (mac j) ni) = Some (mac j)"
proof -
  let ?ni = "ni_update_ip_ethernet_cache (ip j) (mac j) ni"
  have inv: "ni_inv ?ni" using assms mac_length by (intro ni_update_inv) (simp_all add: party_ok_def)
  have c: "ni_cached a ?ni = (if a = ip j then Some (mac j) else ni_cached a ni)" for a
    using assms(1) by (intro ni_cached_update) (simp add: party_ok_def)
  have "ni_ethernet_address ?ni = ni_ethernet_address ni" "ni_ip_address ?ni = ni_ip_address ni"
    "ni_ms_since_running ?ni = ni_ms_since_running ni"
    by (simp_all add: ni_update_ip_ethernet_cache_def)
  then show "party_ok n mac ip i ?ni" using assms inv unfolding party_ok_def c by auto
  show "ni_cached (ip j) ?ni = Some (mac j)" by (simp add: c)
qed

lemma learn_simps [simp]:
  "ni_frames_out (ni_update_ip_ethernet_cache a e ni) = ni_frames_out ni"
  "ni_blocked_ip_datagram (ni_update_ip_ethernet_cache a e ni) = ni_blocked_ip_datagram ni"
  "ni_arp_expire_time (ni_update_ip_ethernet_cache a e ni) = AList.delete a (ni_arp_expire_time ni)"
  by (simp_all add: ni_update_ip_ethernet_cache_def)

text \<open>Giving a datagram to the interface of \<open>p\<close>, for \<open>q\<close>.\<close>

lemma send_on_link:
  assumes l: "here Idle f" and pq: "p < n" "q < n" "p \<noteq> q" and dg: "dg_wf dg" "alike dg dg'"
    and hop: "addr_ipv4_numeric hop = Inr (ip q)"
  obtains ni ph where "ni_send_datagram dg' hop (an_interface (f p)) = Inr ni"
    and "ph = Ask p q dg \<or> ph = Carry p q dg" and "here ph (f(p := (f p)\<lparr>an_interface := ni\<rparr>))"
proof -
  let ?ni = "an_interface (f p)"
  have p: "party n mac ip Idle p (f p)" using l pq(1) by (simp add: on_link_def)
  have ok: "ni_inv ?ni" "ni_ethernet_address ?ni = mac p" "addr_ipv4_numeric (ni_ip_address ?ni) = Inr (ip p)"
    "ni_ms_since_running ?ni = 0" "\<And>a e. ni_cached a ?ni = Some e \<Longrightarrow> \<exists>j < n. a = ip j \<and> e = mac j"
    "ni_frames_out ?ni = []" "ni_blocked_ip_datagram ?ni = []" "ni_arp_expire_time ?ni = []" "an_datagrams_out (f p) = []"
    using p by (simp_all add: party_def party_ok_def)
  have wf': "dg_wf dg'" by (rule alike_wf [OF dg(2,1)])
  show thesis
  proof (cases "ni_cached (ip q) ?ni")
    case (Some e)
    then have "e = mac q" using ok(5) ip_inj pq(2) by blast
    have "length (mac q) = 6" "length (ni_ethernet_address ?ni) = 6" using mac_length pq ok(2) by simp_all
    then obtain g where g: "ni_send_ip_dgram dg' (mac q) ?ni = Inr (?ni\<lparr>ni_frames_out := ni_frames_out ?ni @ [g]\<rparr>)"
      "carries_dgram (mac q) dg g"
      by (rule carries_dgramI [OF wf' dg(2)])
    show thesis
    proof (rule that [of _ "Carry p q dg"])
      show "ni_send_datagram dg' hop ?ni = Inr (?ni\<lparr>ni_frames_out := [g]\<rparr>)"
        using g(1) Some \<open>e = mac q\<close> hop ok(6) by (simp add: ni_send_datagram_def)
      have "party n mac ip (Carry p q dg) p ((f p)\<lparr>an_interface := ?ni\<lparr>ni_frames_out := [g]\<rparr>\<rparr>)"
        using p g(2) by (simp add: party_def)
      then show "here (Carry p q dg) (f(p := (f p)\<lparr>an_interface := ?ni\<lparr>ni_frames_out := [g]\<rparr>\<rparr>))"
        using l pq dg(1) party_other(2) by (simp add: on_link_def)
    qed simp
  next
    case None
    let ?ni' = "?ni\<lparr>ni_frames_out := [ni_arp_frame (ip q) ETHERNET_BROADCAST OPCODE_REQUEST (mac p) (ip p)],
      ni_blocked_ip_datagram := [(ip q, dg')], ni_arp_expire_time := [(ip q, 5000)]\<rparr>"
    show thesis
    proof (rule that [of _ "Ask p q dg"])
      show "ni_send_datagram dg' hop ?ni = Inr ?ni'"
        using ni_send_arp_message_eq [OF ok(3) _ broadcast_length disjI1 [OF refl], of "ip q"] mac_length [OF pq(1)] ok None hop
        by (simp add: ni_send_datagram_def u64_def)
      have "ni_inv ?ni'" using ok(1,4) by (simp add: ni_inv_def)
      then have "party_ok n mac ip p ?ni'" using ok(2-5) by (simp add: party_ok_def)
      then have "party n mac ip (Ask p q dg) p ((f p)\<lparr>an_interface := ?ni'\<rparr>)"
        using ok(9) dg(2) by (simp add: party_def holds_back_def)
      then show "here (Ask p q dg) (f(p := (f p)\<lparr>an_interface := ?ni'\<rparr>))"
        using l pq dg(1) party_other(1) by (simp add: on_link_def)
    qed simp
  qed
qed

end
context link_parties
begin

lemma hears_speaker: "an_frames_out an = [g] \<Longrightarrow> hears rc [g] s s an (an\<lparr>an_interface := (an_interface an)\<lparr>ni_frames_out := []\<rparr>\<rparr>)"
  by (simp add: hears_def an_sent_def)

lemma ask_step:
  assumes pq: "p < n" "q < n" "p \<noteq> q" and dg: "dg_wf dg" and i: "i < n" and p: "party n mac ip (Ask p q dg) i an"
  shows "\<exists>an'. hears rc [ni_arp_frame (ip q) ETHERNET_BROADCAST OPCODE_REQUEST (mac p) (ip p)] p i an an' \<and>
    party n mac ip (Answer p q dg) i an'"
proof -
  let ?g = "ni_arp_frame (ip q) ETHERNET_BROADCAST OPCODE_REQUEST (mac p) (ip p)" and ?ni = "an_interface an"
  let ?learn = "ni_update_ip_ethernet_cache (ip p) (mac p) ?ni"
  have c: "carried ?g (rc ?g)" using mac_length pq by (intro rc_carried ni_arp_frame_ok) simp_all
  have ok: "party_ok n mac ip i ?ni" "ni_inv ?ni" "ni_ethernet_address ?ni = mac i" "addr_ipv4_numeric (ni_ip_address ?ni) = Inr (ip i)"
    using p by (simp_all add: party_def party_ok_def)
  note learn = party_ok_learn [OF ok(1) pq(1)]
  consider "i = p" | "i = q" "i \<noteq> p" | "i \<noteq> p" "i \<noteq> q" by blast
  then show ?thesis
  proof cases
    case 1
    then have "an_frames_out an = [?g]" using p by (simp add: party_def)
    from hears_speaker [OF this, of i] show ?thesis
      using 1 p pq(3) by (intro exI [of _ "an\<lparr>an_interface := ?ni\<lparr>ni_frames_out := []\<rparr>\<rparr>"]) (simp add: party_def holds_back_def)
  next
    case 2
    let ?an = "an\<lparr>an_interface := ?learn\<lparr>ni_frames_out := [ni_arp_frame (ip p) (mac p) OPCODE_REPLY (mac q) (ip q)]\<rparr>\<rparr>"
    have "ni_recv_frame (rc ?g) ?ni = Inr (None, an_interface ?an)"
      using ni_recv_request [OF ok(2) _ _ c] ok(3,4) mac_length [OF pq(1)] 2 p by (simp add: party_def)
    then have "hears rc [?g] p i an ?an" using 2 recv_one_frame(1) by (simp add: hears_def)
    then show ?thesis using 2 p learn(1) by (intro exI [of _ ?an]) (simp add: party_def)
  next
    case 3
    let ?an = "an\<lparr>an_interface := ?learn\<rparr>"
    have "ip q \<noteq> ip i" using 3 ip_inj i pq(2) by blast
    then have "ni_recv_frame (rc ?g) ?ni = Inr (None, ?learn)"
      using ni_recv_request_other [OF ok(4) _ _ c] mac_length [OF pq(1)] by simp
    then have "hears rc [?g] p i an ?an" using 3 recv_one_frame(1) by (simp add: hears_def)
    then show ?thesis using 3 p learn(1) by (intro exI [of _ ?an]) (simp add: party_def)
  qed
qed

lemma answer_step:
  assumes pq: "p < n" "q < n" "p \<noteq> q" and dg: "dg_wf dg" and i: "i < n" and p: "party n mac ip (Answer p q dg) i an"
  shows "\<exists>an'. hears rc [ni_arp_frame (ip p) (mac p) OPCODE_REPLY (mac q) (ip q)] q i an an' \<and>
    party n mac ip (Carry p q dg) i an'"
proof -
  let ?g = "ni_arp_frame (ip p) (mac p) OPCODE_REPLY (mac q) (ip q)" and ?ni = "an_interface an"
  let ?learn = "ni_update_ip_ethernet_cache (ip q) (mac q) ?ni"
  have c: "carried ?g (rc ?g)" using mac_length pq by (intro rc_carried ni_arp_frame_ok) simp_all
  have ok: "party_ok n mac ip i ?ni" "ni_inv ?ni" "ni_ethernet_address ?ni = mac i"
    using p by (simp_all add: party_def party_ok_def)
  note learn = party_ok_learn [OF ok(1) pq(2)]
  consider "i = q" | "i = p" "i \<noteq> q" | "i \<noteq> p" "i \<noteq> q" by blast
  then show ?thesis
  proof cases
    case 1
    then have "an_frames_out an = [?g]" using p by (simp add: party_def)
    from hears_speaker [OF this, of i] show ?thesis
      using 1 p pq(3) by (intro exI [of _ "an\<lparr>an_interface := ?ni\<lparr>ni_frames_out := []\<rparr>\<rparr>"]) (simp add: party_def)
  next
    case 2
    then obtain dg' t where w: "alike dg dg'" "ni_blocked_ip_datagram ?ni = [(ip q, dg')]" "ni_arp_expire_time ?ni = [(ip q, t)]"
      using p by (auto simp: party_def holds_back_def)
    have fr: "an_frames_out an = []" using p 2 by (simp add: party_def)
    have "ni_ethernet_address ?learn = mac p" using ok(3) 2 by (simp add: ni_update_ip_ethernet_cache_def)
    then have len: "length (mac q) = 6" "length (ni_ethernet_address ?learn) = 6" using mac_length pq by simp_all
    obtain f where f: "ni_send_ip_dgram dg' (mac q) ?learn = Inr (?learn\<lparr>ni_frames_out := ni_frames_out ?learn @ [f]\<rparr>)"
      "carries_dgram (mac q) dg f"
      by (rule carries_dgramI [OF alike_wf [OF w(1) dg] w(1) len])
    let ?ni' = "?learn\<lparr>ni_frames_out := [f], ni_blocked_ip_datagram := []\<rparr>"
    have "ni_recv_frame (rc ?g) ?ni = Inr (None, ?ni')"
      using ni_recv_reply [of "mac q" ?ni "ip p" "ip q" "rc ?g"] c len ok(3) 2 w(2) learn(2) f(1) fr
      by (simp add: ni_update_ip_ethernet_cache_def)
    then have "hears rc [?g] q i an (an\<lparr>an_interface := ?ni'\<rparr>)" using 2 recv_one_frame(1) by (simp add: hears_def)
    then show ?thesis
      using 2 p learn(1) f(2) w(3) by (intro exI [of _ "an\<lparr>an_interface := ?ni'\<rparr>"]) (simp add: party_def)
  next
    case 3
    have "mac p \<noteq> mac i" using mac_inj [of q p i] pq i 3 by simp
    then have "ni_recv_frame (rc ?g) ?ni = Inr (None, ?ni)"
      using mac_unicast [OF pq(1)] ok(3) c by (intro ni_recv_other) (simp_all add: ni_arp_frame_def carried_def)
    then have "hears rc [?g] q i an an" using 3 recv_one_frame(1) by (simp add: hears_def)
    then show ?thesis using 3 p by (intro exI [of _ an]) (simp add: party_def)
  qed
qed

lemma carry_step:
  assumes pq: "p < n" "q < n" "p \<noteq> q" and dg: "dg_wf dg" and i: "i < n" and p: "party n mac ip (Carry p q dg) i an"
    and f: "carries_dgram (mac q) dg f" and fr: "i = p \<longrightarrow> an_frames_out an = [f]"
  shows "\<exists>an'. hears rc [f] p i an an' \<and> party n mac ip (Arrived q dg) i an'"
proof -
  let ?ni = "an_interface an"
  have c: "carried f (rc f)" "eth_dst (ef_header f) = mac q"
    using f rc_carried by (simp_all add: carries_dgram_def)
  have ok: "ni_ethernet_address ?ni = mac i" using p by (simp add: party_def party_ok_def)
  consider "i = p" | "i = q" "i \<noteq> p" | "i \<noteq> p" "i \<noteq> q" by blast
  then show ?thesis
  proof cases
    case 1
    then have "an_frames_out an = [f]" using fr by simp
    from hears_speaker [OF this, of i] show ?thesis
      using 1 p pq(3) by (intro exI [of _ "an\<lparr>an_interface := ?ni\<lparr>ni_frames_out := []\<rparr>\<rparr>"]) (simp add: party_def)
  next
    case 2
    obtain dg' where d: "ni_recv_frame (rc f) ?ni = Inr (Some dg', ?ni)" "arrives_as dg dg'"
      using f c(1) ok 2 by (auto simp: carries_dgram_def)
    let ?an = "an\<lparr>an_interface := ?ni, an_datagrams_out := an_datagrams_out an @ [dg']\<rparr>"
    have "hears rc [f] p i an ?an" using recv_one_frame(2) [where rc = rc, OF d(1)] 2 by (simp add: hears_def)
    then show ?thesis using 2 p d(2) by (intro exI [of _ ?an]) (simp add: party_def)
  next
    case 3
    have "mac q \<noteq> mac i" using mac_inj [of p q i] pq i 3 by simp
    then have "ni_recv_frame (rc f) ?ni = Inr (None, ?ni)"
      using mac_unicast [OF pq(2)] ok c by (intro ni_recv_other) (simp_all add: carried_def)
    then have "hears rc [f] p i an an" using 3 recv_one_frame(1) by (simp add: hears_def)
    then show ?thesis using 3 p by (intro exI [of _ an]) (simp add: party_def)
  qed
qed

lemma moves_framesI:
  assumes "s < n" and "\<And>i. i < n \<Longrightarrow> i \<noteq> s \<Longrightarrow> an_frames_out (f i) = []" and "an_frames_out (f s) = fs"
    and "\<And>i. i < n \<Longrightarrow> \<exists>an'. hears rc fs s i (f i) an' \<and> party n mac ip ph i an'" and "phase_ok n ph"
  shows "\<exists>f'. moves_frames rc n f f' \<and> here ph f'"
proof -
  have "\<forall>i. \<exists>an'. i < n \<longrightarrow> hears rc fs s i (f i) an' \<and> party n mac ip ph i an'" using assms(4) by blast
  then obtain f' where "\<forall>i. i < n \<longrightarrow> hears rc fs s i (f i) (f' i) \<and> party n mac ip ph i (f' i)" by metis
  then show ?thesis using assms(1-3,5) unfolding moves_frames_def on_link_def by blast
qed

text \<open>An exchange of frames takes every phase to the next.\<close>

lemma phase_step:
  assumes "here ph f"
  shows "\<exists>f'. moves_frames rc n f f' \<and> here (next_phase ph) f'"
proof (cases ph)
  case (Ask p q dg)
  then have pq: "p < n" "q < n" "p \<noteq> q" "dg_wf dg" and p: "\<And>i. i < n \<Longrightarrow> party n mac ip (Ask p q dg) i (f i)"
    using assms by (simp_all add: on_link_def)
  show ?thesis
    unfolding Ask next_phase.simps
    by (rule moves_framesI [of p _ "[ni_arp_frame (ip q) ETHERNET_BROADCAST OPCODE_REQUEST (mac p) (ip p)]"])
      (use pq p ask_step [OF pq] in \<open>auto simp: party_def [of _ _ _ "Ask p q dg"]\<close>)
next
  case (Answer p q dg)
  then have pq: "p < n" "q < n" "p \<noteq> q" "dg_wf dg" and p: "\<And>i. i < n \<Longrightarrow> party n mac ip (Answer p q dg) i (f i)"
    using assms by (simp_all add: on_link_def)
  show ?thesis
    unfolding Answer next_phase.simps
    by (rule moves_framesI [of q _ "[ni_arp_frame (ip p) (mac p) OPCODE_REPLY (mac q) (ip q)]"])
      (use pq p answer_step [OF pq] in \<open>auto simp: party_def [of _ _ _ "Answer p q dg"]\<close>)
next
  case (Carry p q dg)
  then have pq: "p < n" "q < n" "p \<noteq> q" "dg_wf dg" and p: "\<And>i. i < n \<Longrightarrow> party n mac ip (Carry p q dg) i (f i)"
    using assms by (simp_all add: on_link_def)
  obtain g where g: "an_frames_out (f p) = [g]" "carries_dgram (mac q) dg g"
    using p [OF pq(1)] by (auto simp: party_def)
  show ?thesis
    unfolding Carry next_phase.simps
    by (rule moves_framesI [of p _ "[g]"])
      (use pq p g carry_step [OF pq] in \<open>auto simp: party_def [of _ _ _ "Carry p q dg"]\<close>)
next
  case Idle
  then have p: "\<And>i. i < n \<Longrightarrow> party n mac ip Idle i (f i)" using assms by (simp add: on_link_def)
  show ?thesis
    unfolding Idle next_phase.simps
    by (rule moves_framesI [of 0 _ "[]"])
      (use some_party p in \<open>auto simp: hears_def party_def\<close>)
next
  case (Arrived q dg)
  then have p: "\<And>i. i < n \<Longrightarrow> party n mac ip (Arrived q dg) i (f i)" "phase_ok n (Arrived q dg)"
    using assms by (simp_all add: on_link_def)
  show ?thesis
    unfolding Arrived next_phase.simps
    by (rule moves_framesI [of 0 _ "[]"])
      (use some_party p in \<open>auto simp: hears_def party_def\<close>)
qed

end

end
