(* ===== verification/Simulated_Network.thy ===== *)
theory Simulated_Network
  imports Network_Simulator Ethernet_Link
begin

text \<open>
  The network of \<^verbatim>\<open>apps/network_simulator.cc\<close> at work: what a host checks, and what an
  exchange of frames does on a link.
\<close>

section \<open>What a host checks\<close>

definition dg_ok :: "InternetDatagram \<Rightarrow> bool" where
  "dg_ok dg \<longleftrightarrow> (\<exists>s. dg_bytes dg = Inr s)"

lemma ho_expecting_eq:
  "dg_ok e \<Longrightarrow> \<forall>x \<in> set xs. dg_ok x \<Longrightarrow> ho_expecting xs e = Inr (dg_bytes e \<in> dg_bytes ` set xs)"
  by (induction xs) (auto simp: dg_ok_def)

lemma ho_remove_expectation_eq:
  assumes "dg_ok e" and "\<forall>x \<in> set xs. dg_ok x"
  shows "\<exists>xs'. ho_remove_expectation xs e = Inr xs' \<and> set xs' \<subseteq> set xs \<and>
    mset (map dg_bytes xs') = mset (map dg_bytes xs) - {#dg_bytes e#}"
  using assms(2)
proof (induction xs)
  case (Cons x xs)
  then obtain xs' where xs': "ho_remove_expectation xs e = Inr xs'" "set xs' \<subseteq> set xs"
    "mset (map dg_bytes xs') = mset (map dg_bytes xs) - {#dg_bytes e#}"
    by auto
  obtain s t where st: "dg_bytes x = Inr s" "dg_bytes e = Inr t" using assms(1) Cons.prems by (auto simp: dg_ok_def)
  show ?case
  proof (cases "s = t")
    case True
    then show ?thesis using st by auto
  next
    case False
    then show ?thesis using st xs' by auto
  qed
qed simp

abbreviation ho_received :: "Host \<Rightarrow> InternetDatagram list" where
  "ho_received h \<equiv> an_datagrams_out (ho_interface h)"

lemma ho_check_loop_eq:
  assumes "\<forall>d \<in> set ds. dg_ok d" and "\<forall>d \<in> set (ho_expecting_to_receive h). dg_ok d"
  shows "if mset (map dg_bytes ds) = mset (map dg_bytes (ho_expecting_to_receive h))
    then ho_check_loop lc ds h = Inr (h\<lparr>ho_expecting_to_receive := [], ho_interface := (ho_interface h)\<lparr>an_datagrams_out :=
      (if ds = [] then ho_received h else [])\<rparr>\<rparr>)
    else \<exists>msg. ho_check_loop lc ds h = Inl (Runtime_error msg)"
  using assms
proof (induction ds arbitrary: h)
  case Nil
  then show ?case by (cases h) (auto split: list.split)
next
  case (Cons d ds)
  let ?xs = "ho_expecting_to_receive h"
  have d: "dg_ok d" using Cons.prems(1) by simp
  note e = ho_expecting_eq [OF d Cons.prems(2)]
  show ?case
  proof (cases "dg_bytes d \<in> dg_bytes ` set ?xs")
    case False
    moreover from this have "mset (map dg_bytes (d # ds)) \<noteq> mset (map dg_bytes ?xs)"
      by (metis list.set_intros(1) list.set_map list.simps(9) set_mset_mset)
    ultimately show ?thesis using e by simp
  next
    case True
    obtain xs' where xs': "ho_remove_expectation ?xs d = Inr xs'" "set xs' \<subseteq> set ?xs"
      "mset (map dg_bytes xs') = mset (map dg_bytes ?xs) - {#dg_bytes d#}"
      using ho_remove_expectation_eq [OF d Cons.prems(2)] by blast
    let ?h = "h\<lparr>ho_expecting_to_receive := xs', ho_interface := (ho_interface h)\<lparr>an_datagrams_out := ds\<rparr>\<rparr>"
    have "dg_bytes d \<in># mset (map dg_bytes ?xs)" using True by simp
    then have "mset (map dg_bytes (d # ds)) = mset (map dg_bytes ?xs) \<longleftrightarrow> mset (map dg_bytes ds) = mset (map dg_bytes xs')"
      unfolding xs'(3) by (metis add_mset_remove_trivial insert_DiffM list.simps(9) mset.simps(2))
    moreover have "\<forall>d \<in> set ds. dg_ok d" "\<forall>d \<in> set (ho_expecting_to_receive ?h). dg_ok d"
      using Cons.prems xs'(2) by auto
    ultimately show ?thesis
      using Cons.IH [of ?h] e True xs'(1) by (auto split: if_splits)
  qed
qed

text \<open>What a host checks: that the datagrams it has received are, as strings of bytes, those it was told to expect, each as often,
  in whatever order. If they are, both lists are empty afterwards and nothing else has changed; if not, it throws.\<close>

theorem host_check:
  assumes "\<forall>d \<in> set (ho_received h) \<union> set (ho_expecting_to_receive h). \<exists>s. dg_bytes d = Inr s"
  shows "if mset (map dg_bytes (ho_received h)) = mset (map dg_bytes (ho_expecting_to_receive h))
    then ho_check lc h =
      Inr (h\<lparr>ho_expecting_to_receive := [], ho_interface := (ho_interface h)\<lparr>an_datagrams_out := []\<rparr>\<rparr>)
    else \<exists>msg. ho_check lc h = Inl (Runtime_error msg)"
proof -
  have "\<forall>d \<in> set (ho_received h). dg_ok d" "\<forall>d \<in> set (ho_expecting_to_receive h). dg_ok d"
    using assms by (auto simp: dg_ok_def)
  from ho_check_loop_eq [OF this, of lc] show ?thesis by (auto simp: ho_check_def)
qed

theorem host_check_witness:
  "\<exists>msg. ho_check example_libc ((Host_new (\<lambda>_. 1) ''h'' (ipv4_address 1) (ipv4_address 2))\<lparr>ho_expecting_to_receive := [empty_dgram]\<rparr>) =
     Inl (Runtime_error msg)"
proof -
  let ?h = "(Host_new (\<lambda>_. 1) ''h'' (ipv4_address 1) (ipv4_address 2))\<lparr>ho_expecting_to_receive := [empty_dgram]\<rparr>"
  obtain bl where "dg_serialize empty_dgram = Inr bl"
    using dg_parse_serialized [of empty_dgram] empty_dgram_wf unfolding dg_wf_def by metis
  then have "\<exists>s. dg_bytes empty_dgram = Inr s" by (simp add: dg_bytes_def)
  then show ?thesis
    using host_check [of ?h example_libc] by (simp add: Host_new_def AsyncNetworkInterface_new_def)
qed

section \<open>Datagrams as strings\<close>

lemma alike_bytes:
  assumes "alike a b"
  shows "dg_bytes b = dg_bytes a"
proof -
  obtain c where h: "dg_header b = (dg_header a)\<lparr>ip_cksum := c\<rparr>" and p: "bl_bytes (dg_payload b) = bl_bytes (dg_payload a)"
    using assms by (auto simp: alike_def)
  have l: "ip_payload_length (dg_header b) = ip_payload_length (dg_header a)"
    "(dg_header b)\<lparr>ip_cksum := 0\<rparr> = (dg_header a)\<lparr>ip_cksum := 0\<rparr>"
    by (simp_all add: h ip_payload_length_def)
  show ?thesis
    unfolding dg_bytes_def dg_serialize_def l Let_def bl_size_eq p
    by (simp add: bindE_def bl_append_def p split: sum.split)
qed

lemma wf_bytes:
  assumes "dg_wf dg"
  shows "dg_ok dg"
proof -
  obtain bl where "dg_serialize dg = Inr bl"
    using assms dg_parse_serialized [of dg] unfolding dg_wf_def by metis
  then show ?thesis by (simp add: dg_ok_def dg_bytes_def)
qed

section \<open>An exchange of frames\<close>

lemma clear_eq: "clear q1 q2 = ([], drop (length q1) q2)"
  by (induction q1 q2 rule: clear.induct) (simp_all add: drop_Suc)

lemma an_clear_sent: "an_clear = an_sent"
  by (simp add: fun_eq_iff an_clear_def an_sent_def clear_eq)

lemma deliver_frames_recv: "deliver_frames = recv_frames flat_frame"
proof (intro ext)
  fix fs an
  show "deliver_frames fs an = recv_frames flat_frame fs an" by (induction fs arbitrary: an) (auto simp: bindE_def split: sum.split)
qed

text \<open>The links of the simulation move the frames of the one party that has some.\<close>

lemma all_below_2: "(\<forall>i < 2. P i) \<longleftrightarrow> P 0 \<and> P (1 :: nat)"
  by (auto simp: numeral_2_eq_2 less_Suc_eq)

lemma all_below_3: "(\<forall>i < 3. P i) \<longleftrightarrow> P 0 \<and> P 1 \<and> P (2 :: nat)"
  by (auto simp: numeral_3_eq_3 numeral_2_eq_2 less_Suc_eq)

lemma exchange_frames_moves:
  assumes "moves_frames flat_frame 2 f f'"
  shows "exchange_frames (f 0) (f 1) = Inr (f' 0, f' 1)"
proof -
  obtain s where s: "s < 2" "\<forall>i < 2. i \<noteq> s \<longrightarrow> an_frames_out (f i) = []"
    "\<forall>i < 2. hears flat_frame (an_frames_out (f s)) s i (f i) (f' i)"
    using assms unfolding moves_frames_def by blast
  from s(1) consider "s = 0" | "s = 1" by linarith
  then show ?thesis using s(2,3) by cases (simp_all add: all_below_2 hears_def an_clear_sent deliver_frames_recv exchange_frames_def)
qed

lemma exchange_frames3_moves:
  assumes "moves_frames flat_frame 3 f f'"
  shows "exchange_frames3 (f 0) (f 1) (f 2) = Inr (f' 0, f' 1, f' 2)"
proof -
  obtain s where s: "s < 3" "\<forall>i < 3. i \<noteq> s \<longrightarrow> an_frames_out (f i) = []"
    "\<forall>i < 3. hears flat_frame (an_frames_out (f s)) s i (f i) (f' i)"
    using assms unfolding moves_frames_def by blast
  from s(1) consider "s = 0" | "s = 1" | "s = 2" by linarith
  then show ?thesis using s(2,3) by cases (simp_all add: all_below_3 hears_def an_clear_sent deliver_frames_recv exchange_frames3_def)
qed

lemma flat_carried:
  assumes "wire_ok f"
  shows "carried f (flat_frame f)"
proof -
  have "buf_wf (buf_of_string (bl_bytes (ef_payload f)))"
    using assms by (intro buf_wf_of_string) (simp add: wire_ok_def)
  then show ?thesis by (simp add: carried_def flat_frame_def bl_of_string_def bl_append_def)
qed

end
