(* ===== verification/Simulated_Setup.thy ===== *)
theory Simulated_Setup
  imports Simulated_Network
begin

text \<open>
  The network that the constructor of \<^verbatim>\<open>Network\<close> sets up: its links, hosts and routes, what the constructor
  relies on of the C library, and how the operations on one host or one interface change the network as a whole.
\<close>

section \<open>The network of the program\<close>

definition quad :: "uint32_t \<Rightarrow> uint32_t \<Rightarrow> uint32_t \<Rightarrow> uint32_t \<Rightarrow> uint32_t" where
  "quad a b c d = ((a * 256 + b) * 256 + c) * 256 + d"

text \<open>
  The links, as lists of their parties: the router's interface, then the hosts, each with its address and with the number
  of the draw of its Ethernet address. They are the links of the interfaces \<open>default\<close>, \<open>eth0\<close>, \<open>eth2\<close>, \<open>hs4\<close> and \<open>uun3\<close>, and then of
  the two that no host is connected to.
\<close>

definition sim_links :: "(uint32_t \<times> nat) list list" where
  "sim_links =
     [[(quad 171 67 76 46, 0), (quad 171 67 76 1, 8)],
      [(quad 10 0 0 1, 1), (quad 10 0 0 2, 7)],
      [(quad 192 168 0 1, 3), (quad 192 168 0 2, 9)],
      [(quad 143 195 0 2, 5), (quad 143 195 0 1, 10)],
      [(quad 198 178 229 1, 4), (quad 198 178 229 42, 11), (quad 198 178 229 43, 12)],
      [(quad 172 16 0 1, 2)],
      [(quad 128 30 76 255, 6)]]"

definition link_size :: "nat \<Rightarrow> nat" where
  "link_size l = length (sim_links ! l)"

definition link_ip :: "nat \<Rightarrow> nat \<Rightarrow> uint32_t" where
  "link_ip l i = fst (sim_links ! l ! i)"

definition link_mac :: "(nat \<Rightarrow> nat \<Rightarrow> uint8_t) \<Rightarrow> nat \<Rightarrow> nat \<Rightarrow> EthernetAddress" where
  "link_mac rd l i =
     (if i = 0 then random_router_ethernet_address (rd (snd (sim_links ! l ! i)))
      else random_host_ethernet_address (rd (snd (sim_links ! l ! i))))"

text \<open>The hosts: name, link, number on the link, next hop.\<close>

definition sim_hosts :: "(string \<times> nat \<times> nat \<times> uint32_t) list" where
  "sim_hosts =
     [(''applesauce'', 1, 1, quad 10 0 0 1), (''default_router'', 0, 1, 0), (''cherrypie'', 2, 1, quad 192 168 0 1),
      (''hs_router'', 3, 1, 0), (''dm42'', 4, 1, quad 198 178 229 1), (''dm43'', 4, 2, quad 198 178 229 1)]"

definition sim_table :: "(route_key \<times> route_value) list" where
  "sim_table =
     [((24, quad 198 178 229 0), 4, None), ((24, quad 192 168 0 0), 3, None),
      ((19, quad 143 195 192 0), 5, Some (socket_address (quad 143 195 0 1) 0)),
      ((18, quad 143 195 128 0), 5, Some (socket_address (quad 143 195 0 1) 0)),
      ((17, quad 143 195 0 0), 5, Some (socket_address (quad 143 195 0 1) 0)),
      ((16, quad 172 16 0 0), 2, None), ((16, quad 128 30 76 255), 6, Some (socket_address (quad 128 30 0 1) 0)),
      ((8, quad 10 0 0 0), 1, None), ((0, 0), 0, Some (socket_address (quad 171 67 76 1) 0))]"

text \<open>The network when the \<open>i\<close>-th party of link \<open>l\<close> is in state \<open>st l i\<close>, and the host \<open>name\<close> expects \<open>ex name\<close>.\<close>

type_synonym link_state = "nat \<Rightarrow> nat \<Rightarrow> AsyncNetworkInterface"

definition host_of :: "link_state \<Rightarrow> (string \<Rightarrow> InternetDatagram list) \<Rightarrow> string \<times> nat \<times> nat \<times> uint32_t \<Rightarrow> Host" where
  "host_of st ex = (\<lambda>(name, l, i, hop).
     \<lparr>ho_name = name, ho_my_address = socket_address (link_ip l i) 0, ho_interface = st l i,
      ho_next_hop = socket_address hop 0, ho_expecting_to_receive = ex name\<rparr>)"

definition router_of :: "link_state \<Rightarrow> Router" where
  "router_of st = \<lparr>rt_interfaces = [st 0 0, st 1 0, st 5 0, st 2 0, st 4 0, st 3 0, st 6 0], rt_forwarding_table = sim_table\<rparr>"

definition nw_of :: "link_state \<Rightarrow> (string \<Rightarrow> InternetDatagram list) \<Rightarrow> Network" where
  "nw_of st ex =
     \<lparr>nw_router = router_of st, nw_default_id = 0, nw_eth0_id = 1, nw_eth1_id = 2, nw_eth2_id = 3, nw_uun3_id = 4,
      nw_hs4_id = 5, nw_mit5_id = 6, nw_hosts = map (\<lambda>h. (fst h, host_of st ex h)) sim_hosts\<rparr>"

text \<open>What the program relies on of the C library: it reads the addresses in the program, and prints addresses.\<close>

definition sim_names :: "(string \<times> uint32_t) list" where
  "sim_names =
     [(''171.67.76.46'', quad 171 67 76 46), (''10.0.0.1'', quad 10 0 0 1), (''172.16.0.1'', quad 172 16 0 1),
      (''192.168.0.1'', quad 192 168 0 1), (''198.178.229.1'', quad 198 178 229 1), (''143.195.0.2'', quad 143 195 0 2),
      (''128.30.76.255'', quad 128 30 76 255), (''10.0.0.2'', quad 10 0 0 2), (''171.67.76.1'', quad 171 67 76 1),
      (''0'', 0), (''192.168.0.2'', quad 192 168 0 2), (''143.195.0.1'', quad 143 195 0 1),
      (''198.178.229.42'', quad 198 178 229 42), (''198.178.229.43'', quad 198 178 229 43),
      (''0.0.0.0'', 0), (''10.0.0.0'', quad 10 0 0 0), (''172.16.0.0'', quad 172 16 0 0),
      (''192.168.0.0'', quad 192 168 0 0), (''198.178.229.0'', quad 198 178 229 0), (''143.195.0.0'', quad 143 195 0 0),
      (''143.195.128.0'', quad 143 195 128 0), (''143.195.192.0'', quad 143 195 192 0), (''128.30.0.1'', quad 128 30 0 1),
      (''1.2.3.4'', quad 1 2 3 4), (''143.195.131.17'', quad 143 195 131 17), (''143.195.193.52'', quad 143 195 193 52),
      (''143.195.223.255'', quad 143 195 223 255), (''143.195.224.0'', quad 143 195 224 0)]"

lemma sim_names_mem [simp]:
  "(''171.67.76.46'', quad 171 67 76 46) \<in> set sim_names" "(''10.0.0.1'', quad 10 0 0 1) \<in> set sim_names" "(''172.16.0.1'', quad 172 16 0 1) \<in> set sim_names"
  "(''192.168.0.1'', quad 192 168 0 1) \<in> set sim_names" "(''198.178.229.1'', quad 198 178 229 1) \<in> set sim_names" "(''143.195.0.2'', quad 143 195 0 2) \<in> set sim_names"
  "(''128.30.76.255'', quad 128 30 76 255) \<in> set sim_names" "(''10.0.0.2'', quad 10 0 0 2) \<in> set sim_names" "(''171.67.76.1'', quad 171 67 76 1) \<in> set sim_names"
  "(''0'', 0) \<in> set sim_names" "(''192.168.0.2'', quad 192 168 0 2) \<in> set sim_names" "(''143.195.0.1'', quad 143 195 0 1) \<in> set sim_names"
  "(''198.178.229.42'', quad 198 178 229 42) \<in> set sim_names" "(''198.178.229.43'', quad 198 178 229 43) \<in> set sim_names" "(''0.0.0.0'', 0) \<in> set sim_names"
  "(''10.0.0.0'', quad 10 0 0 0) \<in> set sim_names" "(''172.16.0.0'', quad 172 16 0 0) \<in> set sim_names" "(''192.168.0.0'', quad 192 168 0 0) \<in> set sim_names"
  "(''198.178.229.0'', quad 198 178 229 0) \<in> set sim_names" "(''143.195.0.0'', quad 143 195 0 0) \<in> set sim_names" "(''143.195.128.0'', quad 143 195 128 0) \<in> set sim_names"
  "(''143.195.192.0'', quad 143 195 192 0) \<in> set sim_names" "(''128.30.0.1'', quad 128 30 0 1) \<in> set sim_names" "(''1.2.3.4'', quad 1 2 3 4) \<in> set sim_names"
  "(''143.195.131.17'', quad 143 195 131 17) \<in> set sim_names" "(''143.195.193.52'', quad 143 195 193 52) \<in> set sim_names" "(''143.195.223.255'', quad 143 195 223 255) \<in> set sim_names"
  "(''143.195.224.0'', quad 143 195 224 0) \<in> set sim_names"
  by (simp_all add: sim_names_def)

definition reads :: "(string \<times> uint32_t) list \<Rightarrow> libc \<Rightarrow> bool" where
  "reads names lc \<longleftrightarrow>
     (\<forall>(str, n) \<in> set names. lc_getaddrinfo lc str (dec_string 0) (make_hints (or AI_NUMERICHOST AI_NUMERICSERV) AF_INET) =
        (0, Some (sockaddr_in n 0, 16)))"

definition reads_names :: "libc \<Rightarrow> bool" where
  "reads_names lc \<longleftrightarrow> reads sim_names lc \<and>
     (\<forall>n. \<exists>str. lc_getnameinfo lc (sockaddr_in n 0 @ replicate 112 0) 16 = (0, str, dec_string 0))"

lemma Address_of_read:
  assumes "reads names lc" and "(str, n) \<in> set names"
  shows "Address_of_ip (lc_getaddrinfo lc) str 0 = Inr (socket_address n 0)"
proof -
  have "lc_getaddrinfo lc str (dec_string 0) (make_hints (or AI_NUMERICHOST AI_NUMERICSERV) AF_INET) = (0, Some (sockaddr_in n 0, 16))"
    using assms by (auto simp: reads_def)
  then show ?thesis
    by (simp add: Address_of_ip_def Address_resolve_def Address_of_raw_def sizeof_sockaddr_storage_def socket_address_def)
      (simp add: sockaddr_in_def htobe32_def)
qed

lemma Address_of_name: "reads_names lc \<Longrightarrow> (str, n) \<in> set sim_names \<Longrightarrow> Address_of_ip (lc_getaddrinfo lc) str 0 = Inr (socket_address n 0)"
  unfolding reads_names_def using Address_of_read by blast

lemma sim_ip_name: "reads_names lc \<Longrightarrow> (str, n) \<in> set sim_names \<Longrightarrow> sim_ip (lc_getaddrinfo lc) str = Inr n"
  by (simp add: sim_ip_def Address_of_name)

definition initial_state :: "(nat \<Rightarrow> nat \<Rightarrow> uint8_t) \<Rightarrow> link_state" where
  "initial_state rd l i =
     AsyncNetworkInterface_new (NetworkInterface_new (link_mac rd l i) (socket_address (link_ip l i) 0))"

lemma nw_new_router_eq:
  assumes "reads_names lc"
  shows "nw_new_router (lc_getaddrinfo lc) rd =
    Inr ((nw_of (initial_state rd) ex)\<lparr>nw_router := (router_of (initial_state rd))\<lparr>rt_forwarding_table := []\<rparr>, nw_hosts := []\<rparr>)"
proof -
  have a: "nw_add_interface (lc_getaddrinfo lc) r str rt =
      Inr (length (rt_interfaces rt), rt\<lparr>rt_interfaces := rt_interfaces rt @
        [AsyncNetworkInterface_new (NetworkInterface_new (random_router_ethernet_address r) (socket_address n 0))]\<rparr>)"
    if "(str, n) \<in> set sim_names" for r str n rt
    using Address_of_name [OF assms that] by (simp add: nw_add_interface_def rt_add_interface_def Let_def)
  show ?thesis
    unfolding nw_new_router_def
    by (simp add: a [where n = "quad 171 67 76 46"] a [where n = "quad 10 0 0 1"] a [where n = "quad 172 16 0 1"]
        a [where n = "quad 192 168 0 1"] a [where n = "quad 198 178 229 1"] a [where n = "quad 143 195 0 2"]
        a [where n = "quad 128 30 76 255"] Router_new_def)
      (simp add: nw_of_def router_of_def initial_state_def link_mac_def link_ip_def sim_links_def)
qed

lemma sim_hosts_distinct: "distinct (map fst sim_hosts)" "distinct (map (\<lambda>(name, l, i, hop). (l, i)) sim_hosts)"
  by (simp_all add: sim_hosts_def)

lemma sim_hosts_bounds: "(name, l, i, hop) \<in> set sim_hosts \<Longrightarrow> l < 5 \<and> 0 < i \<and> i < link_size l"
  by (auto simp: sim_hosts_def link_size_def sim_links_def)

lemma sim_hosts_names: "h \<in> set sim_hosts \<Longrightarrow> h' \<in> set sim_hosts \<Longrightarrow> fst h = fst h' \<longleftrightarrow> h = h'"
  using sim_hosts_distinct(1) by (auto simp: distinct_map dest: inj_onD)

lemma sim_hosts_places:
  assumes "(name, l, i, hop) \<in> set sim_hosts" and "(name', l', i', hop') \<in> set sim_hosts"
  shows "name = name' \<longleftrightarrow> l = l' \<and> i = i'"
proof -
  have "inj_on (\<lambda>(name, l, i, hop). (l, i)) (set sim_hosts)"
    using sim_hosts_distinct(2) unfolding distinct_map by blast
  from inj_onD [OF this _ assms] show ?thesis using sim_hosts_names [OF assms] by auto
qed

lemma nth_not_in_take: "distinct xs \<Longrightarrow> k < length xs \<Longrightarrow> xs ! k \<notin> set (take k xs)"
  by (subst (asm) id_take_nth_drop [of k xs]) auto

lemma map_of_pairs: "distinct (map k xs) \<Longrightarrow> x \<in> set xs \<Longrightarrow> map_of (map (\<lambda>x. (k x, f x)) xs) (k x) = Some (f x)"
  by (induction xs) (auto simp: image_iff)

lemma update_pairs:
  assumes "distinct (map k xs)" and "x \<in> set xs"
  shows "AList.update (k x) v (map (\<lambda>x. (k x, f x)) xs) = map (\<lambda>y. (k y, if y = x then v else f y)) xs"
  using assms
proof (induction xs)
  case (Cons y ys)
  show ?case
  proof (cases "y = x")
    case True
    then have "\<forall>z \<in> set ys. z \<noteq> x" using Cons.prems by auto
    then show ?thesis using True by simp
  next
    case False
    then have "k y \<noteq> k x" using Cons.prems by (auto simp: image_iff)
    then show ?thesis using Cons False by simp
  qed
qed simp

lemma nw_insert_next:
  assumes "reads_names lc" and k: "k < length sim_hosts" "sim_hosts ! k = (name, l, i, m)"
    and "(str, link_ip l i) \<in> set sim_names" "(hop, m) \<in> set sim_names"
    and "link_mac rd l i = random_host_ethernet_address r"
  defines "hosts \<equiv> \<lambda>k. map (\<lambda>h. (fst h, host_of (initial_state rd) (\<lambda>_. []) h)) (take k sim_hosts)"
  shows "nw_insert_host (lc_getaddrinfo lc) r name str hop (hosts k) = Inr (hosts (Suc k))"
proof -
  have "name \<notin> fst ` set (take k sim_hosts)"
    using nth_not_in_take [OF sim_hosts_distinct(1), of k] k by (simp add: take_map)
  then have "map_of (hosts k) name = None" by (force simp: hosts_def map_of_eq_None_iff)
  then show ?thesis
    using Address_of_name [OF assms(1,4)] Address_of_name [OF assms(1,5)] k assms(6)
    by (simp add: nw_insert_host_def hosts_def take_Suc_conv_app_nth host_of_def Host_new_def initial_state_def)
qed

lemma nw_new_hosts_eq:
  assumes "reads_names lc"
  shows "nw_new_hosts (lc_getaddrinfo lc) rd = Inr (nw_hosts (nw_of (initial_state rd) (\<lambda>_. [])))"
proof -
  let ?hosts = "\<lambda>k. map (\<lambda>h. (fst h, host_of (initial_state rd) (\<lambda>_. []) h)) (take k sim_hosts)"
  note a = nw_insert_next [OF assms, where rd = rd]
  have all: "?hosts 0 = []" "?hosts 6 = nw_hosts (nw_of (initial_state rd) (\<lambda>_. []))"
    by (simp_all add: nw_of_def sim_hosts_def)
  have 1: "nw_insert_host (lc_getaddrinfo lc) (rd 7) ''applesauce'' ''10.0.0.2'' ''10.0.0.1'' (?hosts 0) = Inr (?hosts 1)"
    using a [of 0] by (simp add: sim_hosts_def link_ip_def link_mac_def sim_links_def)
  have 2: "nw_insert_host (lc_getaddrinfo lc) (rd 8) ''default_router'' ''171.67.76.1'' ''0'' (?hosts 1) = Inr (?hosts 2)"
    using a [of 1] by (simp add: sim_hosts_def link_ip_def link_mac_def sim_links_def)
  have 3: "nw_insert_host (lc_getaddrinfo lc) (rd 9) ''cherrypie'' ''192.168.0.2'' ''192.168.0.1'' (?hosts 2) = Inr (?hosts 3)"
    using a [of 2] by (simp add: sim_hosts_def link_ip_def link_mac_def sim_links_def)
  have 4: "nw_insert_host (lc_getaddrinfo lc) (rd 10) ''hs_router'' ''143.195.0.1'' ''0'' (?hosts 3) = Inr (?hosts 4)"
    using a [of 3] by (simp add: sim_hosts_def link_ip_def link_mac_def sim_links_def)
  have 5: "nw_insert_host (lc_getaddrinfo lc) (rd 11) ''dm42'' ''198.178.229.42'' ''198.178.229.1'' (?hosts 4) = Inr (?hosts 5)"
    using a [of 4] by (simp add: sim_hosts_def link_ip_def link_mac_def sim_links_def)
  have 6: "nw_insert_host (lc_getaddrinfo lc) (rd 12) ''dm43'' ''198.178.229.43'' ''198.178.229.1'' (?hosts 5) = Inr (?hosts 6)"
    using a [of 5] by (simp add: sim_hosts_def link_ip_def link_mac_def sim_links_def)
  show ?thesis unfolding nw_new_hosts_def using 1 2 3 4 5 6 unfolding all by (simp only: bindE_Inr)
qed

lemma nw_host_of:
  assumes "h \<in> set sim_hosts"
  shows "nw_host (fst h) (nw_of st ex) = Inr (host_of st ex h)"
proof -
  have "map_of (nw_hosts (nw_of st ex)) (fst h) = Some (host_of st ex h)"
    unfolding nw_of_def by (simp add: map_of_pairs [OF sim_hosts_distinct(1) assms])
  moreover have "ho_name (host_of st ex h) = fst h" by (simp add: host_of_def case_prod_beta)
  ultimately show ?thesis by (simp add: nw_host_def)
qed

lemma nw_new_routes_eq:
  assumes "reads_names lc"
  shows "nw_new_routes (lc_getaddrinfo lc) ((nw_of st ex)\<lparr>nw_router := (router_of st)\<lparr>rt_forwarding_table := []\<rparr>\<rparr>) = Inr (router_of st)"
proof -
  have a: "nw_add_route (lc_getaddrinfo lc) str len hop i rt = Inr (rt_add_route n len hop i rt)"
    if "(str, n) \<in> set sim_names" for str n len hop i rt
    using sim_ip_name [OF assms that] by (simp add: nw_add_route_def)
  have h: "nw_host name ((nw_of st ex)\<lparr>nw_router := rt\<rparr>) = nw_host name (nw_of st ex)" for name rt
    by (simp add: nw_host_def)
  have hosts: "nw_host ''default_router'' (nw_of st ex) = Inr (host_of st ex (''default_router'', 0, 1, 0))"
    "nw_host ''hs_router'' (nw_of st ex) = Inr (host_of st ex (''hs_router'', 3, 1, 0))"
    using nw_host_of [of "(''default_router'', 0, 1, 0)"] nw_host_of [of "(''hs_router'', 3, 1, 0)"] by (simp_all add: sim_hosts_def)
  have m: "Address_of_ip (lc_getaddrinfo lc) ''128.30.0.1'' 0 = Inr (socket_address (quad 128 30 0 1) 0)"
    by (rule Address_of_name [OF assms]) simp
  have ids: "nw_default_id (nw_of st ex) = 0" "nw_eth0_id (nw_of st ex) = 1" "nw_eth1_id (nw_of st ex) = 2"
    "nw_eth2_id (nw_of st ex) = 3" "nw_uun3_id (nw_of st ex) = 4" "nw_hs4_id (nw_of st ex) = 5" "nw_mit5_id (nw_of st ex) = 6"
    by (simp_all add: nw_of_def)
  show ?thesis
    unfolding nw_new_routes_def h hosts m
    by (simp add: a [where n = 0] a [where n = "quad 10 0 0 0"] a [where n = "quad 172 16 0 0"] a [where n = "quad 192 168 0 0"]
        a [where n = "quad 198 178 229 0"] a [where n = "quad 143 195 0 0"] a [where n = "quad 143 195 128 0"]
        a [where n = "quad 143 195 192 0"] a [where n = "quad 128 30 76 255"] m ids)
      (simp add: router_of_def sim_table_def rt_add_route_def mod_cmp_def quad_def host_of_def link_ip_def sim_links_def)
qed

lemma Network_new_eq:
  assumes "reads_names lc"
  shows "Network_new (lc_getaddrinfo lc) rd = Inr (nw_of (initial_state rd) (\<lambda>_. []))"
proof -
  have nw: "(nw_of (initial_state rd) (\<lambda>_. []))\<lparr>nw_router := (router_of (initial_state rd))\<lparr>rt_forwarding_table := []\<rparr>, nw_hosts := []\<rparr>
      \<lparr>nw_hosts := nw_hosts (nw_of (initial_state rd) (\<lambda>_. []))\<rparr> =
    (nw_of (initial_state rd) (\<lambda>_. []))\<lparr>nw_router := (router_of (initial_state rd))\<lparr>rt_forwarding_table := []\<rparr>\<rparr>"
    by simp
  show ?thesis
    unfolding Network_new_def nw_new_router_eq [OF assms, where ex = "\<lambda>_. []"] nw_new_hosts_eq [OF assms] bindE_Inr Let_def nw
      nw_new_routes_eq [OF assms]
    by (simp add: nw_of_def)
qed

text \<open>The parties of every link can be told apart, provided that the generator gives the three parties of \<open>uun3\<close> different addresses.\<close>

definition tells_apart :: "(nat \<Rightarrow> nat \<Rightarrow> uint8_t) \<Rightarrow> bool" where
  "tells_apart rd \<longleftrightarrow> distinct [link_mac rd 4 0, link_mac rd 4 1, link_mac rd 4 2]"

lemma random_mac:
  "length (random_router_ethernet_address r) = 6" "random_router_ethernet_address r \<noteq> ETHERNET_BROADCAST"
  "length (random_host_ethernet_address r) = 6" "random_host_ethernet_address r \<noteq> ETHERNET_BROADCAST"
proof -
  show "length (random_router_ethernet_address r) = 6" "length (random_host_ethernet_address r) = 6"
    by (simp_all add: random_host_ethernet_address_def random_router_ethernet_address_def Let_def)
  have "\<not> bit (x AND 0xfe :: uint8_t) 0" for x by (simp add: bit_simps)
  moreover have "bit (255 :: uint8_t) 0" by simp
  ultimately have "(x AND 0xfe :: uint8_t) \<noteq> 255" for x by metis
  moreover have "hd (random_router_ethernet_address r) = 2" "hd (random_host_ethernet_address r) = (r 0 OR 2) AND 0xfe"
    by (simp_all add: random_host_ethernet_address_def random_router_ethernet_address_def Let_def upt_rec)
  ultimately show "random_router_ethernet_address r \<noteq> ETHERNET_BROADCAST" "random_host_ethernet_address r \<noteq> ETHERNET_BROADCAST"
    by (auto simp: ETHERNET_BROADCAST_def)
qed

lemma mac_shape: "length (link_mac rd l i) = 6" "link_mac rd l i \<noteq> ETHERNET_BROADCAST"
  by (simp_all add: link_mac_def random_mac)

lemma link_sizes [simp]:
  "link_size 0 = 2" "link_size 1 = 2" "link_size (Suc 0) = 2" "link_size 2 = 2" "link_size 3 = 2" "link_size 4 = 3"
  "link_size 5 = 1" "link_size 6 = 1"
  by (simp_all add: link_size_def sim_links_def)

lemma seven_links: "l < 7 \<Longrightarrow> l \<in> {0, 1, 2, 3, 4, 5, 6 :: nat}"
  by auto

lemma sim_link_parties:
  assumes "l < 7" and "l \<noteq> 4 \<or> tells_apart rd"
  shows "link_parties (link_size l) (link_mac rd l) (link_ip l) flat_frame"
proof
  show "0 < link_size l" using seven_links [OF assms(1)] by auto
  fix i j k
  show "length (link_mac rd l i) = 6" "link_mac rd l i \<noteq> ETHERNET_BROADCAST" by (rule mac_shape)+
  show "carried f (flat_frame f)" if "wire_ok f" for f by (rule flat_carried [OF that])
  show "i = j" if "i < link_size l" "j < link_size l" "link_ip l i = link_ip l j"
    using that seven_links [OF assms(1)]
    by (auto simp: link_size_def link_ip_def sim_links_def quad_def less_Suc_eq)
  show "link_mac rd l j \<noteq> link_mac rd l k"
    if "i < link_size l" "j < link_size l" "k < link_size l" "i \<noteq> j" "i \<noteq> k" "j \<noteq> k"
  proof -
    have "l = 4" using that seven_links [OF assms(1)] by auto
    then have "tells_apart rd" "j < 3" "k < 3" using that assms(2) by simp_all
    then show ?thesis using that(6) \<open>l = 4\<close> by (auto simp: tells_apart_def numeral_3_eq_3 numeral_2_eq_2 less_Suc_eq)
  qed
qed

text \<open>The links with one host each are links of this kind, whatever the generator draws.\<close>

interpretation link_default: link_parties "link_size 0" "link_mac rd 0" "link_ip 0" flat_frame for rd
  by (rule sim_link_parties) simp_all

interpretation link_eth0: link_parties "link_size 1" "link_mac rd 1" "link_ip 1" flat_frame for rd
  by (rule sim_link_parties) simp_all

interpretation link_eth2: link_parties "link_size 2" "link_mac rd 2" "link_ip 2" flat_frame for rd
  by (rule sim_link_parties) simp_all

interpretation link_hs4: link_parties "link_size 3" "link_mac rd 3" "link_ip 3" flat_frame for rd
  by (rule sim_link_parties) simp_all

section \<open>One place of the network\<close>

text \<open>What the code does to a host or to an interface of the router changes the state of the network in one place.\<close>

lemma nw_hosts_update:
  assumes h: "(name, l, i, hop) \<in> set sim_hosts"
  shows "nw_set_host name ((host_of st ex (name, l, i, hop))\<lparr>ho_interface := an\<rparr>) (nw_of st ex) = nw_of (st(l := (st l)(i := an))) ex"
    and "nw_set_host name (ho_expect dg (host_of st ex (name, l, i, hop))) (nw_of st ex) = nw_of st (ex(name := ex name @ [dg]))"
proof -
  have u: "AList.update name v (nw_hosts (nw_of st ex)) =
      map (\<lambda>h. (fst h, if h = (name, l, i, hop) then v else host_of st ex h)) sim_hosts" for v
    using update_pairs [OF sim_hosts_distinct(1) h, of v] by (simp add: nw_of_def)
  have r: "router_of (st(l := (st l)(i := an))) = router_of st"
    using sim_hosts_bounds [OF h] by (auto simp: router_of_def)
  have "(if h' = (name, l, i, hop) then (host_of st ex (name, l, i, hop))\<lparr>ho_interface := an\<rparr> else host_of st ex h') =
      host_of (st(l := (st l)(i := an))) ex h'" if m: "h' \<in> set sim_hosts" for h'
  proof -
    obtain name' l' i' hop' where h': "h' = (name', l', i', hop')" by (cases h') auto
    note e = sim_hosts_places [OF h m [unfolded h']] and e' = sim_hosts_names [OF h m [unfolded h']]
    show ?thesis using e e' unfolding h' by (auto simp: host_of_def)
  qed
  then show "nw_set_host name ((host_of st ex (name, l, i, hop))\<lparr>ho_interface := an\<rparr>) (nw_of st ex) = nw_of (st(l := (st l)(i := an))) ex"
    unfolding nw_set_host_def u by (simp add: nw_of_def r cong: map_cong)
  have "(if h' = (name, l, i, hop) then ho_expect dg (host_of st ex (name, l, i, hop)) else host_of st ex h') =
      host_of st (ex(name := ex name @ [dg])) h'" if m: "h' \<in> set sim_hosts" for h'
  proof -
    obtain name' l' i' hop' where h': "h' = (name', l', i', hop')" by (cases h') auto
    show ?thesis using sim_hosts_names [OF h m [unfolded h']] unfolding h' by (auto simp: host_of_def ho_expect_def)
  qed
  then show "nw_set_host name (ho_expect dg (host_of st ex (name, l, i, hop))) (nw_of st ex) = nw_of st (ex(name := ex name @ [dg]))"
    unfolding nw_set_host_def u by (simp add: nw_of_def cong: map_cong)
qed

text \<open>The number of the router's interface of a link.\<close>

definition link_if :: "nat \<Rightarrow> nat" where
  "link_if l = [0, 1, 3, 5, 4, 2, 6] ! l"

lemma router_interface:
  assumes "l < 7"
  shows "rt_interface (link_if l) (router_of st) = Inr (st l 0)" and "link_if l < 7" "link_if l < length (rt_interfaces (router_of st))"
    and "rt_interfaces (router_of st) ! link_if l = st l 0"
    and "(router_of st)\<lparr>rt_interfaces := (rt_interfaces (router_of st))[link_if l := an]\<rparr> = router_of (st(l := (st l)(0 := an)))"
  using seven_links [OF assms] by (auto simp: rt_interface_def router_of_def link_if_def)

lemma nw_set_interface_of: "l < 7 \<Longrightarrow> nw_set_interface (link_if l) an (nw_of st ex) = nw_of (st(l := (st l)(0 := an))) ex"
proof -
  assume l: "l < 7"
  have "host_of (st(l := (st l)(0 := an))) ex h = host_of st ex h" if m: "h \<in> set sim_hosts" for h
  proof -
    obtain name l' i hop where h: "h = (name, l', i, hop)" by (cases h) auto
    show ?thesis using sim_hosts_bounds [OF m [unfolded h]] unfolding h by (simp add: host_of_def)
  qed
  then show ?thesis
    using router_interface(5) [OF l, of st an] by (simp add: nw_set_interface_def nw_of_def cong: map_cong)
qed

lemma nw_link_of:
  assumes h: "(name, l, 1, hop) \<in> set sim_hosts" and ex: "exchange_frames (st l 0) (st l 1) = Inr (f 0, f 1)"
  shows "nw_link (link_if l) name (nw_of st ex') = Inr (nw_of (st(l := (st l)(0 := f 0, 1 := f 1))) ex')"
proof -
  have l: "l < 7" using sim_hosts_bounds [OF h] by simp
  have i: "rt_interface (link_if l) (nw_router (nw_of st ex')) = Inr (st l 0)"
    using router_interface(1) [OF l] by (simp add: nw_of_def)
  have host: "nw_host name (nw_of st ex') = Inr (host_of st ex' (name, l, 1, hop))" using nw_host_of [OF h] by simp
  let ?st = "st(l := (st l)(0 := f 0))"
  have "host_of ?st ex' (name, l, 1, hop) = host_of st ex' (name, l, 1, hop)" by (simp add: host_of_def)
  then show ?thesis
    using ex nw_hosts_update(1) [OF h, where st = ?st and ex = ex' and an = "f 1"] nw_set_interface_of [OF l, of "f 0" st ex']
    unfolding nw_link_def i host by (simp add: host_of_def)
qed

lemma link_ifs: "link_if 0 = 0" "link_if 1 = 1" "link_if (Suc 0) = 1" "link_if 2 = 3" "link_if 3 = 5" "link_if 4 = 4"
  by (simp_all add: link_if_def)

lemma five_links: "(\<forall>l < 5. P l) \<longleftrightarrow> P 0 \<and> P 1 \<and> P 2 \<and> P 3 \<and> P (4 :: nat)"
proof -
  have "l < 5 \<longleftrightarrow> l \<in> {0, 1, 2, 3, 4}" for l :: nat by auto
  then show ?thesis by auto
qed

lemma nw_of_cong:
  assumes "\<And>l i. l < 7 \<Longrightarrow> i < link_size l \<Longrightarrow> st l i = st' l i"
  shows "nw_of st ex = nw_of st' ex"
proof -
  have "router_of st = router_of st'" using assms by (simp add: router_of_def)
  moreover have "host_of st ex h = host_of st' ex h" if m: "h \<in> set sim_hosts" for h
  proof -
    obtain name l' i hop where h: "h = (name, l', i, hop)" by (cases h) auto
    show ?thesis using sim_hosts_bounds [OF m [unfolded h]] assms [of l' i] unfolding h by (simp add: host_of_def)
  qed
  ultimately show ?thesis by (simp add: nw_of_def cong: map_cong)
qed

lemma physical_connections:
  assumes "\<And>l. l < 5 \<Longrightarrow> moves_frames flat_frame (link_size l) (st l) (f l)"
  shows "simulate_physical_connections (nw_of st ex) = Inr (nw_of (\<lambda>l. if l < 5 then f l else st l) ex)"
proof -
  have two: "exchange_frames (st l 0) (st l 1) = Inr (f l 0, f l 1)" if "l < 4" for l
  proof -
    have "l \<in> {0, 1, 2, 3}" using that by auto
    then have "link_size l = 2" by auto
    then show ?thesis using exchange_frames_moves [of "st l" "f l"] assms [of l] that by simp
  qed
  have three: "exchange_frames3 (st 4 0) (st 4 1) (st 4 2) = Inr (f 4 0, f 4 1, f 4 2)"
    using exchange_frames3_moves [of "st 4" "f 4"] assms [of 4] by simp
  let ?s = "\<lambda>st l. st(l := (st l)(0 := f l 0, 1 := f l 1))"
  let ?s1 = "?s st 0" let ?s2 = "?s ?s1 1" let ?s3 = "?s ?s2 2" let ?s4 = "?s ?s3 3"
  have h: "(''default_router'', 0, 1, 0) \<in> set sim_hosts" "(''applesauce'', 1, 1, quad 10 0 0 1) \<in> set sim_hosts"
    "(''cherrypie'', 2, 1, quad 192 168 0 1) \<in> set sim_hosts" "(''hs_router'', 3, 1, 0) \<in> set sim_hosts"
    "(''dm42'', 4, 1, quad 198 178 229 1) \<in> set sim_hosts" "(''dm43'', 4, 2, quad 198 178 229 1) \<in> set sim_hosts"
    by (simp_all add: sim_hosts_def)
  have id: "nw_default_id (nw_of st ex) = link_if 0" "nw_eth0_id (nw_of st ex) = link_if 1" "nw_eth2_id (nw_of st ex) = link_if 2"
    "nw_hs4_id (nw_of st ex) = link_if 3" "nw_uun3_id (nw_of st ex) = link_if 4" "nw_router (nw_of st ex) = router_of st" for st ex
    by (simp_all add: nw_of_def link_ifs)
  have 1: "nw_link (link_if 0) ''default_router'' (nw_of st ex) = Inr (nw_of ?s1 ex)"
    by (rule nw_link_of [OF h(1)]) (simp add: two [simplified])
  have 2: "nw_link (link_if 1) ''applesauce'' (nw_of ?s1 ex) = Inr (nw_of ?s2 ex)"
    by (rule nw_link_of [OF h(2)]) (simp add: two [simplified])
  have 3: "nw_link (link_if 2) ''cherrypie'' (nw_of ?s2 ex) = Inr (nw_of ?s3 ex)"
    by (rule nw_link_of [OF h(3)]) (simp add: two [simplified])
  have 4: "nw_link (link_if 3) ''hs_router'' (nw_of ?s3 ex) = Inr (nw_of ?s4 ex)"
    by (rule nw_link_of [OF h(4)]) (simp add: two [simplified])
  have i5: "rt_interface (link_if 4) (router_of ?s4) = Inr (st 4 0)" using router_interface(1) [of 4 ?s4] by simp
  have h5: "nw_host ''dm42'' (nw_of ?s4 ex) = Inr (host_of ?s4 ex (''dm42'', 4, 1, quad 198 178 229 1))"
    "nw_host ''dm43'' (nw_of ?s4 ex) = Inr (host_of ?s4 ex (''dm43'', 4, 2, quad 198 178 229 1))"
    using nw_host_of [OF h(5)] nw_host_of [OF h(6)] by simp_all
  let ?t1 = "?s4(4 := (?s4 4)(0 := f 4 0))" let ?t2 = "?t1(4 := (?t1 4)(1 := f 4 1))" let ?t3 = "?t2(4 := (?t2 4)(2 := f 4 2))"
  have u: "nw_set_interface (link_if 4) (f 4 0) (nw_of ?s4 ex) = nw_of ?t1 ex" by (rule nw_set_interface_of) simp
  have "host_of ?s4 ex (''dm42'', 4, 1, quad 198 178 229 1) = host_of ?t1 ex (''dm42'', 4, 1, quad 198 178 229 1)"
    "host_of ?s4 ex (''dm43'', 4, 2, quad 198 178 229 1) = host_of ?t2 ex (''dm43'', 4, 2, quad 198 178 229 1)"
    by (simp_all add: host_of_def)
  then have "nw_set_host ''dm43'' ((host_of ?s4 ex (''dm43'', 4, 2, quad 198 178 229 1))\<lparr>ho_interface := f 4 2\<rparr>)
      (nw_set_host ''dm42'' ((host_of ?s4 ex (''dm42'', 4, 1, quad 198 178 229 1))\<lparr>ho_interface := f 4 1\<rparr>)
         (nw_set_interface (link_if 4) (f 4 0) (nw_of ?s4 ex))) = nw_of ?t3 ex"
    unfolding u by (simp only: nw_hosts_update(1) [OF h(5)] nw_hosts_update(1) [OF h(6)])
  moreover have "exchange_frames3 (st 4 0) (ho_interface (host_of ?s4 ex (''dm42'', 4, 1, quad 198 178 229 1)))
      (ho_interface (host_of ?s4 ex (''dm43'', 4, 2, quad 198 178 229 1))) = Inr (f 4 0, f 4 1, f 4 2)"
    using three by (simp add: host_of_def)
  moreover have "nw_of ?t3 ex = nw_of (\<lambda>l. if l < 5 then f l else st l) ex"
  proof (rule nw_of_cong)
    fix l i
    assume "l < 7" "i < link_size l"
    then have "l \<in> {0, 1, 2, 3} \<and> i \<in> {0, 1} \<or> l = 4 \<and> i \<in> {0, 1, 2} \<or> \<not> l < 5"
      using seven_links [of l] by auto
    then show "?t3 l i = (if l < 5 then f l else st l) i" by (elim disjE conjE insertE emptyE) simp_all
  qed
  ultimately show ?thesis
    unfolding simulate_physical_connections_def id 1 2 3 4 i5 h5 bindE_Inr by (simp only: bindE_Inr prod.case id i5 h5)
qed

end
