(* ===== verification/Simulated_Tests.thy ===== *)
theory Simulated_Tests
  imports Simulated_Setup
begin

text \<open>
  The network of \<^verbatim>\<open>apps/network_simulator.cc\<close> at work: what one round does, how a datagram gets from host to host, and the
  tests of the program, all of which succeed.
\<close>

section \<open>A round of the simulation\<close>

definition net_in :: "(nat \<Rightarrow> nat \<Rightarrow> uint8_t) \<Rightarrow> (nat \<Rightarrow> phase) \<Rightarrow> link_state \<Rightarrow> bool" where
  "net_in rd ph st \<longleftrightarrow>
     (\<forall>l < 7. on_link (link_size l) (link_mac rd l) (link_ip l) (ph l) (st l)) \<and> ph 5 = Idle \<and> ph 6 = Idle"

abbreviation at_link :: "nat \<Rightarrow> phase \<Rightarrow> nat \<Rightarrow> phase" where
  "at_link l p \<equiv> (\<lambda>_. Idle)(l := p)"

lemma router_queue:
  assumes "net_in rd ph st" and "l < 7" and "\<And>dg. ph l \<noteq> Arrived 0 dg"
  shows "an_datagrams_out (st l 0) = []"
proof -
  have "0 < link_size l" using seven_links [OF assms(2)] by auto
  then have "party_queue (ph l) 0 (an_datagrams_out (st l 0))" using assms(1,2) by (auto simp: net_in_def on_link_def party_def)
  then show ?thesis using assms(3) by (cases "ph l") (auto split: if_splits)
qed

lemma link_if_onto:
  assumes "i < 7"
  obtains l where "l < 7" and "i = link_if l"
proof -
  have "i \<in> link_if ` {0, 1, 2, 3, 4, 5, 6}" using assms by (auto simp: link_if_def)
  then obtain l where "l \<in> {0, 1, 2, 3, 4, 5, 6}" "i = link_if l" by blast
  moreover from this(1) have "l < 7" by auto
  ultimately show thesis using that by blast
qed

lemma router_length [simp]: "length (rt_interfaces (router_of st)) = 7"
  by (simp add: router_of_def)

lemma exchange_round:
  assumes "tells_apart rd" and "net_in rd ph st"
  shows "\<exists>st'. simulate_physical_connections (nw_of st ex) = Inr (nw_of st' ex) \<and> net_in rd (next_phase \<circ> ph) st'"
proof -
  have "\<exists>f. moves_frames flat_frame (link_size l) (st l) f \<and> on_link (link_size l) (link_mac rd l) (link_ip l) (next_phase (ph l)) f" if "l < 7" for l
    using that assms link_parties.phase_step [OF sim_link_parties, of l rd "ph l" "st l"] by (auto simp: net_in_def)
  then obtain f where f: "\<And>l. l < 7 \<Longrightarrow> moves_frames flat_frame (link_size l) (st l) (f l)"
    "\<And>l. l < 7 \<Longrightarrow> on_link (link_size l) (link_mac rd l) (link_ip l) (next_phase (ph l)) (f l)"
    by metis
  let ?st = "\<lambda>l. if l < 5 then f l else st l"
  have "on_link (link_size l) (link_mac rd l) (link_ip l) (next_phase (ph l)) (?st l)" if "l < 7" for l
  proof (cases "l < 5")
    case False
    then have "l = 5 \<or> l = 6" using that by auto
    then have "ph l = Idle" using assms(2) unfolding net_in_def by blast
    moreover have "on_link (link_size l) (link_mac rd l) (link_ip l) (ph l) (st l)" using assms(2) that unfolding net_in_def by blast
    ultimately show ?thesis using False by simp
  qed (use f(2) in simp)
  then have "net_in rd (next_phase \<circ> ph) ?st" using assms(2) by (simp add: net_in_def)
  moreover have "simulate_physical_connections (nw_of st ex) = Inr (nw_of ?st ex)"
    by (rule physical_connections) (use f(1) in simp)
  ultimately show ?thesis by blast
qed

text \<open>A round in which the router has nothing to do.\<close>

lemma quiet_router_round:
  assumes "tells_apart rd" and "net_in rd ph st" and "\<And>l dg. l < 7 \<Longrightarrow> ph l \<noteq> Arrived 0 dg"
  shows "\<exists>st'. nw_round (nw_of st ex) = Inr (nw_of st' ex) \<and> net_in rd (next_phase \<circ> ph) st'"
proof -
  have "rt_route (router_of st) = Inr (router_of st)"
    unfolding rt_route_def
  proof (intro rt_route_loop_quiet ballI)
    fix i
    assume "i \<in> set [0..<length (rt_interfaces (router_of st))]"
    then have "i < 7" by simp
    then obtain l where "l < 7" "i = link_if l" by (rule link_if_onto)
    then show "an_datagrams_out (rt_interfaces (router_of st) ! i) = []"
      using router_interface(4) [of l st] router_queue [OF assms(2), of l] assms(3) by simp
  qed
  moreover have "(nw_of st ex)\<lparr>nw_router := router_of st\<rparr> = nw_of st ex" "nw_router (nw_of st ex) = router_of st"
    by (simp_all add: nw_of_def)
  ultimately show ?thesis using exchange_round [OF assms(1,2)] by (simp only: nw_round_def bindE_Inr)
qed

lemma nw_router_of:
  assumes "\<And>l i. 0 < i \<Longrightarrow> st' l i = st l i"
  shows "(nw_of st ex)\<lparr>nw_router := router_of st'\<rparr> = nw_of st' ex"
proof -
  have "host_of st ex h = host_of st' ex h" if m: "h \<in> set sim_hosts" for h
  proof -
    obtain name l' i hop where h: "h = (name, l', i, hop)" by (cases h) auto
    show ?thesis using sim_hosts_bounds [OF m [unfolded h]] assms unfolding h by (simp add: host_of_def)
  qed
  then show ?thesis by (simp add: nw_of_def cong: map_cong)
qed

text \<open>The router takes the datagram that has arrived on link \<open>ls\<close>.\<close>

lemma route_arrived:
  assumes net: "net_in rd (at_link ls (Arrived 0 dg)) st" and ls: "ls < 5"
  obtains dg' where "alike dg dg'" and "an_datagrams_out (st ls 0) = [dg']"
    and "\<forall>st1. rt_route_one_datagram dg' (router_of st) = Inr (router_of st1) \<longrightarrow>
      (\<forall>l. an_datagrams_out (st1 l 0) = an_datagrams_out (st l 0)) \<longrightarrow>
      rt_route (router_of st) = Inr (router_of (st1(ls := (st1 ls)(0 := (st1 ls 0)\<lparr>an_datagrams_out := []\<rparr>))))"
    and "net_in rd (\<lambda>_. Idle) (st(ls := (st ls)(0 := (st ls 0)\<lparr>an_datagrams_out := []\<rparr>)))"
proof -
  have l: "ls < 7" "ls \<noteq> 5" "ls \<noteq> 6" using ls by simp_all
  have here: "on_link (link_size ls) (link_mac rd ls) (link_ip ls) (Arrived 0 dg) (st ls)"
    using net l(1) by (auto simp: net_in_def split: if_splits)
  then have p: "party (link_size ls) (link_mac rd ls) (link_ip ls) (Arrived 0 dg) 0 (st ls 0)" by (simp add: on_link_def)
  then obtain dg' where dg': "an_datagrams_out (st ls 0) = [dg']" "alike dg dg'" by (auto simp: party_def arrives_as_def)
  have j: "link_if ls < length (rt_interfaces (router_of st))" "an_datagrams_out (rt_interfaces (router_of st) ! link_if ls) = [dg']"
    using router_interface(2,4) [OF l(1)] dg'(1) by simp_all
  have others: "an_datagrams_out (rt_interfaces (router_of st) ! i) = []"
    if "i < length (rt_interfaces (router_of st))" "i \<noteq> link_if ls" for i
  proof -
    have "i < 7" using that(1) by simp
    then obtain l where "l < 7" "i = link_if l" by (rule link_if_onto)
    then show ?thesis using that(2) router_interface(4) [of l st] router_queue [OF net, of l] by (cases "l = ls") simp_all
  qed
  have route: "rt_route (router_of st) = Inr (router_of (st1(ls := (st1 ls)(0 := (st1 ls 0)\<lparr>an_datagrams_out := []\<rparr>))))"
    if one: "rt_route_one_datagram dg' (router_of st) = Inr (router_of st1)"
      and same: "\<forall>l. an_datagrams_out (st1 l 0) = an_datagrams_out (st l 0)" for st1
  proof -
    have "queues (router_of st1) = queues (router_of st)" using same by (simp add: router_of_def)
    from rt_route_single [OF j others one this] show ?thesis
      using router_interface(4,5) [OF l(1), of st1] by simp
  qed
  have "party (link_size ls) (link_mac rd ls) (link_ip ls) Idle 0 ((st ls 0)\<lparr>an_datagrams_out := []\<rparr>)"
    using p by (simp add: party_def)
  moreover have "party (link_size ls) (link_mac rd ls) (link_ip ls) Idle i (st ls i)" if "i < link_size ls" "i \<noteq> 0" for i
    using here that by (simp add: on_link_def party_def)
  ultimately have "net_in rd (\<lambda>_. Idle) (st(ls := (st ls)(0 := (st ls 0)\<lparr>an_datagrams_out := []\<rparr>)))"
    using net by (auto simp: net_in_def on_link_def split: if_splits)
  then show thesis using that dg' route by blast
qed

text \<open>A datagram whose time is up is dropped.\<close>

lemma drop_round:
  assumes "tells_apart rd" and net: "net_in rd (at_link ls (Arrived 0 dg)) st" and ls: "ls < 5"
    and ttl: "unat (ip_ttl (dg_header dg)) \<le> 1"
  shows "\<exists>st'. nw_round (nw_of st ex) = Inr (nw_of st' ex) \<and> net_in rd (\<lambda>_. Idle) st'"
proof -
  obtain dg' where dg': "alike dg dg'"
    and route: "\<forall>st1. rt_route_one_datagram dg' (router_of st) = Inr (router_of st1) \<longrightarrow>
      (\<forall>l. an_datagrams_out (st1 l 0) = an_datagrams_out (st l 0)) \<longrightarrow>
      rt_route (router_of st) = Inr (router_of (st1(ls := (st1 ls)(0 := (st1 ls 0)\<lparr>an_datagrams_out := []\<rparr>))))"
    and idle: "net_in rd (\<lambda>_. Idle) (st(ls := (st ls)(0 := (st ls 0)\<lparr>an_datagrams_out := []\<rparr>)))"
    by (rule route_arrived [OF net ls])
  let ?st = "st(ls := (st ls)(0 := (st ls 0)\<lparr>an_datagrams_out := []\<rparr>))"
  have "ip_ttl (dg_header dg') \<le> 1" using ttl alike_fields [OF dg'] by (simp add: word_le_nat_alt)
  then have "rt_route_one_datagram dg' (router_of st) = Inr (router_of st)" by (simp add: rt_route_one_datagram_def)
  with route have "rt_route (nw_router (nw_of st ex)) = Inr (router_of ?st)" by (simp add: nw_of_def)
  moreover have "(nw_of st ex)\<lparr>nw_router := router_of ?st\<rparr> = nw_of ?st ex" by (rule nw_router_of) simp
  moreover obtain st' where "simulate_physical_connections (nw_of ?st ex) = Inr (nw_of st' ex)"
    "net_in rd (next_phase \<circ> (\<lambda>_. Idle)) st'"
    using exchange_round [OF assms(1) idle] by blast
  ultimately show ?thesis by (auto simp: nw_round_def comp_def)
qed

text \<open>Any other is sent on.\<close>

lemma forward_round:
  assumes apart: "tells_apart rd" and net: "net_in rd (at_link ls (Arrived 0 dg)) st" and ls: "ls < 5" and wf: "dg_wf dg"
    and ttl: "1 < unat (ip_ttl (dg_header dg))" and lt: "lt < 5" "0 < q" "q < link_size lt"
    and lookup: "rt_lookup (ip_dst (dg_header dg)) sim_table = Some (k, link_if lt, h)"
    and hop: "(case h of Some a \<Rightarrow> addr_ipv4_numeric a | None \<Rightarrow> Inr (ip_dst (dg_header dg))) = Inr (link_ip lt q)"
  shows "\<exists>p st'. (p = Answer 0 q (ttl_less dg) \<or> p = Arrived q (ttl_less dg)) \<and>
    nw_round (nw_of st ex) = Inr (nw_of st' ex) \<and> net_in rd (at_link lt p) st'"
proof -
  obtain dg' where dg': "alike dg dg'"
    and route: "\<forall>st1. rt_route_one_datagram dg' (router_of st) = Inr (router_of st1) \<longrightarrow>
      (\<forall>l. an_datagrams_out (st1 l 0) = an_datagrams_out (st l 0)) \<longrightarrow>
      rt_route (router_of st) = Inr (router_of (st1(ls := (st1 ls)(0 := (st1 ls 0)\<lparr>an_datagrams_out := []\<rparr>))))"
    and idle: "net_in rd (\<lambda>_. Idle) (st(ls := (st ls)(0 := (st ls 0)\<lparr>an_datagrams_out := []\<rparr>)))"
    by (rule route_arrived [OF net ls])
  let ?s = "st(ls := (st ls)(0 := (st ls 0)\<lparr>an_datagrams_out := []\<rparr>))"
  define hop_a where "hop_a = (case h of Some a \<Rightarrow> a | None \<Rightarrow> ipv4_address (ip_dst (dg_header dg)))"
  have hop_n: "addr_ipv4_numeric hop_a = Inr (link_ip lt q)" using hop by (cases h) (simp_all add: hop_a_def)
  have parties: "link_parties (link_size lt) (link_mac rd lt) (link_ip lt) flat_frame" using lt(1) apart by (intro sim_link_parties) simp_all
  have l: "lt < 7" "lt \<noteq> 5" "lt \<noteq> 6" using lt(1) by simp_all
  have here: "on_link (link_size lt) (link_mac rd lt) (link_ip lt) Idle (?s lt)" using idle l(1) by (auto simp: net_in_def)
  have q: "0 < link_size lt" "0 \<noteq> q" using lt by simp_all
  obtain ni p where ni: "ni_send_datagram (ttl_less dg') hop_a (an_interface (?s lt 0)) = Inr ni"
    "p = Ask 0 q (ttl_less dg) \<or> p = Carry 0 q (ttl_less dg)"
    "on_link (link_size lt) (link_mac rd lt) (link_ip lt) p ((?s lt)(0 := (?s lt 0)\<lparr>an_interface := ni\<rparr>))"
    by (rule link_parties.send_on_link [OF parties here q(1) lt(3) q(2) ttl_less_wf [OF wf] alike_less [OF dg'] hop_n])
  let ?st1 = "st(lt := (st lt)(0 := (st lt 0)\<lparr>an_interface := ni\<rparr>))"
  let ?st2 = "?s(lt := (?s lt)(0 := (?s lt 0)\<lparr>an_interface := ni\<rparr>))"
  have same: "an_interface (?s lt 0) = an_interface (st lt 0)" by simp
  have "\<not> ip_ttl (dg_header dg') \<le> 1" "ip_dst (dg_header dg') = ip_dst (dg_header dg)"
    using ttl alike_fields [OF dg'] by (simp_all add: word_le_nat_alt)
  moreover have "rt_forwarding_table (router_of st) = sim_table" by (simp add: router_of_def)
  ultimately have one: "rt_route_one_datagram dg' (router_of st) =
      Inr ((router_of st)\<lparr>rt_interfaces := (rt_interfaces (router_of st))[link_if lt := (st lt 0)\<lparr>an_interface := ni\<rparr>]\<rparr>)"
    using lookup ni(1) router_interface(1) [OF l(1), of st] unfolding same
    by (cases h) (simp_all add: rt_route_one_datagram_def Let_def hop_a_def addr_from_ipv4_numeric_eq flip: ttl_less_def)
  have "\<forall>l. an_datagrams_out (?st1 l 0) = an_datagrams_out (st l 0)" by simp
  with route one [unfolded router_interface(5) [OF l(1)]]
  have "rt_route (router_of st) = Inr (router_of (?st1(ls := (?st1 ls)(0 := (?st1 ls 0)\<lparr>an_datagrams_out := []\<rparr>))))" by blast
  moreover have "?st1(ls := (?st1 ls)(0 := (?st1 ls 0)\<lparr>an_datagrams_out := []\<rparr>)) = ?st2" by (auto simp: fun_eq_iff)
  ultimately have "rt_route (nw_router (nw_of st ex)) = Inr (router_of ?st2)" by (simp add: nw_of_def)
  moreover have "(nw_of st ex)\<lparr>nw_router := router_of ?st2\<rparr> = nw_of ?st2 ex" by (rule nw_router_of) simp
  moreover have "net_in rd (at_link lt p) ?st2" using idle ni(3) l by (auto simp: net_in_def)
  from exchange_round [OF apart this] obtain st' where "simulate_physical_connections (nw_of ?st2 ex) = Inr (nw_of st' ex)"
    "net_in rd (next_phase \<circ> at_link lt p) st'"
    by blast
  moreover have "next_phase \<circ> at_link lt p = at_link lt (next_phase p)" by (simp add: fun_eq_iff)
  ultimately show ?thesis
    using ni(2) by (intro exI [of _ "next_phase p"] exI [of _ st']) (auto simp: nw_round_def)
qed

section \<open>Many rounds\<close>

lemma nw_rounds_add: "nw_rounds (m + n) nw = bindE (nw_rounds m nw) (nw_rounds n)"
  by (induction m arbitrary: nw) (auto simp: bindE_def split: sum.split)

text \<open>In at most \<open>n\<close> rounds the network gets from \<open>st\<close> to a state whose links are in \<open>ph\<close>.\<close>

definition within ::
  "nat \<Rightarrow> (nat \<Rightarrow> nat \<Rightarrow> uint8_t) \<Rightarrow> (string \<Rightarrow> InternetDatagram list) \<Rightarrow> link_state \<Rightarrow> (nat \<Rightarrow> phase) \<Rightarrow> bool" where
  "within n rd ex st ph \<longleftrightarrow> (\<exists>m \<le> n. \<exists>st'. nw_rounds m (nw_of st ex) = Inr (nw_of st' ex) \<and> net_in rd ph st')"

lemma within_round: "nw_round (nw_of st ex) = Inr (nw_of st' ex) \<Longrightarrow> net_in rd ph st' \<Longrightarrow> within 1 rd ex st ph"
  unfolding within_def by (rule exI [of _ 1]) auto

lemma within_mono: "within m rd ex st ph \<Longrightarrow> m \<le> n \<Longrightarrow> within n rd ex st ph"
  unfolding within_def by (meson order_trans)

lemma within_trans:
  assumes "within m rd ex st ph" and "\<And>st'. net_in rd ph st' \<Longrightarrow> within n rd ex st' ph'"
  shows "within (m + n) rd ex st ph'"
proof -
  obtain k st1 where k: "k \<le> m" "nw_rounds k (nw_of st ex) = Inr (nw_of st1 ex)" "net_in rd ph st1"
    using assms(1) by (auto simp: within_def)
  obtain j st2 where j: "j \<le> n" "nw_rounds j (nw_of st1 ex) = Inr (nw_of st2 ex)" "net_in rd ph' st2"
    using assms(2) [OF k(3)] by (auto simp: within_def)
  show ?thesis
    unfolding within_def using k j by (intro exI [of _ "k + j"] conjI exI [of _ st2]) (simp_all add: nw_rounds_add)
qed

lemma next_at_link: "next_phase \<circ> at_link l p = at_link l (next_phase p)"
  by (simp add: fun_eq_iff)

lemma within_next:
  assumes "tells_apart rd" and "net_in rd (at_link l p) st" and "\<And>dg. p \<noteq> Arrived 0 dg"
  shows "within 1 rd ex st (at_link l (next_phase p))"
proof -
  have "(at_link l p) l' \<noteq> Arrived 0 dg" for l' dg using assms(3) by simp
  from quiet_router_round [OF assms(1,2) this] obtain st' where
    "nw_round (nw_of st ex) = Inr (nw_of st' ex)" "net_in rd (next_phase \<circ> at_link l p) st'"
    by blast
  then show ?thesis unfolding next_at_link by (rule within_round)
qed

text \<open>A datagram crosses a link in at most three rounds.\<close>

lemma crosses_link:
  assumes apart: "tells_apart rd"
  shows "net_in rd (at_link l (Carry p q dg)) st \<Longrightarrow> within 1 rd ex st (at_link l (Arrived q dg))"
    and "net_in rd (at_link l (Answer p q dg)) st \<Longrightarrow> within 2 rd ex st (at_link l (Arrived q dg))"
    and "net_in rd (at_link l (Ask p q dg)) st \<Longrightarrow> within 3 rd ex st (at_link l (Arrived q dg))"
proof -
  have carry: "within 1 rd ex st (at_link l (Arrived q dg))" if "net_in rd (at_link l (Carry p q dg)) st" for st
    using within_next [OF apart that, of ex] by simp
  have answer: "within (1 + 1) rd ex st (at_link l (Arrived q dg))" if a: "net_in rd (at_link l (Answer p q dg)) st" for st
    using within_next [OF apart a, of ex] by (intro within_trans [OF _ carry]) simp_all
  have ask: "within (1 + (1 + 1)) rd ex st (at_link l (Arrived q dg))" if a: "net_in rd (at_link l (Ask p q dg)) st"
    using within_next [OF apart a, of ex] by (intro within_trans [OF _ answer]) simp_all
  show "net_in rd (at_link l (Carry p q dg)) st \<Longrightarrow> within 1 rd ex st (at_link l (Arrived q dg))" by (rule carry)
  show "net_in rd (at_link l (Answer p q dg)) st \<Longrightarrow> within 2 rd ex st (at_link l (Arrived q dg))"
    using answer by (simp add: numeral_2_eq_2)
  show "net_in rd (at_link l (Ask p q dg)) st \<Longrightarrow> within 3 rd ex st (at_link l (Arrived q dg))"
    using ask by (simp add: numeral_3_eq_3)
qed

lemma reaches_router:
  assumes "tells_apart rd" and "net_in rd (at_link l p) st" and "p = Ask i 0 dg \<or> p = Carry i 0 dg"
  shows "within 3 rd ex st (at_link l (Arrived 0 dg))"
  using assms(3)
proof
  assume "p = Ask i 0 dg"
  then show ?thesis using crosses_link(3) [OF assms(1)] assms(2) by blast
next
  assume "p = Carry i 0 dg"
  then have "within 1 rd ex st (at_link l (Arrived 0 dg))" using crosses_link(1) [OF assms(1)] assms(2) by blast
  then show ?thesis by (rule within_mono) simp
qed

text \<open>Where the table sends a datagram: to party \<open>q\<close> of link \<open>lt\<close>.\<close>

definition routed_to :: "uint32_t \<Rightarrow> nat \<Rightarrow> nat \<Rightarrow> bool" where
  "routed_to dst lt q \<longleftrightarrow> lt < 5 \<and> 0 < q \<and> q < link_size lt \<and>
     (\<exists>k h. rt_lookup dst sim_table = Some (k, link_if lt, h) \<and>
        (case h of Some a \<Rightarrow> addr_ipv4_numeric a | None \<Rightarrow> Inr dst) = Inr (link_ip lt q))"

lemma journey:
  assumes apart: "tells_apart rd" and net: "net_in rd (at_link ls p) st" and p: "p = Ask i 0 dg \<or> p = Carry i 0 dg" and ls: "ls < 5"
    and wf: "dg_wf dg" and ttl: "1 < unat (ip_ttl (dg_header dg))" and to: "routed_to (ip_dst (dg_header dg)) lt q"
  shows "within 6 rd ex st (at_link lt (Arrived q (ttl_less dg)))"
proof -
  have forward: "within (1 + 2) rd ex st (at_link lt (Arrived q (ttl_less dg)))"
    if net: "net_in rd (at_link ls (Arrived 0 dg)) st" for st
  proof -
    obtain k h where lt: "lt < 5" "0 < q" "q < link_size lt" and
      look: "rt_lookup (ip_dst (dg_header dg)) sim_table = Some (k, link_if lt, h)"
      "(case h of Some a \<Rightarrow> addr_ipv4_numeric a | None \<Rightarrow> Inr (ip_dst (dg_header dg))) = Inr (link_ip lt q)"
      using to by (auto simp: routed_to_def)
    obtain p' st' where r: "p' = Answer 0 q (ttl_less dg) \<or> p' = Arrived q (ttl_less dg)"
      "nw_round (nw_of st ex) = Inr (nw_of st' ex)" "net_in rd (at_link lt p') st'"
      using forward_round [OF apart net ls wf ttl lt look] by blast
    have one: "within 1 rd ex st (at_link lt p')" by (rule within_round [OF r(2,3)])
    from r(1) show ?thesis
    proof
      assume "p' = Answer 0 q (ttl_less dg)"
      then show ?thesis using within_trans [OF one, of 2] crosses_link(2) [OF apart] by blast
    next
      assume "p' = Arrived q (ttl_less dg)"
      then show ?thesis using one within_mono [OF one, of "1 + 2"] by simp
    qed
  qed
  show ?thesis
    using within_trans [OF reaches_router [OF apart net p] forward] by simp
qed

lemma dropped:
  assumes apart: "tells_apart rd" and net: "net_in rd (at_link ls p) st" and p: "p = Ask i 0 dg \<or> p = Carry i 0 dg" and ls: "ls < 5"
    and ttl: "unat (ip_ttl (dg_header dg)) \<le> 1"
  shows "within 6 rd ex st (\<lambda>_. Idle)"
proof -
  have "within 1 rd ex st (\<lambda>_. Idle)" if net: "net_in rd (at_link ls (Arrived 0 dg)) st" for st
    using drop_round [OF apart net ls ttl, of ex] within_round by blast
  from within_mono [OF within_trans [OF reaches_router [OF apart net p] this]] show ?thesis by simp
qed

text \<open>When nothing is on its way any more, the rounds that are left change nothing of this.\<close>

lemma rounds_stable:
  assumes "tells_apart rd" and "next_phase \<circ> ph = ph" and "\<And>l dg. ph l \<noteq> Arrived 0 dg" and "net_in rd ph st"
  shows "\<exists>st'. nw_rounds n (nw_of st ex) = Inr (nw_of st' ex) \<and> net_in rd ph st'"
  using assms(4)
proof (induction n arbitrary: st)
  case (Suc n)
  obtain st1 where st1: "nw_round (nw_of st ex) = Inr (nw_of st1 ex)" "net_in rd (next_phase \<circ> ph) st1"
    using quiet_router_round [OF assms(1) Suc.prems assms(3)] by blast
  show ?case using Suc.IH [of st1] st1 assms(2) by simp
qed auto

lemma rounds_end:
  assumes "tells_apart rd" and "next_phase \<circ> ph = ph" and "\<And>l dg. ph l \<noteq> Arrived 0 dg" and "within m rd ex st ph" and "m \<le> n"
  obtains st' where "nw_rounds n (nw_of st ex) = Inr (nw_of st' ex)" and "net_in rd ph st'"
proof -
  obtain k st1 where k: "k \<le> m" "nw_rounds k (nw_of st ex) = Inr (nw_of st1 ex)" "net_in rd ph st1"
    using assms(4) by (auto simp: within_def)
  obtain st' where st': "nw_rounds (n - k) (nw_of st1 ex) = Inr (nw_of st' ex)" "net_in rd ph st'"
    using rounds_stable [OF assms(1-3) k(3)] by blast
  have "nw_rounds n (nw_of st ex) = nw_rounds (k + (n - k)) (nw_of st ex)" using k(1) assms(5) by simp
  then show thesis using that k(2) st' by (simp add: nw_rounds_add)
qed

section \<open>The tests\<close>

lemma routes:
  "routed_to (quad 192 168 0 2) 2 1" "routed_to (quad 10 0 0 2) 1 1" "routed_to (quad 1 2 3 4) 0 1"
  "routed_to (quad 143 195 131 17) 3 1" "routed_to (quad 143 195 193 52) 3 1" "routed_to (quad 143 195 223 255) 3 1"
  "routed_to (quad 143 195 224 0) 0 1" "routed_to (quad 198 178 229 43) 4 2"
  by (simp_all add: routed_to_def rt_lookup_def sim_table_def rt_match_def quad_def link_if_def link_ip_def sim_links_def)

lemma length_dec_string: "n < 10 ^ Suc k \<Longrightarrow> length (dec_string n) \<le> Suc k"
proof (induction k arbitrary: n)
  case 0
  then show ?case by (simp add: dec_string.simps [of n])
next
  case (Suc k)
  then have "n div 10 < 10 ^ Suc k" by simp
  then show ?case using Suc.IH [of "n div 10"] by (subst dec_string.simps) simp
qed

lemma small_dgram_wf:
  fixes src dst :: uint32_t and ttl :: uint8_t
  assumes "bl_size payload \<le> 1000"
  defines "hdr \<equiv> IPv4Header_new\<lparr>ip_src := src, ip_dst := dst\<rparr>"
  shows "dg_wf \<lparr>dg_header = hdr\<lparr>ip_len := of_nat (unat (ip_hlen hdr) * 4 + bl_size payload), ip_ttl := ttl\<rparr>, dg_payload = payload\<rparr>"
proof -
  have hlen: "ip_hlen hdr = 5" "ip_ver hdr = 4" "ip_offset hdr = 0"
    by (simp_all add: hdr_def IPv4Header_new_def IPv4Header_LENGTH_def)
  have len: "unat (of_nat (20 + length (bl_bytes payload)) :: uint16_t) = 20 + length (bl_bytes payload)"
    using assms(1) by (simp add: unsigned_of_nat take_bit_nat_eq_self del: of_nat_add)
  then show ?thesis unfolding dg_wf_def ip_wf_def using hlen by (simp del: of_nat_add)
qed

text \<open>A host that sends.\<close>

lemma sends:
  assumes libc: "reads_names lc" and apart: "tells_apart rd" and net: "net_in rd (\<lambda>_. Idle) st"
    and h: "(name, l, i, link_ip l 0) \<in> set sim_hosts"
  obtains dg p st' where "nw_send_to lc rnd name (Inr (socket_address n 0)) ttl (nw_of st ex) = Inr (dg, nw_of st' ex)"
    and "net_in rd (at_link l p) st'" and "p = Ask i 0 dg \<or> p = Carry i 0 dg"
    and "dg_wf dg" and "ip_dst (dg_header dg) = n" and "ip_ttl (dg_header dg) = ttl"
proof -
  note b = sim_hosts_bounds [OF h]
  let ?payload = "bl_of_string (char_bytes (''random payload: {'' @ dec_string (unat rnd) @ ''}''))"
  let ?len = "length (char_bytes (''random payload: {'' @ dec_string (unat rnd) @ ''}''))"
  let ?hdr = "IPv4Header_new\<lparr>ip_src := link_ip l i, ip_dst := n\<rparr>"
  let ?dg = "\<lparr>dg_header = ?hdr\<lparr>ip_len := of_nat (unat (ip_hlen ?hdr) * 4 + bl_size ?payload), ip_ttl := ttl\<rparr>, dg_payload = ?payload\<rparr>"
  have "unat rnd < 10 ^ Suc 9" using unsigned_less [of rnd, where 'a = nat] by simp
  from length_dec_string [OF this] have "?len \<le> 28" by (simp add: char_bytes_def)
  then have wf: "dg_wf ?dg" by (intro small_dgram_wf) simp
  have parties: "link_parties (link_size l) (link_mac rd l) (link_ip l) flat_frame" using b apart by (intro sim_link_parties) simp_all
  have here: "on_link (link_size l) (link_mac rd l) (link_ip l) Idle (st l)" using net b by (auto simp: net_in_def)
  have "0 < link_size l" "i \<noteq> 0" "i < link_size l" using b by simp_all
  then obtain ni p where s: "ni_send_datagram ?dg (socket_address (link_ip l 0) 0) (an_interface (st l i)) = Inr ni"
    "p = Ask i 0 ?dg \<or> p = Carry i 0 ?dg"
    "on_link (link_size l) (link_mac rd l) (link_ip l) p ((st l)(i := (st l i)\<lparr>an_interface := ni\<rparr>))"
    by (rule_tac link_parties.send_on_link [OF parties here _ _ _ wf alike_refl, of i 0 "socket_address (link_ip l 0) 0"]) simp_all
  obtain str where "lc_getnameinfo lc (sockaddr_in (link_ip l 0) 0 @ replicate 112 0) 16 = (0, str, dec_string 0)"
    using libc by (auto simp: reads_names_def)
  then have name: "addr_ip (lc_getnameinfo lc) (socket_address (link_ip l 0) 0) = Inr str"
    using stoi_dec_string [of 0] by (simp add: addr_ip_def addr_ip_port_def socket_address_def)
  have host: "nw_host name (nw_of st ex) = Inr (host_of st ex (name, l, i, link_ip l 0))" using nw_host_of [OF h] by simp
  let ?st = "st(l := (st l)(i := (st l i)\<lparr>an_interface := ni\<rparr>))"
  have sent: "nw_send_to lc rnd name (Inr (socket_address n 0)) ttl (nw_of st ex) = Inr (?dg, nw_of ?st ex)"
    unfolding nw_send_to_def host nw_hosts_update(1) [OF h, where st = st and ex = ex, symmetric]
    using s(1) name by (simp add: ho_send_to_def host_of_def Let_def)
  have "net_in rd (at_link l p) ?st" using net s(3) b by (auto simp: net_in_def)
  from that [OF sent this s(2) wf] show thesis by simp
qed

text \<open>The end of \<^verbatim>\<open>simulate\<close>: every host has what it expects.\<close>

lemma check_all_map:
  assumes "\<And>h. h \<in> set hs \<Longrightarrow> ho_check lc (f h) = Inr (g h)"
  shows "nw_check_all lc (map (\<lambda>h. (fst h, f h)) hs) = Inr (map (\<lambda>h. (fst h, g h)) hs)"
  using assms by (induction hs) simp_all

definition as_expected :: "phase \<Rightarrow> nat \<Rightarrow> InternetDatagram list \<Rightarrow> bool" where
  "as_expected ph i expected \<longleftrightarrow> (\<forall>dg \<in> set expected. dg_ok dg) \<and>
     (\<forall>ds. party_queue ph i ds \<longrightarrow> (\<forall>dg \<in> set ds. dg_ok dg) \<and> mset (map dg_bytes ds) = mset (map dg_bytes expected))"

lemma check_host:
  assumes "(name, l, i, hop) \<in> set sim_hosts" and "party_queue ph i (an_datagrams_out (st l i))" and "as_expected ph i (ex name)"
  shows "ho_check lc (host_of st ex (name, l, i, hop)) =
    Inr (host_of (\<lambda>l i. (st l i)\<lparr>an_datagrams_out := []\<rparr>) (\<lambda>_. []) (name, l, i, hop))"
proof -
  have "\<forall>d \<in> set (an_datagrams_out (st l i)). dg_ok d" "\<forall>d \<in> set (ex name). dg_ok d"
    "mset (map dg_bytes (an_datagrams_out (st l i))) = mset (map dg_bytes (ex name))"
    using assms(2,3) unfolding as_expected_def by blast+
  then show ?thesis
    using ho_check_loop_eq [of "an_datagrams_out (st l i)" "host_of st ex (name, l, i, hop)" lc]
    by (cases "an_datagrams_out (st l i) = []") (simp_all add: ho_check_def host_of_def)
qed

lemma simulate_ok:
  assumes apart: "tells_apart rd" and still: "next_phase \<circ> ph = ph" "\<And>l dg. ph l \<noteq> Arrived 0 dg"
    and w: "within m rd ex st ph" "m \<le> 256"
    and expected: "\<And>name l i hop. (name, l, i, hop) \<in> set sim_hosts \<Longrightarrow> as_expected (ph l) i (ex name)"
  obtains st' where "nw_simulate lc (nw_of st ex) = Inr (nw_of st' (\<lambda>_. []))" and "net_in rd (\<lambda>_. Idle) st'"
proof -
  obtain st1 where st1: "nw_rounds 256 (nw_of st ex) = Inr (nw_of st1 ex)" "net_in rd ph st1"
    by (rule rounds_end [OF apart still w])
  let ?st = "\<lambda>l i. (st1 l i)\<lparr>an_datagrams_out := []\<rparr>"
  have p: "party (link_size l) (link_mac rd l) (link_ip l) (ph l) i (st1 l i)" if "l < 7" "i < link_size l" for l i
    using st1(2) that by (simp add: net_in_def on_link_def)
  have "ho_check lc (host_of st1 ex h) = Inr (host_of ?st (\<lambda>_. []) h)" if m: "h \<in> set sim_hosts" for h
  proof -
    obtain name l i hop where h: "h = (name, l, i, hop)" by (cases h) auto
    note b = sim_hosts_bounds [OF m [unfolded h]]
    then have "party_queue (ph l) i (an_datagrams_out (st1 l i))" using p [of l i] by (simp add: party_def)
    from check_host [where st = st1 and ex = ex and l = l and name = name and ph = "ph l", OF m [unfolded h] this expected [OF m [unfolded h]]] show ?thesis unfolding h .
  qed
  from check_all_map [OF this] have check: "nw_check_all lc (nw_hosts (nw_of st1 ex)) = Inr (nw_hosts (nw_of ?st (\<lambda>_. [])))"
    by (simp add: nw_of_def)
  have "(st1 l 0)\<lparr>an_datagrams_out := []\<rparr> = st1 l 0" if "l < 7" for l
    using router_queue [OF st1(2) that still(2)] by (cases "st1 l 0") simp
  then have "router_of ?st = router_of st1" by (simp add: router_of_def)
  then have "(nw_of st1 ex)\<lparr>nw_hosts := nw_hosts (nw_of ?st (\<lambda>_. []))\<rparr> = nw_of ?st (\<lambda>_. [])" by (simp add: nw_of_def)
  then have "nw_simulate lc (nw_of st ex) = Inr (nw_of ?st (\<lambda>_. []))"
    unfolding nw_simulate_def st1(1) bindE_Inr check by simp
  moreover have "net_in rd (\<lambda>_. Idle) ?st"
    unfolding net_in_def on_link_def
  proof (intro conjI allI impI)
    fix l i
    assume "l < 7" "i < link_size l"
    from p [OF this] have q: "party (link_size l) (link_mac rd l) (link_ip l) (ph l) i (st1 l i)" .
    have "ph l = Idle \<or> (\<exists>q dg. ph l = Arrived q dg)" using fun_cong [OF still(1), of l] by (cases "ph l") simp_all
    then show "party (link_size l) (link_mac rd l) (link_ip l) Idle i (?st l i)"
      using q by (auto simp: party_def)
  qed simp_all
  ultimately show thesis by (rule that)
qed

lemma as_expected_nothing: "(\<And>ds. party_queue ph i ds \<Longrightarrow> ds = []) \<Longrightarrow> as_expected ph i []"
  by (fastforce simp: as_expected_def)

text \<open>One test: the datagram arrives at the host it is meant for, and nothing else does.\<close>

lemma test_ok:
  assumes libc: "reads_names lc" and apart: "tells_apart rd" and net: "net_in rd (\<lambda>_. Idle) st"
    and h: "(name, l, i, link_ip l 0) \<in> set sim_hosts" and r: "(receiver, lt, q, hop) \<in> set sim_hosts"
    and dest: "dest = Inr (socket_address n 0)" and to: "routed_to n lt q"
  shows "\<exists>st'. nw_test lc rnd name dest receiver (nw_of st (\<lambda>_. [])) = Inr (nw_of st' (\<lambda>_. [])) \<and> net_in rd (\<lambda>_. Idle) st'"
proof -
  let ?ex = "\<lambda>_. [] :: InternetDatagram list"
  obtain dg p st1 where s: "nw_send_to lc rnd name (Inr (socket_address n 0)) 64 (nw_of st ?ex) = Inr (dg, nw_of st1 ?ex)"
    "net_in rd (at_link l p) st1" "p = Ask i 0 dg \<or> p = Carry i 0 dg" "dg_wf dg" "ip_dst (dg_header dg) = n" "ip_ttl (dg_header dg) = 64"
    by (rule sends [OF libc apart net h])
  let ?e = "ttl_less dg" let ?ex1 = "?ex(receiver := [?e])" and ?ph = "at_link lt (Arrived q (ttl_less dg))"
  have l: "l < 5" and b: "lt < 5" "0 < q" using sim_hosts_bounds [OF h] sim_hosts_bounds [OF r] by simp_all
  have ok: "dg_ok ?e" by (rule wf_bytes [OF ttl_less_wf [OF s(4)]])
  have "1 < unat (ip_ttl (dg_header dg))" using s(6) by simp
  then have w: "within 6 rd ?ex1 st1 ?ph" using journey [OF apart s(2,3) l s(4)] to s(5) by simp
  have six: "6 \<le> (256 :: nat)" by simp
  have still: "next_phase \<circ> ?ph = ?ph" "\<And>l dg. ?ph l \<noteq> Arrived 0 dg" using b(2) by (auto simp: fun_eq_iff)
  have expected: "as_expected (?ph l') i' (?ex1 name')" if h': "(name', l', i', hop') \<in> set sim_hosts" for name' l' i' hop'
  proof (cases "name' = receiver")
    case True
    then have place: "l' = lt" "i' = q" using sim_hosts_places [OF h' r] by simp_all
    have "(\<forall>dg \<in> set ds. dg_ok dg) \<and> mset (map dg_bytes ds) = mset (map dg_bytes [?e])" if arrived: "party_queue (?ph l') i' ds" for ds
    proof -
      obtain d where d: "ds = [d]" "alike ?e d" using arrived place by (auto dest: arrives_alike)
      have "dg_bytes d = dg_bytes ?e" by (rule alike_bytes [OF d(2)])
      then show ?thesis using ok unfolding dg_ok_def d(1) by simp
    qed
    then show ?thesis unfolding as_expected_def using True ok by auto
  next
    case False
    then have "\<not> (l' = lt \<and> i' = q)" using sim_hosts_places [OF h' r] by auto
    then have none: "ds = []" if "party_queue (?ph l') i' ds" for ds using that by (cases "l' = lt") simp_all
    have "as_expected (?ph l') i' []" by (rule as_expected_nothing [OF none])
    then show ?thesis using False by simp
  qed
  obtain st' where "nw_simulate lc (nw_of st1 ?ex1) = Inr (nw_of st' ?ex)" "net_in rd (\<lambda>_. Idle) st'"
    by (rule simulate_ok [where lc = lc, OF apart still w six expected])
  moreover have "nw_host receiver (nw_of st1 ?ex) = Inr (host_of st1 ?ex (receiver, lt, q, hop))" using nw_host_of [OF r] by simp
  moreover have "nw_set_host receiver (ho_expect ?e (host_of st1 ?ex (receiver, lt, q, hop))) (nw_of st1 ?ex) = nw_of st1 ?ex1"
    using nw_hosts_update(2) [OF r, where ex = ?ex] by simp
  ultimately show ?thesis using s(1) by (auto simp: nw_test_def dest)
qed

text \<open>A datagram whose time to live is too short does not get past the router.\<close>

lemma test_ttl_ok:
  assumes libc: "reads_names lc" and apart: "tells_apart rd" and net: "net_in rd (\<lambda>_. Idle) st" and ttl: "unat ttl \<le> 1"
  shows "\<exists>st'. nw_test_ttl lc rnd ttl (nw_of st (\<lambda>_. [])) = Inr (nw_of st' (\<lambda>_. [])) \<and> net_in rd (\<lambda>_. Idle) st'"
proof -
  have h: "(''applesauce'', 1, 1, link_ip 1 0) \<in> set sim_hosts" by (simp add: sim_hosts_def link_ip_def sim_links_def)
  have dest: "Address_of_ip (lc_getaddrinfo lc) ''1.2.3.4'' 0 = Inr (socket_address (quad 1 2 3 4) 0)"
    by (rule Address_of_name [OF libc]) simp
  let ?ex = "\<lambda>_. [] :: InternetDatagram list"
  obtain dg p st1 where s: "nw_send_to lc rnd ''applesauce'' (Inr (socket_address (quad 1 2 3 4) 0)) ttl (nw_of st ?ex) = Inr (dg, nw_of st1 ?ex)"
    "net_in rd (at_link 1 p) st1" "p = Ask 1 0 dg \<or> p = Carry 1 0 dg" "ip_ttl (dg_header dg) = ttl"
    by (rule sends [OF libc apart net h])
  have w: "within 6 rd ?ex st1 (\<lambda>_. Idle)" using ttl s(4) by (intro dropped [OF apart s(2,3)]) simp_all
  obtain st' where "nw_simulate lc (nw_of st1 ?ex) = Inr (nw_of st' ?ex)" "net_in rd (\<lambda>_. Idle) st'"
    by (rule simulate_ok [OF apart _ _ w]) (simp_all add: fun_eq_iff as_expected_def)
  then show ?thesis using s(1) by (auto simp: nw_test_ttl_def dest)
qed

section \<open>The run of the program\<close>

text \<open>Before the first test nothing is on its way.\<close>

lemma initial_idle: "net_in rd (\<lambda>_. Idle) (initial_state rd)"
proof -
  have "party (link_size l) (link_mac rd l) (link_ip l) Idle i (initial_state rd l i)" for l i
    by (simp add: party_def party_ok_def initial_state_def AsyncNetworkInterface_new_def ni_inv_new [OF mac_shape(1) addr_ipv4_numeric_socket])
      (simp add: NetworkInterface_new_def ni_cached_def)
  then show ?thesis by (simp add: net_in_def on_link_def)
qed

lemma host_address_of:
  assumes "(name, l, i, hop) \<in> set sim_hosts"
  shows "host_address name (nw_of st ex) = Inr (socket_address (link_ip l i) 0)"
  using nw_host_of [OF assms] by (simp add: host_address_def host_of_def)

lemma the_hosts:
  "(''applesauce'', 1, 1, link_ip 1 0) \<in> set sim_hosts" "(''cherrypie'', 2, 1, link_ip 2 0) \<in> set sim_hosts"
  "(''dm42'', 4, 1, link_ip 4 0) \<in> set sim_hosts" "(''dm43'', 4, 2, link_ip 4 0) \<in> set sim_hosts"
  "(''default_router'', 0, 1, 0) \<in> set sim_hosts" "(''hs_router'', 3, 1, 0) \<in> set sim_hosts"
  by (simp_all add: sim_hosts_def link_ip_def sim_links_def)

lemma the_addresses:
  "link_ip 1 1 = quad 10 0 0 2" "link_ip 2 1 = quad 192 168 0 2" "link_ip 4 2 = quad 198 178 229 43"
  by (simp_all add: link_ip_def sim_links_def)

text \<open>A test from the state that the tests before it have left.\<close>

definition passes :: "(nat \<Rightarrow> nat \<Rightarrow> uint8_t) \<Rightarrow> exn + Network \<Rightarrow> bool" where
  "passes rd r \<longleftrightarrow> (\<exists>st. r = Inr (nw_of st (\<lambda>_. [])) \<and> net_in rd (\<lambda>_. Idle) st)"

lemma passes_bind: "passes rd r \<Longrightarrow> (\<And>st. net_in rd (\<lambda>_. Idle) st \<Longrightarrow> passes rd (f (nw_of st (\<lambda>_. [])))) \<Longrightarrow> passes rd (bindE r f)"
  by (auto simp: passes_def)

lemma passes_test:
  assumes "reads_names lc" and "tells_apart rd" and "(name, l, i, link_ip l 0) \<in> set sim_hosts" and "(receiver, lt, q, hop) \<in> set sim_hosts"
    and "dest = Inr (socket_address n 0)" and "routed_to n lt q" and "net_in rd (\<lambda>_. Idle) st"
  shows "passes rd (nw_test lc r name dest receiver (nw_of st (\<lambda>_. [])))"
  unfolding passes_def by (rule test_ok [OF assms(1,2,7,3-6)])

lemma simulator_passes:
  assumes libc: "reads_names lc" and apart: "tells_apart rd"
  shows "passes rd (network_simulator lc rd rnd)"
proof -
  note test = passes_test [OF libc apart]
  note a = the_hosts(1) and c = the_hosts(2) and m = the_hosts(3)
  note host = host_address_of [OF the_hosts(1), unfolded the_addresses] host_address_of [OF the_hosts(2), unfolded the_addresses]
    host_address_of [OF the_hosts(4), unfolded the_addresses]
  note addr = Address_of_name [OF libc]
  have new: "passes rd (Network_new (lc_getaddrinfo lc) rd)"
    unfolding passes_def Network_new_eq [OF libc] using initial_idle by blast
  have ttl: "passes rd (nw_test_ttl lc r t (nw_of st (\<lambda>_. [])))" if "net_in rd (\<lambda>_. Idle) st" "unat t \<le> 1" for r t st
    unfolding passes_def by (rule test_ttl_ok [OF libc apart that])
  show ?thesis
    unfolding network_simulator_def Let_def
    apply (rule passes_bind [OF new])
    apply (rule passes_bind [OF test [OF a the_hosts(2) host(2) routes(1)]], assumption)
    apply (rule passes_bind [OF test [OF c the_hosts(1) host(1) routes(2)]], assumption)
    apply (rule passes_bind [OF test [OF a the_hosts(5) addr routes(3)]], simp, assumption)
    apply (rule passes_bind [OF test [OF a the_hosts(6) addr routes(4)]], simp, assumption)
    apply (rule passes_bind [OF test [OF c the_hosts(6) addr routes(5)]], simp, assumption)
    apply (rule passes_bind [OF test [OF c the_hosts(6) addr routes(6)]], simp, assumption)
    apply (rule passes_bind [OF test [OF c the_hosts(5) addr routes(7)]], simp, assumption)
    apply (rule passes_bind [OF test [OF m the_hosts(4) host(3) routes(8)]], assumption)
    apply (rule passes_bind [OF ttl], assumption, simp)
    apply (rule ttl, assumption, simp)
    done
qed

text \<open>A C library that does.\<close>

definition sim_libc :: libc where
  "sim_libc = example_libc\<lparr>lc_getaddrinfo := (\<lambda>node service hints.
     case map_of sim_names node of Some n \<Rightarrow> (0, Some (sockaddr_in n 0, 16)) | None \<Rightarrow> (-2, None))\<rparr>"

lemma sim_libc_reads: "reads_names sim_libc"
proof -
  have "distinct (map fst sim_names)" by (simp add: sim_names_def)
  then have "map_of sim_names str = Some n" if "(str, n) \<in> set sim_names" for str n using that by (rule map_of_is_SomeI)
  moreover have "lc_getnameinfo sim_libc (sockaddr_in n 0 @ replicate 112 0) 16 = (0, inet_ntoa (htobe32 n), dec_string 0)" for n
    by (simp add: sim_libc_def example_libc_def sockaddr_in_def htobe32_def join_bytes_def)
  ultimately show ?thesis unfolding reads_names_def reads_def by (auto simp: sim_libc_def)
qed

text \<open>C4: The network simulator finds no fault: if the C library reads the addresses in the program and the draws tell the three
  parties of \<open>uun3\<close> apart, then all its tests succeed, whatever the random payloads are. At the end no host expects a datagram
  any more, none has received one that it has not checked, and no interface has a frame left to send.\<close>

theorem all_datagrams_routed:
  assumes "reads_names lc" and "tells_apart rd"
  shows "\<exists>nw. network_simulator lc rd rnd = Inr nw \<and> map fst (nw_hosts nw) = map fst sim_hosts \<and>
    (\<forall>(name, h) \<in> set (nw_hosts nw). ho_expecting_to_receive h = [] \<and> ho_received h = [] \<and> an_frames_out (ho_interface h) = []) \<and>
    (\<forall>an \<in> set (rt_interfaces (nw_router nw)). an_datagrams_out an = [] \<and> an_frames_out an = [])"
proof -
  obtain st where st: "network_simulator lc rd rnd = Inr (nw_of st (\<lambda>_. []))" "net_in rd (\<lambda>_. Idle) st"
    using simulator_passes [OF assms] by (auto simp: passes_def)
  have empty: "an_datagrams_out (st l i) = [] \<and> an_frames_out (st l i) = []" if "l < 7" "i < link_size l" for l i
  proof -
    have "party (link_size l) (link_mac rd l) (link_ip l) Idle i (st l i)" using st(2) that by (simp add: net_in_def on_link_def)
    then show ?thesis by (simp add: party_def)
  qed
  have "ho_expecting_to_receive h = [] \<and> ho_received h = [] \<and> an_frames_out (ho_interface h) = []"
    if m: "(name, h) \<in> set (nw_hosts (nw_of st (\<lambda>_. [])))" for name h
  proof -
    obtain l i hop where x: "(name, l, i, hop) \<in> set sim_hosts" "h = host_of st (\<lambda>_. []) (name, l, i, hop)"
      using m by (auto simp: nw_of_def)
    show ?thesis using empty [of l i] sim_hosts_bounds [OF x(1)] by (simp add: x(2) host_of_def)
  qed
  moreover have "an_datagrams_out an = [] \<and> an_frames_out an = []"
    if "an \<in> set (rt_interfaces (nw_router (nw_of st (\<lambda>_. []))))" for an
    using that by (auto simp: nw_of_def router_of_def empty)
  moreover have "map fst (nw_hosts (nw_of st (\<lambda>_. []))) = map fst sim_hosts" by (simp add: nw_of_def)
  ultimately show ?thesis using st(1) by blast
qed

theorem all_datagrams_routed_witness:
  "\<exists>nw. network_simulator sim_libc (\<lambda>d _. of_nat d) (\<lambda>_. 7) = Inr nw"
proof -
  have "tells_apart (\<lambda>d _. of_nat d)"
    by (simp add: tells_apart_def link_mac_def sim_links_def random_router_ethernet_address_def random_host_ethernet_address_def Let_def upt_rec)
  from all_datagrams_routed [OF sim_libc_reads this] show ?thesis by blast
qed

end
