(* ===== verification/Internet_Chat.thy ===== *)
theory Internet_Chat
  imports Network_Simulator Sponge_Socket
begin

text \<open>
  \<^verbatim>\<open>apps/lab7.cc\<close>: a TCP socket whose adapter gives Ethernet frames to a router of the same process, which talks to the router of
  another process over UDP; and \<^verbatim>\<open>apps/bouncer.cc\<close>, the server that relays the UDP datagrams between the two. The functions
  that draw Ethernet addresses are those of the network simulator. Trace output is left out, and so is the start of the threads.
\<close>

section \<open>The adapter\<close>

record NetworkInterfaceAdapter =
  na_base :: FdAdapterBase
  na_interface :: NetworkInterface
  na_next_hop :: Address

text \<open>What is written to the socket pair is returned, as a list of datagrams; what is read from it is an argument.\<close>

fun na_send_loop :: "EthernetFrame list \<Rightarrow> BufferList list" where
  "na_send_loop [] = []"
| "na_send_loop (frame # frames) = ef_serialize frame # na_send_loop frames"

definition na_send_pending :: "NetworkInterfaceAdapter \<Rightarrow> BufferList list \<times> NetworkInterfaceAdapter" where
  "na_send_pending na =
     (na_send_loop (ni_frames_out (na_interface na)),
      na\<lparr>na_interface := (na_interface na)\<lparr>ni_frames_out := []\<rparr>\<rparr>)"

definition NetworkInterfaceAdapter_new ::
  "libc \<Rightarrow> (nat \<Rightarrow> uint8_t) \<Rightarrow> Address \<Rightarrow> Address \<Rightarrow> exn + NetworkInterfaceAdapter" where
  "NetworkInterfaceAdapter_new lc rd ip_address next_hop =
     bindE (FdAdapterConfig_new lc) (\<lambda>cfg.
       Inr \<lparr>na_base = \<lparr>fa_cfg = cfg, fa_listen = False\<rparr>,
            na_interface = NetworkInterface_new (random_host_ethernet_address rd) ip_address, na_next_hop = next_hop\<rparr>)"

definition na_read ::
  "libc \<Rightarrow> bytes \<Rightarrow> NetworkInterfaceAdapter \<Rightarrow> exn + TCPSegment option \<times> BufferList list \<times> NetworkInterfaceAdapter" where
  "na_read lc data na =
     (let (result, frame) = ef_parse (buf_of_string data) EthernetFrame_new
      in if result \<noteq> NoError then Inr (None, [], na)
         else
           bindE (ni_recv_frame frame (na_interface na)) (\<lambda>(ip_dgram, ni).
           let (out, na1) = na_send_pending (na\<lparr>na_interface := ni\<rparr>)
           in case ip_dgram of
                Some dgram \<Rightarrow>
                  bindE (fa_unwrap_tcp_in_ip lc dgram (na_base na1)) (\<lambda>(seg, base). Inr (seg, out, na1\<lparr>na_base := base\<rparr>))
              | None \<Rightarrow> Inr (None, out, na1)))"

definition na_write ::
  "libc \<Rightarrow> TCPSegment \<Rightarrow> NetworkInterfaceAdapter \<Rightarrow> exn + BufferList list \<times> NetworkInterfaceAdapter" where
  "na_write lc seg na =
     bindE (fa_wrap_tcp_in_ip lc seg (na_base na)) (\<lambda>dgram.
     bindE (ni_send_datagram dgram (na_next_hop na) (na_interface na)) (\<lambda>ni.
       Inr (na_send_pending (na\<lparr>na_interface := ni\<rparr>))))"

definition na_tick :: "size_t \<Rightarrow> NetworkInterfaceAdapter \<Rightarrow> BufferList list \<times> NetworkInterfaceAdapter" where
  "na_tick ms_since_last_tick na =
     na_send_pending (na\<lparr>na_interface := ni_tick ms_since_last_tick (na_interface na)\<rparr>)"

section \<open>The socket\<close>

record ('a, 'o) TCPSocketLab7 =
  l7_socket :: "('a, 'o) TCPSpongeSocket"
  l7_local_address :: Address

text \<open>\<open>port\<close> and \<open>random\<close> come from the random device, for the local port and for the sender.\<close>

definition l7_connect ::
  "libc \<Rightarrow> ('a, 'o) AdaptT \<Rightarrow> 'o system \<Rightarrow> nat \<Rightarrow> uint16_t \<Rightarrow> WrappingInt32 \<Rightarrow> Address \<Rightarrow> ('a, 'o) TCPSocketLab7 \<Rightarrow>
   (exn + ('a, 'o) TCPSpongeSocket Rule list \<times> ('a, 'o) TCPSocketLab7) option" where
  "l7_connect lc ao sys fuel port random address s =
     (case bindE (FdAdapterConfig_new lc) (\<lambda>multiplexer_config.
           bindE (addr_ip (lc_getnameinfo lc) (l7_local_address s)) (\<lambda>ip.
           bindE (Address_of_ip (lc_getaddrinfo lc) ip port) (\<lambda>local.
           bindE (addr_to_string (lc_getnameinfo lc) local) (\<lambda>_.
             Inr (local, multiplexer_config\<lparr>fc_source := local, fc_destination := address\<rparr>))))) of
        Inl e \<Rightarrow> Some (Inl e)
      | Inr (local, multiplexer_config) \<Rightarrow>
          map_option (\<lambda>r. bindE r (\<lambda>(rules, sock). Inr (rules, \<lparr>l7_socket = sock, l7_local_address = local\<rparr>)))
            (so_connect ao sys fuel TCPConfig_default random multiplexer_config (l7_socket s)))"

definition l7_bind :: "libc \<Rightarrow> Address \<Rightarrow> ('a, 'o) TCPSocketLab7 \<Rightarrow> exn + ('a, 'o) TCPSocketLab7" where
  "l7_bind lc address s =
     bindE (addr_ip (lc_getnameinfo lc) address) (\<lambda>ip.
     bindE (addr_ip (lc_getnameinfo lc) (l7_local_address s)) (\<lambda>local_ip.
     if ip \<noteq> local_ip
     then bindE (addr_to_string (lc_getnameinfo lc) address) (\<lambda>str. Inl (Runtime_error (''Cannot bind to '' @ str)))
     else bindE (addr_port (lc_getnameinfo lc) address) (\<lambda>port.
          bindE (Address_of_ip (lc_getaddrinfo lc) local_ip port) (\<lambda>a. Inr (s\<lparr>l7_local_address := a\<rparr>)))))"

definition l7_listen_and_accept ::
  "libc \<Rightarrow> ('a, 'o) AdaptT \<Rightarrow> 'o system \<Rightarrow> nat \<Rightarrow> WrappingInt32 \<Rightarrow> ('a, 'o) TCPSocketLab7 \<Rightarrow>
   (exn + ('a, 'o) TCPSpongeSocket Rule list \<times> ('a, 'o) TCPSocketLab7) option" where
  "l7_listen_and_accept lc ao sys fuel random s =
     (case FdAdapterConfig_new lc of
        Inl e \<Rightarrow> Some (Inl e)
      | Inr multiplexer_config \<Rightarrow>
          map_option (\<lambda>r. bindE r (\<lambda>(rules, sock). Inr (rules, s\<lparr>l7_socket := sock\<rparr>)))
            (so_listen_and_accept ao sys fuel TCPConfig_default random
               (multiplexer_config\<lparr>fc_source := l7_local_address s\<rparr>) (l7_socket s)))"

section \<open>The router of the process\<close>

text \<open>The numbers of the two interfaces and the router, of the client and of the server.\<close>

definition chat_router :: "getaddrinfo \<Rightarrow> (nat \<Rightarrow> nat \<Rightarrow> uint8_t) \<Rightarrow> bool \<Rightarrow> exn + size_t \<times> size_t \<times> Router" where
  "chat_router gai rd is_client =
     (if is_client then
        bindE (nw_add_interface gai (rd 0) ''192.168.0.1'' Router_new) (\<lambda>(host_side, rt).
        bindE (nw_add_interface gai (rd 1) ''10.0.0.192'' rt) (\<lambda>(internet_side, rt).
        bindE (nw_add_route gai ''192.168.0.0'' 16 None host_side rt) (\<lambda>rt.
        bindE (nw_add_route gai ''10.0.0.0'' 8 None internet_side rt) (\<lambda>rt.
        bindE (Address_of_ip gai ''10.0.0.172'' 0) (\<lambda>hop.
        bindE (nw_add_route gai ''172.16.0.0'' 12 (Some hop) internet_side rt) (\<lambda>rt.
          Inr (host_side, internet_side, rt)))))))
      else
        bindE (nw_add_interface gai (rd 0) ''172.16.0.1'' Router_new) (\<lambda>(host_side, rt).
        bindE (nw_add_interface gai (rd 1) ''10.0.0.172'' rt) (\<lambda>(internet_side, rt).
        bindE (nw_add_route gai ''172.16.0.0'' 12 None host_side rt) (\<lambda>rt.
        bindE (nw_add_route gai ''10.0.0.0'' 8 None internet_side rt) (\<lambda>rt.
        bindE (Address_of_ip gai ''10.0.0.192'' 0) (\<lambda>hop.
        bindE (nw_add_route gai ''192.168.0.0'' 16 (Some hop) internet_side rt) (\<lambda>rt.
          Inr (host_side, internet_side, rt))))))))"

definition chat_adapter :: "libc \<Rightarrow> (nat \<Rightarrow> uint8_t) \<Rightarrow> bool \<Rightarrow> exn + NetworkInterfaceAdapter" where
  "chat_adapter lc rd is_client =
     bindE (Address_of_ip (lc_getaddrinfo lc) (if is_client then ''192.168.0.50'' else ''172.16.0.100'') 0) (\<lambda>ip_address.
     bindE (Address_of_ip (lc_getaddrinfo lc) (if is_client then ''192.168.0.1'' else ''172.16.0.1'') 0) (\<lambda>next_hop.
       NetworkInterfaceAdapter_new lc rd ip_address next_hop))"

text \<open>What the rules that read do with a frame for interface \<open>i\<close>, and which frame the rules that write take from it.\<close>

definition chat_recv_frame :: "size_t \<Rightarrow> bytes \<Rightarrow> Router \<Rightarrow> exn + Router" where
  "chat_recv_frame i data rt =
     (let (result, frame) = ef_parse (buf_of_string data) EthernetFrame_new
      in if result \<noteq> NoError then Inr rt
         else bindE (rt_interface i rt) (\<lambda>an.
              bindE (an_recv_frame frame an) (\<lambda>an1. rt_route (rt\<lparr>rt_interfaces := (rt_interfaces rt)[i := an1]\<rparr>))))"

definition chat_front_frame :: "size_t \<Rightarrow> Router \<Rightarrow> exn + BufferList \<times> Router" where
  "chat_front_frame i rt =
     bindE (rt_interface i rt) (\<lambda>an.
       Inr (ef_serialize (hd (an_frames_out an)),
            rt\<lparr>rt_interfaces := (rt_interfaces rt)[i := an\<lparr>an_interface := (an_interface an)\<lparr>ni_frames_out := tl (an_frames_out an)\<rparr>\<rparr>]\<rparr>))"

definition chat_has_frame :: "size_t \<Rightarrow> Router \<Rightarrow> bool" where
  "chat_has_frame i rt \<longleftrightarrow> an_frames_out (rt_interfaces rt ! i) \<noteq> []"

definition chat_tick :: "size_t \<Rightarrow> size_t \<Rightarrow> Router \<Rightarrow> exn + Router" where
  "chat_tick i ms rt =
     bindE (rt_interface i rt) (\<lambda>an.
       Inr (rt\<lparr>rt_interfaces := (rt_interfaces rt)[i := an\<lparr>an_interface := ni_tick ms (an_interface an)\<rparr>]\<rparr>))"

subsection \<open>The network thread\<close>

text \<open>The system calls on the router's end of the socket pair and on the UDP socket, and the flag that ends the thread.\<close>

record 'o chat_system =
  ct_read_frames :: "'o sys_read"
  ct_write_frames :: "'o sys_writev"
  ct_read_internet :: "'o sys_read"
  ct_sendmsg :: "Address \<Rightarrow> bytes \<Rightarrow> 'o \<Rightarrow> (int \<times> int) \<times> 'o"
  ct_poll :: "'o sys_poll"
  ct_exit_flag :: "'o \<Rightarrow> bool"

record 'o chat_net =
  cn_router :: Router
  cn_host_side :: size_t
  cn_internet_side :: size_t
  cn_frame_fd :: FDWrapper
  cn_internet_socket :: FDWrapper
  cn_bounce_address :: Address
  cn_os :: 'o

definition size_t_max :: size_t where
  "size_t_max = 2 ^ 64 - 1"

definition cn_host_to_router :: "'o chat_system \<Rightarrow> 'o chat_net \<Rightarrow> exn + 'o chat_net" where
  "cn_host_to_router sys s =
     bindE (fd_read (ct_read_frames sys) size_t_max (cn_frame_fd s) (cn_os s)) (\<lambda>(data, fd, os).
     bindE (chat_recv_frame (cn_host_side s) data (cn_router s)) (\<lambda>rt.
       Inr (s\<lparr>cn_router := rt, cn_frame_fd := fd, cn_os := os\<rparr>)))"

definition cn_router_to_host :: "'o chat_system \<Rightarrow> 'o chat_net \<Rightarrow> exn + 'o chat_net" where
  "cn_router_to_host sys s =
     bindE (chat_front_frame (cn_host_side s) (cn_router s)) (\<lambda>(frame, rt).
     bindE (fd_write (ct_write_frames sys) (bvl_of_bufferlist frame) True (cn_frame_fd s) (cn_os s)) (\<lambda>(_, fd, os).
       Inr (s\<lparr>cn_router := rt, cn_frame_fd := fd, cn_os := os\<rparr>)))"

definition cn_router_to_internet :: "'o chat_system \<Rightarrow> 'o chat_net \<Rightarrow> exn + 'o chat_net" where
  "cn_router_to_internet sys s =
     bindE (chat_front_frame (cn_internet_side s) (cn_router s)) (\<lambda>(frame, rt).
     let (call, os) = ct_sendmsg sys (cn_bounce_address s) (bl_concatenate frame) (cn_os s)
     in bindE (sk_sendto call (bvl_of_bufferlist frame) (cn_internet_socket s)) (\<lambda>fd.
          Inr (s\<lparr>cn_router := rt, cn_internet_socket := fd, cn_os := os\<rparr>)))"

definition cn_internet_to_router :: "'o chat_system \<Rightarrow> 'o chat_net \<Rightarrow> exn + 'o chat_net" where
  "cn_internet_to_router sys s =
     bindE (fd_read (ct_read_internet sys) size_t_max (cn_internet_socket s) (cn_os s)) (\<lambda>(data, fd, os).
     bindE (chat_recv_frame (cn_internet_side s) data (cn_router s)) (\<lambda>rt.
       Inr (s\<lparr>cn_router := rt, cn_internet_socket := fd, cn_os := os\<rparr>)))"

definition cn_rules :: "'o chat_system \<Rightarrow> 'o chat_net Rule list" where
  "cn_rules sys =
     el_add_rule cn_internet_socket In (cn_internet_to_router sys) (\<lambda>_. True) Inr
       (el_add_rule cn_internet_socket Out (cn_router_to_internet sys) (\<lambda>s. chat_has_frame (cn_internet_side s) (cn_router s)) Inr
         (el_add_rule cn_frame_fd Out (cn_router_to_host sys) (\<lambda>s. chat_has_frame (cn_host_side s) (cn_router s)) Inr
           (el_add_rule cn_frame_fd In (cn_host_to_router sys) (\<lambda>_. True) Inr [])))"

definition cn_poll :: "'o chat_system \<Rightarrow> 'o chat_net sys_poll" where
  "cn_poll sys pollfds timeout_ms s =
     (let (result, os) = ct_poll sys pollfds timeout_ms (cn_os s) in (result, s\<lparr>cn_os := os\<rparr>))"

definition cn_tick :: "'o chat_net \<Rightarrow> exn + 'o chat_net" where
  "cn_tick s =
     bindE (chat_tick (cn_host_side s) 50 (cn_router s)) (\<lambda>rt.
     bindE (chat_tick (cn_internet_side s) 50 rt) (\<lambda>rt1. Inr (s\<lparr>cn_router := rt1\<rparr>)))"

text \<open>The loop of the thread, for at most \<open>fuel\<close> rounds; \<open>None\<close> is a loop that has not ended by then.\<close>

fun cn_loop :: "'o chat_system \<Rightarrow> nat \<Rightarrow> 'o chat_net Rule list \<Rightarrow> 'o chat_net \<Rightarrow> (exn + 'o chat_net) option" where
  "cn_loop sys 0 rules s = None"
| "cn_loop sys (Suc fuel) rules s =
     (case el_wait_next_event (cn_poll sys) 50 rules s of
        Inl e \<Rightarrow> Some (Inl e)
      | Inr (ret, rules1, s1) \<Rightarrow>
          if ret = Exit then Some (Inr s1)
          else (case cn_tick s1 of
                  Inl e \<Rightarrow> Some (Inl e)
                | Inr s2 \<Rightarrow> if ct_exit_flag sys (cn_os s2) then Some (Inr s2) else cn_loop sys fuel rules1 s2))"

section \<open>The bouncer\<close>

text \<open>
  What the rule of a socket does with a datagram: the address that it knows for its own peer, and what the socket of the
  other side sends, if anything.
\<close>

definition bo_relay :: "received_datagram \<Rightarrow> Address option \<Rightarrow> Address option \<Rightarrow> Address option \<times> (Address \<times> bytes) option" where
  "bo_relay rec x_peer y_peer =
     (if x_peer = None \<or> addr_not_equal (the x_peer) (rd_source_address rec) then Some (rd_source_address rec) else x_peer,
      if y_peer \<noteq> None \<and> rd_payload rec \<noteq> [] then Some (the y_peer, rd_payload rec) else None)"

record bounce_pair =
  bo_x :: FDWrapper
  bo_y :: FDWrapper
  bo_x_peer :: "Address option"
  bo_y_peer :: "Address option"

text \<open>The rules of the sockets \<open>x\<close> and \<open>y\<close>, given what \<open>recvfrom\<close> returns and what \<open>sendmsg\<close> will return.\<close>

definition bo_rule_x ::
  "(int \<times> int) \<times> bytes \<times> bytes \<times> size_t \<Rightarrow> (Address \<Rightarrow> bytes \<Rightarrow> int \<times> int) \<Rightarrow> bounce_pair \<Rightarrow> exn + bounce_pair" where
  "bo_rule_x sys_recvfrom sys_sendmsg s =
     bindE (sk_recv 65536 sys_recvfrom (bo_x s)) (\<lambda>(rec, x).
       let (x_peer, out) = bo_relay rec (bo_x_peer s) (bo_y_peer s);
           s1 = s\<lparr>bo_x := x, bo_x_peer := x_peer\<rparr>
       in case out of
            None \<Rightarrow> Inr s1
          | Some (address, payload) \<Rightarrow>
              bindE (sk_sendto (sys_sendmsg address payload) (bvl_of_string payload) (bo_y s1)) (\<lambda>y. Inr (s1\<lparr>bo_y := y\<rparr>)))"

definition bo_rule_y ::
  "(int \<times> int) \<times> bytes \<times> bytes \<times> size_t \<Rightarrow> (Address \<Rightarrow> bytes \<Rightarrow> int \<times> int) \<Rightarrow> bounce_pair \<Rightarrow> exn + bounce_pair" where
  "bo_rule_y sys_recvfrom sys_sendmsg s =
     bindE (sk_recv 65536 sys_recvfrom (bo_y s)) (\<lambda>(rec, y).
       let (y_peer, out) = bo_relay rec (bo_y_peer s) (bo_x_peer s);
           s1 = s\<lparr>bo_y := y, bo_y_peer := y_peer\<rparr>
       in case out of
            None \<Rightarrow> Inr s1
          | Some (address, payload) \<Rightarrow>
              bindE (sk_sendto (sys_sendmsg address payload) (bvl_of_string payload) (bo_x s1)) (\<lambda>x. Inr (s1\<lparr>bo_x := x\<rparr>)))"

text \<open>The ports of the sockets \<open>x\<close>; that of \<open>y\<close> is one more.\<close>

function bo_ports :: "uint16_t \<Rightarrow> uint16_t list" where
  "bo_ports lower_port = (if lower_port \<le> 64000 then lower_port # bo_ports (lower_port + 2) else [])"
  by auto
termination
proof (relation "measure (\<lambda>p. 65536 - unat p)")
  fix p :: uint16_t
  assume "p \<le> 64000"
  then have "unat p \<le> 64000" by (simp add: word_le_nat_alt)
  then have "unat (p + 2) = unat p + 2" by (simp add: unat_word_ariths)
  then show "(p + 2, p) \<in> measure (\<lambda>p. 65536 - unat p)" using \<open>unat p \<le> 64000\<close> by simp
qed simp

declare bo_ports.simps [simp del]

text \<open>
  The rules refer to the elements of two vectors with room for 66000 elements each. Two elements per port are never more than
  that, so that no element is ever moved.
\<close>

lemma length_bo_ports: "2 * length (bo_ports p) \<le> 64002 - unat p"
proof (induction p rule: bo_ports.induct)
  case (1 p)
  show ?case
  proof (cases "p \<le> 64000")
    case True
    then have p: "unat p \<le> 64000" by (simp add: word_le_nat_alt)
    then have "unat (p + 2) = unat p + 2" by (simp add: unat_word_ariths)
    then show ?thesis using 1 [OF True] p by (subst bo_ports.simps) (simp add: True)
  qed (simp add: bo_ports.simps [of p])
qed

lemma bouncer_sockets_fit: "2 * length (bo_ports 1024) \<le> 66000"
  using length_bo_ports [of 1024] by simp

end
