(* ===== verification/Wired_Link.thy ===== *)
theory Wired_Link
  imports Simulated_Setup
begin

text \<open>
  A link between two interfaces whose frames travel as strings, in pipes or datagrams, and can be under way: what
  \<open>Ethernet_Link\<close> says of a link whose frames move in one step holds of it, one frame at a time.
\<close>

section \<open>A link with frames in flight\<close>

text \<open>
  Two parties whose frames travel as strings: what has left a party's interface and has not been read is a list of
  serialized frames. Put back in front of what is still queued, it makes the link one of those of \<open>Ethernet_Link\<close>.
\<close>

definition enc :: "EthernetFrame \<Rightarrow> bytes" where
  "enc f = bl_concatenate (ef_serialize f)"

definition with_frames :: "EthernetFrame list \<Rightarrow> AsyncNetworkInterface \<Rightarrow> AsyncNetworkInterface" where
  "with_frames fs an = an\<lparr>an_interface := (an_interface an)\<lparr>ni_frames_out := fs @ an_frames_out an\<rparr>\<rparr>"

lemma with_frames_Nil [simp]: "with_frames [] an = an"
  by (simp add: with_frames_def)

lemma with_frames_out [simp]:
  "an_frames_out (with_frames fs an) = fs @ an_frames_out an" "an_datagrams_out (with_frames fs an) = an_datagrams_out an"
  by (simp_all add: with_frames_def)

definition wired ::
  "(nat \<Rightarrow> EthernetAddress) \<Rightarrow> (nat \<Rightarrow> uint32_t) \<Rightarrow> phase \<Rightarrow> (nat \<Rightarrow> AsyncNetworkInterface) \<Rightarrow> (nat \<Rightarrow> bytes list) \<Rightarrow> bool" where
  "wired mac ip ph f w \<longleftrightarrow>
     (\<exists>fs. (\<forall>i < 2. w i = map enc (fs i)) \<and> on_link 2 mac ip ph (\<lambda>i. with_frames (fs i) (f i)))"

text \<open>The party whose frame is on its way, and to whom.\<close>

fun speaker :: "phase \<Rightarrow> nat option" where
  "speaker (Ask p q dg) = Some p"
| "speaker (Answer p q dg) = Some q"
| "speaker (Carry p q dg) = Some p"
| "speaker _ = None"

lemma party_frames_speaker:
  "party_frames mac ip ph i fs \<Longrightarrow> length fs = (if speaker ph = Some i then 1 else 0)"
  by (cases ph) (auto split: if_splits)

lemma wired_frames:
  assumes "wired mac ip ph f w" and "i < 2"
  shows "length (w i) + length (an_frames_out (f i)) = (if speaker ph = Some i then 1 else 0)"
proof -
  obtain fs where fs: "w i = map enc (fs i)" "party 2 mac ip ph i (with_frames (fs i) (f i))"
    using assms by (auto simp: wired_def on_link_def)
  then have "party_frames mac ip ph i (fs i @ an_frames_out (f i))" by (simp add: party_def)
  from party_frames_speaker [OF this] fs(1) show ?thesis by simp
qed

lemma wired_queue:
  assumes "wired mac ip ph f w" and "i < 2" and "\<And>dg. ph \<noteq> Arrived i dg"
  shows "an_datagrams_out (f i) = []"
proof -
  have "party_queue ph i (an_datagrams_out (f i))" using assms(1,2) by (auto simp: wired_def on_link_def party_def)
  then show ?thesis using assms(3) by (cases ph) (auto split: if_splits)
qed

lemma wired_cong:
  assumes "\<And>i. i < 2 \<Longrightarrow> f i = g i" and "\<And>i. i < 2 \<Longrightarrow> w i = v i"
  shows "wired mac ip ph f w = wired mac ip ph g v"
  unfolding wired_def using assms by (simp add: on_link_def)

text \<open>A frame leaves an interface.\<close>

lemma wired_leaves:
  assumes w: "wired mac ip ph f w" and i: "i < 2" and g: "an_frames_out (f i) = g # gs"
  shows "wired mac ip ph (f(i := (f i)\<lparr>an_interface := (an_interface (f i))\<lparr>ni_frames_out := gs\<rparr>\<rparr>)) (w(i := w i @ [enc g]))"
proof -
  obtain fs where fs: "\<forall>i < 2. w i = map enc (fs i)" "on_link 2 mac ip ph (\<lambda>i. with_frames (fs i) (f i))"
    using w by (auto simp: wired_def)
  let ?fs = "fs(i := fs i @ [g])"
  have "(\<lambda>j. with_frames (?fs j) ((f(i := (f i)\<lparr>an_interface := (an_interface (f i))\<lparr>ni_frames_out := gs\<rparr>\<rparr>)) j)) =
      (\<lambda>j. with_frames (fs j) (f j))"
    using g by (auto simp: with_frames_def fun_eq_iff)
  then show ?thesis unfolding wired_def using fs by (intro exI [of _ ?fs]) auto
qed

locale wired_link = link_parties 2 mac ip on_wire for mac and ip
begin

text \<open>A frame is read.\<close>

lemma wired_read:
  assumes w: "wired mac ip ph f w" and s: "s < 2" "w s = d # ds"
  obtains g an where "d = enc g" and "ds = []" and "speaker ph = Some s"
    and "ef_parse (buf_of_string d) EthernetFrame_new = (NoError, on_wire g)"
    and "an_recv_frame (on_wire g) (f (1 - s)) = Inr an"
    and "wired mac ip (next_phase ph) (f(1 - s := an)) (w(s := []))"
proof -
  obtain fs where fs: "\<And>i. i < 2 \<Longrightarrow> w i = map enc (fs i)" "on_link 2 mac ip ph (\<lambda>i. with_frames (fs i) (f i))"
    using w by (auto simp: wired_def)
  have r: "1 - s < 2" "1 - s \<noteq> s" using s(1) by presburger+
  have sp: "speaker ph = Some s" "ds = []" "an_frames_out (f s) = []"
    using wired_frames [OF w s(1)] s(2) by (simp_all split: if_splits)
  have other: "w (1 - s) = []" "an_frames_out (f (1 - s)) = []"
    using wired_frames [OF w r(1)] sp(1) r(2) by (simp_all split: if_splits)
  then have fr: "fs (1 - s) = []" using fs(1) [OF r(1)] by simp
  obtain g where g: "fs s = [g]" "d = enc g" using fs(1) [OF s(1)] s(2) sp(2) by auto
  have "party 2 mac ip ph s (with_frames (fs s) (f s))" using fs(2) s(1) by (simp add: on_link_def)
  then have frames: "party_frames mac ip ph s [g]" using g(1) sp(3) by (simp add: party_def)
  have "length (mac i) = 6" if "i < 2" for i using that by (rule mac_length)
  then have ok: "wire_ok g"
    using frames sp(1) fs(2) by (cases ph) (auto simp: carries_dgram_def on_link_def intro!: ni_arp_frame_ok)
  let ?v = "\<lambda>i. with_frames (fs i) (f i)"
  obtain f' where f': "moves_frames on_wire 2 ?v f'" "here (next_phase ph) f'"
    using phase_step [OF fs(2)] by blast
  obtain s' where s': "s' < 2" "\<forall>i < 2. i \<noteq> s' \<longrightarrow> an_frames_out (?v i) = []"
    "\<forall>i < 2. hears on_wire (an_frames_out (?v s')) s' i (?v i) (f' i)"
    using f'(1) unfolding moves_frames_def by blast
  have "an_frames_out (?v s) = [g]" using g(1) sp(3) by simp
  then have "s' = s" using s'(2) s(1) by fastforce
  with s'(3) r s(1) g(1) sp(3) fr have h: "hears on_wire [g] s s (?v s) (f' s)" "hears on_wire [g] s (1 - s) (f (1 - s)) (f' (1 - s))"
    by auto
  from h(1) have "f' s = f s" using g(1) sp(3) by (simp add: hears_def an_sent_def with_frames_def)
  moreover from h(2) r(2) have recv: "an_recv_frame (on_wire g) (f (1 - s)) = Inr (f' (1 - s))"
    by (auto simp: hears_def bindE_def split: sum.splits)
  ultimately have "(f(1 - s := f' (1 - s))) i = f' i" if "i < 2" for i
    using that s(1) by (cases "i = s") auto
  then have "wired mac ip (next_phase ph) (f(1 - s := f' (1 - s))) (w(s := []))"
    unfolding wired_def using f'(2) other(1) s(1) r
    by (intro exI [of _ "\<lambda>_. []"] conjI)
      (auto simp: less_2_cases_iff on_link_def)
  moreover have "ef_parse (buf_of_string d) EthernetFrame_new = (NoError, on_wire g)"
    unfolding g(2) enc_def by (rule on_wire_spec [OF ok])
  ultimately show thesis using that g(2) sp recv by blast
qed

text \<open>A datagram is given to the interface of \<open>p\<close>, for \<open>q\<close>.\<close>

lemma wired_send:
  assumes w: "wired mac ip Idle f w" and pq: "p < 2" "q < 2" "p \<noteq> q" and dg: "dg_wf dg" "alike dg dg'"
    and hop: "addr_ipv4_numeric hop = Inr (ip q)"
  obtains ni ph where "ni_send_datagram dg' hop (an_interface (f p)) = Inr ni"
    and "ph = Ask p q dg \<or> ph = Carry p q dg" and "wired mac ip ph (f(p := (f p)\<lparr>an_interface := ni\<rparr>)) w"
proof -
  obtain fs where fs: "\<And>i. i < 2 \<Longrightarrow> w i = map enc (fs i)" "here Idle (\<lambda>i. with_frames (fs i) (f i))"
    using w by (auto simp: wired_def)
  have "fs i = []" if "i < 2" for i using wired_frames [OF w that] fs(1) [OF that] by simp
  then have "here Idle f" using fs(2) by (simp add: on_link_def)
  then obtain ni ph where s: "ni_send_datagram dg' hop (an_interface (f p)) = Inr ni" "ph = Ask p q dg \<or> ph = Carry p q dg"
    "here ph (f(p := (f p)\<lparr>an_interface := ni\<rparr>))"
    by (rule send_on_link [OF _ pq dg hop])
  have "wired mac ip ph (f(p := (f p)\<lparr>an_interface := ni\<rparr>)) w"
    unfolding wired_def using s(3) fs(1) \<open>\<And>i. i < 2 \<Longrightarrow> fs i = []\<close> by (intro exI [of _ "\<lambda>_. []"]) (simp add: fun_upd_def)
  then show thesis using that s(1,2) by blast
qed

end

text \<open>A datagram has arrived, and is taken.\<close>

lemma wired_takes:
  assumes w: "wired mac ip (Arrived q dg) f w"
  obtains dg' where "an_datagrams_out (f q) = [dg']" and "arrives_as dg dg'" and "q < 2" and "dg_wf dg"
    and "wired mac ip Idle (f(q := (f q)\<lparr>an_datagrams_out := []\<rparr>)) w"
proof -
  obtain fs where fs: "\<And>i. i < 2 \<Longrightarrow> w i = map enc (fs i)" "on_link 2 mac ip (Arrived q dg) (\<lambda>i. with_frames (fs i) (f i))"
    using w by (auto simp: wired_def)
  then have q: "q < 2" "dg_wf dg" and p: "\<And>i. i < 2 \<Longrightarrow> party 2 mac ip (Arrived q dg) i (with_frames (fs i) (f i))"
    by (simp_all add: on_link_def)
  from p [OF q(1)] obtain dg' where dg': "an_datagrams_out (f q) = [dg']" "arrives_as dg dg'" by (auto simp: party_def)
  have "party 2 mac ip Idle i (with_frames (fs i) ((f(q := (f q)\<lparr>an_datagrams_out := []\<rparr>)) i))" if "i < 2" for i
    using p [OF that] by (cases "i = q") (simp_all add: party_def with_frames_def)
  then have "wired mac ip Idle (f(q := (f q)\<lparr>an_datagrams_out := []\<rparr>)) w"
    unfolding wired_def using fs(1) by (intro exI [of _ fs]) (simp add: on_link_def)
  then show thesis using that dg' q by blast
qed

end
