(* ===== verification/Chat_World.thy ===== *)
theory Chat_World
  imports Internet_Chat Wired_Link
begin

text \<open>
  The two processes of \<^verbatim>\<open>apps/lab7.cc\<close> and the bouncer of \<^verbatim>\<open>apps/bouncer.cc\<close> as one system: its state, everything that can
  happen in it, and the state of its three links (the two between a host and its router, and the one between the routers).
  Time stands still, and UDP loses nothing.
\<close>

section \<open>Two processes and the bouncer\<close>

text \<open>
  A process, the client or the server: the adapter of its socket, its router, what is in the socket pair between them in
  either direction, and what its connection has been given.
\<close>

record chat_end =
  ce_adapter :: NetworkInterfaceAdapter
  ce_router :: Router
  ce_host_side :: size_t
  ce_internet_side :: size_t
  ce_up :: "bytes list"
  ce_down :: "bytes list"
  ce_received :: "TCPSegment list"

text \<open>
  The processes (\<open>True\<close> is the client), what the bouncer knows of the addresses of their UDP sockets, and the UDP datagrams on
  their way to the bouncer and from it.
\<close>

record chat =
  ch_end :: "bool \<Rightarrow> chat_end"
  ch_peer :: "bool \<Rightarrow> Address option"
  ch_sent :: "bool \<Rightarrow> bytes list"
  ch_relayed :: "bool \<Rightarrow> bytes list"

definition set_end :: "bool \<Rightarrow> chat_end \<Rightarrow> chat \<Rightarrow> chat" where
  "set_end c e s = s\<lparr>ch_end := (ch_end s)(c := e)\<rparr>"

text \<open>Everything that can happen without the applications, in any order: a rule of a network thread, a read of an adapter, a relay.\<close>

datatype chat_event =
    Host_to_router bool
  | Router_to_host bool
  | Adapter_reads bool
  | Router_to_internet bool
  | Relay bool
  | Internet_to_router bool

text \<open>\<open>None\<close> is an event that cannot happen. \<open>home c\<close> is the address of the UDP socket of \<open>c\<close>. UDP loses nothing here.\<close>

fun chat_step :: "libc \<Rightarrow> (bool \<Rightarrow> Address) \<Rightarrow> chat_event \<Rightarrow> chat \<Rightarrow> (exn + chat) option" where
  "chat_step lc home (Host_to_router c) s =
     (let e = ch_end s c
      in case ce_up e of
           [] \<Rightarrow> None
         | d # ds \<Rightarrow> Some (bindE (chat_recv_frame (ce_host_side e) d (ce_router e)) (\<lambda>rt.
             Inr (set_end c (e\<lparr>ce_up := ds, ce_router := rt\<rparr>) s))))"
| "chat_step lc home (Router_to_host c) s =
     (let e = ch_end s c
      in if \<not> chat_has_frame (ce_host_side e) (ce_router e) then None
         else Some (bindE (chat_front_frame (ce_host_side e) (ce_router e)) (\<lambda>(frame, rt).
             Inr (set_end c (e\<lparr>ce_router := rt, ce_down := ce_down e @ [bl_concatenate frame]\<rparr>) s))))"
| "chat_step lc home (Adapter_reads c) s =
     (let e = ch_end s c
      in case ce_down e of
           [] \<Rightarrow> None
         | d # ds \<Rightarrow> Some (bindE (na_read lc d (ce_adapter e)) (\<lambda>(seg, out, na).
             Inr (set_end c (e\<lparr>ce_adapter := na, ce_down := ds, ce_up := ce_up e @ map bl_concatenate out,
                    ce_received := ce_received e @ (case seg of None \<Rightarrow> [] | Some x \<Rightarrow> [x])\<rparr>) s))))"
| "chat_step lc home (Router_to_internet c) s =
     (let e = ch_end s c
      in if \<not> chat_has_frame (ce_internet_side e) (ce_router e) then None
         else Some (bindE (chat_front_frame (ce_internet_side e) (ce_router e)) (\<lambda>(frame, rt).
             Inr ((set_end c (e\<lparr>ce_router := rt\<rparr>) s)\<lparr>ch_sent := (ch_sent s)(c := ch_sent s c @ [bl_concatenate frame])\<rparr>))))"
| "chat_step lc home (Relay c) s =
     (case ch_sent s c of
        [] \<Rightarrow> None
      | d # ds \<Rightarrow>
          let (peer, out) = bo_relay \<lparr>rd_source_address = home c, rd_payload = d\<rparr> (ch_peer s c) (ch_peer s (\<not> c));
              s1 = s\<lparr>ch_peer := (ch_peer s)(c := peer), ch_sent := (ch_sent s)(c := ds)\<rparr>
          in Some (Inr (case out of
               None \<Rightarrow> s1
             | Some (address, payload) \<Rightarrow>
                 if address = home (\<not> c) then s1\<lparr>ch_relayed := (ch_relayed s)(\<not> c := ch_relayed s (\<not> c) @ [payload])\<rparr>
                 else s1)))"
| "chat_step lc home (Internet_to_router c) s =
     (let e = ch_end s c
      in case ch_relayed s c of
           [] \<Rightarrow> None
         | d # ds \<Rightarrow> Some (bindE (chat_recv_frame (ce_internet_side e) d (ce_router e)) (\<lambda>rt.
             Inr ((set_end c (e\<lparr>ce_router := rt\<rparr>) s)\<lparr>ch_relayed := (ch_relayed s)(c := ds)\<rparr>))))"

text \<open>The connection of \<open>c\<close> gives its adapter a segment to send.\<close>

definition chat_write :: "libc \<Rightarrow> bool \<Rightarrow> TCPSegment \<Rightarrow> chat \<Rightarrow> exn + chat" where
  "chat_write lc c seg s =
     (let e = ch_end s c
      in bindE (na_write lc seg (ce_adapter e)) (\<lambda>(out, na).
           Inr (set_end c (e\<lparr>ce_adapter := na, ce_up := ce_up e @ map bl_concatenate out\<rparr>) s)))"

text \<open>
  Whatever happens, after at most \<open>n\<close> events nothing more can happen, nothing has thrown, and \<open>P\<close> holds then.
\<close>

fun settles :: "libc \<Rightarrow> (bool \<Rightarrow> Address) \<Rightarrow> nat \<Rightarrow> (chat \<Rightarrow> bool) \<Rightarrow> chat \<Rightarrow> bool" where
  "settles lc home 0 P s \<longleftrightarrow> (\<forall>e. chat_step lc home e s = None) \<and> P s"
| "settles lc home (Suc n) P s \<longleftrightarrow>
     (if \<forall>e. chat_step lc home e s = None then P s
      else \<forall>e. chat_step lc home e s \<noteq> None \<longrightarrow>
        (\<exists>s1. chat_step lc home e s = Some (Inr s1) \<and> settles lc home n P s1))"

text \<open>
  A conversation in which the sides take turns: segments are sent, by either side, each when all is quiet again. This is a restriction
  of what is looked at and not of the program, where the applications may write at any time; while an ARP request is pending
  an interface drops the datagrams that it is given then (\<open>Network_Interface\<close>), so a segment that is written before the one before it
  has settled may be lost.
\<close>

fun conversation :: "libc \<Rightarrow> (bool \<Rightarrow> Address) \<Rightarrow> nat \<Rightarrow> (bool \<times> TCPSegment) list \<Rightarrow> (chat \<Rightarrow> bool) \<Rightarrow> chat \<Rightarrow> bool" where
  "conversation lc home n [] P s \<longleftrightarrow> P s"
| "conversation lc home n ((c, seg) # segs) P s \<longleftrightarrow>
     (\<exists>s1. chat_write lc c seg s = Inr s1 \<and> settles lc home n (conversation lc home n segs P) s1)"

text \<open>
  The processes when they have set up their routers and their sockets, and the sockets have been configured for each other; the
  bouncer has seen the empty datagrams that both processes send it first.
\<close>

definition chat_end_new :: "libc \<Rightarrow> (nat \<Rightarrow> nat \<Rightarrow> uint8_t) \<Rightarrow> FdAdapterConfig \<Rightarrow> bool \<Rightarrow> exn + chat_end" where
  "chat_end_new lc rd cfg is_client =
     bindE (chat_router (lc_getaddrinfo lc) rd is_client) (\<lambda>(host_side, internet_side, rt).
     bindE (chat_adapter lc (rd 2) is_client) (\<lambda>na.
       Inr \<lparr>ce_adapter = na\<lparr>na_base := fa_set_config cfg (na_base na)\<rparr>, ce_router = rt, ce_host_side = host_side,
            ce_internet_side = internet_side, ce_up = [], ce_down = [], ce_received = []\<rparr>))"

definition chat_new ::
  "libc \<Rightarrow> (bool \<Rightarrow> nat \<Rightarrow> nat \<Rightarrow> uint8_t) \<Rightarrow> (bool \<Rightarrow> FdAdapterConfig) \<Rightarrow> (bool \<Rightarrow> Address) \<Rightarrow> exn + chat" where
  "chat_new lc rd cfg home =
     bindE (chat_end_new lc (rd True) (cfg True) True) (\<lambda>client.
     bindE (chat_end_new lc (rd False) (cfg False) False) (\<lambda>server.
       Inr \<lparr>ch_end = (\<lambda>c. if c then client else server), ch_peer = (\<lambda>c. fst (bo_relay \<lparr>rd_source_address = home c, rd_payload = []\<rparr> None None)),
            ch_sent = (\<lambda>_. []), ch_relayed = (\<lambda>_. [])\<rparr>))"

section \<open>Addresses\<close>

text \<open>The addresses on the links: the host's link of a process (0 is its router), and the link between the routers (0 is the client's).\<close>

definition hl_ip :: "bool \<Rightarrow> nat \<Rightarrow> uint32_t" where
  "hl_ip c i = (if c then (if i = 0 then quad 192 168 0 1 else quad 192 168 0 50)
                else (if i = 0 then quad 172 16 0 1 else quad 172 16 0 100))"

definition net_ip :: "nat \<Rightarrow> uint32_t" where
  "net_ip i = (if i = 0 then quad 10 0 0 192 else quad 10 0 0 172)"

definition hl_mac :: "(bool \<Rightarrow> nat \<Rightarrow> nat \<Rightarrow> uint8_t) \<Rightarrow> bool \<Rightarrow> nat \<Rightarrow> EthernetAddress" where
  "hl_mac rd c i = (if i = 0 then random_router_ethernet_address (rd c 0) else random_host_ethernet_address (rd c 2))"

definition net_mac :: "(bool \<Rightarrow> nat \<Rightarrow> nat \<Rightarrow> uint8_t) \<Rightarrow> nat \<Rightarrow> EthernetAddress" where
  "net_mac rd i = random_router_ethernet_address (rd (i = 0) 1)"

definition net_no :: "bool \<Rightarrow> nat" where
  "net_no c = (if c then 0 else 1)"

lemma net_no_simps [simp]:
  "net_no True = 0" "net_no False = 1" "net_no c < 2" "net_no c = 0 \<longleftrightarrow> c" "0 < net_no c \<longleftrightarrow> \<not> c" "0 = net_no c \<longleftrightarrow> c" "Suc 0 - net_no c = net_no (\<not> c)"
  "net_no c = net_no c' \<longleftrightarrow> c = c'"
  by (auto simp: net_no_def)

lemma net_no_cases: "i < 2 \<longleftrightarrow> (\<exists>c. i = net_no c)"
  by (auto simp: net_no_def less_2_cases_iff)

interpretation host_link: wired_link "hl_mac rd c" "hl_ip c" for rd c
proof
  fix i j k :: nat and f
  show "length (hl_mac rd c i) = 6" "hl_mac rd c i \<noteq> ETHERNET_BROADCAST" by (simp_all add: hl_mac_def random_mac)
  show "i = j" if "i < 2" "j < 2" "hl_ip c i = hl_ip c j"
    using that by (auto simp: hl_ip_def quad_def less_2_cases_iff split: if_splits)
  show "carried f (on_wire f)" if "wire_ok f" using that by (rule on_wire_carried)
qed auto

interpretation net_link: wired_link "net_mac rd" net_ip for rd
proof
  fix i j k :: nat and f
  show "length (net_mac rd i) = 6" "net_mac rd i \<noteq> ETHERNET_BROADCAST" by (simp_all add: net_mac_def random_mac)
  show "i = j" if "i < 2" "j < 2" "net_ip i = net_ip j"
    using that by (auto simp: net_ip_def quad_def less_2_cases_iff split: if_splits)
  show "carried f (on_wire f)" if "wire_ok f" using that by (rule on_wire_carried)
qed auto

section \<open>The state of the chat\<close>

definition chat_table :: "bool \<Rightarrow> (route_key \<times> route_value) list" where
  "chat_table c =
     (if c then [((16, quad 192 168 0 0), 0, None), ((12, quad 172 16 0 0), 1, Some (socket_address (quad 10 0 0 172) 0)),
                 ((8, quad 10 0 0 0), 1, None)]
      else [((16, quad 192 168 0 0), 1, Some (socket_address (quad 10 0 0 192) 0)), ((12, quad 172 16 0 0), 0, None),
            ((8, quad 10 0 0 0), 1, None)])"

definition end_ok :: "(bool \<Rightarrow> FdAdapterConfig) \<Rightarrow> bool \<Rightarrow> chat_end \<Rightarrow> bool" where
  "end_ok cfg c e \<longleftrightarrow>
     ce_host_side e = 0 \<and> ce_internet_side e = 1 \<and> length (rt_interfaces (ce_router e)) = 2 \<and>
     rt_forwarding_table (ce_router e) = chat_table c \<and> na_base (ce_adapter e) = \<lparr>fa_cfg = cfg c, fa_listen = False\<rparr> \<and>
     na_next_hop (ce_adapter e) = socket_address (hl_ip c 0) 0 \<and> ni_frames_out (na_interface (ce_adapter e)) = []"

text \<open>The parties of the links, and what is in flight between them.\<close>

definition hl_faces :: "chat_end \<Rightarrow> nat \<Rightarrow> AsyncNetworkInterface" where
  "hl_faces e i = (if i = 0 then rt_interfaces (ce_router e) ! 0 else AsyncNetworkInterface_new (na_interface (ce_adapter e)))"

definition hl_wires :: "chat_end \<Rightarrow> nat \<Rightarrow> bytes list" where
  "hl_wires e i = (if i = 0 then ce_down e else if i = 1 then ce_up e else [])"

definition net_faces :: "chat \<Rightarrow> nat \<Rightarrow> AsyncNetworkInterface" where
  "net_faces s i = rt_interfaces (ce_router (ch_end s (i = 0))) ! 1"

definition net_wires :: "chat \<Rightarrow> nat \<Rightarrow> bytes list" where
  "net_wires s i = ch_relayed s (i \<noteq> 0) @ ch_sent s (i = 0)"

text \<open>The phases of the links: \<open>Some c\<close> is the host's link of \<open>c\<close>, \<open>None\<close> the one between the routers.\<close>

definition chat_in ::
  "(bool \<Rightarrow> nat \<Rightarrow> nat \<Rightarrow> uint8_t) \<Rightarrow> (bool \<Rightarrow> Address) \<Rightarrow> (bool \<Rightarrow> FdAdapterConfig) \<Rightarrow> (bool option \<Rightarrow> phase) \<Rightarrow> chat \<Rightarrow> bool" where
  "chat_in rd home cfg ph s \<longleftrightarrow>
     (\<forall>c. end_ok cfg c (ch_end s c) \<and> ch_peer s c = Some (home c) \<and>
        wired (hl_mac rd c) (hl_ip c) (ph (Some c)) (hl_faces (ch_end s c)) (hl_wires (ch_end s c))) \<and>
     wired (net_mac rd) net_ip (ph None) (net_faces s) (net_wires s)"

lemma chat_inD:
  assumes "chat_in rd home cfg ph s"
  shows "end_ok cfg c (ch_end s c)" "ch_peer s c = Some (home c)"
    "wired (hl_mac rd c) (hl_ip c) (ph (Some c)) (hl_faces (ch_end s c)) (hl_wires (ch_end s c))"
    "wired (net_mac rd) net_ip (ph None) (net_faces s) (net_wires s)"
  using assms by (simp_all add: chat_in_def)

lemma set_end_simps [simp]:
  "ch_end (set_end c e s) = (ch_end s)(c := e)" "ch_peer (set_end c e s) = ch_peer s" "ch_sent (set_end c e s) = ch_sent s"
  "ch_relayed (set_end c e s) = ch_relayed s" "set_end c e (set_end c e' s) = set_end c e s"
  by (simp_all add: set_end_def)

lemma net_set_end:
  "net_wires (set_end c e s) = net_wires s"
  "i < 2 \<Longrightarrow> net_faces (set_end c e s) i = ((net_faces s)(net_no c := rt_interfaces (ce_router e) ! 1)) i"
  by (auto simp: net_wires_def net_faces_def fun_eq_iff net_no_cases)

lemma chat_in_set_end:
  assumes "chat_in rd home cfg ph s" and "end_ok cfg c e" and "wired (hl_mac rd c) (hl_ip c) p (hl_faces e) (hl_wires e)"
    and "wired (net_mac rd) net_ip p' ((net_faces s)(net_no c := rt_interfaces (ce_router e) ! 1)) (net_wires s)"
  shows "chat_in rd home cfg (ph(Some c := p, None := p')) (set_end c e s)"
proof -
  have "wired (net_mac rd) net_ip p' (net_faces (set_end c e s)) (net_wires (set_end c e s)) =
      wired (net_mac rd) net_ip p' ((net_faces s)(net_no c := rt_interfaces (ce_router e) ! 1)) (net_wires s)"
    by (rule wired_cong) (simp_all add: net_set_end del: fun_upd_apply)
  then have "wired (net_mac rd) net_ip p' (net_faces (set_end c e s)) (net_wires (set_end c e s))" using assms(4) by simp
  then show ?thesis using assms(1-3) by (simp add: chat_in_def)
qed

text \<open>Where the frame is that is on its way: the number of its moves that are left on the link.\<close>

definition sub :: "bool option \<Rightarrow> chat \<Rightarrow> nat" where
  "sub l s =
     (case l of
        Some c \<Rightarrow> length (ce_up (ch_end s c)) + length (ce_down (ch_end s c)) + 2 * length (an_frames_out (hl_faces (ch_end s c) 0))
      | None \<Rightarrow> (\<Sum>c \<in> {True, False}. length (ch_relayed s c) + 2 * length (ch_sent s c) +
                   3 * length (an_frames_out (net_faces s (net_no c)))))"

lemma hl_counts:
  assumes s: "chat_in rd home cfg ph s"
  shows "length (ce_down (ch_end s c)) + length (an_frames_out (hl_faces (ch_end s c) 0)) = (if speaker (ph (Some c)) = Some 0 then 1 else 0)"
    and "length (ce_up (ch_end s c)) = (if speaker (ph (Some c)) = Some 1 then 1 else 0)"
proof -
  have "0 < (2 :: nat)" "1 < (2 :: nat)" by simp_all
  note w = wired_frames [OF chat_inD(3) [OF s, of c] this(1)] wired_frames [OF chat_inD(3) [OF s, of c] this(2)]
  show "length (ce_down (ch_end s c)) + length (an_frames_out (hl_faces (ch_end s c) 0)) = (if speaker (ph (Some c)) = Some 0 then 1 else 0)"
    using w(1) by (simp add: hl_wires_def)
  have "an_frames_out (hl_faces (ch_end s c) 1) = []"
    using chat_inD(1) [OF s, of c] by (simp add: hl_faces_def AsyncNetworkInterface_new_def end_ok_def)
  then show "length (ce_up (ch_end s c)) = (if speaker (ph (Some c)) = Some 1 then 1 else 0)"
    using w(2) by (simp add: hl_wires_def)
qed

lemma net_counts:
  assumes "chat_in rd home cfg ph s"
  shows "length (ch_relayed s (\<not> c)) + length (ch_sent s c) + length (an_frames_out (net_faces s (net_no c))) =
    (if speaker (ph None) = Some (net_no c) then 1 else 0)"
  using wired_frames [OF chat_inD(4) [OF assms], of "net_no c"] by (simp add: net_wires_def)

lemma sub_bound:
  assumes "chat_in rd home cfg ph s"
  shows "sub l s \<le> 3"
proof (cases l)
  case None
  let ?n = "\<lambda>c. length (ch_relayed s (\<not> c)) + length (ch_sent s c) + length (an_frames_out (net_faces s (net_no c)))"
  have "?n True + ?n False \<le> 1" by (simp only: net_counts [OF assms]) auto
  then show ?thesis by (simp add: None sub_def)
next
  case (Some c)
  have "length (ce_down (ch_end s c)) + length (an_frames_out (hl_faces (ch_end s c) 0)) + length (ce_up (ch_end s c)) \<le> 1"
    by (simp only: hl_counts [OF assms]) auto
  then show ?thesis by (simp add: Some sub_def)
qed

end
