(* ===== verification/Chat_Moves.thy ===== *)
theory Chat_Moves
  imports Chat_World
begin

text \<open>
  What each event of the chat does: a frame moves one step further, or is read and makes its link go to its next phase, or
  brings a datagram that the router forwards to its next link or that the adapter takes a segment from.
\<close>

section \<open>Frames on their way\<close>

lemma rt_interface_2: "length (rt_interfaces rt) = 2 \<Longrightarrow> i < 2 \<Longrightarrow> rt_interface i rt = Inr (rt_interfaces rt ! i)"
  by (simp add: rt_interface_def)

abbreviation received :: "chat \<Rightarrow> bool \<Rightarrow> TCPSegment list" where
  "received s \<equiv> \<lambda>c. ce_received (ch_end s c)"

lemma router_to_host_move:
  assumes s: "chat_in rd home cfg ph s" and on: "chat_step lc home (Router_to_host c) s \<noteq> None"
  obtains s1 where "chat_step lc home (Router_to_host c) s = Some (Inr s1)" and "chat_in rd home cfg ph s1"
    and "sub (Some c) s1 < sub (Some c) s" and "received s1 = received s" and "speaker (ph (Some c)) = Some 0"
proof -
  let ?e = "ch_end s c"
  let ?an = "rt_interfaces (ce_router ?e) ! 0"
  note ok = chat_inD(1) [OF s, of c, unfolded end_ok_def]
  have "an_frames_out ?an \<noteq> []" using on ok by (auto simp: chat_has_frame_def Let_def split: if_splits)
  then obtain g gs where g: "an_frames_out ?an = g # gs" by (cases "an_frames_out ?an") auto
  let ?an1 = "?an\<lparr>an_interface := (an_interface ?an)\<lparr>ni_frames_out := gs\<rparr>\<rparr>"
  let ?rt = "(ce_router ?e)\<lparr>rt_interfaces := (rt_interfaces (ce_router ?e))[0 := ?an1]\<rparr>"
  let ?e1 = "?e\<lparr>ce_router := ?rt, ce_down := ce_down ?e @ [enc g]\<rparr>"
  have faces: "hl_faces ?e1 = (hl_faces ?e)(0 := ?an1)" "hl_wires ?e1 = (hl_wires ?e)(0 := hl_wires ?e 0 @ [enc g])"
    "hl_faces ?e 0 = ?an"
    using ok by (auto simp: hl_faces_def hl_wires_def fun_eq_iff)
  have step: "chat_step lc home (Router_to_host c) s = Some (Inr (set_end c ?e1 s))"
    using ok g by (simp add: Let_def chat_has_frame_def chat_front_frame_def rt_interface_2 enc_def)
  have "wired (hl_mac rd c) (hl_ip c) (ph (Some c)) (hl_faces ?e1) (hl_wires ?e1)"
    using wired_leaves [OF chat_inD(3) [OF s, of c], of 0 g gs] g unfolding faces by simp
  moreover have "end_ok cfg c ?e1" using ok by (simp add: end_ok_def)
  moreover have "(net_faces s)(net_no c := rt_interfaces (ce_router ?e1) ! 1) = net_faces s"
    by (auto simp: net_faces_def fun_eq_iff)
  ultimately have "chat_in rd home cfg (ph(Some c := ph (Some c), None := ph None)) (set_end c ?e1 s)"
    using chat_inD(4) [OF s] by (intro chat_in_set_end [OF s]) simp_all
  moreover have "ph(Some c := ph (Some c), None := ph None) = ph" by auto
  moreover have "sub (Some c) (set_end c ?e1 s) < sub (Some c) s"
    using g ok by (simp add: sub_def faces(3)) (simp add: hl_faces_def)
  moreover have "received (set_end c ?e1 s) = received s" by (auto simp: fun_eq_iff)
  moreover have "speaker (ph (Some c)) = Some 0"
    using hl_counts(1) [OF s, of c] g faces(3) by (auto split: if_splits)
  ultimately show thesis using that step by simp
qed

lemma router_to_internet_move:
  assumes s: "chat_in rd home cfg ph s" and on: "chat_step lc home (Router_to_internet c) s \<noteq> None"
  obtains s1 where "chat_step lc home (Router_to_internet c) s = Some (Inr s1)" and "chat_in rd home cfg ph s1"
    and "sub None s1 < sub None s" and "received s1 = received s" and "speaker (ph None) = Some (net_no c)"
proof -
  let ?e = "ch_end s c"
  let ?an = "rt_interfaces (ce_router ?e) ! 1"
  note ok = chat_inD(1) [OF s, of c, unfolded end_ok_def]
  have "an_frames_out ?an \<noteq> []" using on ok by (auto simp: chat_has_frame_def Let_def split: if_splits)
  then obtain g gs where g: "an_frames_out ?an = g # gs" by (cases "an_frames_out ?an") auto
  let ?an1 = "?an\<lparr>an_interface := (an_interface ?an)\<lparr>ni_frames_out := gs\<rparr>\<rparr>"
  let ?rt = "(ce_router ?e)\<lparr>rt_interfaces := (rt_interfaces (ce_router ?e))[1 := ?an1]\<rparr>"
  let ?s1 = "(set_end c (?e\<lparr>ce_router := ?rt\<rparr>) s)\<lparr>ch_sent := (ch_sent s)(c := ch_sent s c @ [enc g])\<rparr>"
  have step: "chat_step lc home (Router_to_internet c) s = Some (Inr ?s1)"
    using ok g by (simp add: Let_def chat_has_frame_def chat_front_frame_def rt_interface_2 enc_def)
  have len: "Suc 0 < length (rt_interfaces (ce_router ?e))" using ok by simp
  have face: "net_faces s (net_no c) = ?an" by (simp add: net_faces_def)
  have hl: "hl_faces (?e\<lparr>ce_router := ?rt\<rparr>) = hl_faces ?e" "hl_wires (?e\<lparr>ce_router := ?rt\<rparr>) = hl_wires ?e"
    by (auto simp: hl_faces_def hl_wires_def fun_eq_iff)
  have net: "net_faces ?s1 i = ((net_faces s)(net_no c := ?an1)) i"
    "net_wires ?s1 i = ((net_wires s)(net_no c := net_wires s (net_no c) @ [enc g])) i" if i: "i < 2" for i
  proof -
    obtain c' where c': "i = net_no c'" using i unfolding net_no_cases by blast
    show "net_faces ?s1 i = ((net_faces s)(net_no c := ?an1)) i" using len by (simp add: c' net_faces_def)
    show "net_wires ?s1 i = ((net_wires s)(net_no c := net_wires s (net_no c) @ [enc g])) i" by (simp add: c' net_wires_def)
  qed
  have "wired (net_mac rd) net_ip (ph None) ((net_faces s)(net_no c := ?an1)) ((net_wires s)(net_no c := net_wires s (net_no c) @ [enc g]))"
    using wired_leaves [OF chat_inD(4) [OF s], of "net_no c" g gs] g face by simp
  then have "wired (net_mac rd) net_ip (ph None) (net_faces ?s1) (net_wires ?s1)"
    using wired_cong [of "net_faces ?s1" _ "net_wires ?s1", OF net] by blast
  moreover have "end_ok cfg c (?e\<lparr>ce_router := ?rt\<rparr>)" using ok by (simp add: end_ok_def)
  ultimately have "chat_in rd home cfg ph ?s1" using s hl by (auto simp: chat_in_def)
  moreover have "sub None ?s1 < sub None s"
    using g ok by (cases c) (simp_all add: sub_def net_faces_def)
  moreover have "received ?s1 = received s" by (auto simp: fun_eq_iff)
  moreover have "speaker (ph None) = Some (net_no c)"
    using net_counts [OF s, of c] g face by (auto split: if_splits)
  ultimately show thesis using that step by simp
qed

lemma enc_not_empty: "enc g \<noteq> []"
  by (simp add: enc_def ef_serialize_def eth_serialize_eq bl_append_def)

lemma relay_move:
  assumes s: "chat_in rd home cfg ph s" and on: "chat_step lc home (Relay c) s \<noteq> None"
  obtains s1 where "chat_step lc home (Relay c) s = Some (Inr s1)" and "chat_in rd home cfg ph s1"
    and "sub None s1 < sub None s" and "received s1 = received s" and "speaker (ph None) = Some (net_no c)"
proof -
  obtain d ds where d: "ch_sent s c = d # ds" using on by (cases "ch_sent s c") auto
  obtain fs where "net_wires s (net_no c) = map enc fs" using chat_inD(4) [OF s] by (auto simp: wired_def)
  moreover have "d \<in> set (net_wires s (net_no c))" using d by (simp add: net_wires_def)
  ultimately have "d \<noteq> []" using enc_not_empty by auto
  let ?s1 = "s\<lparr>ch_peer := (ch_peer s)(c := Some (home c)), ch_sent := (ch_sent s)(c := ds),
    ch_relayed := (ch_relayed s)(\<not> c := ch_relayed s (\<not> c) @ [d])\<rparr>"
  have step: "chat_step lc home (Relay c) s = Some (Inr ?s1)"
    using d \<open>d \<noteq> []\<close> chat_inD(2) [OF s] by (simp add: bo_relay_def addr_not_equal_def addr_equal_def Let_def)
  have "net_wires ?s1 i = net_wires s i" if "i < 2" for i
    using that d by (auto simp: net_wires_def net_no_cases)
  moreover have "net_faces ?s1 = net_faces s" by (simp add: net_faces_def fun_eq_iff)
  ultimately have "wired (net_mac rd) net_ip (ph None) (net_faces ?s1) (net_wires ?s1)"
    using chat_inD(4) [OF s] wired_cong [of "net_faces s" "net_faces s" "net_wires ?s1" "net_wires s"] by simp
  then have "chat_in rd home cfg ph ?s1" using s by (simp add: chat_in_def)
  moreover have "sub None ?s1 < sub None s" using d by (cases c) (simp_all add: sub_def net_faces_def)
  moreover have "speaker (ph None) = Some (net_no c)" using net_counts [OF s, of c] d by (auto split: if_splits)
  ultimately show thesis using that step by simp
qed

section \<open>Frames that are read\<close>

definition chat_route :: "bool \<Rightarrow> chat \<Rightarrow> exn + chat" where
  "chat_route c s = bindE (rt_route (ce_router (ch_end s c))) (\<lambda>rt. Inr (set_end c ((ch_end s c)\<lparr>ce_router := rt\<rparr>) s))"

lemma host_to_router_read:
  assumes s: "chat_in rd home cfg ph s" and on: "chat_step lc home (Host_to_router c) s \<noteq> None"
  obtains s1 where "chat_step lc home (Host_to_router c) s = Some (chat_route c s1)"
    and "chat_in rd home cfg (ph(Some c := next_phase (ph (Some c)))) s1"
    and "received s1 = received s" and "speaker (ph (Some c)) = Some 1"
proof -
  let ?e = "ch_end s c"
  note ok = chat_inD(1) [OF s, of c, unfolded end_ok_def]
  obtain d ds where d: "ce_up ?e = d # ds" using on by (cases "ce_up ?e") (auto simp: Let_def)
  have "(1 :: nat) < 2" "hl_wires ?e 1 = d # ds" using d by (simp_all add: hl_wires_def)
  from host_link.wired_read [OF chat_inD(3) [OF s, of c] this] obtain g an where r: "ds = []" "speaker (ph (Some c)) = Some 1"
    "ef_parse (buf_of_string d) EthernetFrame_new = (NoError, on_wire g)" "an_recv_frame (on_wire g) (hl_faces ?e (1 - 1)) = Inr an"
    "wired (hl_mac rd c) (hl_ip c) (next_phase (ph (Some c))) ((hl_faces ?e)(1 - 1 := an)) ((hl_wires ?e)(1 := []))"
    by metis
  let ?rt = "(ce_router ?e)\<lparr>rt_interfaces := (rt_interfaces (ce_router ?e))[0 := an]\<rparr>"
  let ?e1 = "?e\<lparr>ce_router := ?rt, ce_up := []\<rparr>"
  have faces: "hl_faces ?e1 = (hl_faces ?e)(0 := an)" "hl_wires ?e1 = (hl_wires ?e)(1 := [])" "hl_faces ?e 0 = rt_interfaces (ce_router ?e) ! 0"
    using ok by (auto simp: hl_faces_def hl_wires_def fun_eq_iff)
  have step: "chat_step lc home (Host_to_router c) s = Some (chat_route c (set_end c ?e1 s))"
    using ok d r(1,3,4) faces(3) by (simp add: chat_recv_frame_def rt_interface_2 chat_route_def bindE_def split: sum.split)
  have "end_ok cfg c ?e1" using ok by (simp add: end_ok_def)
  moreover have "(net_faces s)(net_no c := rt_interfaces (ce_router ?e1) ! 1) = net_faces s"
    by (auto simp: net_faces_def fun_eq_iff)
  ultimately have "chat_in rd home cfg (ph(Some c := next_phase (ph (Some c)), None := ph None)) (set_end c ?e1 s)"
    using chat_inD(4) [OF s] r(5) faces by (intro chat_in_set_end [OF s]) simp_all
  moreover have "ph(Some c := next_phase (ph (Some c)), None := ph None) = ph(Some c := next_phase (ph (Some c)))" by auto
  moreover have "received (set_end c ?e1 s) = received s" by (auto simp: fun_eq_iff)
  ultimately show thesis using that step r(2) by simp
qed

lemma internet_to_router_read:
  assumes s: "chat_in rd home cfg ph s" and on: "chat_step lc home (Internet_to_router c) s \<noteq> None"
  obtains s1 where "chat_step lc home (Internet_to_router c) s = Some (chat_route c s1)"
    and "chat_in rd home cfg (ph(None := next_phase (ph None))) s1"
    and "received s1 = received s" and "speaker (ph None) = Some (net_no (\<not> c))"
proof -
  let ?e = "ch_end s c"
  note ok = chat_inD(1) [OF s, of c, unfolded end_ok_def]
  obtain d ds where d: "ch_relayed s c = d # ds" using on by (cases "ch_relayed s c") (auto simp: Let_def)
  have "net_no (\<not> c) < 2" "net_wires s (net_no (\<not> c)) = d # ds @ ch_sent s (\<not> c)" using d by (simp_all add: net_wires_def)
  then obtain g an where r: "ds @ ch_sent s (\<not> c) = []"
    "speaker (ph None) = Some (net_no (\<not> c))"
    "ef_parse (buf_of_string d) EthernetFrame_new = (NoError, on_wire g)" "an_recv_frame (on_wire g) (net_faces s (net_no c)) = Inr an"
    "wired (net_mac rd) net_ip (next_phase (ph None)) ((net_faces s)(net_no c := an)) ((net_wires s)(net_no (\<not> c) := []))"
    by (rule net_link.wired_read [OF chat_inD(4) [OF s]]) (rule that, simp_all)
  let ?rt = "(ce_router ?e)\<lparr>rt_interfaces := (rt_interfaces (ce_router ?e))[1 := an]\<rparr>"
  let ?s1 = "(set_end c (?e\<lparr>ce_router := ?rt\<rparr>) s)\<lparr>ch_relayed := (ch_relayed s)(c := [])\<rparr>"
  have len: "Suc 0 < length (rt_interfaces (ce_router ?e))" using ok by simp
  have face: "net_faces s (net_no c) = rt_interfaces (ce_router ?e) ! 1" by (simp add: net_faces_def)
  have step: "chat_step lc home (Internet_to_router c) s = Some (chat_route c ?s1)"
    using ok d r(1,3,4) face by (simp add: chat_recv_frame_def rt_interface_2 chat_route_def set_end_def bindE_def split: sum.split)
  have hl: "hl_faces (?e\<lparr>ce_router := ?rt\<rparr>) = hl_faces ?e" "hl_wires (?e\<lparr>ce_router := ?rt\<rparr>) = hl_wires ?e"
    by (auto simp: hl_faces_def hl_wires_def fun_eq_iff)
  have net: "net_faces ?s1 i = ((net_faces s)(net_no c := an)) i"
    "net_wires ?s1 i = ((net_wires s)(net_no (\<not> c) := [])) i" if i: "i < 2" for i
  proof -
    obtain c' where c': "i = net_no c'" using i unfolding net_no_cases by blast
    show "net_faces ?s1 i = ((net_faces s)(net_no c := an)) i" using len by (simp add: c' net_faces_def)
    show "net_wires ?s1 i = ((net_wires s)(net_no (\<not> c) := [])) i" using r(1) by (auto simp add: c' net_wires_def)
  qed
  have "wired (net_mac rd) net_ip (next_phase (ph None)) (net_faces ?s1) (net_wires ?s1)"
    using wired_cong [of "net_faces ?s1" _ "net_wires ?s1", OF net] r(5) by blast
  moreover have "end_ok cfg c (?e\<lparr>ce_router := ?rt\<rparr>)" using ok by (simp add: end_ok_def)
  ultimately have "chat_in rd home cfg (ph(None := next_phase (ph None))) ?s1" using s hl by (auto simp: chat_in_def)
  moreover have "received ?s1 = received s" by (auto simp: fun_eq_iff)
  ultimately show thesis using that step r(2) by simp
qed

lemma na_send_loop_map: "na_send_loop fs = map ef_serialize fs"
  by (induction fs) simp_all

lemma wired_leaves_all:
  assumes w: "wired mac ip ph f w" and i: "i < 2"
  shows "wired mac ip ph (f(i := (f i)\<lparr>an_interface := (an_interface (f i))\<lparr>ni_frames_out := []\<rparr>\<rparr>)) (w(i := w i @ map enc (an_frames_out (f i))))"
proof -
  obtain fs where fs: "\<forall>i < 2. w i = map enc (fs i)" "on_link 2 mac ip ph (\<lambda>i. with_frames (fs i) (f i))"
    using w by (auto simp: wired_def)
  let ?fs = "fs(i := fs i @ an_frames_out (f i))"
  have "(\<lambda>j. with_frames (?fs j) ((f(i := (f i)\<lparr>an_interface := (an_interface (f i))\<lparr>ni_frames_out := []\<rparr>\<rparr>)) j)) =
      (\<lambda>j. with_frames (fs j) (f j))"
    by (auto simp: with_frames_def fun_eq_iff)
  then show ?thesis unfolding wired_def using fs by (intro exI [of _ ?fs]) auto
qed

text \<open>What the adapter makes of a frame: the interface goes to the next phase, and a datagram is looked at for a segment.\<close>

lemma adapter_read:
  assumes s: "chat_in rd home cfg ph s" and on: "chat_step lc home (Adapter_reads c) s \<noteq> None"
  obtains na out opt where
    "chat_step lc home (Adapter_reads c) s =
       Some (bindE (case opt of Some dgram \<Rightarrow> fa_unwrap_tcp_in_ip lc dgram (na_base na) | None \<Rightarrow> Inr (None, na_base na)) (\<lambda>(seg, base).
         Inr (set_end c ((ch_end s c)\<lparr>ce_adapter := na\<lparr>na_base := base\<rparr>, ce_down := [], ce_up := ce_up (ch_end s c) @ out,
           ce_received := ce_received (ch_end s c) @ (case seg of None \<Rightarrow> [] | Some x \<Rightarrow> [x])\<rparr>) s)))"
    and "na_base na = \<lparr>fa_cfg = cfg c, fa_listen = False\<rparr>"
    and "\<And>rcv. end_ok cfg c ((ch_end s c)\<lparr>ce_adapter := na, ce_down := [], ce_up := ce_up (ch_end s c) @ out, ce_received := rcv\<rparr>)"
    and "wired (hl_mac rd c) (hl_ip c) (next_phase (ph (Some c)))
      ((hl_faces (ch_end s c))(1 := \<lparr>an_interface = na_interface na, an_datagrams_out = (case opt of None \<Rightarrow> [] | Some dg \<Rightarrow> [dg])\<rparr>))
      ((hl_wires (ch_end s c))(0 := [], 1 := ce_up (ch_end s c) @ out))"
    and "speaker (ph (Some c)) = Some 0"
proof -
  let ?e = "ch_end s c"
  let ?ni = "na_interface (ce_adapter ?e)"
  note ok = chat_inD(1) [OF s, of c, unfolded end_ok_def]
  obtain d ds where d: "ce_down ?e = d # ds" using on by (cases "ce_down ?e") (auto simp: Let_def)
  have "(0 :: nat) < 2" "hl_wires ?e 0 = d # ds" using d by (simp_all add: hl_wires_def)
  from host_link.wired_read [OF chat_inD(3) [OF s, of c] this] obtain g an where r: "ds = []" "speaker (ph (Some c)) = Some 0"
    "ef_parse (buf_of_string d) EthernetFrame_new = (NoError, on_wire g)" "an_recv_frame (on_wire g) (hl_faces ?e (1 - 0)) = Inr an"
    "wired (hl_mac rd c) (hl_ip c) (next_phase (ph (Some c))) ((hl_faces ?e)(1 - 0 := an)) ((hl_wires ?e)(0 := []))"
    by metis
  have "an_recv_frame (on_wire g) \<lparr>an_interface = ?ni, an_datagrams_out = []\<rparr> = Inr an"
    using r(4) by (simp add: hl_faces_def AsyncNetworkInterface_new_def)
  then obtain opt ni where n: "ni_recv_frame (on_wire g) ?ni = Inr (opt, ni)"
    "an = \<lparr>an_interface = ni, an_datagrams_out = (case opt of None \<Rightarrow> [] | Some dg \<Rightarrow> [dg])\<rparr>"
    by (auto simp: an_recv_frame_def bindE_def split: sum.splits option.splits)
  let ?out = "map enc (ni_frames_out ni)"
  let ?na = "(ce_adapter ?e)\<lparr>na_interface := ni\<lparr>ni_frames_out := []\<rparr>\<rparr>"
  have out: "bl_concatenate \<circ> ef_serialize = enc" by (simp add: enc_def fun_eq_iff)
  have "chat_step lc home (Adapter_reads c) s =
       Some (bindE (case opt of Some dgram \<Rightarrow> fa_unwrap_tcp_in_ip lc dgram (na_base ?na) | None \<Rightarrow> Inr (None, na_base ?na)) (\<lambda>(seg, base).
         Inr (set_end c (?e\<lparr>ce_adapter := ?na\<lparr>na_base := base\<rparr>, ce_down := [], ce_up := ce_up ?e @ ?out,
           ce_received := ce_received ?e @ (case seg of None \<Rightarrow> [] | Some x \<Rightarrow> [x])\<rparr>) s)))"
    using d r(1,3) n(1) out
    by (cases opt) (auto simp: na_read_def na_send_pending_def na_send_loop_map Let_def bindE_def split: sum.splits)
  moreover have "na_base ?na = \<lparr>fa_cfg = cfg c, fa_listen = False\<rparr>" using ok by simp
  moreover have "end_ok cfg c (?e\<lparr>ce_adapter := ?na, ce_down := [], ce_up := ce_up ?e @ ?out, ce_received := rcv\<rparr>)" for rcv
    using ok by (simp add: end_ok_def)
  moreover have "wired (hl_mac rd c) (hl_ip c) (next_phase (ph (Some c)))
      ((hl_faces ?e)(1 := \<lparr>an_interface = na_interface ?na, an_datagrams_out = (case opt of None \<Rightarrow> [] | Some dg \<Rightarrow> [dg])\<rparr>))
      ((hl_wires ?e)(0 := [], 1 := ce_up ?e @ ?out))"
    using wired_leaves_all [OF r(5), of 1] by (simp add: n(2) hl_wires_def)
  ultimately show thesis using that r(2) by blast
qed

section \<open>The routers\<close>

lemma set_end_same: "set_end c ((ch_end s c)\<lparr>ce_router := ce_router (ch_end s c)\<rparr>) s = s"
proof -
  have "(ch_end s c)\<lparr>ce_router := ce_router (ch_end s c)\<rparr> = ch_end s c" by (cases "ch_end s c") simp
  then show ?thesis unfolding set_end_def fun_upd_triv by simp
qed

lemma route_quiet:
  assumes s: "chat_in rd home cfg ph s" and "\<And>dg. ph (Some c) \<noteq> Arrived 0 dg" and "\<And>dg. ph None \<noteq> Arrived (net_no c) dg"
  shows "chat_route c s = Inr s"
proof -
  let ?rt = "ce_router (ch_end s c)"
  have len: "length (rt_interfaces ?rt) = 2" using chat_inD(1) [OF s, of c] by (simp add: end_ok_def)
  have "an_datagrams_out (hl_faces (ch_end s c) 0) = []" by (rule wired_queue [OF chat_inD(3) [OF s, of c] _ assms(2)]) simp
  moreover have "an_datagrams_out (net_faces s (net_no c)) = []" by (rule wired_queue [OF chat_inD(4) [OF s] _ assms(3)]) simp
  ultimately have "\<forall>i \<in> set [0..<length (rt_interfaces ?rt)]. an_datagrams_out (rt_interfaces ?rt ! i) = []"
    by (auto simp: len hl_faces_def net_faces_def less_2_cases_iff)
  then have "rt_route ?rt = Inr ?rt" unfolding rt_route_def by (rule rt_route_loop_quiet)
  then show ?thesis by (simp add: chat_route_def set_end_same)
qed

lemma forwards:
  assumes len: "length (rt_interfaces rt) = 2" and ij: "i < 2" "j < 2" "i \<noteq> j"
    and q: "an_datagrams_out (rt_interfaces rt ! j) = [dg]" "an_datagrams_out (rt_interfaces rt ! i) = []"
    and ttl: "1 < unat (ip_ttl (dg_header dg))" and look: "rt_lookup (ip_dst (dg_header dg)) (rt_forwarding_table rt) = Some (k, i, h)"
    and hop: "(case h of Some a \<Rightarrow> Inr a | None \<Rightarrow> addr_from_ipv4_numeric (ip_dst (dg_header dg))) = Inr hop"
    and send: "ni_send_datagram (ttl_less dg) hop (an_interface (rt_interfaces rt ! i)) = Inr ni"
  shows "rt_route rt = Inr (rt\<lparr>rt_interfaces := (rt_interfaces rt)[i := (rt_interfaces rt ! i)\<lparr>an_interface := ni\<rparr>,
    j := (rt_interfaces rt ! j)\<lparr>an_datagrams_out := []\<rparr>]\<rparr>)"
proof -
  let ?rt1 = "rt\<lparr>rt_interfaces := (rt_interfaces rt)[i := (rt_interfaces rt ! i)\<lparr>an_interface := ni\<rparr>]\<rparr>"
  have "\<not> ip_ttl (dg_header dg) \<le> 1" using ttl by (simp add: word_le_nat_alt)
  then have one: "rt_route_one_datagram dg rt = Inr ?rt1"
    using look hop send rt_interface_2 [OF len ij(1)]
    by (cases h) (simp_all add: rt_route_one_datagram_def Let_def flip: ttl_less_def)
  have same: "queues ?rt1 = queues rt"
    using ij len q(2) by (simp add: map_update list_update_same_conv)
  have "an_datagrams_out (rt_interfaces rt ! m) = []" if "m < length (rt_interfaces rt)" "m \<noteq> j" for m
  proof -
    have "m = i" using that len ij by linarith
    then show ?thesis using q(2) by simp
  qed
  from rt_route_single [OF _ q(1) this one same] show ?thesis using len ij by (simp add: nth_list_update)
qed

lemma route_out:
  assumes s: "chat_in rd home cfg ph s" and ph: "ph (Some c) = Arrived 0 dg" "ph None = Idle"
    and dst: "ip_dst (dg_header dg) = hl_ip (\<not> c) 1" and ttl: "1 < unat (ip_ttl (dg_header dg))"
  obtains s1 p where "chat_route c s = Inr s1" and "chat_in rd home cfg (ph(Some c := Idle, None := p)) s1" and "received s1 = received s"
    and "p = Ask (net_no c) (net_no (\<not> c)) (ttl_less dg) \<or> p = Carry (net_no c) (net_no (\<not> c)) (ttl_less dg)"
proof -
  let ?e = "ch_end s c"
  let ?rt = "ce_router ?e"
  note ok = chat_inD(1) [OF s, of c, unfolded end_ok_def]
  have len: "length (rt_interfaces ?rt) = 2" using ok by simp
  obtain dg' where dg': "an_datagrams_out (hl_faces ?e 0) = [dg']" "arrives_as dg dg'" "dg_wf dg"
    "wired (hl_mac rd c) (hl_ip c) Idle ((hl_faces ?e)(0 := (hl_faces ?e 0)\<lparr>an_datagrams_out := []\<rparr>)) (hl_wires ?e)"
    using wired_takes [OF chat_inD(3) [OF s, of c, unfolded ph]] by metis
  have alike: "alike (ttl_less dg) (ttl_less dg')" by (rule alike_less [OF arrives_alike [OF dg'(2)]])
  have w: "wired (net_mac rd) net_ip Idle (net_faces s) (net_wires s)" using chat_inD(4) [OF s] ph(2) by simp
  let ?hop = "socket_address (net_ip (net_no (\<not> c))) 0"
  obtain ni p where n: "ni_send_datagram (ttl_less dg') ?hop (an_interface (net_faces s (net_no c))) = Inr ni"
    "p = Ask (net_no c) (net_no (\<not> c)) (ttl_less dg) \<or> p = Carry (net_no c) (net_no (\<not> c)) (ttl_less dg)"
    "wired (net_mac rd) net_ip p ((net_faces s)(net_no c := (net_faces s (net_no c))\<lparr>an_interface := ni\<rparr>)) (net_wires s)"
    by (rule net_link.wired_send [OF w _ _ _ ttl_less_wf [OF dg'(3)] alike, of "net_no c" "net_no (\<not> c)" ?hop]) auto
  have faces: "hl_faces ?e 0 = rt_interfaces ?rt ! 0" "net_faces s (net_no c) = rt_interfaces ?rt ! 1"
    by (simp_all add: hl_faces_def net_faces_def)
  have q1: "an_datagrams_out (net_faces s (net_no c)) = []" using wired_queue [OF w, of "net_no c"] by simp
  have f: "ip_dst (dg_header dg') = hl_ip (\<not> c) 1" "1 < unat (ip_ttl (dg_header dg'))"
    using alike_fields [OF arrives_alike [OF dg'(2)]] dst ttl by simp_all
  have look: "\<exists>k. rt_lookup (hl_ip (\<not> c) 1) (chat_table c) = Some (k, 1, Some ?hop)"
    by (cases c) (simp_all add: rt_lookup_def chat_table_def rt_match_def quad_def hl_ip_def net_ip_def)
  then obtain k where look: "rt_lookup (ip_dst (dg_header dg')) (rt_forwarding_table ?rt) = Some (k, 1, Some ?hop)" using ok f(1) by auto
  let ?rt1 = "?rt\<lparr>rt_interfaces := (rt_interfaces ?rt)[1 := (rt_interfaces ?rt ! 1)\<lparr>an_interface := ni\<rparr>,
    0 := (rt_interfaces ?rt ! 0)\<lparr>an_datagrams_out := []\<rparr>]\<rparr>"
  have "rt_route ?rt = Inr ?rt1"
    by (rule forwards [OF len _ _ _ _ _ f(2) look]) (use dg'(1) q1 n(1) faces in simp_all)
  then have route: "chat_route c s = Inr (set_end c (?e\<lparr>ce_router := ?rt1\<rparr>) s)" by (simp add: chat_route_def)
  have "end_ok cfg c (?e\<lparr>ce_router := ?rt1\<rparr>)" using ok by (simp add: end_ok_def)
  moreover have "hl_faces (?e\<lparr>ce_router := ?rt1\<rparr>) = (hl_faces ?e)(0 := (hl_faces ?e 0)\<lparr>an_datagrams_out := []\<rparr>)"
    "hl_wires (?e\<lparr>ce_router := ?rt1\<rparr>) = hl_wires ?e"
    using len by (auto simp: hl_faces_def hl_wires_def fun_eq_iff)
  moreover have "rt_interfaces (ce_router (?e\<lparr>ce_router := ?rt1\<rparr>)) ! 1 = (net_faces s (net_no c))\<lparr>an_interface := ni\<rparr>"
    using len by (simp add: faces)
  ultimately have "chat_in rd home cfg (ph(Some c := Idle, None := p)) (set_end c (?e\<lparr>ce_router := ?rt1\<rparr>) s)"
    using dg'(4) n(3) by (intro chat_in_set_end [OF s]) (simp_all del: fun_upd_apply)
  moreover have "received (set_end c (?e\<lparr>ce_router := ?rt1\<rparr>) s) = received s" by (auto simp: fun_eq_iff)
  ultimately show thesis using that route n(2) by blast
qed

lemma route_in:
  assumes s: "chat_in rd home cfg ph s" and ph: "ph None = Arrived (net_no c) dg" "ph (Some c) = Idle"
    and dst: "ip_dst (dg_header dg) = hl_ip c 1" and ttl: "1 < unat (ip_ttl (dg_header dg))"
  obtains s1 p where "chat_route c s = Inr s1" and "chat_in rd home cfg (ph(Some c := p, None := Idle)) s1" and "received s1 = received s"
    and "p = Ask 0 1 (ttl_less dg) \<or> p = Carry 0 1 (ttl_less dg)"
proof -
  let ?e = "ch_end s c"
  let ?rt = "ce_router ?e"
  note ok = chat_inD(1) [OF s, of c, unfolded end_ok_def]
  have len: "length (rt_interfaces ?rt) = 2" using ok by simp
  obtain dg' where dg': "an_datagrams_out (net_faces s (net_no c)) = [dg']" "arrives_as dg dg'" "dg_wf dg"
    "wired (net_mac rd) net_ip Idle ((net_faces s)(net_no c := (net_faces s (net_no c))\<lparr>an_datagrams_out := []\<rparr>)) (net_wires s)"
    using wired_takes [OF chat_inD(4) [OF s, unfolded ph]] by metis
  have alike: "alike (ttl_less dg) (ttl_less dg')" by (rule alike_less [OF arrives_alike [OF dg'(2)]])
  have w: "wired (hl_mac rd c) (hl_ip c) Idle (hl_faces ?e) (hl_wires ?e)" using chat_inD(3) [OF s, of c] ph(2) by simp
  let ?hop = "ipv4_address (hl_ip c 1)"
  obtain ni p where n: "ni_send_datagram (ttl_less dg') ?hop (an_interface (hl_faces ?e 0)) = Inr ni"
    "p = Ask 0 1 (ttl_less dg) \<or> p = Carry 0 1 (ttl_less dg)"
    "wired (hl_mac rd c) (hl_ip c) p ((hl_faces ?e)(0 := (hl_faces ?e 0)\<lparr>an_interface := ni\<rparr>)) (hl_wires ?e)"
    by (rule host_link.wired_send [OF w _ _ _ ttl_less_wf [OF dg'(3)] alike, of 0 1 ?hop]) auto
  have faces: "hl_faces ?e 0 = rt_interfaces ?rt ! 0" "net_faces s (net_no c) = rt_interfaces ?rt ! 1"
    by (simp_all add: hl_faces_def net_faces_def)
  have q0: "an_datagrams_out (hl_faces ?e 0) = []" using wired_queue [OF w, of 0] by simp
  have f: "ip_dst (dg_header dg') = hl_ip c 1" "1 < unat (ip_ttl (dg_header dg'))"
    using alike_fields [OF arrives_alike [OF dg'(2)]] dst ttl by simp_all
  have look: "\<exists>k. rt_lookup (hl_ip c 1) (chat_table c) = Some (k, 0, None)"
    by (cases c) (simp_all add: rt_lookup_def chat_table_def rt_match_def quad_def hl_ip_def)
  then obtain k where look: "rt_lookup (ip_dst (dg_header dg')) (rt_forwarding_table ?rt) = Some (k, 0, None)" using ok f(1) by auto
  let ?rt1 = "?rt\<lparr>rt_interfaces := (rt_interfaces ?rt)[0 := (rt_interfaces ?rt ! 0)\<lparr>an_interface := ni\<rparr>,
    1 := (rt_interfaces ?rt ! 1)\<lparr>an_datagrams_out := []\<rparr>]\<rparr>"
  have "rt_route ?rt = Inr ?rt1"
    by (rule forwards [OF len _ _ _ _ _ f(2) look]) (use dg'(1) q0 n(1) faces f(1) in \<open>simp_all add: addr_from_ipv4_numeric_eq\<close>)
  then have route: "chat_route c s = Inr (set_end c (?e\<lparr>ce_router := ?rt1\<rparr>) s)" by (simp add: chat_route_def)
  have "end_ok cfg c (?e\<lparr>ce_router := ?rt1\<rparr>)" using ok by (simp add: end_ok_def)
  moreover have "hl_faces (?e\<lparr>ce_router := ?rt1\<rparr>) = (hl_faces ?e)(0 := (hl_faces ?e 0)\<lparr>an_interface := ni\<rparr>)"
    "hl_wires (?e\<lparr>ce_router := ?rt1\<rparr>) = hl_wires ?e"
    using len by (auto simp: hl_faces_def hl_wires_def fun_eq_iff)
  moreover have "rt_interfaces (ce_router (?e\<lparr>ce_router := ?rt1\<rparr>)) ! 1 = (net_faces s (net_no c))\<lparr>an_datagrams_out := []\<rparr>"
    using len by (simp add: faces)
  ultimately have "chat_in rd home cfg (ph(Some c := p, None := Idle)) (set_end c (?e\<lparr>ce_router := ?rt1\<rparr>) s)"
    using dg'(4) n(3) by (intro chat_in_set_end [OF s]) (simp_all del: fun_upd_apply)
  moreover have "received (set_end c (?e\<lparr>ce_router := ?rt1\<rparr>) s) = received s" by (auto simp: fun_eq_iff)
  ultimately show thesis using that route n(2) by blast
qed

end
