(* ===== verification/Chat_Delivery.thy ===== *)
theory Chat_Delivery
  imports Chat_Moves
begin

text \<open>
  The way of a segment over the three links: every event brings it closer, whatever the order of the events. So the events
  come to an end, and each side of a conversation, whose segments are written one at a time, is given what the other sent.
\<close>

section \<open>One event\<close>

abbreviation on :: "bool option \<Rightarrow> phase \<Rightarrow> bool option \<Rightarrow> phase" where
  "on l p \<equiv> (\<lambda>_. Idle)(l := p)"

text \<open>When one link is at work, an event moves the frame, or lets a router or an adapter read it.\<close>

lemma event_cases:
  assumes s: "chat_in rd home cfg (on l p) s" and e: "chat_step lc home e s \<noteq> None"
  obtains (moves) s1 where "chat_step lc home e s = Some (Inr s1)" and "chat_in rd home cfg (on l p) s1"
      and "sub l s1 < sub l s" and "received s1 = received s"
    | (router) c s1 where "chat_step lc home e s = Some (chat_route c s1)" and "chat_in rd home cfg (on l (next_phase p)) s1"
      and "received s1 = received s" and "l = Some c \<and> speaker p = Some 1 \<or> l = None \<and> speaker p = Some (net_no (\<not> c))"
    | (adapter) c where "e = Adapter_reads c" and "l = Some c" and "speaker p = Some 0"
proof (cases e)
  case (Host_to_router c)
  with e have "chat_step lc home (Host_to_router c) s \<noteq> None" by simp
  then obtain s1 where s1: "chat_step lc home (Host_to_router c) s = Some (chat_route c s1)"
    "chat_in rd home cfg ((on l p)(Some c := next_phase (on l p (Some c)))) s1" "received s1 = received s" "speaker (on l p (Some c)) = Some 1"
    by (rule host_to_router_read [OF s])
  then have l: "l = Some c" by (auto split: if_splits)
  then have "(on l p)(Some c := next_phase (on l p (Some c))) = on l (next_phase p)" by auto
  then show thesis using router [of c s1] s1 l Host_to_router by simp
next
  case (Router_to_host c)
  with e have "chat_step lc home (Router_to_host c) s \<noteq> None" by simp
  then obtain s1 where s1: "chat_step lc home (Router_to_host c) s = Some (Inr s1)" "chat_in rd home cfg (on l p) s1"
    "sub (Some c) s1 < sub (Some c) s" "received s1 = received s" "speaker (on l p (Some c)) = Some 0"
    by (rule router_to_host_move [OF s])
  then have "l = Some c" by (auto split: if_splits)
  then show thesis using moves [of s1] s1(1-4) Router_to_host by simp
next
  case (Adapter_reads c)
  with e have "chat_step lc home (Adapter_reads c) s \<noteq> None" by simp
  then have "speaker (on l p (Some c)) = Some 0" by (rule adapter_read [OF s])
  then have l: "l = Some c" by (auto split: if_splits)
  then show thesis using adapter [of c] \<open>speaker (on l p (Some c)) = Some 0\<close> Adapter_reads by simp
next
  case (Router_to_internet c)
  with e have "chat_step lc home (Router_to_internet c) s \<noteq> None" by simp
  then obtain s1 where s1: "chat_step lc home (Router_to_internet c) s = Some (Inr s1)" "chat_in rd home cfg (on l p) s1"
    "sub None s1 < sub None s" "received s1 = received s" "speaker (on l p None) = Some (net_no c)"
    by (rule router_to_internet_move [OF s])
  then have "l = None" by (auto split: if_splits)
  then show thesis using moves [of s1] s1(1-4) Router_to_internet by simp
next
  case (Relay c)
  with e have "chat_step lc home (Relay c) s \<noteq> None" by simp
  then obtain s1 where s1: "chat_step lc home (Relay c) s = Some (Inr s1)" "chat_in rd home cfg (on l p) s1"
    "sub None s1 < sub None s" "received s1 = received s" "speaker (on l p None) = Some (net_no c)"
    by (rule relay_move [OF s])
  then have "l = None" by (auto split: if_splits)
  then show thesis using moves [of s1] s1(1-4) unfolding Relay by blast
next
  case (Internet_to_router c)
  with e have "chat_step lc home (Internet_to_router c) s \<noteq> None" by simp
  then obtain s1 where s1: "chat_step lc home (Internet_to_router c) s = Some (chat_route c s1)"
    "chat_in rd home cfg ((on l p)(None := next_phase (on l p None))) s1" "received s1 = received s"
    "speaker (on l p None) = Some (net_no (\<not> c))"
    by (rule internet_to_router_read [OF s])
  then have l: "l = None" by (auto split: if_splits)
  then have "(on l p)(None := next_phase (on l p None)) = on l (next_phase p)" by auto
  then show thesis using router [of c s1] s1 l unfolding Internet_to_router by simp
qed

lemma adapter_quiet:
  assumes s: "chat_in rd home cfg (on (Some c) p) s" and e: "chat_step lc home (Adapter_reads c) s \<noteq> None"
    and p: "\<And>dg. next_phase p \<noteq> Arrived 1 dg"
  obtains s1 where "chat_step lc home (Adapter_reads c) s = Some (Inr s1)" and "chat_in rd home cfg (on (Some c) (next_phase p)) s1"
    and "received s1 = received s"
proof -
  let ?e = "ch_end s c"
  obtain na out opt where r: "chat_step lc home (Adapter_reads c) s =
       Some (bindE (case opt of Some dgram \<Rightarrow> fa_unwrap_tcp_in_ip lc dgram (na_base na) | None \<Rightarrow> Inr (None, na_base na)) (\<lambda>(seg, base).
         Inr (set_end c (?e\<lparr>ce_adapter := na\<lparr>na_base := base\<rparr>, ce_down := [], ce_up := ce_up ?e @ out,
           ce_received := ce_received ?e @ (case seg of None \<Rightarrow> [] | Some x \<Rightarrow> [x])\<rparr>) s)))"
    "\<And>rcv. end_ok cfg c (?e\<lparr>ce_adapter := na, ce_down := [], ce_up := ce_up ?e @ out, ce_received := rcv\<rparr>)"
    "wired (hl_mac rd c) (hl_ip c) (next_phase p)
      ((hl_faces ?e)(1 := \<lparr>an_interface = na_interface na, an_datagrams_out = (case opt of None \<Rightarrow> [] | Some dg \<Rightarrow> [dg])\<rparr>))
      ((hl_wires ?e)(0 := [], 1 := ce_up ?e @ out))"
    by (rule adapter_read [OF s e]) simp
  have "opt = None" using wired_queue [OF r(3), of 1] p by (simp split: option.splits)
  let ?e1 = "?e\<lparr>ce_adapter := na, ce_down := [], ce_up := ce_up ?e @ out, ce_received := ce_received ?e\<rparr>"
  have "na\<lparr>na_base := na_base na\<rparr> = na" by (cases na) simp
  then have step: "chat_step lc home (Adapter_reads c) s = Some (Inr (set_end c ?e1 s))"
    unfolding r(1) \<open>opt = None\<close> by simp
  have "wired (hl_mac rd c) (hl_ip c) (next_phase p) (hl_faces ?e1) (hl_wires ?e1) = wired (hl_mac rd c) (hl_ip c) (next_phase p)
      ((hl_faces ?e)(1 := \<lparr>an_interface = na_interface na, an_datagrams_out = (case opt of None \<Rightarrow> [] | Some dg \<Rightarrow> [dg])\<rparr>))
      ((hl_wires ?e)(0 := [], 1 := ce_up ?e @ out))"
    using \<open>opt = None\<close> by (intro wired_cong) (auto simp: hl_faces_def hl_wires_def AsyncNetworkInterface_new_def less_2_cases_iff)
  then have "wired (hl_mac rd c) (hl_ip c) (next_phase p) (hl_faces ?e1) (hl_wires ?e1)" using r(3) by simp
  moreover have "(net_faces s)(net_no c := rt_interfaces (ce_router ?e1) ! 1) = net_faces s"
    by (auto simp: net_faces_def fun_eq_iff)
  ultimately have "chat_in rd home cfg ((on (Some c) p)(Some c := next_phase p, None := Idle)) (set_end c ?e1 s)"
    using chat_inD(4) [OF s] r(2) [of "ce_received ?e"] by (intro chat_in_set_end [OF s]) simp_all
  moreover have "(on (Some c) p)(Some c := next_phase p, None := Idle) = on (Some c) (next_phase p)" by auto
  moreover have "received (set_end c ?e1 s) = received s" by (auto simp: fun_eq_iff)
  ultimately show thesis using that step by simp
qed

lemma adapter_delivers:
  assumes s: "chat_in rd home cfg (on (Some c) (Carry 0 1 dg)) s" and e: "chat_step lc home (Adapter_reads c) s \<noteq> None"
    and unwrap: "\<And>dg'. arrives_as dg dg' \<Longrightarrow> \<exists>seg'. fa_unwrap_tcp_in_ip lc dg' \<lparr>fa_cfg = cfg c, fa_listen = False\<rparr> =
       Inr (Some seg', \<lparr>fa_cfg = cfg c, fa_listen = False\<rparr>) \<and> R seg'"
  obtains s1 seg' where "chat_step lc home (Adapter_reads c) s = Some (Inr s1)" and "chat_in rd home cfg (\<lambda>_. Idle) s1"
    and "received s1 = (received s)(c := received s c @ [seg'])" and "R seg'"
proof -
  let ?e = "ch_end s c"
  obtain na out opt where r: "chat_step lc home (Adapter_reads c) s =
       Some (bindE (case opt of Some dgram \<Rightarrow> fa_unwrap_tcp_in_ip lc dgram (na_base na) | None \<Rightarrow> Inr (None, na_base na)) (\<lambda>(seg, base).
         Inr (set_end c (?e\<lparr>ce_adapter := na\<lparr>na_base := base\<rparr>, ce_down := [], ce_up := ce_up ?e @ out,
           ce_received := ce_received ?e @ (case seg of None \<Rightarrow> [] | Some x \<Rightarrow> [x])\<rparr>) s)))"
    "na_base na = \<lparr>fa_cfg = cfg c, fa_listen = False\<rparr>"
    "\<And>rcv. end_ok cfg c (?e\<lparr>ce_adapter := na, ce_down := [], ce_up := ce_up ?e @ out, ce_received := rcv\<rparr>)"
    "wired (hl_mac rd c) (hl_ip c) (Arrived 1 dg)
      ((hl_faces ?e)(1 := \<lparr>an_interface = na_interface na, an_datagrams_out = (case opt of None \<Rightarrow> [] | Some dg \<Rightarrow> [dg])\<rparr>))
      ((hl_wires ?e)(0 := [], 1 := ce_up ?e @ out))"
    by (rule adapter_read [OF s e]) simp
  obtain dg' where dg': "opt = Some dg'" "arrives_as dg dg'"
    "wired (hl_mac rd c) (hl_ip c) Idle ((hl_faces ?e)(1 := \<lparr>an_interface = na_interface na, an_datagrams_out = []\<rparr>))
      ((hl_wires ?e)(0 := [], 1 := ce_up ?e @ out))"
    by (rule wired_takes [OF r(4)]) (auto split: option.splits)
  obtain seg' where u: "fa_unwrap_tcp_in_ip lc dg' (na_base na) = Inr (Some seg', na_base na)" "R seg'"
    using unwrap [OF dg'(2)] unfolding r(2) by blast
  let ?e1 = "?e\<lparr>ce_adapter := na, ce_down := [], ce_up := ce_up ?e @ out, ce_received := ce_received ?e @ [seg']\<rparr>"
  have "na\<lparr>na_base := na_base na\<rparr> = na" by (cases na) simp
  then have step: "chat_step lc home (Adapter_reads c) s = Some (Inr (set_end c ?e1 s))"
    unfolding r(1) dg'(1) option.case u(1) by simp
  have "wired (hl_mac rd c) (hl_ip c) Idle (hl_faces ?e1) (hl_wires ?e1) = wired (hl_mac rd c) (hl_ip c) Idle
      ((hl_faces ?e)(1 := \<lparr>an_interface = na_interface na, an_datagrams_out = []\<rparr>)) ((hl_wires ?e)(0 := [], 1 := ce_up ?e @ out))"
    by (intro wired_cong) (auto simp: hl_faces_def hl_wires_def AsyncNetworkInterface_new_def less_2_cases_iff)
  then have "wired (hl_mac rd c) (hl_ip c) Idle (hl_faces ?e1) (hl_wires ?e1)" using dg'(3) by simp
  moreover have "(net_faces s)(net_no c := rt_interfaces (ce_router ?e1) ! 1) = net_faces s"
    by (auto simp: net_faces_def fun_eq_iff)
  ultimately have "chat_in rd home cfg ((on (Some c) (Carry 0 1 dg))(Some c := Idle, None := Idle)) (set_end c ?e1 s)"
    using chat_inD(4) [OF s] r(3) by (intro chat_in_set_end [OF s]) simp_all
  moreover have "(on (Some c) (Carry 0 1 dg))(Some c := Idle, None := Idle) = (\<lambda>_. Idle)" by auto
  moreover have "received (set_end c ?e1 s) = (received s)(c := received s c @ [seg'])" by (auto simp: fun_eq_iff)
  ultimately show thesis using that step u(2) by simp
qed

text \<open>Something can happen as long as a frame is on its way, and nothing when all is quiet.\<close>

lemma frame_moves:
  assumes s: "chat_in rd home cfg (on l p) s" and p: "speaker p = Some i" "i < 2"
  shows "\<exists>e. chat_step lc home e s \<noteq> None"
proof (cases l)
  case (Some c)
  note ok = chat_inD(1) [OF s, of c, unfolded end_ok_def]
  note n = hl_counts [OF s, of c, unfolded Some fun_upd_same p(1)]
  consider "i = 0" | "i = 1" using p(2) by linarith
  then show ?thesis
  proof cases
    case 1
    then have "ce_down (ch_end s c) \<noteq> [] \<or> an_frames_out (rt_interfaces (ce_router (ch_end s c)) ! 0) \<noteq> []"
      using n(1) by (auto simp: hl_faces_def)
    then show ?thesis
    proof
      assume "ce_down (ch_end s c) \<noteq> []"
      then have "chat_step lc home (Adapter_reads c) s \<noteq> None" by (cases "ce_down (ch_end s c)") (simp_all add: Let_def)
      then show ?thesis ..
    next
      assume "an_frames_out (rt_interfaces (ce_router (ch_end s c)) ! 0) \<noteq> []"
      then have "chat_step lc home (Router_to_host c) s \<noteq> None" using ok by (simp add: Let_def chat_has_frame_def)
      then show ?thesis ..
    qed
  next
    case 2
    then have "chat_step lc home (Host_to_router c) s \<noteq> None"
      using n(2) by (cases "ce_up (ch_end s c)") (simp_all add: Let_def)
    then show ?thesis ..
  qed
next
  case None
  obtain c where c: "i = net_no c" using p(2) unfolding net_no_cases by blast
  note ok = chat_inD(1) [OF s, of c, unfolded end_ok_def]
  have "ch_relayed s (\<not> c) \<noteq> [] \<or> ch_sent s c \<noteq> [] \<or> an_frames_out (rt_interfaces (ce_router (ch_end s c)) ! 1) \<noteq> []"
    using net_counts [OF s, of c, unfolded None fun_upd_same p(1) c] by (auto simp: net_faces_def)
  then show ?thesis
  proof (elim disjE)
    assume "ch_relayed s (\<not> c) \<noteq> []"
    then have "chat_step lc home (Internet_to_router (\<not> c)) s \<noteq> None" by (cases "ch_relayed s (\<not> c)") (simp_all add: Let_def)
    then show ?thesis ..
  next
    assume "ch_sent s c \<noteq> []"
    then have "chat_step lc home (Relay c) s \<noteq> None" by (cases "ch_sent s c") (simp_all add: Let_def split: prod.splits)
    then show ?thesis ..
  next
    assume "an_frames_out (rt_interfaces (ce_router (ch_end s c)) ! 1) \<noteq> []"
    then have "chat_step lc home (Router_to_internet c) s \<noteq> None" using ok by (simp add: Let_def chat_has_frame_def)
    then show ?thesis ..
  qed
qed

lemma sub_quiet:
  assumes "chat_in rd home cfg (\<lambda>_. Idle) s"
  shows "sub l s = 0"
proof (cases l)
  case None
  have "ch_relayed s (\<not> c) = [] \<and> ch_sent s c = [] \<and> an_frames_out (net_faces s (net_no c)) = []" for c
    using net_counts [OF assms, of c] by simp
  from this [of True] this [of False] show ?thesis by (simp add: None sub_def)
next
  case (Some c)
  then show ?thesis using hl_counts [OF assms, of c] by (simp add: sub_def)
qed

lemma quiet_stays:
  assumes s: "chat_in rd home cfg (\<lambda>_. Idle) s"
  shows "chat_step lc home e s = None"
proof (rule ccontr)
  assume e: "chat_step lc home e s \<noteq> None"
  have "on None Idle = (\<lambda>_. Idle)" by auto
  then have "chat_in rd home cfg (on None Idle) s" using s by metis
  then show False using e by (rule event_cases) (use sub_quiet [OF s] in auto)
qed

lemma settles_quiet: "chat_in rd home cfg (\<lambda>_. Idle) s \<Longrightarrow> P s \<Longrightarrow> settles lc home n P s"
  by (cases n) (simp_all add: quiet_stays)

section \<open>The way of a segment\<close>

definition legs :: "nat \<Rightarrow> nat \<Rightarrow> InternetDatagram \<Rightarrow> phase set" where
  "legs p q dg = {Ask p q dg, Answer p q dg, Carry p q dg}"

fun togo :: "phase \<Rightarrow> nat" where
  "togo (Ask p q dg) = 2"
| "togo (Answer p q dg) = 1"
| "togo _ = 0"

lemma legs_next:
  assumes "ph \<in> legs p q dg"
  obtains (more) "next_phase ph \<in> legs p q dg" and "togo (next_phase ph) < togo ph" and "\<And>i d. next_phase ph \<noteq> Arrived i d"
    | (last) "ph = Carry p q dg"
  using assms by (auto simp: legs_def)

lemma legs_speaker: "ph \<in> legs p q dg \<Longrightarrow> speaker ph = Some p \<or> (speaker ph = Some q \<and> ph = Answer p q dg)"
  by (auto simp: legs_def)

lemma legs_togo: "ph \<in> legs p q dg \<Longrightarrow> togo ph \<le> 2"
  by (auto simp: legs_def)

lemma ttl_less_ttl: "1 < unat (ip_ttl (dg_header dg)) \<Longrightarrow> unat (ip_ttl (dg_header (ttl_less dg))) = unat (ip_ttl (dg_header dg)) - 1"
  by (simp add: ttl_less_def unat_sub word_le_nat_alt)

text \<open>From the host that sends to its router.\<close>

lemma first_leg:
  assumes s: "chat_in rd home cfg (on (Some c) ph) s" and ph: "ph \<in> legs 1 0 dg" and e: "chat_step lc home e s \<noteq> None"
    and dst: "ip_dst (dg_header dg) = hl_ip (\<not> c) 1" and ttl: "1 < unat (ip_ttl (dg_header dg))"
  shows "\<exists>s1. chat_step lc home e s = Some (Inr s1) \<and> received s1 = received s \<and>
    (chat_in rd home cfg (on (Some c) ph) s1 \<and> sub (Some c) s1 < sub (Some c) s \<or>
     (\<exists>ph' \<in> legs 1 0 dg. chat_in rd home cfg (on (Some c) ph') s1 \<and> togo ph' < togo ph) \<or>
     (\<exists>ph' \<in> legs (net_no c) (net_no (\<not> c)) (ttl_less dg). chat_in rd home cfg (on None ph') s1))"
  using s e
proof (cases rule: event_cases)
  case (moves s1)
  then show ?thesis by blast
next
  case (router c' s1)
  then have c': "c' = c" by auto
  from ph show ?thesis
  proof (cases rule: legs_next)
    case more
    have "chat_route c' s1 = Inr s1" by (rule route_quiet [OF router(2)]) (simp_all add: more(3))
    then have "chat_step lc home e s = Some (Inr s1)" using router(1) by simp
    then show ?thesis using router(2,3) more(1,2) by blast
  next
    case last
    then have s1: "chat_in rd home cfg (on (Some c) (Arrived 0 dg)) s1" using router(2) by simp
    obtain s2 p where s2: "chat_route c s1 = Inr s2" "chat_in rd home cfg ((on (Some c) (Arrived 0 dg))(Some c := Idle, None := p)) s2"
      "received s2 = received s1" "p = Ask (net_no c) (net_no (\<not> c)) (ttl_less dg) \<or> p = Carry (net_no c) (net_no (\<not> c)) (ttl_less dg)"
      by (rule route_out [OF s1 _ _ dst ttl]) simp_all
    have "chat_step lc home e s = Some (Inr s2)" using router(1) s2(1) c' by simp
    moreover have "(on (Some c) (Arrived 0 dg))(Some c := Idle, None := p) = on None p" by auto
    then have "chat_in rd home cfg (on None p) s2" using s2(2) by (simp only:)
    moreover have "received s2 = received s" using s2(3) router(3) by (simp only:)
    moreover have "p \<in> legs (net_no c) (net_no (\<not> c)) (ttl_less dg)" using s2(4) by (auto simp: legs_def)
    ultimately show ?thesis by blast
  qed
next
  case (adapter c')
  then have c': "c' = c" "ph = Answer 1 0 dg" using legs_speaker [OF ph] by auto
  then obtain s1 where "chat_step lc home (Adapter_reads c) s = Some (Inr s1)" "chat_in rd home cfg (on (Some c) (Carry 1 0 dg)) s1"
    "received s1 = received s"
    using e adapter(1) by (rule_tac adapter_quiet [OF s]) auto
  moreover have "Carry 1 0 dg \<in> legs 1 0 dg" "togo (Carry 1 0 dg) < togo ph" using c'(2) by (simp_all add: legs_def)
  ultimately show ?thesis using adapter(1) c'(1) by blast
qed

text \<open>From router to router.\<close>

lemma second_leg:
  assumes s: "chat_in rd home cfg (on None ph) s" and ph: "ph \<in> legs (net_no c) (net_no (\<not> c)) dg" and e: "chat_step lc home e s \<noteq> None"
    and dst: "ip_dst (dg_header dg) = hl_ip (\<not> c) 1" and ttl: "1 < unat (ip_ttl (dg_header dg))"
  shows "\<exists>s1. chat_step lc home e s = Some (Inr s1) \<and> received s1 = received s \<and>
    (chat_in rd home cfg (on None ph) s1 \<and> sub None s1 < sub None s \<or>
     (\<exists>ph' \<in> legs (net_no c) (net_no (\<not> c)) dg. chat_in rd home cfg (on None ph') s1 \<and> togo ph' < togo ph) \<or>
     (\<exists>ph' \<in> legs 0 1 (ttl_less dg). chat_in rd home cfg (on (Some (\<not> c)) ph') s1))"
  using s e
proof (cases rule: event_cases)
  case (moves s1)
  then show ?thesis by blast
next
  case (router c' s1)
  from ph show ?thesis
  proof (cases rule: legs_next)
    case more
    have "chat_route c' s1 = Inr s1" by (rule route_quiet [OF router(2)]) (simp_all add: more(3))
    then have "chat_step lc home e s = Some (Inr s1)" using router(1) by simp
    then show ?thesis using router(2,3) more(1,2) by blast
  next
    case last
    then have c': "c' = (\<not> c)" using router(4) by simp
    have s1: "chat_in rd home cfg (on None (Arrived (net_no (\<not> c)) dg)) s1" using router(2) last by simp
    obtain s2 p where s2: "chat_route (\<not> c) s1 = Inr s2"
      "chat_in rd home cfg ((on None (Arrived (net_no (\<not> c)) dg))(Some (\<not> c) := p, None := Idle)) s2"
      "received s2 = received s1" "p = Ask 0 1 (ttl_less dg) \<or> p = Carry 0 1 (ttl_less dg)"
      by (rule route_in [OF s1 _ _ dst ttl]) simp_all
    have "chat_step lc home e s = Some (Inr s2)" using router(1) s2(1) c' by simp
    moreover have "(on None (Arrived (net_no (\<not> c)) dg))(Some (\<not> c) := p, None := Idle) = on (Some (\<not> c)) p" by auto
    then have "chat_in rd home cfg (on (Some (\<not> c)) p) s2" using s2(2) by (simp only:)
    moreover have "received s2 = received s" using s2(3) router(3) by (simp only:)
    moreover have "p \<in> legs 0 1 (ttl_less dg)" using s2(4) by (auto simp: legs_def)
    ultimately show ?thesis by blast
  qed
qed simp

text \<open>From the router to the host.\<close>

lemma third_leg:
  assumes s: "chat_in rd home cfg (on (Some c) ph) s" and ph: "ph \<in> legs 0 1 dg" and e: "chat_step lc home e s \<noteq> None"
    and unwrap: "\<And>dg'. arrives_as dg dg' \<Longrightarrow> \<exists>seg'. fa_unwrap_tcp_in_ip lc dg' \<lparr>fa_cfg = cfg c, fa_listen = False\<rparr> =
       Inr (Some seg', \<lparr>fa_cfg = cfg c, fa_listen = False\<rparr>) \<and> R seg'"
  shows "\<exists>s1. chat_step lc home e s = Some (Inr s1) \<and>
    (received s1 = received s \<and> chat_in rd home cfg (on (Some c) ph) s1 \<and> sub (Some c) s1 < sub (Some c) s \<or>
     (\<exists>ph' \<in> legs 0 1 dg. received s1 = received s \<and> chat_in rd home cfg (on (Some c) ph') s1 \<and> togo ph' < togo ph) \<or>
     (\<exists>seg'. chat_in rd home cfg (\<lambda>_. Idle) s1 \<and> received s1 = (received s)(c := received s c @ [seg']) \<and> R seg'))"
  using s e
proof (cases rule: event_cases)
  case (moves s1)
  then show ?thesis by blast
next
  case (router c' s1)
  then have c': "c' = c" "ph = Answer 0 1 dg" using legs_speaker [OF ph] by auto
  have "chat_route c' s1 = Inr s1" by (rule route_quiet [OF router(2)]) (simp_all add: c'(2))
  moreover have "Carry 0 1 dg \<in> legs 0 1 dg" "togo (Carry 0 1 dg) < togo ph" using c'(2) by (simp_all add: legs_def)
  ultimately show ?thesis using router(1-3) c'(2) by auto
next
  case (adapter c')
  then have c': "c' = c" by simp
  have e': "chat_step lc home (Adapter_reads c) s \<noteq> None" using e adapter(1) c' by simp
  from ph show ?thesis
  proof (cases rule: legs_next)
    case more
    then obtain s1 where "chat_step lc home (Adapter_reads c) s = Some (Inr s1)" "chat_in rd home cfg (on (Some c) (next_phase ph)) s1"
      "received s1 = received s"
      by (rule_tac adapter_quiet [OF s e']) auto
    then show ?thesis using more adapter(1) c' by blast
  next
    case last
    from s [unfolded last] e' unwrap show ?thesis
      unfolding adapter(1) c' by (rule adapter_delivers) blast+
  qed
qed

section \<open>Everything settles\<close>

lemma settles_step:
  assumes "\<exists>e. chat_step lc home e s \<noteq> None"
    and "\<And>e. chat_step lc home e s \<noteq> None \<Longrightarrow> \<exists>s1. chat_step lc home e s = Some (Inr s1) \<and> settles lc home n P s1"
  shows "settles lc home (Suc n) P s"
  using assms by auto

lemma settles_mono: "settles lc home k P s \<Longrightarrow> k \<le> n \<Longrightarrow> settles lc home n P s"
proof (induction k arbitrary: s n)
  case 0
  then show ?case by (cases n) simp_all
next
  case (Suc k)
  then obtain m where n: "n = Suc m" "k \<le> m" by (cases n) auto
  show ?case
  proof (cases "\<forall>e. chat_step lc home e s = None")
    case True
    then show ?thesis using Suc.prems(1) n(1) by simp
  next
    case False
    then have e: "\<exists>e. chat_step lc home e s \<noteq> None" by blast
    show ?thesis
      unfolding n(1)
    proof (rule settles_step [OF e])
      fix e
      assume "chat_step lc home e s \<noteq> None"
      then obtain s1 where "chat_step lc home e s = Some (Inr s1)" "settles lc home k P s1"
        using Suc.prems(1) False by (simp only: settles.simps if_False) blast
      then show "\<exists>s1. chat_step lc home e s = Some (Inr s1) \<and> settles lc home m P s1" using Suc.IH [OF _ n(2)] by blast
    qed
  qed
qed

text \<open>One leg of the way: at most 11 events, then something that settles.\<close>

lemma settles_leg:
  assumes pq: "p < 2" "q < 2"
    and event: "\<And>s ph e. chat_in rd home cfg (on l ph) s \<Longrightarrow> ph \<in> legs p q dg \<Longrightarrow> received s = rcv \<Longrightarrow>
      chat_step lc home e s \<noteq> None \<Longrightarrow>
      \<exists>s1. chat_step lc home e s = Some (Inr s1) \<and>
        (received s1 = rcv \<and> chat_in rd home cfg (on l ph) s1 \<and> sub l s1 < sub l s \<or>
         (\<exists>ph' \<in> legs p q dg. received s1 = rcv \<and> chat_in rd home cfg (on l ph') s1 \<and> togo ph' < togo ph) \<or>
         settles lc home k P s1)"
    and s: "chat_in rd home cfg (on l ph) s" and ph: "ph \<in> legs p q dg" and rcv: "received s = rcv"
  shows "settles lc home (12 + k) P s"
proof -
  have "settles lc home (n + k) P s" if "chat_in rd home cfg (on l ph) s" "ph \<in> legs p q dg" "received s = rcv" "4 * togo ph + sub l s < n" for n ph s
    using that
  proof (induction n arbitrary: ph s)
    case (Suc n)
    obtain i where "speaker ph = Some i" "i < 2" using legs_speaker [OF Suc.prems(2)] pq by auto
    from frame_moves [OF Suc.prems(1) this] have "settles lc home (Suc (n + k)) P s"
    proof (rule settles_step)
      fix e
      assume e: "chat_step lc home e s \<noteq> None"
      obtain s1 where step: "chat_step lc home e s = Some (Inr s1)" and
        s1: "received s1 = rcv \<and> chat_in rd home cfg (on l ph) s1 \<and> sub l s1 < sub l s \<or>
         (\<exists>ph' \<in> legs p q dg. received s1 = rcv \<and> chat_in rd home cfg (on l ph') s1 \<and> togo ph' < togo ph) \<or>
         settles lc home k P s1"
        using event [OF Suc.prems(1-3) e] by blast
      from s1 have "settles lc home (n + k) P s1"
      proof (elim disjE bexE)
        assume a: "received s1 = rcv \<and> chat_in rd home cfg (on l ph) s1 \<and> sub l s1 < sub l s"
        then have "4 * togo ph + sub l s1 < n" using Suc.prems(4) by simp
        then show ?thesis using Suc.IH a Suc.prems(2) by blast
      next
        fix ph'
        assume ph': "ph' \<in> legs p q dg" and a: "received s1 = rcv \<and> chat_in rd home cfg (on l ph') s1 \<and> togo ph' < togo ph"
        then have "4 * togo ph' + sub l s1 < n" using Suc.prems(4) sub_bound [of rd home cfg "on l ph'" s1 l] by simp
        then show ?thesis using Suc.IH a ph' by blast
      next
        assume "settles lc home k P s1"
        then show ?thesis by (rule settles_mono) simp
      qed
      then show "\<exists>s1. chat_step lc home e s = Some (Inr s1) \<and> settles lc home (n + k) P s1" using step by blast
    qed
    then show ?case by simp
  qed simp
  moreover have "4 * togo ph + sub l s < 12" using legs_togo [OF ph] sub_bound [OF s, of l] by simp
  ultimately show ?thesis using s ph rcv by blast
qed

lemma leg_cases:
  "A \<or> (\<exists>x \<in> X. B x) \<or> C \<Longrightarrow> (C \<Longrightarrow> D) \<Longrightarrow> r \<Longrightarrow> (r \<and> A) \<or> (\<exists>x \<in> X. r \<and> B x) \<or> D"
  by blast

lemma segment_settles:
  assumes s: "chat_in rd home cfg (on (Some c) ph) s" and ph: "ph \<in> legs 1 0 dg" and rcv: "received s = rcv"
    and dst: "ip_dst (dg_header dg) = hl_ip (\<not> c) 1" and ttl: "2 < unat (ip_ttl (dg_header dg))"
    and unwrap: "\<And>dg'. arrives_as (ttl_less (ttl_less dg)) dg' \<Longrightarrow>
      \<exists>seg'. fa_unwrap_tcp_in_ip lc dg' \<lparr>fa_cfg = cfg (\<not> c), fa_listen = False\<rparr> =
        Inr (Some seg', \<lparr>fa_cfg = cfg (\<not> c), fa_listen = False\<rparr>) \<and> R seg'"
    and P: "\<And>s1 seg'. chat_in rd home cfg (\<lambda>_. Idle) s1 \<Longrightarrow> received s1 = rcv((\<not> c) := rcv (\<not> c) @ [seg']) \<Longrightarrow> R seg' \<Longrightarrow> P s1"
  shows "settles lc home 36 P s"
proof -
  have third: "settles lc home (12 + 0) P s"
    if "chat_in rd home cfg (on (Some (\<not> c)) ph) s" "ph \<in> legs 0 1 (ttl_less (ttl_less dg))" "received s = rcv" for s ph
  proof (rule settles_leg [OF _ _ _ that])
    fix s ph e
    assume a: "chat_in rd home cfg (on (Some (\<not> c)) ph) s" "ph \<in> legs 0 1 (ttl_less (ttl_less dg))" "received s = rcv"
      "chat_step lc home e s \<noteq> None"
    obtain s1 where s1: "chat_step lc home e s = Some (Inr s1)"
      "received s1 = received s \<and> chat_in rd home cfg (on (Some (\<not> c)) ph) s1 \<and> sub (Some (\<not> c)) s1 < sub (Some (\<not> c)) s \<or>
       (\<exists>ph' \<in> legs 0 1 (ttl_less (ttl_less dg)). received s1 = received s \<and> chat_in rd home cfg (on (Some (\<not> c)) ph') s1 \<and> togo ph' < togo ph) \<or>
       (\<exists>seg'. chat_in rd home cfg (\<lambda>_. Idle) s1 \<and> received s1 = (received s)((\<not> c) := received s (\<not> c) @ [seg']) \<and> R seg')"
      using third_leg [OF a(1,2,4), of R] unwrap by blast
    have quiet: "settles lc home 0 P s1"
      if q: "\<exists>seg'. chat_in rd home cfg (\<lambda>_. Idle) s1 \<and> received s1 = (received s)((\<not> c) := received s (\<not> c) @ [seg']) \<and> R seg'"
    proof -
      obtain seg' where q: "chat_in rd home cfg (\<lambda>_. Idle) s1" "received s1 = (received s)((\<not> c) := received s (\<not> c) @ [seg'])" "R seg'"
        using q by blast
      have "received s (\<not> c) = rcv (\<not> c)" using a(3) by (rule fun_cong)
      then have "received s1 = rcv((\<not> c) := rcv (\<not> c) @ [seg'])" using q(2) a(3) by (simp only: )
      then show ?thesis by (rule settles_quiet [where P = P, OF q(1) P [OF q(1) _ q(3)]])
    qed
    show "\<exists>s1. chat_step lc home e s = Some (Inr s1) \<and>
        (received s1 = rcv \<and> chat_in rd home cfg (on (Some (\<not> c)) ph) s1 \<and> sub (Some (\<not> c)) s1 < sub (Some (\<not> c)) s \<or>
         (\<exists>ph' \<in> legs 0 1 (ttl_less (ttl_less dg)). received s1 = rcv \<and> chat_in rd home cfg (on (Some (\<not> c)) ph') s1 \<and> togo ph' < togo ph) \<or>
         settles lc home 0 P s1)"
      using s1 quiet unfolding a(3) by (intro exI [of _ s1] conjI) (assumption, blast)
  qed simp_all
  have ttl1: "1 < unat (ip_ttl (dg_header dg))" "1 < unat (ip_ttl (dg_header (ttl_less dg)))"
    using ttl ttl_less_ttl [of dg] by simp_all
  have second: "settles lc home (12 + (12 + 0)) P s"
    if "chat_in rd home cfg (on None ph) s" "ph \<in> legs (net_no c) (net_no (\<not> c)) (ttl_less dg)" "received s = rcv" for s ph
  proof (rule settles_leg [OF _ _ _ that])
    fix s ph e
    assume a: "chat_in rd home cfg (on None ph) s" "ph \<in> legs (net_no c) (net_no (\<not> c)) (ttl_less dg)" "received s = rcv"
      "chat_step lc home e s \<noteq> None"
    have "ip_dst (dg_header (ttl_less dg)) = hl_ip (\<not> c) 1" using dst by simp
    from second_leg [OF a(1,2,4) this ttl1(2)] obtain s1 where s1: "chat_step lc home e s = Some (Inr s1)" "received s1 = received s"
      "chat_in rd home cfg (on None ph) s1 \<and> sub None s1 < sub None s \<or>
       (\<exists>ph' \<in> legs (net_no c) (net_no (\<not> c)) (ttl_less dg). chat_in rd home cfg (on None ph') s1 \<and> togo ph' < togo ph) \<or>
       (\<exists>ph' \<in> legs 0 1 (ttl_less (ttl_less dg)). chat_in rd home cfg (on (Some (\<not> c)) ph') s1)"
      by (elim exE conjE) (rule that)
    have next_leg: "settles lc home (12 + 0) P s1"
      if "\<exists>ph' \<in> legs 0 1 (ttl_less (ttl_less dg)). chat_in rd home cfg (on (Some (\<not> c)) ph') s1"
      using that by (elim bexE) (rule third, assumption, assumption, simp only: s1(2) a(3))
    show "\<exists>s1. chat_step lc home e s = Some (Inr s1) \<and>
        (received s1 = rcv \<and> chat_in rd home cfg (on None ph) s1 \<and> sub None s1 < sub None s \<or>
         (\<exists>ph' \<in> legs (net_no c) (net_no (\<not> c)) (ttl_less dg). received s1 = rcv \<and> chat_in rd home cfg (on None ph') s1 \<and> togo ph' < togo ph) \<or>
         settles lc home (12 + 0) P s1)"
      by (intro exI [of _ s1] conjI, rule s1(1), rule leg_cases [OF s1(3) next_leg trans [OF s1(2) a(3)]])
  qed simp_all
  have "settles lc home (12 + (12 + (12 + 0))) P s"
  proof (rule settles_leg [OF _ _ _ s ph rcv])
    fix s ph e
    assume a: "chat_in rd home cfg (on (Some c) ph) s" "ph \<in> legs 1 0 dg" "received s = rcv" "chat_step lc home e s \<noteq> None"
    from first_leg [OF a(1,2,4) dst ttl1(1)] obtain s1 where s1: "chat_step lc home e s = Some (Inr s1)" "received s1 = received s"
      "chat_in rd home cfg (on (Some c) ph) s1 \<and> sub (Some c) s1 < sub (Some c) s \<or>
       (\<exists>ph' \<in> legs 1 0 dg. chat_in rd home cfg (on (Some c) ph') s1 \<and> togo ph' < togo ph) \<or>
       (\<exists>ph' \<in> legs (net_no c) (net_no (\<not> c)) (ttl_less dg). chat_in rd home cfg (on None ph') s1)"
      by (elim exE conjE) (rule that)
    have next_leg: "settles lc home (12 + (12 + 0)) P s1"
      if "\<exists>ph' \<in> legs (net_no c) (net_no (\<not> c)) (ttl_less dg). chat_in rd home cfg (on None ph') s1"
      using that by (elim bexE) (rule second, assumption, assumption, simp only: s1(2) a(3))
    show "\<exists>s1. chat_step lc home e s = Some (Inr s1) \<and>
        (received s1 = rcv \<and> chat_in rd home cfg (on (Some c) ph) s1 \<and> sub (Some c) s1 < sub (Some c) s \<or>
         (\<exists>ph' \<in> legs 1 0 dg. received s1 = rcv \<and> chat_in rd home cfg (on (Some c) ph') s1 \<and> togo ph' < togo ph) \<or>
         settles lc home (12 + (12 + 0)) P s1)"
      by (intro exI [of _ s1] conjI, rule s1(1), rule leg_cases [OF s1(3) next_leg trans [OF s1(2) a(3)]])
  qed simp_all
  then show ?thesis by simp
qed

section \<open>A segment is sent\<close>

text \<open>The sockets are configured for each other.\<close>

definition configured :: "(bool \<Rightarrow> FdAdapterConfig) \<Rightarrow> bool" where
  "configured cfg \<longleftrightarrow> (\<exists>port. \<forall>c. fc_source (cfg c) = socket_address (hl_ip c 1) (port c) \<and>
     fc_destination (cfg c) = socket_address (hl_ip (\<not> c) 1) (port (\<not> c)))"

lemma wrapped:
  assumes lc: "numeric_libc lc" and cfg: "configured cfg" and seg: "fits seg"
  obtains dg where "fa_wrap_tcp_in_ip lc seg \<lparr>fa_cfg = cfg c, fa_listen = False\<rparr> = Inr dg" and "dg_wf dg"
    and "ip_dst (dg_header dg) = hl_ip (\<not> c) 1" and "2 < unat (ip_ttl (dg_header dg))"
    and "\<forall>dg'. arrives_as (ttl_less (ttl_less dg)) dg' \<longrightarrow>
      (\<exists>seg'. fa_unwrap_tcp_in_ip lc dg' \<lparr>fa_cfg = cfg (\<not> c), fa_listen = False\<rparr> =
        Inr (Some seg', \<lparr>fa_cfg = cfg (\<not> c), fa_listen = False\<rparr>) \<and> same_segment seg seg')"
proof -
  let ?a = "\<lparr>fa_cfg = cfg c, fa_listen = False\<rparr>" and ?b = "\<lparr>fa_cfg = cfg (\<not> c), fa_listen = False\<rparr>"
  let ?h = "ad_header (hl_ip c 1) (hl_ip (\<not> c) 1) seg"
  obtain port where port: "\<And>c. fc_source (cfg c) = socket_address (hl_ip c 1) (port c)"
    "\<And>c. fc_destination (cfg c) = socket_address (hl_ip (\<not> c) 1) (port (\<not> c))"
    using cfg by (auto simp: configured_def)
  obtain dg k where dg: "fa_wrap_tcp_in_ip lc seg ?a = Inr dg" "dg_wf dg" "dg_header dg = ?h"
    "\<forall>b. buf_wf b \<longrightarrow> buf_str b = bl_bytes (dg_payload dg) \<longrightarrow>
       (\<exists>pay. ts_parse b (ip_pseudo_cksum ?h) TCPSegment_new =
          (NoError, \<lparr>ts_header = (ts_header seg)\<lparr>th_sport := port c, th_dport := port (\<not> c), th_cksum := k\<rparr>, ts_payload = pay\<rparr>) \<and>
        buf_str pay = buf_str (ts_payload seg))"
    by (rule fa_wrap_spec [OF lc _ _ seg, of ?a "hl_ip c 1" "port c" "hl_ip (\<not> c) 1" "port (\<not> c)"]) (simp_all add: port)
  have h: "ip_src ?h = hl_ip c 1" "ip_dst ?h = hl_ip (\<not> c) 1" "ip_proto ?h = PROTO_TCP" "ip_ttl ?h = DEFAULT_TTL"
    by (simp_all add: ad_header_def IPv4Header_new_def)
  show thesis
  proof (rule that [OF dg(1,2)], goal_cases)
    case 3
    show ?case
    proof (intro allI impI)
      fix dg'
      assume a: "arrives_as (ttl_less (ttl_less dg)) dg'"
      then obtain t m where h': "dg_header dg' = ?h\<lparr>ip_ttl := t, ip_cksum := m\<rparr>"
        using dg(3) by (auto simp: arrives_as_def alike_def ttl_less_def)
      obtain p where p: "dg_payload dg' = [p]" "buf_wf p" "buf_str p = bl_bytes (dg_payload dg)"
        using a by (auto simp: arrives_as_def alike_def ttl_less_def)
      have ck: "ip_pseudo_cksum (dg_header dg') = ip_pseudo_cksum ?h"
        by (simp add: h' ip_pseudo_cksum_def ip_payload_length_def)
      obtain pay where pay: "ts_parse p (ip_pseudo_cksum ?h) TCPSegment_new =
          (NoError, \<lparr>ts_header = (ts_header seg)\<lparr>th_sport := port c, th_dport := port (\<not> c), th_cksum := k\<rparr>, ts_payload = pay\<rparr>)"
        "buf_str pay = buf_str (ts_payload seg)"
        using dg(4) p(2,3) by blast
      let ?seg = "\<lparr>ts_header = (ts_header seg)\<lparr>th_sport := port c, th_dport := port (\<not> c), th_cksum := k\<rparr>, ts_payload = pay\<rparr>"
      have "fa_unwrap_tcp_in_ip lc dg' ?b = Inr (Some ?seg, ?b)"
        using p(1) pay(1) h ck
        by (simp add: fa_unwrap_tcp_in_ip_def fa_other_def fa_port_socket [OF lc] port h')
      moreover have "same_segment seg ?seg" using pay(2) by (auto simp: same_segment_def)
      ultimately show "\<exists>seg'. fa_unwrap_tcp_in_ip lc dg' ?b = Inr (Some seg', ?b) \<and> same_segment seg seg'" by blast
    qed
  qed (use h dg(3) in \<open>simp_all add: DEFAULT_TTL_def\<close>)
qed

lemma segment_sent:
  assumes lc: "numeric_libc lc" and cfg: "configured cfg" and seg: "fits seg" and s: "chat_in rd home cfg (\<lambda>_. Idle) s"
    and P: "\<And>s1 seg'. chat_in rd home cfg (\<lambda>_. Idle) s1 \<Longrightarrow> received s1 = (received s)((\<not> c) := received s (\<not> c) @ [seg']) \<Longrightarrow>
      same_segment seg seg' \<Longrightarrow> P s1"
  shows "\<exists>s1. chat_write lc c seg s = Inr s1 \<and> settles lc home 36 P s1"
proof -
  let ?e = "ch_end s c"
  let ?na = "ce_adapter ?e"
  note ok = chat_inD(1) [OF s, of c, unfolded end_ok_def]
  obtain dg where dg: "fa_wrap_tcp_in_ip lc seg \<lparr>fa_cfg = cfg c, fa_listen = False\<rparr> = Inr dg" "dg_wf dg"
    "ip_dst (dg_header dg) = hl_ip (\<not> c) 1" "2 < unat (ip_ttl (dg_header dg))"
    "\<forall>dg'. arrives_as (ttl_less (ttl_less dg)) dg' \<longrightarrow>
      (\<exists>seg'. fa_unwrap_tcp_in_ip lc dg' \<lparr>fa_cfg = cfg (\<not> c), fa_listen = False\<rparr> =
        Inr (Some seg', \<lparr>fa_cfg = cfg (\<not> c), fa_listen = False\<rparr>) \<and> same_segment seg seg')"
    by (rule wrapped [OF lc cfg seg])
  let ?hop = "socket_address (hl_ip c 0) 0"
  have w: "wired (hl_mac rd c) (hl_ip c) Idle (hl_faces ?e) (hl_wires ?e)" using chat_inD(3) [OF s, of c] by simp
  obtain ni ph where n: "ni_send_datagram dg ?hop (an_interface (hl_faces ?e 1)) = Inr ni" "ph = Ask 1 0 dg \<or> ph = Carry 1 0 dg"
    "wired (hl_mac rd c) (hl_ip c) ph ((hl_faces ?e)(1 := (hl_faces ?e 1)\<lparr>an_interface := ni\<rparr>)) (hl_wires ?e)"
    by (rule host_link.wired_send [OF w _ _ _ dg(2) alike_refl, of 1 0 ?hop]) auto
  let ?na1 = "?na\<lparr>na_interface := ni\<lparr>ni_frames_out := []\<rparr>\<rparr>"
  let ?e1 = "?e\<lparr>ce_adapter := ?na1, ce_up := ce_up ?e @ map enc (ni_frames_out ni)\<rparr>"
  have out: "bl_concatenate \<circ> ef_serialize = enc" by (simp add: enc_def fun_eq_iff)
  have sent: "chat_write lc c seg s = Inr (set_end c ?e1 s)"
    using dg(1) n(1) ok out
    by (simp add: chat_write_def na_write_def na_send_pending_def na_send_loop_map hl_faces_def AsyncNetworkInterface_new_def Let_def)
  have "wired (hl_mac rd c) (hl_ip c) ph (hl_faces ?e1) (hl_wires ?e1) = wired (hl_mac rd c) (hl_ip c) ph
      ((hl_faces ?e)(1 := \<lparr>an_interface = ni\<lparr>ni_frames_out := []\<rparr>, an_datagrams_out = []\<rparr>))
      ((hl_wires ?e)(1 := hl_wires ?e 1 @ map enc (ni_frames_out ni)))"
    by (intro wired_cong) (auto simp: hl_faces_def hl_wires_def AsyncNetworkInterface_new_def less_2_cases_iff)
  moreover have "wired (hl_mac rd c) (hl_ip c) ph ((hl_faces ?e)(1 := \<lparr>an_interface = ni\<lparr>ni_frames_out := []\<rparr>, an_datagrams_out = []\<rparr>))
      ((hl_wires ?e)(1 := hl_wires ?e 1 @ map enc (ni_frames_out ni)))"
    using wired_leaves_all [OF n(3), of 1] by (simp add: hl_faces_def AsyncNetworkInterface_new_def)
  ultimately have "wired (hl_mac rd c) (hl_ip c) ph (hl_faces ?e1) (hl_wires ?e1)" by simp
  moreover have "end_ok cfg c ?e1" using ok by (simp add: end_ok_def)
  moreover have "(net_faces s)(net_no c := rt_interfaces (ce_router ?e1) ! 1) = net_faces s"
    by (auto simp: net_faces_def fun_eq_iff)
  ultimately have "chat_in rd home cfg ((\<lambda>_. Idle)(Some c := ph, None := Idle)) (set_end c ?e1 s)"
    using chat_inD(4) [OF s] by (intro chat_in_set_end [OF s]) simp_all
  moreover have "(\<lambda>_. Idle)(Some c := ph, None := Idle) = on (Some c) ph" by auto
  ultimately have s1: "chat_in rd home cfg (on (Some c) ph) (set_end c ?e1 s)" by simp
  have "ph \<in> legs 1 0 dg" using n(2) by (auto simp: legs_def)
  moreover have "received (set_end c ?e1 s) = received s" by (auto simp: fun_eq_iff)
  ultimately have "settles lc home 36 P (set_end c ?e1 s)"
    by (rule segment_settles [where R = "same_segment seg", OF s1 _ _ dg(3,4)]) (use dg(5) in blast, erule (2) P)
  then show ?thesis using sent by blast
qed

section \<open>The two processes start\<close>

definition chat_names :: "(string \<times> uint32_t) list" where
  "chat_names =
     [(''192.168.0.1'', quad 192 168 0 1), (''10.0.0.192'', quad 10 0 0 192), (''192.168.0.0'', quad 192 168 0 0),
      (''10.0.0.0'', quad 10 0 0 0), (''172.16.0.0'', quad 172 16 0 0), (''10.0.0.172'', quad 10 0 0 172),
      (''172.16.0.1'', quad 172 16 0 1), (''192.168.0.50'', quad 192 168 0 50), (''172.16.0.100'', quad 172 16 0 100),
      (''0'', 0)]"

lemma chat_names_read:
  assumes "reads chat_names lc"
  shows "list_all (\<lambda>(str, n). Address_of_ip (lc_getaddrinfo lc) str 0 = Inr (socket_address n 0) \<and>
    sim_ip (lc_getaddrinfo lc) str = Inr n) chat_names"
  using Address_of_read [OF assms] by (auto simp: list_all_iff sim_ip_def)

text \<open>What a process is like when it starts.\<close>

definition fresh_interface :: "EthernetAddress \<Rightarrow> uint32_t \<Rightarrow> NetworkInterface" where
  "fresh_interface mac n = NetworkInterface_new mac (socket_address n 0)"

definition fresh_end :: "(nat \<Rightarrow> nat \<Rightarrow> uint8_t) \<Rightarrow> FdAdapterConfig \<Rightarrow> bool \<Rightarrow> chat_end" where
  "fresh_end r cfg c =
     \<lparr>ce_adapter = \<lparr>na_base = \<lparr>fa_cfg = cfg, fa_listen = False\<rparr>,
        na_interface = fresh_interface (hl_mac (\<lambda>_. r) c 1) (hl_ip c 1), na_next_hop = socket_address (hl_ip c 0) 0\<rparr>,
      ce_router = \<lparr>rt_interfaces = [AsyncNetworkInterface_new (fresh_interface (hl_mac (\<lambda>_. r) c 0) (hl_ip c 0)),
         AsyncNetworkInterface_new (fresh_interface (net_mac (\<lambda>_. r) (net_no c)) (net_ip (net_no c)))],
        rt_forwarding_table = chat_table c\<rparr>,
      ce_host_side = 0, ce_internet_side = 1, ce_up = [], ce_down = [], ce_received = []\<rparr>"

lemma chat_router_eq:
  assumes "reads chat_names lc"
  shows "chat_router (lc_getaddrinfo lc) r c = Inr (0, 1, ce_router (fresh_end r cfg c))"
  using chat_names_read [OF assms, unfolded chat_names_def list.pred_inject prod.case]
  by (cases c)
    (simp_all add: chat_router_def nw_add_interface_def nw_add_route_def rt_add_interface_def Router_new_def rt_add_route_def
      fresh_end_def fresh_interface_def hl_mac_def hl_ip_def net_mac_def net_ip_def chat_table_def quad_def mod_cmp_def)

lemma chat_adapter_eq:
  assumes "reads chat_names lc"
  shows "\<exists>base. chat_adapter lc (r 2) c =
    Inr ((ce_adapter (fresh_end r cfg c))\<lparr>na_base := \<lparr>fa_cfg = base, fa_listen = False\<rparr>\<rparr>)"
  using chat_names_read [OF assms, unfolded chat_names_def list.pred_inject prod.case]
  by (cases c)
    (simp_all add: chat_adapter_def NetworkInterfaceAdapter_new_def FdAdapterConfig_new_def fresh_end_def fresh_interface_def
      hl_mac_def hl_ip_def)

lemma chat_end_new_eq:
  assumes "reads chat_names lc"
  shows "chat_end_new lc r cfg c = Inr (fresh_end r cfg c)"
proof -
  obtain base where "chat_adapter lc (r 2) c =
      Inr ((ce_adapter (fresh_end r cfg c))\<lparr>na_base := \<lparr>fa_cfg = base, fa_listen = False\<rparr>\<rparr>)"
    using chat_adapter_eq [OF assms] by blast
  then show ?thesis
    using chat_router_eq [OF assms, of r c cfg] by (simp add: chat_end_new_def) (simp add: fresh_end_def fa_set_config_def)
qed

definition fresh_chat :: "(bool \<Rightarrow> nat \<Rightarrow> nat \<Rightarrow> uint8_t) \<Rightarrow> (bool \<Rightarrow> FdAdapterConfig) \<Rightarrow> (bool \<Rightarrow> Address) \<Rightarrow> chat" where
  "fresh_chat rd cfg home =
     \<lparr>ch_end = (\<lambda>c. fresh_end (rd c) (cfg c) c), ch_peer = (\<lambda>c. Some (home c)), ch_sent = (\<lambda>_. []), ch_relayed = (\<lambda>_. [])\<rparr>"

lemma chat_new_eq:
  assumes "reads chat_names lc"
  shows "chat_new lc rd cfg home = Inr (fresh_chat rd cfg home)"
proof -
  have "(\<lambda>c. if c then fresh_end (rd True) (cfg True) True else fresh_end (rd False) (cfg False) False) =
      (\<lambda>c. fresh_end (rd c) (cfg c) c)"
    by auto
  then show ?thesis by (simp add: chat_new_def chat_end_new_eq [OF assms] fresh_chat_def bo_relay_def)
qed

lemma fresh_in: "chat_in rd home cfg (\<lambda>_. Idle) (fresh_chat rd cfg home)"
proof -
  have "party 2 mac ip Idle i (AsyncNetworkInterface_new (fresh_interface (mac i) (ip i)))"
    if "length (mac i) = 6" for mac ip i
    using that by (simp add: party_def party_ok_def AsyncNetworkInterface_new_def fresh_interface_def ni_inv_new [OF _ addr_ipv4_numeric_socket])
      (simp add: NetworkInterface_new_def ni_cached_def)
  then have new: "on_link 2 mac ip Idle f" if "\<And>i. i < 2 \<Longrightarrow> f i = AsyncNetworkInterface_new (fresh_interface (mac i) (ip i)) \<and> length (mac i) = 6"
    for mac ip f using that by (simp add: on_link_def)
  have "on_link 2 (hl_mac rd c) (hl_ip c) Idle (hl_faces (fresh_end (rd c) (cfg c) c))" for c
    by (rule new) (auto simp: hl_faces_def fresh_end_def hl_mac_def random_mac less_2_cases_iff)
  then have "wired (hl_mac rd c) (hl_ip c) Idle (hl_faces (fresh_end (rd c) (cfg c) c)) (hl_wires (fresh_end (rd c) (cfg c) c))" for c
    unfolding wired_def by (intro exI [of _ "\<lambda>_. []"]) (simp add: hl_wires_def fresh_end_def)
  moreover have "on_link 2 (net_mac rd) net_ip Idle (net_faces (fresh_chat rd cfg home))"
    by (rule new) (auto simp: net_faces_def fresh_chat_def fresh_end_def net_mac_def random_mac net_no_cases)
  then have "wired (net_mac rd) net_ip Idle (net_faces (fresh_chat rd cfg home)) (net_wires (fresh_chat rd cfg home))"
    unfolding wired_def by (intro exI [of _ "\<lambda>_. []"]) (simp add: net_wires_def fresh_chat_def)
  moreover have "end_ok cfg c (fresh_end (rd c) (cfg c) c)" for c
    by (simp add: end_ok_def fresh_end_def fresh_interface_def NetworkInterface_new_def)
  ultimately show ?thesis by (simp add: chat_in_def) (simp add: fresh_chat_def)
qed


section \<open>A conversation\<close>

lemma settles_and_then:
  "settles lc home n P s \<Longrightarrow> (\<And>s1. P s1 \<Longrightarrow> Q s1) \<Longrightarrow> settles lc home n Q s"
proof (induction n arbitrary: s)
  case (Suc n)
  show ?case
  proof (cases "\<forall>e. chat_step lc home e s = None")
    case True
    then show ?thesis using Suc.prems by simp
  next
    case False
    have "\<exists>s1. chat_step lc home e s = Some (Inr s1) \<and> settles lc home n Q s1" if "chat_step lc home e s \<noteq> None" for e
      using that Suc False by (simp split: if_splits) blast
    then show ?thesis unfolding settles.simps(2) if_not_P [OF False] by blast
  qed
qed simp

lemma conversation_mono:
  "conversation lc home n segs P s \<Longrightarrow> (\<And>s1. P s1 \<Longrightarrow> Q s1) \<Longrightarrow> conversation lc home n segs Q s"
proof (induction segs arbitrary: s)
  case (Cons x segs)
  obtain c seg where x: "x = (c, seg)" by (cases x)
  obtain s1 where "chat_write lc c seg s = Inr s1" "settles lc home n (conversation lc home n segs P) s1"
    using Cons.prems(1) x by auto
  moreover from this(2) have "settles lc home n (conversation lc home n segs Q) s1"
    by (rule settles_and_then) (rule Cons.IH [OF _ Cons.prems(2)])
  ultimately show ?case using x by simp
qed simp

text \<open>What \<open>c\<close> has been sent.\<close>

definition sent_to :: "bool \<Rightarrow> (bool \<times> TCPSegment) list \<Rightarrow> TCPSegment list" where
  "sent_to c segs = map snd (filter (\<lambda>(c', _). c' \<noteq> c) segs)"

lemma sent_to_simps [simp]:
  "sent_to c [] = []" "sent_to c ((c', seg) # segs) = (if c' = c then sent_to c segs else seg # sent_to c segs)"
  by (simp_all add: sent_to_def)

lemma conversation_delivers:
  assumes lc: "numeric_libc lc" and cfg: "configured cfg"
  shows "\<forall>(c, seg) \<in> set segs. fits seg \<Longrightarrow> chat_in rd home cfg (\<lambda>_. Idle) s \<Longrightarrow>
    (\<And>c. received s c = old c) \<Longrightarrow>
    conversation lc home 36 segs (\<lambda>s1. \<forall>c. \<exists>new. received s1 c = old c @ new \<and> list_all2 same_segment (sent_to c segs) new) s"
proof (induction segs arbitrary: s old)
  case (Cons x segs)
  obtain c seg where x: "x = (c, seg)" by (cases x)
  let ?P = "\<lambda>s1. \<forall>c'. \<exists>new. received s1 c' = old c' @ new \<and> list_all2 same_segment (sent_to c' (x # segs)) new"
  have seg: "fits seg" and rest: "\<forall>(c, seg) \<in> set segs. fits seg" using Cons.prems(1) x by auto
  have "\<exists>s1. chat_write lc c seg s = Inr s1 \<and> settles lc home 36 (conversation lc home 36 segs ?P) s1"
  proof (rule segment_sent [OF lc cfg seg Cons.prems(2)])
    fix s1 seg'
    assume a: "chat_in rd home cfg (\<lambda>_. Idle) s1" "received s1 = (received s)((\<not> c) := received s (\<not> c) @ [seg'])" "same_segment seg seg'"
    let ?old = "old((\<not> c) := old (\<not> c) @ [seg'])"
    have "received s1 c' = ?old c'" for c' using fun_cong [OF a(2), of c'] Cons.prems(3) by simp
    from Cons.IH [OF rest a(1) this]
    have "conversation lc home 36 segs (\<lambda>s2. \<forall>c'. \<exists>new. received s2 c' = ?old c' @ new \<and> list_all2 same_segment (sent_to c' segs) new) s1" .
    then show "conversation lc home 36 segs ?P s1"
    proof (rule conversation_mono)
      fix s2
      assume b: "\<forall>c'. \<exists>new. received s2 c' = ?old c' @ new \<and> list_all2 same_segment (sent_to c' segs) new"
      show "?P s2"
      proof
        fix c'
        obtain new where "received s2 c' = ?old c' @ new" "list_all2 same_segment (sent_to c' segs) new" using b by blast
        then show "\<exists>new. received s2 c' = old c' @ new \<and> list_all2 same_segment (sent_to c' (x # segs)) new"
          using a(3) x by (cases "c' = c") (auto split: if_splits)
      qed
    qed
  qed
  then show ?case using x by simp
qed simp


text \<open>An example of the C library and of the adapters' configurations.\<close>

definition chat_libc :: libc where
  "chat_libc = example_libc\<lparr>lc_getaddrinfo := (\<lambda>node service hints.
     case map_of chat_names node of Some n \<Rightarrow> (0, Some (sockaddr_in n (of_nat (dec_value service)), 16))
     | None \<Rightarrow> lc_getaddrinfo example_libc node service hints)\<rparr>"

definition chat_config :: "bool \<Rightarrow> FdAdapterConfig" where
  "chat_config c =
     \<lparr>fc_source = socket_address (hl_ip c 1) 1234, fc_destination = socket_address (hl_ip (\<not> c) 1) 1234,
      fc_loss_rate_dn = 0, fc_loss_rate_up = 0\<rparr>"

lemma chat_config_ok: "configured chat_config"
  by (auto simp: configured_def chat_config_def intro: exI [of _ "\<lambda>_. 1234"])

lemma chat_libc_numeric: "numeric_libc chat_libc"
proof -
  have names: "length (split_dots [] str) \<noteq> 4" if "(str, n) \<in> set chat_names" for str n
    using that by (auto simp: chat_names_def)
  have "length (split_dots [] (inet_ntoa (htobe32 ip))) = 4" for ip by (simp add: split_inet_ntoa htobe32_def)
  then have "map_of chat_names (inet_ntoa (htobe32 ip)) = None" for ip
    by (metis names map_of_SomeD not_Some_eq)
  then have "map_of chat_names (lc_inet_ntoa example_libc (htobe32 ip)) = None" for ip by (simp add: example_libc_def)
  then show ?thesis using example_libc_numeric by (simp add: numeric_libc_def chat_libc_def)
qed

lemma chat_libc_reads: "reads chat_names chat_libc"
proof -
  have "distinct (map fst chat_names)" by (simp add: chat_names_def)
  then have "map_of chat_names str = Some n" if "(str, n) \<in> set chat_names" for str n using that by (rule map_of_is_SomeI)
  then show ?thesis by (auto simp: reads_def chat_libc_def dec_value_dec_string)
qed


section \<open>The chat\<close>

text \<open>C5: The chat between two processes behind the bouncer delivers. If the C library reads the addresses in the program and the
  adapters are configured for each other, the processes set up their routers, adapters and interfaces without an exception; and in
  a conversation in which each segment (of either side, fit for a datagram) is written only when all is quiet again after
  the one before, so that no segment overtakes the ARP exchange of another, whatever the order in which the network threads,
  the adapters and the bouncer do what there is to do, nothing throws, after at most 36 such
  events per segment there is nothing left to do, and in the end each side has been given exactly the segments that the other
  sent, in order (with the ports and the checksum filled in): the ARP requests and replies on the three links on the way, the two
  routers and the two relays in between lose nothing, repeat nothing and stop.\<close>

theorem chat_delivers:
  assumes "numeric_libc lc" and "reads chat_names lc" and "configured cfg" and "\<forall>(c, seg) \<in> set segs. fits seg"
  shows "\<exists>s. chat_new lc rd cfg home = Inr s \<and>
    conversation lc home 36 segs (\<lambda>s1. \<forall>c. list_all2 same_segment (sent_to c segs) (ce_received (ch_end s1 c))) s"
proof (intro exI conjI)
  show "chat_new lc rd cfg home = Inr (fresh_chat rd cfg home)" by (rule chat_new_eq [OF assms(2)])
  have "received (fresh_chat rd cfg home) c = []" for c by (simp add: fresh_chat_def fresh_end_def)
  from conversation_delivers [OF assms(1,3,4) fresh_in this]
  show "conversation lc home 36 segs (\<lambda>s1. \<forall>c. list_all2 same_segment (sent_to c segs) (ce_received (ch_end s1 c)))
      (fresh_chat rd cfg home)"
    by simp
qed

theorem chat_delivers_witness:
  "\<exists>s. chat_new chat_libc (\<lambda>_ d _. of_nat d) chat_config (\<lambda>_. socket_address 1 1) = Inr s \<and>
     conversation chat_libc (\<lambda>_. socket_address 1 1) 36 [(True, syn_example), (False, syn_example), (True, syn_example)]
       (\<lambda>s1. length (ce_received (ch_end s1 True)) = 1 \<and> length (ce_received (ch_end s1 False)) = 2) s"
proof -
  let ?segs = "[(True, syn_example), (False, syn_example), (True, syn_example)]" and ?home = "\<lambda>_. socket_address 1 1"
  have "\<forall>(c, seg) \<in> set ?segs. fits seg" by simp
  from chat_delivers [OF chat_libc_numeric chat_libc_reads chat_config_ok this, of "\<lambda>_ d _. of_nat d" ?home]
  obtain s where s: "chat_new chat_libc (\<lambda>_ d _. of_nat d) chat_config ?home = Inr s"
    "conversation chat_libc ?home 36 ?segs (\<lambda>s1. \<forall>c. list_all2 same_segment (sent_to c ?segs) (ce_received (ch_end s1 c))) s"
    by blast
  have "conversation chat_libc ?home 36 ?segs (\<lambda>s1. length (ce_received (ch_end s1 True)) = 1 \<and> length (ce_received (ch_end s1 False)) = 2) s"
  proof (rule conversation_mono [OF s(2)])
    fix s1
    assume a: "\<forall>c. list_all2 same_segment (sent_to c ?segs) (ce_received (ch_end s1 c))"
    show "length (ce_received (ch_end s1 True)) = 1 \<and> length (ce_received (ch_end s1 False)) = 2"
      using list_all2_lengthD [OF spec [OF a, of True]] list_all2_lengthD [OF spec [OF a, of False]] by simp
  qed
  then show ?thesis using s(1) by blast
qed

end
