(* ===== verification/Spec2Isabelle.thy ===== *)
theory Spec2Isabelle
  imports Socket_Pair Stream_Copy Benchmark_Run Simulated_Tests Chat_Delivery
begin

text \<open>
  A model of the user-space network stack under \<^verbatim>\<open>src/lab/stanfordCS144/sponge\<close>, and what is proved of it. Paths below
  are relative to its \<^verbatim>\<open>libsponge\<close> directory.

  \<^bold>\<open>The program.\<close> A \<^verbatim>\<open>TCPConnection\<close> joins a \<^verbatim>\<open>TCPSender\<close>, which cuts a \<^verbatim>\<open>ByteStream\<close> into segments and retransmits
  them, and a \<^verbatim>\<open>TCPReceiver\<close>, which puts segments in order with a \<^verbatim>\<open>StreamReassembler\<close> and acknowledges them. A
  \<^verbatim>\<open>TCPSpongeSocket\<close> runs a connection in the event loop of a thread, between a pipe to the application and an adapter
  that carries segments in UDP or IPv4 datagrams, over a TUN device or, with a \<^verbatim>\<open>NetworkInterface\<close> and ARP, over Ethernet. A
  \<^verbatim>\<open>Router\<close> forwards datagrams between interfaces.

  \<^bold>\<open>Theories and sources.\<close>
  \<^item> \<open>Sponge_Prelude\<close>: integers of 64 bits, exceptions (\<open>exn + 'a\<close>), lists and words.
  \<^item> \<open>Wrapping_Integers\<close> (\<^verbatim>\<open>wrapping_integers\<close>): \<^verbatim>\<open>wrap\<close> and \<^verbatim>\<open>unwrap\<close> are inverse near the checkpoint.
  \<^item> \<open>Buffers\<close> (\<^verbatim>\<open>util/buffer\<close>): locale \<open>discardable\<close>, satisfied by the three kinds of buffer.
  \<^item> \<open>Byte_Stream\<close> (\<^verbatim>\<open>byte_stream\<close>): locale \<open>bounded_stream\<close>; a stream is a bounded first-in first-out queue.
  \<^item> \<open>Stream_Reassembler\<close> (\<^verbatim>\<open>stream_reassembler\<close>): locale \<open>reassembly\<close>; whatever the order, repetition and overlap of the
    pieces, the output is a prefix of the stream, and all of it once the pieces cover it.
  \<^item> \<open>Net_Parser\<close> (\<^verbatim>\<open>util/parser\<close>, checksum of \<^verbatim>\<open>util/util\<close>), \<open>TCP_Segment\<close> (\<^verbatim>\<open>tcp_helpers/tcp_header\<close>, \<^verbatim>\<open>tcp_segment\<close>),
    \<open>IPv4_Datagram\<close> (\<^verbatim>\<open>ipv4_header\<close>, \<^verbatim>\<open>ipv4_datagram\<close>), \<open>Ethernet_ARP\<close> (\<^verbatim>\<open>ethernet_header\<close>, \<^verbatim>\<open>ethernet_frame\<close>,
    \<^verbatim>\<open>arp_message\<close>): what is serialized parses back, and what the parsers refuse.
  \<^item> \<open>TCP_Receiver\<close>, \<open>TCP_Sender\<close> (\<^verbatim>\<open>tcp_receiver\<close>, \<^verbatim>\<open>tcp_sender\<close>): invariants over every sequence of calls, and each call
    on every branch. \<open>TCP_State\<close> (\<^verbatim>\<open>tcp_helpers/tcp_state\<close>): the state summaries.
  \<^item> \<open>TCP_Connection\<close> (\<^verbatim>\<open>tcp_connection\<close>, \<^verbatim>\<open>tcp_helpers/tcp_config.hh\<close>): the invariant of an endpoint, its answers, its
    end by lingering, RST and abort.
  \<^item> \<open>Reliable_Delivery\<close>: two connections and a network that loses, repeats, delays and reorders segments; locale
    \<open>linked_parties\<close>. What arrives is what was sent, and what is acknowledged has arrived.
  \<^item> \<open>Address\<close> (\<^verbatim>\<open>util/address\<close>), \<open>Network_Interface\<close> (\<^verbatim>\<open>network_interface\<close>), \<open>Router\<close> (\<^verbatim>\<open>router\<close>): ARP resolution,
    and forwarding as longest prefix match.
  \<^item> \<open>TCP_Adapters\<close> (\<^verbatim>\<open>tcp_helpers/fd_adapter\<close>, \<^verbatim>\<open>tcp_over_ip\<close>, \<^verbatim>\<open>tuntap_adapter\<close>, \<^verbatim>\<open>lossy_fd_adapter\<close>): locale
    \<open>segment_carrier\<close>; a connection behind an adapter behaves as if it were given the segments themselves.
  \<^item> \<open>File_Descriptor\<close> (\<^verbatim>\<open>util/file_descriptor\<close>, \<^verbatim>\<open>util/socket\<close>, \<^verbatim>\<open>SystemCall\<close>): partial writes end and write every byte once. \<open>SystemCall\<close>
    takes an \<^verbatim>\<open>int\<close>, to which the results of \<open>read\<close>, \<open>writev\<close>, \<open>recvfrom\<close> and \<open>sendmsg\<close> are narrowed (\<open>SystemCall_ssize_t\<close>).
  \<^item> \<open>Event_Loop\<close> (\<^verbatim>\<open>util/eventloop\<close>): locales \<open>event_client\<close> and \<open>marking_client\<close>; the contract between the loop and the
    rules that use it, and what a client may rely on then.
  \<^item> \<open>Sponge_Socket\<close> (\<^verbatim>\<open>tcp_helpers/tcp_sponge_socket\<close>) and \<open>Socket_Pair\<close>: the rules of a socket satisfy \<open>event_client\<close>, a
    socket implements an endpoint of \<open>Reliable_Delivery\<close>, and two sockets satisfy \<open>linked_parties\<close>: the bytes of one
    application arrive at the other, and only a broken descriptor or a call that fails (of the system, the adapter, or
    the printing of an address) makes a socket's loop throw. \<open>Endpoint_Facts\<close> has
    lemmas for this.
  \<^item> \<open>UDP_Socket\<close> (\<^verbatim>\<open>tcp_helpers/fd_adapter\<close>, \<^verbatim>\<open>util/socket\<close>): the UDP adapter with its socket meets the contract that
    a socket has with its adapter; what it reads, from whom, and the one datagram that a write hands to \<open>sendmsg\<close>.
  \<^item> \<open>TCP_Progress\<close>, \<open>Lossless_Exchange\<close>, \<open>TCP_Benchmark\<close>, \<open>Benchmark_Run\<close> (\<^verbatim>\<open>apps/tcp_benchmark.cc\<close>): a connection is
    never idle while it has something to send; over a network that loses nothing, what was sent has arrived or is on its way,
    and the sender keeps to the window; so every round of the benchmark brings the acknowledgments forward, its loops end,
    and what was received is what was sent.
  \<^item> \<open>Ethernet_Link\<close> (\<^verbatim>\<open>network_interface\<close>): locale \<open>link_parties\<close>, how the interfaces on one link resolve an address and
    hand over a datagram.
  \<^item> \<open>Network_Simulator\<close>, \<open>Simulated_Network\<close>, \<open>Simulated_Setup\<close>, \<open>Simulated_Tests\<close> (\<^verbatim>\<open>apps/network_simulator.cc\<close>): the program, the
    network that it sets up, which satisfies \<open>link_parties\<close>, and that every test of the program succeeds. A test runs 256 rounds, of which six are enough
    (\<open>journey\<close>, \<open>dropped\<close>); the others change nothing (\<open>rounds_stable\<close>).
  \<^item> \<open>Internet_Chat\<close> (\<^verbatim>\<open>apps/lab7.cc\<close>, \<^verbatim>\<open>apps/bouncer.cc\<close>): the adapter, the socket, the router and the network thread of a
    chat process, and the server that relays between two of them.
  \<^item> \<open>Wired_Link\<close>, \<open>Chat_World\<close>, \<open>Chat_Moves\<close>, \<open>Chat_Delivery\<close>: two chat processes and the bouncer as one system, whose events
    happen in any order; locale \<open>wired_link\<close> extends \<open>link_parties\<close> to frames under way in pipes and datagrams, and is
    interpreted on the three links. A segment takes three legs of at most twelve events each (\<open>settles_leg\<close>), so that everything settles
    after 36, and each side is given what the other sent, provided that each segment is written when all is quiet again (one that is
    written while an ARP request is pending is lost, as \<open>Network_Interface\<close> shows). Time stands still there, and UDP loses nothing.
  \<^item> \<open>Stream_Copy\<close> (\<^verbatim>\<open>apps/bidirectional_stream_copy.cc\<close>): its rules satisfy \<open>marking_client\<close>; copying keeps both directions
    in order and at the end nothing is left behind.

  \<^bold>\<open>How the code is modelled.\<close> A class is a record and its members are functions from state to state; a member that may throw
  returns \<open>exn + 'a\<close>, and the state at the throw is dropped, as it is unwound by every caller. Words have the width of the
  code; \<^verbatim>\<open>size_t\<close> is a \<open>nat\<close> with \<open>u64\<close> and \<open>sub64\<close> at every operation that can wrap. A \<^verbatim>\<open>std::map\<close> is an association list
  in the order of iteration. Loops over queues and lists are structural recursion; the loops of \<^verbatim>\<open>fill_window\<close>, of the
  reassembler and of \<^verbatim>\<open>write\<close> have termination proofs. The loops of the benchmark are partial functions into an option,
  \<open>None\<close> for a loop that does not end, and are proved to end. Only the event loops of sockets and of the stream copy may run for
  ever: they take fuel, \<open>None\<close> says that they have not ended, and their properties are stated of every state
  that rounds lead to, so that they do not depend on the fuel.

  \<^bold>\<open>What is a parameter.\<close> System calls, \<^verbatim>\<open>getaddrinfo\<close>, \<^verbatim>\<open>getnameinfo\<close> and random numbers are arguments. Where a property
  needs more of them it says so: \<open>honest_system\<close> and \<open>honest_udp\<close> state the calls' manual pages, and that a call that fails makes
  \<^verbatim>\<open>SystemCall\<close> throw one of a given set of exceptions (\<open>wo_errors\<close>; so do \<open>getnameinfo\<close> and an adapter), \<open>honest_writev\<close>,
  \<open>honest_read\<close> and \<open>honest_copy\<close> state them for calls that do not fail, \<open>transfers_at_most MAX_RW_COUNT\<close> that \<open>writev\<close> takes no more
  than Linux lets it in one call, \<open>honest_adapter\<close> what a socket relies on of its adapter (proved of the UDP adapter), \<open>numeric_libc\<close> that the C library converts addresses faithfully,
  \<open>reads_names\<close> and \<open>reads chat_names\<close> that it reads the addresses written in the simulator and in the chat;
  \<open>configured\<close> that the adapters of a chat are set up for each other, as they are once a connection was accepted; \<open>tells_apart\<close> says that the random Ethernet addresses of
  the simulator's shared link differ.
  Streams are below \<open>2 ^ 31\<close> bytes in \<open>Reliable_Delivery\<close>, \<open>Socket_Pair\<close> and \<open>Benchmark_Run\<close>, since beyond that an old segment may be taken
  for a new one.

  \<^bold>\<open>Not modelled.\<close> Starting and joining the thread of a socket and its destructor (threads), reference counts and destructors of
  descriptors, \<^verbatim>\<open>bind\<close>, \<^verbatim>\<open>connect\<close>, \<^verbatim>\<open>listen\<close> and \<^verbatim>\<open>setsockopt\<close> of \<^verbatim>\<open>util/socket.cc\<close> and \<^verbatim>\<open>util/tun.cc\<close> (they only pass
  their arguments to the system), \<^verbatim>\<open>hexdump\<close>, time stamps and the random generator of \<^verbatim>\<open>util/util.cc\<close>, messages on standard
  error (but that printing an address in them may throw); and the programs under \<^verbatim>\<open>apps\<close> other than the stream copy, the benchmark,
  the network simulator, the chat and its bouncer, which parse arguments, print, and call what is modelled.
\<close>

end
